(* ===== verification/Toccata_Prelude.thy ===== *)
theory Toccata_Prelude
  imports Main "HOL-Library.Word" "HOL-Library.Monad_Syntax" "HOL-Library.Multiset"
begin

text \<open>
  The vocabulary shared by every component of the toccata model.

  \<^item> A Rust computation that may panic is a value of type \<open>'a rust\<close>: \<open>None\<close> is the
    panic, \<open>Some r\<close> a normal return. A Rust \<open>Option\<close> result is a second, inner option.
  \<^item> \<open>idx\<close> and \<open>upd\<close> are slice indexing and slice assignment: out of range they panic.
  \<^item> \<open>usize\<close> and \<open>u32\<close> quantities are natural numbers, with the truncation of a cast
    (\<open>as_u32\<close>, \<open>as_u16\<close>) and the wrap-around of \<open>u32\<close> arithmetic (\<open>add32\<close>, \<open>sub32\<close>)
    written out; bitmap words are \<open>64 word\<close>.
  \<^item> \<open>trailing_zeros\<close>, \<open>count_ones\<close> and \<open>div_ceil\<close> are the Rust library functions the
    sources use.

  The collections \<open>rust_simps\<close> (unfolding of checked array access) and \<open>bits_simps\<close>
  (bits of masks and of updated words) carry the component proofs.
\<close>

unbundle bit_operations_syntax

named_theorems rust_simps
named_theorems bits_simps

subsection \<open>Panics and checked indexing\<close>

type_synonym 'a rust = "'a option"
type_synonym u64 = "64 word"

definition idx :: "'a list \<Rightarrow> nat \<Rightarrow> 'a rust" where
  "idx xs i = (if i < length xs then Some (xs ! i) else None)"

definition upd :: "'a list \<Rightarrow> nat \<Rightarrow> 'a \<Rightarrow> 'a list rust" where
  "upd xs i v = (if i < length xs then Some (xs[i := v]) else None)"

lemma idx_in [simp, rust_simps]: "i < length xs \<Longrightarrow> idx xs i = Some (xs ! i)"
  by (simp add: idx_def)

lemma upd_in [simp, rust_simps]: "i < length xs \<Longrightarrow> upd xs i v = Some (xs[i := v])"
  by (simp add: upd_def)

lemma idx_out [simp]: "length xs \<le> i \<Longrightarrow> idx xs i = None"
  by (simp add: idx_def)

lemma upd_out [simp]: "length xs \<le> i \<Longrightarrow> upd xs i v = None"
  by (simp add: upd_def)

subsection \<open>Integer casts and library arithmetic\<close>

definition as_u32 :: "nat \<Rightarrow> nat" where
  "as_u32 n = n mod 2 ^ 32"

definition as_u16 :: "nat \<Rightarrow> nat" where
  "as_u16 n = n mod 2 ^ 16"

lemma as_u32_small [simp]: "n < 2 ^ 32 \<Longrightarrow> as_u32 n = n"
  by (simp add: as_u32_def)

lemma as_u16_small [simp]: "n < 2 ^ 16 \<Longrightarrow> as_u16 n = n"
  by (simp add: as_u16_def)

text \<open>\<open>u32\<close> addition and subtraction of the release build, which wrap around.\<close>

definition add32 :: "nat \<Rightarrow> nat \<Rightarrow> nat" where
  "add32 a b = (a + b) mod 2 ^ 32"

definition sub32 :: "nat \<Rightarrow> nat \<Rightarrow> nat" where
  "sub32 a b = (a + 2 ^ 32 - b mod 2 ^ 32) mod 2 ^ 32"

lemma add32_small [simp]: "a + b < 2 ^ 32 \<Longrightarrow> add32 a b = a + b"
  by (simp add: add32_def)

lemma sub32_small [simp]: "b \<le> a \<Longrightarrow> a < 2 ^ 32 \<Longrightarrow> sub32 a b = a - b"
proof -
  assume "b \<le> a" "a < 2 ^ 32"
  then have "a + 2 ^ 32 - b mod 2 ^ 32 = (a - b) + 2 ^ 32" by simp
  then show ?thesis using \<open>a < 2 ^ 32\<close> by (simp add: sub32_def)
qed

definition div_ceil :: "nat \<Rightarrow> nat \<Rightarrow> nat" where
  "div_ceil a b = (if 0 < a mod b then a div b + 1 else a div b)"

lemma div_ceil_mult_ge: "0 < b \<Longrightarrow> a \<le> div_ceil a b * b"
proof -
  assume "0 < b"
  have "a = a div b * b + a mod b" by (metis div_mult_mod_eq)
  moreover have "a mod b < b" using \<open>0 < b\<close> by simp
  ultimately have "a \<le> a div b * b + b" "a mod b = 0 \<Longrightarrow> a \<le> a div b * b" by linarith+
  then show ?thesis by (simp add: div_ceil_def algebra_simps)
qed

lemma div_ceil_mult_less: "0 < b \<Longrightarrow> div_ceil a b * b < a + b"
proof -
  assume "0 < b"
  have e: "a = a div b * b + a mod b" by (metis div_mult_mod_eq)
  show ?thesis
  proof (cases "0 < a mod b")
    case True
    then have "div_ceil a b * b = a div b * b + b" by (simp add: div_ceil_def)
    also have "\<dots> < a + b" using e True by linarith
    finally show ?thesis .
  next
    case False
    then show ?thesis using e \<open>0 < b\<close> by (simp add: div_ceil_def)
  qed
qed

lemma div_ceil_le_iff: "0 < b \<Longrightarrow> div_ceil a b \<le> k \<longleftrightarrow> a \<le> k * b"
proof
  assume "0 < b" "div_ceil a b \<le> k"
  then show "a \<le> k * b"
    using div_ceil_mult_ge [of b a] by (meson le_trans mult_le_mono1)
next
  assume b: "0 < b" and k: "a \<le> k * b"
  have "div_ceil a b * b < k * b + b" using div_ceil_mult_less [OF b, of a] k by linarith
  then have "div_ceil a b * b < (k + 1) * b" by simp
  then show "div_ceil a b \<le> k" using b by (metis Suc_eq_plus1 less_Suc_eq_le mult_less_cancel2)
qed

lemma div_ceil_pos: "0 < a \<Longrightarrow> 0 < b \<Longrightarrow> 0 < div_ceil a b"
  using div_ceil_le_iff [of b a 0] by linarith

lemma div_ceil_exact [simp]: "0 < b \<Longrightarrow> div_ceil (k * b) b = k"
  by (simp add: div_ceil_def)

subsection \<open>Bits of a 64-bit word\<close>

function tz_from :: "u64 \<Rightarrow> nat \<Rightarrow> nat" where
  "tz_from w n = (if 64 \<le> n then 64 else if bit w n then n else tz_from w (Suc n))"
  by pat_completeness auto
termination
  by (relation "measure (\<lambda>(w, n). 64 - n)") auto

declare tz_from.simps [simp del]

definition trailing_zeros :: "u64 \<Rightarrow> nat" where
  "trailing_zeros w = tz_from w 0"

definition count_ones :: "u64 \<Rightarrow> nat" where
  "count_ones w = length (filter (bit w) [0..<64])"

text \<open>The bits of a word as a set of positions.\<close>

definition bits :: "u64 \<Rightarrow> nat set" where
  "bits w = {i. bit w i}"

lemma bit_bound: "bit (w::u64) i \<Longrightarrow> i < 64"
  using bit_imp_le_length [of w i] by simp

lemma bits_bound [simp]: "i \<in> bits w \<Longrightarrow> i < 64"
  by (simp add: bits_def bit_bound)

lemma bits_subset: "bits w \<subseteq> {..<64}"
  by auto

lemma finite_bits [simp]: "finite (bits w)"
  using bits_subset finite_lessThan by (rule finite_subset)

lemma bits_eq_iff: "w = v \<longleftrightarrow> bits w = bits v"
  by (auto simp: bits_def set_eq_iff intro: bit_eqI)

lemma bits_0 [simp, bits_simps]: "bits 0 = {}"
  by (simp add: bits_def)

lemma bits_empty_iff [simp]: "bits w = {} \<longleftrightarrow> w = 0"
  using bits_eq_iff [of w 0] by simp

lemma bits_OR [bits_simps]: "bits (w OR v) = bits w \<union> bits v"
  by (auto simp: bits_def bit_or_iff)

lemma bits_AND [bits_simps]: "bits (w AND v) = bits w \<inter> bits v"
  by (auto simp: bits_def bit_and_iff)

lemma bits_NOT [bits_simps]: "bits (NOT w) = {..<64} - bits w"
  by (auto simp: bits_def bit_not_iff dest: bit_bound)

lemma bits_AND_NOT: "bits (w AND NOT v) = bits w - bits v"
  by (auto simp: bits_AND bits_NOT)

lemma bits_max [bits_simps]: "bits (- 1) = {..<64}"
  by (auto simp: bits_def)

lemma bits_single [bits_simps]: "i < 64 \<Longrightarrow> bits (push_bit i 1) = {i}"
  by (auto simp: bits_def bit_push_bit_iff bit_1_iff simp del: push_bit_of_1)

lemma bits_high_mask [bits_simps]: "bits (push_bit i (- 1)) = {i..<64}"
  by (auto simp: bits_def bit_not_iff bit_mask_iff dest: bit_bound)

lemma bits_low_mask [bits_simps]: "i \<le> 64 \<Longrightarrow> bits (mask i) = {..<i}"
  by (auto simp: bits_def bit_mask_iff)

lemma count_ones_card: "count_ones w = card (bits w)"
proof -
  have "set (filter (bit w) [0..<64]) = bits w"
    by (auto simp: bits_def dest: bit_bound)
  moreover have "distinct (filter (bit w) [0..<64])" by simp
  ultimately show ?thesis
    unfolding count_ones_def using distinct_card by metis
qed

lemma tz_from_least:
  "i \<in> bits w \<Longrightarrow> n \<le> i \<Longrightarrow> tz_from w n \<in> bits w \<and> n \<le> tz_from w n \<and> tz_from w n \<le> i"
proof (induction w n rule: tz_from.induct)
  case (1 w n)
  show ?case
  proof (cases "bit w n")
    case True
    then have "tz_from w n = n" using bit_bound [OF True] by (simp add: tz_from.simps [of w n])
    then show ?thesis using True "1.prems" by (simp add: bits_def)
  next
    case False
    have n: "n < 64" using "1.prems" bits_bound by (meson le_less_trans)
    have "Suc n \<le> i" using False "1.prems" by (metis bits_def mem_Collect_eq not_less_eq_eq le_antisym)
    then show ?thesis using "1.IH" "1.prems" n False
      by (simp add: tz_from.simps [of w n])
  qed
qed

lemma trailing_zeros_in: "w \<noteq> 0 \<Longrightarrow> trailing_zeros w \<in> bits w"
  using tz_from_least [of _ w 0] by (fastforce simp: trailing_zeros_def simp flip: bits_empty_iff)

lemma trailing_zeros_le: "i \<in> bits w \<Longrightarrow> trailing_zeros w \<le> i"
  using tz_from_least [of i w 0] by (simp add: trailing_zeros_def)

lemma trailing_zeros_less: "w \<noteq> 0 \<Longrightarrow> trailing_zeros w < 64"
  using trailing_zeros_in bits_bound by blast

lemma trailing_zeros_Min: "w \<noteq> 0 \<Longrightarrow> trailing_zeros w = Min (bits w)"
  using trailing_zeros_in trailing_zeros_le by (intro Min_eqI [symmetric]) auto

subsection \<open>Arrays of words as bitmaps\<close>

definition bitmap_of :: "u64 list \<Rightarrow> nat \<Rightarrow> bool" where
  "bitmap_of ws i \<longleftrightarrow> i div 64 < length ws \<and> i mod 64 \<in> bits (ws ! (i div 64))"

lemma same_word: "(j::nat) div 64 = i div 64 \<Longrightarrow> j mod 64 = i mod 64 \<longleftrightarrow> j = i"
  by (metis div_mult_mod_eq)

lemma bitmap_of_OR:
  assumes "i div 64 < length ws"
  shows "bitmap_of (ws[i div 64 := (ws ! (i div 64)) OR push_bit (i mod 64) 1]) j \<longleftrightarrow>
    j = i \<or> bitmap_of ws j"
proof (cases "j div 64 = i div 64")
  case True
  then show ?thesis
    using assms same_word [OF True] by (simp add: bitmap_of_def bits_simps del: push_bit_of_1)
qed (auto simp: bitmap_of_def)

lemma bitmap_of_AND_NOT:
  assumes "i div 64 < length ws"
  shows "bitmap_of (ws[i div 64 := (ws ! (i div 64)) AND NOT (push_bit (i mod 64) 1)]) j \<longleftrightarrow>
    j \<noteq> i \<and> bitmap_of ws j"
proof (cases "j div 64 = i div 64")
  case True
  then show ?thesis
    using assms same_word [OF True]
    by (auto simp: bitmap_of_def bits_simps simp del: push_bit_of_1)
qed (auto simp: bitmap_of_def)

lemma bitmap_of_pair: "w < length ws \<Longrightarrow> b < 64 \<Longrightarrow> bitmap_of ws (w * 64 + b) \<longleftrightarrow> b \<in> bits (ws ! w)"
  by (simp add: bitmap_of_def)

lemma bitmap_of_bound: "bitmap_of ws i \<Longrightarrow> i < 64 * length ws"
  by (simp add: bitmap_of_def) linarith

lemma bitmap_of_upd:
  "w < length ws \<Longrightarrow> bitmap_of (ws[w := v]) j \<longleftrightarrow>
     (if j div 64 = w then j mod 64 \<in> bits v else bitmap_of ws j)"
  by (auto simp: bitmap_of_def nth_list_update)

lemma bitmap_of_replicate [simp]: "\<not> bitmap_of (replicate n 0) j"
  by (auto simp: bitmap_of_def)

text \<open>\<open>usize\<close> arithmetic of the release build.\<close>

definition add64 :: "nat \<Rightarrow> nat \<Rightarrow> nat" where
  "add64 a b = (a + b) mod 2 ^ 64"

definition sub64 :: "nat \<Rightarrow> nat \<Rightarrow> nat" where
  "sub64 a b = (a + 2 ^ 64 - b mod 2 ^ 64) mod 2 ^ 64"

lemma add64_small [simp]: "a + b < 2 ^ 64 \<Longrightarrow> add64 a b = a + b"
  by (simp add: add64_def)

lemma sub64_small [simp]: "b \<le> a \<Longrightarrow> a < 2 ^ 64 \<Longrightarrow> sub64 a b = a - b"
proof -
  assume "b \<le> a" "a < 2 ^ 64"
  then have "a + 2 ^ 64 - b mod 2 ^ 64 = (a - b) + 2 ^ 64" by simp
  then show ?thesis using \<open>a < 2 ^ 64\<close> by (simp add: sub64_def)
qed

subsection \<open>Powers of two\<close>

text \<open>\<open>bit_len\<close> is \<open>usize::BITS - leading_zeros\<close>.\<close>

fun bit_len :: "nat \<Rightarrow> nat" where
  "bit_len n = (if n = 0 then 0 else Suc (bit_len (n div 2)))"

declare bit_len.simps [simp del]

text \<open>\<open>usize::is_power_of_two\<close> and \<open>usize::trailing_zeros\<close>.\<close>

definition is_pow2 :: "nat \<Rightarrow> bool" where
  "is_pow2 n \<longleftrightarrow> count_ones (of_nat n) = 1"

definition trailing_zeros_nat :: "nat \<Rightarrow> nat" where
  "trailing_zeros_nat n = trailing_zeros (of_nat n)"

lemma unat_of_nat_small: "n < 2 ^ 64 \<Longrightarrow> unat (of_nat n :: u64) = n"
  by (simp add: unat_of_nat take_bit_nat_eq_self)

lemma pow2_word:
  assumes "count_ones w = 1"
  shows "trailing_zeros w < 64" "unat w = 2 ^ trailing_zeros w"
proof -
  obtain k where k: "bits w = {k}" using assms by (auto simp: count_ones_card card_1_singleton_iff)
  then have "w \<noteq> 0" using bits_empty_iff [of w] by auto
  then have t: "trailing_zeros w = k" using trailing_zeros_in k by blast
  have k64: "k < 64" using k bits_bound [of k w] by simp
  have "w = push_bit k 1" using k bits_single [OF k64] bits_eq_iff by blast
  then have "w = word_of_nat (2 ^ k)" by (simp add: push_bit_eq_mult)
  moreover have "(2::nat) ^ k < 2 ^ 64" by (rule power_strict_increasing) (use k64 in simp_all)
  ultimately have "unat w = 2 ^ k" using unat_of_nat_small [of "2 ^ k"] by simp
  then show "trailing_zeros w < 64" "unat w = 2 ^ trailing_zeros w" using t k64 by simp_all
qed

lemma is_pow2_power:
  assumes "is_pow2 n" "n < 2 ^ 64"
  shows "n = 2 ^ trailing_zeros_nat n" "trailing_zeros_nat n < 64"
  using pow2_word [of "of_nat n"] assms by (auto simp: is_pow2_def trailing_zeros_nat_def unat_of_nat_small)

lemma trailing_zeros_nat_power: 
  assumes "k < 64" 
  shows "trailing_zeros_nat (2 ^ k) = k" "is_pow2 (2 ^ k)"
proof -
  have "(of_nat (2 ^ k) :: u64) = push_bit k 1" by (simp add: push_bit_eq_mult)
  then have b: "bits (of_nat (2 ^ k)) = {k}" using bits_single [OF assms] by simp
  then have "(of_nat (2 ^ k) :: u64) \<noteq> 0" using bits_empty_iff by (metis insert_not_empty)
  then show "trailing_zeros_nat (2 ^ k) = k" using trailing_zeros_in b by (auto simp: trailing_zeros_nat_def)
  show "is_pow2 (2 ^ k)" using b by (simp add: is_pow2_def count_ones_card)
qed

end
