(* ===== verification/Size_Class.thy ===== *)
theory Size_Class
  imports Toccata_Prelude
begin

text \<open>
  Size classes (\<^verbatim>\<open>toccata-core/src/sizeclass.rs\<close>): the class table, the linear scan
  \<open>class_for\<close>, the compile-time lookup table and its \<open>class_of\<close>, and the search for a
  class that satisfies an alignment. The table is built by the same two nested cursors as in
  the source; that the constant-time \<open>class_of\<close> and the scan \<open>class_for\<close> agree, and that
  both return the best fit, is what the rest of the allocator relies on.
\<close>

definition MAX_SMALL :: nat where
  "MAX_SMALL = 256 * 1024"

definition MIN_ALIGN :: nat where
  "MIN_ALIGN = 8"

definition CLASS_SIZES :: "nat list" where
  "CLASS_SIZES =
    [0,
     8, 16, 24, 32, 48, 64, 80, 96, 112, 128,
     160, 192, 224, 256,
     320, 384, 448, 512,
     640, 768, 896, 1024,
     1280, 1536, 1792, 2048,
     2560, 3072, 3584, 4096,
     5120, 6144, 7168, 8192,
     10240, 12288, 14336, 16384,
     20480, 24576, 28672, 32768,
     49152, 65536,
     98304, 131072,
     196608, 262144]"

definition NUM_CLASSES :: nat where
  "NUM_CLASSES = length CLASS_SIZES"

text \<open>\<open>class_for\<close>: the \<^verbatim>\<open>while\<close> loop over the table, from index 1.\<close>

function class_for_loop :: "nat \<Rightarrow> nat \<Rightarrow> nat option" where
  "class_for_loop want i =
     (if i < length CLASS_SIZES
      then (if want \<le> CLASS_SIZES ! i then Some i else class_for_loop want (Suc i))
      else None)"
  by pat_completeness auto
termination
  by (relation "measure (\<lambda>(want, i). length CLASS_SIZES - i)") auto

definition class_for :: "nat \<Rightarrow> nat option" where
  "class_for sz =
     (if MAX_SMALL < sz then None
      else class_for_loop (if sz = 0 then 1 else sz) 1)"

definition LOOKUP_LEN :: nat where
  "LOOKUP_LEN = MAX_SMALL div 8 + 1"

text \<open>\<open>build_lookup_const\<close>: the inner loop advances the class cursor, the outer one the entry.\<close>

function advance_class :: "nat \<Rightarrow> nat \<Rightarrow> nat" where
  "advance_class sz cls =
     (if cls < length CLASS_SIZES \<and> CLASS_SIZES ! cls < sz
      then advance_class sz (Suc cls) else cls)"
  by pat_completeness auto
termination
  by (relation "measure (\<lambda>(sz, cls). length CLASS_SIZES - cls)") auto

function build_lookup_loop :: "nat \<Rightarrow> nat \<Rightarrow> nat list \<Rightarrow> nat list" where
  "build_lookup_loop i cls table =
     (if i < LOOKUP_LEN
      then let sz = (if i = 0 then 1 else i * 8);
               cls' = advance_class sz cls
           in build_lookup_loop (Suc i) cls'
                (table[i := (if cls' < length CLASS_SIZES then as_u16 cls' else 0)])
      else table)"
  by pat_completeness auto
termination
  by (relation "measure (\<lambda>(i, cls, table). LOOKUP_LEN - i)") (auto simp: Let_def)

declare class_for_loop.simps [simp del] advance_class.simps [simp del]
  build_lookup_loop.simps [simp del]

definition build_lookup_const :: "nat list" where
  "build_lookup_const = build_lookup_loop 0 1 (replicate LOOKUP_LEN 0)"

definition LOOKUP :: "nat list" where
  "LOOKUP = build_lookup_const"

definition class_of :: "nat \<Rightarrow> nat option rust" where
  "class_of sz =
     (if sz = 0 \<or> MAX_SMALL < sz then Some None
      else do {
        c \<leftarrow> idx LOOKUP ((sz + (MIN_ALIGN - 1)) div 8);
        Some (if c \<noteq> 0 then Some c else None)
      })"

definition size_of_class :: "nat \<Rightarrow> nat rust" where
  "size_of_class cls = idx CLASS_SIZES cls"

text \<open>The loop of \<open>aligned_class\<close>; a zero alignment divides by zero, which panics.\<close>

function aligned_class_loop :: "nat \<Rightarrow> nat \<Rightarrow> nat option rust" where
  "aligned_class_loop align cls =
     (if cls < length CLASS_SIZES then
        (if align = 0 then None
         else if CLASS_SIZES ! cls mod align \<noteq> 0
         then (if NUM_CLASSES \<le> Suc cls then Some None else aligned_class_loop align (Suc cls))
         else Some (Some cls))
      else None)"
  by pat_completeness auto
termination
  by (relation "measure (\<lambda>(align, cls). length CLASS_SIZES - cls)") auto

declare aligned_class_loop.simps [simp del]

definition aligned_class :: "nat \<Rightarrow> nat \<Rightarrow> nat option rust" where
  "aligned_class need align = do {
     c \<leftarrow> class_of need;
     case c of None \<Rightarrow> Some None | Some cls \<Rightarrow> aligned_class_loop align cls
   }"

subsection \<open>The table\<close>

lemma NUM_CLASSES_eq [simp]: "NUM_CLASSES = 49" "length CLASS_SIZES = 49"
  by (simp_all add: NUM_CLASSES_def CLASS_SIZES_def)

lemma all_classes: "(\<forall>i<49. P i) \<longleftrightarrow> list_all P [0..<49]" for P :: "nat \<Rightarrow> bool"
  by (auto simp: list_all_iff)

lemma class_sizes_step: "\<forall>i<49. 0 < i \<and> i < 48 \<longrightarrow> CLASS_SIZES ! i < CLASS_SIZES ! Suc i"
  unfolding all_classes CLASS_SIZES_def by (simp add: upt_rec)

lemma class_sizes_mono:
  assumes "0 < i" "i < j" "j < 49"
  shows "CLASS_SIZES ! i < CLASS_SIZES ! j"
  using assms
proof (induction j)
  case (Suc j)
  have "CLASS_SIZES ! j < CLASS_SIZES ! Suc j"
    using class_sizes_step Suc.prems by (metis Suc_lessD gr_zeroI less_antisym not_less_zero
      Suc_less_eq eval_nat_numeral(3))
  then show ?case using Suc by (cases "i = j") auto
qed simp

lemma class_sizes_multiple: "i < 49 \<Longrightarrow> CLASS_SIZES ! i mod 8 = 0"
proof -
  have "\<forall>i<49. CLASS_SIZES ! i mod 8 = 0"
    unfolding all_classes CLASS_SIZES_def by (simp add: upt_rec)
  then show "i < 49 \<Longrightarrow> CLASS_SIZES ! i mod 8 = 0" by blast
qed

lemma class_sizes_one [simp]: "CLASS_SIZES ! Suc 0 = 8"
  by (simp add: CLASS_SIZES_def)

lemma class_sizes_min: "0 < c \<Longrightarrow> c < 49 \<Longrightarrow> 8 \<le> CLASS_SIZES ! c"
  using class_sizes_mono [of 1 c] by (cases "c = 1") auto

lemma class_sizes_max: "0 < c \<Longrightarrow> c < 49 \<Longrightarrow> CLASS_SIZES ! c \<le> CLASS_SIZES ! 48"
  using class_sizes_mono [of c 48] by (cases "c = 48") auto

lemma class_sizes_double: "1 < c \<Longrightarrow> c < 49 \<Longrightarrow> CLASS_SIZES ! c \<le> 2 * CLASS_SIZES ! (c - 1)"
proof -
  have "\<forall>i<49. 1 < i \<longrightarrow> CLASS_SIZES ! i \<le> 2 * CLASS_SIZES ! (i - 1)"
    unfolding all_classes CLASS_SIZES_def by (simp add: upt_rec)
  then show "1 < c \<Longrightarrow> c < 49 \<Longrightarrow> CLASS_SIZES ! c \<le> 2 * CLASS_SIZES ! (c - 1)" by blast
qed

lemma class_sizes_last [simp]: "CLASS_SIZES ! 48 = MAX_SMALL"
  by (simp add: CLASS_SIZES_def MAX_SMALL_def)

subsection \<open>The cursor and the scan find the first class that fits\<close>

text \<open>\<open>fits a sz\<close>: \<open>a\<close> is the first class of at least \<open>sz\<close> bytes, 49 if there is none.\<close>

definition fits :: "nat \<Rightarrow> nat \<Rightarrow> bool" where
  "fits a sz \<longleftrightarrow> 0 < a \<and> a \<le> 49 \<and> (\<forall>k. 0 < k \<and> k < a \<longrightarrow> CLASS_SIZES ! k < sz) \<and>
     (a < 49 \<longrightarrow> sz \<le> CLASS_SIZES ! a)"

lemma fits_unique: "fits a sz \<Longrightarrow> fits b sz \<Longrightarrow> a = b"
  unfolding fits_def by (metis leD less_le_trans linorder_neqE_nat)

lemma advance_class_fits:
  "0 < cls \<Longrightarrow> cls \<le> 49 \<Longrightarrow> \<forall>k. 0 < k \<and> k < cls \<longrightarrow> CLASS_SIZES ! k < sz
     \<Longrightarrow> fits (advance_class sz cls) sz"
proof (induction sz cls rule: advance_class.induct)
  case (1 sz cls)
  show ?case
  proof (cases "cls < 49 \<and> CLASS_SIZES ! cls < sz")
    case True
    then have "\<forall>k. 0 < k \<and> k < Suc cls \<longrightarrow> CLASS_SIZES ! k < sz"
      using "1.prems" by (auto simp: less_Suc_eq)
    then have "fits (advance_class sz (Suc cls)) sz"
      using "1.IH" True by simp
    with True show ?thesis by (simp add: advance_class.simps [of sz cls])
  next
    case False
    then show ?thesis
      using "1.prems" by (auto simp: advance_class.simps [of sz cls] fits_def)
  qed
qed

lemma class_for_loop_fits:
  "0 < i \<Longrightarrow> \<forall>k. 0 < k \<and> k < i \<longrightarrow> CLASS_SIZES ! k < want \<Longrightarrow> fits a want \<Longrightarrow>
     class_for_loop want i = (if a < 49 then Some a else None)"
proof (induction want i rule: class_for_loop.induct)
  case (1 want i)
  show ?case
  proof (cases "i < 49 \<and> CLASS_SIZES ! i < want")
    case True
    then have "\<forall>k. 0 < k \<and> k < Suc i \<longrightarrow> CLASS_SIZES ! k < want"
      using "1.prems" by (auto simp: less_Suc_eq)
    then have "class_for_loop want (Suc i) = (if a < 49 then Some a else None)"
      using "1.IH" True "1.prems"(3) by simp
    with True show ?thesis by (simp add: class_for_loop.simps [of want i])
  next
    case False
    have "i < 49 \<Longrightarrow> a = i"
      using "1.prems" False by (intro fits_unique [of a want i]) (auto simp: fits_def)
    moreover have "49 \<le> i \<Longrightarrow> a = 49"
      using "1.prems" by (intro fits_unique [of a want 49]) (auto simp: fits_def)
    ultimately show ?thesis using False by (auto simp: class_for_loop.simps [of want i])
  qed
qed

lemma fits_exists: "\<exists>a. fits a sz"
  using advance_class_fits [of 1 sz] by auto

lemma fits_small: "fits a sz \<Longrightarrow> sz \<le> MAX_SMALL \<Longrightarrow> a < 49"
proof (rule ccontr)
  assume "fits a sz" "sz \<le> MAX_SMALL" "\<not> a < 49"
  then have "a = 49" "\<forall>k. 0 < k \<and> k < 49 \<longrightarrow> CLASS_SIZES ! k < sz"
    by (auto simp: fits_def)
  then have "CLASS_SIZES ! 48 < sz" by (metis lessI numeral_eq_Suc pred_numeral_simps(3) zero_less_numeral)
  with \<open>sz \<le> MAX_SMALL\<close> show False by simp
qed

text \<open>Class sizes are multiples of 8, so rounding the request up to 8 changes no comparison.\<close>

lemma class_size_round: "i < 49 \<Longrightarrow> (CLASS_SIZES ! i < (sz + 7) div 8 * 8) = (CLASS_SIZES ! i < sz)"
  using class_sizes_multiple [of i] by presburger

lemma fits_round: "fits a ((sz + 7) div 8 * 8) \<longleftrightarrow> fits a sz"
  unfolding fits_def by (auto simp: class_size_round simp flip: not_less)

lemma fits_one: "fits 1 1"
  by (simp add: fits_def CLASS_SIZES_def)

subsection \<open>The lookup table\<close>

definition entry_size :: "nat \<Rightarrow> nat" where
  "entry_size i = (if i = 0 then 1 else i * 8)"

definition entry :: "nat \<Rightarrow> nat" where
  "entry i = (case class_for_loop (entry_size i) 1 of None \<Rightarrow> 0 | Some c \<Rightarrow> c)"

lemma entry_fits: "fits a (entry_size i) \<Longrightarrow> entry i = (if a < 49 then a else 0)"
  using class_for_loop_fits [of 1 "entry_size i" a] by (auto simp: entry_def)

lemma build_lookup_loop_step:
  "i < LOOKUP_LEN \<Longrightarrow> build_lookup_loop i cls table =
     build_lookup_loop (Suc i) (advance_class (entry_size i) cls)
       (table[i := (if advance_class (entry_size i) cls < 49
                    then as_u16 (advance_class (entry_size i) cls) else 0)])"
  by (simp add: build_lookup_loop.simps [of i cls table] entry_size_def Let_def)

lemma build_lookup_loop_spec:
  "0 < cls \<Longrightarrow> cls \<le> 49 \<Longrightarrow> length table = LOOKUP_LEN \<Longrightarrow>
   \<forall>k. 0 < k \<and> k < cls \<longrightarrow> CLASS_SIZES ! k < entry_size i \<Longrightarrow>
   \<forall>j<i. j < LOOKUP_LEN \<longrightarrow> table ! j = entry j \<Longrightarrow>
   length (build_lookup_loop i cls table) = LOOKUP_LEN \<and>
   (\<forall>j<LOOKUP_LEN. build_lookup_loop i cls table ! j = entry j)"
proof (induction "LOOKUP_LEN - i" arbitrary: i cls table rule: less_induct)
  case (less i cls table)
  show ?case
  proof (cases "i < LOOKUP_LEN")
    case True
    let ?c = "advance_class (entry_size i) cls"
    let ?t = "table[i := (if ?c < 49 then as_u16 ?c else 0)]"
    have f: "fits ?c (entry_size i)" using less.prems by (intro advance_class_fits) auto
    have e: "(if ?c < 49 then as_u16 ?c else 0) = entry i"
      using entry_fits [OF f] by simp
    have mono: "entry_size i \<le> entry_size (Suc i)" by (simp add: entry_size_def)
    have c: "0 < ?c" "?c \<le> 49" "\<forall>k. 0 < k \<and> k < ?c \<longrightarrow> CLASS_SIZES ! k < entry_size (Suc i)"
      using f mono unfolding fits_def by (auto intro: less_le_trans)
    have t: "length ?t = LOOKUP_LEN" "\<forall>j<Suc i. j < LOOKUP_LEN \<longrightarrow> ?t ! j = entry j"
      using less.prems(3,5) e True by (auto simp: nth_list_update less_Suc_eq)
    have "length (build_lookup_loop (Suc i) ?c ?t) = LOOKUP_LEN \<and>
      (\<forall>j<LOOKUP_LEN. build_lookup_loop (Suc i) ?c ?t ! j = entry j)"
      using True by (intro less.hyps c t) auto
    then show ?thesis unfolding build_lookup_loop_step [OF True] .
  next
    case False
    then show ?thesis
      using less.prems by (simp add: build_lookup_loop.simps [of i cls table])
  qed
qed

lemma LOOKUP_entry: "length LOOKUP = LOOKUP_LEN \<and> (\<forall>j<LOOKUP_LEN. LOOKUP ! j = entry j)"
  unfolding LOOKUP_def build_lookup_const_def by (rule build_lookup_loop_spec) auto

subsection \<open>What the two lookups return\<close>

lemma class_for_fits: "sz \<le> MAX_SMALL \<Longrightarrow> fits a (max 1 sz) \<Longrightarrow> class_for sz = Some a"
  using class_for_loop_fits [of 1 "max 1 sz" a] fits_small [of a "max 1 sz"]
  by (auto simp: class_for_def max_def MAX_SMALL_def split: if_splits)

lemma class_of_scan: "0 < sz \<Longrightarrow> sz \<le> MAX_SMALL \<Longrightarrow> class_of sz = Some (class_for sz)"
proof -
  assume sz: "0 < sz" "sz \<le> MAX_SMALL"
  let ?i = "(sz + 7) div 8"
  have i: "?i < LOOKUP_LEN" "0 < ?i" using sz by (simp_all add: LOOKUP_LEN_def MAX_SMALL_def)
  obtain a where a: "fits a sz" using fits_exists by blast
  then have "fits a (entry_size ?i)" using fits_round [of a sz] i by (simp add: entry_size_def)
  moreover have "a < 49" "0 < a" using a sz fits_small by (auto simp: fits_def)
  ultimately have "LOOKUP ! ?i = a" using LOOKUP_entry entry_fits i by simp
  moreover have "class_for sz = Some a" using class_for_fits a sz by (simp add: max_def)
  ultimately show ?thesis
    using sz i LOOKUP_entry \<open>0 < a\<close> by (simp add: class_of_def MIN_ALIGN_def)
qed

text \<open>
  C39. The constant-time table lookup \<open>class_of\<close> never indexes out of the table and returns
  exactly what the linear scan \<open>class_for\<close> returns for every request size, except that it
  answers \<open>None\<close> for size 0 (for which the scan answers the smallest class).
\<close>

theorem class_of_eq_class_for:
  "class_of sz = Some (if sz = 0 then None else class_for sz)"
proof (cases "sz = 0 \<or> MAX_SMALL < sz")
  case True
  then show ?thesis by (auto simp: class_of_def class_for_def)
next
  case False
  then show ?thesis using class_of_scan by simp
qed

lemma class_for_Some_iff:
  "class_for sz = Some c \<longleftrightarrow> fits c (max 1 sz) \<and> sz \<le> MAX_SMALL"
proof
  assume c: "class_for sz = Some c"
  obtain a where a: "fits a (max 1 sz)" using fits_exists by blast
  have "sz \<le> MAX_SMALL" using c by (auto simp: class_for_def split: if_splits)
  then show "fits c (max 1 sz) \<and> sz \<le> MAX_SMALL"
    using class_for_fits a c by auto
qed (auto intro: class_for_fits)

lemma class_for_range: "class_for sz = Some c \<Longrightarrow> 0 < c \<and> c < 49"
  using fits_small [of c "max 1 sz"] by (auto simp: class_for_Some_iff fits_def MAX_SMALL_def)

lemma class_for_iff:
  "class_for sz = Some c \<longleftrightarrow>
     0 < c \<and> c < 49 \<and> sz \<le> CLASS_SIZES ! c \<and> (c = 1 \<or> CLASS_SIZES ! (c - 1) < sz)"
proof
  assume "class_for sz = Some c"
  then have f: "fits c (max 1 sz)" and c: "0 < c" "c < 49"
    using class_for_range by (auto simp: class_for_Some_iff)
  have "CLASS_SIZES ! (c - 1) < sz" if "c \<noteq> 1"
  proof -
    have "0 < c - 1 \<and> c - 1 < c" using c that by simp
    then have "CLASS_SIZES ! (c - 1) < max 1 sz" using f unfolding fits_def by blast
    moreover have "8 \<le> CLASS_SIZES ! (c - 1)" using c that by (intro class_sizes_min) auto
    ultimately show ?thesis by (simp add: max_def split: if_splits)
  qed
  then show "0 < c \<and> c < 49 \<and> sz \<le> CLASS_SIZES ! c \<and>
      (c = 1 \<or> CLASS_SIZES ! (c - 1) < sz)"
    using f c by (auto simp: fits_def)
next
  assume a: "0 < c \<and> c < 49 \<and> sz \<le> CLASS_SIZES ! c \<and> (c = 1 \<or> CLASS_SIZES ! (c - 1) < sz)"
  have below: "CLASS_SIZES ! k < max 1 sz" if "0 < k" "k < c" for k
  proof (cases "k = c - 1")
    case False
    then have "CLASS_SIZES ! k < CLASS_SIZES ! (c - 1)" "c \<noteq> 1"
      using a that class_sizes_mono [of k "c - 1"] by auto
    then show ?thesis using a by auto
  qed (use a that in auto)
  show "class_for sz = Some c"
    using a below class_sizes_min [of c] class_sizes_max [of c]
    by (auto simp: class_for_Some_iff fits_def)
qed

text \<open>
  \<open>class_for\<close> returns the best fit: class \<open>c\<close> is the answer exactly when it is a real
  class (1 to 48) that holds the request and its predecessor does not hold it; requests above
  \<open>MAX_SMALL\<close> have no class.
\<close>

theorem class_for_best_fit:
  "class_for sz = Some c \<longleftrightarrow>
     0 < c \<and> c < NUM_CLASSES \<and> sz \<le> CLASS_SIZES ! c \<and> (c = 1 \<or> CLASS_SIZES ! (c - 1) < sz)"
  unfolding NUM_CLASSES_eq by (rule class_for_iff)

text \<open>
  Internal fragmentation is bounded: a request of more than 4 bytes wastes less than half
  of the object it is given.
\<close>

theorem class_for_waste:
  assumes "4 < sz" "class_for sz = Some c"
  shows "CLASS_SIZES ! c < 2 * sz"
proof (cases "c = 1")
  case True
  then show ?thesis using assms by simp
next
  case False
  then have "CLASS_SIZES ! c \<le> 2 * CLASS_SIZES ! (c - 1)" "CLASS_SIZES ! (c - 1) < sz"
    using assms(2) class_sizes_double [of c] by (auto simp: class_for_iff)
  then show ?thesis by linarith
qed

theorem class_for_waste_witness:
  "class_for 1500 = Some 24 \<and> CLASS_SIZES ! 24 < 2 * (1500 :: nat)"
proof -
  have c: "class_for 1500 = Some 24" by (simp add: class_for_iff CLASS_SIZES_def)
  show ?thesis using class_for_waste [OF _ c] c by simp
qed

subsection \<open>Over-aligned requests\<close>

lemma aligned_class_loop_spec:
  assumes "0 < align" "cls < 49"
  shows "\<exists>r. aligned_class_loop align cls = Some r \<and>
     (case r of None \<Rightarrow> (\<forall>k. cls \<le> k \<and> k < 49 \<longrightarrow> \<not> align dvd CLASS_SIZES ! k)
      | Some c \<Rightarrow> cls \<le> c \<and> c < 49 \<and> align dvd CLASS_SIZES ! c \<and>
          (\<forall>k. cls \<le> k \<and> k < c \<longrightarrow> \<not> align dvd CLASS_SIZES ! k))"
  using assms
proof (induction align cls rule: aligned_class_loop.induct)
  case (1 align cls)
  show ?case
  proof (cases "CLASS_SIZES ! cls mod align = 0 \<or> 48 \<le> cls")
    case True
    show ?thesis
    proof (cases "CLASS_SIZES ! cls mod align = 0")
      case mult: True
      then show ?thesis
        using "1.prems" by (auto simp: aligned_class_loop.simps [of align cls] dvd_eq_mod_eq_0)
    next
      case nomult: False
      with True have "48 \<le> cls" by simp
      with "1.prems" have "cls = 48" by simp
      then have "aligned_class_loop align cls = Some None"
        using nomult "1.prems" by (subst aligned_class_loop.simps) simp
      moreover have "\<not> align dvd CLASS_SIZES ! k" if "cls \<le> k \<and> k < 49" for k
      proof -
        have "k = cls" using that \<open>cls = 48\<close> by simp
        then show ?thesis using nomult by (simp only: dvd_eq_mod_eq_0) simp
      qed
      ultimately show ?thesis by simp
    qed
  next
    case False
    then obtain r where r: "aligned_class_loop align (Suc cls) = Some r"
      and s: "case r of None \<Rightarrow> (\<forall>k. Suc cls \<le> k \<and> k < 49 \<longrightarrow> \<not> align dvd CLASS_SIZES ! k)
      | Some c \<Rightarrow> Suc cls \<le> c \<and> c < 49 \<and> align dvd CLASS_SIZES ! c \<and>
          (\<forall>k. Suc cls \<le> k \<and> k < c \<longrightarrow> \<not> align dvd CLASS_SIZES ! k)"
      using "1.IH" "1.prems" by auto
    have "\<not> align dvd CLASS_SIZES ! cls" using False by (simp add: dvd_eq_mod_eq_0)
    then have "case r of None \<Rightarrow> (\<forall>k. cls \<le> k \<and> k < 49 \<longrightarrow> \<not> align dvd CLASS_SIZES ! k)
      | Some c \<Rightarrow> cls \<le> c \<and> c < 49 \<and> align dvd CLASS_SIZES ! c \<and>
          (\<forall>k. cls \<le> k \<and> k < c \<longrightarrow> \<not> align dvd CLASS_SIZES ! k)"
      using s by (auto split: option.splits) (metis Suc_leI le_neq_implies_less)+
    with r False "1.prems" show ?thesis by (simp add: aligned_class_loop.simps [of align cls])
  qed
qed

lemma aligned_class_spec:
  assumes "0 < align"
  shows "\<exists>r. aligned_class need align = Some r \<and>
    (\<forall>c. r = Some c \<longleftrightarrow> 0 < need \<and> 0 < c \<and> c < 49 \<and> need \<le> CLASS_SIZES ! c \<and>
       align dvd CLASS_SIZES ! c \<and>
       (\<forall>k. 0 < k \<and> k < c \<and> need \<le> CLASS_SIZES ! k \<longrightarrow> \<not> align dvd CLASS_SIZES ! k))"
proof (cases "0 < need \<and> need \<le> MAX_SMALL")
  case False
  then have "need \<le> CLASS_SIZES ! c \<Longrightarrow> 0 < c \<Longrightarrow> c < 49 \<Longrightarrow> need = 0" for c
    using class_sizes_max [of c] by auto
  with False show ?thesis by (auto simp: aligned_class_def class_of_def)
next
  case True
  then obtain a where a: "fits a need" "0 < a" "a < 49"
    using fits_exists [of need] fits_small by (auto simp: fits_def)
  have c: "class_of need = Some (Some a)"
    using class_of_scan class_for_fits a True by (simp add: max_def)
  have ge: "a \<le> k \<longleftrightarrow> need \<le> CLASS_SIZES ! k" if "0 < k" "k < 49" for k
    using that a class_sizes_mono [of a k] by (cases "k = a") (auto simp: fits_def not_less)
  obtain r where r: "aligned_class_loop align a = Some r"
    and s: "case r of None \<Rightarrow> (\<forall>k. a \<le> k \<and> k < 49 \<longrightarrow> \<not> align dvd CLASS_SIZES ! k)
      | Some c \<Rightarrow> a \<le> c \<and> c < 49 \<and> align dvd CLASS_SIZES ! c \<and>
          (\<forall>k. a \<le> k \<and> k < c \<longrightarrow> \<not> align dvd CLASS_SIZES ! k)"
    using aligned_class_loop_spec [OF assms a(3)] by blast
  have "r = Some c \<longleftrightarrow> 0 < c \<and> c < 49 \<and> need \<le> CLASS_SIZES ! c \<and> align dvd CLASS_SIZES ! c \<and>
      (\<forall>k. 0 < k \<and> k < c \<and> need \<le> CLASS_SIZES ! k \<longrightarrow> \<not> align dvd CLASS_SIZES ! k)" for c
    using s ge a(2) by (cases r) (auto, (metis linorder_neqE_nat less_trans less_le_trans)+)
  then show ?thesis using c r True by (simp add: aligned_class_def)
qed

text \<open>
  For a non-zero alignment \<open>aligned_class\<close> never panics, and it returns class \<open>c\<close> exactly
  when \<open>c\<close> is the smallest class whose size holds the (non-zero) request and is a multiple of
  the alignment; it returns \<open>None\<close> when no class qualifies.
\<close>

theorem aligned_class_smallest:
  assumes "0 < align"
  shows "\<exists>r. aligned_class need align = Some r \<and>
    (\<forall>c. r = Some c \<longleftrightarrow> 0 < need \<and> 0 < c \<and> c < NUM_CLASSES \<and> need \<le> CLASS_SIZES ! c \<and>
       align dvd CLASS_SIZES ! c \<and>
       (\<forall>k. 0 < k \<and> k < c \<and> need \<le> CLASS_SIZES ! k \<longrightarrow> \<not> align dvd CLASS_SIZES ! k))"
  unfolding NUM_CLASSES_eq using assms by (rule aligned_class_spec)

theorem aligned_class_smallest_witness:
  "aligned_class 24 16 = Some (Some 4)"
proof -
  let ?best = "\<lambda>c. 0 < c \<and> c < NUM_CLASSES \<and> 24 \<le> CLASS_SIZES ! c \<and> (16::nat) dvd CLASS_SIZES ! c \<and>
    (\<forall>k. 0 < k \<and> k < c \<and> 24 \<le> CLASS_SIZES ! k \<longrightarrow> \<not> 16 dvd CLASS_SIZES ! k)"
  obtain r where r: "aligned_class 24 16 = Some r"
    and best: "\<And>c. r = Some c \<longleftrightarrow> 0 < (24::nat) \<and> ?best c"
    using aligned_class_smallest [of 16 24] by auto
  have "\<not> 16 dvd CLASS_SIZES ! k" if "0 < k" "k < 4" "24 \<le> CLASS_SIZES ! k" for k :: nat
  proof -
    have "k = 1 \<or> k = 2 \<or> k = 3" using that(1,2) by arith
    then show ?thesis using that(3) by (auto simp: CLASS_SIZES_def)
  qed
  moreover have "24 \<le> CLASS_SIZES ! 4" "16 dvd CLASS_SIZES ! 4" by (simp_all add: CLASS_SIZES_def)
  ultimately have "?best 4" by auto
  then show ?thesis using r best [of 4] by simp
qed

end
