(* ===== verification/Span_Meta.thy ===== *)
theory Span_Meta
  imports Toccata_Prelude
begin

text \<open>
  Span metadata (\<^verbatim>\<open>toccata-core/src/meta.rs\<close>): the per-span free bitmaps with their active
  lists (\<open>span_bitmaps\<close>) and the span table that recovers the size class and the home shard
  of a pointer (\<open>span_table\<close>).

  A slot of a span is named by the flat number \<open>slot_id i s\<close> (span \<open>i\<close>, slot \<open>s\<close>), which is
  also its bit position in the two word arrays. The operations are then insertions, removals
  and moves between the two sets \<open>alloc_bits\<close> (owner's private free slots) and \<open>free_bits\<close>
  (slots deposited by other threads). An atomic read-modify-write is one step of the model.
\<close>

subsection \<open>Geometry and bitmaps\<close>

definition SPAN_BITS :: nat where
  "SPAN_BITS = 16"

definition SPAN_BYTES :: nat where
  "SPAN_BYTES = 2 ^ SPAN_BITS"

definition SPAN_SLOTS :: nat where
  "SPAN_SLOTS = SPAN_BYTES div 8"

definition SPAN_BITMAP_WORDS :: nat where
  "SPAN_BITMAP_WORDS = SPAN_SLOTS div 64"

definition NO_SPAN :: nat where
  "NO_SPAN = 2 ^ 32 - 1"

record span_bitmaps =
  bm_base :: nat
  alloc_words :: "u64 list"
  free_words :: "u64 list"
  next_active :: "nat list"
  on_list :: "bool list"

definition bitmaps_new :: "nat \<Rightarrow> nat \<Rightarrow> span_bitmaps" where
  "bitmaps_new base len =
     (let spans = div_ceil len SPAN_BYTES in
      \<lparr> bm_base = base,
        alloc_words = replicate (spans * SPAN_BITMAP_WORDS) 0,
        free_words = replicate (spans * SPAN_BITMAP_WORDS) 0,
        next_active = replicate spans NO_SPAN,
        on_list = replicate spans False \<rparr>)"

definition span_of :: "span_bitmaps \<Rightarrow> nat \<Rightarrow> nat" where
  "span_of b ptr = as_u32 (sub64 ptr (bm_base b) div 2 ^ SPAN_BITS)"

definition span_base :: "span_bitmaps \<Rightarrow> nat \<Rightarrow> nat" where
  "span_base b i = add64 (bm_base b) (i * 2 ^ SPAN_BITS)"

definition locate :: "span_bitmaps \<Rightarrow> nat \<Rightarrow> nat \<Rightarrow> (nat \<times> nat \<times> nat) rust" where
  "locate b ptr osz =
     (let span = span_of b ptr in
      if osz = 0 then None
      else let slot = sub64 ptr (span_base b span) div osz
           in Some (span, slot div 64, slot mod 64))"

definition is_on_list :: "span_bitmaps \<Rightarrow> nat \<Rightarrow> bool rust" where
  "is_on_list b i = idx (on_list b) i"

definition next_span :: "span_bitmaps \<Rightarrow> nat \<Rightarrow> nat rust" where
  "next_span b i = idx (next_active b) i"

definition link_front :: "span_bitmaps \<Rightarrow> nat \<Rightarrow> nat \<Rightarrow> (span_bitmaps \<times> nat) rust" where
  "link_front b i head = do {
     na \<leftarrow> upd (next_active b) i head;
     ol \<leftarrow> upd (on_list b) i True;
     Some (b\<lparr>next_active := na, on_list := ol\<rparr>, i)
   }"

definition set_free :: "span_bitmaps \<Rightarrow> nat \<Rightarrow> nat \<Rightarrow> span_bitmaps rust" where
  "set_free b i slot = do {
     let k = i * SPAN_BITMAP_WORDS + slot div 64;
     w \<leftarrow> idx (free_words b) k;
     ws \<leftarrow> upd (free_words b) k (w OR push_bit (slot mod 64) 1);
     Some (b\<lparr>free_words := ws\<rparr>)
   }"

definition set_mask :: "span_bitmaps \<Rightarrow> nat \<Rightarrow> nat \<Rightarrow> u64 \<Rightarrow> span_bitmaps rust" where
  "set_mask b i word m = do {
     let k = i * SPAN_BITMAP_WORDS + word;
     w \<leftarrow> idx (free_words b) k;
     ws \<leftarrow> upd (free_words b) k (w OR m);
     Some (b\<lparr>free_words := ws\<rparr>)
   }"

definition fold_free_word :: "span_bitmaps \<Rightarrow> nat \<Rightarrow> nat \<Rightarrow> (span_bitmaps \<times> u64) rust" where
  "fold_free_word b i w = do {
     let k = i * SPAN_BITMAP_WORDS + w;
     cell \<leftarrow> idx (alloc_words b) k;
     f \<leftarrow> idx (free_words b) k;
     if f = 0 then Some (b, cell)
     else do {
       fw \<leftarrow> upd (free_words b) k 0;
       aw \<leftarrow> upd (alloc_words b) k (cell OR f);
       Some (b\<lparr>free_words := fw, alloc_words := aw\<rparr>, cell OR f)
     }
   }"

definition alloc_set_mask :: "span_bitmaps \<Rightarrow> nat \<Rightarrow> nat \<Rightarrow> u64 \<Rightarrow> span_bitmaps rust" where
  "alloc_set_mask b i w m = do {
     let k = i * SPAN_BITMAP_WORDS + w;
     cell \<leftarrow> idx (alloc_words b) k;
     aw \<leftarrow> upd (alloc_words b) k (cell OR m);
     Some (b\<lparr>alloc_words := aw\<rparr>)
   }"

definition alloc_clear :: "span_bitmaps \<Rightarrow> nat \<Rightarrow> nat \<Rightarrow> u64 \<Rightarrow> span_bitmaps rust" where
  "alloc_clear b i w taken = do {
     let k = i * SPAN_BITMAP_WORDS + w;
     cell \<leftarrow> idx (alloc_words b) k;
     aw \<leftarrow> upd (alloc_words b) k (cell AND NOT taken);
     Some (b\<lparr>alloc_words := aw\<rparr>)
   }"

text \<open>The two loops of \<open>is_fully_free\<close>: fold and count (A1, A2), then re-read (A3).\<close>

primrec fold_count :: "nat \<Rightarrow> nat list \<Rightarrow> span_bitmaps \<Rightarrow> nat \<Rightarrow> (span_bitmaps \<times> nat) rust" where
  "fold_count i [] b n = Some (b, n)"
| "fold_count i (w # ws) b n = do {
     (b', word) \<leftarrow> fold_free_word b i w;
     fold_count i ws b' (add32 n (count_ones word))
   }"

primrec no_deposit :: "nat \<Rightarrow> nat list \<Rightarrow> span_bitmaps \<Rightarrow> bool rust" where
  "no_deposit i [] b = Some True"
| "no_deposit i (w # ws) b = do {
     f \<leftarrow> idx (free_words b) (i * SPAN_BITMAP_WORDS + w);
     if f \<noteq> 0 then Some False else no_deposit i ws b
   }"

definition is_fully_free :: "span_bitmaps \<Rightarrow> nat \<Rightarrow> nat \<Rightarrow> (span_bitmaps \<times> bool) rust" where
  "is_fully_free b i slots_per_span = do {
     let nwords = div_ceil slots_per_span 64;
     (b', free_count) \<leftarrow> fold_count i [0..<nwords] b 0;
     if free_count \<noteq> slots_per_span then Some (b', False)
     else do { r \<leftarrow> no_deposit i [0..<nwords] b'; Some (b', r) }
   }"

definition unlink_active :: "span_bitmaps \<Rightarrow> nat \<Rightarrow> nat \<Rightarrow> nat \<Rightarrow> (span_bitmaps \<times> nat) rust" where
  "unlink_active b i prev head = do {
     succ \<leftarrow> idx (next_active b) i;
     (na, new_head) \<leftarrow>
       (if prev = NO_SPAN then Some (next_active b, succ)
        else do { na \<leftarrow> upd (next_active b) prev succ; Some (na, head) });
     na' \<leftarrow> upd na i NO_SPAN;
     ol \<leftarrow> upd (on_list b) i False;
     Some (b\<lparr>next_active := na', on_list := ol\<rparr>, new_head)
   }"

primrec reset_words :: "nat \<Rightarrow> nat list \<Rightarrow> span_bitmaps \<Rightarrow> span_bitmaps rust" where
  "reset_words i [] b = Some b"
| "reset_words i (w # ws) b = do {
     aw \<leftarrow> upd (alloc_words b) (i * SPAN_BITMAP_WORDS + w) 0;
     fw \<leftarrow> upd (free_words b) (i * SPAN_BITMAP_WORDS + w) 0;
     reset_words i ws (b\<lparr>alloc_words := aw, free_words := fw\<rparr>)
   }"

definition reset_bitmaps :: "span_bitmaps \<Rightarrow> nat \<Rightarrow> nat \<Rightarrow> span_bitmaps rust" where
  "reset_bitmaps b i clear_words = reset_words i [0..<clear_words] b"

subsection \<open>Span table\<close>

definition pack :: "nat \<Rightarrow> nat \<Rightarrow> nat" where
  "pack cls home = cls * 2 ^ 16 + home"

definition unpack :: "nat \<Rightarrow> (nat \<times> nat) option" where
  "unpack v = (if v = 0 then None else Some (as_u16 (v div 2 ^ 16), as_u16 (v mod 2 ^ 16)))"

record span_table =
  st_base :: nat
  st_len :: nat
  entries :: "nat list"

definition table_new :: "nat \<Rightarrow> nat \<Rightarrow> span_table" where
  "table_new base len = \<lparr> st_base = base, st_len = len, entries = replicate (div_ceil len SPAN_BYTES) 0 \<rparr>"

definition index_of :: "span_table \<Rightarrow> nat \<Rightarrow> nat option" where
  "index_of t addr =
     (if addr < st_base t \<or> add64 (st_base t) (st_len t) \<le> addr then None
      else Some ((addr - st_base t) div 2 ^ SPAN_BITS))"

text \<open>\<open>assign_entries\<close>: the loop over the inclusive slice \<open>start..=end\<close>.\<close>

primrec assign_entries :: "nat list \<Rightarrow> nat \<Rightarrow> nat list \<Rightarrow> nat list rust" where
  "assign_entries [] v es = Some es"
| "assign_entries (i # is) v es = do { es' \<leftarrow> upd es i v; assign_entries is v es' }"

definition assign_range :: "span_table \<Rightarrow> nat \<Rightarrow> nat \<Rightarrow> nat \<Rightarrow> nat \<Rightarrow> span_table rust" where
  "assign_range t ptr bytes cls home =
     (case index_of t ptr of
        None \<Rightarrow> Some t
      | Some start \<Rightarrow>
          let end_addr = sub64 (add64 ptr bytes) 1;
              last = min (sub64 end_addr (st_base t) div 2 ^ SPAN_BITS) (sub64 (length (entries t)) 1)
          in if last + 1 < start then None
             else do {
               es \<leftarrow> assign_entries [start..<last + 1] (pack cls home) (entries t);
               Some (t\<lparr>entries := es\<rparr>)
             })"

definition lookup :: "span_table \<Rightarrow> nat \<Rightarrow> (nat \<times> nat) option rust" where
  "lookup t ptr =
     (case index_of t ptr of
        None \<Rightarrow> Some None
      | Some i \<Rightarrow> do { v \<leftarrow> idx (entries t) i; Some (unpack v) })"

definition home_relaxed :: "span_table \<Rightarrow> nat \<Rightarrow> nat rust" where
  "home_relaxed t addr =
     (if addr < st_base t \<or> add64 (st_base t) (st_len t) \<le> addr then Some (2 ^ 16 - 1)
      else do {
        v \<leftarrow> idx (entries t) ((addr - st_base t) div 2 ^ SPAN_BITS);
        Some (v mod 2 ^ 16)
      })"

definition contains :: "span_table \<Rightarrow> nat \<Rightarrow> bool" where
  "contains t addr \<longleftrightarrow> st_base t \<le> addr \<and> addr < add64 (st_base t) (st_len t)"

subsection \<open>Slots as a set of numbers\<close>

lemma span_consts [simp]: "SPAN_BITS = 16" "SPAN_BYTES = 65536" "SPAN_SLOTS = 8192"
  "SPAN_BITMAP_WORDS = 128"
  by (simp_all add: SPAN_BITS_def SPAN_BYTES_def SPAN_SLOTS_def SPAN_BITMAP_WORDS_def)

definition slot_id :: "nat \<Rightarrow> nat \<Rightarrow> nat" where
  "slot_id i s = i * SPAN_SLOTS + s"

definition alloc_bits :: "span_bitmaps \<Rightarrow> nat set" where
  "alloc_bits b = {k. bitmap_of (alloc_words b) k}"

definition free_bits :: "span_bitmaps \<Rightarrow> nat set" where
  "free_bits b = {k. bitmap_of (free_words b) k}"

text \<open>The shape of the arrays: one entry, or 128 words, per span.\<close>

definition bm_shape :: "nat \<Rightarrow> span_bitmaps \<Rightarrow> bool" where
  "bm_shape spans b \<longleftrightarrow> length (alloc_words b) = spans * 128 \<and> length (free_words b) = spans * 128 \<and>
     length (next_active b) = spans \<and> length (on_list b) = spans"

text \<open>\<open>same_links b b'\<close>: the geometry and the active lists are untouched.\<close>

definition same_links :: "span_bitmaps \<Rightarrow> span_bitmaps \<Rightarrow> bool" where
  "same_links b b' \<longleftrightarrow> bm_base b' = bm_base b \<and> next_active b' = next_active b \<and> on_list b' = on_list b"

lemma same_links_refl [simp]: "same_links b b"
  by (simp add: same_links_def)

lemma same_links_trans: "same_links a b \<Longrightarrow> same_links b c \<Longrightarrow> same_links a c"
  by (simp add: same_links_def)

definition word_slots :: "nat \<Rightarrow> nat \<Rightarrow> u64 \<Rightarrow> nat set" where
  "word_slots i w m = (\<lambda>j. slot_id i (w * 64 + j)) ` bits m"

lemma slot_id_divmod: "s < 8192 \<Longrightarrow> slot_id i s div 8192 = i \<and> slot_id i s mod 8192 = s"
  by (simp add: slot_id_def)

lemma slot_id_inj: "s < 8192 \<Longrightarrow> s' < 8192 \<Longrightarrow> slot_id i s = slot_id i' s' \<longleftrightarrow> i = i' \<and> s = s'"
  using slot_id_divmod by metis

lemma word_slots_iff:
  "k \<in> word_slots i w m \<longleftrightarrow> k div 64 = i * 128 + w \<and> k mod 64 \<in> bits m"
proof
  assume "k \<in> word_slots i w m"
  then obtain j where j: "j \<in> bits m" "k = (i * 128 + w) * 64 + j"
    by (auto simp: word_slots_def slot_id_def)
  define q where "q = i * 128 + w"
  have "j < 64" "k = q * 64 + j" using j by (auto simp: q_def)
  then have "k div 64 = q" "k mod 64 = j" by simp_all
  then show "k div 64 = i * 128 + w \<and> k mod 64 \<in> bits m" using j(1) by (simp add: q_def)
next
  assume a: "k div 64 = i * 128 + w \<and> k mod 64 \<in> bits m"
  have "k = k div 64 * 64 + k mod 64" by simp
  then have "k = slot_id i (w * 64 + k mod 64)" using a by (simp add: slot_id_def algebra_simps)
  then show "k \<in> word_slots i w m" using a by (auto simp: word_slots_def)
qed

lemma word_index: "i < spans \<Longrightarrow> w < 128 \<Longrightarrow> i * 128 + w < spans * (128::nat)"
proof -
  assume "i < spans" "w < 128"
  then have "i * 128 + w < Suc i * 128" by simp
  also have "\<dots> \<le> spans * 128" using \<open>i < spans\<close> by (intro mult_le_mono1) simp
  finally show ?thesis .
qed

lemma bitmap_word: "k < length ws \<Longrightarrow> {j. bitmap_of (ws[k := v]) j} =
    {j. bitmap_of ws j \<and> j div 64 \<noteq> k} \<union> {j. j div 64 = k \<and> j mod 64 \<in> bits v}"
  by (auto simp: bitmap_of_upd)

lemma set_mask_bits:
  assumes "bm_shape spans b" "i < spans" "w < 128"
  shows "\<exists>b'. set_mask b i w m = Some b' \<and> bm_shape spans b' \<and> same_links b b' \<and>
    alloc_bits b' = alloc_bits b \<and> free_bits b' = free_bits b \<union> word_slots i w m"
proof -
  have k: "i * 128 + w < length (free_words b)" using assms word_index by (simp add: bm_shape_def)
  let ?b = "b\<lparr>free_words := (free_words b)[i * 128 + w := free_words b ! (i * 128 + w) OR m]\<rparr>"
  have "set_mask b i w m = Some ?b" using k by (simp add: set_mask_def Let_def)
  moreover have "free_bits ?b = free_bits b \<union> word_slots i w m"
    using k by (auto simp: free_bits_def word_slots_iff bits_simps bitmap_of_def nth_list_update split: if_splits)
  ultimately show ?thesis
    using assms(1) by (intro exI [of _ ?b]) (simp add: bm_shape_def same_links_def alloc_bits_def)
qed

lemma set_free_mask: "set_free b i slot = set_mask b i (slot div 64) (push_bit (slot mod 64) 1)"
  by (simp add: set_free_def set_mask_def)

lemma alloc_set_mask_bits:
  assumes "bm_shape spans b" "i < spans" "w < 128"
  shows "\<exists>b'. alloc_set_mask b i w m = Some b' \<and> bm_shape spans b' \<and> same_links b b' \<and>
    free_bits b' = free_bits b \<and> alloc_bits b' = alloc_bits b \<union> word_slots i w m"
proof -
  have k: "i * 128 + w < length (alloc_words b)" using assms word_index by (simp add: bm_shape_def)
  let ?b = "b\<lparr>alloc_words := (alloc_words b)[i * 128 + w := alloc_words b ! (i * 128 + w) OR m]\<rparr>"
  have "alloc_set_mask b i w m = Some ?b" using k by (simp add: alloc_set_mask_def Let_def)
  moreover have "alloc_bits ?b = alloc_bits b \<union> word_slots i w m"
    using k by (auto simp: alloc_bits_def word_slots_iff bits_simps bitmap_of_def nth_list_update split: if_splits)
  ultimately show ?thesis
    using assms(1) by (intro exI [of _ ?b]) (simp add: bm_shape_def same_links_def free_bits_def)
qed

lemma alloc_clear_bits:
  assumes "bm_shape spans b" "i < spans" "w < 128"
  shows "\<exists>b'. alloc_clear b i w m = Some b' \<and> bm_shape spans b' \<and> same_links b b' \<and>
    free_bits b' = free_bits b \<and> alloc_bits b' = alloc_bits b - word_slots i w m"
proof -
  have k: "i * 128 + w < length (alloc_words b)" using assms word_index by (simp add: bm_shape_def)
  let ?b = "b\<lparr>alloc_words := (alloc_words b)[i * 128 + w := alloc_words b ! (i * 128 + w) AND NOT m]\<rparr>"
  have "alloc_clear b i w m = Some ?b" using k by (simp add: alloc_clear_def Let_def)
  moreover have "alloc_bits ?b = alloc_bits b - word_slots i w m"
    using k by (auto simp: alloc_bits_def word_slots_iff bits_simps bitmap_of_def nth_list_update split: if_splits)
  ultimately show ?thesis
    using assms(1) by (intro exI [of _ ?b]) (simp add: bm_shape_def same_links_def free_bits_def)
qed

text \<open>The slots of one bitmap word.\<close>

definition in_word :: "nat \<Rightarrow> nat \<Rightarrow> nat set" where
  "in_word i w = {k. k div 64 = i * 128 + w}"

lemma fold_free_word_bits:
  assumes "bm_shape spans b" "i < spans" "w < 128"
  shows "\<exists>b' v. fold_free_word b i w = Some (b', v) \<and> bm_shape spans b' \<and> same_links b b' \<and>
    free_bits b' = free_bits b - in_word i w \<and>
    alloc_bits b' = alloc_bits b \<union> (free_bits b \<inter> in_word i w) \<and>
    word_slots i w v = alloc_bits b' \<inter> in_word i w"
proof -
  let ?k = "i * 128 + w"
  have k: "?k < length (alloc_words b)" "?k < length (free_words b)"
    using assms word_index by (simp_all add: bm_shape_def)
  let ?v = "alloc_words b ! ?k OR free_words b ! ?k"
  let ?b = "if free_words b ! ?k = 0 then b else
    b\<lparr>free_words := (free_words b)[?k := 0], alloc_words := (alloc_words b)[?k := ?v]\<rparr>"
  have "fold_free_word b i w = Some (?b, ?v)" using k by (simp add: fold_free_word_def Let_def)
  moreover have "free_bits ?b = free_bits b - in_word i w"
    using k by (auto simp: free_bits_def in_word_def bitmap_of_def nth_list_update split: if_splits)
  moreover have "alloc_bits ?b = alloc_bits b \<union> (free_bits b \<inter> in_word i w)"
    using k by (auto simp: alloc_bits_def free_bits_def in_word_def bits_simps bitmap_of_def nth_list_update split: if_splits)
  moreover have "word_slots i w ?v = (alloc_bits b \<union> free_bits b) \<inter> in_word i w"
    using k by (auto simp: word_slots_iff alloc_bits_def free_bits_def in_word_def bits_simps bitmap_of_def)
  then have "word_slots i w ?v = alloc_bits ?b \<inter> in_word i w" using calculation(3) by blast
  moreover have "bm_shape spans ?b" "same_links b ?b"
    using assms(1) by (simp_all add: bm_shape_def same_links_def)
  ultimately show ?thesis by blast
qed

subsection \<open>The emptiness test\<close>

definition words_of :: "nat \<Rightarrow> nat list \<Rightarrow> nat set" where
  "words_of i ws = (\<Union>w\<in>set ws. in_word i w)"

lemma words_of_simps [simp]: "words_of i [] = {}" "words_of i (w # ws) = in_word i w \<union> words_of i ws"
  by (simp_all add: words_of_def)

lemma in_word_Int: "w \<noteq> v \<Longrightarrow> in_word i w \<inter> in_word i v = {}"
  by (auto simp: in_word_def)

lemma in_word_words: "w \<notin> set ws \<Longrightarrow> in_word i w \<inter> words_of i ws = {}"
  by (auto simp: words_of_def in_word_def)

lemma card_word_slots: "card (word_slots i w m) = count_ones m"
proof -
  have "inj_on (\<lambda>j. slot_id i (w * 64 + j)) (bits m)" by (rule inj_onI) (simp add: slot_id_def)
  then show ?thesis by (simp add: word_slots_def card_image count_ones_card)
qed

lemma count_ones_le: "count_ones m \<le> 64"
  unfolding count_ones_def by (metis diff_zero length_filter_le length_upt)

lemma finite_in_word: "finite (in_word i w)"
proof -
  have "in_word i w = {(i * 128 + w) * 64..<(i * 128 + w) * 64 + 64}"
    unfolding in_word_def by (rule set_eqI) (simp, linarith)
  then show ?thesis by simp
qed

lemma finite_words_of: "finite (words_of i ws)"
  by (simp add: words_of_def finite_in_word)

lemma fold_count_bits:
  assumes "bm_shape spans b" "i < spans" "\<forall>w\<in>set ws. w < 128" "distinct ws" "n + 64 * length ws < 2 ^ 32"
  shows "\<exists>b'. fold_count i ws b n = Some (b', n + card ((alloc_bits b \<union> free_bits b) \<inter> words_of i ws)) \<and>
    bm_shape spans b' \<and> same_links b b' \<and> free_bits b' = free_bits b - words_of i ws \<and>
    alloc_bits b' = alloc_bits b \<union> (free_bits b \<inter> words_of i ws)"
  using assms
proof (induction ws arbitrary: b n)
  case (Cons w ws)
  obtain b1 v where 1: "fold_free_word b i w = Some (b1, v)" "bm_shape spans b1" "same_links b b1"
    "free_bits b1 = free_bits b - in_word i w"
    "alloc_bits b1 = alloc_bits b \<union> (free_bits b \<inter> in_word i w)"
    "word_slots i w v = alloc_bits b1 \<inter> in_word i w"
    using fold_free_word_bits [OF Cons.prems(1,2), of w] Cons.prems(3) by auto
  have c: "count_ones v = card ((alloc_bits b \<union> free_bits b) \<inter> in_word i w)"
  proof -
    have "alloc_bits b1 \<inter> in_word i w = (alloc_bits b \<union> free_bits b) \<inter> in_word i w" using 1(5) by blast
    then show ?thesis using card_word_slots [of i w v] 1(6) by simp
  qed
  have n: "add32 n (count_ones v) = n + count_ones v" "n + count_ones v + 64 * length ws < 2 ^ 32"
    using Cons.prems(5) count_ones_le [of v] by simp_all
  obtain b' where b': "fold_count i ws b1 (n + count_ones v) =
      Some (b', n + count_ones v + card ((alloc_bits b1 \<union> free_bits b1) \<inter> words_of i ws))"
    "bm_shape spans b'" "same_links b1 b'" "free_bits b' = free_bits b1 - words_of i ws"
    "alloc_bits b' = alloc_bits b1 \<union> (free_bits b1 \<inter> words_of i ws)"
    using Cons.IH [OF 1(2) Cons.prems(2) _ _ n(2)] Cons.prems(3,4) by auto
  have disj: "in_word i w \<inter> words_of i ws = {}" using Cons.prems(4) in_word_words by auto
  have "(alloc_bits b1 \<union> free_bits b1) \<inter> words_of i ws = (alloc_bits b \<union> free_bits b) \<inter> words_of i ws"
    using 1(4,5) disj by blast
  moreover have "card ((alloc_bits b \<union> free_bits b) \<inter> (in_word i w \<union> words_of i ws)) =
      card ((alloc_bits b \<union> free_bits b) \<inter> in_word i w) + card ((alloc_bits b \<union> free_bits b) \<inter> words_of i ws)"
    unfolding Int_Un_distrib using disj by (intro card_Un_disjoint) (auto simp: finite_in_word finite_words_of)
  moreover have "free_bits b' = free_bits b - (in_word i w \<union> words_of i ws)" using 1(4) b'(4) by blast
  moreover have "alloc_bits b' = alloc_bits b \<union> (free_bits b \<inter> (in_word i w \<union> words_of i ws))"
    using 1(4,5) b'(5) disj by blast
  ultimately show ?case
    using 1(1,3) b' c n(1) same_links_trans by (auto simp: add.assoc)
qed auto

lemma no_deposit_bits:
  assumes "bm_shape spans b" "i < spans" "\<forall>w\<in>set ws. w < 128"
  shows "no_deposit i ws b = Some (free_bits b \<inter> words_of i ws = {})"
  using assms(3)
proof (induction ws)
  case (Cons w ws)
  have k: "i * 128 + w < length (free_words b)" using assms word_index Cons.prems by (simp add: bm_shape_def)
  have "free_bits b \<inter> in_word i w = {} \<longleftrightarrow> free_words b ! (i * 128 + w) = 0"
  proof
    assume e: "free_bits b \<inter> in_word i w = {}"
    have "j \<notin> bits (free_words b ! (i * 128 + w))" for j
    proof
      assume j: "j \<in> bits (free_words b ! (i * 128 + w))"
      define q where "q = i * 128 + w"
      have "(q * 64 + j) div 64 = q" using j by simp
      then have "q * 64 + j \<in> in_word i w" by (simp add: in_word_def q_def)
      moreover have "q * 64 + j \<in> free_bits b"
        using bitmap_of_pair [OF k, of j] j by (simp add: free_bits_def q_def)
      ultimately show False using e by blast
    qed
    then have "bits (free_words b ! (i * 128 + w)) = {}" by blast
    then show "free_words b ! (i * 128 + w) = 0" by simp
  next
    assume "free_words b ! (i * 128 + w) = 0"
    then show "free_bits b \<inter> in_word i w = {}" by (auto simp: free_bits_def in_word_def bitmap_of_def)
  qed
  then show ?case using k Cons by (auto simp: Int_Un_distrib)
qed simp

lemma ex_offset: "(\<exists>w<n. q = a + w) \<longleftrightarrow> a \<le> q \<and> q < a + (n::nat)"
  by (auto intro: exI [of _ "q - a"])

lemma words_of_upt: "words_of i [0..<n] = {slot_id i 0..<slot_id i 0 + 64 * n}"
proof (rule set_eqI)
  fix k
  have "k \<in> words_of i [0..<n] \<longleftrightarrow> (\<exists>w<n. k div 64 = i * 128 + w)"
    by (auto simp: words_of_def in_word_def)
  also have "\<dots> \<longleftrightarrow> i * 128 \<le> k div 64 \<and> k div 64 < i * 128 + n" by (rule ex_offset)
  also have "\<dots> \<longleftrightarrow> i * 128 * 64 \<le> k \<and> k < (i * 128 + n) * 64"
    using less_eq_div_iff_mult_less_eq [of 64 "i * 128" k] div_less_iff_less_mult [of 64 k "i * 128 + n"] by simp
  also have "\<dots> \<longleftrightarrow> k \<in> {slot_id i 0..<slot_id i 0 + 64 * n}" by (simp add: slot_id_def algebra_simps)
  finally show "k \<in> words_of i [0..<n] \<longleftrightarrow> k \<in> {slot_id i 0..<slot_id i 0 + 64 * n}" .
qed

text \<open>\<open>span_slots i n\<close>: the first \<open>n\<close> slots of span \<open>i\<close>.\<close>

definition span_slots :: "nat \<Rightarrow> nat \<Rightarrow> nat set" where
  "span_slots i n = {slot_id i 0..<slot_id i 0 + n}"

definition scanned :: "nat \<Rightarrow> nat \<Rightarrow> nat set" where
  "scanned i n = span_slots i (64 * div_ceil n 64)"

lemma span_slots_iff: "n \<le> 8192 \<Longrightarrow> k \<in> span_slots i n \<longleftrightarrow> k div 8192 = i \<and> k mod 8192 < n"
proof -
  assume n: "n \<le> 8192"
  have "k = k div 8192 * 8192 + k mod 8192" "k mod 8192 < 8192" by simp_all
  moreover have "k div 8192 = i" if "i * 8192 \<le> k" "k < i * 8192 + n"
    using that n by (intro div_nat_eqI) auto
  ultimately show ?thesis using n unfolding span_slots_def slot_id_def
    by (simp only: atLeastLessThan_iff span_consts) linarith
qed

lemma span_slots_scanned: "span_slots i n \<subseteq> scanned i n"
  using div_ceil_mult_ge [of 64 n] by (auto simp: span_slots_def scanned_def)

lemma is_fully_free_bits:
  assumes b: "bm_shape spans b" "i < spans" and n: "n \<le> 8192"
    and used: "(alloc_bits b \<union> free_bits b) \<inter> scanned i n \<subseteq> span_slots i n"
  shows "\<exists>b'. is_fully_free b i n = Some (b', span_slots i n \<subseteq> alloc_bits b \<union> free_bits b) \<and>
    bm_shape spans b' \<and> same_links b b' \<and> free_bits b' = free_bits b - scanned i n \<and>
    alloc_bits b' = alloc_bits b \<union> (free_bits b \<inter> scanned i n)"
proof -
  let ?ws = "[0..<div_ceil n 64]"
  have w: "words_of i ?ws = scanned i n" by (simp add: words_of_upt scanned_def span_slots_def)
  have d: "div_ceil n 64 \<le> 128" using n by (subst div_ceil_le_iff) auto
  have ok: "\<forall>w\<in>set ?ws. w < 128" "0 + 64 * length ?ws < 2 ^ 32" using d by auto
  let ?S = "(alloc_bits b \<union> free_bits b) \<inter> scanned i n"
  obtain b' where b': "fold_count i ?ws b 0 = Some (b', card ?S)" "bm_shape spans b'" "same_links b b'"
    "free_bits b' = free_bits b - scanned i n"
    "alloc_bits b' = alloc_bits b \<union> (free_bits b \<inter> scanned i n)"
    using fold_count_bits [OF b ok(1) _ ok(2)] w by auto
  have "card ?S = n \<longleftrightarrow> span_slots i n \<subseteq> alloc_bits b \<union> free_bits b"
  proof
    assume "card ?S = n"
    then have "?S = span_slots i n" using used by (intro card_subset_eq) (simp_all add: span_slots_def)
    then show "span_slots i n \<subseteq> alloc_bits b \<union> free_bits b" by blast
  next
    assume "span_slots i n \<subseteq> alloc_bits b \<union> free_bits b"
    then have "?S = span_slots i n" using used span_slots_scanned [of i n] by blast
    then show "card ?S = n" by (simp add: span_slots_def)
  qed
  moreover have "no_deposit i ?ws b' = Some True"
    using no_deposit_bits [OF b'(2) b(2) ok(1)] w b'(4) by auto
  ultimately have "is_fully_free b i n = Some (b', span_slots i n \<subseteq> alloc_bits b \<union> free_bits b)"
    using b'(1) by (simp add: is_fully_free_def)
  then show ?thesis using b' by blast
qed


subsection \<open>Active lists\<close>

text \<open>\<open>alist na h xs t\<close>: following \<open>na\<close> from \<open>h\<close> visits exactly \<open>xs\<close> and then reaches \<open>t\<close>.\<close>

fun alist :: "nat list \<Rightarrow> nat \<Rightarrow> nat list \<Rightarrow> nat \<Rightarrow> bool" where
  "alist na h [] t \<longleftrightarrow> h = t"
| "alist na h (x # xs) t \<longleftrightarrow> h = x \<and> x \<noteq> NO_SPAN \<and> x < length na \<and> alist na (na ! x) xs t"

lemma alist_upd [simp]: "i \<notin> set xs \<Longrightarrow> alist (na[i := v]) h xs t = alist na h xs t"
  by (induction xs arbitrary: h) auto

lemma alist_set: "alist na h xs t \<Longrightarrow> x \<in> set xs \<Longrightarrow> x < length na \<and> x \<noteq> NO_SPAN"
  by (induction xs arbitrary: h) auto

lemma alist_append: "alist na h (xs @ ys) t \<longleftrightarrow> (\<exists>m. alist na h xs m \<and> alist na m ys t)"
  by (induction xs arbitrary: h) auto

lemma link_front_alist:
  assumes "alist (next_active b) head xs NO_SPAN" "i \<notin> set xs" "i \<noteq> NO_SPAN" "bm_shape spans b" "i < spans"
  shows "\<exists>b'. link_front b i head = Some (b', i) \<and> bm_shape spans b' \<and> bm_base b' = bm_base b \<and>
    alloc_words b' = alloc_words b \<and> free_words b' = free_words b \<and>
    alist (next_active b') i (i # xs) NO_SPAN \<and> next_active b' = (next_active b)[i := head] \<and>
    on_list b' = (on_list b)[i := True]"
  using assms by (simp add: link_front_def bm_shape_def)

definition pred_of :: "nat list \<Rightarrow> nat" where
  "pred_of ps = (if ps = [] then NO_SPAN else last ps)"

lemma alist_remove:
  assumes l: "alist na h (ps @ i # ys) NO_SPAN" and d: "distinct (ps @ i # ys)"
    and na': "na' = (if ps = [] then na else na[last ps := na ! i])[i := NO_SPAN]"
  shows "alist na' (if ps = [] then na ! i else h) (ps @ ys) NO_SPAN"
proof -
  have i: "alist na h ps i" "i < length na" "alist na (na ! i) ys NO_SPAN"
    using l by (auto simp: alist_append)
  show ?thesis
  proof (cases ps rule: rev_cases)
    case Nil
    then show ?thesis using i d na' by simp
  next
    case (snoc qs p)
    have q: "alist na h qs p" "p < length na" "p \<noteq> NO_SPAN" using i(1) snoc by (auto simp: alist_append)
    have "alist na' h qs p" "alist na' (na ! i) ys NO_SPAN" "na' ! p = na ! i"
      using q i d na' snoc by auto
    then show ?thesis using q snoc na' by (simp add: alist_append)
  qed
qed

lemma unlink_active_alist:
  assumes l: "alist (next_active b) head (ps @ i # ys) NO_SPAN" and d: "distinct (ps @ i # ys)"
    and b: "bm_shape spans b"
  shows "\<exists>b' head'. unlink_active b i (pred_of ps) head = Some (b', head') \<and> bm_shape spans b' \<and>
    bm_base b' = bm_base b \<and> alloc_words b' = alloc_words b \<and> free_words b' = free_words b \<and>
    alist (next_active b') head' (ps @ ys) NO_SPAN \<and> on_list b' = (on_list b)[i := False] \<and>
    (\<forall>x. x \<notin> set (ps @ i # ys) \<longrightarrow> next_active b' ! x = next_active b ! x)"
proof -
  let ?na = "(if ps = [] then next_active b else (next_active b)[last ps := next_active b ! i])[i := NO_SPAN]"
  have p: "pred_of ps \<noteq> NO_SPAN \<and> last ps < length (next_active b)" if "ps \<noteq> []"
    using that alist_set [OF l, of "last ps"] by (simp add: pred_of_def)
  have i: "i < spans" using alist_set [OF l, of i] b by (simp add: bm_shape_def)
  have "unlink_active b i (pred_of ps) head =
    Some (b\<lparr>next_active := ?na, on_list := (on_list b)[i := False]\<rparr>, if ps = [] then next_active b ! i else head)"
    using i b p by (auto simp: unlink_active_def bm_shape_def pred_of_def)
  moreover have "?na ! x = next_active b ! x" if "x \<notin> set (ps @ i # ys)" for x
    using that last_in_set [of ps] by (cases "ps = []") (auto simp del: last_in_set, metis nth_list_update_neq)
  ultimately show ?thesis
    using alist_remove [OF l d refl] b by (auto simp: bm_shape_def)
qed

subsection \<open>The span table\<close>

definition st_shape :: "span_table \<Rightarrow> bool" where
  "st_shape t \<longleftrightarrow> st_base t + st_len t < 2 ^ 64 \<and> length (entries t) = div_ceil (st_len t) 65536"

lemma assign_entries_upt:
  "n \<le> length es \<Longrightarrow> \<exists>es'. assign_entries [m..<n] v es = Some es' \<and> length es' = length es \<and>
     (\<forall>j. es' ! j = (if m \<le> j \<and> j < n then v else es ! j))"
proof (induction "n - m" arbitrary: m es)
  case 0
  then show ?case by auto
next
  case (Suc d)
  then have m: "m < n" by simp
  then have "[m..<n] = m # [Suc m..<n]" by (simp add: upt_conv_Cons)
  moreover obtain es' where "assign_entries [Suc m..<n] v (es[m := v]) = Some es'" "length es' = length es"
    "\<forall>j. es' ! j = (if Suc m \<le> j \<and> j < n then v else es[m := v] ! j)"
    using Suc.hyps(1) [of "Suc m" "es[m := v]"] Suc.hyps(2) Suc.prems m by fastforce
  moreover have "(if Suc m \<le> j \<and> j < n then v else es[m := v] ! j) = (if m \<le> j \<and> j < n then v else es ! j)" for j
    using m Suc.prems by (cases "j = m") auto
  ultimately show ?case using m Suc.prems by auto
qed

lemma st_index:
  assumes "st_shape t" "st_base t \<le> a" "a < st_base t + st_len t"
  shows "index_of t a = Some ((a - st_base t) div 65536) \<and> (a - st_base t) div 65536 < length (entries t)"
proof -
  have "(a - st_base t) div 65536 < div_ceil (st_len t) 65536"
    using div_ceil_mult_ge [of 65536 "st_len t"] assms by (intro less_mult_imp_div_less) linarith
  then show ?thesis using assms by (auto simp: index_of_def st_shape_def)
qed

lemma assign_range_entries:
  assumes t: "st_shape t" and p: "st_base t \<le> ptr" "ptr < st_base t + st_len t"
    and n: "0 < bytes" "ptr + bytes \<le> st_base t + length (entries t) * 65536"
    and w: "ptr + bytes < 2 ^ 64"
  shows "\<exists>t'. assign_range t ptr bytes c h = Some t' \<and> st_shape t' \<and>
    st_base t' = st_base t \<and> st_len t' = st_len t \<and> length (entries t') = length (entries t) \<and>
    (\<forall>j. entries t' ! j = (if (ptr - st_base t) div 65536 \<le> j \<and> j \<le> (ptr + bytes - 1 - st_base t) div 65536
                            then pack c h else entries t ! j))"
proof -
  let ?s = "(ptr - st_base t) div 65536" and ?l = "(ptr + bytes - 1 - st_base t) div 65536"
  have l: "?l < length (entries t)" using n p by (intro less_mult_imp_div_less) linarith
  have sl: "?s \<le> ?l" using n(1) by (intro div_le_mono) linarith
  have len: "length (entries t) < 2 ^ 64"
    using t div_ceil_le_iff [of 65536 "st_len t" "2 ^ 64 - 1"] unfolding st_shape_def by linarith
  have a: "sub64 (sub64 (add64 ptr bytes) 1) (st_base t) = ptr + bytes - 1 - st_base t"
    "sub64 (length (entries t)) 1 = length (entries t) - 1"
    using n p w len l by simp_all
  have m: "min ?l (length (entries t) - 1) = ?l" using l by simp
  obtain es where es: "assign_entries [?s..<?l + 1] (pack c h) (entries t) = Some es"
    "length es = length (entries t)"
    "\<forall>j. es ! j = (if ?s \<le> j \<and> j < ?l + 1 then pack c h else entries t ! j)"
    using assign_entries_upt [of "?l + 1" "entries t" ?s "pack c h"] l by auto
  have "assign_range t ptr bytes c h = Some (t\<lparr>entries := es\<rparr>)"
    unfolding assign_range_def using st_index [OF t p] sl a m es(1) by simp
  then show ?thesis using t es(2,3) by (simp add: st_shape_def less_Suc_eq_le)
qed

lemma lookup_entry:
  "st_shape t \<Longrightarrow> st_base t \<le> a \<Longrightarrow> a < st_base t + st_len t \<Longrightarrow>
     lookup t a = Some (unpack (entries t ! ((a - st_base t) div 65536)))"
  using st_index [of t a] by (auto simp: lookup_def)

lemma home_entry:
  "st_shape t \<Longrightarrow> st_base t \<le> a \<Longrightarrow> a < st_base t + st_len t \<Longrightarrow>
     home_relaxed t a = Some (entries t ! ((a - st_base t) div 65536) mod 2 ^ 16)"
  using st_index [of t a] by (auto simp: home_relaxed_def st_shape_def)

lemma unpack_pack:
  "c < 2 ^ 16 \<Longrightarrow> h < 2 ^ 16 \<Longrightarrow> unpack (pack c h) = (if c = 0 \<and> h = 0 then None else Some (c, h))"
  by (simp add: unpack_def pack_def)

lemma pack_home: "h < 2 ^ 16 \<Longrightarrow> pack c h mod 2 ^ 16 = h"
  by (simp add: pack_def)

lemma table_new_shape: "base + len < 2 ^ 64 \<Longrightarrow> st_shape (table_new base len)"
  by (simp add: table_new_def st_shape_def)

lemma bitmaps_new_shape:
  "bm_shape (div_ceil len 65536) (bitmaps_new base len) \<and>
   alloc_bits (bitmaps_new base len) = {} \<and> free_bits (bitmaps_new base len) = {}"
  by (simp add: bitmaps_new_def bm_shape_def alloc_bits_def free_bits_def Let_def)

lemma span_base_eq: "bm_base b + i * 65536 < 2 ^ 64 \<Longrightarrow> span_base b i = bm_base b + i * 65536"
  by (simp add: span_base_def)

lemma span_of_eq:
  "bm_base b + i * 65536 + o' < 2 ^ 64 \<Longrightarrow> o' < 65536 \<Longrightarrow> i < 2 ^ 32 \<Longrightarrow>
     span_of b (bm_base b + i * 65536 + o') = i"
  by (simp add: span_of_def)

lemma slot_offset: "0 < osz \<Longrightarrow> s < 65536 div osz \<Longrightarrow> s * osz < (65536::nat)"
proof -
  assume a: "0 < osz" "s < 65536 div osz"
  then have "s * osz < 65536 div osz * osz" by simp
  also have "\<dots> \<le> 65536" by simp
  finally show ?thesis .
qed

subsection \<open>Properties\<close>

text \<open>
  C38. Span metadata round trip: after the spans of \<open>[ptr, ptr + bytes)\<close> have been assigned to
  a class and a home shard, a lookup of any address of the arena returns that class and home if
  its span was assigned, and what it returned before otherwise.
\<close>

theorem assign_lookup_roundtrip:
  assumes "st_shape t" "st_base t \<le> ptr" "ptr < st_base t + st_len t" "0 < bytes"
    and "ptr + bytes \<le> st_base t + length (entries t) * SPAN_BYTES" "ptr + bytes < 2 ^ 64"
    and "0 < c" "c < 2 ^ 16" "h < 2 ^ 16" "st_base t \<le> a" "a < st_base t + st_len t"
  shows "\<exists>t'. assign_range t ptr bytes c h = Some t' \<and> st_shape t' \<and>
    lookup t' a = (if (ptr - st_base t) div SPAN_BYTES \<le> (a - st_base t) div SPAN_BYTES \<and>
                      (a - st_base t) div SPAN_BYTES \<le> (ptr + bytes - 1 - st_base t) div SPAN_BYTES
                   then Some (Some (c, h)) else lookup t a) \<and>
    home_relaxed t' a = (if (ptr - st_base t) div SPAN_BYTES \<le> (a - st_base t) div SPAN_BYTES \<and>
                      (a - st_base t) div SPAN_BYTES \<le> (ptr + bytes - 1 - st_base t) div SPAN_BYTES
                   then Some h else home_relaxed t a)"
proof -
  obtain t' where t': "assign_range t ptr bytes c h = Some t'" "st_shape t'" "st_base t' = st_base t"
    "st_len t' = st_len t"
    "\<forall>j. entries t' ! j = (if (ptr - st_base t) div 65536 \<le> j \<and> j \<le> (ptr + bytes - 1 - st_base t) div 65536
                            then pack c h else entries t ! j)"
    using assign_range_entries [of t ptr bytes c h] assms by auto
  have l: "lookup t' a = Some (unpack (entries t' ! ((a - st_base t) div 65536)))"
    "lookup t a = Some (unpack (entries t ! ((a - st_base t) div 65536)))"
    "home_relaxed t' a = Some (entries t' ! ((a - st_base t) div 65536) mod 2 ^ 16)"
    "home_relaxed t a = Some (entries t ! ((a - st_base t) div 65536) mod 2 ^ 16)"
    using lookup_entry [of t' a] lookup_entry [of t a] home_entry [of t' a] home_entry [of t a] t' assms
    by simp_all
  show ?thesis
    using t'(1,2,5) l assms(7-9) unpack_pack [of c h] pack_home [of h c] by (intro exI [of _ t']) simp
qed

theorem assign_lookup_roundtrip_witness:
  "\<exists>t'. assign_range (table_new 4294967296 1048576) 4294967296 65536 7 3 = Some t' \<and>
     lookup t' (4294967296 + 65535) = Some (Some (7, 3)) \<and>
     lookup t' (4294967296 + 65536) = lookup (table_new 4294967296 1048576) (4294967296 + 65536)"
proof -
  let ?t = "table_new 4294967296 1048576"
  have s: "st_shape ?t" by (rule table_new_shape) simp
  have f: "st_base ?t = 4294967296" "st_len ?t = 1048576" "length (entries ?t) = 16"
    by (simp_all add: table_new_def div_ceil_def)
  show ?thesis
    using assign_lookup_roundtrip [OF s, of 4294967296 65536 7 3 "4294967296 + 65535"]
      assign_lookup_roundtrip [OF s, of 4294967296 65536 7 3 "4294967296 + 65536"] f by auto
qed

text \<open>
  C37. The emptiness test of the cross-class reclaimer is exact: provided the bitmap words of a
  span hold no bits beyond its \<open>n\<close> slots, \<open>is_fully_free\<close> answers true exactly when each of the
  \<open>n\<close> slots is free in one of the two bitmaps. It loses no deposit: every bit of the scanned
  words is afterwards in the owner's bitmap, and the active lists are untouched.
\<close>

theorem is_fully_free_exact:
  assumes "bm_shape spans b" "i < spans" "n \<le> SPAN_SLOTS"
    and "(alloc_bits b \<union> free_bits b) \<inter> scanned i n \<subseteq> span_slots i n"
  shows "\<exists>b' r. is_fully_free b i n = Some (b', r) \<and>
    (r \<longleftrightarrow> span_slots i n \<subseteq> alloc_bits b \<union> free_bits b) \<and>
    bm_shape spans b' \<and> same_links b b' \<and> free_bits b' \<inter> scanned i n = {} \<and>
    alloc_bits b' \<union> free_bits b' = alloc_bits b \<union> free_bits b"
proof -
  obtain b' where "is_fully_free b i n = Some (b', span_slots i n \<subseteq> alloc_bits b \<union> free_bits b)"
    "bm_shape spans b'" "same_links b b'" "free_bits b' = free_bits b - scanned i n"
    "alloc_bits b' = alloc_bits b \<union> (free_bits b \<inter> scanned i n)"
    using is_fully_free_bits [OF assms(1,2) _ assms(4)] assms(3) by auto
  then show ?thesis by blast
qed

theorem is_fully_free_exact_witness:
  "\<exists>b' r. is_fully_free (bitmaps_new 0 1048576) 3 42 = Some (b', r) \<and> \<not> r"
proof -
  have s: "bm_shape 16 (bitmaps_new 0 1048576)" "alloc_bits (bitmaps_new 0 1048576) = {}"
    "free_bits (bitmaps_new 0 1048576) = {}"
    using bitmaps_new_shape [of 1048576 0] by (simp_all add: div_ceil_def)
  have "span_slots 3 42 \<noteq> {}" by (simp add: span_slots_def)
  then show ?thesis using is_fully_free_exact [OF s(1), of 3 42] s(2,3) by auto
qed

end
