(* ===== verification/Span_Pool.thy ===== *)
theory Span_Pool
  imports Span_Meta
begin

text \<open>
  The free-run index of the large allocator (\<^verbatim>\<open>toccata-core/src/spanpool.rs\<close>): a
  segregated-fit index of free runs of spans, with one doubly linked stack per exact run
  length, boundary tags at the head and the tail of every free run, and a two-level occupancy
  bitmap over the stacks.

  The abstraction is \<open>stk\<close>, which gives for every run length the list of heads on its stack.
  \<open>sp_struct p stk\<close> says that the arrays of \<open>p\<close> represent \<open>stk\<close>; \<open>separated\<close> adds that no
  two free runs overlap or touch. Every operation is proved to succeed (no index out of range),
  to keep both, and to act on \<open>stk\<close> as a plain push or removal.
\<close>

subsection \<open>Data\<close>

record span_pool =
  num_spans :: nat
  bucket_head :: "nat list"
  next_run :: "nat list"
  prev_run :: "nat list"
  head_count :: "nat list"
  tail_count :: "nat list"
  l0 :: "u64 list"
  l1 :: "u64 list"

definition pool_new :: "nat \<Rightarrow> span_pool" where
  "pool_new spans =
     (let n = max spans 1;
          nbuckets = n + 1;
          l0_words = max (div_ceil nbuckets 64) 1;
          l1_words = max (div_ceil l0_words 64) 1
      in \<lparr> num_spans = as_u32 n,
           bucket_head = replicate nbuckets NO_SPAN,
           next_run = replicate n NO_SPAN,
           prev_run = replicate n NO_SPAN,
           head_count = replicate n 0,
           tail_count = replicate n 0,
           l0 = replicate l0_words 0,
           l1 = replicate l1_words 0 \<rparr>)"

subsection \<open>Occupancy bitmap\<close>

definition bit_set :: "span_pool \<Rightarrow> nat \<Rightarrow> span_pool rust" where
  "bit_set p c = do {
     let w = c div 64;
     x \<leftarrow> idx (l0 p) w;
     a \<leftarrow> upd (l0 p) w (x OR push_bit (c mod 64) 1);
     y \<leftarrow> idx (l1 p) (w div 64);
     b \<leftarrow> upd (l1 p) (w div 64) (y OR push_bit (w mod 64) 1);
     Some (p\<lparr>l0 := a, l1 := b\<rparr>)
   }"

definition bit_clear :: "span_pool \<Rightarrow> nat \<Rightarrow> span_pool rust" where
  "bit_clear p c = do {
     let w = c div 64;
     x \<leftarrow> idx (l0 p) w;
     a \<leftarrow> upd (l0 p) w (x AND NOT (push_bit (c mod 64) 1));
     x' \<leftarrow> idx a w;
     if x' = 0 then do {
       y \<leftarrow> idx (l1 p) (w div 64);
       b \<leftarrow> upd (l1 p) (w div 64) (y AND NOT (push_bit (w mod 64) 1));
       Some (p\<lparr>l0 := a, l1 := b\<rparr>)
     } else Some (p\<lparr>l0 := a\<rparr>)
   }"

text \<open>\<open>l0_first p nw\<close>: the lowest bucket of the \<open>l0\<close> word \<open>nw\<close>.\<close>

definition l0_first :: "span_pool \<Rightarrow> nat \<Rightarrow> nat rust" where
  "l0_first p nw = do {
     x \<leftarrow> idx (l0 p) nw;
     Some (as_u32 (as_u32 nw * 64 + trailing_zeros x))
   }"

function l1_scan :: "span_pool \<Rightarrow> nat \<Rightarrow> nat option rust" where
  "l1_scan p li =
     (if li < length (l1 p)
      then (if l1 p ! li \<noteq> 0
            then map_option Some (l0_first p (li * 64 + trailing_zeros (l1 p ! li)))
            else l1_scan p (Suc li))
      else Some None)"
  by pat_completeness auto
termination
  by (relation "measure (\<lambda>(p, li). length (l1 p) - li)") auto

declare l1_scan.simps [simp del]

definition find_first_set_ge :: "span_pool \<Rightarrow> nat \<Rightarrow> nat option rust" where
  "find_first_set_ge p c =
     (if length (l0 p) * 64 \<le> c then Some None
      else do {
        let w = c div 64;
        let b = c mod 64;
        x \<leftarrow> idx (l0 p) w;
        let masked = x AND push_bit b (- 1);
        if masked \<noteq> 0 then Some (Some (as_u32 (as_u32 w * 64 + trailing_zeros masked)))
        else do {
          let lw = w div 64;
          let wb = w mod 64;
          m \<leftarrow> (if wb < 63 then do { y \<leftarrow> idx (l1 p) lw; Some (y AND push_bit (wb + 1) (- 1)) }
                else Some 0);
          if m \<noteq> 0 then map_option Some (l0_first p (lw * 64 + trailing_zeros m))
          else l1_scan p (lw + 1)
        }
      })"

subsection \<open>Bucket stacks\<close>

definition link_run :: "span_pool \<Rightarrow> nat \<Rightarrow> nat \<Rightarrow> span_pool rust" where
  "link_run p head cnt = do {
     old \<leftarrow> idx (bucket_head p) cnt;
     nx \<leftarrow> upd (next_run p) head old;
     pv \<leftarrow> upd (prev_run p) head NO_SPAN;
     pv' \<leftarrow> (if old \<noteq> NO_SPAN then upd pv old head else Some pv);
     bh \<leftarrow> upd (bucket_head p) cnt head;
     hc \<leftarrow> upd (head_count p) head cnt;
     tc \<leftarrow> upd (tail_count p) (sub32 (add32 head cnt) 1) cnt;
     bit_set (p\<lparr>next_run := nx, prev_run := pv', bucket_head := bh, head_count := hc,
               tail_count := tc\<rparr>) cnt
   }"

definition unlink_run :: "span_pool \<Rightarrow> nat \<Rightarrow> nat \<Rightarrow> span_pool rust" where
  "unlink_run p head cnt = do {
     pr \<leftarrow> idx (prev_run p) head;
     n \<leftarrow> idx (next_run p) head;
     p1 \<leftarrow> (if pr \<noteq> NO_SPAN then do {
              nx \<leftarrow> upd (next_run p) pr n;
              Some (p\<lparr>next_run := nx\<rparr>)
            } else do {
              bh \<leftarrow> upd (bucket_head p) cnt n;
              if n = NO_SPAN then bit_clear (p\<lparr>bucket_head := bh\<rparr>) cnt
              else Some (p\<lparr>bucket_head := bh\<rparr>)
            });
     pv \<leftarrow> (if n \<noteq> NO_SPAN then upd (prev_run p1) n pr else Some (prev_run p1));
     hc \<leftarrow> upd (head_count p1) head 0;
     tc \<leftarrow> upd (tail_count p1) (sub32 (add32 head cnt) 1) 0;
     nx \<leftarrow> upd (next_run p1) head NO_SPAN;
     pv' \<leftarrow> upd pv head NO_SPAN;
     Some (p1\<lparr>prev_run := pv', head_count := hc, tail_count := tc, next_run := nx\<rparr>)
   }"

subsection \<open>Public operations\<close>

definition pool_alloc :: "span_pool \<Rightarrow> nat \<Rightarrow> (span_pool \<times> nat option) rust" where
  "pool_alloc p n =
     (if n = 0 \<or> num_spans p < n then Some (p, None)
      else do {
        found \<leftarrow> find_first_set_ge p n;
        case found of
          None \<Rightarrow> Some (p, None)
        | Some m \<Rightarrow> do {
            head \<leftarrow> idx (bucket_head p) m;
            p1 \<leftarrow> unlink_run p head m;
            p2 \<leftarrow> (if n < m then link_run p1 (add32 head n) (sub32 m n) else Some p1);
            Some (p2, Some head)
          }
      })"

definition merge_right :: "span_pool \<Rightarrow> nat \<Rightarrow> nat \<Rightarrow> (span_pool \<times> nat) rust" where
  "merge_right p h c =
     (let right = add32 h c in
      if right < num_spans p then do {
        rc \<leftarrow> idx (head_count p) right;
        if rc \<noteq> 0 then do {
          p' \<leftarrow> unlink_run p right rc;
          Some (p', add32 c rc)
        } else Some (p, c)
      } else Some (p, c))"

definition merge_left :: "span_pool \<Rightarrow> nat \<Rightarrow> nat \<Rightarrow> (span_pool \<times> nat \<times> nat) rust" where
  "merge_left p h c =
     (if 0 < h then do {
        lc \<leftarrow> idx (tail_count p) (h - 1);
        if lc \<noteq> 0 then do {
          let lhead = sub32 h lc;
          p' \<leftarrow> unlink_run p lhead lc;
          Some (p', lhead, add32 c lc)
        } else Some (p, h, c)
      } else Some (p, h, c))"

definition pool_free :: "span_pool \<Rightarrow> nat \<Rightarrow> nat \<Rightarrow> span_pool rust" where
  "pool_free p head cnt = do {
     (p1, c1) \<leftarrow> merge_right p head cnt;
     (p2, h, c) \<leftarrow> merge_left p1 head c1;
     link_run p2 h c
   }"

subsection \<open>Doubly linked lists in two arrays\<close>

definition hd_or :: "'a list \<Rightarrow> 'a \<Rightarrow> 'a" where
  "hd_or xs n = (case xs of [] \<Rightarrow> n | x # _ \<Rightarrow> x)"

definition last_or :: "'a \<Rightarrow> 'a list \<Rightarrow> 'a" where
  "last_or p xs = (if xs = [] then p else last xs)"

lemma hd_or_simps [simp]: "hd_or [] n = n" "hd_or (x # xs) n = x"
  by (simp_all add: hd_or_def)

lemma last_or_simps [simp]: "last_or p [] = p" "last_or p (x # xs) = last_or x xs"
  "last_or p (xs @ [x]) = x"
  by (simp_all add: last_or_def)

lemma last_or_ne: "xs \<noteq> [] \<Longrightarrow> last_or p xs = last xs"
  by (simp add: last_or_def)

lemma hd_or_in: "xs \<noteq> [] \<Longrightarrow> hd_or xs n \<in> set xs"
  by (cases xs) auto

lemma last_or_in: "xs \<noteq> [] \<Longrightarrow> last_or n xs \<in> set xs"
  by (simp add: last_or_def)

text \<open>\<open>dll nx pv p xs n\<close>: \<open>xs\<close> is a list segment between the neighbours \<open>p\<close> and \<open>n\<close>.\<close>

fun dll :: "nat list \<Rightarrow> nat list \<Rightarrow> nat \<Rightarrow> nat list \<Rightarrow> nat \<Rightarrow> bool" where
  "dll nx pv p [] n = True"
| "dll nx pv p (x # xs) n \<longleftrightarrow> pv ! x = p \<and> nx ! x = hd_or xs n \<and> dll nx pv x xs n"

lemma dll_append:
  "dll nx pv p (xs @ ys) n \<longleftrightarrow> dll nx pv p xs (hd_or ys n) \<and> dll nx pv (last_or p xs) ys n"
proof (induction xs arbitrary: p)
  case (Cons x xs)
  have "hd_or (xs @ ys) n = hd_or xs (hd_or ys n)" by (cases xs) auto
  then show ?case using Cons.IH by auto
qed simp

lemma dll_frame:
  "dll nx pv p xs n \<Longrightarrow> (\<And>x. x \<in> set xs \<Longrightarrow> nx' ! x = nx ! x \<and> pv' ! x = pv ! x) \<Longrightarrow>
     dll nx' pv' p xs n"
  by (induction xs arbitrary: p) auto

lemma dll_upd [simp]:
  "y \<notin> set xs \<Longrightarrow> dll nx (pv[y := v]) p xs n = dll nx pv p xs n"
  "y \<notin> set xs \<Longrightarrow> dll (nx[y := v]) pv p xs n = dll nx pv p xs n"
  by (induction xs arbitrary: p) auto

lemma dll_set_prev:
  "dll nx pv p (y # ys) n \<Longrightarrow> y \<notin> set ys \<Longrightarrow> y < length pv \<Longrightarrow> dll nx (pv[y := p']) p' (y # ys) n"
  by auto

lemma dll_set_next:
  assumes "dll nx pv p (xs @ [y]) n" "y \<notin> set xs" "y < length nx"
  shows "dll (nx[y := n']) pv p (xs @ [y]) n'"
  using assms by (auto simp: dll_append)

lemma dll_push:
  assumes "dll nx pv NO_SPAN xs NO_SPAN" "distinct (h # xs)" "\<forall>x\<in>set (h # xs). x < length nx \<and> x < length pv"
    and "pv' = (if xs = [] then pv[h := NO_SPAN] else pv[h := NO_SPAN, hd xs := h])"
  shows "dll (nx[h := hd_or xs NO_SPAN]) pv' NO_SPAN (h # xs) NO_SPAN"
proof (cases xs)
  case (Cons y ys)
  have "dll nx (pv[y := h]) h (y # ys) NO_SPAN"
    using assms Cons by auto
  then have "dll (nx[h := y]) (pv[h := NO_SPAN, y := h]) h (y # ys) NO_SPAN"
    by (rule dll_frame) (use assms Cons in \<open>auto simp: nth_list_update\<close>)
  then show ?thesis using assms Cons by auto
qed (use assms in auto)

text \<open>Removing \<open>h\<close>: its neighbours are joined, its own links are reset.\<close>

lemma dll_remove:
  assumes "dll nx pv NO_SPAN (xs @ h # ys) NO_SPAN" "distinct (xs @ h # ys)"
    and "\<forall>x\<in>set (xs @ h # ys). x < length nx \<and> x < length pv"
    and "nx' = (if xs = [] then nx else nx[last xs := hd_or ys NO_SPAN])"
    and "pv' = (if ys = [] then pv else pv[hd ys := last_or NO_SPAN xs])"
  shows "dll (nx'[h := NO_SPAN]) (pv'[h := NO_SPAN]) NO_SPAN (xs @ ys) NO_SPAN"
proof -
  have l: "dll nx pv NO_SPAN xs h" and r: "dll nx pv h ys NO_SPAN"
    using assms(1) by (auto simp: dll_append)
  have "dll (nx'[h := NO_SPAN]) (pv'[h := NO_SPAN]) NO_SPAN xs (hd_or ys NO_SPAN)"
  proof (cases xs rule: rev_cases)
    case (snoc xs' x)
    then have "dll nx' pv NO_SPAN xs (hd_or ys NO_SPAN)"
      using dll_set_next [of nx pv NO_SPAN xs' x h] l assms by auto
    then show ?thesis
      by (rule dll_frame) (use assms in \<open>cases ys; auto simp: nth_list_update\<close>)
  qed simp
  moreover have "dll (nx'[h := NO_SPAN]) (pv'[h := NO_SPAN]) (last_or NO_SPAN xs) ys NO_SPAN"
  proof (cases ys)
    case (Cons y ys')
    have y: "dll nx pv' (last_or NO_SPAN xs) ys NO_SPAN"
      using dll_set_prev [of nx pv h y ys'] r assms Cons by simp
    have "last xs \<notin> set ys" if "xs \<noteq> []"
      using last_in_set [OF that] assms(2) by (simp add: disjoint_iff)
    then show ?thesis
      by (intro dll_frame [OF y]) (use assms(2,3,4) in \<open>auto simp: nth_list_update\<close>)
  qed simp
  ultimately show ?thesis by (simp add: dll_append)
qed

subsection \<open>The two-level bitmap\<close>

text \<open>\<open>bitmaps a b S\<close>: \<open>a\<close> is the bitmap of \<open>S\<close> and \<open>b\<close> the bitmap of its non-empty words.\<close>

definition bitmaps :: "u64 list \<Rightarrow> u64 list \<Rightarrow> nat set \<Rightarrow> bool" where
  "bitmaps a b S \<longleftrightarrow> S = {i. bitmap_of a i} \<and> length a \<le> 64 * length b \<and>
     (\<forall>w. bitmap_of b w \<longleftrightarrow> w < length a \<and> a ! w \<noteq> 0)"

lemma bitmaps_summary: "bitmaps a b S \<Longrightarrow> w < length a \<Longrightarrow> w div 64 < length b"
  by (rule less_mult_imp_div_less) (simp add: bitmaps_def)

lemma bitmaps_insert:
  assumes "bitmaps a b S" "c div 64 = w" "w < length a"
  shows "bitmaps (a[w := a ! w OR push_bit (c mod 64) 1])
    (b[w div 64 := b ! (w div 64) OR push_bit (w mod 64) 1]) (insert c S)" (is "bitmaps ?a ?b _")
proof -
  have "bits (a ! w OR push_bit (c mod 64) 1) \<noteq> {}"
    by (simp add: bits_simps del: bits_empty_iff push_bit_of_1)
  then have ne: "a ! w OR push_bit (c mod 64) 1 \<noteq> 0" by (metis bits_0)
  have w: "w div 64 < length b" using bitmaps_summary assms(1,3) .
  have "bitmap_of ?b v \<longleftrightarrow> v < length ?a \<and> ?a ! v \<noteq> 0" for v
    using assms ne bitmap_of_OR [OF w, of v] by (auto simp: bitmaps_def nth_list_update)
  moreover have "insert c S = {i. bitmap_of ?a i}"
    using assms bitmap_of_OR [of c a] by (auto simp: bitmaps_def)
  ultimately show ?thesis using assms(1) by (simp add: bitmaps_def)
qed

lemma bitmaps_remove:
  assumes "bitmaps a b S" "c div 64 = w" "w < length a"
    and "a' = a[w := a ! w AND NOT (push_bit (c mod 64) 1)]"
  shows "bitmaps a' (if a' ! w = 0 then b[w div 64 := b ! (w div 64) AND NOT (push_bit (w mod 64) 1)]
    else b) (S - {c})" (is "bitmaps _ ?b _")
proof -
  have w: "w div 64 < length b" using bitmaps_summary assms(1,3) .
  have "a' ! w \<noteq> 0 \<Longrightarrow> a ! w \<noteq> 0" using assms by auto
  then have "bitmap_of ?b v \<longleftrightarrow> v < length a' \<and> a' ! v \<noteq> 0" for v
    using assms bitmap_of_AND_NOT [OF w, of v] by (auto simp: bitmaps_def nth_list_update)
  moreover have "S - {c} = {i. bitmap_of a' i}"
    using assms bitmap_of_AND_NOT [of c a] by (auto simp: bitmaps_def)
  ultimately show ?thesis using assms(1,4) by (simp add: bitmaps_def)
qed

lemma bitmaps_word:
  "bitmaps a b S \<Longrightarrow> c < 64 * length a \<Longrightarrow> c div 64 < length a \<and> c div 64 div 64 < length b"
  by (simp add: bitmaps_summary less_mult_imp_div_less)

lemma bit_set_bitmaps:
  assumes "bitmaps (l0 p) (l1 p) S" "c < 64 * length (l0 p)"
  shows "\<exists>a b. bit_set p c = Some (p\<lparr>l0 := a, l1 := b\<rparr>) \<and> bitmaps a b (insert c S) \<and>
    length a = length (l0 p) \<and> length b = length (l1 p)"
proof -
  obtain w where w: "c div 64 = w" by blast
  then have l: "w < length (l0 p)" "w div 64 < length (l1 p)"
    using bitmaps_word [OF assms] by simp_all
  let ?a = "(l0 p)[w := l0 p ! w OR push_bit (c mod 64) 1]"
  let ?b = "(l1 p)[w div 64 := l1 p ! (w div 64) OR push_bit (w mod 64) 1]"
  have "bit_set p c = Some (p\<lparr>l0 := ?a, l1 := ?b\<rparr>)"
    using l unfolding bit_set_def w Let_def by (simp del: push_bit_of_1)
  then show ?thesis using bitmaps_insert [OF assms(1) w l(1)] by (metis length_list_update)
qed

lemma bit_clear_bitmaps:
  assumes "bitmaps (l0 p) (l1 p) S" "c < 64 * length (l0 p)"
  shows "\<exists>a b. bit_clear p c = Some (p\<lparr>l0 := a, l1 := b\<rparr>) \<and> bitmaps a b (S - {c}) \<and>
    length a = length (l0 p) \<and> length b = length (l1 p)"
proof -
  obtain w where w: "c div 64 = w" by blast
  then have l: "w < length (l0 p)" "w div 64 < length (l1 p)"
    using bitmaps_word [OF assms] by simp_all
  define a where "a = (l0 p)[w := l0 p ! w AND NOT (push_bit (c mod 64) 1)]"
  have a: "length a = length (l0 p)" by (simp add: a_def)
  let ?b = "if a ! w = 0 then (l1 p)[w div 64 := l1 p ! (w div 64) AND NOT (push_bit (w mod 64) 1)]
    else l1 p"
  have "bit_clear p c = Some (p\<lparr>l0 := a, l1 := ?b\<rparr>)"
    using l unfolding bit_clear_def w a_def Let_def by (simp del: push_bit_of_1)
  moreover have "length ?b = length (l1 p)" by simp
  ultimately show ?thesis using bitmaps_remove [OF assms(1) w l(1) a_def] a by blast
qed

subsection \<open>The lowest non-empty bucket\<close>

definition least_ge :: "nat set \<Rightarrow> nat \<Rightarrow> nat option" where
  "least_ge S c = (if \<exists>k\<in>S. c \<le> k then Some (LEAST k. k \<in> S \<and> c \<le> k) else None)"

lemma least_ge_eq: "k \<in> S \<Longrightarrow> c \<le> k \<Longrightarrow> (\<And>j. j \<in> S \<Longrightarrow> c \<le> j \<Longrightarrow> k \<le> j) \<Longrightarrow> least_ge S c = Some k"
  unfolding least_ge_def by (auto intro!: Least_equality)

lemma least_ge_Some:
  "least_ge S c = Some k \<longleftrightarrow> k \<in> S \<and> c \<le> k \<and> (\<forall>j\<in>S. c \<le> j \<longrightarrow> k \<le> j)"
proof
  assume "least_ge S c = Some k"
  then have "\<exists>k\<in>S. c \<le> k" and k: "k = (LEAST k. k \<in> S \<and> c \<le> k)"
    by (auto simp: least_ge_def split: if_splits)
  then have "k \<in> S \<and> c \<le> k" by (metis (mono_tags, lifting) LeastI_ex)
  then show "k \<in> S \<and> c \<le> k \<and> (\<forall>j\<in>S. c \<le> j \<longrightarrow> k \<le> j)" using k by (auto intro: Least_le)
qed (auto intro: least_ge_eq)

lemma least_ge_None: "least_ge S c = None \<longleftrightarrow> (\<forall>k\<in>S. k < c)"
  by (simp add: least_ge_def) (meson not_le)

text \<open>A word \<open>nw\<close> such that every element of \<open>S\<close> from \<open>c\<close> on is in \<open>nw\<close> or a later word.\<close>

lemma least_in_word:
  assumes S: "S = {i. bitmap_of a i}" and nw: "nw < length a" "x \<noteq> 0" "bits x \<subseteq> bits (a ! nw)"
    and ge: "\<And>i. i \<in> S \<Longrightarrow> c \<le> i \<Longrightarrow> nw < i div 64 \<or> (nw = i div 64 \<and> i mod 64 \<in> bits x)"
    and c: "\<And>b. b \<in> bits x \<Longrightarrow> c \<le> nw * 64 + b"
  shows "least_ge S c = Some (nw * 64 + trailing_zeros x)"
proof (rule least_ge_eq)
  have t: "trailing_zeros x \<in> bits x" using nw by (simp add: trailing_zeros_in)
  then show "nw * 64 + trailing_zeros x \<in> S"
    using S nw bitmap_of_pair [of nw a "trailing_zeros x"] by auto
  show "c \<le> nw * 64 + trailing_zeros x" using c t .
  fix j assume j: "j \<in> S" "c \<le> j"
  have "j = j div 64 * 64 + j mod 64" by simp
  moreover have "trailing_zeros x \<le> j mod 64" if "j mod 64 \<in> bits x" using that trailing_zeros_le by blast
  moreover have "trailing_zeros x < 64" using t bits_bound by blast
  moreover have "nw * 64 + 64 \<le> j div 64 * 64" if "nw < j div 64"
    using mult_le_mono1 [of "Suc nw" "j div 64" 64] that by simp
  ultimately show "nw * 64 + trailing_zeros x \<le> j"
    using ge [OF j] by (elim disjE conjE) linarith+
qed

text \<open>The word search: from a non-empty word \<open>nw\<close> after which nothing was skipped.\<close>

lemma l0_first_least:
  assumes bm: "bitmaps (l0 p) (l1 p) S" and small: "64 * length (l0 p) \<le> 2 ^ 32"
    and nw: "bitmap_of (l1 p) nw" "c div 64 < nw"
    and skip: "\<And>w. bitmap_of (l1 p) w \<Longrightarrow> c div 64 \<le> w \<Longrightarrow> w < nw \<Longrightarrow> w = c div 64"
    and first: "\<And>i. i \<in> S \<Longrightarrow> c \<le> i \<Longrightarrow> i div 64 \<noteq> c div 64"
  shows "l0_first p nw = Some (the (least_ge S c)) \<and> least_ge S c \<noteq> None"
proof -
  have l: "nw < length (l0 p)" "l0 p ! nw \<noteq> 0" using bm nw by (auto simp: bitmaps_def)
  have t: "trailing_zeros (l0 p ! nw) < 64" using l trailing_zeros_less by blast
  have "least_ge S c = Some (nw * 64 + trailing_zeros (l0 p ! nw))"
  proof (rule least_in_word [of S "l0 p"])
    show "S = {i. bitmap_of (l0 p) i}" using bm by (simp add: bitmaps_def)
    show "c \<le> nw * 64 + b" for b
      using nw(2) by (metis div_le_mono div_less_iff_less_mult leI le_add1 le_trans less_imp_le_nat zero_less_numeral)
    fix i assume i: "i \<in> S" "c \<le> i"
    then have b: "i div 64 < length (l0 p)" "i mod 64 \<in> bits (l0 p ! (i div 64))"
      using bm by (auto simp: bitmaps_def bitmap_of_def)
    then have "bitmap_of (l1 p) (i div 64)" using bm by (fastforce simp: bitmaps_def)
    then have "\<not> i div 64 < nw" using skip [of "i div 64"] first [OF i] i(2) div_le_mono by blast
    then show "nw < i div 64 \<or> (nw = i div 64 \<and> i mod 64 \<in> bits (l0 p ! nw))" using b by auto
  qed (use l in auto)
  moreover have "nw * 64 + trailing_zeros (l0 p ! nw) < 2 ^ 32" using l t small by linarith
  ultimately show ?thesis using l by (simp add: l0_first_def)
qed

lemma l1_scan_least:
  assumes bm: "bitmaps (l0 p) (l1 p) S" and small: "64 * length (l0 p) \<le> 2 ^ 32"
    and first: "\<And>i. i \<in> S \<Longrightarrow> c \<le> i \<Longrightarrow> i div 64 \<noteq> c div 64"
  shows "c div 64 div 64 < li \<Longrightarrow>
    (\<And>w. bitmap_of (l1 p) w \<Longrightarrow> c div 64 \<le> w \<Longrightarrow> w div 64 < li \<Longrightarrow> w = c div 64) \<Longrightarrow>
    l1_scan p li = Some (least_ge S c)"
proof (induction "length (l1 p) - li" arbitrary: li rule: less_induct)
  case less
  note none = less.prems(2)
  show ?case
  proof (cases "li < length (l1 p)")
    case in_range: True
    show ?thesis
    proof (cases "l1 p ! li = 0")
      case True
      have "w = c div 64" if "bitmap_of (l1 p) w" "c div 64 \<le> w" "w div 64 < Suc li" for w
        using that none True by (cases "w div 64 = li") (auto simp: bitmap_of_def)
      then have "l1_scan p (Suc li) = Some (least_ge S c)"
        using less.hyps [of "Suc li"] less.prems(1) in_range by simp
      then show ?thesis using True in_range by (simp add: l1_scan.simps [of p li])
    next
      case False
      let ?t = "trailing_zeros (l1 p ! li)"
      let ?nw = "li * 64 + ?t"
      have t: "?t \<in> bits (l1 p ! li)" "?t < 64" using False trailing_zeros_in trailing_zeros_less by auto
      have nw: "bitmap_of (l1 p) ?nw" using t in_range by (simp add: bitmap_of_def)
      have d: "?nw div 64 = li" using t by simp
      have "c div 64 < ?nw" using less.prems(1) d by (metis div_le_mono leD leI)
      moreover have "w = c div 64" if w: "bitmap_of (l1 p) w" "c div 64 \<le> w" "w < ?nw" for w
      proof (cases "w div 64 = li")
        case True
        then have "?t \<le> w mod 64" using w(1) trailing_zeros_le by (auto simp: bitmap_of_def)
        moreover have "w = li * 64 + w mod 64" using True by (metis div_mult_mod_eq)
        ultimately show ?thesis using w(3) by linarith
      next
        case False
        then have "w div 64 < li" using w(3) d by (metis div_le_mono less_imp_le_nat le_neq_implies_less)
        then show ?thesis using none w by blast
      qed
      ultimately have "l0_first p ?nw = Some (the (least_ge S c)) \<and> least_ge S c \<noteq> None"
        by (intro l0_first_least [OF bm small nw] first) auto
      then show ?thesis using False in_range by (auto simp: l1_scan.simps [of p li])
    qed
  next
    case False
    have "k < c" if k: "k \<in> S" for k
    proof (rule ccontr)
      assume "\<not> k < c"
      then have c: "c \<le> k" by simp
      have "bitmap_of (l1 p) (k div 64)" using bm k by (fastforce simp: bitmaps_def bitmap_of_def)
      moreover from this have "k div 64 div 64 < li" using False by (auto simp: bitmap_of_def)
      ultimately have "k div 64 = c div 64" using none c div_le_mono by blast
      then show False using first k c by blast
    qed
    then show ?thesis using False by (simp add: l1_scan.simps [of p li] least_ge_None [THEN iffD2])
  qed
qed


lemma find_first_set_ge_least:
  assumes bm: "bitmaps (l0 p) (l1 p) S" and small: "64 * length (l0 p) \<le> 2 ^ 32"
  shows "find_first_set_ge p c = Some (least_ge S c)"
proof (cases "length (l0 p) * 64 \<le> c")
  case True
  have "k < c" if "k \<in> S" for k
    using that bm True bitmap_of_bound [of "l0 p" k] by (auto simp: bitmaps_def)
  then have "least_ge S c = None" by (simp add: least_ge_None)
  then show ?thesis using True by (simp add: find_first_set_ge_def)
next
  case False
  define w where "w = c div 64"
  have w: "w < length (l0 p)" using False by (simp add: w_def less_mult_imp_div_less)
  have wl: "w div 64 < length (l1 p)" using bitmaps_summary [OF bm w] .
  have S: "S = {i. bitmap_of (l0 p) i}" using bm by (simp add: bitmaps_def)
  let ?m = "l0 p ! w AND push_bit (c mod 64) (- 1)"
  have m: "bits ?m = bits (l0 p ! w) \<inter> {c mod 64..<64}" by (simp add: bits_simps)
  show ?thesis
  proof (cases "?m = 0")
    case hit: False
    have "least_ge S c = Some (w * 64 + trailing_zeros ?m)"
    proof (rule least_in_word [OF S w hit])
      show "bits ?m \<subseteq> bits (l0 p ! w)" using m by simp
      show "c \<le> w * 64 + b" if "b \<in> bits ?m" for b
      proof -
        have "c mod 64 \<le> b" using that [unfolded m] by simp
        then show ?thesis unfolding w_def by (metis add_le_cancel_left div_mult_mod_eq)
      qed
      fix i assume i: "i \<in> S" "c \<le> i"
      have "w \<le> i div 64" using i(2) by (simp add: w_def div_le_mono)
      moreover have "i mod 64 \<in> bits ?m" if "w = i div 64"
      proof -
        have "c mod 64 \<le> i mod 64" using that i(2) unfolding w_def
          by (metis add_le_cancel_left div_mult_mod_eq)
        then show ?thesis using i(1) that S m by (simp add: bitmap_of_def)
      qed
      ultimately show "w < i div 64 \<or> w = i div 64 \<and> i mod 64 \<in> bits ?m" by linarith
    qed
    moreover have "w * 64 + trailing_zeros ?m < 2 ^ 32"
      using w small trailing_zeros_less [OF hit] by linarith
    ultimately show ?thesis
      using False w hit by (simp add: find_first_set_ge_def flip: w_def)
  next
    case miss: True
    have first: "i div 64 \<noteq> c div 64" if i: "i \<in> S" "c \<le> i" for i
    proof
      assume e: "i div 64 = c div 64"
      then have "c mod 64 \<le> i mod 64" using i(2) by (metis add_le_cancel_left div_mult_mod_eq)
      then have "i mod 64 \<in> bits ?m" using i(1) e S m by (simp add: bitmap_of_def w_def)
      then show False using miss by simp
    qed
    define n1 where "n1 = (if w mod 64 < 63 then l1 p ! (w div 64) AND push_bit (w mod 64 + 1) (- 1) else 0)"
    have n: "bits n1 = bits (l1 p ! (w div 64)) \<inter> {w mod 64 + 1..<64}"
      by (auto simp: n1_def bits_simps)
    have eq: "find_first_set_ge p c =
      (if n1 \<noteq> 0 then map_option Some (l0_first p (w div 64 * 64 + trailing_zeros n1))
       else l1_scan p (w div 64 + 1))"
      using False w wl miss by (simp add: find_first_set_ge_def Let_def n1_def flip: w_def)
    have above: "v = w \<or> v mod 64 \<in> bits n1" if "bitmap_of (l1 p) v" "w \<le> v" "v div 64 = w div 64" for v
    proof -
      have "w mod 64 \<le> v mod 64" using that by (metis add_le_cancel_left div_mult_mod_eq)
      then show ?thesis using that n same_word [OF that(3)] by (auto simp: bitmap_of_def)
    qed
    show ?thesis
    proof (cases "n1 = 0")
      case True
      have "v = w" if "bitmap_of (l1 p) v" "w \<le> v" "v div 64 < w div 64 + 1" for v
        using above [of v] that div_le_mono [of w v 64] True by auto
      then have "l1_scan p (w div 64 + 1) = Some (least_ge S c)"
        unfolding w_def by (intro l1_scan_least [OF bm small first]) auto
      then show ?thesis using eq True by simp
    next
      case n0: False
      let ?t = "trailing_zeros n1"
      let ?nw = "w div 64 * 64 + ?t"
      have t: "?t \<in> bits (l1 p ! (w div 64))" "w mod 64 < ?t" "?t < 64"
        using trailing_zeros_in [OF n0] unfolding n by auto
      have "w < ?nw" using t(2) by (metis add_less_cancel_left div_mult_mod_eq)
      moreover have "v = w" if v: "bitmap_of (l1 p) v" "w \<le> v" "v < ?nw" for v
      proof -
        have d: "v div 64 = w div 64"
          using v(2,3) t(3) div_le_mono [of w v 64] by (simp add: less_mult_imp_div_less)
        have "v mod 64 < ?t" using v(3) d by (metis add_less_cancel_left div_mult_mod_eq)
        then show ?thesis using above [OF v(1,2) d] trailing_zeros_le by fastforce
      qed
      moreover have "bitmap_of (l1 p) ?nw" using t wl by (simp add: bitmap_of_def)
      ultimately have "l0_first p ?nw = Some (the (least_ge S c)) \<and> least_ge S c \<noteq> None"
        unfolding w_def by (intro l0_first_least [OF bm small] first) auto
      then show ?thesis using eq n0 by auto
    qed
  qed
qed

subsection \<open>What the arrays represent\<close>

definition sp_shape :: "span_pool \<Rightarrow> bool" where
  "sp_shape p \<longleftrightarrow> 0 < num_spans p \<and> num_spans p < 2 ^ 32 \<and>
     length (bucket_head p) = num_spans p + 1 \<and> length (next_run p) = num_spans p \<and>
     length (prev_run p) = num_spans p \<and> length (head_count p) = num_spans p \<and>
     length (tail_count p) = num_spans p \<and> length (l0 p) = div_ceil (num_spans p + 1) 64"

text \<open>
  \<open>sp_struct p stk\<close>: every stack of \<open>p\<close> is the list \<open>stk c\<close>, the boundary tags mark exactly
  the runs on the stacks, and the bitmaps mark exactly the non-empty stacks.
\<close>

definition sp_struct :: "span_pool \<Rightarrow> (nat \<Rightarrow> nat list) \<Rightarrow> bool" where
  "sp_struct p stk \<longleftrightarrow> sp_shape p \<and>
     (\<forall>c. \<forall>h\<in>set (stk c). 0 < c \<and> h + c \<le> num_spans p) \<and> (\<forall>c. distinct (stk c)) \<and>
     (\<forall>c\<le>num_spans p. bucket_head p ! c = hd_or (stk c) NO_SPAN) \<and>
     (\<forall>c. dll (next_run p) (prev_run p) NO_SPAN (stk c) NO_SPAN) \<and>
     (\<forall>h<num_spans p. \<forall>c>0. head_count p ! h = c \<longleftrightarrow> h \<in> set (stk c)) \<and>
     (\<forall>t<num_spans p. \<forall>c>0. tail_count p ! t = c \<longleftrightarrow> c \<le> Suc t \<and> Suc t - c \<in> set (stk c)) \<and>
     bitmaps (l0 p) (l1 p) {c. stk c \<noteq> []}"

lemma sp_struct_run: "sp_struct p stk \<Longrightarrow> h \<in> set (stk c) \<Longrightarrow> 0 < c \<and> h + c \<le> num_spans p \<and> h < NO_SPAN"
  by (fastforce simp: sp_struct_def sp_shape_def NO_SPAN_def)

lemma sp_struct_dll: "sp_struct p stk \<Longrightarrow> dll (next_run p) (prev_run p) NO_SPAN (stk c) NO_SPAN"
  by (simp add: sp_struct_def)

lemma sp_struct_distinct: "sp_struct p stk \<Longrightarrow> distinct (stk c)"
  by (simp add: sp_struct_def)

lemma sp_struct_head:
  "sp_struct p stk \<Longrightarrow> h < num_spans p \<Longrightarrow> 0 < c \<Longrightarrow> head_count p ! h = c \<longleftrightarrow> h \<in> set (stk c)"
  by (simp add: sp_struct_def)

lemma sp_struct_tail:
  "sp_struct p stk \<Longrightarrow> t < num_spans p \<Longrightarrow> 0 < c \<Longrightarrow>
     tail_count p ! t = c \<longleftrightarrow> c \<le> Suc t \<and> Suc t - c \<in> set (stk c)"
  by (simp add: sp_struct_def)

lemma sp_struct_inj: "sp_struct p stk \<Longrightarrow> h \<in> set (stk c) \<Longrightarrow> h \<in> set (stk d) \<Longrightarrow> c = d"
  using sp_struct_run [of p stk h c] sp_struct_run [of p stk h d]
    sp_struct_head [of p stk h c] sp_struct_head [of p stk h d] by force

lemma sp_shape_words:
  "sp_shape p \<Longrightarrow> 64 * length (l0 p) \<le> 2 ^ 32 \<and> num_spans p < 64 * length (l0 p)"
proof -
  assume a: "sp_shape p"
  have "div_ceil (num_spans p + 1) 64 \<le> 2 ^ 26"
    using a by (subst div_ceil_le_iff) (auto simp: sp_shape_def)
  moreover have "num_spans p + 1 \<le> div_ceil (num_spans p + 1) 64 * 64" by (simp add: div_ceil_mult_ge)
  ultimately show ?thesis using a by (simp add: sp_shape_def)
qed

lemma tail_index:
  "sp_shape p \<Longrightarrow> 0 < c \<Longrightarrow> h + c \<le> num_spans p \<Longrightarrow>
     sub32 (add32 h c) 1 = h + c - 1 \<and> h + c - 1 < length (tail_count p)"
  by (auto simp: sp_shape_def)

subsection \<open>Pushing a run on its stack\<close>

lemma link_run_eq:
  assumes p: "sp_struct p stk" and c: "0 < c" "h + c \<le> num_spans p" and h: "h \<notin> set (stk c)"
  shows "\<exists>p'. link_run p h c = Some p' \<and> num_spans p' = num_spans p \<and> sp_shape p' \<and>
    next_run p' = (next_run p)[h := hd_or (stk c) NO_SPAN] \<and>
    prev_run p' = (if stk c = [] then (prev_run p)[h := NO_SPAN]
                   else (prev_run p)[h := NO_SPAN, hd (stk c) := h]) \<and>
    bucket_head p' = (bucket_head p)[c := h] \<and> head_count p' = (head_count p)[h := c] \<and>
    tail_count p' = (tail_count p)[h + c - 1 := c] \<and>
    bitmaps (l0 p') (l1 p') (insert c {c. stk c \<noteq> []})"
proof -
  have shape: "sp_shape p" and bm: "bitmaps (l0 p) (l1 p) {c. stk c \<noteq> []}"
    and bh: "bucket_head p ! c = hd_or (stk c) NO_SPAN"
    using p c by (auto simp: sp_struct_def)
  have i: "c < length (bucket_head p)" "h < length (next_run p)" "h < length (prev_run p)"
    "h < length (head_count p)" "h + c - 1 < length (tail_count p)"
    "sub32 (add32 h c) 1 = h + c - 1"
    using shape c tail_index [OF shape c] by (auto simp: sp_shape_def)
  have old: "hd_or (stk c) NO_SPAN = NO_SPAN \<longleftrightarrow> stk c = []"
    "stk c \<noteq> [] \<Longrightarrow> hd (stk c) < num_spans p"
    using sp_struct_run [OF p, of "hd (stk c)" c] by (cases "stk c"; auto)+
  define q where "q = p\<lparr>next_run := (next_run p)[h := hd_or (stk c) NO_SPAN],
    prev_run := (if stk c = [] then (prev_run p)[h := NO_SPAN]
                 else (prev_run p)[h := NO_SPAN, hd (stk c) := h]),
    bucket_head := (bucket_head p)[c := h], head_count := (head_count p)[h := c],
    tail_count := (tail_count p)[h + c - 1 := c]\<rparr>"
  have q: "l0 q = l0 p" "l1 q = l1 p" by (simp_all add: q_def)
  have "link_run p h c = bit_set q c"
    using i bh old shape unfolding link_run_def q_def sp_shape_def
    by (cases "stk c") auto
  moreover obtain a b where "bit_set q c = Some (q\<lparr>l0 := a, l1 := b\<rparr>)"
    "bitmaps a b (insert c {c. stk c \<noteq> []})" "length a = length (l0 p)"
    using bit_set_bitmaps [of q "{c. stk c \<noteq> []}" c] bm c sp_shape_words [OF shape] q by auto
  ultimately show ?thesis using shape by (auto simp: q_def sp_shape_def)
qed

lemma link_run_struct:
  assumes p: "sp_struct p stk" and c: "0 < c" "h + c \<le> num_spans p"
    and hc: "head_count p ! h = 0" and tc: "tail_count p ! (h + c - 1) = 0"
  shows "\<exists>p'. link_run p h c = Some p' \<and> num_spans p' = num_spans p \<and>
    sp_struct p' (stk(c := h # stk c))"
proof -
  have shape: "sp_shape p" using p by (simp add: sp_struct_def)
  have fresh: "h \<notin> set (stk d)" for d
    using sp_struct_head [OF p, of h d] sp_struct_run [OF p, of h d] hc c by (cases "d = 0") auto
  obtain p' where p': "link_run p h c = Some p'" "num_spans p' = num_spans p" "sp_shape p'"
    "next_run p' = (next_run p)[h := hd_or (stk c) NO_SPAN]"
    "prev_run p' = (if stk c = [] then (prev_run p)[h := NO_SPAN]
                    else (prev_run p)[h := NO_SPAN, hd (stk c) := h])"
    "bucket_head p' = (bucket_head p)[c := h]" "head_count p' = (head_count p)[h := c]"
    "tail_count p' = (tail_count p)[h + c - 1 := c]"
    "bitmaps (l0 p') (l1 p') (insert c {c. stk c \<noteq> []})"
    using link_run_eq [OF p c fresh] by blast
  let ?stk = "stk(c := h # stk c)"
  have len: "\<forall>x\<in>set (h # stk d). x < length (next_run p) \<and> x < length (prev_run p)" for d
    using sp_struct_run [OF p, of _ d] c shape by (fastforce simp: sp_shape_def)
  have "dll (next_run p') (prev_run p') NO_SPAN (?stk d) NO_SPAN" for d
  proof (cases "d = c")
    case True
    then show ?thesis
      using dll_push [OF sp_struct_dll [OF p, of c] _ len p'(5)] sp_struct_distinct [OF p] fresh p'(4)
      by simp
  next
    case False
    then have "hd (stk c) \<notin> set (stk d)" if "stk c \<noteq> []"
      using sp_struct_inj [OF p, of "hd (stk c)" c d] that by auto
    then show ?thesis using False p'(4,5) fresh sp_struct_dll [OF p, of d] by simp
  qed
  moreover have "head_count p' ! k = d \<longleftrightarrow> k \<in> set (?stk d)" if "k < num_spans p" "0 < d" for k d
    using that p'(7) sp_struct_head [OF p that] fresh [of d] shape
    by (cases "k = h") (auto simp: sp_shape_def)
  moreover have "tail_count p' ! t = d \<longleftrightarrow> d \<le> Suc t \<and> Suc t - d \<in> set (?stk d)"
    if "t < num_spans p" "0 < d" for t d
  proof (cases "t = h + c - 1")
    case True
    have "\<not> (d \<le> Suc t \<and> Suc t - d \<in> set (stk d))"
      using sp_struct_tail [OF p that] tc True that by simp
    then show ?thesis
      using True p'(8) that c shape by (auto simp: sp_shape_def)
  next
    case False
    then have "(Suc t - c = h \<and> c \<le> Suc t) = False" using c by auto
    then show ?thesis using False p'(8) sp_struct_tail [OF p that] by auto
  qed
  moreover have "insert c {c. stk c \<noteq> []} = {d. ?stk d \<noteq> []}" by auto
  ultimately have "sp_struct p' ?stk"
    using p p'(2,3,6,9) c fresh shape unfolding sp_struct_def
    by (auto simp: nth_list_update sp_shape_def)
  then show ?thesis using p' by blast
qed

subsection \<open>Removing a run from its stack\<close>

lemma unlink_run_eq:
  assumes p: "sp_struct p stk" and s: "stk c = xs @ h # ys"
  shows "\<exists>p'. unlink_run p h c = Some p' \<and> num_spans p' = num_spans p \<and> sp_shape p' \<and>
    next_run p' = (if xs = [] then next_run p
                   else (next_run p)[last xs := hd_or ys NO_SPAN])[h := NO_SPAN] \<and>
    prev_run p' = (if ys = [] then prev_run p
                   else (prev_run p)[hd ys := last_or NO_SPAN xs])[h := NO_SPAN] \<and>
    bucket_head p' = (if xs = [] then (bucket_head p)[c := hd_or ys NO_SPAN] else bucket_head p) \<and>
    head_count p' = (head_count p)[h := 0] \<and> tail_count p' = (tail_count p)[h + c - 1 := 0] \<and>
    bitmaps (l0 p') (l1 p') {d. (stk(c := xs @ ys)) d \<noteq> []}"
proof -
  have shape: "sp_shape p" and bm: "bitmaps (l0 p) (l1 p) {c. stk c \<noteq> []}"
    using p by (auto simp: sp_struct_def)
  have r: "0 < c" "x + c \<le> num_spans p" "x < NO_SPAN" if "x \<in> set (stk c)" for x
    using sp_struct_run [OF p that] by auto
  have h: "0 < c" "h + c \<le> num_spans p" using r [of h] s by auto
  have links: "prev_run p ! h = last_or NO_SPAN xs" "next_run p ! h = hd_or ys NO_SPAN"
    using sp_struct_dll [OF p, of c] unfolding s by (auto simp: dll_append)
  have i: "c < length (bucket_head p)" "h < length (next_run p)" "h < length (prev_run p)"
    "h < length (head_count p)" "h + c - 1 < length (tail_count p)"
    "sub32 (add32 h c) 1 = h + c - 1"
    using shape h tail_index [OF shape h] by (auto simp: sp_shape_def)
  have n: "hd_or ys NO_SPAN = NO_SPAN \<longleftrightarrow> ys = []" "ys \<noteq> [] \<Longrightarrow> hd ys < length (prev_run p)"
    using r [of "hd ys"] s shape h by (cases ys; force simp: sp_shape_def)+
  have l: "last_or NO_SPAN xs = NO_SPAN \<longleftrightarrow> xs = []" "xs \<noteq> [] \<Longrightarrow> last xs < length (next_run p)"
    using r [of "last xs"] s shape h by (cases xs rule: rev_cases; force simp: sp_shape_def)+
  define q where "q = p\<lparr>next_run := (if xs = [] then next_run p
                   else (next_run p)[last xs := hd_or ys NO_SPAN]),
     bucket_head := (if xs = [] then (bucket_head p)[c := hd_or ys NO_SPAN] else bucket_head p)\<rparr>"
  obtain a b where ab: "(if xs = [] \<and> ys = [] then bit_clear q c else Some q) = Some (q\<lparr>l0 := a, l1 := b\<rparr>)"
    "bitmaps a b {d. (stk(c := xs @ ys)) d \<noteq> []}" "length a = length (l0 p)"
  proof (cases "xs = [] \<and> ys = []")
    case True
    have "{c. stk c \<noteq> []} - {c} = {d. (stk(c := xs @ ys)) d \<noteq> []}" using True by auto
    then show ?thesis
      using bit_clear_bitmaps [of q "{c. stk c \<noteq> []}" c] that bm h True sp_shape_words [OF shape]
      by (auto simp: q_def)
  next
    case False
    then have "{c. stk c \<noteq> []} = {d. (stk(c := xs @ ys)) d \<noteq> []}" using s by auto
    then show ?thesis using that [of "l1 p" "l0 p"] bm False by (auto simp: q_def)
  qed
  define p' where "p' = q\<lparr>l0 := a, l1 := b,
     prev_run := (if ys = [] then prev_run p else (prev_run p)[hd ys := last_or NO_SPAN xs])[h := NO_SPAN],
     head_count := (head_count p)[h := 0], tail_count := (tail_count p)[h + c - 1 := 0],
     next_run := (next_run q)[h := NO_SPAN]\<rparr>"
  have "unlink_run p h c = Some p'"
  proof (cases "xs = []")
    case True
    then have "(if hd_or ys NO_SPAN = NO_SPAN then bit_clear q c else Some q) = Some (q\<lparr>l0 := a, l1 := b\<rparr>)"
      using ab(1) n by simp
    with True show ?thesis
      using i n l links unfolding unlink_run_def p'_def
      by (cases ys) (auto simp: q_def)
  next
    case False
    then have "q = q\<lparr>l0 := a, l1 := b\<rparr>" using ab(1) by simp
    with False show ?thesis
      using i n l links unfolding unlink_run_def p'_def
      by (cases ys) (auto simp: q_def last_or_ne)
  qed
  then show ?thesis using shape ab by (auto simp: p'_def q_def sp_shape_def)
qed

lemma unlink_run_struct:
  assumes p: "sp_struct p stk" and s: "h \<in> set (stk c)"
  shows "\<exists>p'. unlink_run p h c = Some p' \<and> num_spans p' = num_spans p \<and>
    sp_struct p' (stk(c := remove1 h (stk c)))"
proof -
  obtain xs ys where xy: "stk c = xs @ h # ys" using s by (meson split_list)
  have d: "distinct (xs @ h # ys)" using sp_struct_distinct [OF p, of c] xy by simp
  have rm: "remove1 h (stk c) = xs @ ys" using d xy by (simp add: remove1_append)
  have shape: "sp_shape p" using p by (simp add: sp_struct_def)
  have hb: "0 < c" "h + c \<le> num_spans p" using sp_struct_run [OF p s] by auto
  obtain p' where p': "unlink_run p h c = Some p'" "num_spans p' = num_spans p" "sp_shape p'"
    "next_run p' = (if xs = [] then next_run p
                    else (next_run p)[last xs := hd_or ys NO_SPAN])[h := NO_SPAN]"
    "prev_run p' = (if ys = [] then prev_run p
                    else (prev_run p)[hd ys := last_or NO_SPAN xs])[h := NO_SPAN]"
    "bucket_head p' = (if xs = [] then (bucket_head p)[c := hd_or ys NO_SPAN] else bucket_head p)"
    "head_count p' = (head_count p)[h := 0]" "tail_count p' = (tail_count p)[h + c - 1 := 0]"
    "bitmaps (l0 p') (l1 p') {d. (stk(c := xs @ ys)) d \<noteq> []}"
    using unlink_run_eq [OF p xy] by blast
  let ?stk = "stk(c := xs @ ys)"
  have other: "x \<notin> set (stk d)" if "x \<in> set (stk c)" "d \<noteq> c" for x d
    using sp_struct_inj [OF p that(1)] that(2) by blast
  have "dll (next_run p') (prev_run p') NO_SPAN (?stk e) NO_SPAN" for e
  proof (cases "e = c")
    case True
    have "\<forall>x\<in>set (xs @ h # ys). x < length (next_run p) \<and> x < length (prev_run p)"
      using sp_struct_run [OF p, of _ c] xy shape by (fastforce simp: sp_shape_def)
    then show ?thesis
      using dll_remove [of "next_run p" "prev_run p" xs h ys] sp_struct_dll [OF p, of c] xy d p'(4,5) True
      by simp
  next
    case False
    have "last xs \<notin> set (stk e)" if "xs \<noteq> []" using other [of "last xs" e] that False xy by simp
    moreover have "hd ys \<notin> set (stk e)" if "ys \<noteq> []" using other [of "hd ys" e] that False xy by simp
    moreover have "h \<notin> set (stk e)" using other [OF s False] .
    ultimately show ?thesis using False p'(4,5) sp_struct_dll [OF p, of e] by simp
  qed
  moreover have "head_count p' ! k = e \<longleftrightarrow> k \<in> set (?stk e)" if "k < num_spans p" "0 < e" for k e
  proof (cases "k = h")
    case True
    then show ?thesis using that p'(7) d other [OF s] shape by (auto simp: sp_shape_def)
  next
    case False
    then show ?thesis using that p'(7) sp_struct_head [OF p that] xy by auto
  qed
  moreover have "tail_count p' ! t = e \<longleftrightarrow> e \<le> Suc t \<and> Suc t - e \<in> set (?stk e)"
    if "t < num_spans p" "0 < e" for t e
  proof (cases "t = h + c - 1")
    case True
    have "tail_count p ! t = c" using sp_struct_tail [OF p, of t c] True hb s by simp
    then have "e \<noteq> c \<Longrightarrow> \<not> (e \<le> Suc t \<and> Suc t - e \<in> set (stk e))"
      using sp_struct_tail [OF p that] by simp
    moreover have "tail_count p' ! t = 0" using True p'(8) that shape by (simp add: sp_shape_def)
    ultimately show ?thesis using True that d hb by auto
  next
    case False
    then have "\<not> (c \<le> Suc t \<and> Suc t - c = h)" by auto
    then show ?thesis using False p'(8) sp_struct_tail [OF p that] xy by auto
  qed
  moreover have "bucket_head p' ! e = hd_or (?stk e) NO_SPAN" if "e \<le> num_spans p" for e
    using p p'(6) xy that shape by (cases xs) (auto simp: sp_struct_def nth_list_update sp_shape_def)
  moreover have "0 < e \<and> k + e \<le> num_spans p" if "k \<in> set (?stk e)" for k e
    using sp_struct_run [OF p, of k e] that xy by (cases "e = c") auto
  moreover have "distinct (?stk e)" for e
    using sp_struct_distinct [OF p, of e] d by simp
  ultimately have "sp_struct p' ?stk" using p'(2,3,9) unfolding sp_struct_def by simp
  then show ?thesis using p' rm by auto
qed

end
