(* ===== verification/Span_Pool_Correct.thy ===== *)
theory Span_Pool_Correct
  imports Span_Pool
begin

text \<open>
  Correctness of the free-run index. Sets of separated runs are related to the spans they
  cover; \<open>pool_alloc\<close> and \<open>pool_free\<close> are then shown to be set difference and union on the
  free spans, with best fit and complete coalescing. The locale \<open>free_run_index\<close> is the
  contract that the large allocator relies on; its lemmas count, for every span, the owners
  among the free index and the live runs. \<open>pool_step\<close> is the transition system of a pool with
  its live runs.
\<close>

subsection \<open>Sets of separated runs\<close>

type_synonym run = "nat \<times> nat"

definition runs :: "(nat \<Rightarrow> nat list) \<Rightarrow> run set" where
  "runs stk = {(h, c). h \<in> set (stk c)}"

definition cover :: "run set \<Rightarrow> nat set" where
  "cover R = (\<Union>(h, c)\<in>R. {h..<h + c})"

text \<open>No two runs overlap, and none ends where another starts.\<close>

definition separated :: "run set \<Rightarrow> bool" where
  "separated R \<longleftrightarrow> (\<forall>(h, c)\<in>R. 0 < c) \<and>
     (\<forall>(h, c)\<in>R. \<forall>(k, d)\<in>R. (h, c) = (k, d) \<or> h + c < k \<or> k + d < h)"

lemma runs_push: "runs (stk(c := h # stk c)) = insert (h, c) (runs stk)"
  by (auto simp: runs_def)

lemma runs_remove: "distinct (stk c) \<Longrightarrow> runs (stk(c := remove1 h (stk c))) = runs stk - {(h, c)}"
  by (auto simp: runs_def split: if_splits)

lemma runs_iff [simp]: "(h, c) \<in> runs stk \<longleftrightarrow> h \<in> set (stk c)"
  by (simp add: runs_def)

lemma cover_insert [simp]: "cover (insert (h, c) R) = {h..<h + c} \<union> cover R"
  by (simp add: cover_def)

lemma coverI: "(h, c) \<in> R \<Longrightarrow> h \<le> s \<Longrightarrow> s < h + c \<Longrightarrow> s \<in> cover R"
  by (force simp: cover_def)

lemma separatedD:
  "separated R \<Longrightarrow> (h, c) \<in> R \<Longrightarrow> (k, d) \<in> R \<Longrightarrow> (h, c) = (k, d) \<or> h + c < k \<or> k + d < h"
  by (fastforce simp: separated_def)

lemma separated_pos: "separated R \<Longrightarrow> (h, c) \<in> R \<Longrightarrow> 0 < c"
  by (auto simp: separated_def)

lemma separated_subset: "separated R \<Longrightarrow> Q \<subseteq> R \<Longrightarrow> separated Q"
  unfolding separated_def by blast

lemma separated_insert:
  "separated R \<Longrightarrow> 0 < c \<Longrightarrow> (\<And>k d. (k, d) \<in> R \<Longrightarrow> h + c < k \<or> k + d < h) \<Longrightarrow>
     separated (insert (h, c) R)"
  unfolding separated_def by fastforce

lemma cover_remove:
  assumes "separated R" "(h, c) \<in> R"
  shows "cover (R - {(h, c)}) = cover R - {h..<h + c}"
proof -
  have "s \<notin> {h..<h + c}" if "(k, d) \<in> R - {(h, c)}" "s \<in> {k..<k + d}" for k d s
    using separatedD [OF assms(1,2), of k d] that by auto
  then show ?thesis using assms(2) by (fastforce simp: cover_def)
qed

text \<open>Consecutive covered spans lie in a single run: free runs are maximal.\<close>

lemma interval_in_run:
  assumes "separated R" "0 < n" "{a..<a + n} \<subseteq> cover R"
  shows "\<exists>h c. (h, c) \<in> R \<and> h \<le> a \<and> a + n \<le> h + c"
  using assms(2,3)
proof (induction n)
  case (Suc n)
  have "a + n \<in> cover R" using Suc.prems by auto
  then obtain k d where k: "(k, d) \<in> R" "k \<le> a + n" "a + n < k + d" by (auto simp: cover_def)
  show ?case
  proof (cases "n = 0")
    case False
    have "{a..<a + n} \<subseteq> cover R" using Suc.prems by force
    then obtain h c where h: "(h, c) \<in> R" "h \<le> a" "a + n \<le> h + c" using Suc.IH False by blast
    then have "(h, c) = (k, d)" using separatedD [OF assms(1) h(1) k(1)] k False by auto
    then show ?thesis using h k by (intro exI [of _ k] exI [of _ d]) auto
  qed (use k in \<open>auto simp: Suc_le_eq\<close>)
qed simp

lemma run_unique: "separated R \<Longrightarrow> (h, c) \<in> R \<Longrightarrow> (h, d) \<in> R \<Longrightarrow> c = d"
  using separatedD [of R h c h d] by auto

text \<open>The runs of a separated set are the maximal intervals of what it covers.\<close>

definition max_interval :: "nat set \<Rightarrow> nat \<Rightarrow> nat \<Rightarrow> bool" where
  "max_interval F h c \<longleftrightarrow> 0 < c \<and> {h..<h + c} \<subseteq> F \<and> h + c \<notin> F \<and> (0 < h \<longrightarrow> h - 1 \<notin> F)"

lemma run_end:
  assumes "separated R" "(h, c) \<in> R"
  shows "h + c \<notin> cover R" "0 < h \<Longrightarrow> h - 1 \<notin> cover R"
proof -
  have "s < h \<or> h + c \<le> s \<Longrightarrow> s \<in> cover R \<Longrightarrow> Suc s < h \<or> h + c < s" for s
    using separatedD [OF assms] by (fastforce simp: cover_def)
  from this [of "h + c"] this [of "h - 1"]
  show "h + c \<notin> cover R" "0 < h \<Longrightarrow> h - 1 \<notin> cover R" by auto
qed

lemma runs_max_interval:
  assumes "separated R"
  shows "(h, c) \<in> R \<longleftrightarrow> max_interval (cover R) h c"
proof
  assume "(h, c) \<in> R"
  then show "max_interval (cover R) h c"
    using separated_pos [OF assms] run_end [OF assms] by (auto simp: max_interval_def intro: coverI)
next
  assume m: "max_interval (cover R) h c"
  then obtain k d where k: "(k, d) \<in> R" "k \<le> h" "h + c \<le> k + d"
    using interval_in_run [OF assms, of c h] by (auto simp: max_interval_def)
  have "k = h" using coverI [OF k(1), of "h - 1"] k m by (cases "k = h") (auto simp: max_interval_def)
  moreover have "h + c = k + d" using coverI [OF k(1), of "h + c"] k m by (cases "h + c = k + d") (auto simp: max_interval_def)
  ultimately show "(h, c) \<in> R" using k by simp
qed

text \<open>Taking the first \<open>n\<close> spans of a run, and filing a merged run.\<close>

lemma separated_split:
  assumes "separated R" "(h, m) \<in> R" "n < m"
  shows "separated (insert (h + n, m - n) (R - {(h, m)}))"
    "0 < n \<Longrightarrow> cover (insert (h + n, m - n) (R - {(h, m)})) = cover R - {h..<h + n}"
proof -
  show "separated (insert (h + n, m - n) (R - {(h, m)}))"
    using assms separatedD [OF assms(1,2)]
    by (intro separated_insert separated_subset [OF assms(1)]) fastforce+
  show "cover (insert (h + n, m - n) (R - {(h, m)})) = cover R - {h..<h + n}" if "0 < n"
    using cover_remove [OF assms(1,2)] coverI [OF assms(2)] assms(3) by auto
qed

subsection \<open>The invariant of the pool\<close>

definition free_runs :: "span_pool \<Rightarrow> run list" where
  "free_runs p = map (\<lambda>h. (h, head_count p ! h))
     (filter (\<lambda>h. head_count p ! h \<noteq> 0) [0..<num_spans p])"

definition free_spans :: "span_pool \<Rightarrow> nat set" where
  "free_spans p = cover (set (free_runs p))"

definition sp_rel :: "span_pool \<Rightarrow> (nat \<Rightarrow> nat list) \<Rightarrow> bool" where
  "sp_rel p stk \<longleftrightarrow> sp_struct p stk \<and> separated (runs stk)"

definition pool_inv :: "span_pool \<Rightarrow> bool" where
  "pool_inv p \<longleftrightarrow> (\<exists>stk. sp_rel p stk)"

lemma free_runs_iff: "(h, c) \<in> set (free_runs p) \<longleftrightarrow> h < num_spans p \<and> 0 < c \<and> head_count p ! h = c"
  by (auto simp: free_runs_def)

lemma sp_struct_free_runs: "sp_struct p stk \<Longrightarrow> set (free_runs p) = runs stk"
proof -
  assume p: "sp_struct p stk"
  have "h < num_spans p \<and> 0 < c \<and> head_count p ! h = c \<longleftrightarrow> h \<in> set (stk c)" for h c
    using sp_struct_run [OF p, of h c] sp_struct_head [OF p, of h c] by auto
  then show ?thesis by (auto simp: free_runs_iff)
qed

lemma sp_rel_free: "sp_rel p stk \<Longrightarrow> free_spans p = cover (runs stk)"
  by (auto simp: sp_rel_def free_spans_def sp_struct_free_runs)

lemma pool_inv_bound: "pool_inv p \<Longrightarrow> free_spans p \<subseteq> {..<num_spans p}"
  unfolding pool_inv_def
  by (auto simp: sp_rel_free) (auto simp: sp_rel_def cover_def dest!: sp_struct_run)

lemma sp_rel_bucket: "sp_rel p stk \<Longrightarrow> c \<le> num_spans p \<Longrightarrow> idx (bucket_head p) c = Some (hd_or (stk c) NO_SPAN)"
  by (simp add: sp_rel_def sp_struct_def sp_shape_def)

lemma sp_rel_small: "sp_rel p stk \<Longrightarrow> num_spans p < 2 ^ 32"
  by (simp add: sp_rel_def sp_struct_def sp_shape_def)

subsection \<open>Allocation\<close>

definition alloc_stk :: "(nat \<Rightarrow> nat list) \<Rightarrow> nat \<Rightarrow> nat \<Rightarrow> (nat \<Rightarrow> nat list)" where
  "alloc_stk stk m n =
     (let stk1 = stk(m := tl (stk m)) in
      if n < m then stk1(m - n := (hd (stk m) + n) # stk1 (m - n)) else stk1)"

lemma runs_alloc_stk:
  assumes "distinct (stk m)" "stk m \<noteq> []" "n \<le> m"
  shows "runs (alloc_stk stk m n) =
    (if n < m then insert (hd (stk m) + n, m - n) (runs stk - {(hd (stk m), m)})
     else runs stk - {(hd (stk m), m)})"
proof -
  have "tl (stk m) = remove1 (hd (stk m)) (stk m)" using assms(2) by (cases "stk m") auto
  then have r: "runs (stk(m := tl (stk m))) = runs stk - {(hd (stk m), m)}"
    using runs_remove [of stk m "hd (stk m)"] assms(1) by simp
  show ?thesis
    using runs_push [of "stk(m := tl (stk m))" "m - n" "hd (stk m) + n"] r
    by (simp add: alloc_stk_def Let_def)
qed

text \<open>Taking a run off the stacks and filing a fresh one, on the level of \<open>sp_rel\<close>.\<close>

lemma unlink_run_rel:
  assumes "sp_rel p stk" "h \<in> set (stk c)"
  shows "\<exists>p'. unlink_run p h c = Some p' \<and> num_spans p' = num_spans p \<and>
    sp_rel p' (stk(c := remove1 h (stk c))) \<and> runs (stk(c := remove1 h (stk c))) = runs stk - {(h, c)}"
proof -
  have p: "sp_struct p stk" "separated (runs stk)" using assms(1) by (simp_all add: sp_rel_def)
  obtain p' where "unlink_run p h c = Some p'" "num_spans p' = num_spans p"
    "sp_struct p' (stk(c := remove1 h (stk c)))"
    using unlink_run_struct [OF p(1) assms(2)] by blast
  moreover have "runs (stk(c := remove1 h (stk c))) = runs stk - {(h, c)}"
    using runs_remove sp_struct_distinct [OF p(1)] .
  ultimately show ?thesis
    using separated_subset [OF p(2), of "runs stk - {(h, c)}"] by (simp add: sp_rel_def)
qed

lemma link_run_rel:
  assumes "sp_rel p stk" "0 < c" "h + c \<le> num_spans p"
    and apart: "\<And>k d. (k, d) \<in> runs stk \<Longrightarrow> h + c < k \<or> k + d < h"
  shows "\<exists>p'. link_run p h c = Some p' \<and> num_spans p' = num_spans p \<and> sp_rel p' (stk(c := h # stk c))"
proof -
  have p: "sp_struct p stk" "separated (runs stk)" using assms(1) by (simp_all add: sp_rel_def)
  have "h \<notin> set (stk d)" for d using apart [of h d] sp_struct_run [OF p(1), of h d] by auto
  then have "head_count p ! h = 0"
    using sp_struct_head [OF p(1), of h "head_count p ! h"] assms(2,3) by (cases "head_count p ! h = 0") auto
  moreover have "tail_count p ! (h + c - 1) = 0"
  proof (rule ccontr)
    let ?d = "tail_count p ! (h + c - 1)"
    assume "?d \<noteq> 0"
    then have "?d \<le> h + c \<and> h + c - ?d \<in> set (stk ?d)"
      using sp_struct_tail [OF p(1), of "h + c - 1" ?d] assms(2,3) by auto
    then show False using apart [of "h + c - ?d" ?d] by auto
  qed
  ultimately obtain p' where "link_run p h c = Some p'" "num_spans p' = num_spans p"
    "sp_struct p' (stk(c := h # stk c))"
    using link_run_struct [OF p(1) assms(2,3)] by blast
  moreover have "separated (runs (stk(c := h # stk c)))"
    unfolding runs_push using separated_insert [OF p(2) assms(2)] apart by blast
  ultimately show ?thesis by (simp add: sp_rel_def)
qed

lemma pool_alloc_rel:
  assumes p: "sp_rel p stk" and n: "0 < n" "n \<le> num_spans p"
  shows "case least_ge {c. stk c \<noteq> []} n of
      None \<Rightarrow> pool_alloc p n = Some (p, None)
    | Some m \<Rightarrow> \<exists>p'. pool_alloc p n = Some (p', Some (hd (stk m))) \<and>
        num_spans p' = num_spans p \<and> sp_rel p' (alloc_stk stk m n)"
proof (cases "least_ge {c. stk c \<noteq> []} n")
  have s: "sp_struct p stk" "separated (runs stk)" using p by (simp_all add: sp_rel_def)
  have bm: "bitmaps (l0 p) (l1 p) {c. stk c \<noteq> []}" "64 * length (l0 p) \<le> 2 ^ 32"
    using s sp_shape_words by (auto simp: sp_struct_def)
  note find = find_first_set_ge_least [OF bm]
  case None
  then show ?thesis using n by (simp add: pool_alloc_def find)
next
  have s: "sp_struct p stk" "separated (runs stk)" using p by (simp_all add: sp_rel_def)
  have bm: "bitmaps (l0 p) (l1 p) {c. stk c \<noteq> []}" "64 * length (l0 p) \<le> 2 ^ 32"
    using s sp_shape_words by (auto simp: sp_struct_def)
  note find = find_first_set_ge_least [OF bm]
  case (Some m)
  then have m: "stk m \<noteq> []" "n \<le> m" by (auto simp: least_ge_Some)
  let ?h = "hd (stk m)"
  have h: "?h \<in> set (stk m)" "?h + m \<le> num_spans p" "0 < m" "hd_or (stk m) NO_SPAN = ?h"
    using m sp_struct_run [OF s(1), of ?h m] by (auto simp: hd_or_def split: list.split)
  have rm: "remove1 ?h (stk m) = tl (stk m)" using m by (cases "stk m") auto
  obtain p1 where p1: "unlink_run p ?h m = Some p1" "num_spans p1 = num_spans p"
    "sp_rel p1 (stk(m := tl (stk m)))" "runs (stk(m := tl (stk m))) = runs stk - {(?h, m)}"
    using unlink_run_rel [OF p h(1)] unfolding rm by blast
  have b: "idx (bucket_head p) m = Some ?h" using sp_rel_bucket [OF p, of m] h by simp
  show ?thesis
  proof (cases "n < m")
    case True
    have "add32 ?h n = ?h + n" "sub32 m n = m - n"
      using h True sp_rel_small [OF p] by simp_all
    moreover obtain p2 where "link_run p1 (?h + n) (m - n) = Some p2" "num_spans p2 = num_spans p"
      "sp_rel p2 (alloc_stk stk m n)"
      using link_run_rel [OF p1(3), of "m - n" "?h + n"] True h(2) p1(2,4)
        separatedD [OF s(2), of ?h m] h(1) n(1)
      by (fastforce simp: alloc_stk_def Let_def)
    ultimately show ?thesis using n Some True b p1 by (simp add: pool_alloc_def find)
  next
    case False
    then show ?thesis using n m Some b p1 by (simp add: pool_alloc_def find alloc_stk_def)
  qed
qed


subsection \<open>Release with coalescing\<close>

lemma merge_right_rel:
  assumes p: "sp_rel p stk" and c: "0 < c" "h + c \<le> num_spans p"
    and free: "{h..<h + c} \<inter> cover (runs stk) = {}"
  shows "\<exists>p' stk' c'. merge_right p h c = Some (p', c') \<and> sp_rel p' stk' \<and> num_spans p' = num_spans p \<and>
    c \<le> c' \<and> h + c' \<le> num_spans p \<and> runs stk' \<subseteq> runs stk \<and>
    {h..<h + c'} \<inter> cover (runs stk') = {} \<and> h + c' \<notin> cover (runs stk') \<and>
    {h..<h + c'} \<union> cover (runs stk') = {h..<h + c} \<union> cover (runs stk)"
proof -
  have s: "sp_struct p stk" "separated (runs stk)" "sp_shape p" using p by (simp_all add: sp_rel_def sp_struct_def)
  have r: "add32 h c = h + c" using c sp_rel_small [OF p] by simp
  have len: "length (head_count p) = num_spans p" using s(3) by (simp add: sp_shape_def)
  show ?thesis
  proof (cases "h + c < num_spans p \<and> head_count p ! (h + c) \<noteq> 0")
    case True
    define rc where "rc = head_count p ! (h + c)"
    have m: "h + c \<in> set (stk rc)" "0 < rc"
      using sp_struct_head [OF s(1), of "h + c" rc] True by (auto simp: rc_def)
    then have b: "h + c + rc \<le> num_spans p" using sp_struct_run [OF s(1)] by blast
    obtain p' where p': "unlink_run p (h + c) rc = Some p'" "num_spans p' = num_spans p"
      "sp_rel p' (stk(rc := remove1 (h + c) (stk rc)))"
      "runs (stk(rc := remove1 (h + c) (stk rc))) = runs stk - {(h + c, rc)}"
      using unlink_run_rel [OF p m(1)] by blast
    have cov: "cover (runs stk - {(h + c, rc)}) = cover (runs stk) - {h + c..<h + c + rc}"
      using cover_remove [OF s(2)] m by simp
    have inc: "{h + c..<h + c + rc} \<subseteq> cover (runs stk)" using m coverI [of "h + c" rc] by auto
    have e: "h + (c + rc) \<notin> cover (runs stk)"
      using run_end [OF s(2), of "h + c" rc] m by (simp add: add.assoc)
    have "add32 c rc = c + rc" using b sp_rel_small [OF p] by simp
    then have "merge_right p h c = Some (p', c + rc)"
      using True p'(1) len r m by (simp add: merge_right_def flip: rc_def)
    moreover have "{h..<h + (c + rc)} = {h..<h + c} \<union> {h + c..<h + c + rc}" by auto
    ultimately show ?thesis using p' b cov inc e free
      by (intro exI [of _ p'] exI [of _ "stk(rc := remove1 (h + c) (stk rc))"] exI [of _ "c + rc"]) auto
  next
    case False
    have "merge_right p h c = Some (p, c)" using False r len by (auto simp: merge_right_def Let_def)
    moreover have "h + c \<notin> cover (runs stk)"
    proof
      assume "h + c \<in> cover (runs stk)"
      then obtain k d where k: "(k, d) \<in> runs stk" "k \<le> h + c" "h + c < k + d" by (auto simp: cover_def)
      have "h + c - 1 \<in> {h..<h + c}" using c by auto
      then have "h + c - 1 \<notin> cover (runs stk)" using free by blast
      then have "\<not> (k \<le> h + c - 1 \<and> h + c - 1 < k + d)" using coverI [OF k(1)] by blast
      then have "k = h + c" using k(2,3) by linarith
      moreover from this have "head_count p ! (h + c) = d" "h + c < num_spans p" "0 < d"
        using sp_struct_head [OF s(1), of "h + c" d] sp_struct_run [OF s(1), of k d] k by auto
      ultimately show False using False by simp
    qed
    ultimately show ?thesis using p c free by blast
  qed
qed

lemma merge_left_rel:
  assumes p: "sp_rel p stk" and c: "0 < c" "h + c \<le> num_spans p"
    and free: "{h..<h + c} \<inter> cover (runs stk) = {}"
  shows "\<exists>p' stk' h' c'. merge_left p h c = Some (p', h', c') \<and> sp_rel p' stk' \<and>
    num_spans p' = num_spans p \<and> 0 < c' \<and> h' + c' = h + c \<and> runs stk' \<subseteq> runs stk \<and>
    {h'..<h' + c'} \<inter> cover (runs stk') = {} \<and> (0 < h' \<longrightarrow> h' - 1 \<notin> cover (runs stk')) \<and>
    {h'..<h' + c'} \<union> cover (runs stk') = {h..<h + c} \<union> cover (runs stk)"
proof -
  have s: "sp_struct p stk" "separated (runs stk)" "sp_shape p" using p by (simp_all add: sp_rel_def sp_struct_def)
  have len: "length (tail_count p) = num_spans p" using s(3) by (simp add: sp_shape_def)
  show ?thesis
  proof (cases "0 < h \<and> tail_count p ! (h - 1) \<noteq> 0")
    case True
    define lc where "lc = tail_count p ! (h - 1)"
    have m: "h - lc \<in> set (stk lc)" "0 < lc" "lc \<le> h"
      using sp_struct_tail [OF s(1), of "h - 1" lc] True c by (auto simp: lc_def)
    obtain p' where p': "unlink_run p (h - lc) lc = Some p'" "num_spans p' = num_spans p"
      "sp_rel p' (stk(lc := remove1 (h - lc) (stk lc)))"
      "runs (stk(lc := remove1 (h - lc) (stk lc))) = runs stk - {(h - lc, lc)}"
      using unlink_run_rel [OF p m(1)] by blast
    have cov: "cover (runs stk - {(h - lc, lc)}) = cover (runs stk) - {h - lc..<h}"
      using cover_remove [OF s(2), of "h - lc" lc] m by simp
    have inc: "{h - lc..<h} \<subseteq> cover (runs stk)" using m coverI [of "h - lc" lc] by auto
    have e: "0 < h - lc \<longrightarrow> h - lc - 1 \<notin> cover (runs stk)" using run_end [OF s(2), of "h - lc" lc] m by simp
    have "sub32 h lc = h - lc" "add32 c lc = c + lc" using m c sp_rel_small [OF p] by simp_all
    then have "merge_left p h c = Some (p', h - lc, c + lc)"
      using True p'(1) len m c by (simp add: merge_left_def Let_def lc_def)
    moreover have u: "{h - lc..<h - lc + (c + lc)} = {h - lc..<h} \<union> {h..<h + c}" using m by auto
    have "{h - lc..<h - lc + (c + lc)} \<inter> (cover (runs stk) - {h - lc..<h}) = {}"
      "{h - lc..<h - lc + (c + lc)} \<union> (cover (runs stk) - {h - lc..<h}) = {h..<h + c} \<union> cover (runs stk)"
      unfolding u using free inc by blast+
    moreover have "h - lc + (c + lc) = h + c" "0 < c + lc" using m c by simp_all
    moreover have "0 < h - lc \<longrightarrow> h - lc - 1 \<notin> cover (runs stk) - {h - lc..<h}" using e by blast
    moreover have "runs stk - {(h - lc, lc)} \<subseteq> runs stk" by blast
    ultimately show ?thesis using p' unfolding cov [symmetric] by metis
  next
    case False
    have "merge_left p h c = Some (p, h, c)" using False c len by (auto simp: merge_left_def)
    moreover have "h - 1 \<notin> cover (runs stk)" if "0 < h"
    proof
      assume "h - 1 \<in> cover (runs stk)"
      then obtain k d where k: "(k, d) \<in> runs stk" "k \<le> h - 1" "h - 1 < k + d" by (auto simp: cover_def)
      have "h \<notin> cover (runs stk)" using free c by (metis IntI atLeastLessThan_iff empty_iff le_refl less_add_same_cancel1)
      then have "k + d = h" using coverI [OF k(1), of h] k(2,3) that by (cases "k + d = h") auto
      then have "tail_count p ! (h - 1) = d" "0 < d"
        using sp_struct_tail [OF s(1), of "h - 1" d] sp_struct_run [OF s(1), of k d] k that c by auto
      then show False using False that by simp
    qed
    ultimately show ?thesis using p c free by blast
  qed
qed

lemma pool_free_rel:
  assumes p: "sp_rel p stk" and c: "0 < c" "h + c \<le> num_spans p"
    and free: "{h..<h + c} \<inter> cover (runs stk) = {}"
  shows "\<exists>p' stk'. pool_free p h c = Some p' \<and> sp_rel p' stk' \<and> num_spans p' = num_spans p \<and>
    cover (runs stk') = {h..<h + c} \<union> cover (runs stk)"
proof -
  obtain p1 s1 c1 where 1: "merge_right p h c = Some (p1, c1)" "sp_rel p1 s1" "num_spans p1 = num_spans p"
    "c \<le> c1" "h + c1 \<le> num_spans p" "{h..<h + c1} \<inter> cover (runs s1) = {}" "h + c1 \<notin> cover (runs s1)"
    "{h..<h + c1} \<union> cover (runs s1) = {h..<h + c} \<union> cover (runs stk)"
    using merge_right_rel [OF assms] by blast
  obtain p2 s2 h2 c2 where 2: "merge_left p1 h c1 = Some (p2, h2, c2)" "sp_rel p2 s2"
    "num_spans p2 = num_spans p" "0 < c2" "h2 + c2 = h + c1" "runs s2 \<subseteq> runs s1"
    "{h2..<h2 + c2} \<inter> cover (runs s2) = {}" "0 < h2 \<longrightarrow> h2 - 1 \<notin> cover (runs s2)"
    "{h2..<h2 + c2} \<union> cover (runs s2) = {h..<h + c1} \<union> cover (runs s1)"
    using merge_left_rel [OF 1(2), of c1 h] 1 c by auto
  have end2: "h2 + c2 \<notin> cover (runs s2)" using 1(7) 2(5,6) by (auto simp: cover_def)
  have "h2 + c2 < k \<or> k + d < h2" if k: "(k, d) \<in> runs s2" for k d
  proof (rule ccontr)
    assume a: "\<not> (h2 + c2 < k \<or> k + d < h2)"
    have d: "0 < d" using sp_struct_run [of p2 s2 k d] 2(2) k by (auto simp: sp_rel_def)
    consider "k \<le> h2 + c2" "h2 + c2 < k + d" | "h2 < k + d" "k + d \<le> h2 + c2" | "k + d = h2"
      using a by linarith
    then show False
    proof cases
      case 1
      then show False using coverI [OF k] end2 by blast
    next
      case 2
      then have "k + d - 1 \<in> {h2..<h2 + c2}" "k + d - 1 \<in> cover (runs s2)"
        using coverI [OF k, of "k + d - 1"] d by auto
      then show False using \<open>{h2..<h2 + c2} \<inter> cover (runs s2) = {}\<close> by blast
    next
      case 3
      then show False using coverI [OF k, of "h2 - 1"] 2(8) d by auto
    qed
  qed
  then obtain p3 where "link_run p2 h2 c2 = Some p3" "num_spans p3 = num_spans p"
    "sp_rel p3 (s2(c2 := h2 # s2 c2))"
    using link_run_rel [OF 2(2,4), of h2] 2(3,5) 1(5) by auto
  moreover have "cover (runs (s2(c2 := h2 # s2 c2))) = {h..<h + c} \<union> cover (runs stk)"
    using 1(8) 2(9) by (simp add: runs_push)
  ultimately show ?thesis using 1(1) 2(1) by (auto simp: pool_free_def)
qed

subsection \<open>The pool as a store of free spans\<close>

lemma pool_new_rel: "0 < n \<Longrightarrow> n < 2 ^ 32 \<Longrightarrow> sp_rel (pool_new n) (\<lambda>_. [])"
proof -
  assume n: "0 < n" "n < 2 ^ 32"
  let ?w = "div_ceil (n + 1) 64"
  have w: "max ?w 1 = ?w" "max (div_ceil ?w 64) 1 = div_ceil ?w 64"
    using div_ceil_pos [of "n + 1" 64] div_ceil_pos [of ?w 64] by auto
  have l: "?w \<le> 64 * div_ceil ?w 64" using div_ceil_mult_ge [of 64 ?w] by simp
  have "bitmap_of (replicate k 0) i = False" for k i by (auto simp: bitmap_of_def)
  then have "bitmaps (replicate ?w 0) (replicate (div_ceil ?w 64) 0) {}"
    using l by (auto simp: bitmaps_def)
  moreover have "\<forall>c\<le>n. (NO_SPAN # replicate n NO_SPAN) ! c = NO_SPAN"
    by (metis le_imp_less_Suc nth_replicate replicate_Suc)
  ultimately have "sp_struct (pool_new n) (\<lambda>_. [])"
    using n w by (simp add: sp_struct_def sp_shape_def pool_new_def Let_def)
  then show ?thesis by (simp add: sp_rel_def separated_def runs_def)
qed

lemma free_none_iff:
  assumes p: "sp_rel p stk" and n: "0 < n"
  shows "least_ge {c. stk c \<noteq> []} n = None \<longleftrightarrow> (\<nexists>a. {a..<a + n} \<subseteq> free_spans p)"
proof -
  have sep: "separated (runs stk)" and F: "free_spans p = cover (runs stk)"
    using p by (simp_all add: sp_rel_def sp_rel_free)
  have "(\<exists>a. {a..<a + n} \<subseteq> cover (runs stk)) \<longleftrightarrow> (\<exists>c. stk c \<noteq> [] \<and> n \<le> c)"
  proof
    assume "\<exists>a. {a..<a + n} \<subseteq> cover (runs stk)"
    then obtain a h c where "(h, c) \<in> runs stk" "h \<le> a" "a + n \<le> h + c"
      using interval_in_run [OF sep n] by blast
    then show "\<exists>c. stk c \<noteq> [] \<and> n \<le> c" by (intro exI [of _ c]) auto
  next
    assume "\<exists>c. stk c \<noteq> [] \<and> n \<le> c"
    then obtain c where c: "stk c \<noteq> []" "n \<le> c" by blast
    then have "(hd (stk c), c) \<in> runs stk" by simp
    then have "{hd (stk c)..<hd (stk c) + n} \<subseteq> cover (runs stk)" using c(2) by (auto intro: coverI)
    then show "\<exists>a. {a..<a + n} \<subseteq> cover (runs stk)" by blast
  qed
  then show ?thesis unfolding F least_ge_None by (auto simp: not_less)
qed

lemma pool_alloc_correct:
  assumes "pool_inv p"
  shows "\<exists>p' r. pool_alloc p n = Some (p', r) \<and> pool_inv p' \<and> num_spans p' = num_spans p \<and>
    (case r of
       None \<Rightarrow> p' = p \<and> (n = 0 \<or> (\<nexists>a. {a..<a + n} \<subseteq> free_spans p))
     | Some h \<Rightarrow> 0 < n \<and> {h..<h + n} \<subseteq> free_spans p \<and> free_spans p' = free_spans p - {h..<h + n} \<and>
         (\<exists>m\<ge>n. max_interval (free_spans p) h m \<and>
            (\<forall>k d. max_interval (free_spans p) k d \<and> n \<le> d \<longrightarrow> m \<le> d)))"
proof -
  obtain stk where p: "sp_rel p stk" using assms by (auto simp: pool_inv_def)
  have sep: "separated (runs stk)" and F: "free_spans p = cover (runs stk)" and s: "sp_struct p stk"
    using p by (simp_all add: sp_rel_def sp_rel_free)
  consider "n = 0" | "num_spans p < n" "0 < n" | "0 < n" "n \<le> num_spans p" by linarith
  then show ?thesis
  proof cases
    case 1
    then show ?thesis using assms by (simp add: pool_alloc_def)
  next
    case 2
    have "\<not> {a..<a + n} \<subseteq> free_spans p" for a
    proof
      assume "{a..<a + n} \<subseteq> free_spans p"
      then have "{a..<a + n} \<subseteq> {..<num_spans p}" using pool_inv_bound [OF assms] by blast
      moreover have "a + n - 1 \<in> {a..<a + n}" using 2(2) by auto
      ultimately have "a + n - 1 < num_spans p" by blast
      then show False using 2 by linarith
    qed
    then show ?thesis using assms 2 by (simp add: pool_alloc_def)
  next
    case 3
    show ?thesis
    proof (cases "least_ge {c. stk c \<noteq> []} n")
      case None
      then show ?thesis
        using pool_alloc_rel [OF p 3] free_none_iff [OF p 3(1)] assms by auto
    next
      case (Some m)
      then have m: "stk m \<noteq> []" "n \<le> m" and least: "\<And>d. stk d \<noteq> [] \<Longrightarrow> n \<le> d \<Longrightarrow> m \<le> d"
        by (auto simp: least_ge_Some)
      obtain p' where p': "pool_alloc p n = Some (p', Some (hd (stk m)))"
        "num_spans p' = num_spans p" "sp_rel p' (alloc_stk stk m n)"
        using pool_alloc_rel [OF p 3] Some by auto
      have h: "(hd (stk m), m) \<in> runs stk" using m by simp
      have "cover (runs (alloc_stk stk m n)) = cover (runs stk) - {hd (stk m)..<hd (stk m) + n}"
        using runs_alloc_stk [of stk m n] sp_struct_distinct [OF s] m
          separated_split [OF sep h, of n] cover_remove [OF sep h] 3(1) by (cases "n < m") auto
      moreover have "{hd (stk m)..<hd (stk m) + n} \<subseteq> cover (runs stk)" using h m(2) by (auto intro: coverI)
      moreover have "m \<le> d" if "max_interval (cover (runs stk)) k d" "n \<le> d" for k d
        using least [of d] that runs_max_interval [OF sep, of k d] by (auto dest: length_pos_if_in_set)
      moreover have "max_interval (cover (runs stk)) (hd (stk m)) m"
        using runs_max_interval [OF sep] h by blast
      moreover have "pool_inv p'" using p'(3) by (auto simp: pool_inv_def)
      ultimately show ?thesis
        using p' m(2) 3(1) unfolding F sp_rel_free [OF p'(3), symmetric] by auto
    qed
  qed
qed

lemma pool_free_correct:
  assumes "pool_inv p" "0 < c" "h + c \<le> num_spans p" "{h..<h + c} \<inter> free_spans p = {}"
  shows "\<exists>p'. pool_free p h c = Some p' \<and> pool_inv p' \<and> num_spans p' = num_spans p \<and>
    free_spans p' = free_spans p \<union> {h..<h + c}"
proof -
  obtain stk where p: "sp_rel p stk" using assms by (auto simp: pool_inv_def)
  then show ?thesis
    using pool_free_rel [OF p assms(2,3)] assms(4) by (auto simp: sp_rel_free pool_inv_def)
qed

subsection \<open>The contract of a free-run index\<close>

text \<open>\<open>holders F L s\<close>: how many of the free set \<open>F\<close> and the live runs \<open>L\<close> hold span \<open>s\<close>.\<close>

definition holders :: "nat set \<Rightarrow> run list \<Rightarrow> nat \<Rightarrow> nat" where
  "holders F L s = (if s \<in> F then 1 else 0) + length (filter (\<lambda>(h, c). h \<le> s \<and> s < h + c) L)"

lemma holders_Cons:
  "holders F ((h, c) # L) s = holders F L s + (if h \<le> s \<and> s < h + c then 1 else 0)"
  by (simp add: holders_def)

lemma holders_perm: "mset L = mset M \<Longrightarrow> holders F L s = holders F M s"
proof -
  assume "mset L = mset M"
  then have "mset (filter P L) = mset (filter P M)" for P by simp
  then have "length (filter P L) = length (filter P M)" for P by (metis size_mset)
  then show ?thesis by (simp add: holders_def)
qed

lemma holders_remove1:
  "(h, c) \<in> set L \<Longrightarrow>
     holders F L s = holders F (remove1 (h, c) L) s + (if h \<le> s \<and> s < h + c then 1 else 0)"
  using holders_perm [of L "(h, c) # remove1 (h, c) L" F s] by (simp add: holders_Cons)

lemma holders_disjoint:
  "(\<And>s. holders F L s \<le> 1) \<Longrightarrow> (h, c) \<in> set L \<Longrightarrow> {h..<h + c} \<inter> F = {}"
proof (rule ccontr)
  assume one: "\<And>s. holders F L s \<le> 1" and l: "(h, c) \<in> set L" and "{h..<h + c} \<inter> F \<noteq> {}"
  then obtain s where "s \<in> {h..<h + c}" "s \<in> F" by blast
  then show False using one [of s] holders_remove1 [OF l, of F s] by (simp add: holders_def)
qed

lemma holders_overlap:
  assumes "\<And>s. holders F ((h, c) # L) s \<le> 1" "(k, d) \<in> set L"
  shows "{h..<h + c} \<inter> {k..<k + d} = {}"
proof (rule ccontr)
  assume "{h..<h + c} \<inter> {k..<k + d} \<noteq> {}"
  then obtain s where "s \<in> {h..<h + c}" "s \<in> {k..<k + d}" by blast
  then show False using assms(1) [of s] holders_remove1 [OF assms(2), of F s] by (simp add: holders_Cons)
qed

locale free_run_index =
  fixes ix_alloc :: "'p \<Rightarrow> nat \<Rightarrow> ('p \<times> nat option) rust"
    and ix_free :: "'p \<Rightarrow> nat \<Rightarrow> nat \<Rightarrow> 'p rust"
    and ix_inv :: "'p \<Rightarrow> bool"
    and ix_free_spans :: "'p \<Rightarrow> nat set"
    and ix_total :: "'p \<Rightarrow> nat"
  assumes ix_alloc_law: "ix_inv p \<Longrightarrow>
      \<exists>p' r. ix_alloc p n = Some (p', r) \<and> ix_inv p' \<and> ix_total p' = ix_total p \<and>
       (case r of None \<Rightarrow> p' = p \<and> (n = 0 \<or> (\<nexists>a. {a..<a + n} \<subseteq> ix_free_spans p))
        | Some h \<Rightarrow> 0 < n \<and> {h..<h + n} \<subseteq> ix_free_spans p \<and>
            ix_free_spans p' = ix_free_spans p - {h..<h + n})"
    and ix_free_law: "ix_inv p \<Longrightarrow> 0 < c \<Longrightarrow> h + c \<le> ix_total p \<Longrightarrow>
      {h..<h + c} \<inter> ix_free_spans p = {} \<Longrightarrow>
      \<exists>p'. ix_free p h c = Some p' \<and> ix_inv p' \<and> ix_total p' = ix_total p \<and>
        ix_free_spans p' = ix_free_spans p \<union> {h..<h + c}"
    and ix_bound: "ix_inv p \<Longrightarrow> ix_free_spans p \<subseteq> {..<ix_total p}"
begin

lemma alloc_holders:
  assumes "ix_inv p" "ix_alloc p n = Some (p', Some h)"
  shows "ix_inv p'" "ix_total p' = ix_total p" "0 < n" "h + n \<le> ix_total p"
    "holders (ix_free_spans p') ((h, n) # L) s = holders (ix_free_spans p) L s"
proof -
  have a: "ix_inv p'" "ix_total p' = ix_total p" "0 < n" "{h..<h + n} \<subseteq> ix_free_spans p"
    "ix_free_spans p' = ix_free_spans p - {h..<h + n}"
    using ix_alloc_law [OF assms(1), of n] assms(2) by auto
  then show "ix_inv p'" "ix_total p' = ix_total p" "0 < n" by simp_all
  have "h + n - 1 \<in> {h..<h + n}" using a(3) by auto
  then have "h + n - 1 < ix_total p" using a(4) ix_bound [OF assms(1)] by blast
  then show "h + n \<le> ix_total p" using a(3) by linarith
  show "holders (ix_free_spans p') ((h, n) # L) s = holders (ix_free_spans p) L s"
    unfolding a(5) holders_Cons using a(4) by (auto simp: holders_def)
qed

lemma alloc_total: "ix_inv p \<Longrightarrow> \<exists>p' r. ix_alloc p n = Some (p', r) \<and> ix_inv p'"
  using ix_alloc_law by blast

lemma alloc_fails: "ix_inv p \<Longrightarrow> ix_alloc p n = Some (p', None) \<Longrightarrow> p' = p"
  using ix_alloc_law [of p n] by auto

lemma alloc_serves:
  assumes "ix_inv p" "0 < n" "{a..<a + n} \<subseteq> ix_free_spans p"
  shows "\<exists>p' h. ix_alloc p n = Some (p', Some h) \<and> {h..<h + n} \<subseteq> ix_free_spans p"
proof -
  obtain p' r where r: "ix_alloc p n = Some (p', r)"
    "case r of None \<Rightarrow> p' = p \<and> (n = 0 \<or> (\<nexists>a. {a..<a + n} \<subseteq> ix_free_spans p))
        | Some h \<Rightarrow> 0 < n \<and> {h..<h + n} \<subseteq> ix_free_spans p \<and>
            ix_free_spans p' = ix_free_spans p - {h..<h + n}"
    using ix_alloc_law [OF assms(1)] by blast
  then obtain h where "r = Some h" using assms(2,3) by (cases r) auto
  then show ?thesis using r by simp
qed

lemma free_holders:
  assumes "ix_inv p" "(h, c) \<in> set L" "0 < c" "h + c \<le> ix_total p"
    and one: "\<And>s. holders (ix_free_spans p) L s \<le> 1"
  shows "\<exists>p'. ix_free p h c = Some p' \<and> ix_inv p' \<and> ix_total p' = ix_total p \<and>
    (\<forall>s. holders (ix_free_spans p') (remove1 (h, c) L) s = holders (ix_free_spans p) L s)"
proof -
  have d: "{h..<h + c} \<inter> ix_free_spans p = {}" using holders_disjoint [OF one assms(2)] .
  then obtain p' where p': "ix_free p h c = Some p'" "ix_inv p'" "ix_total p' = ix_total p"
    "ix_free_spans p' = ix_free_spans p \<union> {h..<h + c}"
    using ix_free_law [OF assms(1,3,4)] by blast
  have "holders (ix_free_spans p') (remove1 (h, c) L) s = holders (ix_free_spans p) L s" for s
    unfolding p'(4) using holders_remove1 [OF assms(2), of "ix_free_spans p" s] d
    by (auto simp: holders_def)
  then show ?thesis using p' by blast
qed

end

interpretation sp: free_run_index pool_alloc pool_free pool_inv free_spans num_spans
proof
  show "pool_inv p \<Longrightarrow> \<exists>p' r. pool_alloc p n = Some (p', r) \<and> pool_inv p' \<and> num_spans p' = num_spans p \<and>
       (case r of None \<Rightarrow> p' = p \<and> (n = 0 \<or> (\<nexists>a. {a..<a + n} \<subseteq> free_spans p))
        | Some h \<Rightarrow> 0 < n \<and> {h..<h + n} \<subseteq> free_spans p \<and> free_spans p' = free_spans p - {h..<h + n})"
    for p n
  proof -
    assume "pool_inv p"
    then obtain p' r where "pool_alloc p n = Some (p', r)" "pool_inv p'" "num_spans p' = num_spans p"
      "case r of None \<Rightarrow> p' = p \<and> (n = 0 \<or> (\<nexists>a. {a..<a + n} \<subseteq> free_spans p))
        | Some h \<Rightarrow> 0 < n \<and> {h..<h + n} \<subseteq> free_spans p \<and> free_spans p' = free_spans p - {h..<h + n} \<and>
         (\<exists>m\<ge>n. max_interval (free_spans p) h m \<and>
            (\<forall>k d. max_interval (free_spans p) k d \<and> n \<le> d \<longrightarrow> m \<le> d))"
      using pool_alloc_correct [of p n] by blast
    then show ?thesis by (cases r) auto
  qed
qed (use pool_free_correct pool_inv_bound in auto)

subsection \<open>Histories of allocations and releases\<close>

text \<open>A pool together with the runs handed out and not yet returned.\<close>

inductive pool_step :: "span_pool \<times> run list \<Rightarrow> span_pool \<times> run list \<Rightarrow> bool" where
  take: "pool_alloc p n = Some (p', Some h) \<Longrightarrow> pool_step (p, L) (p', (h, n) # L)"
| miss: "pool_alloc p n = Some (p', None) \<Longrightarrow> pool_step (p, L) (p', L)"
| give: "(h, c) \<in> set L \<Longrightarrow> pool_free p h c = Some p' \<Longrightarrow> pool_step (p, L) (p', remove1 (h, c) L)"

inductive_cases pool_stepE: "pool_step (p, L) q"

definition hist_inv :: "nat \<Rightarrow> span_pool \<times> run list \<Rightarrow> bool" where
  "hist_inv N = (\<lambda>(p, L). pool_inv p \<and> num_spans p = N \<and> (\<forall>(h, c)\<in>set L. 0 < c \<and> h + c \<le> N) \<and>
     (\<forall>s. holders (free_spans p) L s = (if s < N then 1 else 0)))"

lemma hist_inv_free:
  assumes "hist_inv N (p, L)" "(h, c) \<in> set L"
  shows "\<exists>p'. pool_free p h c = Some p' \<and> hist_inv N (p', remove1 (h, c) L)"
proof -
  have i: "pool_inv p" "num_spans p = N" "0 < c" "h + c \<le> N"
    "\<And>s. holders (free_spans p) L s = (if s < N then 1 else 0)"
    using assms by (auto simp: hist_inv_def)
  have one: "holders (free_spans p) L s \<le> 1" for s using i(5) by simp
  obtain p' where "pool_free p h c = Some p'" "pool_inv p'" "num_spans p' = N"
    "\<forall>s. holders (free_spans p') (remove1 (h, c) L) s = holders (free_spans p) L s"
    using sp.free_holders [OF i(1) assms(2) i(3) _ one] i(2,4) by auto
  then show ?thesis using assms i(5) set_remove1_subset [of "(h, c)" L] by (fastforce simp: hist_inv_def)
qed

lemma hist_inv_step: "pool_step x y \<Longrightarrow> hist_inv N x \<Longrightarrow> hist_inv N y"
proof (induction rule: pool_step.induct)
  case (take p n p' h L)
  then show ?case using sp.alloc_holders [OF _ take(1)] by (auto simp: hist_inv_def)
next
  case (miss p n p' L)
  then show ?case using sp.alloc_fails [OF _ miss(1)] by (auto simp: hist_inv_def)
next
  case (give h c L p p')
  then show ?case using hist_inv_free [of N p L h c] by auto
qed

lemma hist_inv_steps: "pool_step\<^sup>*\<^sup>* x y \<Longrightarrow> hist_inv N x \<Longrightarrow> hist_inv N y"
  by (induction rule: rtranclp_induct) (auto intro: hist_inv_step)

lemma pool_new_inv_free: "0 < N \<Longrightarrow> N < 2 ^ 32 \<Longrightarrow> pool_inv (pool_new N) \<and> free_spans (pool_new N) = {} \<and>
    num_spans (pool_new N) = N"
  using pool_new_rel [of N] sp_rel_free [of "pool_new N" "\<lambda>_. []"]
  by (auto simp: pool_inv_def runs_def cover_def pool_new_def Let_def)

lemma hist_inv_start:
  assumes "0 < N" "N < 2 ^ 32" "pool_free (pool_new N) 0 N = Some p"
  shows "hist_inv N (p, [])"
proof -
  have n: "pool_inv (pool_new N)" "free_spans (pool_new N) = {}" "num_spans (pool_new N) = N"
    using pool_new_inv_free [OF assms(1,2)] by auto
  then show ?thesis
    using pool_free_correct [OF n(1) assms(1), of 0] assms(3) by (auto simp: hist_inv_def holders_def)
qed

subsection \<open>Properties\<close>

text \<open>
  C35. Allocation from the pool, in any state that satisfies the invariant: it never indexes out
  of range, keeps the invariant, and either takes \<open>n\<close> free spans from the front of a shortest
  maximal free interval that has at least \<open>n\<close> spans (best fit, so an exact fit is never split),
  or changes nothing because no \<open>n\<close> consecutive free spans exist anywhere in the pool.
\<close>

theorem pool_alloc_best_fit:
  assumes "pool_inv p"
  shows "\<exists>p' r. pool_alloc p n = Some (p', r) \<and> pool_inv p' \<and> num_spans p' = num_spans p \<and>
    (case r of
       None \<Rightarrow> p' = p \<and> (n = 0 \<or> (\<nexists>a. {a..<a + n} \<subseteq> free_spans p))
     | Some h \<Rightarrow> 0 < n \<and> {h..<h + n} \<subseteq> free_spans p \<and> free_spans p' = free_spans p - {h..<h + n} \<and>
         (\<exists>m\<ge>n. max_interval (free_spans p) h m \<and>
            (\<forall>k d. max_interval (free_spans p) k d \<and> n \<le> d \<longrightarrow> m \<le> d)))"
  using pool_alloc_correct [OF assms] .

theorem pool_alloc_best_fit_witness:
  "\<exists>r. pool_alloc (pool_new 100) 5 = Some (pool_new 100, r) \<and> r = None"
proof -
  have i: "pool_inv (pool_new 100)" "free_spans (pool_new 100) = {}"
    using pool_new_inv_free [of 100] by simp_all
  obtain p' r where r: "pool_alloc (pool_new 100) 5 = Some (p', r)"
    "case r of None \<Rightarrow> p' = pool_new 100 \<and> (5 = 0 \<or> (\<nexists>a. {a..<a + 5} \<subseteq> free_spans (pool_new 100)))
     | Some h \<Rightarrow> {h..<h + 5} \<subseteq> free_spans (pool_new 100)"
    using pool_alloc_best_fit [OF i(1), of 5] by (auto split: option.splits)
  then have "r = None" using i(2) by (cases r) auto
  then show ?thesis using r by auto
qed

text \<open>
  Returning a run to the pool: whenever the run lies inside the pool and none of its spans
  is free already, \<open>free\<close> succeeds, keeps the invariant (in particular the result has again no
  two adjacent free runs) and adds exactly the spans of the run to the free spans.
\<close>

theorem pool_free_adds:
  assumes "pool_inv p" "0 < c" "h + c \<le> num_spans p" "{h..<h + c} \<inter> free_spans p = {}"
  shows "\<exists>p'. pool_free p h c = Some p' \<and> pool_inv p' \<and> num_spans p' = num_spans p \<and>
    free_spans p' = free_spans p \<union> {h..<h + c}"
  using pool_free_correct [OF assms] .

theorem pool_free_adds_witness:
  "\<exists>p'. pool_free (pool_new 100) 10 8 = Some p' \<and> pool_inv p' \<and> free_spans p' = {10..<18}"
  using pool_free_adds [of "pool_new 100" 8 10] pool_new_inv_free [of 100] by auto

text \<open>
  The free runs recorded by the boundary tags are exactly the maximal intervals of free
  spans: coalescing is complete and no run is recorded twice.
\<close>

theorem free_runs_maximal:
  assumes "pool_inv p"
  shows "(h, c) \<in> set (free_runs p) \<longleftrightarrow> max_interval (free_spans p) h c"
proof -
  obtain stk where "sp_rel p stk" using assms by (auto simp: pool_inv_def)
  then have s: "set (free_runs p) = runs stk" "separated (runs stk)"
    by (simp_all add: sp_struct_free_runs sp_rel_def)
  then show ?thesis using runs_max_interval [OF s(2)] by (simp add: free_spans_def)
qed

theorem free_runs_maximal_witness:
  "\<exists>p. pool_free (pool_new 100) 10 8 = Some p \<and> (10, 8) \<in> set (free_runs p)"
proof -
  obtain p where p: "pool_free (pool_new 100) 10 8 = Some p" "pool_inv p" "free_spans p = {10..<18}"
    using pool_free_correct [of "pool_new 100" 8 10] pool_new_inv_free [of 100] by auto
  have "max_interval (free_spans p) 10 8" using p(3) by (simp add: max_interval_def)
  then show ?thesis using free_runs_maximal [OF p(2)] p(1) by blast
qed

text \<open>
  C34. No double hand-out and no lost span: start from a pool of \<open>N\<close> spans that are all free and
  perform any sequence of allocations and releases of runs handed out. In every state reached,
  each span below \<open>N\<close> is held by exactly one of the free index and the live runs (and no span
  outside is held by any), every further release of a live run succeeds, and once no run is
  live the whole pool is again available as one run.
\<close>

theorem pool_history_exact:
  assumes "0 < N" "N < 2 ^ 32" "pool_free (pool_new N) 0 N = Some p0" "pool_step\<^sup>*\<^sup>* (p0, []) (p, L)"
  shows "(\<forall>s. holders (free_spans p) L s = (if s < N then 1 else 0)) \<and>
    (\<forall>(h, c)\<in>set L. pool_free p h c \<noteq> None) \<and>
    (L = [] \<longrightarrow> (\<exists>p'. pool_alloc p N = Some (p', Some 0)))"
proof -
  have i: "hist_inv N (p, L)" using hist_inv_steps [OF assms(4)] hist_inv_start [OF assms(1-3)] .
  then have "pool_free p h c \<noteq> None" if "(h, c) \<in> set L" for h c
    using hist_inv_free [OF i that] by auto
  moreover have "\<exists>p'. pool_alloc p N = Some (p', Some 0)" if "L = []"
  proof -
    have p: "pool_inv p" using i by (simp add: hist_inv_def)
    have "(if s \<in> free_spans p then 1 else 0 :: nat) = (if s < N then 1 else 0)" for s
      using i that by (simp add: hist_inv_def holders_def)
    then have "s \<in> free_spans p \<longleftrightarrow> s < N" for s by (metis zero_neq_one)
    then have f: "free_spans p = {0..<0 + N}" by (intro set_eqI) simp
    have fits: "{0..<0 + N} \<subseteq> free_spans p" using f by simp
    obtain p' h where r: "pool_alloc p N = Some (p', Some h)" "{h..<h + N} \<subseteq> free_spans p"
      using sp.alloc_serves [OF p assms(1) fits] by blast
    then have "h = 0" using f assms(1) by (auto simp: ivl_subset)
    then show ?thesis using r(1) by simp
  qed
  ultimately show ?thesis using i by (auto simp: hist_inv_def)
qed

theorem pool_history_exact_witness:
  "\<exists>p0 p L. pool_free (pool_new 8) 0 8 = Some p0 \<and> pool_step\<^sup>*\<^sup>* (p0, []) (p, L) \<and> L \<noteq> [] \<and>
     (\<forall>s. holders (free_spans p) L s = (if s < 8 then 1 else 0))"
proof -
  obtain p0 where p0: "pool_free (pool_new 8) 0 8 = Some p0" "pool_inv p0" "free_spans p0 = {0..<8}"
    using pool_free_correct [of "pool_new 8" 8 0] pool_new_inv_free [of 8] by auto
  have "{0..<0 + 3} \<subseteq> free_spans p0" using p0(3) by simp
  then obtain p h where "pool_alloc p0 3 = Some (p, Some h)"
    using sp.alloc_serves [OF p0(2), of 3 0] by auto
  then have s: "pool_step\<^sup>*\<^sup>* (p0, []) (p, [(h, 3)])" by (auto intro: pool_step.take)
  have "\<forall>s. holders (free_spans p) [(h, 3)] s = (if s < 8 then 1 else 0)"
    using pool_history_exact [OF _ _ p0(1) s] by simp
  then show ?thesis using p0(1) s by blast
qed

lemma merge_right_id:
  assumes p: "sp_rel p stk" and c: "h + c \<le> num_spans p" "h + c \<notin> cover (runs stk)"
  shows "merge_right p h c = Some (p, c)"
proof -
  have s: "sp_struct p stk" "length (head_count p) = num_spans p"
    using p by (simp_all add: sp_rel_def sp_struct_def sp_shape_def)
  have "head_count p ! (h + c) = 0" if "h + c < num_spans p"
    using sp_struct_head [OF s(1) that] coverI [of "h + c" _ "runs stk" "h + c"] c(2)
    by (cases "head_count p ! (h + c) = 0") auto
  then show ?thesis using c s sp_rel_small [OF p] by (auto simp: merge_right_def Let_def)
qed

lemma merge_left_id:
  assumes p: "sp_rel p stk" and c: "h \<le> num_spans p" "0 < h \<Longrightarrow> h - 1 \<notin> cover (runs stk)"
  shows "merge_left p h c = Some (p, h, c)"
proof (cases "0 < h")
  case True
  have s: "sp_struct p stk" "length (tail_count p) = num_spans p"
    using p by (simp_all add: sp_rel_def sp_struct_def sp_shape_def)
  let ?d = "tail_count p ! (h - 1)"
  have "?d = 0"
  proof (rule ccontr)
    assume "?d \<noteq> 0"
    then have "?d \<le> h" "h - ?d \<in> set (stk ?d)"
      using sp_struct_tail [OF s(1), of "h - 1" ?d] True c(1) by auto
    moreover from this have "h - ?d \<le> h - 1" "h - 1 < h - ?d + ?d" using True \<open>?d \<noteq> 0\<close> by linarith+
    ultimately show False using coverI [of "h - ?d" ?d "runs stk" "h - 1"] c(2) True by simp
  qed
  then show ?thesis using s True c by (simp add: merge_left_def)
qed (simp add: merge_left_def)

text \<open>
  Recycling: returning a run whose two neighbouring spans are not free and then asking for
  the same number of spans gives back that very run, and restores the free spans.
\<close>

theorem pool_free_alloc_roundtrip:
  assumes "pool_inv p" "0 < c" "h + c \<le> num_spans p" "{h..<h + c} \<inter> free_spans p = {}"
    and "h + c \<notin> free_spans p" "h = 0 \<or> h - 1 \<notin> free_spans p"
  shows "\<exists>p' p''. pool_free p h c = Some p' \<and> pool_alloc p' c = Some (p'', Some h) \<and>
    pool_inv p'' \<and> free_spans p'' = free_spans p"
proof -
  obtain stk where p: "sp_rel p stk" using assms(1) by (auto simp: pool_inv_def)
  note F = sp_rel_free [OF p]
  have apart: "h + c < k \<or> k + d < h" if k: "(k, d) \<in> runs stk" for k d
  proof (rule ccontr)
    assume a: "\<not> (h + c < k \<or> k + d < h)"
    have "0 < d" using k p by (auto simp: sp_rel_def separated_def)
    have "s \<notin> cover (runs stk)" if "h \<le> s" "s \<le> h + c" for s
    proof (cases "s = h + c")
      case False
      then have "s \<in> {h..<h + c}" using that by simp
      then show ?thesis using assms(4) unfolding F by blast
    qed (use assms(5) F in simp)
    moreover have "h = 0 \<or> h - 1 \<notin> cover (runs stk)" using assms(6) unfolding F .
    moreover have "k \<le> k + d - 1" using \<open>0 < d\<close> by linarith
    ultimately show False
      using a coverI [OF k, of "max h k"] coverI [OF k, of "h - 1"] \<open>0 < d\<close> by (cases "k + d = h") auto
  qed
  then obtain p' where p': "link_run p h c = Some p'" "num_spans p' = num_spans p"
    "sp_rel p' (stk(c := h # stk c))" using link_run_rel [OF p assms(2,3)] by blast
  have "merge_right p h c = Some (p, c)" "merge_left p h c = Some (p, h, c)"
    using merge_right_id [OF p] merge_left_id [OF p] assms unfolding F by auto
  then have f: "pool_free p h c = Some p'" using p'(1) by (simp add: pool_free_def)
  have "least_ge {d. (stk(c := h # stk c)) d \<noteq> []} c = Some c" by (intro least_ge_eq) auto
  then obtain p'' where a: "pool_alloc p' c = Some (p'', Some h)"
    "sp_rel p'' (alloc_stk (stk(c := h # stk c)) c c)"
    using pool_alloc_rel [OF p'(3) assms(2)] p'(2) assms(3) by auto
  then have "sp_rel p'' stk" by (simp add: alloc_stk_def)
  then show ?thesis using f a(1) F sp_rel_free by (auto simp: pool_inv_def)
qed

theorem pool_free_alloc_roundtrip_witness:
  "\<exists>p' p''. pool_free (pool_new 100) 10 8 = Some p' \<and> pool_alloc p' 8 = Some (p'', Some 10) \<and>
     pool_inv p'' \<and> free_spans p'' = {}"
  using pool_free_alloc_roundtrip [of "pool_new 100" 8 10] pool_new_inv_free [of 100] by simp

text \<open>
  C36. The two-level bitmap search finds the lowest non-empty bucket at or above \<open>c\<close>, and
  reports \<open>None\<close> exactly when there is none; it never reads outside the bitmaps.
\<close>

theorem find_first_set_ge_lowest:
  assumes "pool_inv p"
  shows "find_first_set_ge p c = Some (least_ge {d. \<exists>h. (h, d) \<in> set (free_runs p)} c)"
proof -
  obtain stk where p: "sp_rel p stk" using assms by (auto simp: pool_inv_def)
  then have s: "sp_struct p stk" by (simp add: sp_rel_def)
  then have bm: "bitmaps (l0 p) (l1 p) {c. stk c \<noteq> []}" "64 * length (l0 p) \<le> 2 ^ 32"
    using sp_shape_words by (auto simp: sp_struct_def)
  have "{c. stk c \<noteq> []} = {d. \<exists>h. (h, d) \<in> set (free_runs p)}"
    unfolding sp_struct_free_runs [OF s] by (auto intro: list.set_sel(1))
  then show ?thesis using find_first_set_ge_least [OF bm] by simp
qed

theorem find_first_set_ge_lowest_witness:
  "find_first_set_ge (pool_new 500) 1 = Some None"
proof -
  have "set (free_runs (pool_new 500)) = {}"
    using sp_struct_free_runs [of "pool_new 500" "\<lambda>_. []"] pool_new_rel [of 500]
    by (simp add: sp_rel_def runs_def)
  then show ?thesis
    using find_first_set_ge_lowest [of "pool_new 500" 1] pool_new_inv_free [of 500]
    by (simp add: least_ge_def)
qed

end
