(* ===== verification/Cpu_Slab.thy ===== *)
theory Cpu_Slab
  imports Toccata_Prelude
begin

text \<open>
  The per-CPU pointer slab (\<^verbatim>\<open>toccata-core/src/rseq/slab.rs\<close>) with the restartable fast path
  of \<^verbatim>\<open>toccata-core/src/rseq/asm.rs\<close> as one atomic operation; the instruction-level machine is
  in the theory \<open>Rseq_Asm\<close>.

  A slab is, for every CPU and every size class, a stack of object addresses with a current
  height and a capacity (address 0 is the null pointer). What a stack operation observes of its
  thread is an explicit \<open>env\<close>: the result of \<open>current_cpu\<close>, the address of a thread-local used
  to spread threads, and the CPU on which the restartable sequence committed (\<open>None\<close> when it
  gave up). All statements hold for every \<open>env\<close>. An access outside a slot array is \<open>None\<close>.
\<close>

subsection \<open>State\<close>

record cstack =
  current :: nat
  capacity :: nat
  slots :: "nat list"

record slab =
  num_cpus :: nat
  stacks :: "cstack list list"
  stopped :: "bool list"

record env =
  current_cpu :: "nat option"
  anchor :: nat
  rseq_cpu :: "nat option"

datatype 'a fast = FOk 'a | NeedsSlow

datatype rseq_result = ROk nat nat | RNeedsSlow | RFallback

definition U32_MAX :: nat where
  "U32_MAX = 2 ^ 32 - 1"

definition stop_index :: "slab \<Rightarrow> nat \<Rightarrow> nat" where
  "stop_index sl cpu = min cpu (length (stopped sl) - 1)"

definition set_stopped :: "slab \<Rightarrow> nat \<Rightarrow> bool \<Rightarrow> slab rust" where
  "set_stopped sl cpu v = do {
     fs \<leftarrow> upd (stopped sl) (stop_index sl cpu) v;
     Some (sl\<lparr>stopped := fs\<rparr>)
   }"

definition is_stopped :: "slab \<Rightarrow> nat \<Rightarrow> bool rust" where
  "is_stopped sl cpu = idx (stopped sl) (stop_index sl cpu)"

definition get_stack :: "slab \<Rightarrow> nat \<Rightarrow> nat \<Rightarrow> cstack rust" where
  "get_stack sl cpu cls = do { row \<leftarrow> idx (stacks sl) cpu; idx row cls }"

definition put_stack :: "slab \<Rightarrow> nat \<Rightarrow> nat \<Rightarrow> cstack \<Rightarrow> slab rust" where
  "put_stack sl cpu cls c = do {
     row \<leftarrow> idx (stacks sl) cpu;
     row' \<leftarrow> upd row cls c;
     rows \<leftarrow> upd (stacks sl) cpu row';
     Some (sl\<lparr>stacks := rows\<rparr>)
   }"

subsection \<open>Choosing a CPU\<close>

definition fallback_shard :: "nat \<Rightarrow> nat \<Rightarrow> nat" where
  "fallback_shard cpus addr = as_u32 (addr div 2 ^ 6) mod (max cpus 1)"

definition current_stack :: "slab \<Rightarrow> env \<Rightarrow> nat" where
  "current_stack sl e =
     (case current_cpu e of
        Some c \<Rightarrow> if c < num_cpus sl then c else fallback_shard (num_cpus sl) (anchor e)
      | None \<Rightarrow> fallback_shard (num_cpus sl) (anchor e))"

definition current_fast :: "slab \<Rightarrow> nat" where
  "current_fast sl = U32_MAX"

definition resolved_cpu :: "slab \<Rightarrow> env \<Rightarrow> nat \<Rightarrow> nat" where
  "resolved_cpu sl e cs = (if cs = U32_MAX then current_stack sl e else cs)"

subsection \<open>The locked path\<close>

text \<open>
  What runs under the lock of the stack, and the two operations: the stop flag is tested before
  the lock is taken, so a CPU may be seized between the test and the critical section.
\<close>

definition pop_critical :: "slab \<Rightarrow> nat \<Rightarrow> nat \<Rightarrow> (slab \<times> nat fast) rust" where
  "pop_critical sl cpu cls = do {
     c \<leftarrow> get_stack sl cpu cls;
     if current c = 0 then Some (sl, NeedsSlow)
     else do {
       obj \<leftarrow> idx (slots c) (current c - 1);
       sl' \<leftarrow> put_stack sl cpu cls (c\<lparr>current := current c - 1\<rparr>);
       Some (sl', if obj = 0 then NeedsSlow else FOk obj)
     }
   }"

definition push_critical :: "slab \<Rightarrow> nat \<Rightarrow> nat \<Rightarrow> nat \<Rightarrow> (slab \<times> unit fast) rust" where
  "push_critical sl cpu cls obj = do {
     c \<leftarrow> get_stack sl cpu cls;
     if capacity c \<le> current c then Some (sl, NeedsSlow)
     else do {
       ss \<leftarrow> upd (slots c) (current c) obj;
       sl' \<leftarrow> put_stack sl cpu cls (c\<lparr>slots := ss, current := current c + 1\<rparr>);
       Some (sl', FOk ())
     }
   }"

definition pop_locked :: "slab \<Rightarrow> env \<Rightarrow> nat \<Rightarrow> nat \<Rightarrow> (slab \<times> nat fast) rust" where
  "pop_locked sl e cs cls = do {
     let cpu = resolved_cpu sl e cs;
     s \<leftarrow> is_stopped sl cpu;
     if s then Some (sl, NeedsSlow) else pop_critical sl cpu cls
   }"

definition push_locked :: "slab \<Rightarrow> env \<Rightarrow> nat \<Rightarrow> nat \<Rightarrow> nat \<Rightarrow> (slab \<times> unit fast) rust" where
  "push_locked sl e cs cls obj = do {
     let cpu = resolved_cpu sl e cs;
     s \<leftarrow> is_stopped sl cpu;
     if s then Some (sl, NeedsSlow) else push_critical sl cpu cls obj
   }"

subsection \<open>The restartable path, as one step\<close>

definition asm_pop :: "slab \<Rightarrow> env \<Rightarrow> nat \<Rightarrow> (slab \<times> rseq_result) rust" where
  "asm_pop sl e cls =
     (case rseq_cpu e of
        None \<Rightarrow> Some (sl, RFallback)
      | Some cpu \<Rightarrow>
          if num_cpus sl \<le> cpu then Some (sl, RFallback)
          else do {
            s \<leftarrow> idx (stopped sl) cpu;
            if s then Some (sl, RFallback)
            else do {
              c \<leftarrow> get_stack sl cpu cls;
              if current c = 0 then Some (sl, RNeedsSlow)
              else do {
                obj \<leftarrow> idx (slots c) (current c - 1);
                sl' \<leftarrow> put_stack sl cpu cls (c\<lparr>current := current c - 1\<rparr>);
                Some (sl', ROk obj cpu)
              }
            }
          })"

definition asm_push :: "slab \<Rightarrow> env \<Rightarrow> nat \<Rightarrow> nat \<Rightarrow> (slab \<times> rseq_result) rust" where
  "asm_push sl e cls obj =
     (case rseq_cpu e of
        None \<Rightarrow> Some (sl, RFallback)
      | Some cpu \<Rightarrow>
          if num_cpus sl \<le> cpu then Some (sl, RFallback)
          else do {
            s \<leftarrow> idx (stopped sl) cpu;
            if s then Some (sl, RFallback)
            else do {
              c \<leftarrow> get_stack sl cpu cls;
              if capacity c \<le> current c then Some (sl, RNeedsSlow)
              else do {
                ss \<leftarrow> upd (slots c) (current c) obj;
                sl' \<leftarrow> put_stack sl cpu cls (c\<lparr>slots := ss, current := current c + 1\<rparr>);
                Some (sl', ROk 0 cpu)
              }
            }
          })"

subsection \<open>Public entries\<close>

definition pop_on :: "slab \<Rightarrow> env \<Rightarrow> nat \<Rightarrow> nat \<Rightarrow> (slab \<times> nat fast \<times> nat) rust" where
  "pop_on sl e cs cls = do {
     (sl1, r) \<leftarrow> asm_pop sl e cls;
     case r of
       ROk p cpu \<Rightarrow> Some (sl1, if p = 0 then NeedsSlow else FOk p, cpu)
     | RNeedsSlow \<Rightarrow> Some (sl1, NeedsSlow, resolved_cpu sl1 e cs)
     | RFallback \<Rightarrow> do {
         (sl2, f) \<leftarrow> pop_locked sl1 e cs cls;
         Some (sl2, f, resolved_cpu sl2 e cs)
       }
   }"

definition pop :: "slab \<Rightarrow> env \<Rightarrow> nat \<Rightarrow> nat \<Rightarrow> (slab \<times> nat fast) rust" where
  "pop sl e cs cls = do {
     (sl1, r) \<leftarrow> asm_pop sl e cls;
     case r of
       ROk p cpu \<Rightarrow> Some (sl1, if p = 0 then NeedsSlow else FOk p)
     | RNeedsSlow \<Rightarrow> Some (sl1, NeedsSlow)
     | RFallback \<Rightarrow> pop_locked sl1 e cs cls
   }"

definition push :: "slab \<Rightarrow> env \<Rightarrow> nat \<Rightarrow> nat \<Rightarrow> nat \<Rightarrow> (slab \<times> unit fast) rust" where
  "push sl e cs cls obj = do {
     (sl1, r) \<leftarrow> asm_push sl e cls obj;
     case r of
       ROk p cpu \<Rightarrow> Some (sl1, FOk ())
     | RNeedsSlow \<Rightarrow> Some (sl1, NeedsSlow)
     | RFallback \<Rightarrow> push_locked sl1 e cs cls obj
   }"

definition push_on :: "slab \<Rightarrow> env \<Rightarrow> nat \<Rightarrow> nat \<Rightarrow> nat \<Rightarrow> (slab \<times> unit fast \<times> nat) rust" where
  "push_on sl e cs cls obj = do {
     (sl1, r) \<leftarrow> asm_push sl e cls obj;
     case r of
       ROk p cpu \<Rightarrow> Some (sl1, FOk (), cpu)
     | RNeedsSlow \<Rightarrow> Some (sl1, NeedsSlow, resolved_cpu sl1 e cs)
     | RFallback \<Rightarrow> do {
         (sl2, f) \<leftarrow> push_locked sl1 e cs cls obj;
         Some (sl2, f, resolved_cpu sl2 e cs)
       }
   }"

subsection \<open>Stack contents\<close>

definition contents :: "cstack \<Rightarrow> nat list" where
  "contents c = take (current c) (slots c)"

definition cstack_ok :: "cstack \<Rightarrow> bool" where
  "cstack_ok c \<longleftrightarrow> current c \<le> capacity c \<and> capacity c \<le> length (slots c) \<and> 0 \<notin> set (contents c)"

definition slab_inv :: "nat \<Rightarrow> slab \<Rightarrow> bool" where
  "slab_inv classes sl \<longleftrightarrow> 0 < num_cpus sl \<and> num_cpus sl < U32_MAX \<and> length (stacks sl) = num_cpus sl \<and>
     length (stopped sl) = num_cpus sl \<and> (\<forall>row\<in>set (stacks sl). length row = classes \<and> (\<forall>c\<in>set row. cstack_ok c))"

text \<open>All objects cached for a class, over all CPUs.\<close>

definition class_objs :: "slab \<Rightarrow> nat \<Rightarrow> nat multiset" where
  "class_objs sl cls = (\<Sum>row\<leftarrow>stacks sl. mset (contents (row ! cls)))"

definition bind_ok :: "slab \<Rightarrow> nat \<Rightarrow> bool" where
  "bind_ok sl cs \<longleftrightarrow> cs < num_cpus sl \<or> cs = U32_MAX"

lemma current_stack_less: "slab_inv n sl \<Longrightarrow> current_stack sl e < num_cpus sl"
  by (auto simp: current_stack_def fallback_shard_def slab_inv_def split: option.splits)

lemma resolved_cpu_less: "slab_inv n sl \<Longrightarrow> bind_ok sl cs \<Longrightarrow> resolved_cpu sl e cs < num_cpus sl"
  using current_stack_less by (auto simp: resolved_cpu_def bind_ok_def)

lemma resolved_cpu_cong: "num_cpus sl' = num_cpus sl \<Longrightarrow> resolved_cpu sl' e cs = resolved_cpu sl e cs"
  by (cases "current_cpu e") (simp_all add: resolved_cpu_def current_stack_def)

lemma slab_get:
  assumes "slab_inv n sl" "cpu < num_cpus sl" "cls < n"
  shows "get_stack sl cpu cls = Some (stacks sl ! cpu ! cls) \<and> cstack_ok (stacks sl ! cpu ! cls) \<and>
    is_stopped sl cpu = Some (stopped sl ! cpu) \<and> idx (stopped sl) cpu = Some (stopped sl ! cpu) \<and>
    length (stacks sl ! cpu) = n"
proof -
  have "stacks sl ! cpu \<in> set (stacks sl)" using assms by (simp add: slab_inv_def)
  then have "length (stacks sl ! cpu) = n" "\<forall>c\<in>set (stacks sl ! cpu). cstack_ok c"
    using assms(1) by (auto simp: slab_inv_def)
  then show ?thesis
    using assms by (auto simp: slab_inv_def get_stack_def is_stopped_def stop_index_def)
qed

lemma sum_list_upd:
  fixes f :: "'a \<Rightarrow> 'b::comm_monoid_add"
  shows "i < length xs \<Longrightarrow> (\<Sum>x\<leftarrow>xs[i := y]. f x) + f (xs ! i) = (\<Sum>x\<leftarrow>xs. f x) + f y"
proof (induction xs arbitrary: i)
  case (Cons x xs)
  show ?case
  proof (cases i)
    case (Suc j)
    then show ?thesis using Cons.IH [of j] Cons.prems by (simp add: add.assoc)
  qed (simp add: ac_simps)
qed simp

definition set_stack :: "slab \<Rightarrow> nat \<Rightarrow> nat \<Rightarrow> cstack \<Rightarrow> slab" where
  "set_stack sl cpu cls c = sl\<lparr>stacks := (stacks sl)[cpu := (stacks sl ! cpu)[cls := c]]\<rparr>"

lemma slab_put:
  assumes "slab_inv n sl" "cpu < num_cpus sl" "cls < n" "cstack_ok c"
  shows "put_stack sl cpu cls c = Some (set_stack sl cpu cls c)" "slab_inv n (set_stack sl cpu cls c)"
    "class_objs (set_stack sl cpu cls c) cls + mset (contents (stacks sl ! cpu ! cls)) =
       class_objs sl cls + mset (contents c)"
    "d \<noteq> cls \<Longrightarrow> class_objs (set_stack sl cpu cls c) d = class_objs sl d"
proof -
  have l: "cpu < length (stacks sl)" "length (stacks sl ! cpu) = n"
    using assms slab_get [OF assms(1-3)] by (auto simp: slab_inv_def)
  have row: "\<forall>c\<in>set (stacks sl ! cpu). cstack_ok c"
    using assms(1) l(1) by (auto simp: slab_inv_def)
  show "put_stack sl cpu cls c = Some (set_stack sl cpu cls c)"
    using l assms(3) by (simp add: put_stack_def set_stack_def)
  have "\<forall>x\<in>set ((stacks sl ! cpu)[cls := c]). cstack_ok x"
    using row assms(4) set_update_subset_insert [of "stacks sl ! cpu" cls c] by blast
  then have "\<forall>row\<in>set ((stacks sl)[cpu := (stacks sl ! cpu)[cls := c]]).
      length row = n \<and> (\<forall>c\<in>set row. cstack_ok c)"
    using assms(1) l set_update_subset_insert [of "stacks sl" cpu "(stacks sl ! cpu)[cls := c]"]
    unfolding slab_inv_def by (metis insert_iff length_list_update subsetD)
  then show "slab_inv n (set_stack sl cpu cls c)"
    using assms(1) by (simp add: slab_inv_def set_stack_def)
  show "class_objs (set_stack sl cpu cls c) cls + mset (contents (stacks sl ! cpu ! cls)) =
       class_objs sl cls + mset (contents c)"
    using sum_list_upd [of cpu "stacks sl" "\<lambda>row. mset (contents (row ! cls))" "(stacks sl ! cpu)[cls := c]"]
      l assms(3) by (simp add: class_objs_def set_stack_def)
  show "class_objs (set_stack sl cpu cls c) d = class_objs sl d" if "d \<noteq> cls"
    using sum_list_upd [of cpu "stacks sl" "\<lambda>row. mset (contents (row ! d))" "(stacks sl ! cpu)[cls := c]"]
      l that by (simp add: class_objs_def set_stack_def)
qed

text \<open>The two state changes of a stack.\<close>

lemma contents_pop:
  assumes "cstack_ok c" "0 < current c"
  shows "current c - 1 < length (slots c)" "slots c ! (current c - 1) \<noteq> 0"
    "cstack_ok (c\<lparr>current := current c - 1\<rparr>)"
    "contents c = contents (c\<lparr>current := current c - 1\<rparr>) @ [slots c ! (current c - 1)]"
proof -
  show l: "current c - 1 < length (slots c)" using assms by (auto simp: cstack_ok_def)
  show s: "contents c = contents (c\<lparr>current := current c - 1\<rparr>) @ [slots c ! (current c - 1)]"
    using take_Suc_conv_app_nth [OF l] assms(2) by (simp add: contents_def)
  show "slots c ! (current c - 1) \<noteq> 0" "cstack_ok (c\<lparr>current := current c - 1\<rparr>)"
    using assms s by (auto simp: cstack_ok_def)
qed

lemma contents_push:
  assumes "cstack_ok c" "current c < capacity c" "obj \<noteq> 0"
  shows "current c < length (slots c)"
    "cstack_ok (c\<lparr>slots := (slots c)[current c := obj], current := current c + 1\<rparr>)"
    "contents (c\<lparr>slots := (slots c)[current c := obj], current := current c + 1\<rparr>) = contents c @ [obj]"
proof -
  show l: "current c < length (slots c)" using assms by (auto simp: cstack_ok_def)
  show s: "contents (c\<lparr>slots := (slots c)[current c := obj], current := current c + 1\<rparr>) = contents c @ [obj]"
    using l by (simp add: contents_def take_Suc_conv_app_nth)
  show "cstack_ok (c\<lparr>slots := (slots c)[current c := obj], current := current c + 1\<rparr>)"
    using assms s by (auto simp: cstack_ok_def)
qed


text \<open>What a pop and a push do on the CPU they end up on.\<close>

definition pop_at :: "slab \<Rightarrow> nat \<Rightarrow> nat \<Rightarrow> slab \<times> nat fast" where
  "pop_at sl cpu cls =
     (let c = stacks sl ! cpu ! cls in
      if stopped sl ! cpu \<or> current c = 0 then (sl, NeedsSlow)
      else (set_stack sl cpu cls (c\<lparr>current := current c - 1\<rparr>), FOk (slots c ! (current c - 1))))"

definition push_at :: "slab \<Rightarrow> nat \<Rightarrow> nat \<Rightarrow> nat \<Rightarrow> slab \<times> unit fast" where
  "push_at sl cpu cls obj =
     (let c = stacks sl ! cpu ! cls in
      if stopped sl ! cpu \<or> capacity c \<le> current c then (sl, NeedsSlow)
      else (set_stack sl cpu cls (c\<lparr>slots := (slots c)[current c := obj], current := current c + 1\<rparr>), FOk ()))"

lemma pop_locked_at:
  assumes "slab_inv n sl" "bind_ok sl cs" "cls < n"
  shows "pop_locked sl e cs cls = Some (pop_at sl (resolved_cpu sl e cs) cls)"
proof -
  let ?cpu = "resolved_cpu sl e cs"
  have cpu: "?cpu < num_cpus sl" using assms resolved_cpu_less by blast
  note g = slab_get [OF assms(1) cpu assms(3)]
  let ?c = "stacks sl ! ?cpu ! cls"
  show ?thesis
  proof (cases "stopped sl ! ?cpu \<or> current ?c = 0")
    case True
    then show ?thesis using g by (auto simp: pop_locked_def pop_critical_def pop_at_def Let_def)
  next
    case False
    then show ?thesis
      using g contents_pop [of ?c] slab_put(1) [OF assms(1) cpu assms(3), of "?c\<lparr>current := current ?c - 1\<rparr>"]
      by (simp add: pop_locked_def pop_critical_def pop_at_def Let_def)
  qed
qed

lemma push_locked_at:
  assumes "slab_inv n sl" "bind_ok sl cs" "cls < n" "obj \<noteq> 0"
  shows "push_locked sl e cs cls obj = Some (push_at sl (resolved_cpu sl e cs) cls obj)"
proof -
  let ?cpu = "resolved_cpu sl e cs"
  have cpu: "?cpu < num_cpus sl" using assms resolved_cpu_less by blast
  note g = slab_get [OF assms(1) cpu assms(3)]
  let ?c = "stacks sl ! ?cpu ! cls"
  show ?thesis
  proof (cases "stopped sl ! ?cpu \<or> capacity ?c \<le> current ?c")
    case True
    then show ?thesis using g by (auto simp: push_locked_def push_critical_def push_at_def Let_def)
  next
    case False
    then show ?thesis
      using g contents_push [of ?c obj] assms(4) slab_put(1) [OF assms(1) cpu assms(3),
        of "?c\<lparr>slots := (slots ?c)[current ?c := obj], current := current ?c + 1\<rparr>"]
      by (simp add: push_locked_def push_critical_def push_at_def Let_def)
  qed
qed

lemma asm_pop_at:
  assumes "slab_inv n sl" "cls < n"
  shows "(asm_pop sl e cls = Some (sl, RFallback)) \<or>
    (\<exists>cpu<num_cpus sl. asm_pop sl e cls = (case pop_at sl cpu cls of
       (sl', FOk p) \<Rightarrow> Some (sl', ROk p cpu) | (sl', NeedsSlow) \<Rightarrow> Some (sl', RNeedsSlow)))"
proof (cases "rseq_cpu e")
  case (Some cpu)
  show ?thesis
  proof (cases "cpu < num_cpus sl \<and> \<not> stopped sl ! cpu")
    case True
    note g = slab_get [OF assms(1) conjunct1 [OF True] assms(2)]
    let ?c = "stacks sl ! cpu ! cls"
    have "asm_pop sl e cls = (case pop_at sl cpu cls of
       (sl', FOk p) \<Rightarrow> Some (sl', ROk p cpu) | (sl', NeedsSlow) \<Rightarrow> Some (sl', RNeedsSlow))"
      using Some True g contents_pop [of ?c]
        slab_put(1) [OF assms(1) conjunct1 [OF True] assms(2), of "?c\<lparr>current := current ?c - 1\<rparr>"]
      by (simp add: asm_pop_def pop_at_def Let_def)
    then show ?thesis using True by blast
  next
    case False
    then show ?thesis using Some slab_get [OF assms(1) _ assms(2)] by (auto simp: asm_pop_def)
  qed
qed (simp add: asm_pop_def)

lemma asm_push_at:
  assumes "slab_inv n sl" "cls < n" "obj \<noteq> 0"
  shows "(asm_push sl e cls obj = Some (sl, RFallback)) \<or>
    (\<exists>cpu<num_cpus sl. asm_push sl e cls obj = (case push_at sl cpu cls obj of
       (sl', FOk _) \<Rightarrow> Some (sl', ROk 0 cpu) | (sl', NeedsSlow) \<Rightarrow> Some (sl', RNeedsSlow)))"
proof (cases "rseq_cpu e")
  case (Some cpu)
  show ?thesis
  proof (cases "cpu < num_cpus sl \<and> \<not> stopped sl ! cpu")
    case True
    note g = slab_get [OF assms(1) conjunct1 [OF True] assms(2)]
    let ?c = "stacks sl ! cpu ! cls"
    have "asm_push sl e cls obj = (case push_at sl cpu cls obj of
       (sl', FOk _) \<Rightarrow> Some (sl', ROk 0 cpu) | (sl', NeedsSlow) \<Rightarrow> Some (sl', RNeedsSlow))"
      using Some True g contents_push [of ?c obj] assms(3) slab_put(1) [OF assms(1) conjunct1 [OF True] assms(2),
        of "?c\<lparr>slots := (slots ?c)[current ?c := obj], current := current ?c + 1\<rparr>"]
      by (simp add: asm_push_def push_at_def Let_def)
    then show ?thesis using True by blast
  next
    case False
    then show ?thesis using Some slab_get [OF assms(1) _ assms(2)] by (auto simp: asm_push_def)
  qed
qed (simp add: asm_push_def)

lemma pop_at_effect:
  assumes "slab_inv n sl" "cpu < num_cpus sl" "cls < n" "pop_at sl cpu cls = (sl', r)"
  shows "slab_inv n sl'" "num_cpus sl' = num_cpus sl" "stopped sl' = stopped sl"
    "r = NeedsSlow \<Longrightarrow> sl' = sl"
    "r = FOk p \<Longrightarrow> p \<noteq> 0 \<and> class_objs sl cls = add_mset p (class_objs sl' cls) \<and>
       (\<forall>d. d \<noteq> cls \<longrightarrow> class_objs sl' d = class_objs sl d)"
proof -
  let ?c = "stacks sl ! cpu ! cls"
  let ?c' = "?c\<lparr>current := current ?c - 1\<rparr>"
  have ok: "cstack_ok ?c" using slab_get [OF assms(1-3)] by simp
  have "slab_inv n sl' \<and> num_cpus sl' = num_cpus sl \<and> stopped sl' = stopped sl \<and> (r = NeedsSlow \<longrightarrow> sl' = sl) \<and>
    (r = FOk p \<longrightarrow> p \<noteq> 0 \<and> class_objs sl cls = add_mset p (class_objs sl' cls) \<and>
       (\<forall>d. d \<noteq> cls \<longrightarrow> class_objs sl' d = class_objs sl d))"
  proof (cases "stopped sl ! cpu \<or> current ?c = 0")
    case True
    then show ?thesis using assms by (auto simp: pop_at_def Let_def)
  next
    case False
    note c = contents_pop [OF ok]
    have r: "sl' = set_stack sl cpu cls ?c'" "r = FOk (slots ?c ! (current ?c - 1))"
      using False assms(4) by (auto simp: pop_at_def Let_def)
    have c': "cstack_ok ?c'" using c(3) False by blast
    show ?thesis
      using slab_put [OF assms(1-3) c'] c(2,4) False r by (auto simp: set_stack_def)
  qed
  then show "slab_inv n sl'" "num_cpus sl' = num_cpus sl" "stopped sl' = stopped sl"
    "r = NeedsSlow \<Longrightarrow> sl' = sl"
    "r = FOk p \<Longrightarrow> p \<noteq> 0 \<and> class_objs sl cls = add_mset p (class_objs sl' cls) \<and>
       (\<forall>d. d \<noteq> cls \<longrightarrow> class_objs sl' d = class_objs sl d)" by simp_all
qed

lemma push_at_effect:
  assumes "slab_inv n sl" "cpu < num_cpus sl" "cls < n" "obj \<noteq> 0" "push_at sl cpu cls obj = (sl', r)"
  shows "slab_inv n sl'" "num_cpus sl' = num_cpus sl" "stopped sl' = stopped sl"
    "r = NeedsSlow \<Longrightarrow> sl' = sl"
    "r = FOk u \<Longrightarrow> class_objs sl' cls = add_mset obj (class_objs sl cls) \<and>
       (\<forall>d. d \<noteq> cls \<longrightarrow> class_objs sl' d = class_objs sl d)"
proof -
  let ?c = "stacks sl ! cpu ! cls"
  let ?c' = "?c\<lparr>slots := (slots ?c)[current ?c := obj], current := current ?c + 1\<rparr>"
  have ok: "cstack_ok ?c" using slab_get [OF assms(1-3)] by simp
  have "slab_inv n sl' \<and> num_cpus sl' = num_cpus sl \<and> stopped sl' = stopped sl \<and> (r = NeedsSlow \<longrightarrow> sl' = sl) \<and>
    (r = FOk u \<longrightarrow> class_objs sl' cls = add_mset obj (class_objs sl cls) \<and>
       (\<forall>d. d \<noteq> cls \<longrightarrow> class_objs sl' d = class_objs sl d))"
  proof (cases "stopped sl ! cpu \<or> capacity ?c \<le> current ?c")
    case True
    then show ?thesis using assms by (auto simp: push_at_def Let_def)
  next
    case False
    note c = contents_push [OF ok _ assms(4)]
    have r: "sl' = set_stack sl cpu cls ?c'" "r = FOk ()"
      using False assms(5) by (auto simp: push_at_def Let_def)
    have c': "cstack_ok ?c'" using c(2) False by simp
    show ?thesis
      using slab_put [OF assms(1-3) c'] c(3) False r by (auto simp: set_stack_def)
  qed
  then show "slab_inv n sl'" "num_cpus sl' = num_cpus sl" "stopped sl' = stopped sl"
    "r = NeedsSlow \<Longrightarrow> sl' = sl"
    "r = FOk u \<Longrightarrow> class_objs sl' cls = add_mset obj (class_objs sl cls) \<and>
       (\<forall>d. d \<noteq> cls \<longrightarrow> class_objs sl' d = class_objs sl d)" by simp_all
qed

lemma pop_cases:
  assumes "slab_inv n sl" "bind_ok sl cs" "cls < n"
  shows "\<exists>cpu<num_cpus sl. pop sl e cs cls = Some (pop_at sl cpu cls)"
proof -
  have fb: "asm_pop sl e cls = Some (sl, RFallback) \<Longrightarrow> ?thesis"
    using pop_locked_at [OF assms, of e] resolved_cpu_less [OF assms(1,2), of e] by (auto simp: pop_def)
  show ?thesis
  proof (cases "asm_pop sl e cls = Some (sl, RFallback)")
    case False
    then obtain cpu where c: "cpu < num_cpus sl" "asm_pop sl e cls = (case pop_at sl cpu cls of
       (sl', FOk p) \<Rightarrow> Some (sl', ROk p cpu) | (sl', NeedsSlow) \<Rightarrow> Some (sl', RNeedsSlow))"
      using asm_pop_at [OF assms(1,3), of e] by blast
    obtain sl' r where r: "pop_at sl cpu cls = (sl', r)" by (cases "pop_at sl cpu cls")
    have "pop sl e cs cls = Some (pop_at sl cpu cls)"
      using c(2) r pop_at_effect(5) [OF assms(1) c(1) assms(3) r] by (cases r) (auto simp: pop_def)
    then show ?thesis using c(1) by blast
  qed (rule fb)
qed

lemma pop_on_cases:
  assumes "slab_inv n sl" "bind_ok sl cs" "cls < n"
  shows "\<exists>cpu<num_cpus sl. \<exists>a<num_cpus sl. pop_on sl e cs cls =
    Some (fst (pop_at sl cpu cls), snd (pop_at sl cpu cls), a)"
proof (cases "asm_pop sl e cls = Some (sl, RFallback)")
  case True
  let ?cpu = "resolved_cpu sl e cs"
  have l: "?cpu < num_cpus sl" using resolved_cpu_less [OF assms(1,2)] .
  obtain sl' r where r: "pop_at sl ?cpu cls = (sl', r)" by (cases "pop_at sl ?cpu cls")
  have "resolved_cpu sl' e cs = ?cpu"
    using pop_at_effect(2) [OF assms(1) l assms(3) r] resolved_cpu_cong by blast
  then show ?thesis
    using True pop_locked_at [OF assms, of e] r l by (auto simp: pop_on_def)
next
  case False
  then obtain cpu where c: "cpu < num_cpus sl" "asm_pop sl e cls = (case pop_at sl cpu cls of
     (sl', FOk p) \<Rightarrow> Some (sl', ROk p cpu) | (sl', NeedsSlow) \<Rightarrow> Some (sl', RNeedsSlow))"
    using asm_pop_at [OF assms(1,3), of e] by blast
  obtain sl' r where r: "pop_at sl cpu cls = (sl', r)" by (cases "pop_at sl cpu cls")
  note eff = pop_at_effect [OF assms(1) c(1) assms(3) r]
  have l: "resolved_cpu sl' e cs < num_cpus sl"
    using resolved_cpu_less [OF assms(1,2), of e] resolved_cpu_cong [OF eff(2)] by simp
  show ?thesis
    using c r eff(5) l by (cases r) (auto simp: pop_on_def intro!: exI [of _ cpu])
qed

lemma push_cases:
  assumes "slab_inv n sl" "bind_ok sl cs" "cls < n" "obj \<noteq> 0"
  shows "\<exists>cpu<num_cpus sl. push sl e cs cls obj = Some (push_at sl cpu cls obj)"
proof (cases "asm_push sl e cls obj = Some (sl, RFallback)")
  case True
  then show ?thesis
    using push_locked_at [OF assms, of e] resolved_cpu_less [OF assms(1,2), of e] by (auto simp: push_def)
next
  case False
  then obtain cpu where c: "cpu < num_cpus sl" "asm_push sl e cls obj = (case push_at sl cpu cls obj of
     (sl', FOk _) \<Rightarrow> Some (sl', ROk 0 cpu) | (sl', NeedsSlow) \<Rightarrow> Some (sl', RNeedsSlow))"
    using asm_push_at [OF assms(1,3,4), of e] by blast
  obtain sl' r where r: "push_at sl cpu cls obj = (sl', r)" by (cases "push_at sl cpu cls obj")
  have "push sl e cs cls obj = Some (push_at sl cpu cls obj)"
    using c(2) r by (cases r) (auto simp: push_def)
  then show ?thesis using c(1) by blast
qed


subsection \<open>The contract of an object cache\<close>

text \<open>
  \<open>object_cache\<close> is what the sub-heap relies on: a pop removes one non-null object or changes
  nothing, a push adds the object or changes nothing. \<open>drain_with\<close> is the loop that pops up to
  \<open>k\<close> objects and passes each to a sink; \<open>stash_all\<close> pushes a list of objects and passes the
  rejected ones to the sink. Both are the loops of \<open>drain\<close> and \<open>refill\<close>.
\<close>

primrec drain_with ::
  "('s \<Rightarrow> ('s \<times> nat fast) rust) \<Rightarrow> (nat \<Rightarrow> 's \<Rightarrow> 's rust) \<Rightarrow> nat \<Rightarrow> 's \<Rightarrow> 's rust" where
  "drain_with popf sink 0 s = Some s"
| "drain_with popf sink (Suc k) s = do {
     (s1, r) \<leftarrow> popf s;
     case r of
       FOk p \<Rightarrow> do { s2 \<leftarrow> sink p s1; drain_with popf sink k s2 }
     | NeedsSlow \<Rightarrow> Some s1
   }"

primrec stash_all ::
  "(nat \<Rightarrow> 's \<Rightarrow> ('s \<times> unit fast) rust) \<Rightarrow> (nat \<Rightarrow> 's \<Rightarrow> 's rust) \<Rightarrow> nat list \<Rightarrow> 's \<Rightarrow> 's rust" where
  "stash_all pushf sink [] s = Some s"
| "stash_all pushf sink (p # ps) s = do {
     (s1, r) \<leftarrow> pushf p s;
     s2 \<leftarrow> (case r of FOk _ \<Rightarrow> Some s1 | NeedsSlow \<Rightarrow> sink p s1);
     stash_all pushf sink ps s2
   }"

locale object_cache =
  fixes oc_pop :: "'s \<Rightarrow> ('s \<times> nat fast) rust"
    and oc_push :: "nat \<Rightarrow> 's \<Rightarrow> ('s \<times> unit fast) rust"
    and oc_inv :: "'s \<Rightarrow> bool"
    and oc_objs :: "'s \<Rightarrow> nat multiset"
    and oc_obj :: "'s \<Rightarrow> nat \<Rightarrow> bool"
  assumes oc_pop_law: "oc_inv s \<Longrightarrow> \<exists>s' r. oc_pop s = Some (s', r) \<and> oc_inv s' \<and> oc_obj s' = oc_obj s \<and>
      (case r of NeedsSlow \<Rightarrow> oc_objs s' = oc_objs s
       | FOk p \<Rightarrow> oc_obj s p \<and> oc_objs s = add_mset p (oc_objs s'))"
    and oc_push_law: "oc_inv s \<Longrightarrow> oc_obj s p \<Longrightarrow> p \<notin># oc_objs s \<Longrightarrow>
      \<exists>s' r. oc_push p s = Some (s', r) \<and> oc_inv s' \<and> oc_obj s' = oc_obj s \<and>
      (case r of NeedsSlow \<Rightarrow> oc_objs s' = oc_objs s | FOk _ \<Rightarrow> oc_objs s' = add_mset p (oc_objs s))"

text \<open>An object store can in addition take an object unconditionally.\<close>

locale object_store = object_cache oc_pop oc_push oc_inv oc_objs oc_obj
  for oc_pop :: "'s \<Rightarrow> ('s \<times> nat fast) rust"
    and oc_push :: "nat \<Rightarrow> 's \<Rightarrow> ('s \<times> unit fast) rust"
    and oc_inv :: "'s \<Rightarrow> bool"
    and oc_objs :: "'s \<Rightarrow> nat multiset"
    and oc_obj :: "'s \<Rightarrow> nat \<Rightarrow> bool" +
  fixes oc_sink :: "nat \<Rightarrow> 's \<Rightarrow> 's rust"
  assumes oc_sink_law: "oc_inv s \<Longrightarrow> oc_obj s p \<Longrightarrow> p \<notin># oc_objs s \<Longrightarrow>
      \<exists>s'. oc_sink p s = Some s' \<and> oc_inv s' \<and> oc_obj s' = oc_obj s \<and> oc_objs s' = add_mset p (oc_objs s)"
    and oc_once: "oc_inv s \<Longrightarrow> count (oc_objs s) p \<le> 1"
begin

lemma drain_keeps:
  "oc_inv s \<Longrightarrow> \<exists>s'. drain_with oc_pop oc_sink k s = Some s' \<and> oc_inv s' \<and> oc_obj s' = oc_obj s \<and>
     oc_objs s' = oc_objs s"
proof (induction k arbitrary: s)
  case (Suc k)
  obtain s1 r where r: "oc_pop s = Some (s1, r)" "oc_inv s1" "oc_obj s1 = oc_obj s"
    "case r of NeedsSlow \<Rightarrow> oc_objs s1 = oc_objs s | FOk p \<Rightarrow> oc_obj s p \<and> oc_objs s = add_mset p (oc_objs s1)"
    using oc_pop_law [OF Suc.prems] by blast
  show ?case
  proof (cases r)
    case (FOk p)
    then have p: "oc_obj s p" "oc_objs s = add_mset p (oc_objs s1)" using r by simp_all
    then have "p \<notin># oc_objs s1" using oc_once [OF Suc.prems, of p] by (simp add: not_in_iff)
    then obtain s2 where s2: "oc_sink p s1 = Some s2" "oc_inv s2" "oc_obj s2 = oc_obj s" "oc_objs s2 = oc_objs s"
      using oc_sink_law [OF r(2), of p] p r(3) by auto
    then show ?thesis using Suc.IH [OF s2(2)] r(1) FOk by auto
  qed (use r in auto)
qed simp

lemma stash_adds:
  "oc_inv s \<Longrightarrow> \<forall>p\<in>set ps. oc_obj s p \<and> p \<notin># oc_objs s \<Longrightarrow> distinct ps \<Longrightarrow>
   \<exists>s'. stash_all oc_push oc_sink ps s = Some s' \<and> oc_inv s' \<and> oc_obj s' = oc_obj s \<and>
     oc_objs s' = mset ps + oc_objs s"
proof (induction ps arbitrary: s)
  case (Cons p ps)
  have p: "oc_obj s p" "p \<notin># oc_objs s" using Cons.prems(2) by auto
  obtain s1 r where r: "oc_push p s = Some (s1, r)" "oc_inv s1" "oc_obj s1 = oc_obj s"
    "case r of NeedsSlow \<Rightarrow> oc_objs s1 = oc_objs s | FOk _ \<Rightarrow> oc_objs s1 = add_mset p (oc_objs s)"
    using oc_push_law [OF Cons.prems(1) p] by blast
  have "\<exists>s2. (case r of FOk _ \<Rightarrow> Some s1 | NeedsSlow \<Rightarrow> oc_sink p s1) = Some s2 \<and> oc_inv s2 \<and>
    oc_obj s2 = oc_obj s \<and> oc_objs s2 = add_mset p (oc_objs s)"
    using r p oc_sink_law [OF r(2), of p] by (cases r) auto
  then obtain s2 where s2: "(case r of FOk _ \<Rightarrow> Some s1 | NeedsSlow \<Rightarrow> oc_sink p s1) = Some s2" "oc_inv s2"
    "oc_obj s2 = oc_obj s" "oc_objs s2 = add_mset p (oc_objs s)" by blast
  obtain s' where "stash_all oc_push oc_sink ps s2 = Some s'" "oc_inv s'" "oc_obj s' = oc_obj s"
    "oc_objs s' = mset ps + oc_objs s2"
    using Cons.IH [OF s2(2)] Cons.prems s2(3,4) by auto
  then show ?case using r(1) s2(1,4) by simp
qed simp

end

interpretation slab_cache: object_cache "\<lambda>sl. pop sl e cs cls" "\<lambda>p sl. push sl e cs cls p"
  "\<lambda>sl. slab_inv n sl \<and> bind_ok sl cs \<and> cls < n" "\<lambda>sl. class_objs sl cls" "\<lambda>_ p. p \<noteq> 0" for e cs cls n
proof
  fix sl :: slab and p :: nat
  assume i: "slab_inv n sl \<and> bind_ok sl cs \<and> cls < n"
  then have a: "slab_inv n sl" "bind_ok sl cs" "cls < n" by simp_all
  obtain cpu where c: "cpu < num_cpus sl" "pop sl e cs cls = Some (pop_at sl cpu cls)"
    using pop_cases [OF a] by blast
  obtain sl' r where r: "pop_at sl cpu cls = (sl', r)" by (cases "pop_at sl cpu cls")
  note eff = pop_at_effect [OF a(1) c(1) a(3) r]
  show "\<exists>s' r. pop sl e cs cls = Some (s', r) \<and> (slab_inv n s' \<and> bind_ok s' cs \<and> cls < n) \<and> (\<lambda>p. p \<noteq> 0) = (\<lambda>p. p \<noteq> 0) \<and>
      (case r of NeedsSlow \<Rightarrow> class_objs s' cls = class_objs sl cls
       | FOk p \<Rightarrow> p \<noteq> 0 \<and> class_objs sl cls = add_mset p (class_objs s' cls))"
    using c(2) r eff a by (cases r) (auto simp: bind_ok_def)
  assume p: "p \<noteq> 0"
  obtain cpu where c: "cpu < num_cpus sl" "push sl e cs cls p = Some (push_at sl cpu cls p)"
    using push_cases [OF a p] by blast
  obtain sl' r where r: "push_at sl cpu cls p = (sl', r)" by (cases "push_at sl cpu cls p")
  note eff = push_at_effect [OF a(1) c(1) a(3) p r]
  show "\<exists>s' r. push sl e cs cls p = Some (s', r) \<and> (slab_inv n s' \<and> bind_ok s' cs \<and> cls < n) \<and> (\<lambda>p. p \<noteq> 0) = (\<lambda>p. p \<noteq> 0) \<and>
      (case r of NeedsSlow \<Rightarrow> class_objs s' cls = class_objs sl cls
       | FOk _ \<Rightarrow> class_objs s' cls = add_mset p (class_objs sl cls))"
    using c(2) r eff a by (cases r) (auto simp: bind_ok_def)
qed


subsection \<open>Properties\<close>

text \<open>A small slab: two CPUs, one class, capacity 2.\<close>

definition tiny_slab :: slab where
  "tiny_slab = \<lparr> num_cpus = 2, stacks = replicate 2 [\<lparr> current = 0, capacity = 2, slots = [0, 0] \<rparr>],
     stopped = [False, False] \<rparr>"

lemma tiny_slab_inv: "slab_inv 1 tiny_slab"
  by (simp add: tiny_slab_def slab_inv_def cstack_ok_def contents_def U32_MAX_def)

text \<open>
  C40. Per-CPU stacks neither lose nor duplicate objects, whichever path (restartable sequence or
  lock) and whichever CPU an operation ends up on: a pop either returns a non-null object and
  removes exactly one copy of it from the objects cached for its class, or leaves the slab
  unchanged; a push of a non-null object either adds exactly that object or leaves the slab
  unchanged. Both keep the slab invariant and never access a slot out of range.
\<close>

theorem slab_ops_conserve:
  assumes "slab_inv n sl" "bind_ok sl cs" "cls < n" "obj \<noteq> 0"
  shows "(\<exists>sl' r. pop sl e cs cls = Some (sl', r) \<and> slab_inv n sl' \<and>
      (case r of NeedsSlow \<Rightarrow> sl' = sl
       | FOk p \<Rightarrow> p \<noteq> 0 \<and> class_objs sl cls = add_mset p (class_objs sl' cls) \<and>
           (\<forall>d. d \<noteq> cls \<longrightarrow> class_objs sl' d = class_objs sl d))) \<and>
    (\<exists>sl' r. push sl e cs cls obj = Some (sl', r) \<and> slab_inv n sl' \<and>
      (case r of NeedsSlow \<Rightarrow> sl' = sl
       | FOk _ \<Rightarrow> class_objs sl' cls = add_mset obj (class_objs sl cls) \<and>
           (\<forall>d. d \<noteq> cls \<longrightarrow> class_objs sl' d = class_objs sl d)))"
proof
  obtain cpu where c: "cpu < num_cpus sl" "pop sl e cs cls = Some (pop_at sl cpu cls)"
    using pop_cases [OF assms(1-3)] by blast
  obtain sl' r where r: "pop_at sl cpu cls = (sl', r)" by (cases "pop_at sl cpu cls")
  show "\<exists>sl' r. pop sl e cs cls = Some (sl', r) \<and> slab_inv n sl' \<and>
      (case r of NeedsSlow \<Rightarrow> sl' = sl
       | FOk p \<Rightarrow> p \<noteq> 0 \<and> class_objs sl cls = add_mset p (class_objs sl' cls) \<and>
           (\<forall>d. d \<noteq> cls \<longrightarrow> class_objs sl' d = class_objs sl d))"
    using c(2) r pop_at_effect [OF assms(1) c(1) assms(3) r] by (cases r) auto
next
  obtain cpu where c: "cpu < num_cpus sl" "push sl e cs cls obj = Some (push_at sl cpu cls obj)"
    using push_cases [OF assms] by blast
  obtain sl' r where r: "push_at sl cpu cls obj = (sl', r)" by (cases "push_at sl cpu cls obj")
  show "\<exists>sl' r. push sl e cs cls obj = Some (sl', r) \<and> slab_inv n sl' \<and>
      (case r of NeedsSlow \<Rightarrow> sl' = sl
       | FOk _ \<Rightarrow> class_objs sl' cls = add_mset obj (class_objs sl cls) \<and>
           (\<forall>d. d \<noteq> cls \<longrightarrow> class_objs sl' d = class_objs sl d))"
    using c(2) r push_at_effect [OF assms(1) c(1) assms(3,4) r] by (cases r) auto
qed

theorem slab_ops_conserve_witness:
  "\<exists>sl' r. push tiny_slab \<lparr> current_cpu = None, anchor = 64, rseq_cpu = None \<rparr> 0 0 4096 = Some (sl', r) \<and>
     slab_inv 1 sl'"
  using slab_ops_conserve [OF tiny_slab_inv, of 0 0 4096 "\<lparr> current_cpu = None, anchor = 64, rseq_cpu = None \<rparr>"]
  by (auto simp: bind_ok_def tiny_slab_def)

text \<open>
  Last in, first out: an object pushed by the restartable path on a CPU is what the next pop
  on that CPU returns, and that pop restores the contents of every stack.
\<close>

theorem slab_lifo:
  assumes "slab_inv n sl" "cls < n" "obj \<noteq> 0" "rseq_cpu e = Some cpu" "rseq_cpu e' = Some cpu"
    and "push sl e cs cls obj = Some (sl1, FOk ())" "cpu < num_cpus sl" "\<not> stopped sl ! cpu"
  shows "\<exists>sl2. pop sl1 e' cs' cls = Some (sl2, FOk obj) \<and>
    (\<forall>k<num_cpus sl. \<forall>d<n. contents (stacks sl2 ! k ! d) = contents (stacks sl ! k ! d))"
proof -
  let ?c = "stacks sl ! cpu ! cls"
  let ?c1 = "?c\<lparr>slots := (slots ?c)[current ?c := obj], current := current ?c + 1\<rparr>"
  note g = slab_get [OF assms(1,7,2)]
  have l: "cpu < length (stacks sl)" "cls < length (stacks sl ! cpu)" "cpu < length (stopped sl)"
    using assms g by (auto simp: slab_inv_def)
  have cap: "current ?c < capacity ?c"
    using assms(4,6,7,8) g by (auto simp: push_def asm_push_def not_le[symmetric] split: if_splits)
  have ok: "cstack_ok ?c" using g by simp
  have p: "current ?c < length (slots ?c)" "cstack_ok ?c1" "contents ?c1 = contents ?c @ [obj]"
    using contents_push [OF ok cap assms(3)] by simp_all
  have sl1: "sl1 = set_stack sl cpu cls ?c1"
    using assms(4,6,7,8) g cap p(1) slab_put(1) [OF assms(1,7,2) p(2)] by (simp add: push_def asm_push_def)
  have st: "stacks sl1 ! cpu ! cls = ?c1" "num_cpus sl1 = num_cpus sl" "stopped sl1 = stopped sl"
    using sl1 l by (simp_all add: set_stack_def)
  have i1: "slab_inv n sl1" using sl1 slab_put(2) [OF assms(1,7,2) p(2)] by simp
  let ?c2 = "?c1\<lparr>current := current ?c1 - 1\<rparr>"
  have o: "slots ?c1 ! (current ?c1 - 1) = obj" using p(1) by simp
  have pop1: "contents ?c1 = contents ?c2 @ [slots ?c1 ! (current ?c1 - 1)]" "cstack_ok ?c2"
    using contents_pop [OF p(2)] by simp_all
  have c2: "contents ?c2 = contents ?c" using pop1(1) p(3) o by simp
  have "pop sl1 e' cs' cls = Some (set_stack sl1 cpu cls ?c2, FOk obj)"
    using assms(3,5,7,8) st slab_get [OF i1, of cpu cls] slab_put(1) [OF i1 _ assms(2) pop1(2), of cpu] o p(1) assms(2)
    by (simp add: pop_def asm_pop_def)
  moreover have "contents (stacks (set_stack sl1 cpu cls ?c2) ! k ! d) = contents (stacks sl ! k ! d)" for k d
    using c2 sl1 l by (cases "k = cpu"; cases "d = cls") (simp_all add: set_stack_def)
  ultimately show ?thesis by blast
qed

theorem slab_lifo_witness:
  "\<exists>sl1 sl2. push tiny_slab \<lparr> current_cpu = None, anchor = 0, rseq_cpu = Some 1 \<rparr> 0 0 4096 = Some (sl1, FOk ()) \<and>
     pop sl1 \<lparr> current_cpu = None, anchor = 0, rseq_cpu = Some 1 \<rparr> 0 0 = Some (sl2, FOk 4096)"
proof -
  let ?e = "\<lparr> current_cpu = None, anchor = 0, rseq_cpu = Some 1 \<rparr>"
  obtain sl1 where p: "push tiny_slab ?e 0 0 4096 = Some (sl1, FOk ())"
    by (simp add: tiny_slab_def push_def asm_push_def get_stack_def put_stack_def)
  show ?thesis
    using slab_lifo [OF tiny_slab_inv _ _ _ _ p, of 1 ?e 0] p by (auto simp: tiny_slab_def)
qed

text \<open>
  The seize protocol: while the stop flag of a CPU is set, no pop and no push, on whatever
  path, changes any stack of that CPU, and the flags themselves are untouched.
\<close>

theorem slab_seized_untouched:
  assumes "slab_inv n sl" "bind_ok sl cs" "cls < n" "obj \<noteq> 0" "k < num_cpus sl" "stopped sl ! k"
  shows "\<exists>sl1 r1 sl2 r2. pop sl e cs cls = Some (sl1, r1) \<and> push sl e cs cls obj = Some (sl2, r2) \<and>
    stacks sl1 ! k = stacks sl ! k \<and> stacks sl2 ! k = stacks sl ! k \<and>
    stopped sl1 = stopped sl \<and> stopped sl2 = stopped sl"
proof -
  obtain c where c: "c < num_cpus sl" "pop sl e cs cls = Some (pop_at sl c cls)"
    using pop_cases [OF assms(1-3)] by blast
  obtain d where d: "d < num_cpus sl" "push sl e cs cls obj = Some (push_at sl d cls obj)"
    using push_cases [OF assms(1-4)] by blast
  have "stacks (fst (pop_at sl c cls)) ! k = stacks sl ! k" "stopped (fst (pop_at sl c cls)) = stopped sl"
    using assms(6) by (cases "c = k"; simp add: pop_at_def Let_def set_stack_def)+
  moreover have "stacks (fst (push_at sl d cls obj)) ! k = stacks sl ! k"
    "stopped (fst (push_at sl d cls obj)) = stopped sl"
    using assms(6) by (cases "d = k"; simp add: push_at_def Let_def set_stack_def)+
  ultimately show ?thesis using c(2) d(2) by (metis prod.collapse)
qed

theorem slab_seized_untouched_witness:
  "\<exists>sl. set_stopped tiny_slab 1 True = Some sl \<and>
     (\<exists>sl1 r1. pop sl \<lparr> current_cpu = Some 1, anchor = 0, rseq_cpu = None \<rparr> 1 0 = Some (sl1, r1) \<and>
        stacks sl1 ! 1 = stacks sl ! 1)"
proof -
  let ?sl = "tiny_slab\<lparr>stopped := [False, True]\<rparr>"
  have s: "set_stopped tiny_slab 1 True = Some ?sl"
    by (simp add: set_stopped_def stop_index_def tiny_slab_def)
  have i: "slab_inv 1 ?sl" using tiny_slab_inv by (simp add: slab_inv_def tiny_slab_def)
  have "\<exists>sl1 r1. pop ?sl \<lparr> current_cpu = Some 1, anchor = 0, rseq_cpu = None \<rparr> 1 0 = Some (sl1, r1) \<and>
      stacks sl1 ! 1 = stacks ?sl ! 1"
    using slab_seized_untouched [OF i, of 1 0 8 1 "\<lparr> current_cpu = Some 1, anchor = 0, rseq_cpu = None \<rparr>"]
    by (auto simp: bind_ok_def tiny_slab_def)
  then show ?thesis using s by blast
qed

end
