(* ===== verification/Sub_Heap.thy ===== *)
theory Sub_Heap
  imports Size_Class Span_Pool Cpu_Slab
begin

text \<open>
  The sub-heap (\<^verbatim>\<open>toccata-core/src/subheap.rs\<close>): the bump arena, the live counters, the large
  allocator, the central lists sharded by home, and the allocation and release paths that
  connect them with the per-CPU slab, the span bitmaps, the span table and the free-run index.

  The state is the record \<open>sub_heap\<close>. What an operation observes of its thread and of the other
  threads is the record \<open>ctx\<close>: its shard id and, for every step of the state's \<open>clock\<close>, the
  \<open>env\<close> of a slab operation and the outcome of the two \<open>try_lock\<close> calls; its flag \<open>debug_build\<close> says
  whether the build checks the debug assertion of \<open>dealloc_large\<close>. Operations under one lock are
  atomic, and so is one call of \<open>add_local\<close> (its loads and stores are also given apart). Walks along an active list carry a fuel of one more than the number of spans;
  that this is enough on every list without a cycle is proved with the operations.
\<close>

subsection \<open>State\<close>

record central_list =
  cl_head :: nat
  reuse_hint :: nat

record bump_arena =
  cursor :: nat
  ar_end :: nat
  ar_base :: nat

record cpu_counter =
  local_bytes :: u64
  local_objs :: u64
  remote_bytes :: u64
  remote_objs :: u64

record large_allocator =
  la_pool :: span_pool
  run_spans :: "nat list"
  arena_base :: nat

record sub_heap =
  sh_slab :: slab
  central_lists :: "central_list list"
  span_bm :: span_bitmaps
  num_shards :: nat
  arena :: bump_arena
  span_tab :: span_table
  large :: large_allocator
  budget_bytes :: nat
  counters :: "cpu_counter list"
  clock :: nat

record ctx =
  shard_id :: nat
  env_at :: "nat \<Rightarrow> env"
  pool_busy :: "nat \<Rightarrow> bool"
  cell_busy :: "nat \<Rightarrow> bool"
  debug_build :: bool

definition LARGE_CLASS :: nat where
  "LARGE_CLASS = 2 ^ 16 - 2"

subsection \<open>Bump arena\<close>

definition carve_spans ::
  "bump_arena \<Rightarrow> nat \<Rightarrow> nat \<Rightarrow> nat \<Rightarrow> span_table \<Rightarrow> (bump_arena \<times> span_table \<times> nat \<times> nat) rust" where
  "carve_spans ar n cls home t = do {
     let start = cursor ar;
     let avail = (ar_end ar - start) div SPAN_BYTES;
     if avail = 0 then Some (ar, t, start, start)
     else do {
       let run_end = start + min n avail * SPAN_BYTES;
       t' \<leftarrow> assign_range t start (run_end - start) cls home;
       Some (ar\<lparr>cursor := run_end\<rparr>, t', start, run_end)
     }
   }"

definition carved_bytes :: "bump_arena \<Rightarrow> nat \<Rightarrow> nat" where
  "carved_bytes ar budget = cursor ar - sub64 (ar_end ar) budget"

definition carve_run :: "bump_arena \<Rightarrow> nat \<Rightarrow> bump_arena \<times> nat option" where
  "carve_run ar run_bytes =
     (let rel = sub64 (cursor ar) (ar_base ar);
          start = add64 (ar_base ar) (div_ceil rel SPAN_BYTES * SPAN_BYTES);
          run_end = start + run_bytes
      in if 2 ^ 64 \<le> run_end then (ar, None)
         else if ar_end ar < run_end then (ar, None)
         else (ar\<lparr>cursor := run_end\<rparr>, Some start))"

subsection \<open>Counters\<close>

definition counters_new :: "nat \<Rightarrow> cpu_counter list" where
  "counters_new cpus = replicate (max cpus 1)
     \<lparr> local_bytes = 0, local_objs = 0, remote_bytes = 0, remote_objs = 0 \<rparr>"

definition counter_cell :: "cpu_counter list \<Rightarrow> nat \<Rightarrow> nat" where
  "counter_cell cells cpu = min cpu (length cells - 1)"

definition add_local :: "cpu_counter list \<Rightarrow> nat \<Rightarrow> int \<Rightarrow> int \<Rightarrow> cpu_counter list rust" where
  "add_local cells cpu bytes objs = do {
     c \<leftarrow> idx cells (counter_cell cells cpu);
     upd cells (counter_cell cells cpu)
       (c\<lparr>local_bytes := local_bytes c + of_int bytes, local_objs := local_objs c + of_int objs\<rparr>)
   }"

text \<open>
  The loads and stores of \<open>add_local\<close>, which is not atomic: a thread may migrate, and another
  thread on the same CPU may update the cell, between any two of them.
\<close>

definition load_bytes :: "cpu_counter list \<Rightarrow> nat \<Rightarrow> u64 rust" where
  "load_bytes cells cpu = do { c \<leftarrow> idx cells (counter_cell cells cpu); Some (local_bytes c) }"

definition store_bytes :: "cpu_counter list \<Rightarrow> nat \<Rightarrow> u64 \<Rightarrow> cpu_counter list rust" where
  "store_bytes cells cpu b = do {
     c \<leftarrow> idx cells (counter_cell cells cpu);
     upd cells (counter_cell cells cpu) (c\<lparr>local_bytes := b\<rparr>)
   }"

definition load_objs :: "cpu_counter list \<Rightarrow> nat \<Rightarrow> u64 rust" where
  "load_objs cells cpu = do { c \<leftarrow> idx cells (counter_cell cells cpu); Some (local_objs c) }"

definition store_objs :: "cpu_counter list \<Rightarrow> nat \<Rightarrow> u64 \<Rightarrow> cpu_counter list rust" where
  "store_objs cells cpu n = do {
     c \<leftarrow> idx cells (counter_cell cells cpu);
     upd cells (counter_cell cells cpu) (c\<lparr>local_objs := n\<rparr>)
   }"

definition add_remote :: "cpu_counter list \<Rightarrow> nat \<Rightarrow> int \<Rightarrow> int \<Rightarrow> cpu_counter list rust" where
  "add_remote cells cpu bytes objs = do {
     c \<leftarrow> idx cells (counter_cell cells cpu);
     upd cells (counter_cell cells cpu)
       (c\<lparr>remote_bytes := remote_bytes c + of_int bytes, remote_objs := remote_objs c + of_int objs\<rparr>)
   }"

definition total_bytes :: "cpu_counter list \<Rightarrow> nat" where
  "total_bytes cells = nat (max 0 (sint (\<Sum>c\<leftarrow>cells. local_bytes c + remote_bytes c)))"

definition total_objs :: "cpu_counter list \<Rightarrow> nat" where
  "total_objs cells = nat (max 0 (sint (\<Sum>c\<leftarrow>cells. local_objs c + remote_objs c)))"

subsection \<open>Large allocator and class parameters\<close>

definition large_new :: "nat \<Rightarrow> nat \<Rightarrow> large_allocator" where
  "large_new base bytes =
     (let n = max (div_ceil bytes SPAN_BYTES) 1 in
      \<lparr> la_pool = pool_new n, run_spans = replicate n 0, arena_base = base \<rparr>)"

definition span_index :: "large_allocator \<Rightarrow> nat \<Rightarrow> nat" where
  "span_index la ptr = sub64 ptr (arena_base la) div 2 ^ SPAN_BITS"

definition span_ptr :: "large_allocator \<Rightarrow> nat \<Rightarrow> nat" where
  "span_ptr la i = add64 (arena_base la) (i * 2 ^ SPAN_BITS)"

definition batch_for :: "nat \<Rightarrow> nat rust" where
  "batch_for cls = do {
     sz \<leftarrow> size_of_class cls;
     Some (if sz \<le> 128 then 64 else if sz \<le> 512 then 32 else if sz \<le> 2048 then 16
           else if sz \<le> 8192 then 8 else 4)
   }"

definition cap_for_class :: "nat \<Rightarrow> nat \<Rightarrow> nat rust" where
  "cap_for_class cls base = do {
     sz \<leftarrow> size_of_class cls;
     let tier = (if sz \<le> 512 then base else if sz \<le> 4096 then base div 2
                 else if sz \<le> 32768 then base div 4 else 24);
     Some (max (min tier base) 8)
   }"

subsection \<open>Access to the parts\<close>

definition central_index :: "sub_heap \<Rightarrow> nat \<Rightarrow> nat \<Rightarrow> nat rust" where
  "central_index h shard cls =
     (if num_shards h = 0 then None else Some (shard mod num_shards h * NUM_CLASSES + cls))"

definition set_head :: "sub_heap \<Rightarrow> nat \<Rightarrow> nat \<Rightarrow> sub_heap rust" where
  "set_head h i v = do {
     c \<leftarrow> idx (central_lists h) i;
     cs \<leftarrow> upd (central_lists h) i (c\<lparr>cl_head := v\<rparr>);
     Some (h\<lparr>central_lists := cs\<rparr>)
   }"

definition set_hint :: "sub_heap \<Rightarrow> nat \<Rightarrow> nat \<Rightarrow> sub_heap rust" where
  "set_hint h i v = do {
     c \<leftarrow> idx (central_lists h) i;
     cs \<leftarrow> upd (central_lists h) i (c\<lparr>reuse_hint := v\<rparr>);
     Some (h\<lparr>central_lists := cs\<rparr>)
   }"

text \<open>Slab operations of the running thread: each consumes one step of the clock.\<close>

definition sh_pop :: "ctx \<Rightarrow> nat \<Rightarrow> nat \<Rightarrow> sub_heap \<Rightarrow> (sub_heap \<times> nat fast) rust" where
  "sh_pop x cs cls h = do {
     (sl, r) \<leftarrow> pop (sh_slab h) (env_at x (clock h)) cs cls;
     Some (h\<lparr>sh_slab := sl, clock := Suc (clock h)\<rparr>, r)
   }"

definition sh_push :: "ctx \<Rightarrow> nat \<Rightarrow> nat \<Rightarrow> nat \<Rightarrow> sub_heap \<Rightarrow> (sub_heap \<times> unit fast) rust" where
  "sh_push x cs cls p h = do {
     (sl, r) \<leftarrow> push (sh_slab h) (env_at x (clock h)) cs cls p;
     Some (h\<lparr>sh_slab := sl, clock := Suc (clock h)\<rparr>, r)
   }"

definition bound_cpu :: "ctx \<Rightarrow> sub_heap \<Rightarrow> nat \<Rightarrow> nat" where
  "bound_cpu x h cs = resolved_cpu (sh_slab h) (env_at x (clock h)) cs"

definition charge_local :: "sub_heap \<Rightarrow> nat \<Rightarrow> int \<Rightarrow> int \<Rightarrow> sub_heap rust" where
  "charge_local h cpu bytes objs = do {
     cs \<leftarrow> add_local (counters h) cpu bytes objs;
     Some (h\<lparr>counters := cs\<rparr>)
   }"

definition charge_remote :: "sub_heap \<Rightarrow> nat \<Rightarrow> int \<Rightarrow> int \<Rightarrow> sub_heap rust" where
  "charge_remote h cpu bytes objs = do {
     cs \<leftarrow> add_remote (counters h) cpu bytes objs;
     Some (h\<lparr>counters := cs\<rparr>)
   }"

subsection \<open>Central lists: deposit and take\<close>

definition central_deposit :: "nat \<Rightarrow> nat \<Rightarrow> sub_heap \<Rightarrow> sub_heap rust" where
  "central_deposit osz obj h =
     (if osz = 0 then None
      else do {
        let span = span_of (span_bm h) obj;
        let slot = as_u32 (sub64 obj (span_base (span_bm h) span) div osz);
        b \<leftarrow> set_free (span_bm h) span slot;
        Some (h\<lparr>span_bm := b\<rparr>)
      })"

text \<open>The inner loop of \<open>scan_span\<close>: at most \<open>room\<close> bits of \<open>word\<close>, lowest first.\<close>

primrec take_bits :: "nat \<Rightarrow> u64 \<Rightarrow> u64 \<Rightarrow> nat list \<Rightarrow> u64 \<times> nat list" where
  "take_bits 0 word taken acc = (taken, acc)"
| "take_bits (Suc room) word taken acc =
     (if word = 0 then (taken, acc)
      else let b = trailing_zeros word; m = push_bit b 1
           in take_bits room (word AND NOT m) (taken OR m) (acc @ [b]))"

primrec scan_words ::
  "nat \<Rightarrow> nat \<Rightarrow> nat \<Rightarrow> nat list \<Rightarrow> span_bitmaps \<Rightarrow> nat list \<Rightarrow> (span_bitmaps \<times> nat list) rust" where
  "scan_words span len osz [] b out = Some (b, out)"
| "scan_words span len osz (w # ws) b out =
     (if length out = len then Some (b, out)
      else do {
        (b1, word) \<leftarrow> fold_free_word b span w;
        if word = 0 then scan_words span len osz ws b1 out
        else do {
          let (taken, ks) = take_bits (len - length out) word 0 [];
          b2 \<leftarrow> alloc_clear b1 span w taken;
          scan_words span len osz ws b2
            (out @ map (\<lambda>k. add64 (span_base b1 span) ((w * 64 + k) * osz)) ks)
        }
      })"

definition scan_span ::
  "span_bitmaps \<Rightarrow> nat \<Rightarrow> nat \<Rightarrow> nat list \<Rightarrow> nat \<Rightarrow> nat \<Rightarrow> (span_bitmaps \<times> nat list) rust" where
  "scan_span b span len out nwords osz = scan_words span len osz [0..<nwords] b out"

primrec take_walk ::
  "nat \<Rightarrow> nat \<Rightarrow> nat \<Rightarrow> nat \<Rightarrow> nat \<Rightarrow> nat \<Rightarrow> span_bitmaps \<Rightarrow> nat list \<Rightarrow> (span_bitmaps \<times> nat list) rust" where
  "take_walk 0 hint len nwords osz span b out = None"
| "take_walk (Suc fuel) hint len nwords osz span b out =
     (if length out < len \<and> span \<noteq> NO_SPAN then do {
        (b1, out1) \<leftarrow> (if span \<noteq> hint then scan_span b span len out nwords osz else Some (b, out));
        nx \<leftarrow> next_span b1 span;
        take_walk fuel hint len nwords osz nx b1 out1
      } else Some (b, out))"

definition walk_fuel :: "span_bitmaps \<Rightarrow> nat" where
  "walk_fuel b = length (next_active b) + 1"

definition central_take ::
  "sub_heap \<Rightarrow> nat \<Rightarrow> nat \<Rightarrow> nat \<Rightarrow> nat \<Rightarrow> (sub_heap \<times> nat list) rust" where
  "central_take h cell len osz cls =
     (if osz = 0 then None
      else do {
        c \<leftarrow> idx (central_lists h) cell;
        let slots_per_span = max (SPAN_BYTES div osz) 1;
        let nwords = div_ceil slots_per_span 64;
        (b1, out1, hint) \<leftarrow>
          (if slots_per_span \<le> 64 \<and> reuse_hint c \<noteq> NO_SPAN then do {
             l \<leftarrow> lookup (span_tab h) (span_base (span_bm h) (reuse_hint c));
             if (case l of Some (hc, _) \<Rightarrow> hc = cls | None \<Rightarrow> False)
             then do {
               (b, out) \<leftarrow> scan_span (span_bm h) (reuse_hint c) len [] nwords osz;
               Some (b, out, reuse_hint c)
             }
             else Some (span_bm h, [], NO_SPAN)
           }
           else Some (span_bm h, [], NO_SPAN));
        (b2, out2) \<leftarrow> take_walk (walk_fuel b1) hint len nwords osz (cl_head c) b1 out1;
        Some (h\<lparr>span_bm := b2\<rparr>, out2)
      })"

subsection \<open>Carving\<close>

definition try_pool_alloc ::
  "ctx \<Rightarrow> sub_heap \<Rightarrow> nat \<Rightarrow> nat \<Rightarrow> nat \<Rightarrow> (sub_heap \<times> (nat \<times> nat) option) rust" where
  "try_pool_alloc x h n cls home =
     (if pool_busy x (clock h) then Some (h\<lparr>clock := Suc (clock h)\<rparr>, None)
      else do {
        (p, r) \<leftarrow> pool_alloc (la_pool (large h)) (as_u32 n);
        let h1 = h\<lparr>large := (large h)\<lparr>la_pool := p\<rparr>, clock := Suc (clock h)\<rparr>;
        case r of
          None \<Rightarrow> Some (h1, None)
        | Some head \<Rightarrow> do {
            let start = span_ptr (large h) head;
            let run_end = add64 start (n * SPAN_BYTES);
            t \<leftarrow> assign_range (span_tab h) start (sub64 run_end start) cls home;
            Some (h1\<lparr>span_tab := t\<rparr>, Some (start, run_end))
          }
      })"

definition carve_or_reuse_spans ::
  "ctx \<Rightarrow> sub_heap \<Rightarrow> nat \<Rightarrow> nat \<Rightarrow> nat \<Rightarrow> (sub_heap \<times> nat \<times> nat) rust" where
  "carve_or_reuse_spans x h n cls home = do {
     (h1, r) \<leftarrow> try_pool_alloc x h n cls home;
     case r of
       Some (a, b) \<Rightarrow> Some (h1, a, b)
     | None \<Rightarrow> do {
         (ar, t, a, b) \<leftarrow> carve_spans (arena h1) n cls home (span_tab h1);
         Some (h1\<lparr>arena := ar, span_tab := t\<rparr>, a, b)
       }
   }"

text \<open>\<open>activate\<close>: link a span at the front of the cell's active list unless it is listed.\<close>

definition activate :: "sub_heap \<Rightarrow> nat \<Rightarrow> nat \<Rightarrow> sub_heap rust" where
  "activate h cell span = do {
     l \<leftarrow> is_on_list (span_bm h) span;
     if l then Some h
     else do {
       c \<leftarrow> idx (central_lists h) cell;
       (b, hd') \<leftarrow> link_front (span_bm h) span (cl_head c);
       set_head (h\<lparr>span_bm := b\<rparr>) cell hd'
     }
   }"

primrec fill_words :: "nat \<Rightarrow> nat list \<Rightarrow> span_bitmaps \<Rightarrow> span_bitmaps rust" where
  "fill_words span [] b = Some b"
| "fill_words span (w # ws) b = do {
     b' \<leftarrow> alloc_set_mask b span w (- 1);
     fill_words span ws b'
   }"

function carve_tiles :: "nat \<Rightarrow> nat \<Rightarrow> nat \<Rightarrow> nat \<Rightarrow> sub_heap \<Rightarrow> nat \<Rightarrow> (sub_heap \<times> nat) rust" where
  "carve_tiles cell per_span base run_end h carved =
     (if base < run_end then do {
        let span = span_of (span_bm h) base;
        b1 \<leftarrow> fill_words span [0..<per_span div 64] (span_bm h);
        b2 \<leftarrow> (if per_span mod 64 \<noteq> 0
               then alloc_set_mask b1 span (per_span div 64) (push_bit (per_span mod 64) 1 - 1)
               else Some b1);
        h2 \<leftarrow> activate (h\<lparr>span_bm := b2\<rparr>) cell span;
        carve_tiles cell per_span (base + SPAN_BYTES) run_end h2 (carved + per_span)
      } else Some (h, carved))"
  by pat_completeness auto
termination
  by (relation "measure (\<lambda>(cell, per_span, base, run_end, h, carved). run_end - base)") auto

declare carve_tiles.simps [simp del]

definition central_carve ::
  "ctx \<Rightarrow> sub_heap \<Rightarrow> nat \<Rightarrow> nat \<Rightarrow> nat \<Rightarrow> nat \<Rightarrow> (sub_heap \<times> nat) rust" where
  "central_carve x h cell cls my_shard batch = do {
     osz0 \<leftarrow> size_of_class cls;
     let osz = (osz0 + (MIN_ALIGN - 1)) div MIN_ALIGN * MIN_ALIGN;
     if SPAN_BYTES < osz then do {
       (h1, start, run_end) \<leftarrow> carve_or_reuse_spans x h (div_ceil osz SPAN_BYTES) (as_u16 cls) (as_u16 my_shard);
       if run_end \<le> start then Some (h1, 0)
       else do {
         let span = span_of (span_bm h1) start;
         b \<leftarrow> alloc_set_mask (span_bm h1) span 0 1;
         h2 \<leftarrow> activate (h1\<lparr>span_bm := b\<rparr>) cell span;
         Some (h2, 1)
       }
     }
     else if osz = 0 then None
     else do {
       let per_span = SPAN_BYTES div osz;
       let want_spans = max (div_ceil batch per_span) 1;
       (h1, start, run_end) \<leftarrow> carve_or_reuse_spans x h want_spans (as_u16 cls) (as_u16 my_shard);
       if run_end \<le> start then Some (h1, 0)
       else carve_tiles cell per_span start run_end h1 0
     }
   }"

subsection \<open>Small objects\<close>

definition refill :: "ctx \<Rightarrow> sub_heap \<Rightarrow> nat \<Rightarrow> nat \<Rightarrow> nat \<Rightarrow> (sub_heap \<times> nat option) rust" where
  "refill x h cs cls my_shard = do {
     batch \<leftarrow> batch_for cls;
     osz \<leftarrow> size_of_class cls;
     cell \<leftarrow> central_index h my_shard cls;
     let want = min batch 64;
     (h1, got) \<leftarrow> central_take h cell want osz cls;
     (h2, got2) \<leftarrow>
       (if got = [] then do {
          (hc, n) \<leftarrow> central_carve x h1 cell cls my_shard batch;
          if n = 0 then Some (hc, []) else central_take hc cell want osz cls
        } else Some (h1, got));
     case got2 of
       [] \<Rightarrow> Some (h2, None)
     | p # rest \<Rightarrow> do {
         h3 \<leftarrow> stash_all (sh_push x cs cls) (central_deposit osz) rest h2;
         Some (h3, Some p)
       }
   }"

definition drain :: "ctx \<Rightarrow> sub_heap \<Rightarrow> nat \<Rightarrow> nat \<Rightarrow> nat \<Rightarrow> sub_heap rust" where
  "drain x h cs cls ptr = do {
     batch \<leftarrow> batch_for cls;
     osz \<leftarrow> size_of_class cls;
     h1 \<leftarrow> drain_with (sh_pop x cs cls) (central_deposit osz) (max (batch div 2) 1) h;
     stash_all (sh_push x cs cls) (central_deposit osz) [ptr] h1
   }"

definition alloc_class :: "ctx \<Rightarrow> sub_heap \<Rightarrow> nat \<Rightarrow> (sub_heap \<times> nat option) rust" where
  "alloc_class x h cls = do {
     obj_size \<leftarrow> size_of_class cls;
     let cs = current_fast (sh_slab h);
     (sl, f, cpu) \<leftarrow> pop_on (sh_slab h) (env_at x (clock h)) cs cls;
     let h1 = h\<lparr>sh_slab := sl, clock := Suc (clock h)\<rparr>;
     (h2, r, cpu') \<leftarrow>
       (case f of
          FOk p \<Rightarrow> Some (h1, Some p, cpu)
        | NeedsSlow \<Rightarrow> do {
            (h2, r) \<leftarrow> refill x h1 cs cls (shard_id x);
            Some (h2, r, bound_cpu x h2 cs)
          });
     case r of
       None \<Rightarrow> Some (h2, None)
     | Some p \<Rightarrow> do {
         h3 \<leftarrow> charge_local h2 cpu' (int obj_size) 1;
         Some (h3, Some p)
       }
   }"

definition U16_MAX :: nat where
  "U16_MAX = 2 ^ 16 - 1"

definition is_local :: "ctx \<Rightarrow> sub_heap \<Rightarrow> nat \<Rightarrow> bool rust" where
  "is_local x h home =
     (if num_shards h = 0 then None
      else Some (home = U16_MAX \<or> home mod num_shards h = shard_id x mod num_shards h))"

definition free_local :: "ctx \<Rightarrow> nat \<Rightarrow> nat \<Rightarrow> nat \<Rightarrow> sub_heap \<Rightarrow> sub_heap rust" where
  "free_local x cs cls ptr h = do {
     (h1, f) \<leftarrow> sh_push x cs cls ptr h;
     case f of FOk _ \<Rightarrow> Some h1 | NeedsSlow \<Rightarrow> drain x h1 cs cls ptr
   }"

definition dealloc_class :: "ctx \<Rightarrow> sub_heap \<Rightarrow> nat \<Rightarrow> nat \<Rightarrow> sub_heap rust" where
  "dealloc_class x h ptr cls = do {
     home \<leftarrow> home_relaxed (span_tab h) ptr;
     obj_size \<leftarrow> size_of_class cls;
     let cs = current_stack (sh_slab h) (env_at x (clock h));
     loc \<leftarrow> is_local x h home;
     h1 \<leftarrow> (if loc then free_local x cs cls ptr h else central_deposit obj_size ptr h);
     charge_local h1 cs (- int obj_size) (- 1)
   }"

text \<open>
  \<open>dealloc_class_batch\<close>: the pending coalesced deposit is the triple of the span, the bitmap
  word and the mask collected for it.
\<close>

definition flush_pending :: "sub_heap \<Rightarrow> nat \<Rightarrow> nat \<Rightarrow> u64 \<Rightarrow> sub_heap rust" where
  "flush_pending h span word m =
     (if m \<noteq> 0 then do { b \<leftarrow> set_mask (span_bm h) span word m; Some (h\<lparr>span_bm := b\<rparr>) } else Some h)"

primrec batch_loop ::
  "ctx \<Rightarrow> nat \<Rightarrow> nat \<Rightarrow> nat \<Rightarrow> nat list \<Rightarrow> sub_heap \<Rightarrow> nat \<times> nat \<times> u64 \<Rightarrow> nat \<Rightarrow>
     (sub_heap \<times> (nat \<times> nat \<times> u64) \<times> nat) rust" where
  "batch_loop x cs cls osz [] h pend n = Some (h, pend, n)"
| "batch_loop x cs cls osz (p # ps) h pend n = do {
     home \<leftarrow> home_relaxed (span_tab h) p;
     loc \<leftarrow> is_local x h home;
     if loc then do {
       h1 \<leftarrow> free_local x cs cls p h;
       batch_loop x cs cls osz ps h1 pend (n + 1)
     } else do {
       (span, word, bit) \<leftarrow> locate (span_bm h) p osz;
       let (cs', cw, cm) = pend;
       if span \<noteq> cs' \<or> word \<noteq> cw then do {
         h1 \<leftarrow> flush_pending h cs' cw cm;
         batch_loop x cs cls osz ps h1 (span, word, 0 OR push_bit bit 1) (n + 1)
       } else batch_loop x cs cls osz ps h (cs', cw, cm OR push_bit bit 1) (n + 1)
     }
   }"

definition dealloc_class_batch :: "ctx \<Rightarrow> sub_heap \<Rightarrow> nat list \<Rightarrow> nat \<Rightarrow> sub_heap rust" where
  "dealloc_class_batch x h ptrs cls = do {
     osz \<leftarrow> size_of_class cls;
     let cs = current_stack (sh_slab h) (env_at x (clock h));
     (h1, (span, word, m), total) \<leftarrow> batch_loop x cs cls osz ptrs h (NO_SPAN, 0, 0) 0;
     h2 \<leftarrow> flush_pending h1 span word m;
     h3 \<leftarrow> (if span \<noteq> NO_SPAN then do {
              home \<leftarrow> home_relaxed (span_tab h2) (span_base (span_bm h2) span);
              cell \<leftarrow> central_index h2 home cls;
              set_hint h2 cell span
            } else Some h2);
     if 0 < total then charge_local h3 cs (- int osz * int total) (- int total) else Some h3
   }"

text \<open>The loop of \<open>refill_batch\<close>; every round adds at least one object.\<close>

function refill_loop :: "ctx \<Rightarrow> nat \<Rightarrow> nat \<Rightarrow> nat \<Rightarrow> nat \<Rightarrow> nat \<Rightarrow> sub_heap \<Rightarrow> nat list \<Rightarrow> (sub_heap \<times> nat list) rust" where
  "refill_loop x cell cls my_shard osz len h out =
     (if length out < len then do {
        batch \<leftarrow> batch_for cls;
        (h1, n) \<leftarrow> central_carve x h cell cls my_shard batch;
        if n = 0 then Some (h1, out)
        else do {
          (h2, got) \<leftarrow> central_take h1 cell (len - length out) osz cls;
          if got = [] then Some (h2, out)
          else refill_loop x cell cls my_shard osz len h2 (out @ got)
        }
      } else Some (h, out))"
  by pat_completeness auto
termination
  by (relation "measure (\<lambda>(x, cell, cls, my_shard, osz, len, h, out). len - length out)")
    (auto simp flip: length_greater_0_conv)

declare refill_loop.simps [simp del]

definition refill_batch :: "ctx \<Rightarrow> sub_heap \<Rightarrow> nat \<Rightarrow> nat \<Rightarrow> (sub_heap \<times> nat list) rust" where
  "refill_batch x h cls len =
     (if num_shards h = 0 then None
      else do {
        let my_shard = shard_id x mod num_shards h;
        osz \<leftarrow> size_of_class cls;
        cell \<leftarrow> central_index h my_shard cls;
        (h1, out) \<leftarrow> central_take h cell len osz cls;
        (h2, out2) \<leftarrow> refill_loop x cell cls my_shard osz len h1 out;
        h3 \<leftarrow> (if out2 \<noteq> []
               then charge_local h2 (current_stack (sh_slab h2) (env_at x (clock h2)))
                      (int osz * int (length out2)) (int (length out2))
               else Some h2);
        Some (h3, out2)
      })"

subsection \<open>Supervisor entry points\<close>

definition set_cpu_stopped :: "sub_heap \<Rightarrow> nat \<Rightarrow> bool \<Rightarrow> sub_heap rust" where
  "set_cpu_stopped h cpu v = do { sl \<leftarrow> set_stopped (sh_slab h) cpu v; Some (h\<lparr>sh_slab := sl\<rparr>) }"

primrec rebalance_loop :: "nat \<Rightarrow> nat \<Rightarrow> nat \<Rightarrow> nat \<Rightarrow> sub_heap \<Rightarrow> sub_heap rust" where
  "rebalance_loop cpu cls osz 0 h = Some h"
| "rebalance_loop cpu cls osz (Suc k) h = do {
     c \<leftarrow> get_stack (sh_slab h) cpu cls;
     let new_cur = sub32 (current c) 1;
     obj \<leftarrow> idx (slots c) new_cur;
     sl \<leftarrow> put_stack (sh_slab h) cpu cls (c\<lparr>current := new_cur\<rparr>);
     let h1 = h\<lparr>sh_slab := sl\<rparr>;
     h2 \<leftarrow> (if obj \<noteq> 0 then central_deposit osz obj h1 else Some h1);
     rebalance_loop cpu cls osz k h2
   }"

definition rebalance_capacity :: "sub_heap \<Rightarrow> nat \<Rightarrow> nat \<Rightarrow> nat \<Rightarrow> (sub_heap \<times> nat) rust" where
  "rebalance_capacity h cpu cls n = do {
     c \<leftarrow> get_stack (sh_slab h) cpu cls;
     let tk = min n (current c);
     if tk = 0 then Some (h, 0)
     else do {
       osz \<leftarrow> size_of_class cls;
       h' \<leftarrow> rebalance_loop cpu cls osz tk h;
       Some (h', tk)
     }
   }"

definition reclaim_stranded_remote :: "sub_heap \<Rightarrow> nat" where
  "reclaim_stranded_remote h = 0"

text \<open>The walk of \<open>reclaim_cell\<close> under the cell's lock; \<open>taken\<close> collects the retired spans.\<close>

definition retire_span :: "sub_heap \<Rightarrow> nat \<Rightarrow> nat \<Rightarrow> nat \<Rightarrow> nat \<Rightarrow> nat \<Rightarrow> sub_heap rust" where
  "retire_span h cell span prev slots_per_span group_spans = do {
     c \<leftarrow> idx (central_lists h) cell;
     (b, new_head) \<leftarrow> unlink_active (span_bm h) span prev (cl_head c);
     h1 \<leftarrow> set_head (h\<lparr>span_bm := b\<rparr>) cell new_head;
     h2 \<leftarrow> (if reuse_hint c = span then set_hint h1 cell NO_SPAN else Some h1);
     t \<leftarrow> assign_range (span_tab h2) (span_base (span_bm h2) span) (group_spans * SPAN_BYTES) LARGE_CLASS 0;
     b' \<leftarrow> reset_bitmaps (span_bm h2) span (div_ceil slots_per_span 64);
     Some (h2\<lparr>span_tab := t, span_bm := b'\<rparr>)
   }"

primrec reclaim_walk ::
  "nat \<Rightarrow> nat \<Rightarrow> nat \<Rightarrow> nat \<Rightarrow> nat \<Rightarrow> nat \<Rightarrow> nat \<Rightarrow> sub_heap \<Rightarrow> nat list \<Rightarrow> (sub_heap \<times> nat list) rust" where
  "reclaim_walk 0 cell cap slots_per_span group_spans prev span h taken = None"
| "reclaim_walk (Suc fuel) cell cap slots_per_span group_spans prev span h taken =
     (if span \<noteq> NO_SPAN \<and> length taken < cap then do {
        nx \<leftarrow> next_span (span_bm h) span;
        (b, free) \<leftarrow> is_fully_free (span_bm h) span slots_per_span;
        let h1 = h\<lparr>span_bm := b\<rparr>;
        if free then do {
          h2 \<leftarrow> retire_span h1 cell span prev slots_per_span group_spans;
          reclaim_walk fuel cell cap slots_per_span group_spans prev nx h2 (taken @ [span])
        } else reclaim_walk fuel cell cap slots_per_span group_spans span nx h1 taken
      } else Some (h, taken))"

primrec file_runs :: "nat \<Rightarrow> nat list \<Rightarrow> sub_heap \<Rightarrow> sub_heap rust" where
  "file_runs group_spans [] h = Some h"
| "file_runs group_spans (span # ss) h = do {
     let i = as_u32 (span_index (large h) (span_base (span_bm h) span));
     p \<leftarrow> pool_free (la_pool (large h)) i group_spans;
     file_runs group_spans ss (h\<lparr>large := (large h)\<lparr>la_pool := p\<rparr>\<rparr>)
   }"

definition reclaim_cell :: "ctx \<Rightarrow> sub_heap \<Rightarrow> nat \<Rightarrow> nat \<Rightarrow> nat \<Rightarrow> (sub_heap \<times> nat) rust" where
  "reclaim_cell x h shard cls cap =
     (if cap = 0 then Some (h, 0)
      else do {
        osz0 \<leftarrow> size_of_class cls;
        let osz = (osz0 + (MIN_ALIGN - 1)) div MIN_ALIGN * MIN_ALIGN;
        if osz = 0 then None
        else do {
          let slots_per_span = max (SPAN_BYTES div osz) 1;
          let group_spans = as_u32 (max (div_ceil osz SPAN_BYTES) 1);
          cell \<leftarrow> central_index h shard cls;
          c \<leftarrow> idx (central_lists h) cell;
          let busy = cell_busy x (clock h);
          let h0 = h\<lparr>clock := Suc (clock h)\<rparr>;
          if busy then Some (h0, 0)
          else do {
            (h1, taken) \<leftarrow> reclaim_walk (walk_fuel (span_bm h0)) cell (min cap 32) slots_per_span
                             group_spans NO_SPAN (cl_head c) h0 [];
            if taken = [] then Some (h1, 0)
            else do {
              h2 \<leftarrow> file_runs group_spans taken h1;
              Some (h2, length taken)
            }
          }
        }
      })"

primrec reclaim_repeat :: "nat \<Rightarrow> ctx \<Rightarrow> nat \<Rightarrow> nat \<Rightarrow> nat \<Rightarrow> sub_heap \<Rightarrow> nat \<Rightarrow> (sub_heap \<times> nat) rust" where
  "reclaim_repeat 0 x shard cls cap h n = None"
| "reclaim_repeat (Suc fuel) x shard cls cap h n = do {
     (h1, got) \<leftarrow> reclaim_cell x h shard cls cap;
     if got < cap then Some (h1, n + got)
     else reclaim_repeat fuel x shard cls cap h1 (n + got)
   }"

primrec reclaim_cells :: "ctx \<Rightarrow> nat \<Rightarrow> (nat \<times> nat) list \<Rightarrow> sub_heap \<Rightarrow> nat \<Rightarrow> (sub_heap \<times> nat) rust" where
  "reclaim_cells x cap [] h n = Some (h, n)"
| "reclaim_cells x cap (sc # rest) h n = do {
     (h1, n1) \<leftarrow> reclaim_repeat (walk_fuel (span_bm h)) x (fst sc) (snd sc) cap h n;
     reclaim_cells x cap rest h1 n1
   }"

definition reclaim_empty_spans :: "ctx \<Rightarrow> sub_heap \<Rightarrow> nat \<Rightarrow> (sub_heap \<times> nat) rust" where
  "reclaim_empty_spans x h max_per_lock =
     reclaim_cells x (max max_per_lock 1)
       (List.product [0..<num_shards h] [1..<NUM_CLASSES]) h 0"

subsection \<open>Large objects and entry points\<close>

definition large_cpu :: "ctx \<Rightarrow> sub_heap \<Rightarrow> nat" where
  "large_cpu x h =
     min (case current_cpu (env_at x (clock h)) of Some c \<Rightarrow> c | None \<Rightarrow> 0) (length (counters h) - 1)"

definition alloc_large :: "ctx \<Rightarrow> sub_heap \<Rightarrow> nat \<Rightarrow> (sub_heap \<times> nat option) rust" where
  "alloc_large x h sz = do {
     let span_count = max (div_ceil sz SPAN_BYTES) 1;
     let run_bytes = span_count * SPAN_BYTES mod 2 ^ 64;
     (p, r) \<leftarrow> pool_alloc (la_pool (large h)) (as_u32 span_count);
     let h1 = h\<lparr>large := (large h)\<lparr>la_pool := p\<rparr>\<rparr>;
     let (h2, got) =
       (case r of
          Some head \<Rightarrow> (h1, Some (span_ptr (large h1) head))
        | None \<Rightarrow> (let (ar, run) = carve_run (arena h1) run_bytes in (h1\<lparr>arena := ar\<rparr>, run)));
     case got of
       None \<Rightarrow> Some (h2, None)
     | Some ptr \<Rightarrow> do {
         rs \<leftarrow> upd (run_spans (large h2)) (span_index (large h2) ptr) (as_u32 span_count);
         t \<leftarrow> assign_range (span_tab h2) ptr run_bytes LARGE_CLASS 0;
         let h3 = h2\<lparr>large := (large h2)\<lparr>run_spans := rs\<rparr>, span_tab := t\<rparr>;
         h4 \<leftarrow> charge_remote h3 (large_cpu x h3) (int run_bytes) 1;
         Some (h4, Some ptr)
       }
   }"

definition dealloc_large :: "ctx \<Rightarrow> sub_heap \<Rightarrow> nat \<Rightarrow> sub_heap rust" where
  "dealloc_large x h ptr = do {
     let i = span_index (large h) ptr;
     span_count \<leftarrow> idx (run_spans (large h)) i;
     rs \<leftarrow> upd (run_spans (large h)) i 0;
     let h1 = h\<lparr>large := (large h)\<lparr>run_spans := rs\<rparr>\<rparr>;
     if debug_build x \<and> span_count = 0 then None
     else if span_count = 0 then Some h1
     else do {
       p \<leftarrow> pool_free (la_pool (large h1)) (as_u32 i) span_count;
       let h2 = h1\<lparr>large := (large h1)\<lparr>la_pool := p\<rparr>\<rparr>;
       charge_remote h2 (large_cpu x h2) (- int (span_count * SPAN_BYTES)) (- 1)
     }
   }"

definition dealloc_by_ptr :: "ctx \<Rightarrow> sub_heap \<Rightarrow> nat \<Rightarrow> (sub_heap \<times> bool) rust" where
  "dealloc_by_ptr x h ptr = do {
     l \<leftarrow> lookup (span_tab h) ptr;
     case l of
       None \<Rightarrow> Some (h, False)
     | Some (cls, home) \<Rightarrow>
         if cls = LARGE_CLASS then do { h' \<leftarrow> dealloc_large x h ptr; Some (h', True) }
         else do { h' \<leftarrow> dealloc_class x h ptr cls; Some (h', True) }
   }"

definition sh_alloc :: "ctx \<Rightarrow> sub_heap \<Rightarrow> nat \<Rightarrow> (sub_heap \<times> nat option) rust" where
  "sh_alloc x h sz = (case class_for sz of Some cls \<Rightarrow> alloc_class x h cls | None \<Rightarrow> alloc_large x h sz)"

definition owns :: "sub_heap \<Rightarrow> nat \<Rightarrow> bool" where
  "owns h ptr = contains (span_tab h) ptr"

definition class_of_ptr :: "sub_heap \<Rightarrow> nat \<Rightarrow> nat option rust" where
  "class_of_ptr h ptr = map_option (map_option fst) (lookup (span_tab h) ptr)"

definition live_bytes :: "sub_heap \<Rightarrow> nat" where
  "live_bytes h = total_bytes (counters h)"

definition live_objects :: "sub_heap \<Rightarrow> nat" where
  "live_objects h = total_objs (counters h)"

definition sh_carved_bytes :: "sub_heap \<Rightarrow> nat" where
  "sh_carved_bytes h = carved_bytes (arena h) (budget_bytes h)"

subsection \<open>Construction\<close>

definition HEADER_BYTES :: nat where
  "HEADER_BYTES = 8"

definition SHARDS_PER_CPU :: nat where
  "SHARDS_PER_CPU = 4"

definition MAX_SHARDS :: nat where
  "MAX_SHARDS = U16_MAX"

record builder =
  b_budget :: nat
  b_num_cpus :: nat
  b_num_shards :: "nat option"
  b_cap_per_class :: nat

definition builder_new :: "nat \<Rightarrow> nat \<Rightarrow> builder" where
  "builder_new default_cpus budget =
     \<lparr> b_budget = budget, b_num_cpus = default_cpus, b_num_shards = None, b_cap_per_class = 256 \<rparr>"

definition with_num_cpus :: "builder \<Rightarrow> nat \<Rightarrow> builder" where
  "with_num_cpus bl n = bl\<lparr>b_num_cpus := max n 1\<rparr>"

definition with_num_shards :: "builder \<Rightarrow> nat \<Rightarrow> builder" where
  "with_num_shards bl n = bl\<lparr>b_num_shards := Some (min (max n 1) MAX_SHARDS)\<rparr>"

definition shard_count :: "builder \<Rightarrow> nat" where
  "shard_count bl =
     (case b_num_shards bl of
        Some n \<Rightarrow> n
      | None \<Rightarrow> min (max (as_u32 (b_num_cpus bl * SHARDS_PER_CPU)) 1) MAX_SHARDS)"

record class_loc =
  header_off :: nat
  lock_off :: nat
  slots_off :: nat

definition headers_bytes :: nat where
  "headers_bytes = NUM_CLASSES * HEADER_BYTES"

primrec class_locs :: "nat \<Rightarrow> nat list \<Rightarrow> nat \<Rightarrow> (class_loc list \<times> nat) rust" where
  "class_locs cap [] off = Some ([], off)"
| "class_locs cap (c # cs) off = do {
     k \<leftarrow> cap_for_class c cap;
     (rest, total) \<leftarrow> class_locs cap cs (off + k * 8);
     Some (\<lparr> header_off = as_u32 (c * HEADER_BYTES), lock_off = as_u32 (headers_bytes + c * 4),
             slots_off = as_u32 off \<rparr> # rest, total)
   }"

definition block_layout :: "nat \<Rightarrow> (class_loc list \<times> nat) rust" where
  "block_layout cap = class_locs cap [0..<NUM_CLASSES] ((headers_bytes + NUM_CLASSES * 4 + 7) div 8 * 8)"

definition stride_for :: "nat \<Rightarrow> nat" where
  "stride_for block_bytes = 2 ^ bit_len (max block_bytes 1 - 1)"

primrec slab_row :: "nat \<Rightarrow> nat list \<Rightarrow> cstack list rust" where
  "slab_row cap [] = Some []"
| "slab_row cap (c # cs) = do {
     k \<leftarrow> cap_for_class c cap;
     rest \<leftarrow> slab_row cap cs;
     Some (\<lparr> current = 0, capacity = k, slots = replicate k 0 \<rparr> # rest)
   }"

text \<open>\<open>build_at\<close>: the state built over a reservation whose base address is \<open>base\<close>.\<close>

definition build_at :: "builder \<Rightarrow> nat \<Rightarrow> sub_heap rust" where
  "build_at bl base = do {
     (locs, block_bytes) \<leftarrow> block_layout (b_cap_per_class bl);
     row \<leftarrow> slab_row (b_cap_per_class bl) [0..<NUM_CLASSES];
     let slab_bytes = stride_for block_bytes * b_num_cpus bl;
     let ab = base + slab_bytes;
     Some \<lparr> sh_slab = \<lparr> num_cpus = b_num_cpus bl, stacks = replicate (b_num_cpus bl) row,
                         stopped = replicate (max (b_num_cpus bl) 1) False \<rparr>,
            central_lists = replicate (shard_count bl * NUM_CLASSES) \<lparr> cl_head = NO_SPAN, reuse_hint = NO_SPAN \<rparr>,
            span_bm = bitmaps_new ab (b_budget bl),
            num_shards = shard_count bl,
            arena = \<lparr> cursor = ab, ar_end = ab + b_budget bl, ar_base = ab \<rparr>,
            span_tab = table_new ab (b_budget bl),
            large = large_new ab (b_budget bl),
            budget_bytes = b_budget bl,
            counters = counters_new (b_num_cpus bl),
            clock = 0 \<rparr>
   }"

end
