(* ===== verification/Sub_Heap_Objects.thy ===== *)
theory Sub_Heap_Objects
  imports Sub_Heap Span_Pool_Correct
begin

text \<open>
  The objects of a sub-heap. Span \<open>i\<close> of class \<open>c\<close> holds the slots \<open>k\<close> with \<open>k div 8192 = i\<close>;
  \<open>addr\<close> is the address of a slot and \<open>tiles h c\<close> the slots of all listed spans of class \<open>c\<close>.
  \<open>all_objs\<close> are their addresses, \<open>held\<close> those that the slab and the bitmaps hold, and
  \<open>live_objs\<close> the rest: the objects in the hands of the program.

  \<open>hinv h ls\<close> is the invariant of the object level, with \<open>ls\<close> the active lists of the cells.
  The slab operations and the deposit into a bitmap interpret the contract \<open>object_store\<close>, so
  that its drain and stash loops are available; scanning a span and taking from a central list
  remove exactly the slots they return.
\<close>

subsection \<open>Objects of a class\<close>

definition nslots :: "nat \<Rightarrow> nat" where
  "nslots c = max (SPAN_BYTES div CLASS_SIZES ! c) 1"

definition small_class :: "nat \<Rightarrow> bool" where
  "small_class c \<longleftrightarrow> 0 < c \<and> c < NUM_CLASSES"

lemma osz_pos: "small_class c \<Longrightarrow> 8 \<le> CLASS_SIZES ! c"
  using class_sizes_min [of c] by (simp add: small_class_def)

lemma osz_rounded: "small_class c \<Longrightarrow> (CLASS_SIZES ! c + (MIN_ALIGN - 1)) div MIN_ALIGN * MIN_ALIGN = CLASS_SIZES ! c"
  using class_sizes_multiple [of c] unfolding small_class_def MIN_ALIGN_def by simp presburger

lemma nslots_bounds: "small_class c \<Longrightarrow> 0 < nslots c \<and> nslots c \<le> 8192"
proof -
  assume "small_class c"
  then have "65536 div CLASS_SIZES ! c \<le> 65536 div 8" by (intro div_le_mono2 osz_pos) auto
  then show ?thesis by (simp add: nslots_def)
qed

lemma slot_in_span: "small_class c \<Longrightarrow> s < nslots c \<Longrightarrow> s * CLASS_SIZES ! c < 65536"
  using slot_offset [of "CLASS_SIZES ! c" s] osz_pos [of c] unfolding nslots_def
  by (cases "65536 div CLASS_SIZES ! c = 0") auto

definition addr :: "nat \<Rightarrow> nat \<Rightarrow> nat \<Rightarrow> nat" where
  "addr base c k = base + k div 8192 * 65536 + k mod 8192 * CLASS_SIZES ! c"

lemma addr_decode:
  assumes "small_class c" "k mod 8192 < nslots c"
  shows "(addr base c k - base) div 65536 = k div 8192"
    "(addr base c k - (base + k div 8192 * 65536)) div CLASS_SIZES ! c = k mod 8192"
proof -
  have "k mod 8192 * CLASS_SIZES ! c < 65536" using slot_in_span assms by blast
  then show "(addr base c k - base) div 65536 = k div 8192" by (simp add: addr_def)
  show "(addr base c k - (base + k div 8192 * 65536)) div CLASS_SIZES ! c = k mod 8192"
    using osz_pos [OF assms(1)] by (simp add: addr_def)
qed

lemma addr_inj:
  assumes "small_class c" "k mod 8192 < nslots c" "j mod 8192 < nslots c" "addr base c k = addr base c j"
  shows "k = j"
proof -
  have "k div 8192 = j div 8192" using addr_decode(1) [OF assms(1,2), of base] addr_decode(1) [OF assms(1,3), of base] assms(4) by simp
  moreover from this have "k mod 8192 = j mod 8192"
    using addr_decode(2) [OF assms(1,2), of base] addr_decode(2) [OF assms(1,3), of base] assms(4) by simp
  ultimately show ?thesis by (metis div_mult_mod_eq)
qed

subsection \<open>The parts of a sub-heap that its objects depend on\<close>

abbreviation hbase :: "sub_heap \<Rightarrow> nat" where
  "hbase h \<equiv> bm_base (span_bm h)"

definition nsp :: "sub_heap \<Rightarrow> nat" where
  "nsp h = div_ceil (budget_bytes h) SPAN_BYTES"

definition class_at :: "sub_heap \<Rightarrow> nat \<Rightarrow> nat" where
  "class_at h i = entries (span_tab h) ! i div 2 ^ 16"

definition listed :: "sub_heap \<Rightarrow> nat \<Rightarrow> bool" where
  "listed h i \<longleftrightarrow> i < nsp h \<and> on_list (span_bm h) ! i"

definition tiles :: "sub_heap \<Rightarrow> nat \<Rightarrow> nat set" where
  "tiles h c = {k. listed h (k div 8192) \<and> class_at h (k div 8192) = c \<and> k mod 8192 < nslots c}"

definition ubits :: "sub_heap \<Rightarrow> nat set" where
  "ubits h = alloc_bits (span_bm h) \<union> free_bits (span_bm h)"

definition all_objs :: "sub_heap \<Rightarrow> nat \<Rightarrow> nat multiset" where
  "all_objs h c = image_mset (addr (hbase h) c) (mset_set (tiles h c))"

definition held :: "sub_heap \<Rightarrow> nat \<Rightarrow> nat multiset" where
  "held h c = class_objs (sh_slab h) c + image_mset (addr (hbase h) c) (mset_set (ubits h \<inter> tiles h c))"

text \<open>The objects handed out and not yet returned.\<close>

definition live_objs :: "sub_heap \<Rightarrow> nat \<Rightarrow> nat multiset" where
  "live_objs h c = all_objs h c - held h c"

text \<open>Fixed geometry, and the parts that the object-level operations change.\<close>

definition geom :: "sub_heap \<Rightarrow> bool" where
  "geom h \<longleftrightarrow> slab_inv NUM_CLASSES (sh_slab h) \<and> bm_shape (nsp h) (span_bm h) \<and> st_shape (span_tab h) \<and>
     st_base (span_tab h) = hbase h \<and> st_len (span_tab h) = budget_bytes h \<and> 0 < hbase h \<and>
     hbase h + nsp h * 65536 < 2 ^ 64 \<and> nsp h < 2 ^ 32 - 1 \<and> 0 < num_shards h \<and>
     length (central_lists h) = num_shards h * NUM_CLASSES \<and> counters h \<noteq> [] \<and>
     (\<forall>c\<in>set (central_lists h). reuse_hint c = NO_SPAN \<or> reuse_hint c < nsp h) \<and>
     (\<forall>v\<in>set (entries (span_tab h)). v < 2 ^ 32)"

text \<open>
  \<open>lists_ok h ls\<close>: cell \<open>j\<close> (shard \<open>j div 49\<close>, class \<open>j mod 49\<close>) has the active list
  \<open>ls j\<close>; the ls are disjoint, hold exactly the listed spans, and every span is listed
  under its own class.
\<close>

definition lists_ok :: "sub_heap \<Rightarrow> (nat \<Rightarrow> nat list) \<Rightarrow> bool" where
  "lists_ok h ls \<longleftrightarrow>
     (\<forall>j<length (central_lists h). alist (next_active (span_bm h)) (cl_head (central_lists h ! j)) (ls j) NO_SPAN \<and>
        distinct (ls j) \<and> (\<forall>i\<in>set (ls j). listed h i \<and> class_at h i = j mod NUM_CLASSES)) \<and>
     (\<forall>j j'. j < length (central_lists h) \<and> j' < length (central_lists h) \<and> j \<noteq> j' \<longrightarrow>
        set (ls j) \<inter> set (ls j') = {}) \<and>
     (\<forall>i. listed h i \<longrightarrow> (\<exists>j<length (central_lists h). i \<in> set (ls j)) \<and> small_class (class_at h i))"

definition bits_ok :: "sub_heap \<Rightarrow> bool" where
  "bits_ok h \<longleftrightarrow> alloc_bits (span_bm h) \<inter> free_bits (span_bm h) = {} \<and>
     (\<forall>k\<in>ubits h. k \<in> tiles h (class_at h (k div 8192)))"

definition held_ok :: "sub_heap \<Rightarrow> bool" where
  "held_ok h \<longleftrightarrow> (\<forall>c. small_class c \<longrightarrow> held h c \<subseteq># all_objs h c)"

definition same_map :: "sub_heap \<Rightarrow> sub_heap \<Rightarrow> bool" where
  "same_map h h' \<longleftrightarrow> same_links (span_bm h) (span_bm h') \<and> span_tab h' = span_tab h \<and>
     budget_bytes h' = budget_bytes h \<and> arena h' = arena h \<and> large h' = large h \<and>
     num_shards h' = num_shards h \<and> map cl_head (central_lists h') = map cl_head (central_lists h)"

lemma same_map_refl [simp]: "same_map h h"
  by (simp add: same_map_def)

lemma same_map_trans: "same_map a b \<Longrightarrow> same_map b c \<Longrightarrow> same_map a c"
  by (simp add: same_map_def same_links_def)

lemma same_map_eqs:
  assumes "same_map h h'"
  shows "hbase h' = hbase h" "nsp h' = nsp h" "class_at h' = class_at h" "listed h' = listed h"
    "tiles h' = tiles h" "all_objs h' = all_objs h" "length (central_lists h') = length (central_lists h)"
    "num_shards h' = num_shards h" "span_tab h' = span_tab h" "large h' = large h" "arena h' = arena h"
    "next_active (span_bm h') = next_active (span_bm h)" "budget_bytes h' = budget_bytes h"
proof -
  show b: "hbase h' = hbase h" "nsp h' = nsp h" "class_at h' = class_at h" "num_shards h' = num_shards h"
    "span_tab h' = span_tab h" "large h' = large h" "arena h' = arena h"
    "next_active (span_bm h') = next_active (span_bm h)" "budget_bytes h' = budget_bytes h"
    using assms by (auto simp: same_map_def same_links_def nsp_def class_at_def fun_eq_iff)
  show l: "listed h' = listed h" using assms b by (auto simp: same_map_def same_links_def listed_def fun_eq_iff)
  then show t: "tiles h' = tiles h" using b by (simp add: tiles_def fun_eq_iff)
  then show "all_objs h' = all_objs h" using b by (simp add: all_objs_def fun_eq_iff)
  show "length (central_lists h') = length (central_lists h)" using assms unfolding same_map_def by (metis length_map)
qed

lemma same_map_lists: "same_map h h' \<Longrightarrow> lists_ok h ls \<Longrightarrow> lists_ok h' ls"
proof -
  assume s: "same_map h h'" and l: "lists_ok h ls"
  note e = same_map_eqs [OF s]
  have "cl_head (central_lists h' ! j) = cl_head (central_lists h ! j)" if "j < length (central_lists h)" for j
    using s that e(7) unfolding same_map_def by (metis nth_map)
  then show ?thesis using l unfolding lists_ok_def e by simp
qed

lemma finite_tiles [simp]: "finite (tiles h c)"
proof -
  have "tiles h c \<subseteq> {..<nsp h * 8192}"
    by (auto simp: tiles_def listed_def div_less_iff_less_mult)
  then show ?thesis using finite_subset by blast
qed

lemma addr_inj_tiles: "small_class c \<Longrightarrow> inj_on (addr b c) (tiles h c)"
  by (rule inj_onI) (auto simp: tiles_def dest: addr_inj)

lemma all_objs_set: "small_class c \<Longrightarrow> all_objs h c = mset_set (addr (hbase h) c ` tiles h c)"
  by (simp add: all_objs_def image_mset_mset_set addr_inj_tiles)

lemma held_set:
  assumes "small_class c"
  shows "held h c = class_objs (sh_slab h) c + mset_set (addr (hbase h) c ` (ubits h \<inter> tiles h c))"
proof -
  have "inj_on (addr (hbase h) c) (ubits h \<inter> tiles h c)" using addr_inj_tiles [OF assms, of _ h] by (rule inj_on_subset) simp
  then show ?thesis by (simp add: held_def image_mset_mset_set)
qed

lemma all_objs_once: "small_class c \<Longrightarrow> count (all_objs h c) p \<le> 1"
  by (simp add: all_objs_set count_mset_set')

lemma obj_tile: "small_class c \<Longrightarrow> p \<in># all_objs h c \<Longrightarrow> \<exists>k\<in>tiles h c. p = addr (hbase h) c k"
  by (auto simp: all_objs_set)

lemma mset_set_sub: "finite A \<Longrightarrow> B \<subseteq> A \<Longrightarrow> mset_set B \<subseteq># mset_set A"
  by (simp add: subset_imp_msubset_mset_set)

text \<open>The arithmetic of one object.\<close>

lemma tile_bounds:
  assumes "geom h" "k \<in> tiles h c" "small_class c"
  shows "k div 8192 < nsp h" "k mod 8192 < nslots c" "hbase h \<le> addr (hbase h) c k"
    "addr (hbase h) c k < hbase h + nsp h * 65536" "addr (hbase h) c k \<noteq> 0"
    "span_of (span_bm h) (addr (hbase h) c k) = k div 8192"
    "span_base (span_bm h) (k div 8192) = hbase h + k div 8192 * 65536"
    "sub64 (addr (hbase h) c k) (span_base (span_bm h) (k div 8192)) div CLASS_SIZES ! c = k mod 8192"
proof -
  show i: "k div 8192 < nsp h" and s: "k mod 8192 < nslots c" using assms by (auto simp: tiles_def listed_def)
  have o: "k mod 8192 * CLASS_SIZES ! c < 65536" using slot_in_span [OF assms(3) s] .
  have "k div 8192 * 65536 + 65536 \<le> nsp h * 65536" using mult_le_mono1 [of "Suc (k div 8192)" "nsp h" 65536] i by simp
  then have l: "k div 8192 * 65536 + k mod 8192 * CLASS_SIZES ! c < nsp h * 65536" using o by linarith
  show "hbase h \<le> addr (hbase h) c k" by (simp add: addr_def)
  show u: "addr (hbase h) c k < hbase h + nsp h * 65536" using l by (simp add: addr_def)
  show "addr (hbase h) c k \<noteq> 0" using assms(1) by (simp add: addr_def geom_def)
  have g: "hbase h + nsp h * 65536 < 2 ^ 64" "k div 8192 < 2 ^ 32" using assms(1) i by (simp_all add: geom_def)
  show b: "span_base (span_bm h) (k div 8192) = hbase h + k div 8192 * 65536"
    using g l by (intro span_base_eq) linarith
  show "span_of (span_bm h) (addr (hbase h) c k) = k div 8192"
    unfolding addr_def using g l o by (intro span_of_eq) linarith+
  show "sub64 (addr (hbase h) c k) (span_base (span_bm h) (k div 8192)) div CLASS_SIZES ! c = k mod 8192"
    using addr_decode(2) [OF assms(3) s, of "hbase h"] b u g by (simp add: addr_def)
qed

definition hinv :: "sub_heap \<Rightarrow> (nat \<Rightarrow> nat list) \<Rightarrow> bool" where
  "hinv h ls \<longleftrightarrow> geom h \<and> lists_ok h ls \<and> bits_ok h \<and> held_ok h"

lemma hinv_parts: "hinv h ls \<Longrightarrow> geom h" "hinv h ls \<Longrightarrow> lists_ok h ls" "hinv h ls \<Longrightarrow> bits_ok h"
  "hinv h ls \<Longrightarrow> held_ok h"
  by (simp_all add: hinv_def)

lemma add_mset_sub: "M \<subseteq># A \<Longrightarrow> p \<notin># M \<Longrightarrow> p \<in># A \<Longrightarrow> add_mset p M \<subseteq># A"
  by (simp add: subseteq_mset_def not_in_iff)

lemma bits_step:
  assumes "geom h" "same_links (span_bm h) b" "bm_shape (nsp h) b"
  shows "same_map h (h\<lparr>span_bm := b\<rparr>)" "geom (h\<lparr>span_bm := b\<rparr>)"
proof -
  show s: "same_map h (h\<lparr>span_bm := b\<rparr>)" using assms(2) by (simp add: same_map_def)
  show "geom (h\<lparr>span_bm := b\<rparr>)"
    using assms same_map_eqs [OF s] by (simp add: geom_def)
qed

lemma slab_step:
  assumes "geom h" "slab_inv NUM_CLASSES sl"
  shows "same_map h (h\<lparr>sh_slab := sl, clock := t\<rparr>)" "geom (h\<lparr>sh_slab := sl, clock := t\<rparr>)"
    "ubits (h\<lparr>sh_slab := sl, clock := t\<rparr>) = ubits h"
  using assms by (simp_all add: same_map_def geom_def nsp_def ubits_def)

lemma hinv_step:
  assumes "hinv h ls" "same_map h h'" "geom h'" "bits_ok h'" "\<And>c. small_class c \<Longrightarrow> held h' c \<subseteq># all_objs h c"
  shows "hinv h' ls"
  using assms same_map_lists [OF assms(2)] same_map_eqs(6) [OF assms(2)] by (simp add: hinv_def held_ok_def)

text \<open>The counters and the number of CPUs, which no operation on the caches changes.\<close>

definition tally :: "sub_heap \<Rightarrow> cpu_counter list \<times> nat" where
  "tally h = (counters h, num_cpus (sh_slab h))"

subsection \<open>Deposit, push and pop\<close>

lemma single_bit: "word_slots (k div 8192) (k mod 8192 div 64) (push_bit (k mod 8192 mod 64) 1) = {k}"
proof -
  have "k mod 8192 div 64 * 64 + k mod 8192 mod 64 = k mod 8192" by simp
  then have "slot_id (k div 8192) (k mod 8192 div 64 * 64 + k mod 8192 mod 64) = k"
    by (simp add: slot_id_def del: mod_mod_cancel)
  then show ?thesis by (simp add: word_slots_def bits_simps del: push_bit_of_1)
qed

lemma tiles_class: "k \<in> tiles h c \<Longrightarrow> k \<in> tiles h d \<Longrightarrow> c = d"
  by (simp add: tiles_def)

lemma central_deposit_ok:
  assumes h: "hinv h ls" and c: "small_class c" and p: "p \<in># all_objs h c" "p \<notin># held h c"
  shows "\<exists>h'. central_deposit (CLASS_SIZES ! c) p h = Some h' \<and> hinv h' ls \<and> same_map h h' \<and>
    sh_slab h' = sh_slab h \<and> clock h' = clock h \<and> counters h' = counters h \<and>
    held h' c = add_mset p (held h c) \<and> (\<forall>d. small_class d \<and> d \<noteq> c \<longrightarrow> held h' d = held h d)"
proof -
  note g = hinv_parts(1) [OF h]
  obtain k where k: "k \<in> tiles h c" "p = addr (hbase h) c k" using obj_tile [OF c p(1)] by blast
  note t = tile_bounds [OF g k(1) c]
  have fresh: "k \<notin> ubits h" using p(2) k by (auto simp: held_set [OF c])
  have shape: "bm_shape (nsp h) (span_bm h)" using g by (simp add: geom_def)
  have w: "k mod 8192 div 64 < 128" by (intro less_mult_imp_div_less) simp
  obtain b where b: "set_mask (span_bm h) (k div 8192) (k mod 8192 div 64) (push_bit (k mod 8192 mod 64) 1) = Some b"
    "bm_shape (nsp h) b" "same_links (span_bm h) b" "alloc_bits b = alloc_bits (span_bm h)"
    "free_bits b = insert k (free_bits (span_bm h))"
    using set_mask_bits [OF shape t(1) w] single_bit [of k] by (metis Un_insert_right sup_bot_right)
  let ?h = "h\<lparr>span_bm := b\<rparr>"
  note st = bits_step [OF g b(3,2)]
  have u: "ubits ?h = insert k (ubits h)" using b(4,5) by (auto simp: ubits_def)
  have osz: "CLASS_SIZES ! c \<noteq> 0" using osz_pos [OF c] by simp
  have "as_u32 (k mod 8192) = k mod 8192" by (rule as_u32_small) (simp add: less_trans [of _ 8192])
  then have dep: "central_deposit (CLASS_SIZES ! c) p h = Some ?h"
    using b(1) osz t(6,8) k(2) by (simp add: central_deposit_def set_free_mask)
  note e = same_map_eqs [OF st(1)]
  have bits: "bits_ok ?h"
    using hinv_parts(3) [OF h] fresh k(1) b(4,5) u unfolding bits_ok_def e
    by (auto simp: ubits_def tiles_def)
  have hc: "held ?h c = add_mset p (held h c)"
  proof -
    have "addr (hbase h) c ` (insert k (ubits h) \<inter> tiles h c) = insert p (addr (hbase h) c ` (ubits h \<inter> tiles h c))"
      using k by auto
    moreover have "p \<notin> addr (hbase h) c ` (ubits h \<inter> tiles h c)"
      using p(2) by (simp add: held_set [OF c])
    ultimately show ?thesis
      unfolding held_set [OF c] u e by (simp add: mset_set.insert)
  qed
  have hd: "held ?h d = held h d" if "small_class d" "d \<noteq> c" for d
  proof -
    have "insert k (ubits h) \<inter> tiles h d = ubits h \<inter> tiles h d" using tiles_class [OF k(1), of d] that by auto
    then show ?thesis unfolding held_set [OF that(1)] u e by simp
  qed
  have "held ?h d \<subseteq># all_objs h d" if "small_class d" for d
    using hinv_parts(4) [OF h] that hc hd [OF that] add_mset_sub [OF _ p(2,1)] unfolding held_ok_def
    by (cases "d = c") auto
  then have "hinv ?h ls" using hinv_step [OF h st bits] by blast
  then show ?thesis using dep hc hd st(1) by (intro exI [of _ ?h]) simp
qed

lemma pop_at_ok:
  assumes h: "hinv h ls" and c: "small_class c" and cpu: "cpu < num_cpus (sh_slab h)" and r: "pop_at (sh_slab h) cpu c = (sl', r)"
    and h': "h' = h\<lparr>sh_slab := sl', clock := Suc (clock h)\<rparr>"
  shows "hinv h' ls" "same_map h h'" "tally h' = tally h"
    "case r of NeedsSlow \<Rightarrow> held h' = held h
     | FOk p \<Rightarrow> p \<in># all_objs h c \<and> held h c = add_mset p (held h' c) \<and>
         (\<forall>d. small_class d \<and> d \<noteq> c \<longrightarrow> held h' d = held h d)"
proof -
  note g = hinv_parts(1) [OF h]
  have sl: "slab_inv NUM_CLASSES (sh_slab h)" using g by (simp add: geom_def)
  have cc: "c < NUM_CLASSES" using c by (simp add: small_class_def)
  note eff = pop_at_effect [OF sl cpu cc r]
  note st = slab_step [OF g eff(1), of "Suc (clock h)", folded h']
  note e = same_map_eqs [OF st(1)]
  show "same_map h h'" using st(1) .
  show "tally h' = tally h" using eff(2) by (simp add: tally_def h')
  have bits: "bits_ok h'" using hinv_parts(3) [OF h] unfolding bits_ok_def e st(3) by (simp add: h')
  have held: "held h' d = class_objs sl' d + image_mset (addr (hbase h) d) (mset_set (ubits h \<inter> tiles h d))" for d
    unfolding held_def e st(3) by (simp add: h')
  have sub: "held h' d \<subseteq># held h d" for d
  proof (cases r)
    case NeedsSlow
    then have "sl' = sh_slab h" using eff(4) by simp
    then show ?thesis unfolding held by (simp add: held_def)
  next
    case (FOk p)
    then show ?thesis
      using eff(5) [of p] unfolding held held_def [of h] by (cases "d = c") auto
  qed
  show "hinv h' ls" using hinv_step [OF h st(1,2) bits] sub hinv_parts(4) [OF h]
    unfolding held_ok_def by (meson subset_mset.order_trans)
  show "case r of NeedsSlow \<Rightarrow> held h' = held h
     | FOk p \<Rightarrow> p \<in># all_objs h c \<and> held h c = add_mset p (held h' c) \<and>
         (\<forall>d. small_class d \<and> d \<noteq> c \<longrightarrow> held h' d = held h d)"
  proof (cases r)
    case NeedsSlow
    then have "sl' = sh_slab h" using eff(4) by simp
    then show ?thesis using NeedsSlow held by (simp add: held_def fun_eq_iff)
  next
    case (FOk p)
    then have "held h c = add_mset p (held h' c)" "\<forall>d. d \<noteq> c \<longrightarrow> held h' d = held h d"
      using eff(5) [of p] unfolding held by (auto simp: held_def)
    moreover from this have "p \<in># all_objs h c"
      using hinv_parts(4) [OF h] c unfolding held_ok_def by (metis mset_subset_eqD union_single_eq_member add_mset_add_single)
    ultimately show ?thesis using FOk by simp
  qed
qed

lemma sh_pop_ok:
  assumes h: "hinv h ls" and c: "small_class c" and cs: "bind_ok (sh_slab h) cs"
  shows "\<exists>h' r. sh_pop x cs c h = Some (h', r) \<and> hinv h' ls \<and> same_map h h' \<and> bind_ok (sh_slab h') cs \<and> tally h' = tally h \<and>
    (case r of NeedsSlow \<Rightarrow> held h' = held h
     | FOk p \<Rightarrow> p \<in># all_objs h c \<and> held h c = add_mset p (held h' c) \<and>
         (\<forall>d. small_class d \<and> d \<noteq> c \<longrightarrow> held h' d = held h d))"
proof -
  have sl: "slab_inv NUM_CLASSES (sh_slab h)" using hinv_parts(1) [OF h] by (simp add: geom_def)
  have cc: "c < NUM_CLASSES" using c by (simp add: small_class_def)
  obtain cpu where cpu: "cpu < num_cpus (sh_slab h)" "pop (sh_slab h) (env_at x (clock h)) cs c = Some (pop_at (sh_slab h) cpu c)"
    using pop_cases [OF sl cs cc] by blast
  obtain sl' r where r: "pop_at (sh_slab h) cpu c = (sl', r)" by (cases "pop_at (sh_slab h) cpu c")
  note k = pop_at_ok [OF h c cpu(1) r refl]
  then show ?thesis using cpu(2) r cs by (auto simp: sh_pop_def tally_def bind_ok_def)
qed

lemma sh_push_ok:
  assumes h: "hinv h ls" and c: "small_class c" and cs: "bind_ok (sh_slab h) cs"
    and p: "p \<in># all_objs h c" "p \<notin># held h c"
  shows "\<exists>h' r. sh_push x cs c p h = Some (h', r) \<and> hinv h' ls \<and> same_map h h' \<and> bind_ok (sh_slab h') cs \<and> tally h' = tally h \<and>
    (case r of NeedsSlow \<Rightarrow> held h' = held h
     | FOk _ \<Rightarrow> held h' c = add_mset p (held h c) \<and> (\<forall>d. small_class d \<and> d \<noteq> c \<longrightarrow> held h' d = held h d))"
proof -
  note g = hinv_parts(1) [OF h]
  have sl: "slab_inv NUM_CLASSES (sh_slab h)" using g by (simp add: geom_def)
  have cc: "c < NUM_CLASSES" using c by (simp add: small_class_def)
  have p0: "p \<noteq> 0" using obj_tile [OF c p(1)] tile_bounds(5) [OF g _ c] by blast
  obtain cpu where cpu: "cpu < num_cpus (sh_slab h)"
    "push (sh_slab h) (env_at x (clock h)) cs c p = Some (push_at (sh_slab h) cpu c p)"
    using push_cases [OF sl cs cc p0] by blast
  obtain sl' r where r: "push_at (sh_slab h) cpu c p = (sl', r)" by (cases "push_at (sh_slab h) cpu c p")
  note eff = push_at_effect [OF sl cpu(1) cc p0 r]
  let ?h = "h\<lparr>sh_slab := sl', clock := Suc (clock h)\<rparr>"
  note st = slab_step [OF g eff(1), of "Suc (clock h)"]
  note e = same_map_eqs [OF st(1)]
  have bits: "bits_ok ?h" using hinv_parts(3) [OF h] unfolding bits_ok_def e st(3) by simp
  have held: "held ?h d = class_objs sl' d + image_mset (addr (hbase h) d) (mset_set (ubits h \<inter> tiles h d))" for d
    unfolding held_def e st(3) by simp
  have res: "case r of NeedsSlow \<Rightarrow> held ?h = held h
     | FOk _ \<Rightarrow> held ?h c = add_mset p (held h c) \<and> (\<forall>d. small_class d \<and> d \<noteq> c \<longrightarrow> held ?h d = held h d)"
  proof (cases r)
    case NeedsSlow
    then have "sl' = sh_slab h" using eff(4) by simp
    then show ?thesis using NeedsSlow held by (simp add: held_def fun_eq_iff)
  next
    case (FOk u)
    then show ?thesis using eff(5) [of u] unfolding held by (auto simp: held_def)
  qed
  have "held ?h d \<subseteq># all_objs h d" if "small_class d" for d
    using res hinv_parts(4) [OF h] that add_mset_sub [OF _ p(2,1)] unfolding held_ok_def
    by (cases r; cases "d = c") auto
  then have "hinv ?h ls" using hinv_step [OF h st(1,2) bits] by blast
  moreover have "bind_ok sl' cs" using cs eff(2) by (simp add: bind_ok_def)
  ultimately show ?thesis using cpu(2) r st(1) res eff(2) by (auto simp: sh_push_def tally_def)
qed

text \<open>The per-CPU slab together with the central bitmaps is an object store for every class.\<close>

definition store_inv :: "sub_heap \<Rightarrow> (nat \<Rightarrow> nat list) \<Rightarrow> nat \<Rightarrow> nat \<Rightarrow> sub_heap \<Rightarrow> bool" where
  "store_inv h0 ls cs c h \<longleftrightarrow> hinv h ls \<and> small_class c \<and> bind_ok (sh_slab h) cs \<and> same_map h0 h \<and> tally h = tally h0 \<and>
     (\<forall>d. small_class d \<and> d \<noteq> c \<longrightarrow> held h d = held h0 d)"

interpretation shs: object_store "sh_pop x cs c" "sh_push x cs c" "store_inv h0 ls cs c" "\<lambda>h. held h c"
  "\<lambda>h p. p \<in># all_objs h c" "central_deposit (CLASS_SIZES ! c)" for x cs c h0 ls
proof
  fix h p
  assume i: "store_inv h0 ls cs c h"
  then have h: "hinv h ls" "small_class c" "bind_ok (sh_slab h) cs" "same_map h0 h"
    "\<forall>d. small_class d \<and> d \<noteq> c \<longrightarrow> held h d = held h0 d" "tally h = tally h0" by (auto simp: store_inv_def)
  have ao: "same_map h h' \<Longrightarrow> (\<lambda>p. p \<in># all_objs h' c) = (\<lambda>p. p \<in># all_objs h c)" for h'
    by (simp add: same_map_eqs(6))
  obtain h' r where r: "sh_pop x cs c h = Some (h', r)" "hinv h' ls" "same_map h h'" "bind_ok (sh_slab h') cs" "tally h' = tally h"
    "case r of NeedsSlow \<Rightarrow> held h' = held h
     | FOk p \<Rightarrow> p \<in># all_objs h c \<and> held h c = add_mset p (held h' c) \<and>
         (\<forall>d. small_class d \<and> d \<noteq> c \<longrightarrow> held h' d = held h d)"
    using sh_pop_ok [OF h(1-3)] by blast
  show "\<exists>h' r. sh_pop x cs c h = Some (h', r) \<and> store_inv h0 ls cs c h' \<and>
      (\<lambda>p. p \<in># all_objs h' c) = (\<lambda>p. p \<in># all_objs h c) \<and>
      (case r of NeedsSlow \<Rightarrow> held h' c = held h c
       | FOk p \<Rightarrow> p \<in># all_objs h c \<and> held h c = add_mset p (held h' c))"
    using r h ao [OF r(3)] same_map_trans [OF h(4) r(3)] by (cases r) (auto simp: store_inv_def)
  show "count (held h c) p \<le> 1"
    using hinv_parts(4) [OF h(1)] h(2) all_objs_once [OF h(2), of h p] unfolding held_ok_def
    by (meson le_trans mset_subset_eq_count)
  assume p: "p \<in># all_objs h c" "p \<notin># held h c"
  obtain h' r where r: "sh_push x cs c p h = Some (h', r)" "hinv h' ls" "same_map h h'" "bind_ok (sh_slab h') cs" "tally h' = tally h"
    "case r of NeedsSlow \<Rightarrow> held h' = held h
     | FOk _ \<Rightarrow> held h' c = add_mset p (held h c) \<and> (\<forall>d. small_class d \<and> d \<noteq> c \<longrightarrow> held h' d = held h d)"
    using sh_push_ok [OF h(1-3) p] by blast
  show "\<exists>h' r. sh_push x cs c p h = Some (h', r) \<and> store_inv h0 ls cs c h' \<and>
      (\<lambda>p. p \<in># all_objs h' c) = (\<lambda>p. p \<in># all_objs h c) \<and>
      (case r of NeedsSlow \<Rightarrow> held h' c = held h c | FOk _ \<Rightarrow> held h' c = add_mset p (held h c))"
    using r h ao [OF r(3)] same_map_trans [OF h(4) r(3)] by (cases r) (auto simp: store_inv_def)
  obtain h' where "central_deposit (CLASS_SIZES ! c) p h = Some h'" "hinv h' ls" "same_map h h'"
    "sh_slab h' = sh_slab h" "tally h' = tally h" "held h' c = add_mset p (held h c)"
    "\<forall>d. small_class d \<and> d \<noteq> c \<longrightarrow> held h' d = held h d"
    using central_deposit_ok [OF h(1,2) p] unfolding tally_def by metis
  then show "\<exists>h'. central_deposit (CLASS_SIZES ! c) p h = Some h' \<and> store_inv h0 ls cs c h' \<and>
      (\<lambda>p. p \<in># all_objs h' c) = (\<lambda>p. p \<in># all_objs h c) \<and> held h' c = add_mset p (held h c)"
    using h ao [of h'] same_map_trans [OF h(4), of h'] by (auto simp: store_inv_def)
qed

subsection \<open>Scanning a span\<close>

lemma take_bits_ok:
  "\<exists>ks t'. take_bits room w t acc = (t', acc @ ks) \<and> distinct ks \<and> set ks \<subseteq> bits w \<and>
     bits t' = bits t \<union> set ks \<and> length ks \<le> room \<and> (length ks < room \<longrightarrow> set ks = bits w)"
proof (induction room arbitrary: w t acc)
  case (Suc room)
  show ?case
  proof (cases "w = 0")
    case False
    let ?b = "trailing_zeros w"
    have b: "?b \<in> bits w" "?b < 64" using trailing_zeros_in trailing_zeros_less False by auto
    let ?w = "w AND NOT (push_bit ?b 1)"
    have w: "bits ?w = bits w - {?b}" using b(2) by (simp add: bits_AND_NOT bits_single del: push_bit_of_1)
    obtain ks t' where k: "take_bits room ?w (t OR push_bit ?b 1) (acc @ [?b]) = (t', (acc @ [?b]) @ ks)"
      "distinct ks" "set ks \<subseteq> bits ?w" "bits t' = bits (t OR push_bit ?b 1) \<union> set ks" "length ks \<le> room"
      "length ks < room \<longrightarrow> set ks = bits ?w"
      using Suc.IH by blast
    have t: "bits (t OR push_bit ?b 1) = bits t \<union> {?b}" using b(2) by (simp add: bits_OR bits_single del: push_bit_of_1)
    have "take_bits (Suc room) w t acc = (t', acc @ ?b # ks)" using False k(1) by (simp add: Let_def del: push_bit_of_1)
    moreover have "distinct (?b # ks)" "set (?b # ks) \<subseteq> bits w" "bits t' = bits t \<union> set (?b # ks)"
      "length (?b # ks) \<le> Suc room" "length (?b # ks) < Suc room \<longrightarrow> set (?b # ks) = bits w"
      using k w t b by auto
    ultimately show ?thesis by blast
  qed auto
qed auto

definition ub :: "span_bitmaps \<Rightarrow> nat set" where
  "ub b = alloc_bits b \<union> free_bits b"

definition disj_bits :: "span_bitmaps \<Rightarrow> bool" where
  "disj_bits b \<longleftrightarrow> alloc_bits b \<inter> free_bits b = {}"

lemma word_slots_image: "word_slots i w m = (\<lambda>j. slot_id i (w * 64 + j)) ` bits m"
  by (simp add: word_slots_def)

lemma scan_words_ok:
  assumes "bm_shape spans b" "i < spans" "\<forall>w\<in>set ws. w < 128" "distinct ws" "disj_bits b" "length out \<le> len"
  shows "\<exists>b' ks. scan_words i len osz ws b out =
      Some (b', out @ map (\<lambda>s. add64 (span_base b i) (s * osz)) ks) \<and>
    bm_shape spans b' \<and> same_links b b' \<and> disj_bits b' \<and> distinct ks \<and>
    slot_id i ` set ks \<subseteq> ub b \<inter> words_of i ws \<and> ub b' = ub b - slot_id i ` set ks \<and>
    length out + length ks \<le> len \<and> (length out + length ks < len \<longrightarrow> ub b' \<inter> words_of i ws = {})"
  using assms
proof (induction ws arbitrary: b out)
  case Nil
  then show ?case by (intro exI [of _ b] exI [of _ "[]"]) simp
next
  case (Cons w ws)
  show ?case
  proof (cases "length out = len")
    case True
    then show ?thesis using Cons.prems by (intro exI [of _ b] exI [of _ "[]"]) simp
  next
    case False
    obtain b1 v where 1: "fold_free_word b i w = Some (b1, v)" "bm_shape spans b1" "same_links b b1"
      "free_bits b1 = free_bits b - in_word i w"
      "alloc_bits b1 = alloc_bits b \<union> (free_bits b \<inter> in_word i w)"
      "word_slots i w v = alloc_bits b1 \<inter> in_word i w"
      using fold_free_word_bits [OF Cons.prems(1,2), of w] Cons.prems(3) by auto
    have u1: "ub b1 = ub b" "disj_bits b1" using 1(4,5) Cons.prems(5) by (auto simp: ub_def disj_bits_def)
    obtain ks0 tk where tk: "take_bits (len - length out) v 0 [] = (tk, ks0)" "distinct ks0" "set ks0 \<subseteq> bits v"
      "bits tk = set ks0" "length ks0 \<le> len - length out" "length ks0 < len - length out \<longrightarrow> set ks0 = bits v"
      using take_bits_ok [of "len - length out" v 0 "[]"] by auto
    obtain b2 where 2: "(if v = 0 then Some b1 else alloc_clear b1 i w tk) = Some b2" "bm_shape spans b2"
      "same_links b1 b2" "free_bits b2 = free_bits b1" "alloc_bits b2 = alloc_bits b1 - word_slots i w tk"
    proof (cases "v = 0")
      case True
      then have "word_slots i w tk = {}" using tk(3,4) by (simp add: word_slots_def)
      then show ?thesis using that [of b1] True 1(2) by simp
    next
      case False
      then show ?thesis using that alloc_clear_bits [OF 1(2) Cons.prems(2), of w tk] Cons.prems(3) by auto
    qed
    let ?ks = "map (\<lambda>k. w * 64 + k) ks0"
    have img: "slot_id i ` set ?ks = word_slots i w tk" using tk(4) by (auto simp: word_slots_def)
    have sub: "word_slots i w tk \<subseteq> word_slots i w v" using tk(3,4) by (auto simp: word_slots_def)
    have u2: "ub b2 = ub b - slot_id i ` set ?ks" "disj_bits b2"
      using 2(4,5) u1 img sub 1(6) unfolding ub_def disj_bits_def by auto
    let ?out = "out @ map (\<lambda>s. add64 (span_base b i) (s * osz)) ?ks"
    have sb: "span_base b1 i = span_base b i" "span_base b2 i = span_base b i"
      using 1(3) 2(3) by (simp_all add: span_base_def same_links_def)
    have v0: "v = 0 \<Longrightarrow> ks0 = []" using tk(3) by simp
    have step: "scan_words i len osz (w # ws) b out = scan_words i len osz ws b2 ?out"
      using False 1(1) tk(1) 2(1) sb v0 by (cases "v = 0") (auto simp: comp_def)
    have len: "length ?out \<le> len" using tk(5) False Cons.prems(6) by simp
    obtain b' ks where b': "scan_words i len osz ws b2 ?out =
        Some (b', ?out @ map (\<lambda>s. add64 (span_base b2 i) (s * osz)) ks)"
      "bm_shape spans b'" "same_links b2 b'" "disj_bits b'" "distinct ks"
      "slot_id i ` set ks \<subseteq> ub b2 \<inter> words_of i ws" "ub b' = ub b2 - slot_id i ` set ks"
      "length ?out + length ks \<le> len" "length ?out + length ks < len \<longrightarrow> ub b' \<inter> words_of i ws = {}"
      using Cons.IH [OF 2(2) Cons.prems(2) _ _ u2(2) len] Cons.prems(3,4) by auto
    have iw: "word_slots i w tk \<subseteq> in_word i w \<inter> ub b" using sub 1(6) u1 by (auto simp: ub_def)
    have dj: "in_word i w \<inter> words_of i ws = {}" using in_word_words Cons.prems(4) by auto
    have "slot_id i ` set ?ks \<inter> slot_id i ` set ks = {}" using img iw dj b'(6) by blast
    then have d: "distinct (?ks @ ks)" using tk(2) b'(5) by (auto simp: distinct_map inj_on_def)
    have all: "ub b' \<inter> in_word i w = {}" if "length ?out + length ks < len"
    proof -
      have "length ks0 < len - length out" using that by simp
      then have "word_slots i w tk = word_slots i w v" using tk(4,6) by (simp add: word_slots_def)
      then have "ub b2 \<inter> in_word i w = {}" using u2(1) img 1(4,6) u1 by (auto simp: ub_def)
      then show ?thesis using b'(7) by blast
    qed
    have "slot_id i ` set (?ks @ ks) = slot_id i ` set ?ks \<union> slot_id i ` set ks" by (simp add: image_Un)
    then have fin: "slot_id i ` set (?ks @ ks) \<subseteq> ub b \<inter> words_of i (w # ws)"
      "ub b' = ub b - slot_id i ` set (?ks @ ks)"
      using b'(6,7) u2(1) img iw by auto
    have links: "same_links b b'" using 1(3) 2(3) b'(3) same_links_trans by blast
    show ?thesis
      using step b' d fin links sb all
      by (intro exI [of _ b'] exI [of _ "?ks @ ks"]) (auto simp: Int_Un_distrib)
  qed
qed

definition obj_at :: "span_bitmaps \<Rightarrow> nat \<Rightarrow> nat \<Rightarrow> nat" where
  "obj_at b osz k = add64 (span_base b (k div 8192)) (k mod 8192 * osz)"

lemma obj_at_cong: "same_links b b' \<Longrightarrow> obj_at b' = obj_at b"
  by (simp add: obj_at_def span_base_def same_links_def fun_eq_iff)

text \<open>\<open>takes b b' ks\<close>: \<open>b'\<close> is \<open>b\<close> with exactly the free slots \<open>ks\<close> removed.\<close>

definition takes :: "nat \<Rightarrow> span_bitmaps \<Rightarrow> span_bitmaps \<Rightarrow> nat list \<Rightarrow> bool" where
  "takes spans b b' ks \<longleftrightarrow> bm_shape spans b' \<and> same_links b b' \<and> disj_bits b' \<and> distinct ks \<and>
     set ks \<subseteq> ub b \<and> ub b' = ub b - set ks"

lemma takes_trans: "takes spans a b ks \<Longrightarrow> takes spans b c js \<Longrightarrow> takes spans a c (ks @ js)"
  using same_links_trans by (auto simp: takes_def)

lemma takes_refl: "bm_shape spans b \<Longrightarrow> disj_bits b \<Longrightarrow> takes spans b b []"
  by (simp add: takes_def)

lemma scan_span_ok:
  assumes "bm_shape spans b" "i < spans" "nw \<le> 128" "disj_bits b" "length out \<le> len"
  shows "\<exists>b' ks. scan_span b i len out nw osz = Some (b', out @ map (obj_at b osz) ks) \<and>
    takes spans b b' ks \<and> (\<forall>k\<in>set ks. k div 8192 = i) \<and> length out + length ks \<le> len \<and>
    (length out + length ks < len \<longrightarrow> ub b' \<inter> words_of i [0..<nw] = {})"
proof -
  have w128: "\<forall>w\<in>set [0..<nw]. w < 128" using assms(3) by auto
  obtain b' ss where s: "scan_words i len osz [0..<nw] b out =
      Some (b', out @ map (\<lambda>s. add64 (span_base b i) (s * osz)) ss)"
    "bm_shape spans b'" "same_links b b'" "disj_bits b'" "distinct ss"
    "slot_id i ` set ss \<subseteq> ub b \<inter> words_of i [0..<nw]" "ub b' = ub b - slot_id i ` set ss"
    "length out + length ss \<le> len" "length out + length ss < len \<longrightarrow> ub b' \<inter> words_of i [0..<nw] = {}"
    using scan_words_ok [OF assms(1,2) w128 distinct_upt assms(4,5), of osz] by blast
  let ?ks = "map (slot_id i) ss"
  have dm: "slot_id i s div 8192 = i \<and> slot_id i s mod 8192 = s" if "s \<in> set ss" for s
  proof -
    have "slot_id i s \<in> words_of i [0..<nw]" using s(6) that by blast
    then have "s < 8192" using assms(3) unfolding words_of_upt by (auto simp: slot_id_def)
    then show ?thesis by (rule slot_id_divmod)
  qed
  have "map (obj_at b osz) ?ks = map (\<lambda>s. add64 (span_base b i) (s * osz)) ss"
    using dm by (simp add: obj_at_def)
  moreover have "distinct ?ks" using s(5) by (simp add: distinct_map inj_on_def slot_id_def)
  ultimately show ?thesis
    using s dm unfolding scan_span_def takes_def
    by (intro exI [of _ b'] exI [of _ ?ks]) auto
qed

lemma take_walk_ok:
  assumes "bm_shape spans b" "disj_bits b" "nw \<le> 128" "length out \<le> len"
    and "alist (next_active b) span xs NO_SPAN" "distinct xs" "\<forall>i\<in>set xs. i < spans" "length xs < fuel"
  shows "\<exists>b' ks. take_walk fuel hint len nw osz span b out = Some (b', out @ map (obj_at b osz) ks) \<and>
    takes spans b b' ks \<and> (\<forall>k\<in>set ks. k div 8192 \<in> set xs) \<and> length out + length ks \<le> len \<and>
    (length out + length ks < len \<longrightarrow> (\<forall>i\<in>set xs - {hint}. ub b' \<inter> words_of i [0..<nw] = {}))"
  using assms
proof (induction xs arbitrary: fuel span b out)
  case Nil
  then obtain f where "fuel = Suc f" by (cases fuel) auto
  then show ?case using Nil takes_refl by (intro exI [of _ b] exI [of _ "[]"]) simp
next
  case (Cons i xs)
  obtain f where f: "fuel = Suc f" "length xs < f" using Cons.prems(8) by (cases fuel) auto
  have sp: "span = i" "i \<noteq> NO_SPAN" "alist (next_active b) (next_active b ! i) xs NO_SPAN" "i < spans"
    using Cons.prems by auto
  show ?case
  proof (cases "length out < len")
    case False
    then show ?thesis using f Cons.prems takes_refl by (intro exI [of _ b] exI [of _ "[]"]) simp
  next
    case True
    obtain b1 ks where 1: "(if i \<noteq> hint then scan_span b i len out nw osz else Some (b, out)) =
        Some (b1, out @ map (obj_at b osz) ks)" "takes spans b b1 ks" "\<forall>k\<in>set ks. k div 8192 = i"
      "length out + length ks \<le> len"
      "i \<noteq> hint \<longrightarrow> length out + length ks < len \<longrightarrow> ub b1 \<inter> words_of i [0..<nw] = {}"
    proof (cases "i = hint")
      case True
      then show ?thesis using that [of b "[]"] Cons.prems(4) takes_refl [OF Cons.prems(1,2)] by simp
    next
      case False
      then show ?thesis
        using that scan_span_ok [OF Cons.prems(1) sp(4) Cons.prems(3,2,4), of osz] by auto
    qed
    let ?out = "out @ map (obj_at b osz) ks"
    have b1: "bm_shape spans b1" "same_links b b1" "disj_bits b1" using 1(2) by (auto simp: takes_def)
    have na: "next_active b1 = next_active b" using b1(2) by (simp add: same_links_def)
    have nx: "next_span b1 i = Some (next_active b ! i)"
      using b1(1) sp(4) na by (simp add: next_span_def bm_shape_def)
    obtain b' js where b': "take_walk f hint len nw osz (next_active b ! i) b1 ?out =
        Some (b', ?out @ map (obj_at b1 osz) js)" "takes spans b1 b' js" "\<forall>k\<in>set js. k div 8192 \<in> set xs"
      "length ?out + length js \<le> len"
      "length ?out + length js < len \<longrightarrow> (\<forall>i\<in>set xs - {hint}. ub b' \<inter> words_of i [0..<nw] = {})"
      using Cons.IH [of b1 ?out "next_active b ! i" f] b1 na sp(3) Cons.prems 1(4) f(2) by auto
    have "take_walk fuel hint len nw osz span b out = Some (b', out @ map (obj_at b osz) (ks @ js))"
      using f(1) True sp 1(1) nx b'(1) obj_at_cong [OF b1(2)] by simp
    moreover have "takes spans b b' (ks @ js)" using takes_trans 1(2) b'(2) by blast
    moreover have "ub b' \<subseteq> ub b1" using b'(2) by (auto simp: takes_def)
    ultimately show ?thesis
      using 1(3-5) b'(3-5) by (intro exI [of _ b'] exI [of _ "ks @ js"]) auto
  qed
qed

lemma alist_length: "alist na h xs NO_SPAN \<Longrightarrow> distinct xs \<Longrightarrow> length xs \<le> length na"
proof -
  assume a: "alist na h xs NO_SPAN" "distinct xs"
  have "set xs \<subseteq> {..<length na}" using alist_set [OF a(1)] by auto
  then have "card (set xs) \<le> length na" using card_mono [of "{..<length na}" "set xs"] by simp
  then show ?thesis using distinct_card [OF a(2)] by simp
qed

subsection \<open>Taking objects from a central list\<close>

lemma bits_in_scan:
  assumes "hinv h ls" "small_class c" "class_at h i = c"
  shows "ubits h \<inter> {k. k div 8192 = i} \<subseteq> words_of i [0..<div_ceil (nslots c) 64]"
proof
  fix k assume k: "k \<in> ubits h \<inter> {k. k div 8192 = i}"
  then have "k mod 8192 < nslots c" using hinv_parts(3) [OF assms(1)] assms(3) by (auto simp: bits_ok_def tiles_def)
  then have "k \<in> span_slots i (nslots c)" using span_slots_iff [of "nslots c" k i] nslots_bounds [OF assms(2)] k by simp
  then show "k \<in> words_of i [0..<div_ceil (nslots c) 64]"
    using span_slots_scanned [of i "nslots c"] unfolding words_of_upt scanned_def span_slots_def by auto
qed

lemma ub_ubits: "ub (span_bm h) = ubits h"
  by (simp add: ub_def ubits_def)

lemma obj_at_addr:
  assumes "geom h" "k \<in> tiles h c" "small_class c"
  shows "obj_at (span_bm h) (CLASS_SIZES ! c) k = addr (hbase h) c k"
proof -
  note t = tile_bounds [OF assms]
  have "hbase h + nsp h * 65536 < 2 ^ 64" using assms(1) by (simp add: geom_def)
  then show ?thesis using t(4,7) by (simp add: obj_at_def addr_def)
qed

text \<open>Removing a set of free slots of class \<open>c\<close> from the bitmaps moves their objects out of \<open>held\<close>.\<close>

lemma takes_held:
  assumes h: "hinv h ls" and c: "small_class c" and t: "takes (nsp h) (span_bm h) b ks"
    and cls: "\<forall>k\<in>set ks. class_at h (k div 8192) = c"
  shows "hinv (h\<lparr>span_bm := b\<rparr>) ls" "same_map h (h\<lparr>span_bm := b\<rparr>)"
    "map (obj_at (span_bm h) (CLASS_SIZES ! c)) ks = map (addr (hbase h) c) ks"
    "held h c = mset (map (addr (hbase h) c) ks) + held (h\<lparr>span_bm := b\<rparr>) c"
    "small_class d \<Longrightarrow> d \<noteq> c \<Longrightarrow> held (h\<lparr>span_bm := b\<rparr>) d = held h d"
proof -
  let ?h = "h\<lparr>span_bm := b\<rparr>"
  note g = hinv_parts(1) [OF h]
  have b: "bm_shape (nsp h) b" "same_links (span_bm h) b" "disj_bits b" "distinct ks"
    "set ks \<subseteq> ubits h" "ubits ?h = ubits h - set ks"
    using t by (auto simp: takes_def ub_ubits ubits_def ub_def)
  note st = bits_step [OF g b(2,1)]
  show "same_map h ?h" using st(1) .
  note e = same_map_eqs [OF st(1)]
  have tl: "set ks \<subseteq> tiles h c" using b(5) hinv_parts(3) [OF h] cls by (fastforce simp: bits_ok_def)
  show "map (obj_at (span_bm h) (CLASS_SIZES ! c)) ks = map (addr (hbase h) c) ks"
    using obj_at_addr [OF g _ c] tl by auto
  have bits: "bits_ok ?h"
    using hinv_parts(3) [OF h] b(3,6) unfolding bits_ok_def disj_bits_def e by simp
  show hc: "held h c = mset (map (addr (hbase h) c) ks) + held ?h c"
  proof -
    have "ubits h \<inter> tiles h c = set ks \<union> ((ubits h - set ks) \<inter> tiles h c)" using tl b(5) by auto
    then have "mset_set (ubits h \<inter> tiles h c) = mset_set (set ks) + mset_set ((ubits h - set ks) \<inter> tiles h c)"
      by (metis (no_types, lifting) Diff_disjoint Int_assoc Int_commute Int_empty_left List.finite_set finite_Int finite_tiles mset_set_Union)
    then show ?thesis
      unfolding held_def b(6) e using b(4) by (simp add: mset_set_set ac_simps)
  qed
  show hd: "held ?h d = held h d" if "small_class d" "d \<noteq> c" for d
  proof -
    have "(ubits h - set ks) \<inter> tiles h d = ubits h \<inter> tiles h d" using tl tiles_class [of _ h c d] that by auto
    then show ?thesis unfolding held_def b(6) e by simp
  qed
  have "held ?h d \<subseteq># all_objs h d" if "small_class d" for d
    using hinv_parts(4) [OF h] that hd [OF that] hc unfolding held_ok_def
    by (metis mset_subset_eq_add_right subset_mset.order_trans)
  then show "hinv ?h ls" using hinv_step [OF h st bits] by blast
qed


lemma span_lookup:
  assumes "geom h" "i < nsp h"
  shows "lookup (span_tab h) (span_base (span_bm h) i) = Some (unpack (entries (span_tab h) ! i))"
    "entries (span_tab h) ! i < 2 ^ 32" "span_base (span_bm h) i = hbase h + i * 65536"
    "i * 65536 < budget_bytes h" "length (entries (span_tab h)) = nsp h"
proof -
  have g: "st_shape (span_tab h)" "st_base (span_tab h) = hbase h" "st_len (span_tab h) = budget_bytes h"
    "hbase h + nsp h * 65536 < 2 ^ 64" "\<forall>v\<in>set (entries (span_tab h)). v < 2 ^ 32"
    using assms(1) by (auto simp: geom_def)
  show len: "length (entries (span_tab h)) = nsp h" using g(1,3) by (simp add: st_shape_def nsp_def)
  then show "entries (span_tab h) ! i < 2 ^ 32" using g(5) assms(2) by simp
  have "Suc i * 65536 \<le> nsp h * 65536" using assms(2) by (intro mult_le_mono1) simp
  then have up: "i * 65536 + 65536 \<le> nsp h * 65536" by simp
  have "nsp h * 65536 < budget_bytes h + 65536" unfolding nsp_def using div_ceil_mult_less [of 65536 "budget_bytes h"] by simp
  then show b: "i * 65536 < budget_bytes h" using up by linarith
  show a: "span_base (span_bm h) i = hbase h + i * 65536" using up g(4) by (intro span_base_eq) linarith
  show "lookup (span_tab h) (span_base (span_bm h) i) = Some (unpack (entries (span_tab h) ! i))"
    using lookup_entry [OF g(1), of "hbase h + i * 65536"] g(2,3) a b by simp
qed

lemma unpack_class: "v < 2 ^ 32 \<Longrightarrow> 0 < c \<Longrightarrow>
    (case unpack v of Some (hc, _) \<Rightarrow> hc = c | None \<Rightarrow> False) \<longleftrightarrow> v div 2 ^ 16 = c"
proof -
  assume "v < 2 ^ 32" "0 < c"
  then have "v div 2 ^ 16 < 2 ^ 16" by (simp add: div_less_iff_less_mult)
  then show ?thesis using \<open>0 < c\<close> by (auto simp: unpack_def)
qed

lemma hint_scan_ok:
  assumes h: "hinv h ls" and c: "small_class c" and cl: "cl \<in> set (central_lists h)"
  shows "\<exists>b ks hint. (if max (SPAN_BYTES div CLASS_SIZES ! c) 1 \<le> 64 \<and> reuse_hint cl \<noteq> NO_SPAN then do {
             l \<leftarrow> lookup (span_tab h) (span_base (span_bm h) (reuse_hint cl));
             if (case l of Some (hc, _) \<Rightarrow> hc = c | None \<Rightarrow> False)
             then do {
               (b, out) \<leftarrow> scan_span (span_bm h) (reuse_hint cl) len [] (div_ceil (nslots c) 64) (CLASS_SIZES ! c);
               Some (b, out, reuse_hint cl)
             }
             else Some (span_bm h, [], NO_SPAN)
           }
           else Some (span_bm h, [], NO_SPAN)) =
      Some (b, map (obj_at (span_bm h) (CLASS_SIZES ! c)) ks, hint) \<and>
    takes (nsp h) (span_bm h) b ks \<and> (\<forall>k\<in>set ks. class_at h (k div 8192) = c) \<and> length ks \<le> len \<and>
    (hint \<noteq> NO_SPAN \<and> length ks < len \<longrightarrow> ub b \<inter> words_of hint [0..<div_ceil (nslots c) 64] = {})"
    (is "\<exists>b ks hint. ?e = Some (b, ?m ks, hint) \<and> ?P b ks hint")
proof -
  note g = hinv_parts(1) [OF h]
  have b0: "bm_shape (nsp h) (span_bm h)" "disj_bits (span_bm h)"
    using g hinv_parts(3) [OF h] by (auto simp: geom_def bits_ok_def disj_bits_def)
  have d: "div_ceil (nslots c) 64 \<le> 128" using nslots_bounds [OF c] by (subst div_ceil_le_iff) auto
  show ?thesis
  proof (cases "max (SPAN_BYTES div CLASS_SIZES ! c) 1 \<le> 64 \<and> reuse_hint cl \<noteq> NO_SPAN \<and> class_at h (reuse_hint cl) = c")
    case True
    let ?i = "reuse_hint cl"
    have i: "?i < nsp h" using True g cl by (auto simp: geom_def)
    note lk = span_lookup [OF g i]
    have "case unpack (entries (span_tab h) ! ?i) of Some (hc, _) \<Rightarrow> hc = c | None \<Rightarrow> False"
      using True unpack_class [OF lk(2), of c] c by (simp add: class_at_def small_class_def)
    moreover obtain b ks where s: "scan_span (span_bm h) ?i len [] (div_ceil (nslots c) 64) (CLASS_SIZES ! c) = Some (b, [] @ ?m ks)"
      "takes (nsp h) (span_bm h) b ks" "\<forall>k\<in>set ks. k div 8192 = ?i" "length [] + length ks \<le> len"
      "length [] + length ks < len \<longrightarrow> ub b \<inter> words_of ?i [0..<div_ceil (nslots c) 64] = {}"
      using scan_span_ok [OF b0(1) i d b0(2), of "[]" len "CLASS_SIZES ! c"] by auto
    ultimately have "?e = Some (b, ?m ks, ?i)" using True lk(1) by simp
    then show ?thesis using s True by auto
  next
    case False
    have "?e = Some (span_bm h, ?m [], NO_SPAN)"
    proof (cases "max (SPAN_BYTES div CLASS_SIZES ! c) 1 \<le> 64 \<and> reuse_hint cl \<noteq> NO_SPAN")
      case True
      let ?i = "reuse_hint cl"
      have i: "?i < nsp h" using True g cl by (auto simp: geom_def)
      note lk = span_lookup [OF g i]
      have "\<not> (case unpack (entries (span_tab h) ! ?i) of Some (hc, _) \<Rightarrow> hc = c | None \<Rightarrow> False)"
        using True False unpack_class [OF lk(2), of c] c by (simp add: class_at_def small_class_def)
      then show ?thesis using True lk(1) by simp
    qed auto
    then show ?thesis using takes_refl [OF b0] by fastforce
  qed
qed

lemma central_take_ok:
  assumes h: "hinv h ls" and c: "small_class c" and cell: "cell < length (central_lists h)" "cell mod NUM_CLASSES = c"
  shows "\<exists>b ks. central_take h cell len (CLASS_SIZES ! c) c = Some (h\<lparr>span_bm := b\<rparr>, map (addr (hbase h) c) ks) \<and>
    takes (nsp h) (span_bm h) b ks \<and> (\<forall>k\<in>set ks. class_at h (k div 8192) = c) \<and> length ks \<le> len \<and>
    (length ks < len \<longrightarrow> (\<forall>i\<in>set (ls cell). ub b \<inter> {k. k div 8192 = i} = {}))"
proof -
  note g = hinv_parts(1) [OF h]
  let ?cl = "central_lists h ! cell" and ?osz = "CLASS_SIZES ! c" and ?nw = "div_ceil (nslots c) 64"
  have d: "?nw \<le> 128" using nslots_bounds [OF c] by (subst div_ceil_le_iff) auto
  obtain b1 ks hint where 1: "(if max (SPAN_BYTES div ?osz) 1 \<le> 64 \<and> reuse_hint ?cl \<noteq> NO_SPAN then do {
             l \<leftarrow> lookup (span_tab h) (span_base (span_bm h) (reuse_hint ?cl));
             if (case l of Some (hc, _) \<Rightarrow> hc = c | None \<Rightarrow> False)
             then do {
               (b, out) \<leftarrow> scan_span (span_bm h) (reuse_hint ?cl) len [] ?nw ?osz;
               Some (b, out, reuse_hint ?cl)
             }
             else Some (span_bm h, [], NO_SPAN)
           }
           else Some (span_bm h, [], NO_SPAN)) = Some (b1, map (obj_at (span_bm h) ?osz) ks, hint)"
    "takes (nsp h) (span_bm h) b1 ks" "\<forall>k\<in>set ks. class_at h (k div 8192) = c" "length ks \<le> len"
    "hint \<noteq> NO_SPAN \<and> length ks < len \<longrightarrow> ub b1 \<inter> words_of hint [0..<?nw] = {}"
    using hint_scan_ok [OF h c, of ?cl len] cell(1) by auto
  have b1: "bm_shape (nsp h) b1" "same_links (span_bm h) b1" "disj_bits b1" using 1(2) by (auto simp: takes_def)
  have l: "alist (next_active (span_bm h)) (cl_head ?cl) (ls cell) NO_SPAN" "distinct (ls cell)"
    "\<forall>i\<in>set (ls cell). i < nsp h \<and> class_at h i = c"
    using hinv_parts(2) [OF h] cell unfolding lists_ok_def listed_def by auto
  have al: "alist (next_active b1) (cl_head ?cl) (ls cell) NO_SPAN" using l(1) b1(2) by (simp add: same_links_def)
  obtain b2 js where 2: "take_walk (walk_fuel b1) hint len ?nw ?osz (cl_head ?cl) b1 (map (obj_at (span_bm h) ?osz) ks) =
      Some (b2, map (obj_at (span_bm h) ?osz) ks @ map (obj_at b1 ?osz) js)" "takes (nsp h) b1 b2 js"
    "\<forall>k\<in>set js. k div 8192 \<in> set (ls cell)" "length ks + length js \<le> len"
    "length ks + length js < len \<longrightarrow> (\<forall>i\<in>set (ls cell) - {hint}. ub b2 \<inter> words_of i [0..<?nw] = {})"
    using take_walk_ok [OF b1(1,3) d _ al l(2), of "map (obj_at (span_bm h) ?osz) ks" len "walk_fuel b1" hint ?osz]
      l(3) alist_length [OF al l(2)] 1(4) by (auto simp: walk_fuel_def)
  let ?ks = "ks @ js"
  have tk: "takes (nsp h) (span_bm h) b2 ?ks" using takes_trans 1(2) 2(2) by blast
  have cls: "\<forall>k\<in>set ?ks. class_at h (k div 8192) = c" using 1(3) 2(3) l(3) by auto
  have ad: "map (obj_at (span_bm h) ?osz) ?ks = map (addr (hbase h) c) ?ks"
    using takes_held(3) [OF h c tk cls] .
  have "?osz \<noteq> 0" using osz_pos [OF c] by simp
  then have "central_take h cell len ?osz c = Some (h\<lparr>span_bm := b2\<rparr>, map (addr (hbase h) c) ?ks)"
    unfolding central_take_def Let_def nslots_def [symmetric]
    using 1(1) 2(1) cell(1) ad obj_at_cong [OF b1(2)] by (simp add: nslots_def)
  moreover have "ub b2 \<inter> {k. k div 8192 = i} = {}" if "length ?ks < len" "i \<in> set (ls cell)" for i
  proof -
    have sub: "ub b2 \<subseteq> ub b1" "ub b1 \<subseteq> ubits h" using 1(2) 2(2) ub_ubits [of h] by (auto simp: takes_def)
    have "ub b2 \<inter> words_of i [0..<?nw] = {}"
    proof (cases "i = hint")
      case True
      have "i \<noteq> NO_SPAN" using alist_set [OF al that(2)] by simp
      then show ?thesis using 1(5) True that(1) sub(1) by auto
    next
      case False
      then show ?thesis using 2(5) that by auto
    qed
    then show ?thesis using bits_in_scan [OF h c, of i] l(3) that(2) sub by blast
  qed
  ultimately show ?thesis using tk cls 2(4) by (intro exI [of _ b2] exI [of _ ?ks]) auto
qed

end
