(* ===== verification/Sub_Heap_Spans.thy ===== *)
theory Sub_Heap_Spans
  imports Sub_Heap_Objects
begin

text \<open>
  Who owns a span: the free-run index, a group of spans that holds small objects, or a live large
  run. \<open>spans_ok\<close> says that every carved span has exactly one owner and no other span has one.

  The lemmas follow a span from the free-run index or the arena (\<open>carve_or_reuse_spans\<close>) over
  its entry in the span table to the active list of a cell (\<open>central_carve\<close>), and show that
  nothing in the hands of the program changes. \<open>carve_spans\<close> clamps a request to what is left of
  the arena; for a class larger than a span this leaves a group short, so \<open>central_carve_ok\<close> asks
  for \<open>room\<close>: the arena is exhausted or has the whole group.
\<close>

subsection \<open>Ownership of spans\<close>

definition gsp :: "nat \<Rightarrow> nat" where
  "gsp c = div_ceil (CLASS_SIZES ! c) SPAN_BYTES"

definition carved :: "sub_heap \<Rightarrow> nat" where
  "carved h = (cursor (arena h) - hbase h) div SPAN_BYTES"

text \<open>The first span of a live large run carries the tag by which \<open>dealloc_by_ptr\<close> recognises it.\<close>

definition tags_ok :: "sub_heap \<Rightarrow> bool" where
  "tags_ok h \<longleftrightarrow> (\<forall>a<nsp h. 0 < run_spans (large h) ! a \<longrightarrow> class_at h a = LARGE_CLASS)"

definition arena_ok :: "sub_heap \<Rightarrow> bool" where
  "arena_ok h \<longleftrightarrow> 0 < nsp h \<and> ar_base (arena h) = hbase h \<and> ar_end (arena h) = hbase h + budget_bytes h \<and>
     cursor (arena h) = hbase h + carved h * 65536 \<and> cursor (arena h) \<le> ar_end (arena h) \<and>
     arena_base (large h) = hbase h \<and> pool_inv (la_pool (large h)) \<and> num_spans (la_pool (large h)) = nsp h \<and>
     length (run_spans (large h)) = nsp h \<and> tags_ok h"

lemma tags_same:
  "class_at h' = class_at h \<Longrightarrow> run_spans (large h') = run_spans (large h) \<Longrightarrow> nsp h' = nsp h \<Longrightarrow> tags_ok h' = tags_ok h"
  by (simp add: tags_ok_def)

lemma tags_large: "span_tab h' = span_tab h \<Longrightarrow> run_spans (large h') = run_spans (large h) \<Longrightarrow> budget_bytes h' = budget_bytes h \<Longrightarrow>
    tags_ok h' = tags_ok h"
  by (simp add: tags_ok_def class_at_def nsp_def)

text \<open>
  How many owners a span has: the free-run index, the groups of spans of listed small objects,
  and the live large runs.
\<close>

definition group_owners :: "sub_heap \<Rightarrow> nat \<Rightarrow> nat set" where
  "group_owners h s = {i. listed h i \<and> i \<le> s \<and> s < i + gsp (class_at h i)}"

definition run_owners :: "large_allocator \<Rightarrow> nat \<Rightarrow> nat set" where
  "run_owners la s = {i. i < length (run_spans la) \<and> i \<le> s \<and> s < i + run_spans la ! i}"

definition pool_owner :: "large_allocator \<Rightarrow> nat \<Rightarrow> nat" where
  "pool_owner la s = (if s \<in> free_spans (la_pool la) then 1 else 0)"

definition owners :: "sub_heap \<Rightarrow> nat \<Rightarrow> nat" where
  "owners h s = pool_owner (large h) s + card (group_owners h s) + card (run_owners (large h) s)"

definition spans_ok :: "sub_heap \<Rightarrow> bool" where
  "spans_ok h \<longleftrightarrow> (\<forall>s. owners h s = (if s < carved h then 1 else 0))"

definition sinv :: "sub_heap \<Rightarrow> bool" where
  "sinv h \<longleftrightarrow> arena_ok h \<and> spans_ok h"

lemma gsp_bounds: "small_class c \<Longrightarrow> 0 < gsp c \<and> gsp c \<le> 4"
proof -
  assume c: "small_class c"
  then have "0 < CLASS_SIZES ! c" using osz_pos [OF c] by simp
  then have "0 < gsp c" by (simp add: gsp_def div_ceil_pos)
  moreover have "CLASS_SIZES ! c \<le> 4 * 65536"
    using c class_sizes_max [of c] by (simp add: small_class_def MAX_SMALL_def)
  then have "gsp c \<le> 4" unfolding gsp_def by (subst div_ceil_le_iff) auto
  ultimately show ?thesis by simp
qed

lemma gsp_one: "small_class c \<Longrightarrow> CLASS_SIZES ! c \<le> 65536 \<Longrightarrow> gsp c = 1"
  using gsp_bounds [of c] div_ceil_le_iff [of 65536 "CLASS_SIZES ! c" 1] by (simp add: gsp_def)

lemma finite_owners [simp]: "finite (group_owners h s)" "finite (run_owners la s)"
proof -
  have "group_owners h s \<subseteq> {..s}" "run_owners la s \<subseteq> {..s}" by (auto simp: group_owners_def run_owners_def)
  then show "finite (group_owners h s)" "finite (run_owners la s)" using finite_subset by blast+
qed

lemma same_map_sinv: "same_map h h' \<Longrightarrow> sinv h \<Longrightarrow> sinv h'"
proof -
  assume s: "same_map h h'" and i: "sinv h"
  note e = same_map_eqs [OF s]
  have b: "budget_bytes h' = budget_bytes h" using s by (simp add: same_map_def)
  have "carved h' = carved h" using e by (simp add: carved_def)
  moreover have "owners h' = owners h" using e by (simp add: owners_def group_owners_def fun_eq_iff)
  moreover have "tags_ok h' = tags_ok h" using e s by (intro tags_large) (simp_all add: same_map_def)
  ultimately show ?thesis using i e b unfolding sinv_def arena_ok_def spans_ok_def by simp
qed

lemma owned_no_run:
  assumes "card (run_owners (large h) a) = 0" "a < length (run_spans (large h))"
  shows "run_spans (large h) ! a = 0"
proof (rule ccontr)
  assume "run_spans (large h) ! a \<noteq> 0"
  then have "a \<in> run_owners (large h) a" using assms(2) by (simp add: run_owners_def)
  then show False using assms(1) by auto
qed

lemma listed_owner: "listed h i \<Longrightarrow> small_class (class_at h i) \<Longrightarrow> i \<le> s \<Longrightarrow> s < i + gsp (class_at h i) \<Longrightarrow> 1 \<le> card (group_owners h s)"
  using card_gt_0_iff [of "group_owners h s"] by (force simp: group_owners_def)

lemma pool_unlisted:
  assumes "spans_ok h" "lists_ok h ls" "s \<in> free_spans (la_pool (large h))"
  shows "\<not> listed h s"
proof
  assume l: "listed h s"
  then have c: "small_class (class_at h s)" using assms(2) by (simp add: lists_ok_def)
  then have "1 \<le> card (group_owners h s)" using listed_owner [OF l c, of s] gsp_bounds [OF c] by simp
  moreover have "owners h s \<le> 1" using assms(1) by (simp add: spans_ok_def)
  ultimately show False using assms(3) by (simp add: owners_def pool_owner_def)
qed

lemma uncarved_unlisted:
  assumes "spans_ok h" "lists_ok h ls" "carved h \<le> s"
  shows "\<not> listed h s"
proof
  assume l: "listed h s"
  then have c: "small_class (class_at h s)" using assms(2) by (simp add: lists_ok_def)
  then have "1 \<le> card (group_owners h s)" using listed_owner [OF l c, of s] gsp_bounds [OF c] by simp
  moreover have "owners h s = 0" using assms(1,3) by (simp add: spans_ok_def)
  ultimately show False by (simp add: owners_def)
qed

subsection \<open>Tagging spans that are not listed\<close>

text \<open>
  \<open>retag h h' a m v\<close>: the span table gives the \<open>m\<close> spans from \<open>a\<close> on the entry \<open>v\<close>; bitmaps,
  lists and slab are the same.
\<close>

definition retag :: "sub_heap \<Rightarrow> sub_heap \<Rightarrow> nat \<Rightarrow> nat \<Rightarrow> nat \<Rightarrow> bool" where
  "retag h h' a m v \<longleftrightarrow> span_bm h' = span_bm h \<and> central_lists h' = central_lists h \<and> num_shards h' = num_shards h \<and>
     sh_slab h' = sh_slab h \<and> counters h' = counters h \<and> budget_bytes h' = budget_bytes h \<and>
     st_shape (span_tab h') \<and> st_base (span_tab h') = st_base (span_tab h) \<and> st_len (span_tab h') = st_len (span_tab h) \<and>
     (\<forall>j. entries (span_tab h') ! j = (if a \<le> j \<and> j < a + m then v else entries (span_tab h) ! j))"

lemma retag_class: "retag h h' a m (pack c home) \<Longrightarrow> c < 2 ^ 16 \<Longrightarrow> home < 2 ^ 16 \<Longrightarrow>
    class_at h' j = (if a \<le> j \<and> j < a + m then c else class_at h j)"
  by (simp add: retag_def class_at_def pack_def)

lemma retag_tags:
  assumes "retag h h' a m (pack c home)" "c < 2 ^ 16" "home < 2 ^ 16" "tags_ok h" "run_spans (large h') = run_spans (large h)"
    and "\<forall>j. a \<le> j \<and> j < a + m \<and> j < nsp h \<longrightarrow> run_spans (large h) ! j = 0"
  shows "tags_ok h'"
proof -
  have "nsp h' = nsp h" using assms(1) by (simp add: retag_def nsp_def)
  then show ?thesis using assms(4-6) retag_class [OF assms(1-3)] by (auto simp: tags_ok_def)
qed

lemma retag_hinv:
  assumes h: "hinv h ls" and r: "retag h h' a m v" and v: "v < 2 ^ 32"
    and un: "\<forall>s. a \<le> s \<and> s < a + m \<longrightarrow> \<not> listed h s"
  shows "hinv h' ls" "held h' = held h" "all_objs h' = all_objs h" "listed h' = listed h" "nsp h' = nsp h"
    "\<And>i. class_at h' i = (if a \<le> i \<and> i < a + m then v div 2 ^ 16 else class_at h i)"
    "hbase h' = hbase h" "ubits h' = ubits h"
proof -
  have r': "span_bm h' = span_bm h" "central_lists h' = central_lists h" "num_shards h' = num_shards h"
    "sh_slab h' = sh_slab h" "counters h' = counters h" "budget_bytes h' = budget_bytes h" using r by (simp_all add: retag_def)
  show n: "nsp h' = nsp h" and b: "hbase h' = hbase h" and u: "ubits h' = ubits h"
    using r' by (simp_all add: nsp_def ubits_def)
  show l: "listed h' = listed h" using r' n by (simp add: listed_def fun_eq_iff)
  show c: "\<And>i. class_at h' i = (if a \<le> i \<and> i < a + m then v div 2 ^ 16 else class_at h i)"
    using r by (simp add: class_at_def retag_def)
  have cl: "class_at h' i = class_at h i" if "listed h i" for i using un that c [of i] by auto
  have t: "tiles h' = tiles h" using cl l by (auto simp: tiles_def fun_eq_iff)
  show ao: "all_objs h' = all_objs h" using t b by (simp add: all_objs_def fun_eq_iff)
  show hd: "held h' = held h" using t b u r' by (simp add: held_def fun_eq_iff)
  have "entries (span_tab h') ! j < 2 ^ 32" if "j < nsp h" for j
    using r v span_lookup(2) [OF hinv_parts(1) [OF h] that] by (simp add: retag_def)
  moreover have "length (entries (span_tab h')) = nsp h"
    using r hinv_parts(1) [OF h] by (simp add: retag_def geom_def st_shape_def nsp_def)
  ultimately have "\<forall>v\<in>set (entries (span_tab h')). v < 2 ^ 32" by (metis in_set_conv_nth)
  then have "geom h'" using hinv_parts(1) [OF h] r r' n by (simp add: geom_def retag_def)
  moreover have "lists_ok h' ls"
    using hinv_parts(2) [OF h] cl unfolding lists_ok_def r' l by auto
  moreover have "bits_ok h'"
  proof -
    have "k \<in> tiles h' (class_at h' (k div 8192))" if k: "k \<in> ubits h'" for k
    proof -
      have k': "k \<in> tiles h (class_at h (k div 8192))" using hinv_parts(3) [OF h] k unfolding u bits_ok_def by blast
      then have "listed h (k div 8192)" unfolding tiles_def by blast
      from cl [OF this] show ?thesis unfolding t using k' by (rule ssubst)
    qed
    moreover have "alloc_bits (span_bm h') \<inter> free_bits (span_bm h') = {}"
      using hinv_parts(3) [OF h] unfolding bits_ok_def r'(1) by (rule conjunct1)
    ultimately show ?thesis unfolding bits_ok_def by (intro conjI ballI)
  qed
  ultimately show "hinv h' ls" using hinv_parts(4) [OF h] unfolding hinv_def held_ok_def ao hd by blast
qed

lemma assign_run_entries:
  assumes t: "st_shape t" and a: "a * 65536 < st_len t" "0 < m" "a + m \<le> length (entries t)"
    and w: "st_base t + (a + m) * 65536 < 2 ^ 64"
  shows "\<exists>t'. assign_range t (st_base t + a * 65536) (m * 65536) c h = Some t' \<and> st_shape t' \<and>
    st_base t' = st_base t \<and> st_len t' = st_len t \<and>
    (\<forall>j. entries t' ! j = (if a \<le> j \<and> j < a + m then pack c h else entries t ! j))"
proof -
  have e: "st_base t + a * 65536 + m * 65536 = st_base t + (a + m) * 65536" by (simp add: algebra_simps)
  have up: "(a + m) * 65536 \<le> length (entries t) * 65536" using a(3) by (rule mult_le_mono1)
  have d: "(st_base t + a * 65536 - st_base t) div 65536 = a" by simp
  have "(st_base t + (a + m) * 65536 - 1 - st_base t) = (a + m - 1) * 65536 + 65535"
    using a(2) by (cases m) (simp_all add: algebra_simps)
  then have l: "(st_base t + a * 65536 + m * 65536 - 1 - st_base t) div 65536 = a + m - 1" unfolding e by simp
  have j: "a \<le> j \<and> j \<le> a + m - 1 \<longleftrightarrow> a \<le> j \<and> j < a + m" for j using a(2) by linarith
  show ?thesis
    using assign_range_entries [OF t, of "st_base t + a * 65536" "m * 65536" c h] a w up unfolding d l e j by auto
qed

lemma assign_retag:
  assumes g: "geom h" and a: "a < nsp h" "0 < m" "a + m \<le> nsp h"
  shows "\<exists>t. assign_range (span_tab h) (hbase h + a * 65536) (m * 65536) c home = Some t \<and>
    (\<forall>ar la k. retag h (h\<lparr>span_tab := t, arena := ar, large := la, clock := k\<rparr>) a m (pack c home))"
proof -
  have st: "st_shape (span_tab h)" "st_base (span_tab h) = hbase h"
    "hbase h + nsp h * 65536 < 2 ^ 64" "st_len (span_tab h) = budget_bytes h" using g by (auto simp: geom_def)
  have "(a + m) * 65536 \<le> nsp h * 65536" using a(3) by (rule mult_le_mono1)
  then have w: "st_base (span_tab h) + (a + m) * 65536 < 2 ^ 64" unfolding st(2) using st(3) by linarith
  have "a * 65536 < st_len (span_tab h)" "a + m \<le> length (entries (span_tab h))"
    using span_lookup(4,5) [OF g a(1)] a(3) st(4) by simp_all
  from assign_run_entries [OF st(1) this(1) a(2) this(2) w, of c home] show ?thesis
    unfolding st(2) retag_def by fastforce
qed

subsection \<open>Spans for a class: from the index or from the arena\<close>

definition in_run :: "nat \<Rightarrow> nat \<Rightarrow> nat \<Rightarrow> nat" where
  "in_run a m s = (if a \<le> s \<and> s < a + m then 1 else 0)"

lemma in_run_zero [simp]: "in_run a 0 s = 0"
  by (simp add: in_run_def)

text \<open>\<open>handed h h' ls a m c\<close>: in \<open>h'\<close> the \<open>m\<close> spans from \<open>a\<close> on belong to the caller, tagged \<open>c\<close>.\<close>

definition handed :: "sub_heap \<Rightarrow> sub_heap \<Rightarrow> (nat \<Rightarrow> nat list) \<Rightarrow> nat \<Rightarrow> nat \<Rightarrow> nat \<Rightarrow> bool" where
  "handed h h' ls a m c \<longleftrightarrow> hinv h' ls \<and> held h' = held h \<and> all_objs h' = all_objs h \<and> listed h' = listed h \<and>
     nsp h' = nsp h \<and> hbase h' = hbase h \<and> sh_slab h' = sh_slab h \<and> counters h' = counters h \<and>
     central_lists h' = central_lists h \<and> num_shards h' = num_shards h \<and> arena_ok h' \<and> a + m \<le> nsp h \<and>
     run_spans (large h') = run_spans (large h) \<and> budget_bytes h' = budget_bytes h \<and>
     (\<forall>i. a \<le> i \<and> i < a + m \<longrightarrow> class_at h' i = c \<and> \<not> listed h i) \<and>
     (\<forall>s. owners h' s + in_run a m s = (if s < carved h' then 1 else 0))"

lemma pack_class: "c < 2 ^ 16 \<Longrightarrow> home < 2 ^ 16 \<Longrightarrow> pack c home < 2 ^ 32 \<and> pack c home div 2 ^ 16 = c"
proof -
  assume a: "c < 2 ^ 16" "home < 2 ^ 16"
  then have "pack c home div 2 ^ 16 = c" by (simp add: pack_def)
  moreover have "pack c home < 2 ^ 32" using a by (simp add: pack_def)
  ultimately show ?thesis by blast
qed

lemma retag_handed:
  assumes h: "hinv h ls" and r: "retag h h' a m (pack c home)" and c: "c < 2 ^ 16" "home < 2 ^ 16"
    and un: "\<forall>s. a \<le> s \<and> s < a + m \<longrightarrow> \<not> listed h s" and am: "a + m \<le> nsp h" and ar: "arena_ok h'"
    and rs: "run_spans (large h') = run_spans (large h)"
    and own: "\<And>s. pool_owner (large h') s + card (group_owners h s) + card (run_owners (large h') s) + in_run a m s =
        (if s < carved h' then 1 else 0)"
  shows "handed h h' ls a m c"
proof -
  note p = pack_class [OF c]
  note e = retag_hinv [OF h r conjunct1 [OF p] un]
  have cl: "listed h i \<Longrightarrow> class_at h' i = class_at h i" for i using un e(6) [of i] by auto
  have "group_owners h' s = group_owners h s" for s
    unfolding group_owners_def e(4) using cl by (intro Collect_cong) auto
  then have "owners h' s + in_run a m s = (if s < carved h' then 1 else 0)" for s
    using own [of s] by (simp add: owners_def)
  moreover have "class_at h' i = c \<and> \<not> listed h i" if "a \<le> i" "i < a + m" for i
    using that un e(6) [of i] p by simp
  moreover have "sh_slab h' = sh_slab h" "counters h' = counters h" "central_lists h' = central_lists h" "num_shards h' = num_shards h" "budget_bytes h' = budget_bytes h"
    using r by (simp_all add: retag_def)
  ultimately show ?thesis unfolding handed_def using e(1-5,7) am ar rs by blast
qed

lemma pool_owner_take:
  assumes "{a..<a + m} \<subseteq> free_spans p" "free_spans p' = free_spans p - {a..<a + m}" "la_pool la = p" "la_pool la' = p'"
  shows "pool_owner la' s + in_run a m s = pool_owner la s"
  using assms by (auto simp: pool_owner_def in_run_def)

lemma run_owners_cong: "run_spans la' = run_spans la \<Longrightarrow> run_owners la' s = run_owners la s"
  by (simp add: run_owners_def)

lemma span_ptr_eq: "sinv h \<Longrightarrow> geom h \<Longrightarrow> i \<le> nsp h \<Longrightarrow> span_ptr (large h) i = hbase h + i * 65536"
proof -
  assume a: "sinv h" "geom h" "i \<le> nsp h"
  then have "i * 65536 \<le> nsp h * 65536" "hbase h + nsp h * 65536 < 2 ^ 64" by (auto simp: geom_def)
  then show ?thesis using a(1) by (simp add: span_ptr_def sinv_def arena_ok_def)
qed

lemma try_pool_alloc_ok:
  assumes h: "hinv h ls" and s: "sinv h" and n: "0 < n" "n < 2 ^ 32" and c: "c < 2 ^ 16" "home < 2 ^ 16"
  shows "\<exists>h' r. try_pool_alloc x h n c home = Some (h', r) \<and>
    (case r of
       None \<Rightarrow> h' = h\<lparr>clock := Suc (clock h)\<rparr> \<and> (pool_busy x (clock h) \<or> (\<nexists>a. {a..<a + n} \<subseteq> free_spans (la_pool (large h))))
     | Some (lo, hi) \<Rightarrow> \<exists>a. lo = hbase h + a * 65536 \<and> hi = hbase h + (a + n) * 65536 \<and> handed h h' ls a n c)"
proof (cases "pool_busy x (clock h)")
  case False
  have g: "geom h" using hinv_parts(1) [OF h] .
  have pi: "pool_inv (la_pool (large h))" "num_spans (la_pool (large h)) = nsp h" and ao: "arena_ok h" and so: "spans_ok h"
    using s by (simp_all add: sinv_def arena_ok_def)
  obtain p r where p: "pool_alloc (la_pool (large h)) n = Some (p, r)" "pool_inv p" "num_spans p = nsp h"
    "case r of None \<Rightarrow> p = la_pool (large h) \<and> (n = 0 \<or> (\<nexists>a. {a..<a + n} \<subseteq> free_spans (la_pool (large h))))
     | Some a \<Rightarrow> 0 < n \<and> {a..<a + n} \<subseteq> free_spans (la_pool (large h)) \<and> free_spans p = free_spans (la_pool (large h)) - {a..<a + n}"
    using sp.ix_alloc_law [OF pi(1), of n] pi(2) by auto
  have n32: "as_u32 n = n" using n(2) by (rule as_u32_small)
  show ?thesis
  proof (cases r)
    case None
    then have "p = la_pool (large h)" "\<nexists>a. {a..<a + n} \<subseteq> free_spans (la_pool (large h))" using p(4) n(1) by auto
    then show ?thesis using False p(1) None n32 by (simp add: try_pool_alloc_def)
  next
    case (Some a)
    then have fr: "{a..<a + n} \<subseteq> free_spans (la_pool (large h))" "free_spans p = free_spans (la_pool (large h)) - {a..<a + n}"
      using p(4) by simp_all
    have am: "a + n \<le> nsp h" using sp.alloc_holders(4) [OF pi(1) p(1) [unfolded Some]] pi(2) by simp
    have sp: "span_ptr (large h) a = hbase h + a * 65536" using span_ptr_eq [OF s g] am by simp
    have w: "hbase h + nsp h * 65536 < 2 ^ 64" using g by (simp add: geom_def)
    have "(a + n) * 65536 \<le> nsp h * 65536" using am by (rule mult_le_mono1)
    then have add: "add64 (hbase h + a * 65536) (n * 65536) = hbase h + (a + n) * 65536"
      and sub: "sub64 (hbase h + (a + n) * 65536) (hbase h + a * 65536) = n * 65536"
      using w by (simp_all add: algebra_simps)
    obtain t where t: "assign_range (span_tab h) (hbase h + a * 65536) (n * 65536) c home = Some t"
      "\<forall>ar la k. retag h (h\<lparr>span_tab := t, arena := ar, large := la, clock := k\<rparr>) a n (pack c home)"
      using assign_retag [OF g, of a n c home] am n(1) by auto
    let ?h = "h\<lparr>large := (large h)\<lparr>la_pool := p\<rparr>, clock := Suc (clock h), span_tab := t\<rparr>"
    have rt: "retag h ?h a n (pack c home)"
      using t(2) [rule_format, where ar = "arena h" and la = "(large h)\<lparr>la_pool := p\<rparr>" and k = "Suc (clock h)"] by (simp add: retag_def)
    have un: "\<forall>j. a \<le> j \<and> j < a + n \<longrightarrow> \<not> listed h j"
      using pool_unlisted [OF so hinv_parts(2) [OF h]] fr(1) by auto
    have "run_spans (large h) ! j = 0" if "a \<le> j \<and> j < a + n \<and> j < nsp h" for j
    proof (rule owned_no_run)
      have "owners h j \<le> 1" using so by (simp add: spans_ok_def)
      moreover have "j \<in> free_spans (la_pool (large h))" using fr(1) that by auto
      ultimately show "card (run_owners (large h) j) = 0" by (simp add: owners_def pool_owner_def)
      show "j < length (run_spans (large h))" using that ao by (simp add: arena_ok_def)
    qed
    then have tg: "tags_ok ?h" using retag_tags [OF rt c] ao by (simp add: arena_ok_def)
    have "arena_ok ?h" using ao p(2,3) tg by (simp add: arena_ok_def nsp_def carved_def)
    moreover have "carved ?h = carved h" by (simp add: carved_def)
    moreover have "pool_owner (large ?h) j + card (group_owners h j) + card (run_owners (large ?h) j) + in_run a n j = owners h j" for j
      using pool_owner_take [OF fr refl, of "(large h)\<lparr>la_pool := p\<rparr>" j] run_owners_cong [of "large ?h" "large h" j]
      by (simp add: owners_def)
    ultimately have "handed h ?h ls a n c"
      using retag_handed [OF h rt c un am] so by (simp add: spans_ok_def)
    then show ?thesis using False p(1) Some n32 sp add sub t(1) by (simp add: try_pool_alloc_def)
  qed
qed (simp add: try_pool_alloc_def)


lemma carve_spans_ok:
  assumes h: "hinv h ls" and s: "sinv h" and n: "0 < n" and c: "c < 2 ^ 16" "home < 2 ^ 16"
  shows "\<exists>ar t m. carve_spans (arena h) n c home (span_tab h) =
      Some (ar, t, hbase h + carved h * 65536, hbase h + (carved h + m) * 65536) \<and>
    m = min n ((ar_end (arena h) - cursor (arena h)) div 65536) \<and>
    handed h (h\<lparr>arena := ar, span_tab := t\<rparr>) ls (carved h) m c"
proof -
  have g: "geom h" using hinv_parts(1) [OF h] .
  have ao: "arena_ok h" and so: "spans_ok h" using s by (simp_all add: sinv_def)
  have cur: "cursor (arena h) = hbase h + carved h * 65536" "cursor (arena h) \<le> ar_end (arena h)"
    "ar_end (arena h) = hbase h + budget_bytes h" "ar_base (arena h) = hbase h"
    using ao by (simp_all add: arena_ok_def)
  let ?av = "(ar_end (arena h) - cursor (arena h)) div 65536"
  let ?m = "min n ?av"
  have bud: "budget_bytes h \<le> nsp h * 65536" unfolding nsp_def using div_ceil_mult_ge [of 65536 "budget_bytes h"] by simp
  have avl: "?av * 65536 \<le> budget_bytes h - carved h * 65536" using cur by simp
  have fit: "(carved h + ?av) * 65536 \<le> budget_bytes h" using avl cur(1-3) by simp
  then have am: "carved h + ?av \<le> nsp h" using bud mult_le_cancel2 [of "carved h + ?av" 65536 "nsp h"] by simp
  have own: "owners h j = (if j < carved h then 1 else 0)" for j using so by (simp add: spans_ok_def)
  show ?thesis
  proof (cases "?av = 0")
    case True
    have rt: "retag h h (carved h) 0 (pack c home)" using g by (simp add: retag_def geom_def)
    have un: "\<forall>j. carved h \<le> j \<and> j < carved h + 0 \<longrightarrow> \<not> listed h j" by auto
    have "carved h + 0 \<le> nsp h" using am by linarith
    then have "handed h h ls (carved h) 0 c"
      using retag_handed [OF h rt c un _ ao refl] own by (simp add: owners_def)
    then show ?thesis using True cur by (intro exI [of _ "arena h"] exI [of _ "span_tab h"]) (simp add: carve_spans_def Let_def)
  next
    case False
    then have m: "0 < ?m" using n by simp
    have am': "carved h + ?m \<le> nsp h" using am by linarith
    obtain t where t: "assign_range (span_tab h) (hbase h + carved h * 65536) (?m * 65536) c home = Some t"
      "\<forall>ar la k. retag h (h\<lparr>span_tab := t, arena := ar, large := la, clock := k\<rparr>) (carved h) ?m (pack c home)"
      using assign_retag [OF g, of "carved h" ?m c home] am' m by auto
    let ?ar = "(arena h)\<lparr>cursor := hbase h + (carved h + ?m) * 65536\<rparr>"
    let ?h = "h\<lparr>arena := ?ar, span_tab := t\<rparr>"
    have rt: "retag h ?h (carved h) ?m (pack c home)"
      using t(2) [rule_format, where ar = ?ar and la = "large h" and k = "clock h"] by (simp add: retag_def)
    have un: "\<forall>j. carved h \<le> j \<and> j < carved h + ?m \<longrightarrow> \<not> listed h j"
      using uncarved_unlisted [OF so hinv_parts(2) [OF h]] by blast
    have cv: "carved ?h = carved h + ?m" by (simp add: carved_def)
    have "(carved h + ?m) * 65536 \<le> (carved h + ?av) * 65536" by (intro mult_le_mono1) simp
    then have "(carved h + ?m) * 65536 \<le> budget_bytes h" using fit by linarith
    moreover have "run_spans (large h) ! j = 0" if "carved h \<le> j \<and> j < carved h + ?m \<and> j < nsp h" for j
      using owned_no_run [of h j] own [of j] that ao by (simp add: owners_def arena_ok_def)
    then have "tags_ok ?h" using retag_tags [OF rt c] ao by (simp add: arena_ok_def)
    ultimately have ar: "arena_ok ?h" using ao cv cur(3) by (simp add: arena_ok_def nsp_def)
    have "pool_owner (large ?h) j + card (group_owners h j) + card (run_owners (large ?h) j) + in_run (carved h) ?m j
      = (if j < carved ?h then 1 else 0)" for j
      using own [of j] unfolding cv by (auto simp: owners_def in_run_def)
    then have "handed h ?h ls (carved h) ?m c" using retag_handed [OF h rt c un am' ar] by simp
    moreover have "hbase h + carved h * 65536 + ?m * 65536 = hbase h + (carved h + ?m) * 65536" by (simp add: algebra_simps)
    ultimately show ?thesis using False t(1) cur(1) by (intro exI [of _ ?ar] exI [of _ t] exI [of _ ?m]) (simp add: carve_spans_def Let_def algebra_simps)
  qed
qed

definition avail :: "sub_heap \<Rightarrow> nat" where
  "avail h = (ar_end (arena h) - cursor (arena h)) div SPAN_BYTES"

definition room :: "sub_heap \<Rightarrow> nat \<Rightarrow> bool" where
  "room h n \<longleftrightarrow> avail h = 0 \<or> n \<le> avail h"

lemma carve_or_reuse_ok:
  assumes h: "hinv h ls" and s: "sinv h" and n: "0 < n" "n < 2 ^ 32" and c: "c < 2 ^ 16" "home < 2 ^ 16"
  shows "\<exists>h' a m. carve_or_reuse_spans x h n c home = Some (h', hbase h + a * 65536, hbase h + (a + m) * 65536) \<and>
    handed h h' ls a m c \<and> (n = 1 \<or> room h n \<longrightarrow> m = 0 \<or> m = n) \<and> (m = 0 \<longrightarrow> avail h = 0)"
proof -
  obtain h1 r where r: "try_pool_alloc x h n c home = Some (h1, r)"
    "case r of
       None \<Rightarrow> h1 = h\<lparr>clock := Suc (clock h)\<rparr> \<and> (pool_busy x (clock h) \<or> (\<nexists>a. {a..<a + n} \<subseteq> free_spans (la_pool (large h))))
     | Some (lo, hi) \<Rightarrow> \<exists>a. lo = hbase h + a * 65536 \<and> hi = hbase h + (a + n) * 65536 \<and> handed h h1 ls a n c"
    using try_pool_alloc_ok [OF h s n c] by blast
  show ?thesis
  proof (cases r)
    case None
    then have h1: "h1 = h\<lparr>clock := Suc (clock h)\<rparr>" using r(2) by simp
    have st: "same_map h h1" using h1 by (simp add: same_map_def)
    have "geom h1" using slab_step(2) [of h "sh_slab h" "Suc (clock h)"] hinv_parts(1) [OF h] h1 by (simp add: geom_def)
    moreover have hd: "held h1 = held h" using h1 same_map_eqs [OF st] by (simp add: held_def ubits_def fun_eq_iff)
    moreover have "bits_ok h1" using hinv_parts(3) [OF h] same_map_eqs [OF st] h1 by (simp add: bits_ok_def ubits_def)
    ultimately have i1: "hinv h1 ls" using hinv_step [OF h st] hinv_parts(4) [OF h] by (simp add: held_ok_def)
    obtain ar t m where m: "carve_spans (arena h1) n c home (span_tab h1) =
        Some (ar, t, hbase h1 + carved h1 * 65536, hbase h1 + (carved h1 + m) * 65536)"
      "m = min n ((ar_end (arena h1) - cursor (arena h1)) div 65536)"
      "handed h1 (h1\<lparr>arena := ar, span_tab := t\<rparr>) ls (carved h1) m c"
      using carve_spans_ok [OF i1 same_map_sinv [OF st s] n(1) c] by blast
    have "handed h (h1\<lparr>arena := ar, span_tab := t\<rparr>) ls (carved h1) m c"
      using m(3) same_map_eqs [OF st] hd h1 unfolding handed_def by simp
    moreover have "n = 1 \<or> room h n \<longrightarrow> m = 0 \<or> m = n" "m = 0 \<longrightarrow> avail h = 0"
      using m(2) h1 n(1) by (auto simp: room_def avail_def min_def split: if_splits)
    ultimately show ?thesis using r(1) None m(1) h1 by (auto simp: carve_or_reuse_spans_def)
  next
    case (Some lh)
    then show ?thesis using r n(1) by (cases lh) (auto simp: carve_or_reuse_spans_def)
  qed
qed

subsection \<open>Listing a span with all its slots free\<close>

lemma in_word_full: "word_slots i w (- 1) = in_word i w"
  by (auto simp: word_slots_iff in_word_def bits_max)

lemma fill_words_ok:
  assumes "bm_shape spans b" "i < spans" "\<forall>w\<in>set ws. w < 128"
  shows "\<exists>b'. fill_words i ws b = Some b' \<and> bm_shape spans b' \<and> same_links b b' \<and> free_bits b' = free_bits b \<and>
    alloc_bits b' = alloc_bits b \<union> words_of i ws"
  using assms
proof (induction ws arbitrary: b)
  case (Cons w ws)
  obtain b1 where b1: "alloc_set_mask b i w (- 1) = Some b1" "bm_shape spans b1" "same_links b b1" "free_bits b1 = free_bits b"
    "alloc_bits b1 = alloc_bits b \<union> in_word i w"
    using alloc_set_mask_bits [OF Cons.prems(1,2), of w "- 1"] Cons.prems(3) by (auto simp: in_word_full)
  show ?case using Cons.IH [OF b1(2) Cons.prems(2)] Cons.prems(3) b1 same_links_trans [OF b1(3)]
    by (auto simp: Un_assoc)
qed simp

lemma tail_mask: "r < 64 \<Longrightarrow> bits (push_bit r 1 - 1) = {..<r}"
  using bits_low_mask [of r] by (simp add: mask_eq_exp_minus_1)

lemma fill_span_ok:
  assumes "bm_shape spans b" "i < spans" "n \<le> 8192"
  shows "\<exists>b1 b2. fill_words i [0..<n div 64] b = Some b1 \<and>
    (if n mod 64 \<noteq> 0 then alloc_set_mask b1 i (n div 64) (push_bit (n mod 64) 1 - 1) else Some b1) = Some b2 \<and>
    bm_shape spans b2 \<and> same_links b b2 \<and> free_bits b2 = free_bits b \<and> alloc_bits b2 = alloc_bits b \<union> span_slots i n"
proof -
  have n64: "n = n div 64 * 64 + n mod 64" by simp
  have nw: "n div 64 \<le> 128" using assms(3) by simp
  have m64: "n mod 64 < 64" by simp
  have "\<forall>w\<in>set [0..<n div 64]. w < 128" using nw by auto
  then obtain b1 where b1: "fill_words i [0..<n div 64] b = Some b1" "bm_shape spans b1" "same_links b b1" "free_bits b1 = free_bits b"
    "alloc_bits b1 = alloc_bits b \<union> words_of i [0..<n div 64]"
    using fill_words_ok [OF assms(1,2)] by blast
  have sp: "span_slots i n = words_of i [0..<n div 64] \<union> word_slots i (n div 64) (push_bit (n mod 64) 1 - 1)"
  proof -
    have "word_slots i (n div 64) (push_bit (n mod 64) 1 - 1) = {slot_id i 0 + n div 64 * 64..<slot_id i 0 + n div 64 * 64 + n mod 64}"
    proof -
      have "word_slots i (n div 64) (push_bit (n mod 64) 1 - 1) = (\<lambda>j. slot_id i 0 + n div 64 * 64 + j) ` {..<n mod 64}"
        unfolding word_slots_def tail_mask [OF m64] by (simp add: slot_id_def add.assoc)
      also have "\<dots> = {slot_id i 0 + n div 64 * 64..<slot_id i 0 + n div 64 * 64 + n mod 64}"
        by (simp add: lessThan_atLeast0 image_add_atLeastLessThan ac_simps)
      finally show ?thesis .
    qed
    then show ?thesis unfolding words_of_upt span_slots_def using n64 by (auto simp: mult.commute)
  qed
  show ?thesis
  proof (cases "n mod 64 = 0")
    case True
    then have "word_slots i (n div 64) (push_bit (n mod 64) 1 - 1) = {}" by (simp add: word_slots_def)
    then show ?thesis using True b1 sp by (intro exI [of _ b1]) simp
  next
    case False
    then have "n div 64 < 128" using n64 nw assms(3) by (cases "n div 64 = 128") auto
    then obtain b2 where "alloc_set_mask b1 i (n div 64) (push_bit (n mod 64) 1 - 1) = Some b2" "bm_shape spans b2"
      "same_links b1 b2" "free_bits b2 = free_bits b1"
      "alloc_bits b2 = alloc_bits b1 \<union> word_slots i (n div 64) (push_bit (n mod 64) 1 - 1)"
      using alloc_set_mask_bits [OF b1(2) assms(2)] by blast
    then show ?thesis using False b1 sp same_links_trans [OF b1(3)] by (intro exI [of _ b1] exI [of _ b2]) (simp add: Un_assoc)
  qed
qed

definition enlist :: "sub_heap \<Rightarrow> sub_heap \<Rightarrow> nat \<Rightarrow> nat \<Rightarrow> bool" where
  "enlist h h' cell i \<longleftrightarrow> (\<exists>b. h' = h\<lparr>span_bm := b, central_lists := (central_lists h)[cell := (central_lists h ! cell)\<lparr>cl_head := i\<rparr>]\<rparr> \<and>
     bm_shape (nsp h) b \<and> bm_base b = hbase h \<and> next_active b = (next_active (span_bm h))[i := cl_head (central_lists h ! cell)] \<and>
     on_list b = (on_list (span_bm h))[i := True] \<and> free_bits b = free_bits (span_bm h) \<and>
     alloc_bits b = alloc_bits (span_bm h) \<union> span_slots i (nslots (class_at h i)))"

lemma activate_enlist:
  assumes h: "hinv h ls" and i: "i < nsp h" "\<not> listed h i" and cell: "cell < length (central_lists h)"
    and b: "bm_shape (nsp h) b" "same_links (span_bm h) b" "free_bits b = free_bits (span_bm h)"
      "alloc_bits b = alloc_bits (span_bm h) \<union> span_slots i (nslots (class_at h i))"
  shows "\<exists>h'. activate (h\<lparr>span_bm := b\<rparr>) cell i = Some h' \<and> enlist h h' cell i"
proof -
  have "\<not> on_list b ! i" using i b(2) by (simp add: listed_def same_links_def)
  then show ?thesis using i b cell
    by (auto simp: activate_def enlist_def is_on_list_def link_front_def set_head_def bm_shape_def same_links_def
        alloc_bits_def free_bits_def intro!: exI)
qed


lemma alist_other: "alist na h xs t \<Longrightarrow> i \<notin> set xs \<Longrightarrow> alist (na[i := v]) h xs t"
  by simp

lemma enlist_eqs:
  assumes e: "enlist h h' cell i" and i: "i < nsp h" and sh: "bm_shape (nsp h) (span_bm h)"
  shows "nsp h' = nsp h" "hbase h' = hbase h" "class_at h' = class_at h" "sh_slab h' = sh_slab h" "arena h' = arena h"
    "large h' = large h" "counters h' = counters h" "num_shards h' = num_shards h" "span_tab h' = span_tab h"
    "budget_bytes h' = budget_bytes h" "clock h' = clock h" "length (central_lists h') = length (central_lists h)"
    "listed h' = (listed h)(i := True)" "ubits h' = ubits h \<union> span_slots i (nslots (class_at h i))"
proof -
  obtain b where b: "h' = h\<lparr>span_bm := b, central_lists := (central_lists h)[cell := (central_lists h ! cell)\<lparr>cl_head := i\<rparr>]\<rparr>"
    "bm_base b = hbase h" "on_list b = (on_list (span_bm h))[i := True]" "free_bits b = free_bits (span_bm h)"
    "alloc_bits b = alloc_bits (span_bm h) \<union> span_slots i (nslots (class_at h i))" using e unfolding enlist_def by blast
  show "nsp h' = nsp h" "hbase h' = hbase h" "class_at h' = class_at h" "sh_slab h' = sh_slab h" "arena h' = arena h"
    "large h' = large h" "counters h' = counters h" "num_shards h' = num_shards h" "span_tab h' = span_tab h"
    "budget_bytes h' = budget_bytes h" "clock h' = clock h" "length (central_lists h') = length (central_lists h)"
    using b by (simp_all add: nsp_def class_at_def fun_eq_iff)
  then show "listed h' = (listed h)(i := True)" using b i sh by (auto simp: listed_def fun_eq_iff bm_shape_def nth_list_update)
  show "ubits h' = ubits h \<union> span_slots i (nslots (class_at h i))" using b by (auto simp: ubits_def)
qed

lemma enlist_lists:
  assumes h: "hinv h ls" and e: "enlist h h' cell i" and i: "i < nsp h" "\<not> listed h i"
    and cell: "cell < length (central_lists h)" "cell mod NUM_CLASSES = class_at h i" and c: "small_class (class_at h i)"
  shows "lists_ok h' (ls(cell := i # ls cell))"
proof -
  have sh: "bm_shape (nsp h) (span_bm h)" and N: "nsp h < 2 ^ 32 - 1" using hinv_parts(1) [OF h] by (auto simp: geom_def)
  note q = enlist_eqs [OF e i(1) sh]
  have l: "\<forall>j<length (central_lists h). alist (next_active (span_bm h)) (cl_head (central_lists h ! j)) (ls j) NO_SPAN \<and>
        distinct (ls j) \<and> (\<forall>i\<in>set (ls j). listed h i \<and> class_at h i = j mod NUM_CLASSES)"
    "\<forall>j j'. j < length (central_lists h) \<and> j' < length (central_lists h) \<and> j \<noteq> j' \<longrightarrow> set (ls j) \<inter> set (ls j') = {}"
    "\<forall>i. listed h i \<longrightarrow> (\<exists>j<length (central_lists h). i \<in> set (ls j)) \<and> small_class (class_at h i)"
    using hinv_parts(2) [OF h] unfolding lists_ok_def by blast+
  have fr: "i \<notin> set (ls j)" if "j < length (central_lists h)" for j using l(1) that i(2) by blast
  have na: "next_active (span_bm h') = (next_active (span_bm h))[i := cl_head (central_lists h ! cell)]"
    and cl: "central_lists h' = (central_lists h)[cell := (central_lists h ! cell)\<lparr>cl_head := i\<rparr>]"
    using e unfolding enlist_def by auto
  have iN: "i \<noteq> NO_SPAN" using i N by (simp add: NO_SPAN_def)
  have len: "i < length (next_active (span_bm h))" using sh i by (simp add: bm_shape_def)
  have one: "alist (next_active (span_bm h')) (cl_head (central_lists h' ! j)) ((ls(cell := i # ls cell)) j) NO_SPAN \<and>
      distinct ((ls(cell := i # ls cell)) j) \<and>
      (\<forall>k\<in>set ((ls(cell := i # ls cell)) j). listed h' k \<and> class_at h' k = j mod NUM_CLASSES)" if j: "j < length (central_lists h)" for j
  proof (cases "j = cell")
    case True
    then show ?thesis using l(1) [rule_format, OF j] fr [OF j] cell iN len unfolding na cl q by auto
  next
    case False
    have a: "alist (next_active (span_bm h)) (cl_head (central_lists h ! j)) (ls j) NO_SPAN" "distinct (ls j)"
      "\<forall>i\<in>set (ls j). listed h i \<and> class_at h i = j mod NUM_CLASSES" using l(1) j by blast+
    have "alist ((next_active (span_bm h))[i := cl_head (central_lists h ! cell)]) (cl_head (central_lists h ! j)) (ls j) NO_SPAN"
      using a(1) alist_other fr [OF j] by blast
    then show ?thesis using a(2,3) False unfolding na cl q by simp
  qed
  have two: "set ((ls(cell := i # ls cell)) j) \<inter> set ((ls(cell := i # ls cell)) j') = {}"
    if "j < length (central_lists h)" "j' < length (central_lists h)" "j \<noteq> j'" for j j'
    using l(2) [rule_format, of j j'] fr [OF that(1)] fr [OF that(2)] that by auto
  have three: "(\<exists>j<length (central_lists h). k \<in> set ((ls(cell := i # ls cell)) j)) \<and> small_class (class_at h k)" if "listed h' k" for k
    using that l(3) [rule_format, of k] cell(1) c unfolding q by (cases "k = i") auto
  show ?thesis unfolding lists_ok_def q(12) using one two three unfolding q(3) by blast
qed

definition new_objs :: "sub_heap \<Rightarrow> nat \<Rightarrow> nat multiset" where
  "new_objs h i = image_mset (addr (hbase h) (class_at h i)) (mset_set (span_slots i (nslots (class_at h i))))"

lemma enlist_tiles:
  assumes h: "hinv h ls" and e: "enlist h h' cell i" and i: "i < nsp h" "\<not> listed h i" and c: "small_class (class_at h i)"
  shows "tiles h' d = tiles h d \<union> (if d = class_at h i then span_slots i (nslots d) else {})"
    "tiles h d \<inter> span_slots i (nslots (class_at h i)) = {}"
    "ubits h \<inter> span_slots i (nslots (class_at h i)) = {}"
proof -
  have sh: "bm_shape (nsp h) (span_bm h)" using hinv_parts(1) [OF h] by (auto simp: geom_def)
  note q = enlist_eqs [OF e i(1) sh]
  have sl: "k \<in> span_slots i (nslots (class_at h i)) \<longleftrightarrow> k div 8192 = i \<and> k mod 8192 < nslots (class_at h i)" for k
    using span_slots_iff nslots_bounds [OF c] by blast
  show "tiles h' d = tiles h d \<union> (if d = class_at h i then span_slots i (nslots d) else {})"
    unfolding tiles_def q using i(2) sl by auto
  show "tiles h d \<inter> span_slots i (nslots (class_at h i)) = {}" using sl i(2) by (auto simp: tiles_def)
  show "ubits h \<inter> span_slots i (nslots (class_at h i)) = {}"
    using hinv_parts(3) [OF h] sl i(2) by (auto simp: bits_ok_def tiles_def)
qed

lemma image_union_mset:
  assumes "finite A" "finite B" "A \<inter> B = {}"
  shows "image_mset f (mset_set (A \<union> B)) = image_mset f (mset_set A) + image_mset f (mset_set B)"
  using assms by (simp add: mset_set_Union)

lemma enlist_objs:
  assumes h: "hinv h ls" and e: "enlist h h' cell i" and i: "i < nsp h" "\<not> listed h i" and c: "small_class (class_at h i)"
  shows "all_objs h' d = all_objs h d + (if d = class_at h i then new_objs h i else {#})"
    "held h' d = held h d + (if d = class_at h i then new_objs h i else {#})"
proof -
  have sh: "bm_shape (nsp h) (span_bm h)" using hinv_parts(1) [OF h] by (auto simp: geom_def)
  note q = enlist_eqs [OF e i(1) sh]
  note t = enlist_tiles [OF h e i c]
  have f: "finite (span_slots i n)" for n by (simp add: span_slots_def)
  show "all_objs h' d = all_objs h d + (if d = class_at h i then new_objs h i else {#})"
  proof (cases "d = class_at h i")
    case True
    then show ?thesis using image_union_mset [OF finite_tiles f t(2)] unfolding all_objs_def t(1) q new_objs_def by simp
  qed (simp add: all_objs_def t(1) q)
  show "held h' d = held h d + (if d = class_at h i then new_objs h i else {#})"
  proof (cases "d = class_at h i")
    case True
    have "(ubits h \<union> span_slots i (nslots d)) \<inter> (tiles h d \<union> span_slots i (nslots d)) = (ubits h \<inter> tiles h d) \<union> span_slots i (nslots d)"
      by blast
    moreover have "ubits h \<inter> tiles h d \<inter> span_slots i (nslots d) = {}" using t(2) [of d] True by blast
    ultimately show ?thesis using True image_union_mset [of "ubits h \<inter> tiles h d" "span_slots i (nslots d)"] f
      unfolding held_def t(1) q new_objs_def by simp
  next
    case False
    have "(ubits h \<union> span_slots i (nslots (class_at h i))) \<inter> tiles h d = ubits h \<inter> tiles h d" using t(2) [of d] by blast
    then show ?thesis using False unfolding held_def t(1) q by simp
  qed
qed

lemma enlist_hinv:
  assumes h: "hinv h ls" and e: "enlist h h' cell i" and i: "i < nsp h" "\<not> listed h i" and c: "small_class (class_at h i)"
    and cell: "cell < length (central_lists h)" "cell mod NUM_CLASSES = class_at h i"
  shows "hinv h' (ls(cell := i # ls cell))" "live_objs h' = live_objs h"
proof -
  have g: "geom h" and sh: "bm_shape (nsp h) (span_bm h)" using hinv_parts(1) [OF h] by (auto simp: geom_def)
  note q = enlist_eqs [OF e i(1) sh]
  note t = enlist_tiles [OF h e i c]
  note o = enlist_objs [OF h e i c]
  obtain b where b: "h' = h\<lparr>span_bm := b, central_lists := (central_lists h)[cell := (central_lists h ! cell)\<lparr>cl_head := i\<rparr>]\<rparr>"
    "bm_shape (nsp h) b" "free_bits b = free_bits (span_bm h)"
    "alloc_bits b = alloc_bits (span_bm h) \<union> span_slots i (nslots (class_at h i))" using e unfolding enlist_def by blast
  have "\<forall>c\<in>set (central_lists h'). reuse_hint c = NO_SPAN \<or> reuse_hint c < nsp h"
  proof
    fix d assume d: "d \<in> set (central_lists h')"
    have hs: "\<forall>c\<in>set (central_lists h). reuse_hint c = NO_SPAN \<or> reuse_hint c < nsp h" using g by (simp add: geom_def)
    have "d \<in> insert ((central_lists h ! cell)\<lparr>cl_head := i\<rparr>) (set (central_lists h))"
      using d b(1) set_update_subset_insert [of "central_lists h" cell] by auto
    then show "reuse_hint d = NO_SPAN \<or> reuse_hint d < nsp h" using hs cell(1) by (auto dest: bspec [OF _ nth_mem])
  qed
  then have "geom h'" using g q b(1,2) by (simp add: geom_def)
  moreover have "lists_ok h' (ls(cell := i # ls cell))" using enlist_lists [OF h e i cell c] .
  moreover have "bits_ok h'"
  proof -
    have "alloc_bits b \<inter> free_bits b = {}"
      using hinv_parts(3) [OF h] t(3) unfolding b(3,4) by (auto simp: bits_ok_def ubits_def)
    moreover have "k \<in> tiles h' (class_at h' (k div 8192))" if "k \<in> ubits h'" for k
    proof (cases "k \<in> ubits h")
      case True
      then show ?thesis using hinv_parts(3) [OF h] unfolding bits_ok_def t(1) q by blast
    next
      case False
      then have k: "k \<in> span_slots i (nslots (class_at h i))" using that unfolding q by blast
      then have "k div 8192 = i" using span_slots_iff [of "nslots (class_at h i)" k i] nslots_bounds [OF c] by simp
      then show ?thesis using k unfolding t(1) q by simp
    qed
    ultimately show ?thesis using b(1) by (simp add: bits_ok_def)
  qed
  moreover have "held_ok h'" using hinv_parts(4) [OF h] unfolding held_ok_def o by simp
  ultimately show "hinv h' (ls(cell := i # ls cell))" by (simp add: hinv_def)
  show "live_objs h' = live_objs h" by (simp add: live_objs_def o fun_eq_iff)
qed

text \<open>\<open>grows h h' ls ls' cell a m\<close>: the \<open>m\<close> spans from \<open>a\<close> on have joined the active list of \<open>cell\<close>.\<close>

definition grows :: "sub_heap \<Rightarrow> sub_heap \<Rightarrow> (nat \<Rightarrow> nat list) \<Rightarrow> (nat \<Rightarrow> nat list) \<Rightarrow> nat \<Rightarrow> nat \<Rightarrow> nat \<Rightarrow> bool" where
  "grows h h' ls ls' cell a m \<longleftrightarrow> hinv h' ls' \<and> nsp h' = nsp h \<and> hbase h' = hbase h \<and> class_at h' = class_at h \<and>
     sh_slab h' = sh_slab h \<and> arena h' = arena h \<and> large h' = large h \<and> counters h' = counters h \<and> num_shards h' = num_shards h \<and>
     budget_bytes h' = budget_bytes h \<and> length (central_lists h') = length (central_lists h) \<and>
     (\<forall>j. listed h' j \<longleftrightarrow> listed h j \<or> (a \<le> j \<and> j < a + m)) \<and> live_objs h' = live_objs h \<and>
     ubits h \<subseteq> ubits h' \<and> (\<forall>i. a \<le> i \<and> i < a + m \<longrightarrow> i \<in> set (ls' cell) \<and> i * 8192 \<in> ubits h') \<and> set (ls cell) \<subseteq> set (ls' cell)"

lemma enlist_grows:
  assumes h: "hinv h ls" and e: "enlist h h' cell i" and i: "i < nsp h" "\<not> listed h i" and c: "small_class (class_at h i)"
    and cell: "cell < length (central_lists h)" "cell mod NUM_CLASSES = class_at h i"
  shows "grows h h' ls (ls(cell := i # ls cell)) cell i 1"
proof -
  have sh: "bm_shape (nsp h) (span_bm h)" using hinv_parts(1) [OF h] by (auto simp: geom_def)
  note q = enlist_eqs [OF e i(1) sh]
  have "i * 8192 \<in> span_slots i (nslots (class_at h i))"
    using nslots_bounds [OF c] by (simp add: span_slots_def slot_id_def)
  then have "\<forall>j. i \<le> j \<and> j < i + 1 \<longrightarrow> j \<in> set ((ls(cell := i # ls cell)) cell) \<and> j * 8192 \<in> ubits h'"
    unfolding q by (auto simp: le_less_Suc_eq less_Suc_eq)
  moreover have "\<forall>j. listed h' j \<longleftrightarrow> listed h j \<or> (i \<le> j \<and> j < i + 1)" unfolding q by auto
  ultimately show ?thesis unfolding grows_def using enlist_hinv [OF h e i c cell] q(1-8,10,12,14) by auto
qed

lemma grows_trans:
  assumes "grows h h1 ls ls1 cell a 1" "grows h1 h2 ls1 ls2 cell (Suc a) m"
  shows "grows h h2 ls ls2 cell a (Suc m)"
proof -
  have "\<forall>j. listed h2 j \<longleftrightarrow> listed h j \<or> (a \<le> j \<and> j < a + Suc m)"
    using assms unfolding grows_def by (metis Suc_eq_plus1 Suc_leI add_Suc_right add_Suc_shift le_eq_less_or_eq less_Suc_eq_le less_add_Suc1 trans_le_add1 Suc_leD)
  moreover have "\<forall>i. a \<le> i \<and> i < a + Suc m \<longrightarrow> i \<in> set (ls2 cell) \<and> i * 8192 \<in> ubits h2"
  proof (intro allI impI)
    fix i assume i: "a \<le> i \<and> i < a + Suc m"
    show "i \<in> set (ls2 cell) \<and> i * 8192 \<in> ubits h2"
    proof (cases "i = a")
      case True
      then have "i \<in> set (ls1 cell)" "i * 8192 \<in> ubits h1" using assms(1) unfolding grows_def by auto
      then show ?thesis using assms(2) unfolding grows_def by blast
    next
      case False
      then show ?thesis using i assms(2) unfolding grows_def by auto
    qed
  qed
  ultimately show ?thesis using assms unfolding grows_def by auto
qed

lemma grows_refl: "hinv h ls \<Longrightarrow> grows h h ls ls cell a 0"
  by (auto simp: grows_def)

subsection \<open>Carving spans into objects\<close>

lemma span_of_base:
  assumes "geom h" "a < nsp h"
  shows "span_of (span_bm h) (hbase h + a * 65536) = a"
proof -
  have "a * 65536 + 65536 \<le> nsp h * 65536" using mult_le_mono1 [of "Suc a" "nsp h" 65536] assms(2) by simp
  then show ?thesis using assms span_of_eq [of "span_bm h" a 0] by (simp add: geom_def)
qed

lemma carve_tiles_ok:
  assumes "hinv h ls" "a + m \<le> nsp h" "cell < length (central_lists h)" "cell mod NUM_CLASSES = c" "small_class c"
    "\<forall>i. a \<le> i \<and> i < a + m \<longrightarrow> class_at h i = c \<and> \<not> listed h i"
  shows "\<exists>h' ls'. carve_tiles cell (nslots c) (hbase h + a * 65536) (hbase h + (a + m) * 65536) h n = Some (h', n + m * nslots c) \<and>
    grows h h' ls ls' cell a m"
  using assms
proof (induction m arbitrary: h ls a n)
  case 0
  then show ?case using grows_refl [OF 0(1)] by (subst carve_tiles.simps) auto
next
  case (Suc m)
  have g: "geom h" and sh: "bm_shape (nsp h) (span_bm h)" using hinv_parts(1) [OF Suc.prems(1)] by (auto simp: geom_def)
  have a: "a < nsp h" "class_at h a = c" "\<not> listed h a" using Suc.prems(2,6) by auto
  obtain b1 b2 where b: "fill_words a [0..<nslots c div 64] (span_bm h) = Some b1"
    "(if nslots c mod 64 \<noteq> 0 then alloc_set_mask b1 a (nslots c div 64) (push_bit (nslots c mod 64) 1 - 1) else Some b1) = Some b2"
    "bm_shape (nsp h) b2" "same_links (span_bm h) b2" "free_bits b2 = free_bits (span_bm h)"
    "alloc_bits b2 = alloc_bits (span_bm h) \<union> span_slots a (nslots (class_at h a))"
    using fill_span_ok [OF sh a(1), of "nslots c"] nslots_bounds [OF Suc.prems(5)] a(2) by blast
  obtain h1 where h1: "activate (h\<lparr>span_bm := b2\<rparr>) cell a = Some h1" "enlist h h1 cell a"
    using activate_enlist [OF Suc.prems(1) a(1,3) Suc.prems(3) b(3-6)] by blast
  obtain ls1 where g1: "grows h h1 ls ls1 cell a 1"
    using enlist_grows [OF Suc.prems(1) h1(2) a(1,3)] a(2) Suc.prems(3-5) by blast
  have k: "hinv h1 ls1" "nsp h1 = nsp h" "length (central_lists h1) = length (central_lists h)" "hbase h1 = hbase h"
    "\<forall>i. Suc a \<le> i \<and> i < Suc a + m \<longrightarrow> class_at h1 i = c \<and> \<not> listed h1 i"
    using g1 Suc.prems(6) unfolding grows_def by auto
  obtain h2 ls2 where h2: "carve_tiles cell (nslots c) (hbase h1 + Suc a * 65536) (hbase h1 + (Suc a + m) * 65536) h1 (n + nslots c) =
      Some (h2, n + nslots c + m * nslots c)" "grows h1 h2 ls1 ls2 cell (Suc a) m"
    using Suc.IH [OF k(1) _ _ Suc.prems(4,5) k(5), of "n + nslots c"] Suc.prems(2,3) k(2,3) by auto
  have "hbase h + a * 65536 + SPAN_BYTES = hbase h1 + Suc a * 65536" "hbase h + (a + Suc m) * 65536 = hbase h1 + (Suc a + m) * 65536"
    using k(4) by simp_all
  then have "carve_tiles cell (nslots c) (hbase h + a * 65536) (hbase h + (a + Suc m) * 65536) h n = Some (h2, n + Suc m * nslots c)"
    using h1(1) h2(1) b(1,2) span_of_base [OF g a(1)] by (subst carve_tiles.simps) (simp add: Let_def ac_simps)
  then show ?case using grows_trans [OF g1 h2(2)] by blast
qed

lemma carve_big_ok:
  assumes h: "hinv h ls" and i: "i < nsp h" "\<not> listed h i" and c: "class_at h i = c" "small_class c" "nslots c = 1"
    and cell: "cell < length (central_lists h)" "cell mod NUM_CLASSES = c"
  shows "\<exists>b h'. alloc_set_mask (span_bm h) i 0 1 = Some b \<and> activate (h\<lparr>span_bm := b\<rparr>) cell i = Some h' \<and>
    grows h h' ls (ls(cell := i # ls cell)) cell i 1"
proof -
  have sh: "bm_shape (nsp h) (span_bm h)" using hinv_parts(1) [OF h] by (auto simp: geom_def)
  have "word_slots i 0 1 = span_slots i (nslots (class_at h i))"
    using bits_single [of 0] c by (simp add: word_slots_def span_slots_def slot_id_def)
  then obtain b where b: "alloc_set_mask (span_bm h) i 0 1 = Some b" "bm_shape (nsp h) b" "same_links (span_bm h) b"
    "free_bits b = free_bits (span_bm h)" "alloc_bits b = alloc_bits (span_bm h) \<union> span_slots i (nslots (class_at h i))"
    using alloc_set_mask_bits [OF sh i(1), of 0 1] by auto
  obtain h' where h': "activate (h\<lparr>span_bm := b\<rparr>) cell i = Some h'" "enlist h h' cell i"
    using activate_enlist [OF h i cell(1) b(2-5)] by blast
  have "grows h h' ls (ls(cell := i # ls cell)) cell i 1"
    using enlist_grows [OF h h'(2) i] c cell by simp
  then show ?thesis using b(1) h'(1) by blast
qed

text \<open>What a group or a row of groups adds to the ownership of the spans.\<close>

lemma grows_owners:
  assumes g: "grows h h' ls ls' cell a m" and un: "\<forall>i. a \<le> i \<and> i < a + m \<longrightarrow> class_at h i = c \<and> \<not> listed h i"
    and one: "gsp c = 1 \<or> m = 1"
  shows "owners h' s = owners h s + in_run a (m * gsp c) s"
proof -
  let ?N = "{i. a \<le> i \<and> i < a + m \<and> i \<le> s \<and> s < i + gsp c}"
  have e: "class_at h' = class_at h" "\<forall>j. listed h' j \<longleftrightarrow> listed h j \<or> (a \<le> j \<and> j < a + m)" "large h' = large h"
    using g unfolding grows_def by simp_all
  have "group_owners h' s = group_owners h s \<union> ?N" unfolding group_owners_def e(1) using e(2) un by auto
  moreover have "group_owners h s \<inter> ?N = {}" unfolding group_owners_def using un by auto
  moreover have f: "finite ?N" by (rule finite_subset [of _ "{..s}"]) auto
  ultimately have "card (group_owners h' s) = card (group_owners h s) + card ?N"
    by (simp add: card_Un_disjoint)
  moreover have "card ?N = in_run a (m * gsp c) s"
  proof -
    have "?N = (if a \<le> s \<and> s < a + m * gsp c then {if gsp c = 1 then s else a} else {})"
      using one by (auto split: if_splits)
    then show ?thesis by (simp add: in_run_def)
  qed
  ultimately show ?thesis using e(3) by (simp add: owners_def)
qed

lemma grows_sinv:
  assumes "arena_ok h" "grows h h' ls ls' cell a m" "\<forall>i. a \<le> i \<and> i < a + m \<longrightarrow> class_at h i = c \<and> \<not> listed h i"
    and "gsp c = 1 \<or> m = 1" "\<forall>s. owners h s + in_run a (m * gsp c) s = (if s < carved h then 1 else 0)"
  shows "sinv h'"
proof -
  have "carved h' = carved h" using assms(2) unfolding grows_def carved_def by simp
  moreover have "tags_ok h' = tags_ok h" using assms(2) by (intro tags_same) (simp_all add: grows_def)
  moreover have "arena_ok h'" using assms(1,2) calculation unfolding grows_def arena_ok_def by simp
  ultimately show ?thesis using grows_owners [OF assms(2-4)] assms(5) by (simp add: sinv_def spans_ok_def)
qed


lemma size_of_small [simp]: "small_class c \<Longrightarrow> size_of_class c = Some (CLASS_SIZES ! c)"
  by (simp add: size_of_class_def small_class_def idx_def)

lemma small_u16: "small_class c \<Longrightarrow> as_u16 c = c \<and> c < 2 ^ 16"
  by (simp add: small_class_def)

lemma big_slots: "65536 < CLASS_SIZES ! c \<Longrightarrow> nslots c = 1"
  by (simp add: nslots_def)

lemma small_slots: "small_class c \<Longrightarrow> CLASS_SIZES ! c \<le> 65536 \<Longrightarrow> nslots c = 65536 div CLASS_SIZES ! c \<and> 0 < 65536 div CLASS_SIZES ! c"
  using osz_pos [of c] div_greater_zero_iff [of 65536 "CLASS_SIZES ! c"] by (simp add: nslots_def)

lemma handed_parts:
  assumes "handed h h' ls a m c"
  shows "hinv h' ls" "live_objs h' = live_objs h" "arena_ok h'" "sh_slab h' = sh_slab h" "counters h' = counters h"
    "num_shards h' = num_shards h" "length (central_lists h') = length (central_lists h)" "nsp h' = nsp h" "hbase h' = hbase h"
    "a + m \<le> nsp h'" "\<forall>i. a \<le> i \<and> i < a + m \<longrightarrow> class_at h' i = c \<and> \<not> listed h' i"
    "\<forall>s. owners h' s + in_run a m s = (if s < carved h' then 1 else 0)"
    "run_spans (large h') = run_spans (large h)" "budget_bytes h' = budget_bytes h"
  using assms unfolding handed_def live_objs_def by auto

text \<open>\<open>stocked h h' ls'\<close>: the result of carving; nothing that was handed out has moved.\<close>

definition stocked :: "sub_heap \<Rightarrow> sub_heap \<Rightarrow> (nat \<Rightarrow> nat list) \<Rightarrow> bool" where
  "stocked h h' ls' \<longleftrightarrow> hinv h' ls' \<and> sinv h' \<and> live_objs h' = live_objs h \<and> sh_slab h' = sh_slab h \<and> counters h' = counters h \<and>
     num_shards h' = num_shards h \<and> length (central_lists h') = length (central_lists h) \<and> nsp h' = nsp h \<and> hbase h' = hbase h \<and>
     run_spans (large h') = run_spans (large h) \<and> budget_bytes h' = budget_bytes h"

lemma handed_none: "handed h h' ls a 0 c \<Longrightarrow> stocked h h' ls"
  using handed_parts [of h h' ls a 0 c] by (simp add: stocked_def sinv_def spans_ok_def)

lemma handed_grows:
  assumes "handed h h1 ls a (m * gsp c) c" "grows h1 h' ls ls' cell a m" "gsp c = 1 \<or> m = 1" "0 < gsp c"
  shows "stocked h h' ls'"
proof -
  note p = handed_parts [OF assms(1)]
  have "m \<le> m * gsp c" using assms(4) by simp
  then have "\<forall>i. a \<le> i \<and> i < a + m \<longrightarrow> class_at h1 i = c \<and> \<not> listed h1 i" using p(11) by (meson add_le_cancel_left order_less_le_trans)
  then have "sinv h'" using grows_sinv [OF p(3) assms(2) _ assms(3)] p(12) by blast
  then show ?thesis using p assms(2) unfolding stocked_def grows_def by simp
qed

lemma central_carve_ok:
  assumes h: "hinv h ls" and s: "sinv h" and c: "small_class c" and rm: "gsp c = 1 \<or> room h (gsp c)"
    and cell: "cell < length (central_lists h)" "cell mod NUM_CLASSES = c" and batch: "batch < 2 ^ 32"
  shows "\<exists>h' n ls'. central_carve x h cell c my_shard batch = Some (h', n) \<and> stocked h h' ls' \<and>
    (if n = 0 then avail h = 0 else \<exists>i\<in>set (ls' cell). ubits h' \<inter> {k. k div 8192 = i} \<noteq> {})"
proof -
  have cu: "c < 2 ^ 16" "as_u16 c = c" "as_u16 my_shard < 2 ^ 16" using small_u16 [OF c] by (simp_all add: as_u16_def)
  have sz: "size_of_class c = Some (CLASS_SIZES ! c)" using size_of_small [OF c] .
  have found: "\<exists>i\<in>set (ls' cell). ubits h' \<inter> {k. k div 8192 = i} \<noteq> {}" if "grows h1 h' ls ls' cell a m" "0 < m" for h1 h' ls' a m
  proof -
    have "a \<in> set (ls' cell)" "a * 8192 \<in> ubits h'" using that unfolding grows_def by auto
    then show ?thesis by (intro bexI [of _ a]) auto
  qed
  show ?thesis
  proof (cases "65536 < CLASS_SIZES ! c")
    case True
    have gs: "0 < gsp c" "gsp c < 2 ^ 32" using gsp_bounds [OF c] by simp_all
    obtain h1 a m where r: "carve_or_reuse_spans x h (gsp c) c (as_u16 my_shard) = Some (h1, hbase h + a * 65536, hbase h + (a + m) * 65536)"
      "handed h h1 ls a m c" "m = 0 \<or> m = gsp c" "m = 0 \<longrightarrow> avail h = 0"
      using carve_or_reuse_ok [OF h s gs cu(1,3), of x] rm by metis
    note p = handed_parts [OF r(2)]
    show ?thesis
    proof (cases "m = 0")
      case True
      then show ?thesis using r handed_none \<open>65536 < CLASS_SIZES ! c\<close> cu sz osz_rounded [OF c]
        by (intro exI [of _ h1] exI [of _ 0] exI [of _ ls]) (auto simp: central_carve_def gsp_def)
    next
      case False
      then have m: "m = gsp c" "a < nsp h1" using r(3) p(10) gs(1) by auto
      have un: "class_at h1 a = c" "\<not> listed h1 a" using p(11) m gs by auto
      have "cell < length (central_lists h1)" using cell(1) p(7) by simp
      then obtain b h' where h': "alloc_set_mask (span_bm h1) a 0 1 = Some b" "activate (h1\<lparr>span_bm := b\<rparr>) cell a = Some h'"
        "grows h1 h' ls (ls(cell := a # ls cell)) cell a 1"
        using carve_big_ok [OF p(1) m(2) un(2,1) c big_slots [OF True]] cell(2) by blast
      have "span_of (span_bm h1) (hbase h + a * 65536) = a" using span_of_base [OF hinv_parts(1) [OF p(1)] m(2)] p(9) by simp
      moreover have "stocked h h' (ls(cell := a # ls cell))" using handed_grows [of h h1 ls a 1 c h'] r(2) h'(3) m(1) gs(1) by simp
      ultimately show ?thesis using r(1) h'(1,2) True cu sz osz_rounded [OF c] gs(1) m(1) found [OF h'(3)]
        by (intro exI [of _ h'] exI [of _ 1] exI [of _ "ls(cell := a # ls cell)"]) (simp add: central_carve_def gsp_def)
    qed
  next
    case False
    note ss = small_slots [OF c, OF leI [OF False]]
    have g1: "gsp c = 1" using gsp_one [OF c] False by simp
    let ?w = "max (div_ceil batch (nslots c)) 1"
    have "div_ceil batch (nslots c) \<le> batch" using ss by (subst div_ceil_le_iff) auto
    then have w: "0 < ?w" "?w < 2 ^ 32" using batch by simp_all
    obtain h1 a m where r: "carve_or_reuse_spans x h ?w c (as_u16 my_shard) = Some (h1, hbase h + a * 65536, hbase h + (a + m) * 65536)"
      "handed h h1 ls a m c" "m = 0 \<longrightarrow> avail h = 0"
      using carve_or_reuse_ok [OF h s w cu(1,3), of x] by metis
    note p = handed_parts [OF r(2)]
    show ?thesis
    proof (cases "m = 0")
      case True
      then show ?thesis using r handed_none False cu sz osz_rounded [OF c] ss osz_pos [OF c]
        by (intro exI [of _ h1] exI [of _ 0] exI [of _ ls]) (auto simp: central_carve_def Let_def)
    next
      case m0: False
      have "cell < length (central_lists h1)" using cell(1) p(7) by simp
      then obtain h' ls' where h': "carve_tiles cell (nslots c) (hbase h1 + a * 65536) (hbase h1 + (a + m) * 65536) h1 0 = Some (h', 0 + m * nslots c)"
        "grows h1 h' ls ls' cell a m"
        using carve_tiles_ok [OF p(1,10) _ cell(2) c p(11)] by blast
      have "stocked h h' ls'" using handed_grows [of h h1 ls a m c h'] r(2) h'(2) g1 by simp
      then show ?thesis using r(1) h'(1) False cu sz osz_rounded [OF c] ss m0 found [OF h'(2)] p(9)
        by (intro exI [of _ h'] exI [of _ "m * nslots c"] exI [of _ ls']) (auto simp: central_carve_def Let_def)
    qed
  qed
qed

end
