(* ===== verification/Sub_Heap_Alloc.thy ===== *)
theory Sub_Heap_Alloc
  imports Sub_Heap_Spans
begin

text \<open>
  Allocation and release of small objects: refill and drain, the single-object operations and the
  batches of the thread caches. \<open>hands_out\<close> and \<open>takes_back\<close> state what an operation does: the
  multiset of objects that changes hands, the class it belongs to, and the charge on the counters.
\<close>

subsection \<open>Objects in the hands of the program\<close>

lemma live_held: "hinv h ls \<Longrightarrow> small_class c \<Longrightarrow> live_objs h c + held h c = all_objs h c"
  using hinv_parts(4) [of h ls] by (simp add: live_objs_def held_ok_def)

text \<open>\<open>gives h h' ls' c M\<close>: the objects \<open>M\<close> of class \<open>c\<close> have been handed out; nothing else has changed hands.\<close>

definition same_frame :: "sub_heap \<Rightarrow> sub_heap \<Rightarrow> bool" where
  "same_frame h h' \<longleftrightarrow> num_shards h' = num_shards h \<and> length (central_lists h') = length (central_lists h) \<and> nsp h' = nsp h \<and>
     hbase h' = hbase h \<and> num_cpus (sh_slab h') = num_cpus (sh_slab h) \<and> run_spans (large h') = run_spans (large h) \<and>
     budget_bytes h' = budget_bytes h"

definition gives :: "sub_heap \<Rightarrow> sub_heap \<Rightarrow> (nat \<Rightarrow> nat list) \<Rightarrow> nat \<Rightarrow> nat multiset \<Rightarrow> bool" where
  "gives h h' ls' c M \<longleftrightarrow> hinv h' ls' \<and> sinv h' \<and> same_frame h h' \<and> counters h' = counters h \<and>
     live_objs h' c = M + live_objs h c \<and> (\<forall>d. small_class d \<and> d \<noteq> c \<longrightarrow> live_objs h' d = live_objs h d)"

lemma same_frame_trans: "same_frame a b \<Longrightarrow> same_frame b c \<Longrightarrow> same_frame a c"
  by (simp add: same_frame_def)

lemma gives_trans: "gives h h1 ls1 c M \<Longrightarrow> gives h1 h2 ls2 c N \<Longrightarrow> gives h h2 ls2 c (N + M)"
  using same_frame_trans [of h h1 h2] by (simp add: gives_def)

lemma gives_refl: "hinv h ls \<Longrightarrow> sinv h \<Longrightarrow> gives h h ls c {#}"
  by (simp add: gives_def same_frame_def)

lemma same_map_live:
  assumes "hinv h ls" "hinv h' ls" "same_map h h'" "small_class d" "held h d = M + held h' d"
  shows "live_objs h' d = M + live_objs h d"
proof -
  have "live_objs h' d + held h' d = live_objs h d + held h d"
    using live_held [OF assms(1,4)] live_held [OF assms(2,4)] same_map_eqs(6) [OF assms(3)] by simp
  then have "live_objs h' d + held h' d = (M + live_objs h d) + held h' d" unfolding assms(5) by (simp add: ac_simps)
  then show ?thesis by (simp only: add_right_cancel)
qed

lemma same_map_gives:
  assumes "hinv h ls" "sinv h" "hinv h' ls" "same_map h h'" "small_class c" "held h c = M + held h' c"
    "\<forall>d. small_class d \<and> d \<noteq> c \<longrightarrow> held h' d = held h d" "num_cpus (sh_slab h') = num_cpus (sh_slab h)" "counters h' = counters h"
  shows "gives h h' ls c M"
proof -
  have "live_objs h' d = live_objs h d" if "small_class d" "d \<noteq> c" for d
    using same_map_live [OF assms(1,3,4) that(1), of "{#}"] assms(7) that by simp
  then show ?thesis
    using same_map_live [OF assms(1,3-6)] same_map_sinv [OF assms(4,2)] same_map_eqs [OF assms(4)] assms(3,8,9)
    by (simp add: gives_def same_frame_def)
qed

lemma stocked_gives: "stocked h h' ls' \<Longrightarrow> gives h h' ls' c {#}"
  by (simp add: stocked_def gives_def same_frame_def)

subsection \<open>Taking a batch\<close>

lemma central_take_gives:
  assumes h: "hinv h ls" and s: "sinv h" and c: "small_class c" and cell: "cell < length (central_lists h)" "cell mod NUM_CLASSES = c"
  shows "\<exists>h' got. central_take h cell len (CLASS_SIZES ! c) c = Some (h', got) \<and> gives h h' ls c (mset got) \<and> distinct got \<and>
    length got \<le> len \<and> (\<forall>p\<in>set got. p \<in># all_objs h' c \<and> p \<notin># held h' c) \<and> same_map h h' \<and> sh_slab h' = sh_slab h \<and>
    (got = [] \<and> 0 < len \<longrightarrow> (\<forall>i\<in>set (ls cell). ubits h \<inter> {k. k div 8192 = i} = {}))"
proof -
  obtain b ks where k: "central_take h cell len (CLASS_SIZES ! c) c = Some (h\<lparr>span_bm := b\<rparr>, map (addr (hbase h) c) ks)"
    "takes (nsp h) (span_bm h) b ks" "\<forall>k\<in>set ks. class_at h (k div 8192) = c" "length ks \<le> len"
    "length ks < len \<longrightarrow> (\<forall>i\<in>set (ls cell). ub b \<inter> {k. k div 8192 = i} = {})"
    using central_take_ok [OF h c cell] by blast
  let ?h = "h\<lparr>span_bm := b\<rparr>" and ?got = "map (addr (hbase h) c) ks"
  note t = takes_held [OF h c k(2,3)]
  have g: "gives h ?h ls c (mset ?got)" using same_map_gives [OF h s t(1,2) c t(4)] t(5) by simp
  have once: "count (held h c) p \<le> 1" for p
    using hinv_parts(4) [OF h] c all_objs_once [OF c, of h p] unfolding held_ok_def
    by (meson mset_subset_eq_count order_trans)
  have cnt: "count (mset ?got) p + count (held ?h c) p \<le> 1" for p using once [of p] unfolding t(4) by simp
  have "distinct ?got" unfolding distinct_count_atmost_1 using cnt by (metis add_leD1 count_mset_0_iff le_0_eq le_Suc_eq One_nat_def count_mset_gt_0 not_gr_zero)
  moreover have "p \<in># all_objs ?h c \<and> p \<notin># held ?h c" if "p \<in> set ?got" for p
  proof -
    have "0 < count (mset ?got) p" using that by simp
    then have "count (held ?h c) p = 0" using cnt [of p] by linarith
    moreover have "p \<in># held h c" unfolding t(4) using that by simp
    ultimately show ?thesis using hinv_parts(4) [OF h] c same_map_eqs(6) [OF t(2)] unfolding held_ok_def
      by (metis mset_subset_eqD not_in_iff)
  qed
  moreover have "\<forall>i\<in>set (ls cell). ubits h \<inter> {k. k div 8192 = i} = {}" if "?got = []" "0 < len"
  proof -
    have "ub b = ubits h" using k(2) that(1) by (simp add: takes_def ub_ubits)
    then show ?thesis using k(5) that by simp
  qed
  ultimately show ?thesis using k(1,4) g t(2) by auto
qed


subsection \<open>Refill and drain\<close>

lemma cell_of:
  assumes "geom h" "small_class c"
  shows "\<exists>cell. central_index h sh c = Some cell \<and> cell < length (central_lists h) \<and> cell mod NUM_CLASSES = c"
proof -
  have n: "0 < num_shards h" "length (central_lists h) = num_shards h * 49" "c < 49" using assms by (simp_all add: geom_def small_class_def)
  have "Suc (sh mod num_shards h) * 49 \<le> num_shards h * 49" using n(1) by (intro mult_le_mono1 Suc_leI) simp
  then have "sh mod num_shards h * 49 + c < num_shards h * 49" using n(3) by simp
  then show ?thesis using n by (simp add: central_index_def)
qed

lemma batch_for_small: "small_class c \<Longrightarrow> \<exists>n. batch_for c = Some n \<and> 0 < n \<and> n \<le> 64"
  by (simp add: batch_for_def)

definition carvable :: "sub_heap \<Rightarrow> nat \<Rightarrow> bool" where
  "carvable h c \<longleftrightarrow> gsp c = 1 \<or> room h (gsp c)"

lemma carve_take_gives:
  assumes h: "hinv h ls" and s: "sinv h" and c: "small_class c" and rm: "carvable h c"
    and cell: "cell < length (central_lists h)" "cell mod NUM_CLASSES = c" and b: "batch < 2 ^ 32" and len: "0 < len"
  shows "\<exists>h' ls' got. (case central_carve x h cell c sh batch of
        None \<Rightarrow> None
      | Some (hc, n) \<Rightarrow> (if n = 0 then Some (hc, []) else central_take hc cell len (CLASS_SIZES ! c) c)) = Some (h', got) \<and>
    gives h h' ls' c (mset got) \<and> distinct got \<and> length got \<le> len \<and> (\<forall>p\<in>set got. p \<in># all_objs h' c \<and> p \<notin># held h' c) \<and>
    sh_slab h' = sh_slab h \<and> (got = [] \<longrightarrow> avail h = 0)"
proof -
  obtain h1 n ls1 where 1: "central_carve x h cell c sh batch = Some (h1, n)" "stocked h h1 ls1"
    "if n = 0 then avail h = 0 else \<exists>i\<in>set (ls1 cell). ubits h1 \<inter> {k. k div 8192 = i} \<noteq> {}"
    using central_carve_ok [OF h s c _ cell b] rm unfolding carvable_def by metis
  have g1: "gives h h1 ls1 c {#}" using stocked_gives [OF 1(2)] .
  have i1: "hinv h1 ls1" "sinv h1" "cell < length (central_lists h1)" "sh_slab h1 = sh_slab h" using 1(2) cell(1) by (simp_all add: stocked_def)
  show ?thesis
  proof (cases "n = 0")
    case True
    then show ?thesis using 1 g1 i1 by (intro exI [of _ h1] exI [of _ ls1] exI [of _ "[]"]) simp
  next
    case False
    obtain h2 got where 2: "central_take h1 cell len (CLASS_SIZES ! c) c = Some (h2, got)" "gives h1 h2 ls1 c (mset got)" "distinct got"
      "length got \<le> len" "\<forall>p\<in>set got. p \<in># all_objs h2 c \<and> p \<notin># held h2 c" "sh_slab h2 = sh_slab h1"
      "got = [] \<and> 0 < len \<longrightarrow> (\<forall>i\<in>set (ls1 cell). ubits h1 \<inter> {k. k div 8192 = i} = {})"
      using central_take_gives [OF i1(1,2) c i1(3) cell(2)] by blast
    have "got \<noteq> []" using 2(7) 1(3) False len by auto
    then show ?thesis using 1(1) False 2 gives_trans [OF g1 2(2)] i1(4)
      by (intro exI [of _ h2] exI [of _ ls1] exI [of _ got]) simp
  qed
qed

lemma stash_gives:
  assumes h: "hinv h ls" "sinv h" and c: "small_class c" and cs: "bind_ok (sh_slab h) cs"
    and ps: "\<forall>p\<in>set ps. p \<in># all_objs h c \<and> p \<notin># held h c" "distinct ps"
  shows "\<exists>h'. stash_all (sh_push x cs c) (central_deposit (CLASS_SIZES ! c)) ps h = Some h' \<and> hinv h' ls \<and> sinv h' \<and> same_map h h' \<and> tally h' = tally h \<and>
    live_objs h c = mset ps + live_objs h' c \<and> (\<forall>d. small_class d \<and> d \<noteq> c \<longrightarrow> live_objs h' d = live_objs h d)"
proof -
  have i: "store_inv h ls cs c h" using h c cs by (simp add: store_inv_def)
  obtain h' where h': "stash_all (sh_push x cs c) (central_deposit (CLASS_SIZES ! c)) ps h = Some h'" "store_inv h ls cs c h'"
    "held h' c = mset ps + held h c"
    using shs.stash_adds [OF i ps] by blast
  have e: "hinv h' ls" "same_map h h'" "\<forall>d. small_class d \<and> d \<noteq> c \<longrightarrow> held h' d = held h d" "tally h' = tally h" using h'(2) by (auto simp: store_inv_def)
  have "live_objs h' c + held h' c = live_objs h c + held h c"
    using live_held [OF h(1) c] live_held [OF e(1) c] same_map_eqs(6) [OF e(2)] by simp
  then have "live_objs h c + held h c = (mset ps + live_objs h' c) + held h c" unfolding h'(3) by (simp add: ac_simps)
  then have "live_objs h c = mset ps + live_objs h' c" by (simp only: add_right_cancel)
  moreover have "live_objs h' d = live_objs h d" if "small_class d" "d \<noteq> c" for d
    using same_map_live [OF h(1) e(1,2) that(1), of "{#}"] e(3) that by simp
  ultimately show ?thesis using h' e same_map_sinv [OF e(2) h(2)] by blast
qed


text \<open>Freeing: \<open>takes_back h h' ls c p\<close> returns the object \<open>p\<close>.\<close>

definition kept :: "sub_heap \<Rightarrow> sub_heap \<Rightarrow> (nat \<Rightarrow> nat list) \<Rightarrow> nat \<Rightarrow> bool" where
  "kept h h' ls c \<longleftrightarrow> hinv h' ls \<and> sinv h' \<and> same_map h h' \<and> tally h' = tally h \<and>
     (\<forall>d. small_class d \<and> d \<noteq> c \<longrightarrow> live_objs h' d = live_objs h d)"

lemma kept_trans: "kept a b ls c \<Longrightarrow> kept b d ls c \<Longrightarrow> kept a d ls c"
  using same_map_trans [of a b d] by (simp add: kept_def)

lemma kept_frame: "kept h h' ls c \<Longrightarrow> same_frame h h'"
  using same_map_eqs [of h h'] by (simp add: kept_def same_frame_def tally_def)

lemma refill_gives:
  assumes h: "hinv h ls" and s: "sinv h" and c: "small_class c" and rm: "carvable h c" and cs: "bind_ok (sh_slab h) cs"
  shows "\<exists>h' r ls'. refill x h cs c sh = Some (h', r) \<and>
    gives h h' ls' c (case r of None \<Rightarrow> {#} | Some p \<Rightarrow> {#p#}) \<and> (r = None \<longrightarrow> avail h = 0)"
proof -
  obtain batch where b: "batch_for c = Some batch" "0 < batch" "batch \<le> 64" using batch_for_small [OF c] by blast
  obtain cell where cell: "central_index h sh c = Some cell" "cell < length (central_lists h)" "cell mod NUM_CLASSES = c"
    using cell_of [OF hinv_parts(1) [OF h] c] by blast
  obtain h1 got where 1: "central_take h cell batch (CLASS_SIZES ! c) c = Some (h1, got)" "gives h h1 ls c (mset got)" "distinct got"
    "\<forall>p\<in>set got. p \<in># all_objs h1 c \<and> p \<notin># held h1 c" "same_map h h1" "sh_slab h1 = sh_slab h"
    using central_take_gives [OF h s c cell(2,3)] by blast
  have i1: "hinv h1 ls" "sinv h1" using 1(2) by (simp_all add: gives_def)
  have "\<exists>h2 ls2 got2. (if got = [] then case central_carve x h1 cell c sh batch of None \<Rightarrow> None
        | Some (hc, n) \<Rightarrow> (if n = 0 then Some (hc, []) else central_take hc cell batch (CLASS_SIZES ! c) c) else Some (h1, got)) = Some (h2, got2) \<and>
    gives h h2 ls2 c (mset got2) \<and> distinct got2 \<and> (\<forall>p\<in>set got2. p \<in># all_objs h2 c \<and> p \<notin># held h2 c) \<and>
    sh_slab h2 = sh_slab h \<and> (got2 = [] \<longrightarrow> avail h = 0)"
  proof (cases "got = []")
    case True
    have av: "carvable h1 c" "avail h1 = avail h" using rm same_map_eqs(11) [OF 1(5)] by (simp_all add: carvable_def room_def avail_def)
    obtain h2 ls2 got2 where 2: "(case central_carve x h1 cell c sh batch of None \<Rightarrow> None
        | Some (hc, n) \<Rightarrow> (if n = 0 then Some (hc, []) else central_take hc cell batch (CLASS_SIZES ! c) c)) = Some (h2, got2)"
      "gives h1 h2 ls2 c (mset got2)" "distinct got2" "\<forall>p\<in>set got2. p \<in># all_objs h2 c \<and> p \<notin># held h2 c"
      "sh_slab h2 = sh_slab h1" "got2 = [] \<longrightarrow> avail h1 = 0"
      using carve_take_gives [OF i1 c av(1), of cell batch batch x sh] cell same_map_eqs(7) [OF 1(5)] b by force
    have "gives h h2 ls2 c (mset got2)" using gives_trans [OF 1(2) 2(2)] True by simp
    then show ?thesis using 2 True 1(6) av(2) by (intro exI [of _ h2] exI [of _ ls2] exI [of _ got2]) simp
  next
    case False
    then show ?thesis using 1 by (intro exI [of _ h1] exI [of _ ls] exI [of _ got]) simp
  qed
  then obtain h2 ls2 got2 where 2: "(if got = [] then case central_carve x h1 cell c sh batch of None \<Rightarrow> None
        | Some (hc, n) \<Rightarrow> (if n = 0 then Some (hc, []) else central_take hc cell batch (CLASS_SIZES ! c) c) else Some (h1, got)) = Some (h2, got2)"
    "gives h h2 ls2 c (mset got2)" "distinct got2" "\<forall>p\<in>set got2. p \<in># all_objs h2 c \<and> p \<notin># held h2 c"
    "sh_slab h2 = sh_slab h" "got2 = [] \<longrightarrow> avail h = 0" by blast
  have bind: "Option.bind (central_carve x h1 cell c sh batch) (\<lambda>(hc, n). if n = 0 then Some (hc, []) else central_take hc cell batch (CLASS_SIZES ! c) c) =
     (case central_carve x h1 cell c sh batch of None \<Rightarrow> None
        | Some (hc, n) \<Rightarrow> (if n = 0 then Some (hc, []) else central_take hc cell batch (CLASS_SIZES ! c) c))"
    by (cases "central_carve x h1 cell c sh batch") auto
  have pre: "refill x h cs c sh = (case got2 of [] \<Rightarrow> Some (h2, None)
     | p # rest \<Rightarrow> Option.bind (stash_all (sh_push x cs c) (central_deposit (CLASS_SIZES ! c)) rest h2) (\<lambda>h3. Some (h3, Some p)))"
    using b cell(1) 1(1) 2(1) size_of_small [OF c] by (simp add: refill_def bind cong: if_cong)
  show ?thesis
  proof (cases got2)
    case Nil
    then show ?thesis using pre 2 by auto
  next
    case (Cons p rest)
    have i2: "hinv h2 ls2" "sinv h2" "bind_ok (sh_slab h2) cs" using 2(2,5) cs by (simp_all add: gives_def)
    obtain h3 where 3: "stash_all (sh_push x cs c) (central_deposit (CLASS_SIZES ! c)) rest h2 = Some h3" "hinv h3 ls2" "sinv h3"
      "same_map h2 h3" "tally h3 = tally h2" "live_objs h2 c = mset rest + live_objs h3 c"
      "\<forall>d. small_class d \<and> d \<noteq> c \<longrightarrow> live_objs h3 d = live_objs h2 d"
      using stash_gives [OF i2(1,2) c i2(3), of rest x] 2(3,4) Cons by auto
    have "mset rest + live_objs h3 c = mset rest + add_mset p (live_objs h c)" using 3(6) 2(2) Cons by (simp add: gives_def)
    then have "live_objs h3 c = add_mset p (live_objs h c)" by (simp only: add_left_cancel)
    then have "gives h h3 ls2 c {#p#}" using 3 2(2) kept_frame [of h2 h3 ls2 c] same_frame_trans [of h h2 h3]
      by (simp add: gives_def kept_def tally_def)
    then show ?thesis using pre 3(1) Cons by auto
  qed
qed

subsection \<open>Live counters\<close>

definition bsum :: "sub_heap \<Rightarrow> u64" where
  "bsum h = (\<Sum>c\<leftarrow>counters h. local_bytes c + remote_bytes c)"

definition osum :: "sub_heap \<Rightarrow> u64" where
  "osum h = (\<Sum>c\<leftarrow>counters h. local_objs c + remote_objs c)"

lemma counter_sum_upd:
  fixes f :: "'a \<Rightarrow> u64"
  shows "i < length xs \<Longrightarrow> sum_list (map f (xs[i := v])) = sum_list (map f xs) - f (xs ! i) + f v"
  by (induction xs arbitrary: i) (auto split: nat.split simp: algebra_simps)

lemma counter_cell_less: "cs \<noteq> [] \<Longrightarrow> counter_cell cs cpu < length cs"
  by (cases cs) (auto simp: counter_cell_def min_def)

lemma charge_local_ok:
  assumes "counters h \<noteq> []"
  shows "\<exists>cs. charge_local h cpu b n = Some (h\<lparr>counters := cs\<rparr>) \<and> cs \<noteq> [] \<and>
    bsum (h\<lparr>counters := cs\<rparr>) = bsum h + of_int b \<and> osum (h\<lparr>counters := cs\<rparr>) = osum h + of_int n"
proof -
  let ?i = "counter_cell (counters h) cpu"
  have i: "?i < length (counters h)" using counter_cell_less [OF assms] .
  let ?c = "counters h ! ?i"
  let ?cs = "(counters h)[?i := ?c\<lparr>local_bytes := local_bytes ?c + of_int b, local_objs := local_objs ?c + of_int n\<rparr>]"
  have "charge_local h cpu b n = Some (h\<lparr>counters := ?cs\<rparr>)" using i by (simp add: charge_local_def add_local_def)
  then show ?thesis using assms i by (intro exI [of _ ?cs]) (simp add: bsum_def osum_def counter_sum_upd algebra_simps)
qed

lemma charge_remote_ok:
  assumes "counters h \<noteq> []"
  shows "\<exists>cs. charge_remote h cpu b n = Some (h\<lparr>counters := cs\<rparr>) \<and> cs \<noteq> [] \<and>
    bsum (h\<lparr>counters := cs\<rparr>) = bsum h + of_int b \<and> osum (h\<lparr>counters := cs\<rparr>) = osum h + of_int n"
proof -
  let ?i = "counter_cell (counters h) cpu"
  have i: "?i < length (counters h)" using counter_cell_less [OF assms] .
  let ?c = "counters h ! ?i"
  let ?cs = "(counters h)[?i := ?c\<lparr>remote_bytes := remote_bytes ?c + of_int b, remote_objs := remote_objs ?c + of_int n\<rparr>]"
  have "charge_remote h cpu b n = Some (h\<lparr>counters := ?cs\<rparr>)" using i by (simp add: charge_remote_def add_remote_def)
  then show ?thesis using assms i by (intro exI [of _ ?cs]) (simp add: bsum_def osum_def counter_sum_upd algebra_simps)
qed

lemma counters_hinv:
  assumes "hinv h ls" "cs \<noteq> []"
  shows "hinv (h\<lparr>counters := cs\<rparr>) ls" "same_map h (h\<lparr>counters := cs\<rparr>)" "live_objs (h\<lparr>counters := cs\<rparr>) = live_objs h"
proof -
  show m: "same_map h (h\<lparr>counters := cs\<rparr>)" by (simp add: same_map_def)
  note e = same_map_eqs [OF m]
  have u: "ubits (h\<lparr>counters := cs\<rparr>) = ubits h" by (simp add: ubits_def)
  have hd: "held (h\<lparr>counters := cs\<rparr>) = held h" unfolding held_def e u by simp
  have "geom (h\<lparr>counters := cs\<rparr>)" using hinv_parts(1) [OF assms(1)] assms(2) e by (simp add: geom_def)
  moreover have "bits_ok (h\<lparr>counters := cs\<rparr>)" using hinv_parts(3) [OF assms(1)] unfolding bits_ok_def e u by simp
  ultimately show "hinv (h\<lparr>counters := cs\<rparr>) ls"
    using hinv_step [OF assms(1) m] hinv_parts(4) [OF assms(1)] unfolding held_ok_def hd by blast
  show "live_objs (h\<lparr>counters := cs\<rparr>) = live_objs h" unfolding live_objs_def hd e by simp
qed

subsection \<open>The invariant of a sub-heap\<close>

definition heap_inv :: "sub_heap \<Rightarrow> bool" where
  "heap_inv h \<longleftrightarrow> (\<exists>ls. hinv h ls) \<and> sinv h"

text \<open>\<open>hands_out h h' c M b n\<close>: an operation hands out the objects \<open>M\<close> and charges \<open>b\<close> bytes in \<open>n\<close> objects.\<close>

definition hands_out :: "sub_heap \<Rightarrow> sub_heap \<Rightarrow> nat \<Rightarrow> nat multiset \<Rightarrow> bool" where
  "hands_out h h' c M \<longleftrightarrow> heap_inv h' \<and> same_frame h h' \<and> live_objs h' c = M + live_objs h c \<and>
     (\<forall>d. small_class d \<and> d \<noteq> c \<longrightarrow> live_objs h' d = live_objs h d) \<and>
     bsum h' = bsum h + of_nat (CLASS_SIZES ! c * size M) \<and> osum h' = osum h + of_nat (size M)"

lemma gives_hands_none: "gives h h' ls c {#} \<Longrightarrow> hands_out h h' c {#}"
  by (auto simp: gives_def hands_out_def heap_inv_def bsum_def osum_def)

lemma gives_charge:
  assumes "gives h h1 ls c M"
  shows "\<exists>h'. charge_local h1 cpu (int (CLASS_SIZES ! c) * int (size M)) (int (size M)) = Some h' \<and> hands_out h h' c M"
proof -
  have i: "hinv h1 ls" "sinv h1" using assms by (simp_all add: gives_def)
  have "counters h1 \<noteq> []" using hinv_parts(1) [OF i(1)] by (simp add: geom_def)
  then obtain cs where cs: "charge_local h1 cpu (int (CLASS_SIZES ! c) * int (size M)) (int (size M)) = Some (h1\<lparr>counters := cs\<rparr>)" "cs \<noteq> []"
    "bsum (h1\<lparr>counters := cs\<rparr>) = bsum h1 + of_int (int (CLASS_SIZES ! c) * int (size M))"
    "osum (h1\<lparr>counters := cs\<rparr>) = osum h1 + of_int (int (size M))"
    using charge_local_ok by blast
  note k = counters_hinv [OF i(1) cs(2)]
  have "bsum h1 = bsum h" "osum h1 = osum h" using assms by (simp_all add: gives_def bsum_def osum_def)
  then have "hands_out h (h1\<lparr>counters := cs\<rparr>) c M"
    using assms k same_map_sinv [OF k(2) i(2)] same_map_eqs [OF k(2)] cs(3,4)
    by (auto simp: hands_out_def heap_inv_def gives_def same_frame_def)
  then show ?thesis using cs(1) by blast
qed

lemma alloc_class_ok:
  assumes hi: "heap_inv h" and c: "small_class c" and rm: "carvable h c"
  shows "\<exists>h' r. alloc_class x h c = Some (h', r) \<and> hands_out h h' c (case r of None \<Rightarrow> {#} | Some p \<Rightarrow> {#p#}) \<and>
    (r = None \<longrightarrow> avail h = 0)"
proof -
  obtain ls where h: "hinv h ls" "sinv h" using hi by (auto simp: heap_inv_def)
  let ?cs = "current_fast (sh_slab h)"
  have sl: "slab_inv NUM_CLASSES (sh_slab h)" using hinv_parts(1) [OF h(1)] by (simp add: geom_def)
  have cc: "c < NUM_CLASSES" using c by (simp add: small_class_def)
  have bk: "bind_ok (sh_slab h) ?cs" by (simp add: bind_ok_def current_fast_def)
  obtain cpu a where cpu: "cpu < num_cpus (sh_slab h)" "pop_on (sh_slab h) (env_at x (clock h)) ?cs c =
      Some (fst (pop_at (sh_slab h) cpu c), snd (pop_at (sh_slab h) cpu c), a)"
    using pop_on_cases [OF sl bk cc] by blast
  obtain sl' f where f: "pop_at (sh_slab h) cpu c = (sl', f)" by (cases "pop_at (sh_slab h) cpu c")
  define h1 where h1: "h1 = h\<lparr>sh_slab := sl', clock := Suc (clock h)\<rparr>"
  note k = pop_at_ok [OF h(1) c cpu(1) f h1]
  have charge: "\<exists>h'. charge_local h2 cpu' (int (CLASS_SIZES ! c)) 1 = Some h' \<and> hands_out h h' c {#p#}" if "gives h h2 ls2 c {#p#}" for h2 ls2 p cpu'
    using gives_charge [OF that, of cpu'] by simp
  have t: "num_cpus (sh_slab h1) = num_cpus (sh_slab h)" "counters h1 = counters h" using k(3) by (simp_all add: tally_def)
  show ?thesis
  proof (cases f)
    case (FOk p)
    have "held h c = {#p#} + held h1 c" using k(4) FOk by simp
    moreover have "\<forall>d. small_class d \<and> d \<noteq> c \<longrightarrow> held h1 d = held h d" using k(4) FOk by simp
    ultimately have "gives h h1 ls c {#p#}" using same_map_gives [OF h k(1,2) c] t by blast
    then obtain h' where "charge_local h1 a (int (CLASS_SIZES ! c)) 1 = Some h'" "hands_out h h' c {#p#}" using charge by blast
    then show ?thesis using cpu(2) f FOk c h1 by (simp add: alloc_class_def)
  next
    case NeedsSlow
    have "held h1 = held h" using k(4) NeedsSlow by simp
    then have g1: "gives h h1 ls c {#}" using same_map_gives [OF h k(1,2) c, of "{#}"] t by simp
    have av: "carvable h1 c" "avail h1 = avail h" using rm h1 by (simp_all add: carvable_def room_def avail_def)
    have bk1: "bind_ok (sh_slab h1) ?cs" using bk t by (simp add: bind_ok_def)
    obtain h2 r ls2 where r: "refill x h1 ?cs c (shard_id x) = Some (h2, r)"
      "gives h1 h2 ls2 c (case r of None \<Rightarrow> {#} | Some p \<Rightarrow> {#p#})" "r = None \<longrightarrow> avail h1 = 0"
      using refill_gives [OF k(1) same_map_sinv [OF k(2) h(2)] c av(1) bk1] by blast
    have g2: "gives h h2 ls2 c (case r of None \<Rightarrow> {#} | Some p \<Rightarrow> {#p#})" using gives_trans [OF g1 r(2)] by simp
    show ?thesis
    proof (cases r)
      case None
      then show ?thesis using cpu(2) f NeedsSlow c h1 r gives_hands_none [of h h2 ls2 c] g2 av(2) by (simp add: alloc_class_def)
    next
      case (Some p)
      then obtain h' where "charge_local h2 (bound_cpu x h2 ?cs) (int (CLASS_SIZES ! c)) 1 = Some h'" "hands_out h h' c {#p#}"
        using charge g2 by fastforce
      then show ?thesis using cpu(2) f NeedsSlow c h1 r Some by (simp add: alloc_class_def)
    qed
  qed
qed

subsection \<open>Releasing an object\<close>

lemma live_obj:
  assumes "hinv h ls" "small_class c" "p \<in># live_objs h c"
  shows "p \<in># all_objs h c" "p \<notin># held h c"
proof -
  have e: "live_objs h c + held h c = all_objs h c" using live_held [OF assms(1,2)] .
  then show "p \<in># all_objs h c" using assms(3) by (metis union_iff)
  have "count (live_objs h c) p + count (held h c) p \<le> 1" using all_objs_once [OF assms(2), of h p] unfolding e [symmetric] by simp
  moreover have "0 < count (live_objs h c) p" using assms(3) by simp
  ultimately have "count (held h c) p = 0" by linarith
  then show "p \<notin># held h c" by (simp add: not_in_iff)
qed

lemma back_live:
  assumes "hinv h ls" "hinv h' ls" "same_map h h'" "small_class c" "held h' c = M + held h c"
  shows "live_objs h c = M + live_objs h' c"
proof -
  have "live_objs h c + held h c = (M + live_objs h' c) + held h c"
    using live_held [OF assms(1,4)] live_held [OF assms(2,4)] same_map_eqs(6) [OF assms(3)] assms(5) by (simp add: ac_simps)
  then show ?thesis by (simp only: add_right_cancel)
qed

lemma kept_back:
  assumes "hinv h ls" "sinv h" "hinv h' ls" "same_map h h'" "small_class c" "held h' c = M + held h c" "tally h' = tally h"
    "\<forall>d. small_class d \<and> d \<noteq> c \<longrightarrow> held h' d = held h d"
  shows "kept h h' ls c" "live_objs h c = M + live_objs h' c"
proof -
  show "live_objs h c = M + live_objs h' c" using back_live [OF assms(1,3-6)] .
  have "live_objs h' d = live_objs h d" if "small_class d" "d \<noteq> c" for d
    using same_map_live [OF assms(1,3,4) that(1), of "{#}"] assms(8) that by simp
  then show "kept h h' ls c" using assms same_map_sinv [OF assms(4,2)] by (simp add: kept_def)
qed

lemma drain_kept:
  assumes h: "hinv h ls" "sinv h" and c: "small_class c" and cs: "bind_ok (sh_slab h) cs" and p: "p \<in># live_objs h c"
  shows "\<exists>h'. drain x h cs c p = Some h' \<and> kept h h' ls c \<and> live_objs h c = add_mset p (live_objs h' c)"
proof -
  obtain batch where b: "batch_for c = Some batch" using batch_for_small [OF c] by blast
  have i: "store_inv h ls cs c h" using h c cs by (simp add: store_inv_def)
  obtain h1 where 1: "drain_with (sh_pop x cs c) (central_deposit (CLASS_SIZES ! c)) (max (batch div 2) 1) h = Some h1"
    "store_inv h ls cs c h1" "held h1 c = held h c"
    using shs.drain_keeps [OF i] by blast
  have e: "hinv h1 ls" "same_map h h1" "tally h1 = tally h" "bind_ok (sh_slab h1) cs"
    "\<forall>d. small_class d \<and> d \<noteq> c \<longrightarrow> held h1 d = held h d" using 1(2) by (auto simp: store_inv_def)
  have k1: "kept h h1 ls c" "live_objs h c = live_objs h1 c"
    using kept_back [OF h e(1,2) c, of "{#}"] 1(3) e(3,5) by simp_all
  have p1: "p \<in># all_objs h1 c" "p \<notin># held h1 c"
    using live_obj [OF h(1) c p] same_map_eqs(6) [OF e(2)] 1(3) by simp_all
  have s1: "sinv h1" using k1(1) by (simp add: kept_def)
  have "\<exists>h'. stash_all (sh_push x cs c) (central_deposit (CLASS_SIZES ! c)) [p] h1 = Some h' \<and> hinv h' ls \<and> sinv h' \<and> same_map h1 h' \<and> tally h' = tally h1 \<and>
    live_objs h1 c = mset [p] + live_objs h' c \<and> (\<forall>d. small_class d \<and> d \<noteq> c \<longrightarrow> live_objs h' d = live_objs h1 d)"
    using p1 by (intro stash_gives [OF e(1) s1 c e(4)]) simp_all
  then obtain h' where 2: "stash_all (sh_push x cs c) (central_deposit (CLASS_SIZES ! c)) [p] h1 = Some h'" "kept h1 h' ls c"
    "live_objs h1 c = mset [p] + live_objs h' c" unfolding kept_def by blast
  have "drain x h cs c p = Some h'" using b c 1(1) 2(1) by (simp add: drain_def)
  then show ?thesis using kept_trans [OF k1(1) 2(2)] 2(3) k1(2) by simp
qed

lemma free_local_kept:
  assumes h: "hinv h ls" "sinv h" and c: "small_class c" and cs: "bind_ok (sh_slab h) cs" and p: "p \<in># live_objs h c"
  shows "\<exists>h'. free_local x cs c p h = Some h' \<and> kept h h' ls c \<and> live_objs h c = add_mset p (live_objs h' c)"
proof -
  note lo = live_obj [OF h(1) c p]
  obtain h1 r where r: "sh_push x cs c p h = Some (h1, r)" "hinv h1 ls" "same_map h h1" "bind_ok (sh_slab h1) cs" "tally h1 = tally h"
    "case r of NeedsSlow \<Rightarrow> held h1 = held h
     | FOk _ \<Rightarrow> held h1 c = add_mset p (held h c) \<and> (\<forall>d. small_class d \<and> d \<noteq> c \<longrightarrow> held h1 d = held h d)"
    using sh_push_ok [OF h(1) c cs lo] by blast
  show ?thesis
  proof (cases r)
    case (FOk u)
    then have "held h1 c = {#p#} + held h c" "\<forall>d. small_class d \<and> d \<noteq> c \<longrightarrow> held h1 d = held h d" using r(6) by simp_all
    then show ?thesis using kept_back [OF h r(2,3) c] r(1,5) FOk by (auto simp: free_local_def)
  next
    case NeedsSlow
    then have "held h1 = held h" using r(6) by simp
    then have k: "kept h h1 ls c" "live_objs h c = live_objs h1 c" using kept_back [OF h r(2,3) c, of "{#}"] r(5) by simp_all
    have "\<exists>h'. drain x h1 cs c p = Some h' \<and> kept h1 h' ls c \<and> live_objs h1 c = add_mset p (live_objs h' c)"
      using drain_kept [OF r(2) _ c r(4)] k p by (simp add: kept_def)
    then show ?thesis using r(1) NeedsSlow kept_trans [OF k(1)] k(2) by (auto simp: free_local_def)
  qed
qed

lemma deposit_kept:
  assumes h: "hinv h ls" "sinv h" and c: "small_class c" and p: "p \<in># live_objs h c"
  shows "\<exists>h'. central_deposit (CLASS_SIZES ! c) p h = Some h' \<and> kept h h' ls c \<and> live_objs h c = add_mset p (live_objs h' c)"
proof -
  note lo = live_obj [OF h(1) c p]
  obtain h' where h': "central_deposit (CLASS_SIZES ! c) p h = Some h'" "hinv h' ls" "same_map h h'" "tally h' = tally h"
    "held h' c = add_mset p (held h c)" "\<forall>d. small_class d \<and> d \<noteq> c \<longrightarrow> held h' d = held h d"
    using central_deposit_ok [OF h(1) c lo] unfolding tally_def by metis
  then show ?thesis using kept_back [OF h h'(2,3) c, of "{#p#}"] by auto
qed

lemma obj_home:
  assumes h: "hinv h ls" and c: "small_class c" and p: "p \<in># all_objs h c" and ao: "arena_ok h"
  shows "\<exists>v. home_relaxed (span_tab h) p = Some v"
proof -
  have g: "geom h" using hinv_parts(1) [OF h] .
  obtain k where k: "k \<in> tiles h c" "p = addr (hbase h) c k" using obj_tile [OF c p] by blast
  note t = tile_bounds [OF g k(1) c]
  have "(p - hbase h) div 65536 = k div 8192" using addr_decode(1) [OF c t(2)] k(2) by simp
  moreover have "st_base (span_tab h) = hbase h" "length (entries (span_tab h)) = nsp h"
    using g span_lookup(5) [OF g t(1)] by (simp_all add: geom_def)
  ultimately show ?thesis using t(1) by (auto simp: home_relaxed_def)
qed

text \<open>\<open>takes_back h h' c M\<close>: the objects \<open>M\<close> of class \<open>c\<close> are returned and credited.\<close>

definition takes_back :: "sub_heap \<Rightarrow> sub_heap \<Rightarrow> nat \<Rightarrow> nat multiset \<Rightarrow> bool" where
  "takes_back h h' c M \<longleftrightarrow> heap_inv h' \<and> same_frame h h' \<and> live_objs h c = M + live_objs h' c \<and>
     (\<forall>d. small_class d \<and> d \<noteq> c \<longrightarrow> live_objs h' d = live_objs h d) \<and>
     bsum h' = bsum h - of_nat (CLASS_SIZES ! c * size M) \<and> osum h' = osum h - of_nat (size M)"

lemma kept_charge:
  assumes k: "kept h h1 ls c" and l: "live_objs h c = M + live_objs h1 c"
  shows "\<exists>h'. charge_local h1 cpu (- int (CLASS_SIZES ! c) * int (size M)) (- int (size M)) = Some h' \<and> takes_back h h' c M"
proof -
  have i: "hinv h1 ls" "sinv h1" using k by (simp_all add: kept_def)
  have "counters h1 \<noteq> []" using hinv_parts(1) [OF i(1)] by (simp add: geom_def)
  then obtain cs where cs: "charge_local h1 cpu (- int (CLASS_SIZES ! c) * int (size M)) (- int (size M)) = Some (h1\<lparr>counters := cs\<rparr>)" "cs \<noteq> []"
    "bsum (h1\<lparr>counters := cs\<rparr>) = bsum h1 + of_int (- int (CLASS_SIZES ! c) * int (size M))"
    "osum (h1\<lparr>counters := cs\<rparr>) = osum h1 + of_int (- int (size M))"
    using charge_local_ok by blast
  note q = counters_hinv [OF i(1) cs(2)]
  have "bsum h1 = bsum h" "osum h1 = osum h" using k by (simp_all add: kept_def tally_def bsum_def osum_def)
  then have "takes_back h (h1\<lparr>counters := cs\<rparr>) c M"
    using k l q same_map_sinv [OF q(2) i(2)] same_map_eqs [OF q(2)] kept_frame [OF k] cs(3,4)
    by (auto simp: takes_back_def heap_inv_def kept_def same_frame_def)
  then show ?thesis using cs(1) by blast
qed

lemma dealloc_class_ok:
  assumes hi: "heap_inv h" and c: "small_class c" and p: "p \<in># live_objs h c"
  shows "\<exists>h'. dealloc_class x h p c = Some h' \<and> takes_back h h' c {#p#}"
proof -
  obtain ls where h: "hinv h ls" "sinv h" using hi by (auto simp: heap_inv_def)
  let ?cs = "current_stack (sh_slab h) (env_at x (clock h))"
  have g: "geom h" using hinv_parts(1) [OF h(1)] .
  obtain home where hm: "home_relaxed (span_tab h) p = Some home"
    using obj_home [OF h(1) c live_obj(1) [OF h(1) c p]] h(2) by (auto simp: sinv_def)
  obtain loc where loc: "is_local x h home = Some loc" using g by (auto simp: is_local_def geom_def)
  have cs: "bind_ok (sh_slab h) ?cs" using current_stack_less [of NUM_CLASSES "sh_slab h"] g by (simp add: bind_ok_def geom_def)
  obtain h1 where h1: "(if loc then free_local x ?cs c p h else central_deposit (CLASS_SIZES ! c) p h) = Some h1" "kept h h1 ls c"
    "live_objs h c = {#p#} + live_objs h1 c"
    using free_local_kept [OF h c cs p] deposit_kept [OF h c p] by (cases loc) auto
  obtain h' where "charge_local h1 ?cs (- int (CLASS_SIZES ! c)) (- 1) = Some h'" "takes_back h h' c {#p#}"
    using kept_charge [OF h1(2,3), of ?cs] by auto
  then show ?thesis using hm loc c h1(1) by (simp add: dealloc_class_def cong: if_cong)
qed

subsection \<open>Releasing a batch\<close>

lemma finite_word_slots [simp]: "finite (word_slots i w m)"
  by (simp add: word_slots_def)

lemma mask_deposit_ok:
  assumes h: "hinv h ls" and s: "sinv h" and c: "small_class c" and i: "i < nsp h" "w < 128"
    and K: "word_slots i w m \<subseteq> tiles h c" and fresh: "\<forall>k\<in>word_slots i w m. addr (hbase h) c k \<notin># held h c"
  shows "\<exists>b. set_mask (span_bm h) i w m = Some b \<and> kept h (h\<lparr>span_bm := b\<rparr>) ls c \<and>
    live_objs h c = image_mset (addr (hbase h) c) (mset_set (word_slots i w m)) + live_objs (h\<lparr>span_bm := b\<rparr>) c"
proof -
  let ?K = "word_slots i w m" and ?f = "addr (hbase h) c"
  note g = hinv_parts(1) [OF h]
  have shape: "bm_shape (nsp h) (span_bm h)" using g by (simp add: geom_def)
  obtain b where b: "set_mask (span_bm h) i w m = Some b" "bm_shape (nsp h) b" "same_links (span_bm h) b"
    "alloc_bits b = alloc_bits (span_bm h)" "free_bits b = free_bits (span_bm h) \<union> ?K"
    using set_mask_bits [OF shape i] by blast
  let ?h = "h\<lparr>span_bm := b\<rparr>"
  note st = bits_step [OF g b(3,2)]
  note e = same_map_eqs [OF st(1)]
  have u: "ubits ?h = ubits h \<union> ?K" using b(4,5) by (auto simp: ubits_def)
  have nu: "ubits h \<inter> ?K = {}" using fresh K by (auto simp: held_set [OF c])
  have bits: "bits_ok ?h"
    using hinv_parts(3) [OF h] nu K b(4,5) unfolding bits_ok_def e u by (auto simp: ubits_def tiles_def)
  have hc: "held ?h c = image_mset ?f (mset_set ?K) + held h c"
  proof -
    have "(ubits h \<union> ?K) \<inter> tiles h c = (ubits h \<inter> tiles h c) \<union> ?K" using K by blast
    moreover have "ubits h \<inter> tiles h c \<inter> ?K = {}" using nu by blast
    ultimately show ?thesis
      unfolding held_def e u using image_union_mset [of "ubits h \<inter> tiles h c" ?K] by (simp add: ac_simps)
  qed
  have hd: "held ?h d = held h d" if "small_class d" "d \<noteq> c" for d
  proof -
    have "(ubits h \<union> ?K) \<inter> tiles h d = ubits h \<inter> tiles h d" using K tiles_class [of _ h c d] that by blast
    then show ?thesis unfolding held_def e u by simp
  qed
  have sub: "held ?h d \<subseteq># all_objs h d" if d: "small_class d" for d
  proof (cases "d = c")
    case True
    have "?f ` ?K \<subseteq> ?f ` tiles h c" "inj_on ?f ?K" using K addr_inj_tiles [OF c, of "hbase h" h] by (auto intro: inj_on_subset)
    then have "image_mset ?f (mset_set ?K) = mset_set (?f ` ?K)" by (simp add: image_mset_mset_set)
    moreover have "count (mset_set (?f ` ?K) + held h c) p \<le> count (all_objs h c) p" for p
    proof (cases "p \<in> ?f ` ?K")
      case True
      then have "count (held h c) p = 0" using fresh by (auto simp: not_in_iff)
      moreover have "p \<in> ?f ` tiles h c" using True K by blast
      ultimately show ?thesis using True by (simp add: all_objs_set [OF c] count_mset_set')
    next
      case False
      have "held h c \<subseteq># all_objs h c" using hinv_parts(4) [OF h] c by (simp add: held_ok_def)
      then show ?thesis using False by (simp add: count_mset_set' mset_subset_eq_count)
    qed
    ultimately show ?thesis using True hc by (simp add: subseteq_mset_def)
  next
    case False
    then show ?thesis using hd [OF d] hinv_parts(4) [OF h] d by (simp add: held_ok_def)
  qed
  have hi: "hinv ?h ls" using hinv_step [OF h st bits] sub by blast
  have "tally ?h = tally h" by (simp add: tally_def)
  then show ?thesis using kept_back [OF h s hi st(1) c hc] hd b(1) by blast
qed

lemma hint_kept:
  assumes h: "hinv h ls" and s: "sinv h" and cell: "cell < length (central_lists h)" and v: "v = NO_SPAN \<or> v < nsp h"
  shows "\<exists>h'. set_hint h cell v = Some h' \<and> kept h h' ls c \<and> live_objs h' = live_objs h"
proof -
  let ?cs = "(central_lists h)[cell := (central_lists h ! cell)\<lparr>reuse_hint := v\<rparr>]"
  let ?h = "h\<lparr>central_lists := ?cs\<rparr>"
  have "map cl_head ?cs = map cl_head (central_lists h)" using cell by (simp add: map_update list_update_same_conv)
  then have m: "same_map h ?h" by (simp add: same_map_def)
  note e = same_map_eqs [OF m]
  have u: "ubits ?h = ubits h" by (simp add: ubits_def)
  have hd: "held ?h = held h" unfolding held_def e u by simp
  have "\<forall>d\<in>set ?cs. reuse_hint d = NO_SPAN \<or> reuse_hint d < nsp h"
  proof
    fix d assume "d \<in> set ?cs"
    then have "d \<in> insert ((central_lists h ! cell)\<lparr>reuse_hint := v\<rparr>) (set (central_lists h))" using set_update_subset_insert by fast
    then show "reuse_hint d = NO_SPAN \<or> reuse_hint d < nsp h" using v hinv_parts(1) [OF h] by (auto simp: geom_def)
  qed
  then have "geom ?h" using hinv_parts(1) [OF h] e by (simp add: geom_def)
  moreover have "bits_ok ?h" using hinv_parts(3) [OF h] unfolding bits_ok_def e u by simp
  ultimately have i: "hinv ?h ls" using hinv_step [OF h m] hinv_parts(4) [OF h] unfolding held_ok_def hd by blast
  have l: "live_objs ?h = live_objs h" unfolding live_objs_def hd e by simp
  have "set_hint h cell v = Some ?h" using cell by (simp add: set_hint_def)
  then show ?thesis using i l m same_map_sinv [OF m s] by (auto simp: kept_def tally_def)
qed

text \<open>A pending coalesced deposit: a span, one of its bitmap words and a mask.\<close>

definition pend_slots :: "nat \<times> nat \<times> u64 \<Rightarrow> nat set" where
  "pend_slots = (\<lambda>(i, w, m). word_slots i w m)"

definition pend_ok :: "sub_heap \<Rightarrow> nat \<Rightarrow> nat \<times> nat \<times> u64 \<Rightarrow> bool" where
  "pend_ok h c = (\<lambda>(i, w, m). if i = NO_SPAN then m = 0 else i < nsp h \<and> w < 128 \<and> word_slots i w m \<subseteq> tiles h c)"

definition pend_objs :: "sub_heap \<Rightarrow> nat \<Rightarrow> nat \<times> nat \<times> u64 \<Rightarrow> nat multiset" where
  "pend_objs h c pd = image_mset (addr (hbase h) c) (mset_set (pend_slots pd))"

lemma pend_cong: "same_map h h' \<Longrightarrow> pend_ok h' c pd = pend_ok h c pd \<and> pend_objs h' c pd = pend_objs h c pd"
proof -
  assume "same_map h h'"
  note e = same_map_eqs [OF this]
  show ?thesis unfolding pend_ok_def pend_objs_def e by simp
qed

lemma pend_not_held:
  assumes h: "hinv h ls" and c: "small_class c" and pm: "pend_objs h c pd \<subseteq># live_objs h c" and fin: "finite (pend_slots pd)"
  shows "\<forall>k\<in>pend_slots pd. addr (hbase h) c k \<notin># held h c"
proof
  fix k assume "k \<in> pend_slots pd"
  then have "addr (hbase h) c k \<in># pend_objs h c pd" using fin by (simp add: pend_objs_def)
  then show "addr (hbase h) c k \<notin># held h c" using live_obj(2) [OF h c mset_subset_eqD [OF pm]] by blast
qed

lemma flush_kept:
  assumes h: "hinv h ls" and s: "sinv h" and c: "small_class c" and pd: "pend_ok h c (i, w, m)" and pm: "pend_objs h c (i, w, m) \<subseteq># live_objs h c"
  shows "\<exists>h'. flush_pending h i w m = Some h' \<and> kept h h' ls c \<and> live_objs h c = pend_objs h c (i, w, m) + live_objs h' c"
proof (cases "m = 0")
  case True
  then have "pend_objs h c (i, w, m) = {#}" by (simp add: pend_objs_def pend_slots_def word_slots_def)
  then show ?thesis using True h s by (auto simp: flush_pending_def kept_def)
next
  case False
  then have k: "i < nsp h" "w < 128" "word_slots i w m \<subseteq> tiles h c" using pd by (auto simp: pend_ok_def split: if_splits)
  have "\<forall>k\<in>word_slots i w m. addr (hbase h) c k \<notin># held h c"
    using pend_not_held [OF h c pm] by (simp add: pend_slots_def)
  then show ?thesis using mask_deposit_ok [OF h s c k] False by (auto simp: flush_pending_def pend_objs_def pend_slots_def)
qed

lemma locate_obj:
  assumes "geom h" "k \<in> tiles h c" "small_class c"
  shows "locate (span_bm h) (addr (hbase h) c k) (CLASS_SIZES ! c) = Some (k div 8192, k mod 8192 div 64, k mod 8192 mod 64)"
  using tile_bounds [OF assms] osz_pos [OF assms(3)] by (simp add: locate_def Let_def)


lemma count_disjoint:
  assumes "hinv h ls" "small_class c" "add_mset p M \<subseteq># live_objs h c"
  shows "p \<notin># M"
proof -
  have "count (add_mset p M) p \<le> count (live_objs h c) p" using assms(3) by (rule mset_subset_eq_count)
  also have "\<dots> \<le> count (all_objs h c) p" unfolding live_objs_def by simp
  also have "\<dots> \<le> 1" using all_objs_once [OF assms(2)] .
  finally show ?thesis by (simp add: not_in_iff)
qed

lemma pend_add:
  assumes g: "geom h" and k: "k \<in> tiles h c" and c: "small_class c" and pd: "pend_ok h c (k div 8192, k mod 8192 div 64, m)"
    and new: "addr (hbase h) c k \<notin># pend_objs h c (k div 8192, k mod 8192 div 64, m)"
  shows "pend_ok h c (k div 8192, k mod 8192 div 64, m OR push_bit (k mod 8192 mod 64) 1)"
    "pend_objs h c (k div 8192, k mod 8192 div 64, m OR push_bit (k mod 8192 mod 64) 1) =
       add_mset (addr (hbase h) c k) (pend_objs h c (k div 8192, k mod 8192 div 64, m))"
proof -
  let ?i = "k div 8192" and ?w = "k mod 8192 div 64" and ?b = "push_bit (k mod 8192 mod 64) 1 :: u64"
  have s: "word_slots ?i ?w (m OR ?b) = insert k (word_slots ?i ?w m)"
    using single_bit [of k] unfolding word_slots_def bits_OR by (simp add: image_Un)
  have i: "?i \<noteq> NO_SPAN" using tile_bounds(1) [OF g k c] g by (auto simp: geom_def NO_SPAN_def)
  then show "pend_ok h c (?i, ?w, m OR ?b)" using pd k by (simp add: pend_ok_def s del: push_bit_of_1)
  have "k \<notin> word_slots ?i ?w m" using new by (auto simp: pend_objs_def pend_slots_def)
  then show "pend_objs h c (?i, ?w, m OR ?b) = add_mset (addr (hbase h) c k) (pend_objs h c (?i, ?w, m))"
    by (simp add: pend_objs_def pend_slots_def s del: push_bit_of_1)
qed

lemma pend_start:
  assumes g: "geom h" and k: "k \<in> tiles h c" and c: "small_class c"
  shows "pend_ok h c (k div 8192, k mod 8192 div 64, 0)" "pend_objs h c (k div 8192, k mod 8192 div 64, 0) = {#}"
proof -
  have "k mod 8192 div 64 < 128" by (intro less_mult_imp_div_less) simp
  then show "pend_ok h c (k div 8192, k mod 8192 div 64, 0)" using tile_bounds(1) [OF g k c]
    by (simp add: pend_ok_def word_slots_def)
  show "pend_objs h c (k div 8192, k mod 8192 div 64, 0) = {#}" by (simp add: pend_objs_def pend_slots_def word_slots_def)
qed

text \<open>One turn of the loop: the objects are returned, or pending.\<close>

definition absorbed :: "sub_heap \<Rightarrow> sub_heap \<Rightarrow> (nat \<Rightarrow> nat list) \<Rightarrow> nat \<Rightarrow> nat \<times> nat \<times> u64 \<Rightarrow> nat \<times> nat \<times> u64 \<Rightarrow> nat multiset \<Rightarrow> bool" where
  "absorbed h h' ls c pd pd' M \<longleftrightarrow> kept h h' ls c \<and> pend_ok h' c pd' \<and>
     live_objs h c + pend_objs h' c pd' = live_objs h' c + M + pend_objs h c pd"

lemma absorbed_trans:
  assumes "absorbed h h1 ls c pd pd1 M" "absorbed h1 h2 ls c pd1 pd2 N"
  shows "absorbed h h2 ls c pd pd2 (M + N)"
proof -
  have a: "live_objs h c + pend_objs h1 c pd1 = live_objs h1 c + M + pend_objs h c pd"
    "live_objs h1 c + pend_objs h2 c pd2 = live_objs h2 c + N + pend_objs h1 c pd1" using assms by (simp_all add: absorbed_def)
  have "count (live_objs h c + pend_objs h2 c pd2) p = count (live_objs h2 c + (M + N) + pend_objs h c pd) p" for p
    using arg_cong [OF a(1), of "\<lambda>X. count X p"] arg_cong [OF a(2), of "\<lambda>X. count X p"] by simp
  then have "live_objs h c + pend_objs h2 c pd2 = live_objs h2 c + (M + N) + pend_objs h c pd" by (intro multiset_eqI)
  then show ?thesis using assms kept_trans unfolding absorbed_def by blast
qed

lemma absorbed_pend:
  assumes "absorbed h h' ls c pd pd' M" "M + N + pend_objs h c pd \<subseteq># live_objs h c"
  shows "N + pend_objs h' c pd' \<subseteq># live_objs h' c"
proof -
  have e: "live_objs h c + pend_objs h' c pd' = live_objs h' c + M + pend_objs h c pd" using assms(1) by (simp add: absorbed_def)
  have "count (N + pend_objs h' c pd') p \<le> count (live_objs h' c) p" for p
    using arg_cong [OF e, of "\<lambda>X. count X p"] mset_subset_eq_count [OF assms(2), of p] by simp
  then show ?thesis by (simp add: subseteq_mset_def)
qed


lemma batch_step:
  assumes h: "hinv h ls" and s: "sinv h" and c: "small_class c" and cs: "bind_ok (sh_slab h) cs" and pd: "pend_ok h c pd"
    and live: "add_mset p (mset ps) + pend_objs h c pd \<subseteq># live_objs h c"
  shows "\<exists>h' pd'. (\<forall>n. batch_loop x cs c (CLASS_SIZES ! c) (p # ps) h pd n = batch_loop x cs c (CLASS_SIZES ! c) ps h' pd' (n + 1)) \<and>
    absorbed h h' ls c pd pd' {#p#}"
proof -
  have g: "geom h" using hinv_parts(1) [OF h] .
  have pl: "p \<in># live_objs h c" using mset_subset_eqD [OF live, of p] by simp
  have pmp: "add_mset p (pend_objs h c pd) \<subseteq># live_objs h c"
    using live by (rule subset_mset.order_trans [rotated]) (simp add: mset_subset_eq_add_right)
  have pm: "pend_objs h c pd \<subseteq># live_objs h c" using pmp by (rule subset_mset.order_trans [rotated]) simp
  have po: "p \<notin># pend_objs h c pd" using count_disjoint [OF h c pmp] .
  obtain k where k: "k \<in> tiles h c" "p = addr (hbase h) c k" using obj_tile [OF c live_obj(1) [OF h c pl]] by blast
  obtain home where hm: "home_relaxed (span_tab h) p = Some home"
    using obj_home [OF h c live_obj(1) [OF h c pl]] s by (auto simp: sinv_def)
  obtain loc where loc: "is_local x h home = Some loc" using g by (auto simp: is_local_def geom_def)
  obtain i w m where pdq: "pd = (i, w, m)" by (cases pd) auto
  show ?thesis
  proof (cases loc)
    case True
    obtain h1 where h1: "free_local x cs c p h = Some h1" "kept h h1 ls c" "live_objs h c = add_mset p (live_objs h1 c)"
      using free_local_kept [OF h s c cs pl] by blast
    have "same_map h h1" using h1(2) by (simp add: kept_def)
    then have "absorbed h h1 ls c pd pd {#p#}" using h1 pd pend_cong [of h h1 c pd] by (simp add: absorbed_def)
    then show ?thesis using hm loc True h1(1) by (intro exI [of _ h1] exI [of _ pd]) simp
  next
    case False
    let ?i = "k div 8192" and ?w = "k mod 8192 div 64"
    have lc: "locate (span_bm h) p (CLASS_SIZES ! c) = Some (?i, ?w, k mod 8192 mod 64)" using locate_obj [OF g k(1) c] k(2) by simp
    show ?thesis
    proof (cases "?i \<noteq> i \<or> ?w \<noteq> w")
      case True
      obtain h1 where h1: "flush_pending h i w m = Some h1" "kept h h1 ls c" "live_objs h c = pend_objs h c (i, w, m) + live_objs h1 c"
        using flush_kept [OF h s c] pd pm pdq by blast
      have i1: "geom h1" "tiles h1 = tiles h" "hbase h1 = hbase h" using h1(2) same_map_eqs [of h h1] hinv_parts(1) by (auto simp: kept_def)
      have k1: "k \<in> tiles h1 c" using k(1) i1 by simp
      note st = pend_start [OF i1(1) k1 c]
      note ad = pend_add [OF i1(1) k1 c st(1)]
      let ?pd = "(?i, ?w, 0 OR push_bit (k mod 8192 mod 64) 1)"
      have "pend_ok h1 c ?pd" "pend_objs h1 c ?pd = {#p#}" using ad st(2) k(2) i1(3) by simp_all
      then have "absorbed h h1 ls c pd ?pd {#p#}" using h1(2,3) pdq by (simp add: absorbed_def)
      then show ?thesis using hm loc False lc h1(1) True pdq by (intro exI [of _ h1] exI [of _ ?pd]) simp
    next
      case same: False
      then have e: "?i = i" "?w = w" by simp_all
      let ?pd = "(i, w, m OR push_bit (k mod 8192 mod 64) 1)"
      have "pend_ok h c ?pd" "pend_objs h c ?pd = add_mset p (pend_objs h c pd)"
        using pend_add [OF g k(1) c, of m] pd po pdq k(2) e by simp_all
      then have "absorbed h h ls c pd ?pd {#p#}" using h s by (simp add: absorbed_def kept_def)
      then show ?thesis using hm loc False lc same pdq e by (intro exI [of _ h] exI [of _ ?pd]) simp
    qed
  qed
qed

lemma batch_loop_absorbs:
  assumes "hinv h ls" "sinv h" "small_class c" "bind_ok (sh_slab h) cs" "pend_ok h c pd" "mset ps + pend_objs h c pd \<subseteq># live_objs h c"
  shows "\<exists>h' pd'. batch_loop x cs c (CLASS_SIZES ! c) ps h pd n = Some (h', pd', n + length ps) \<and> absorbed h h' ls c pd pd' (mset ps)"
  using assms
proof (induction ps arbitrary: h pd n)
  case Nil
  then show ?case by (intro exI [of _ h] exI [of _ pd]) (simp add: absorbed_def kept_def)
next
  case (Cons p ps)
  obtain h1 pd1 where 1: "\<forall>n. batch_loop x cs c (CLASS_SIZES ! c) (p # ps) h pd n = batch_loop x cs c (CLASS_SIZES ! c) ps h1 pd1 (n + 1)"
    "absorbed h h1 ls c pd pd1 {#p#}"
    using batch_step [OF Cons.prems(1-5), of p ps x] Cons.prems(6) by auto
  have i: "hinv h1 ls" "sinv h1" "pend_ok h1 c pd1" "tally h1 = tally h" using 1(2) by (simp_all add: absorbed_def kept_def)
  have b: "bind_ok (sh_slab h1) cs" using Cons.prems(4) i(4) by (simp add: bind_ok_def tally_def)
  have l: "mset ps + pend_objs h1 c pd1 \<subseteq># live_objs h1 c" using absorbed_pend [OF 1(2), of "mset ps"] Cons.prems(6) by simp
  obtain h2 pd2 where 2: "batch_loop x cs c (CLASS_SIZES ! c) ps h1 pd1 (n + 1) = Some (h2, pd2, n + 1 + length ps)" "absorbed h1 h2 ls c pd1 pd2 (mset ps)"
    using Cons.IH [OF i(1,2) Cons.prems(3) b i(3) l] by blast
  then show ?case using 1 absorbed_trans [OF 1(2) 2(2)] by (intro exI [of _ h2] exI [of _ pd2]) (simp del: batch_loop.simps)
qed

lemma span_home:
  assumes "geom h" "i < nsp h"
  shows "\<exists>v. home_relaxed (span_tab h) (span_base (span_bm h) i) = Some v"
proof -
  have "(span_base (span_bm h) i - hbase h) div 65536 = i" using span_lookup(3) [OF assms] by simp
  moreover have "st_base (span_tab h) = hbase h" "length (entries (span_tab h)) = nsp h"
    using assms span_lookup(5) [OF assms] by (simp_all add: geom_def)
  ultimately show ?thesis using assms(2) by (auto simp: home_relaxed_def)
qed

lemma dealloc_class_batch_ok:
  assumes hi: "heap_inv h" and c: "small_class c" and ps: "mset ps \<subseteq># live_objs h c"
  shows "\<exists>h'. dealloc_class_batch x h ps c = Some h' \<and> takes_back h h' c (mset ps)"
proof -
  obtain ls where h: "hinv h ls" "sinv h" using hi by (auto simp: heap_inv_def)
  let ?cs = "current_stack (sh_slab h) (env_at x (clock h))" and ?p0 = "(NO_SPAN, 0, 0) :: nat \<times> nat \<times> u64"
  have cs: "bind_ok (sh_slab h) ?cs" using current_stack_less [of NUM_CLASSES "sh_slab h"] hinv_parts(1) [OF h(1)] by (simp add: bind_ok_def geom_def)
  have p0: "pend_ok h c ?p0" "pend_objs h c ?p0 = {#}" by (simp_all add: pend_ok_def pend_objs_def pend_slots_def word_slots_def)
  obtain h1 i w m where 1: "batch_loop x ?cs c (CLASS_SIZES ! c) ps h ?p0 0 = Some (h1, (i, w, m), length ps)"
    "absorbed h h1 ls c ?p0 (i, w, m) (mset ps)"
    using batch_loop_absorbs [OF h c cs p0(1), of ps x 0] ps p0(2) by (auto simp del: batch_loop.simps)
  have i1: "hinv h1 ls" "sinv h1" "pend_ok h1 c (i, w, m)" "kept h h1 ls c"
    "live_objs h c + pend_objs h1 c (i, w, m) = live_objs h1 c + mset ps" using 1(2) p0(2) by (simp_all add: absorbed_def kept_def)
  have "pend_objs h1 c (i, w, m) \<subseteq># live_objs h1 c" using absorbed_pend [OF 1(2), of "{#}"] ps p0(2) by simp
  then obtain h2 where 2: "flush_pending h1 i w m = Some h2" "kept h1 h2 ls c" "live_objs h1 c = pend_objs h1 c (i, w, m) + live_objs h2 c"
    using flush_kept [OF i1(1,2) c i1(3)] by blast
  have k2: "kept h h2 ls c" using kept_trans [OF i1(4) 2(2)] .
  have g2: "geom h2" "hinv h2 ls" "sinv h2" using 2(2) hinv_parts(1) by (auto simp: kept_def)
  have l2: "live_objs h c = mset ps + live_objs h2 c"
  proof (rule multiset_eqI)
    show "count (live_objs h c) p = count (mset ps + live_objs h2 c) p" for p
      using arg_cong [OF i1(5), of "\<lambda>X. count X p"] arg_cong [OF 2(3), of "\<lambda>X. count X p"] by simp
  qed
  have "\<exists>h3. (if i \<noteq> NO_SPAN then do {
              home \<leftarrow> home_relaxed (span_tab h2) (span_base (span_bm h2) i);
              cell \<leftarrow> central_index h2 home c;
              set_hint h2 cell i
            } else Some h2) = Some h3 \<and> kept h2 h3 ls c \<and> live_objs h3 = live_objs h2"
  proof (cases "i = NO_SPAN")
    case True
    then show ?thesis using 2(2) by (simp add: kept_def)
  next
    case False
    have "i < nsp h1" using i1(3) False by (simp add: pend_ok_def)
    moreover have "nsp h2 = nsp h1" using 2(2) same_map_eqs [of h1 h2] by (simp add: kept_def)
    ultimately have i: "i < nsp h2" by simp
    obtain home where hm: "home_relaxed (span_tab h2) (span_base (span_bm h2) i) = Some home" using span_home [OF g2(1) i] by blast
    obtain cell where cell: "central_index h2 home c = Some cell" "cell < length (central_lists h2)" using cell_of [OF g2(1) c] by blast
    show ?thesis using hint_kept [OF g2(2,3) cell(2), of i c] i hm cell(1) False by auto
  qed
  then obtain h3 where 3: "(if i \<noteq> NO_SPAN then do {
              home \<leftarrow> home_relaxed (span_tab h2) (span_base (span_bm h2) i);
              cell \<leftarrow> central_index h2 home c;
              set_hint h2 cell i
            } else Some h2) = Some h3" "kept h2 h3 ls c" "live_objs h3 = live_objs h2" by blast
  have k3: "kept h h3 ls c" "live_objs h c = mset ps + live_objs h3 c" using kept_trans [OF k2 3(2)] l2 3(3) by simp_all
  obtain h' where 4: "charge_local h3 ?cs (- int (CLASS_SIZES ! c) * int (length ps)) (- int (length ps)) = Some h'" "takes_back h h' c (mset ps)"
    using kept_charge [OF k3, of ?cs] by auto
  have run: "dealloc_class_batch x h ps c = (if 0 < length ps then charge_local h3 ?cs (- int (CLASS_SIZES ! c) * int (length ps)) (- int (length ps)) else Some h3)"
    using c 1(1) 2(1) 3(1) by (simp add: dealloc_class_batch_def cong: if_cong)
  show ?thesis
  proof (cases "ps = []")
    case True
    have "takes_back h h3 c (mset ps)" using k3 True kept_frame [OF k3(1)]
      by (auto simp: takes_back_def kept_def heap_inv_def tally_def bsum_def osum_def)
    then show ?thesis using run True by simp
  next
    case False
    then show ?thesis using run 4 by simp
  qed
qed

subsection \<open>Refilling a batch\<close>

text \<open>
  A refill of \<open>n\<close> objects never meets the short tail of the arena when the spans left are whole
  objects of the class, or enough for all of them; classes up to one span satisfy this always.
\<close>

definition batch_room :: "sub_heap \<Rightarrow> nat \<Rightarrow> nat \<Rightarrow> bool" where
  "batch_room h c n \<longleftrightarrow> gsp c dvd avail h \<or> n * gsp c \<le> avail h"

lemma batch_room_one: "gsp c = 1 \<Longrightarrow> batch_room h c n"
  by (simp add: batch_room_def)

lemma batch_room_carvable: "batch_room h c n \<Longrightarrow> 0 < n \<Longrightarrow> carvable h c"
  by (cases n) (auto simp: batch_room_def carvable_def room_def dest: dvd_imp_le)

lemma batch_room_less: "batch_room h c n \<Longrightarrow> m \<le> n \<Longrightarrow> batch_room h c m"
  unfolding batch_room_def by (meson le_trans mult_le_mono1)

lemma avail_cong [simp]:
  "avail (h\<lparr>span_bm := b\<rparr>) = avail h" "avail (h\<lparr>central_lists := cl\<rparr>) = avail h" "avail (h\<lparr>clock := k\<rparr>) = avail h"
  "avail (h\<lparr>large := la\<rparr>) = avail h" "avail (h\<lparr>span_tab := t\<rparr>) = avail h"
  by (simp_all add: avail_def)

lemma activate_avail: "activate h cell i = Some h' \<Longrightarrow> avail h' = avail h"
  by (auto simp: activate_def set_head_def split: if_splits bind_splits prod.splits)

lemma carve_or_reuse_avail:
  assumes "carve_or_reuse_spans x h n c home = Some (h', a, b)" "room h n"
  shows "avail h' = avail h \<or> avail h' + n = avail h"
proof -
  obtain h1 r where r: "try_pool_alloc x h n c home = Some (h1, r)" using assms(1) by (auto simp: carve_or_reuse_spans_def split: bind_splits)
  have 1: "arena h1 = arena h" using r by (auto simp: try_pool_alloc_def Let_def split: if_splits bind_splits option.splits prod.splits)
  show ?thesis
  proof (cases r)
    case None
    obtain ar t lo hi where c: "carve_spans (arena h) n c home (span_tab h1) = Some (ar, t, lo, hi)" "h' = h1\<lparr>arena := ar, span_tab := t\<rparr>"
      using assms(1) r None 1 by (auto simp: carve_or_reuse_spans_def split: bind_splits)
    show ?thesis
    proof (cases "avail h = 0")
      case True
      then show ?thesis using c by (auto simp: carve_spans_def Let_def avail_def)
    next
      case False
      then have n: "n \<le> avail h" using assms(2) by (simp add: room_def)
      then have "ar = (arena h)\<lparr>cursor := cursor (arena h) + n * SPAN_BYTES\<rparr>"
        using c(1) False by (auto simp: carve_spans_def Let_def avail_def min_def split: if_splits bind_splits)
      then have "avail h' = (ar_end (arena h) - cursor (arena h) - n * SPAN_BYTES) div SPAN_BYTES" using c(2) by (simp add: avail_def)
      also have "\<dots> = avail h - n" by (simp add: avail_def div_mult_self1 flip: diff_mult_distrib)
      finally show ?thesis using n by simp
    qed
  next
    case (Some p)
    then show ?thesis using assms(1) r 1 by (cases p) (auto simp: carve_or_reuse_spans_def avail_def)
  qed
qed

lemma central_carve_avail:
  assumes "central_carve x h cell c sh batch = Some (h', n)" "small_class c" "65536 < CLASS_SIZES ! c" "room h (gsp c)"
  shows "avail h' = avail h \<or> avail h' + gsp c = avail h"
proof -
  have big: "SPAN_BYTES < CLASS_SIZES ! c" using assms(3) by simp
  obtain h1 a b where r: "carve_or_reuse_spans x h (gsp c) (as_u16 c) (as_u16 sh) = Some (h1, a, b)"
    "avail h' = avail h1"
    using assms(1) size_of_small [OF assms(2)] osz_rounded [OF assms(2)] big
    by (auto simp: central_carve_def gsp_def Let_def split: bind_splits if_splits dest!: activate_avail)
  then show ?thesis using carve_or_reuse_avail [OF r(1) assms(4)] by simp
qed

text \<open>Each carve of a refill takes one object's spans, so the room of a batch shrinks with what is left to fetch.\<close>

lemma batch_room_carve:
  assumes "central_carve x h cell c sh batch = Some (h', n)" "small_class c" "batch_room h c (Suc k)"
  shows "batch_room h' c k"
proof (cases "65536 < CLASS_SIZES ! c")
  case True
  have "carvable h c" using batch_room_carvable [OF assms(3)] by simp
  then consider "gsp c = 1" | "room h (gsp c)" by (auto simp: carvable_def)
  then show ?thesis
  proof cases
    case 2
    from central_carve_avail [OF assms(1,2) True 2] show ?thesis
    proof
      assume a: "avail h' + gsp c = avail h"
      have "gsp c dvd avail h' \<or> Suc k * gsp c \<le> avail h' + gsp c" using assms(3) a unfolding batch_room_def by (metis dvd_add_triv_right_iff)
      then show ?thesis by (auto simp: batch_room_def)
    qed (use assms(3) in \<open>auto simp: batch_room_def\<close>)
  qed (simp add: batch_room_one)
qed (use gsp_one [OF assms(2)] in \<open>simp add: batch_room_one\<close>)

lemma batch_room_map: "same_map h h' \<Longrightarrow> batch_room h' c n = batch_room h c n"
  by (simp add: batch_room_def avail_def same_map_def)

text \<open>A refill may carve several times; with room for what is left to fetch it never runs into the short tail of the arena.\<close>

lemma refill_loop_gives:
  assumes "hinv h ls" "sinv h" "small_class c" "batch_room h c (len - length out)" "cell < length (central_lists h)" "cell mod NUM_CLASSES = c" "length out \<le> len"
  shows "\<exists>h' ls' got. refill_loop x cell c sh (CLASS_SIZES ! c) len h out = Some (h', out @ got) \<and> gives h h' ls' c (mset got) \<and>
    length (out @ got) \<le> len \<and> (out @ got = [] \<and> 0 < len \<longrightarrow> avail h = 0)"
  using assms
proof (induction "len - length out" arbitrary: h ls out rule: less_induct)
  case less
  show ?case
  proof (cases "length out < len")
    case False
    then show ?thesis using less.prems gives_refl [OF less.prems(1,2)]
      by (intro exI [of _ h] exI [of _ ls] exI [of _ "[]"]) (auto simp: refill_loop.simps)
  next
    case True
    obtain batch where b: "batch_for c = Some batch" "0 < batch" "batch \<le> 64" using batch_for_small [OF less.prems(3)] by blast
    have "gsp c = 1 \<or> room h (gsp c)" using batch_room_carvable [OF less.prems(4)] True by (simp add: carvable_def)
    then obtain h1 n ls1 where 1: "central_carve x h cell c sh batch = Some (h1, n)" "stocked h h1 ls1"
      "if n = 0 then avail h = 0 else \<exists>i\<in>set (ls1 cell). ubits h1 \<inter> {k. k div 8192 = i} \<noteq> {}"
      using central_carve_ok [OF less.prems(1-3) _ less.prems(5,6), of batch x sh] b by fastforce
    have g1: "gives h h1 ls1 c {#}" using stocked_gives [OF 1(2)] .
    have i1: "hinv h1 ls1" "sinv h1" "cell < length (central_lists h1)" using 1(2) less.prems(5) by (simp_all add: stocked_def)
    show ?thesis
    proof (cases "n = 0")
      case n0: True
      have "refill_loop x cell c sh (CLASS_SIZES ! c) len h out = Some (h1, out @ [])"
        using True b 1(1) n0 by (subst refill_loop.simps) simp
      then show ?thesis using g1 less.prems(7) 1(3) n0 by (intro exI [of _ h1] exI [of _ ls1] exI [of _ "[]"]) simp
    next
      case False
      obtain h2 got where 2: "central_take h1 cell (len - length out) (CLASS_SIZES ! c) c = Some (h2, got)" "gives h1 h2 ls1 c (mset got)"
        "length got \<le> len - length out"
        "same_map h1 h2" "got = [] \<and> 0 < len - length out \<longrightarrow> (\<forall>i\<in>set (ls1 cell). ubits h1 \<inter> {k. k div 8192 = i} = {})"
        using central_take_gives [OF i1(1,2) less.prems(3) i1(3) less.prems(6)] by blast
      have ne: "got \<noteq> []" using 2(5) 1(3) False True by auto
      have i2: "hinv h2 ls1" "sinv h2" "cell < length (central_lists h2)" using 2(2) i1(3) by (simp_all add: gives_def same_frame_def)
      have dec: "len - length (out @ got) < len - length out" using ne True by (cases got) auto
      have "batch_room h c (Suc (len - length out - 1))" using less.prems(4) True by (simp add: Suc_diff_Suc)
      then have "batch_room h1 c (len - length out - 1)" by (rule batch_room_carve [OF 1(1) less.prems(3)])
      then have rm: "batch_room h2 c (len - length (out @ got))"
        using batch_room_less [of h1 c "len - length out - 1" "len - length (out @ got)"] dec batch_room_map [OF 2(4)] by simp
      have le: "length (out @ got) \<le> len" using 2(3) True by simp
      obtain h3 ls3 rest where 3: "refill_loop x cell c sh (CLASS_SIZES ! c) len h2 (out @ got) = Some (h3, (out @ got) @ rest)"
        "gives h2 h3 ls3 c (mset rest)" "length ((out @ got) @ rest) \<le> len"
        using less.hyps [OF dec i2(1,2) less.prems(3) rm i2(3) less.prems(6) le] by blast
      have "gives h h3 ls3 c (mset (got @ rest))"
        using gives_trans [OF gives_trans [OF g1 2(2)] 3(2)] by (simp add: ac_simps)
      moreover have "refill_loop x cell c sh (CLASS_SIZES ! c) len h out = Some (h3, out @ (got @ rest))"
        using True b 1(1) False 2(1) ne 3(1) by (subst refill_loop.simps) simp
      ultimately show ?thesis using 3(3) ne by (intro exI [of _ h3] exI [of _ ls3] exI [of _ "got @ rest"]) simp
    qed
  qed
qed


lemma refill_batch_ok:
  assumes hi: "heap_inv h" and c: "small_class c" and rm: "batch_room h c len"
  shows "\<exists>h' out. refill_batch x h c len = Some (h', out) \<and> length out \<le> len \<and> hands_out h h' c (mset out) \<and>
    (out = [] \<and> 0 < len \<longrightarrow> avail h = 0)"
proof -
  obtain ls where h: "hinv h ls" "sinv h" using hi by (auto simp: heap_inv_def)
  have ns: "num_shards h \<noteq> 0" using hinv_parts(1) [OF h(1)] by (simp add: geom_def)
  let ?sh = "shard_id x mod num_shards h"
  obtain cell where cell: "central_index h ?sh c = Some cell" "cell < length (central_lists h)" "cell mod NUM_CLASSES = c"
    using cell_of [OF hinv_parts(1) [OF h(1)] c] by blast
  obtain h1 out where 1: "central_take h cell len (CLASS_SIZES ! c) c = Some (h1, out)" "gives h h1 ls c (mset out)" "length out \<le> len" "same_map h h1"
    using central_take_gives [OF h c cell(2,3)] by blast
  have i1: "hinv h1 ls" "sinv h1" "cell < length (central_lists h1)" using 1(2) cell(2) by (simp_all add: gives_def same_frame_def)
  obtain h2 ls2 got where 2: "refill_loop x cell c ?sh (CLASS_SIZES ! c) len h1 out = Some (h2, out @ got)" "gives h1 h2 ls2 c (mset got)"
    "length (out @ got) \<le> len" "out @ got = [] \<and> 0 < len \<longrightarrow> avail h1 = 0"
    using refill_loop_gives [OF i1(1,2) c _ i1(3) cell(3) 1(3)] batch_room_less [OF rm] batch_room_map [OF 1(4)] by (metis diff_le_self)
  have av: "avail h1 = avail h" using 1(4) by (simp add: avail_def same_map_def)
  have g: "gives h h2 ls2 c (mset (out @ got))" using gives_trans [OF 1(2) 2(2)] by (simp add: ac_simps)
  have run: "refill_batch x h c len = (case (if out @ got \<noteq> [] then charge_local h2 (current_stack (sh_slab h2) (env_at x (clock h2)))
      (int (CLASS_SIZES ! c) * int (length (out @ got))) (int (length (out @ got))) else Some h2) of None \<Rightarrow> None | Some h3 \<Rightarrow> Some (h3, out @ got))"
    using ns c cell(1) 1(1) 2(1) by (auto simp: refill_batch_def split: option.split bind_split)
  show ?thesis
  proof (cases "out @ got = []")
    case True
    then show ?thesis using run 2(3,4) av gives_hands_none g by simp
  next
    case False
    obtain h3 where "charge_local h2 (current_stack (sh_slab h2) (env_at x (clock h2)))
        (int (CLASS_SIZES ! c) * int (length (out @ got))) (int (length (out @ got))) = Some h3" "hands_out h h3 c (mset (out @ got))"
      using gives_charge [OF g] by (auto simp: size_mset)
    then show ?thesis using run 2(3) False by auto
  qed
qed

end
