(* ===== verification/Sub_Heap_Large.thy ===== *)
theory Sub_Heap_Large
  imports Sub_Heap_Alloc
begin

text \<open>
  Large objects: runs of whole spans from the free-run index or the arena, recorded in
  \<open>run_spans\<close>.
\<close>

subsection \<open>Large objects\<close>

lemma run_owners_upd:
  assumes "a < length rs" "rs ! a = 0"
  shows "card (run_owners (la\<lparr>run_spans := rs[a := n]\<rparr>) s) = card (run_owners (la\<lparr>run_spans := rs\<rparr>) s) + in_run a n s"
proof -
  have "run_owners (la\<lparr>run_spans := rs[a := n]\<rparr>) s = run_owners (la\<lparr>run_spans := rs\<rparr>) s \<union> {i. i = a \<and> a \<le> s \<and> s < a + n}"
    using assms by (auto simp: run_owners_def nth_list_update split: if_splits)
  moreover have "run_owners (la\<lparr>run_spans := rs\<rparr>) s \<inter> {i. i = a \<and> a \<le> s \<and> s < a + n} = {}" using assms by (auto simp: run_owners_def)
  moreover have "finite {i. i = a \<and> a \<le> s \<and> s < a + n}" by simp
  ultimately have "card (run_owners (la\<lparr>run_spans := rs[a := n]\<rparr>) s) =
      card (run_owners (la\<lparr>run_spans := rs\<rparr>) s) + card {i. i = a \<and> a \<le> s \<and> s < a + n}" by (simp add: card_Un_disjoint)
  moreover have "card {i. i = a \<and> a \<le> s \<and> s < a + n} = in_run a n s"
    by (cases "a \<le> s \<and> s < a + n") (auto simp: in_run_def)
  ultimately show ?thesis by simp
qed

lemma pool_span_free:
  assumes "spans_ok h" "s \<in> free_spans (la_pool (large h))"
  shows "owners h s = pool_owner (large h) s" "s < carved h"
  using assms(1) [unfolded spans_ok_def, rule_format, of s] assms(2) by (auto simp: owners_def pool_owner_def split: if_splits)

text \<open>The state after spans \<open>a..a+n-1\<close> became a large run.\<close>

lemma large_run_inv:
  assumes h: "hinv h ls" and ao: "arena_ok h'" and rt: "retag h h' a n (pack LARGE_CLASS 0)"
    and un: "\<forall>s. a \<le> s \<and> s < a + n \<longrightarrow> \<not> listed h s"
    and own: "\<And>s. pool_owner (large h') s + card (group_owners h s) + card (run_owners (large h') s) = (if s < carved h' then 1 else 0)"
  shows "hinv h' ls" "sinv h'" "live_objs h' = live_objs h" "nsp h' = nsp h" "hbase h' = hbase h"
proof -
  have "pack LARGE_CLASS 0 < 2 ^ 32" by (simp add: pack_def LARGE_CLASS_def)
  note e = retag_hinv [OF h rt this un]
  show "hinv h' ls" "nsp h' = nsp h" "hbase h' = hbase h" using e(1,5,7) by simp_all
  show "live_objs h' = live_objs h" unfolding live_objs_def e(2,3) by simp
  have cl: "listed h i \<Longrightarrow> class_at h' i = class_at h i" for i using un e(6) [of i] by auto
  have "group_owners h' s = group_owners h s" for s
    unfolding group_owners_def e(4) using cl by (intro Collect_cong) auto
  then show "sinv h'" using own ao by (simp add: sinv_def spans_ok_def owners_def)
qed


lemma commit_run:
  assumes h: "hinv h ls" and a: "0 < n" "a + n \<le> nsp h" and un: "\<forall>s. a \<le> s \<and> s < a + n \<longrightarrow> \<not> listed h s"
    and z: "run_spans (large h) ! a = 0" and len: "length (run_spans (large h)) = nsp h"
    and h2: "h2 = h\<lparr>large := (large h)\<lparr>la_pool := p\<rparr>, arena := ar\<rparr>" and ao: "arena_ok h2"
    and own: "\<And>s. pool_owner (large h2) s + card (group_owners h s) + card (run_owners (large h) s) + in_run a n s =
      (if s < carved h2 then 1 else 0)"
    and h3: "h3 = (\<lambda>t. h2\<lparr>large := (large h2)\<lparr>run_spans := (run_spans (large h2))[a := n]\<rparr>, span_tab := t\<rparr>)"
  shows "\<exists>t. assign_range (span_tab h2) (hbase h + a * 65536) (n * 65536) LARGE_CLASS 0 = Some t \<and>
    hinv (h3 t) ls \<and> sinv (h3 t) \<and> live_objs (h3 t) = live_objs h \<and> nsp (h3 t) = nsp h \<and> hbase (h3 t) = hbase h"
proof -
  have al: "a < nsp h" using a by linarith
  obtain t where t: "assign_range (span_tab h) (hbase h + a * 65536) (n * 65536) LARGE_CLASS 0 = Some t"
    "\<forall>ar la k. retag h (h\<lparr>span_tab := t, arena := ar, large := la, clock := k\<rparr>) a n (pack LARGE_CLASS 0)"
    using assign_retag [OF hinv_parts(1) [OF h] al a(1,2)] by blast
  have rt: "retag h (h3 t) a n (pack LARGE_CLASS 0)"
    using t(2) [rule_format, where ar = ar and la = "(large h2)\<lparr>run_spans := (run_spans (large h2))[a := n]\<rparr>" and k = "clock h"]
    by (simp add: retag_def h3 h2)
  have "tags_ok h2" "nsp h2 = nsp h" using ao by (simp_all add: arena_ok_def h2 nsp_def)
  then have "tags_ok (h3 t)" using retag_class [OF rt] a al len
    by (auto simp: tags_ok_def h3 h2 nsp_def class_at_def LARGE_CLASS_def nth_list_update split: if_splits)
  then have ao3: "arena_ok (h3 t)" using ao by (simp add: arena_ok_def h3 h2 carved_def nsp_def)
  have c3: "carved (h3 t) = carved h2" by (simp add: carved_def h3)
  have "card (run_owners (large (h3 t)) s) = card (run_owners (large h) s) + in_run a n s" for s
  proof -
    have "card (run_owners (large (h3 t)) s) = card (run_owners ((large h2)\<lparr>run_spans := (run_spans (large h))[a := n]\<rparr>) s)"
      by (simp add: h3 h2)
    also have "\<dots> = card (run_owners ((large h2)\<lparr>run_spans := run_spans (large h)\<rparr>) s) + in_run a n s"
      using run_owners_upd [of a "run_spans (large h)"] al len z by simp
    finally show ?thesis by (simp add: run_owners_def)
  qed
  moreover have "pool_owner (large (h3 t)) s = pool_owner (large h2) s" for s by (simp add: h3 pool_owner_def)
  ultimately have "pool_owner (large (h3 t)) s + card (group_owners h s) + card (run_owners (large (h3 t)) s) =
      (if s < carved (h3 t) then 1 else 0)" for s using own [of s] c3 by simp
  note k = large_run_inv [OF h ao3 rt un this]
  show ?thesis using t(1) k by (intro exI [of _ t]) (simp add: h2)
qed

text \<open>Where a run of \<open>n\<close> spans can come from.\<close>

definition run_fits :: "sub_heap \<Rightarrow> nat \<Rightarrow> bool" where
  "run_fits h n \<longleftrightarrow> (\<exists>a. {a..<a + n} \<subseteq> free_spans (la_pool (large h))) \<or> n \<le> avail h"

lemma carve_run_ok:
  assumes s: "sinv h" and g: "geom h" and n: "0 < n"
  shows "carve_run (arena h) (n * 65536) = (if n \<le> avail h
      then ((arena h)\<lparr>cursor := hbase h + (carved h + n) * 65536\<rparr>, Some (hbase h + carved h * 65536)) else (arena h, None))"
    "n \<le> avail h \<longleftrightarrow> (carved h + n) * 65536 \<le> budget_bytes h"
proof -
  have cur: "cursor (arena h) = hbase h + carved h * 65536" "ar_base (arena h) = hbase h" "ar_end (arena h) = hbase h + budget_bytes h"
    "carved h * 65536 \<le> budget_bytes h"
    using s by (auto simp: sinv_def arena_ok_def)
  have bud: "budget_bytes h \<le> nsp h * 65536" unfolding nsp_def using div_ceil_mult_ge [of 65536 "budget_bytes h"] by simp
  have w: "hbase h + nsp h * 65536 < 2 ^ 64" using g by (simp add: geom_def)
  show av: "n \<le> avail h \<longleftrightarrow> (carved h + n) * 65536 \<le> budget_bytes h"
    using cur by (simp add: avail_def less_eq_div_iff_mult_less_eq algebra_simps) linarith
  have st: "add64 (hbase h) (div_ceil (sub64 (cursor (arena h)) (ar_base (arena h))) 65536 * 65536) = hbase h + carved h * 65536"
    using cur w bud by simp
  show "carve_run (arena h) (n * 65536) = (if n \<le> avail h
      then ((arena h)\<lparr>cursor := hbase h + (carved h + n) * 65536\<rparr>, Some (hbase h + carved h * 65536)) else (arena h, None))"
    unfolding carve_run_def Let_def av using st cur w bud by (auto simp: algebra_simps)
qed

definition large_count :: "nat \<Rightarrow> nat" where
  "large_count sz = max (div_ceil sz SPAN_BYTES) 1"

definition run_granted :: "sub_heap \<Rightarrow> sub_heap \<Rightarrow> nat \<Rightarrow> nat \<Rightarrow> bool" where
  "run_granted h h' a n \<longleftrightarrow> heap_inv h' \<and> live_objs h' = live_objs h \<and> nsp h' = nsp h \<and> hbase h' = hbase h \<and>
     a + n \<le> nsp h \<and> run_spans (large h) ! a = 0 \<and> run_spans (large h') = (run_spans (large h))[a := n] \<and>
     bsum h' = bsum h + of_nat (n * SPAN_BYTES) \<and> osum h' = osum h + 1 \<and> avail h \<le> avail h' + n \<and>
     budget_bytes h' = budget_bytes h"

lemma large_index: "sinv h \<Longrightarrow> geom h \<Longrightarrow> a < nsp h \<Longrightarrow> span_index (large h) (hbase h + a * 65536) = a"
proof -
  assume a: "sinv h" "geom h" "a < nsp h"
  then have "a * 65536 \<le> nsp h * 65536" "hbase h + nsp h * 65536 < 2 ^ 64" by (auto simp: geom_def)
  then have "hbase h + a * 65536 < 2 ^ 64" by linarith
  then show ?thesis using a(1) by (simp add: span_index_def sinv_def arena_ok_def)
qed

lemma commit_charge:
  assumes h: "hinv h ls" and s: "sinv h" and a: "0 < n" "a + n \<le> nsp h" "n < 2 ^ 32" and un: "\<forall>s. a \<le> s \<and> s < a + n \<longrightarrow> \<not> listed h s"
    and z: "run_spans (large h) ! a = 0"
    and h2: "h2 = h\<lparr>large := (large h)\<lparr>la_pool := p\<rparr>, arena := ar\<rparr>" and ao: "arena_ok h2"
    and own: "\<And>s. pool_owner (large h2) s + card (group_owners h s) + card (run_owners (large h) s) + in_run a n s =
      (if s < carved h2 then 1 else 0)"
    and av: "avail h \<le> avail h2 + n"
  shows "\<exists>h'. do {
         rs \<leftarrow> upd (run_spans (large h2)) (span_index (large h2) (hbase h + a * 65536)) (as_u32 n);
         t \<leftarrow> assign_range (span_tab h2) (hbase h + a * 65536) (n * 65536) LARGE_CLASS 0;
         let h3 = h2\<lparr>large := (large h2)\<lparr>run_spans := rs\<rparr>, span_tab := t\<rparr>;
         charge_remote h3 (large_cpu x h3) (int (n * 65536)) 1
       } = Some h' \<and> run_granted h h' a n"
proof -
  have len: "length (run_spans (large h)) = nsp h" using s by (simp add: sinv_def arena_ok_def)
  let ?h3 = "\<lambda>t. h2\<lparr>large := (large h2)\<lparr>run_spans := (run_spans (large h2))[a := n]\<rparr>, span_tab := t\<rparr>"
  obtain t where t: "assign_range (span_tab h2) (hbase h + a * 65536) (n * 65536) LARGE_CLASS 0 = Some t"
    "hinv (?h3 t) ls" "sinv (?h3 t)" "live_objs (?h3 t) = live_objs h" "nsp (?h3 t) = nsp h" "hbase (?h3 t) = hbase h"
    using commit_run [OF h a(1,2) un z len h2 ao own refl] by blast
  have i: "span_index (large h2) (hbase h + a * 65536) = a"
    using large_index [OF s hinv_parts(1) [OF h], of a] a by (simp add: h2 span_index_def)
  have al: "a < length (run_spans (large h2))" using a len by (simp add: h2)
  have "counters (?h3 t) \<noteq> []" using hinv_parts(1) [OF t(2)] unfolding geom_def by blast
  then obtain cs where cs: "charge_remote (?h3 t) (large_cpu x (?h3 t)) (int (n * 65536)) 1 = Some ((?h3 t)\<lparr>counters := cs\<rparr>)" "cs \<noteq> []"
    "bsum ((?h3 t)\<lparr>counters := cs\<rparr>) = bsum (?h3 t) + of_int (int (n * 65536))" "osum ((?h3 t)\<lparr>counters := cs\<rparr>) = osum (?h3 t) + of_int 1"
    using charge_remote_ok by blast
  let ?h4 = "(?h3 t)\<lparr>counters := cs\<rparr>"
  note q = counters_hinv [OF t(2) cs(2)]
  have b: "bsum (?h3 t) = bsum h" "osum (?h3 t) = osum h" by (simp_all add: bsum_def osum_def h2)
  have "heap_inv ?h4" using q(1) same_map_sinv [OF q(2) t(3)] by (auto simp: heap_inv_def)
  moreover have "live_objs ?h4 = live_objs h" using q(3) t(4) by simp
  moreover have "nsp ?h4 = nsp h" "hbase ?h4 = hbase h" using t(5,6) by (simp_all add: nsp_def)
  moreover have "run_spans (large ?h4) = (run_spans (large h))[a := n]" by (simp add: h2)
  moreover have "bsum ?h4 = bsum h + of_nat (n * SPAN_BYTES)" "osum ?h4 = osum h + 1" using cs(3,4) b by simp_all
  moreover have "avail h \<le> avail ?h4 + n" "budget_bytes ?h4 = budget_bytes h" using av by (simp_all add: avail_def h2)
  ultimately have "run_granted h ?h4 a n" using a(2) z by (simp only: run_granted_def)
  then show ?thesis using i al t(1) cs(1) as_u32_small [OF a(3)] by (intro exI [of _ ?h4]) simp
qed


lemma alloc_large_ok:
  assumes hi: "heap_inv h" and n: "large_count sz < 2 ^ 32"
  shows "\<exists>h' r. alloc_large x h sz = Some (h', r) \<and>
    (case r of
       None \<Rightarrow> heap_inv h' \<and> live_objs h' = live_objs h \<and> large h' = large h \<and> counters h' = counters h \<and> \<not> run_fits h (large_count sz)
     | Some p \<Rightarrow> \<exists>a. p = hbase h + a * SPAN_BYTES \<and> run_granted h h' a (large_count sz))"
proof -
  obtain ls where h: "hinv h ls" "sinv h" using hi by (auto simp: heap_inv_def)
  let ?n = "large_count sz"
  have g: "geom h" using hinv_parts(1) [OF h(1)] .
  have ao: "arena_ok h" and so: "spans_ok h" using h(2) by (simp_all add: sinv_def)
  have pi: "pool_inv (la_pool (large h))" "num_spans (la_pool (large h)) = nsp h" "length (run_spans (large h)) = nsp h"
    using ao by (simp_all add: arena_ok_def)
  have n0: "0 < ?n" and lc: "max (div_ceil sz 65536) (Suc 0) = ?n" by (simp_all add: large_count_def)
  have "?n * 65536 < 2 ^ 32 * 65536" using n by (intro mult_less_mono1) simp_all
  then have rb: "?n * 65536 mod 2 ^ 64 = ?n * 65536" by simp
  have n32: "as_u32 ?n = ?n" using as_u32_small [OF n] .
  obtain p r where p: "pool_alloc (la_pool (large h)) ?n = Some (p, r)" "pool_inv p" "num_spans p = nsp h"
    "case r of None \<Rightarrow> p = la_pool (large h) \<and> (?n = 0 \<or> (\<nexists>a. {a..<a + ?n} \<subseteq> free_spans (la_pool (large h))))
     | Some a \<Rightarrow> 0 < ?n \<and> {a..<a + ?n} \<subseteq> free_spans (la_pool (large h)) \<and> free_spans p = free_spans (la_pool (large h)) - {a..<a + ?n}"
    using sp.ix_alloc_law [OF pi(1), of ?n] pi(2) by auto
  note cr = carve_run_ok [OF h(2) g n0]
  have own: "owners h j = (if j < carved h then 1 else 0)" for j using so by (simp add: spans_ok_def)
  show ?thesis
  proof (cases r)
    case (Some a)
    then have fr: "{a..<a + ?n} \<subseteq> free_spans (la_pool (large h))" "free_spans p = free_spans (la_pool (large h)) - {a..<a + ?n}"
      using p(4) by simp_all
    have am: "a + ?n \<le> nsp h" using sp.alloc_holders(4) [OF pi(1) p(1) [unfolded Some]] pi(2) by simp
    let ?h2 = "h\<lparr>large := (large h)\<lparr>la_pool := p\<rparr>, arena := arena h\<rparr>"
    have "tags_ok ?h2 = tags_ok h" by (rule tags_large) simp_all
    then have ao2: "arena_ok ?h2" using ao p(2,3) by (simp add: arena_ok_def carved_def nsp_def)
    have un: "\<forall>s. a \<le> s \<and> s < a + ?n \<longrightarrow> \<not> listed h s" using pool_unlisted [OF so hinv_parts(2) [OF h(1)]] fr(1) by auto
    have "a \<in> free_spans (la_pool (large h))" using fr(1) n0 by auto
    then have z: "run_spans (large h) ! a = 0"
      using owned_no_run [of h a] pool_span_free(1) [OF so] n0 am pi(3) by (simp add: owners_def)
    have "pool_owner (large ?h2) s + card (group_owners h s) + card (run_owners (large h) s) + in_run a ?n s = (if s < carved ?h2 then 1 else 0)" for s
      using pool_owner_take [OF fr refl, of "large ?h2" s] own [of s] by (simp add: owners_def carved_def)
    note ow = this
    have av: "avail h \<le> avail ?h2 + ?n" by (simp add: avail_def)
    note k = commit_charge [OF h n0 am n un z refl ao2 ow av]
    obtain h' where h': "do {
         rs \<leftarrow> upd (run_spans (large ?h2)) (span_index (large ?h2) (hbase h + a * 65536)) (as_u32 ?n);
         t \<leftarrow> assign_range (span_tab ?h2) (hbase h + a * 65536) (?n * 65536) LARGE_CLASS 0;
         let h3 = ?h2\<lparr>large := (large ?h2)\<lparr>run_spans := rs\<rparr>, span_tab := t\<rparr>;
         charge_remote h3 (large_cpu x h3) (int (?n * 65536)) 1
       } = Some h'" "run_granted h h' a ?n" using k by blast
    have "span_ptr (large h) a = hbase h + a * 65536" using span_ptr_eq [OF h(2) g] am by simp
    then have "span_ptr ((large h)\<lparr>la_pool := p\<rparr>) a = hbase h + a * 65536" by (simp add: span_ptr_def)
    then have "alloc_large x h sz = Some (h', Some (hbase h + a * 65536))"
      using h'(1) p(1) Some rb n32 by (auto simp: alloc_large_def lc Let_def split: bind_splits)
    then show ?thesis using h'(2) by auto
  next
    case None
    then have pn: "p = la_pool (large h)" "\<nexists>a. {a..<a + ?n} \<subseteq> free_spans (la_pool (large h))" using p(4) n0 by auto
    show ?thesis
    proof (cases "?n \<le> avail h")
      case True
      let ?ar = "(arena h)\<lparr>cursor := hbase h + (carved h + ?n) * 65536\<rparr>"
      let ?h2 = "h\<lparr>large := (large h)\<lparr>la_pool := p\<rparr>, arena := ?ar\<rparr>"
      have fit: "(carved h + ?n) * 65536 \<le> budget_bytes h" using cr(2) True by simp
      have "budget_bytes h \<le> nsp h * 65536" unfolding nsp_def using div_ceil_mult_ge [of 65536 "budget_bytes h"] by simp
      then have am: "carved h + ?n \<le> nsp h" using fit mult_le_cancel2 [of "carved h + ?n" 65536 "nsp h"] by simp
      have cv: "carved ?h2 = carved h + ?n" by (simp add: carved_def)
      have "tags_ok ?h2 = tags_ok h" by (rule tags_large) simp_all
      then have ao2: "arena_ok ?h2" using ao fit cv pn(1) by (simp add: arena_ok_def nsp_def)
      have un: "\<forall>s. carved h \<le> s \<and> s < carved h + ?n \<longrightarrow> \<not> listed h s" using uncarved_unlisted [OF so hinv_parts(2) [OF h(1)]] by blast
      have "owners h (carved h) = 0" using own by simp
      then have z: "run_spans (large h) ! carved h = 0"
        using owned_no_run [of h "carved h"] am n0 pi(3) by (simp add: owners_def)
      have "pool_owner (large ?h2) s + card (group_owners h s) + card (run_owners (large h) s) + in_run (carved h) ?n s =
          (if s < carved ?h2 then 1 else 0)" for s
        using own [of s] pn(1) unfolding cv by (auto simp: owners_def in_run_def pool_owner_def)
      note ow = this
      have "cursor (arena h) = hbase h + carved h * 65536" "ar_end (arena h) = hbase h + budget_bytes h" using ao by (simp_all add: arena_ok_def)
      then have av: "avail h \<le> avail ?h2 + ?n" using fit by (simp add: avail_def algebra_simps)
      note k = commit_charge [OF h n0 am n un z refl ao2 ow av]
      obtain h' where h': "do {
         rs \<leftarrow> upd (run_spans (large ?h2)) (span_index (large ?h2) (hbase h + carved h * 65536)) (as_u32 ?n);
         t \<leftarrow> assign_range (span_tab ?h2) (hbase h + carved h * 65536) (?n * 65536) LARGE_CLASS 0;
         let h3 = ?h2\<lparr>large := (large ?h2)\<lparr>run_spans := rs\<rparr>, span_tab := t\<rparr>;
         charge_remote h3 (large_cpu x h3) (int (?n * 65536)) 1
       } = Some h'" "run_granted h h' (carved h) ?n" using k by blast
      have "alloc_large x h sz = Some (h', Some (hbase h + carved h * 65536))"
        using h'(1) p(1) None rb n32 cr(1) True by (auto simp: alloc_large_def lc Let_def split: bind_splits)
      then show ?thesis using h'(2) by auto
    next
      case False
      then have "alloc_large x h sz = Some (h\<lparr>large := (large h)\<lparr>la_pool := p\<rparr>, arena := arena h\<rparr>, None)"
        using p(1) None rb n32 cr(1) by (simp add: alloc_large_def lc Let_def)
      then show ?thesis using pn hi False by (simp add: run_fits_def)
    qed
  qed
qed


lemma alloc_large_fits:
  assumes hi: "heap_inv h" and n: "large_count sz < 2 ^ 32" and r: "alloc_large x h sz = Some (h', Some p)"
  shows "run_fits h (large_count sz)"
proof (rule ccontr)
  assume nf: "\<not> run_fits h (large_count sz)"
  let ?n = "large_count sz"
  have n0: "0 < ?n" and lc: "max (div_ceil sz 65536) (Suc 0) = ?n" by (simp_all add: large_count_def)
  obtain ls where h: "hinv h ls" "sinv h" using hi by (auto simp: heap_inv_def)
  have pi: "pool_inv (la_pool (large h))" using h(2) by (simp add: sinv_def arena_ok_def)
  obtain q r where q: "pool_alloc (la_pool (large h)) ?n = Some (q, r)"
    "case r of None \<Rightarrow> q = la_pool (large h) \<and> (?n = 0 \<or> (\<nexists>a. {a..<a + ?n} \<subseteq> free_spans (la_pool (large h))))
     | Some a \<Rightarrow> 0 < ?n \<and> {a..<a + ?n} \<subseteq> free_spans (la_pool (large h)) \<and> free_spans q = free_spans (la_pool (large h)) - {a..<a + ?n}"
    using sp.ix_alloc_law [OF pi, of ?n] by auto
  then have "r = None" using nf by (cases r) (auto simp: run_fits_def)
  moreover have "carve_run (arena h) (?n * 65536) = (arena h, None)"
    using carve_run_ok [OF h(2) hinv_parts(1) [OF h(1)] n0] nf by (simp add: run_fits_def)
  moreover have "?n * 65536 < 2 ^ 32 * 65536" using n by (intro mult_less_mono1) simp_all
  then have "?n * 65536 mod 2 ^ 64 = ?n * 65536" by simp
  ultimately show False using r q(1) as_u32_small [OF n] by (simp add: alloc_large_def lc Let_def)
qed

text \<open>Returning a large run; releasing one that is not live changes nothing.\<close>

lemma run_owner_bounds:
  assumes so: "spans_ok h" and n: "n = run_spans (large h) ! a" "0 < n" "a < length (run_spans (large h))"
  shows "\<forall>s. a \<le> s \<and> s < a + n \<longrightarrow> s < carved h \<and> s \<notin> free_spans (la_pool (large h)) \<and> group_owners h s = {} \<and> run_owners (large h) s = {a}"
proof (intro allI impI)
  fix s assume s: "a \<le> s \<and> s < a + n"
  then have a: "a \<in> run_owners (large h) s" using n by (simp add: run_owners_def)
  then have c: "1 \<le> card (run_owners (large h) s)" by (metis One_nat_def Suc_leI card_gt_0_iff empty_iff finite_owners(2))
  have o: "pool_owner (large h) s + card (group_owners h s) + card (run_owners (large h) s) = (if s < carved h then 1 else 0)"
    using so unfolding spans_ok_def owners_def by blast
  have l: "s < carved h" using o c by (cases "s < carved h") simp_all
  have e: "pool_owner (large h) s = 0" "card (group_owners h s) = 0" "card (run_owners (large h) s) = 1"
    using o c unfolding if_P [OF l] by linarith+
  have "run_owners (large h) s = {a}" using e(3) a by (metis card_1_singletonE singletonD)
  then show "s < carved h \<and> s \<notin> free_spans (la_pool (large h)) \<and> group_owners h s = {} \<and> run_owners (large h) s = {a}"
    using e l by (simp add: pool_owner_def split: if_splits)
qed

definition run_returned :: "sub_heap \<Rightarrow> sub_heap \<Rightarrow> nat \<Rightarrow> nat \<Rightarrow> bool" where
  "run_returned h h' a n \<longleftrightarrow> heap_inv h' \<and> live_objs h' = live_objs h \<and> nsp h' = nsp h \<and> hbase h' = hbase h \<and>
     budget_bytes h' = budget_bytes h \<and> run_spans (large h') = (run_spans (large h))[a := 0] \<and> free_spans (la_pool (large h')) = free_spans (la_pool (large h)) \<union> {a..<a + n} \<and>
     bsum h' = bsum h - of_nat (n * SPAN_BYTES) \<and> osum h' = osum h - 1"

lemma large_only_hinv:
  assumes h: "hinv h ls" and h': "h' = h\<lparr>large := la\<rparr>"
  shows "hinv h' ls" "live_objs h' = live_objs h" "nsp h' = nsp h" "hbase h' = hbase h" "group_owners h' = group_owners h"
proof -
  have "retag h h' 0 0 0" using hinv_parts(1) [OF h] by (simp add: retag_def h' geom_def)
  note e = retag_hinv [OF h this]
  show "hinv h' ls" "nsp h' = nsp h" "hbase h' = hbase h" using e(1,5,7) by simp_all
  show "live_objs h' = live_objs h" using e(2,3) by (simp add: live_objs_def fun_eq_iff)
  show "group_owners h' = group_owners h" using e(4,6) by (simp add: group_owners_def fun_eq_iff)
qed

lemma dealloc_large_ok:
  assumes hi: "heap_inv h" and a: "a < nsp h"
  shows "if run_spans (large h) ! a = 0 then dealloc_large x h (hbase h + a * SPAN_BYTES) = (if debug_build x then None else Some h)
    else \<exists>h'. dealloc_large x h (hbase h + a * SPAN_BYTES) = Some h' \<and> run_returned h h' a (run_spans (large h) ! a)"
proof -
  obtain ls where h: "hinv h ls" "sinv h" using hi by (auto simp: heap_inv_def)
  let ?n = "run_spans (large h) ! a"
  have g: "geom h" using hinv_parts(1) [OF h(1)] .
  have ao: "arena_ok h" and so: "spans_ok h" using h(2) by (simp_all add: sinv_def)
  have pi: "pool_inv (la_pool (large h))" "num_spans (la_pool (large h)) = nsp h" "length (run_spans (large h)) = nsp h"
    using ao by (simp_all add: arena_ok_def)
  have i: "span_index (large h) (hbase h + a * 65536) = a" using large_index [OF h(2) g a] .
  have a32: "as_u32 a = a" using a g by (intro as_u32_small) (simp add: geom_def)
  show ?thesis
  proof (cases "?n = 0")
    case True
    then have "(run_spans (large h))[a := 0] = run_spans (large h)" by (metis list_update_id)
    then show ?thesis using True i a pi(3) by (simp add: dealloc_large_def)
  next
    case False
    then have al: "0 < ?n" "a < length (run_spans (large h))" using a pi(3) by simp_all
    note b = run_owner_bounds [OF so refl al]
    have "a + ?n - 1 < carved h" using b al by auto
    moreover have "carved h \<le> nsp h"
    proof -
      have "carved h * 65536 \<le> budget_bytes h" using ao by (auto simp: arena_ok_def)
      also have "\<dots> \<le> nsp h * 65536" unfolding nsp_def using div_ceil_mult_ge [of 65536 "budget_bytes h"] by simp
      finally show ?thesis by simp
    qed
    ultimately have an: "a + ?n \<le> nsp h" using al by linarith
    obtain p where p: "pool_free (la_pool (large h)) a ?n = Some p" "pool_inv p" "num_spans p = nsp h"
      "free_spans p = free_spans (la_pool (large h)) \<union> {a..<a + ?n}"
      using sp.ix_free_law [OF pi(1) al(1)] an pi(2) b by (metis (no_types, lifting) Int_emptyI atLeastLessThan_iff)
    let ?la = "(large h)\<lparr>run_spans := (run_spans (large h))[a := 0], la_pool := p\<rparr>"
    define h2 where h2: "h2 = h\<lparr>large := ?la\<rparr>"
    note k = large_only_hinv [OF h(1) h2]
    have cv: "carved h2 = carved h" by (simp add: carved_def h2)
    have "tags_ok h2" using ao al by (auto simp: arena_ok_def tags_ok_def h2 nsp_def class_at_def nth_list_update)
    then have ao2: "arena_ok h2" using ao p(2,3) by (simp add: arena_ok_def nsp_def carved_def h2)
    have "owners h2 s = owners h s" for s
    proof -
      have "run_spans (large h) = ((run_spans (large h))[a := 0])[a := ?n]" by simp
      then have "card (run_owners (large h) s) = card (run_owners ?la s) + in_run a ?n s"
        using run_owners_upd [of a "(run_spans (large h))[a := 0]", where la = "large h" and n = ?n and s = s] al(2) by (simp add: run_owners_def)
      moreover have "pool_owner ?la s = pool_owner (large h) s + in_run a ?n s"
        using b p(4) by (auto simp: pool_owner_def in_run_def)
      ultimately show ?thesis unfolding owners_def k(5) by (simp add: h2)
    qed
    then have s2: "sinv h2" using ao2 so cv by (simp add: sinv_def spans_ok_def)
    have "counters h2 \<noteq> []" using hinv_parts(1) [OF k(1)] unfolding geom_def by blast
    then obtain cs where cs: "charge_remote h2 (large_cpu x h2) (- int (?n * 65536)) (- 1) = Some (h2\<lparr>counters := cs\<rparr>)" "cs \<noteq> []"
      "bsum (h2\<lparr>counters := cs\<rparr>) = bsum h2 + of_int (- int (?n * 65536))" "osum (h2\<lparr>counters := cs\<rparr>) = osum h2 + of_int (- 1)"
      using charge_remote_ok by blast
    note q = counters_hinv [OF k(1) cs(2)]
    have "run_returned h (h2\<lparr>counters := cs\<rparr>) a ?n"
      using q k same_map_sinv [OF q(2) s2] cs(3,4) p(4)
      by (auto simp: run_returned_def heap_inv_def h2 bsum_def osum_def nsp_def)
    moreover have "dealloc_large x h (hbase h + a * SPAN_BYTES) = Some (h2\<lparr>counters := cs\<rparr>)"
      using i al a32 p(1) cs(1) by (simp add: dealloc_large_def h2)
    ultimately show ?thesis using False by simp
  qed
qed

end
