(* ===== verification/Sub_Heap_Reclaim.thy ===== *)
theory Sub_Heap_Reclaim
  imports Sub_Heap_Large
begin

text \<open>
  Reclaiming empty spans. A span whose slots are all free leaves its active list (\<open>retire_ok\<close>), is
  in transit while the walk goes on (\<open>walked\<close>), and ends in the free-run index (\<open>file_runs_ok\<close>).
  The fuel of the walk and of the outer loop is enough because active lists have no cycles and
  every round that repeats has retired a span.
\<close>

subsection \<open>Retiring an empty span\<close>

lemma reset_words_bits:
  assumes "bm_shape spans b" "i < spans" "\<forall>w\<in>set ws. w < 128"
  shows "\<exists>b'. reset_words i ws b = Some b' \<and> bm_shape spans b' \<and> same_links b b' \<and>
    alloc_bits b' = alloc_bits b - words_of i ws \<and> free_bits b' = free_bits b - words_of i ws"
  using assms
proof (induction ws arbitrary: b)
  case (Cons w ws)
  let ?k = "i * 128 + w"
  let ?b = "b\<lparr>alloc_words := (alloc_words b)[?k := 0], free_words := (free_words b)[?k := 0]\<rparr>"
  have k: "?k < length (alloc_words b)" "?k < length (free_words b)"
    using Cons.prems word_index by (simp_all add: bm_shape_def)
  have z: "{j. bitmap_of (vs[?k := 0]) j} = {j. bitmap_of vs j} - in_word i w" if "?k < length vs" for vs
    unfolding bitmap_word [OF that] by (auto simp: in_word_def)
  have b: "bm_shape spans ?b" "same_links b ?b" "alloc_bits ?b = alloc_bits b - in_word i w" "free_bits ?b = free_bits b - in_word i w"
    using Cons.prems(1) z k by (simp_all add: bm_shape_def same_links_def alloc_bits_def free_bits_def)
  obtain b' where b': "reset_words i ws ?b = Some b'" "bm_shape spans b'" "same_links ?b b'"
    "alloc_bits b' = alloc_bits ?b - words_of i ws" "free_bits b' = free_bits ?b - words_of i ws"
    using Cons.IH [OF b(1) Cons.prems(2)] Cons.prems(3) by auto
  then show ?case using k b same_links_trans [OF b(2) b'(3)] by (intro exI [of _ b']) (auto simp: bm_shape_def)
qed simp

lemma alist_cong:
  "\<forall>x\<in>set xs. na' ! x = na ! x \<Longrightarrow> length na' = length na \<Longrightarrow> alist na h xs t \<Longrightarrow> alist na' h xs t"
  by (induction xs arbitrary: h) auto

text \<open>\<open>delist h h' cell ps i ys\<close>: span \<open>i\<close> has left the active list \<open>ps @ i # ys\<close> of \<open>cell\<close>, and its bits are clear.\<close>

definition delist :: "sub_heap \<Rightarrow> sub_heap \<Rightarrow> nat \<Rightarrow> nat list \<Rightarrow> nat \<Rightarrow> nat list \<Rightarrow> bool" where
  "delist h h' cell ps i ys \<longleftrightarrow> (\<exists>b cs. h' = h\<lparr>span_bm := b, central_lists := cs\<rparr> \<and> bm_shape (nsp h) b \<and> bm_base b = hbase h \<and>
     on_list b = (on_list (span_bm h))[i := False] \<and> (\<forall>x. x \<notin> set (ps @ i # ys) \<longrightarrow> next_active b ! x = next_active (span_bm h) ! x) \<and>
     alloc_bits b = alloc_bits (span_bm h) - scanned i (nslots (class_at h i)) \<and>
     free_bits b = free_bits (span_bm h) - scanned i (nslots (class_at h i)) \<and>
     length cs = length (central_lists h) \<and> alist (next_active b) (cl_head (cs ! cell)) (ps @ ys) NO_SPAN \<and>
     (\<forall>j. j \<noteq> cell \<longrightarrow> cs ! j = central_lists h ! j) \<and>
     (\<forall>d\<in>set cs. reuse_hint d = NO_SPAN \<or> reuse_hint d < nsp h))"

lemma delist_eqs:
  assumes e: "delist h h' cell ps i ys" and i: "i < nsp h" and sh: "bm_shape (nsp h) (span_bm h)"
  shows "nsp h' = nsp h" "hbase h' = hbase h" "class_at h' = class_at h" "sh_slab h' = sh_slab h" "arena h' = arena h"
    "large h' = large h" "counters h' = counters h" "num_shards h' = num_shards h" "span_tab h' = span_tab h"
    "budget_bytes h' = budget_bytes h" "length (central_lists h') = length (central_lists h)"
    "listed h' = (listed h)(i := False)" "ubits h' = ubits h - scanned i (nslots (class_at h i))"
proof -
  obtain b cs where b: "h' = h\<lparr>span_bm := b, central_lists := cs\<rparr>" "bm_base b = hbase h" "on_list b = (on_list (span_bm h))[i := False]"
    "alloc_bits b = alloc_bits (span_bm h) - scanned i (nslots (class_at h i))"
    "free_bits b = free_bits (span_bm h) - scanned i (nslots (class_at h i))" "length cs = length (central_lists h)"
    using e unfolding delist_def by blast
  show "nsp h' = nsp h" "hbase h' = hbase h" "class_at h' = class_at h" "sh_slab h' = sh_slab h" "arena h' = arena h"
    "large h' = large h" "counters h' = counters h" "num_shards h' = num_shards h" "span_tab h' = span_tab h"
    "budget_bytes h' = budget_bytes h" "length (central_lists h') = length (central_lists h)"
    using b by (simp_all add: nsp_def class_at_def fun_eq_iff)
  then show "listed h' = (listed h)(i := False)" using b i sh by (auto simp: listed_def fun_eq_iff bm_shape_def nth_list_update)
  show "ubits h' = ubits h - scanned i (nslots (class_at h i))" using b by (auto simp: ubits_def)
qed

lemma delist_lists:
  assumes h: "hinv h ls" and e: "delist h h' cell ps i ys" and cell: "cell < length (central_lists h)" and l: "ls cell = ps @ i # ys"
  shows "lists_ok h' (ls(cell := ps @ ys))"
proof -
  have sh: "bm_shape (nsp h) (span_bm h)" using hinv_parts(1) [OF h] by (auto simp: geom_def)
  have L: "\<forall>j<length (central_lists h). alist (next_active (span_bm h)) (cl_head (central_lists h ! j)) (ls j) NO_SPAN \<and>
        distinct (ls j) \<and> (\<forall>i\<in>set (ls j). listed h i \<and> class_at h i = j mod NUM_CLASSES)"
    "\<forall>j j'. j < length (central_lists h) \<and> j' < length (central_lists h) \<and> j \<noteq> j' \<longrightarrow> set (ls j) \<inter> set (ls j') = {}"
    "\<forall>i. listed h i \<longrightarrow> (\<exists>j<length (central_lists h). i \<in> set (ls j)) \<and> small_class (class_at h i)"
    using hinv_parts(2) [OF h] unfolding lists_ok_def by blast+
  have lc: "distinct (ps @ i # ys)" "listed h i" "\<forall>k\<in>set (ps @ i # ys). listed h k \<and> class_at h k = cell mod NUM_CLASSES"
    using L(1) [rule_format, OF cell] l by auto
  have i: "i < nsp h" using lc(2) by (simp add: listed_def)
  note q = delist_eqs [OF e i sh]
  obtain b cs where b: "h' = h\<lparr>span_bm := b, central_lists := cs\<rparr>" "bm_shape (nsp h) b"
    "\<forall>x. x \<notin> set (ps @ i # ys) \<longrightarrow> next_active b ! x = next_active (span_bm h) ! x"
    "alist (next_active b) (cl_head (cs ! cell)) (ps @ ys) NO_SPAN" "\<forall>j. j \<noteq> cell \<longrightarrow> cs ! j = central_lists h ! j"
    using e unfolding delist_def by blast
  have len: "length (next_active b) = length (next_active (span_bm h))" using b(2) sh by (simp add: bm_shape_def)
  have one: "alist (next_active (span_bm h')) (cl_head (central_lists h' ! j)) ((ls(cell := ps @ ys)) j) NO_SPAN \<and>
      distinct ((ls(cell := ps @ ys)) j) \<and> (\<forall>k\<in>set ((ls(cell := ps @ ys)) j). listed h' k \<and> class_at h' k = j mod NUM_CLASSES)"
    if j: "j < length (central_lists h)" for j
  proof (cases "j = cell")
    case True
    then show ?thesis using b lc unfolding q by auto
  next
    case False
    have a: "alist (next_active (span_bm h)) (cl_head (central_lists h ! j)) (ls j) NO_SPAN" "distinct (ls j)"
      "\<forall>i\<in>set (ls j). listed h i \<and> class_at h i = j mod NUM_CLASSES" using L(1) j by blast+
    have dj: "set (ls j) \<inter> set (ps @ i # ys) = {}" using L(2) j cell False l by metis
    then have "alist (next_active b) (cl_head (central_lists h ! j)) (ls j) NO_SPAN"
      using alist_cong [OF _ len a(1)] b(3) by blast
    moreover have "i \<notin> set (ls j)" using dj by auto
    ultimately show ?thesis using a(2,3) False b(1,5) unfolding q by auto
  qed
  have two: "set ((ls(cell := ps @ ys)) j) \<inter> set ((ls(cell := ps @ ys)) j') = {}"
    if "j < length (central_lists h)" "j' < length (central_lists h)" "j \<noteq> j'" for j j'
    using L(2) [rule_format, of j j'] that l by (auto split: if_splits)
  have three: "(\<exists>j<length (central_lists h). k \<in> set ((ls(cell := ps @ ys)) j)) \<and> small_class (class_at h' k)" if k: "listed h' k" for k
  proof -
    have k': "listed h k" "k \<noteq> i" using k unfolding q by (auto split: if_splits)
    then obtain j where "j < length (central_lists h)" "k \<in> set (ls j)" using L(3) by blast
    then show ?thesis using L(3) k' l unfolding q(3) by (intro conjI exI [of _ j]) auto
  qed
  show ?thesis unfolding lists_ok_def q(11) using one two three unfolding q(3) by blast
qed

lemma delist_objs:
  assumes h: "hinv h ls" and e: "delist h h' cell ps i ys" and i: "listed h i"
    and full: "span_slots i (nslots (class_at h i)) \<subseteq> ubits h"
  shows "all_objs h d = all_objs h' d + (if d = class_at h i then new_objs h i else {#})"
    "held h d = held h' d + (if d = class_at h i then new_objs h i else {#})"
    "bits_ok h'"
proof -
  have sh: "bm_shape (nsp h) (span_bm h)" using hinv_parts(1) [OF h] by (auto simp: geom_def)
  have il: "i < nsp h" using i by (simp add: listed_def)
  have c: "small_class (class_at h i)" using hinv_parts(2) [OF h] i unfolding lists_ok_def by blast
  note q = delist_eqs [OF e il sh]
  let ?X = "span_slots i (nslots (class_at h i))"
  have f: "finite ?X" by (simp add: span_slots_def)
  have sl: "k \<in> ?X \<longleftrightarrow> k div 8192 = i \<and> k mod 8192 < nslots (class_at h i)" for k
    using span_slots_iff nslots_bounds [OF c] by blast
  have t: "tiles h' d = tiles h d - (if d = class_at h i then ?X else {})" for d unfolding tiles_def q using sl by auto
  have tx: "?X \<subseteq> tiles h (class_at h i)" using sl i by (auto simp: tiles_def)
  have in_span: "k \<in> ?X" if "k \<in> ubits h" "k \<in> scanned i (nslots (class_at h i))" for k
  proof -
    have "k \<in> tiles h (class_at h (k div 8192))" using hinv_parts(3) [OF h] that(1) by (simp add: bits_ok_def)
    moreover have "div_ceil (nslots (class_at h i)) 64 \<le> 128" using nslots_bounds [OF c] by (subst div_ceil_le_iff) auto
    then have "64 * div_ceil (nslots (class_at h i)) 64 \<le> 8192" by simp
    then have "k div 8192 = i" using that(2) span_slots_iff unfolding scanned_def by blast
    ultimately show ?thesis using sl by (auto simp: tiles_def)
  qed
  have u: "ubits h' = ubits h - ?X" unfolding q using in_span span_slots_scanned by blast
  show "all_objs h d = all_objs h' d + (if d = class_at h i then new_objs h i else {#})"
  proof (cases "d = class_at h i")
    case True
    have "tiles h d = (tiles h d - ?X) \<union> ?X" "(tiles h d - ?X) \<inter> ?X = {}" using tx True by blast+
    then show ?thesis using image_union_mset [of "tiles h d - ?X" ?X "addr (hbase h) d"] f True unfolding all_objs_def new_objs_def t q by simp
  qed (simp add: all_objs_def t q)
  show "held h d = held h' d + (if d = class_at h i then new_objs h i else {#})"
  proof (cases "d = class_at h i")
    case True
    have a: "ubits h' \<inter> tiles h' d = (ubits h \<inter> tiles h d) - ?X" unfolding u t using True by auto
    have "ubits h \<inter> tiles h d = ((ubits h \<inter> tiles h d) - ?X) \<union> ?X" using tx full True by blast
    moreover have "(ubits h \<inter> tiles h d - ?X) \<inter> ?X = {}" by blast
    ultimately have "image_mset (addr (hbase h) d) (mset_set (ubits h \<inter> tiles h d)) =
      image_mset (addr (hbase h) d) (mset_set ((ubits h \<inter> tiles h d) - ?X)) + image_mset (addr (hbase h) d) (mset_set ?X)"
      using image_union_mset [of "ubits h \<inter> tiles h d - ?X" ?X "addr (hbase h) d"] f by simp
    then show ?thesis unfolding held_def a using True by (simp add: q new_objs_def)
  next
    case False
    have "tiles h d \<inter> ?X = {}" using sl False by (auto simp: tiles_def)
    then have "ubits h' \<inter> tiles h' d = ubits h \<inter> tiles h d" unfolding u t using False by auto
    then show ?thesis unfolding held_def using False by (simp add: q)
  qed
  obtain b cs where b: "h' = h\<lparr>span_bm := b, central_lists := cs\<rparr>" "alloc_bits b = alloc_bits (span_bm h) - scanned i (nslots (class_at h i))"
    "free_bits b = free_bits (span_bm h) - scanned i (nslots (class_at h i))" using e unfolding delist_def by blast
  have dj: "alloc_bits b \<inter> free_bits b = {}" using hinv_parts(3) [OF h] unfolding b by (auto simp: bits_ok_def)
  have "k \<in> tiles h' (class_at h' (k div 8192))" if k: "k \<in> ubits h'" for k
  proof -
    have k': "k \<in> ubits h" "k \<notin> ?X" using k unfolding u by auto
    then have "k \<in> tiles h (class_at h (k div 8192))" using hinv_parts(3) [OF h] by (simp add: bits_ok_def)
    then show ?thesis using k'(2) unfolding t q by auto
  qed
  then show "bits_ok h'" unfolding bits_ok_def using dj b(1) by simp
qed

lemma delist_hinv:
  assumes h: "hinv h ls" and e: "delist h h' cell ps i ys" and cell: "cell < length (central_lists h)" and l: "ls cell = ps @ i # ys"
    and full: "span_slots i (nslots (class_at h i)) \<subseteq> ubits h"
  shows "hinv h' (ls(cell := ps @ ys))" "live_objs h' = live_objs h"
proof -
  have g: "geom h" and sh: "bm_shape (nsp h) (span_bm h)" using hinv_parts(1) [OF h] by (auto simp: geom_def)
  have i: "listed h i" using hinv_parts(2) [OF h] cell l unfolding lists_ok_def by auto
  have il: "i < nsp h" using i by (simp add: listed_def)
  note q = delist_eqs [OF e il sh]
  note o = delist_objs [OF h e i full]
  have "bm_shape (nsp h) (span_bm h')" "\<forall>d\<in>set (central_lists h'). reuse_hint d = NO_SPAN \<or> reuse_hint d < nsp h"
    using e unfolding delist_def by auto
  then have "geom h'" using g q by (simp add: geom_def)
  moreover have "lists_ok h' (ls(cell := ps @ ys))" using delist_lists [OF h e cell l] .
  moreover have "held_ok h'"
  proof -
    have "held h' d \<subseteq># all_objs h' d" if "small_class d" for d
      using hinv_parts(4) [OF h] that o(1,2) [of d] unfolding held_ok_def by (metis subset_mset.add_le_cancel_right)
    then show ?thesis by (simp add: held_ok_def)
  qed
  ultimately show "hinv h' (ls(cell := ps @ ys))" using o(3) by (simp add: hinv_def)
  show "live_objs h' = live_objs h" by (simp add: live_objs_def o(1,2) fun_eq_iff)
qed

lemma set_upd_cases: "d \<in> set (xs[i := v]) \<Longrightarrow> d = v \<or> d \<in> set xs"
  using set_update_subset_insert [of xs i v] by blast

text \<open>The whole of \<open>retire_span\<close>.\<close>

definition retired :: "sub_heap \<Rightarrow> sub_heap \<Rightarrow> (nat \<Rightarrow> nat list) \<Rightarrow> nat \<Rightarrow> bool" where
  "retired h h' ls' i \<longleftrightarrow> hinv h' ls' \<and> live_objs h' = live_objs h \<and> nsp h' = nsp h \<and> hbase h' = hbase h \<and> sh_slab h' = sh_slab h \<and>
     arena h' = arena h \<and> large h' = large h \<and> counters h' = counters h \<and> num_shards h' = num_shards h \<and> budget_bytes h' = budget_bytes h \<and>
     length (central_lists h') = length (central_lists h) \<and> listed h' = (listed h)(i := False) \<and>
     ubits h' = ubits h - scanned i (nslots (class_at h i)) \<and>
     (\<forall>j. listed h' j \<longrightarrow> class_at h' j = class_at h j) \<and>
     (\<forall>j. class_at h' j = class_at h j \<or> class_at h' j = LARGE_CLASS)"

lemma retire_ok:
  assumes h: "hinv h ls" and cell: "cell < length (central_lists h)" "ls cell = ps @ i # ys" and c: "class_at h i = c"
    and full: "span_slots i (nslots c) \<subseteq> ubits h" and fit: "i + gsp c \<le> nsp h"
    and own: "\<forall>j. i < j \<and> j < i + gsp c \<longrightarrow> \<not> listed h j"
  shows "\<exists>h'. retire_span h cell i (pred_of ps) (nslots c) (gsp c) = Some h' \<and> retired h h' (ls(cell := ps @ ys)) i"
proof -
  have g: "geom h" and sh: "bm_shape (nsp h) (span_bm h)" using hinv_parts(1) [OF h] by (auto simp: geom_def)
  have lc: "alist (next_active (span_bm h)) (cl_head (central_lists h ! cell)) (ps @ i # ys) NO_SPAN" "distinct (ps @ i # ys)" "listed h i"
    using hinv_parts(2) [OF h, unfolded lists_ok_def, THEN conjunct1, rule_format, OF cell(1)] unfolding cell(2) by simp_all
  have il: "i < nsp h" using lc(3) by (simp add: listed_def)
  have cs: "small_class c" using hinv_parts(2) [OF h] lc(3) c unfolding lists_ok_def by blast
  obtain b new where b: "unlink_active (span_bm h) i (pred_of ps) (cl_head (central_lists h ! cell)) = Some (b, new)" "bm_shape (nsp h) b"
    "bm_base b = hbase h" "alloc_words b = alloc_words (span_bm h)" "free_words b = free_words (span_bm h)"
    "alist (next_active b) new (ps @ ys) NO_SPAN" "on_list b = (on_list (span_bm h))[i := False]"
    "\<forall>x. x \<notin> set (ps @ i # ys) \<longrightarrow> next_active b ! x = next_active (span_bm h) ! x"
    using unlink_active_alist [OF lc(1,2) sh] by blast
  have "div_ceil (nslots c) 64 \<le> 128" using nslots_bounds [OF cs] by (subst div_ceil_le_iff) auto
  then have "\<forall>w\<in>set [0..<div_ceil (nslots c) 64]. w < 128" by auto
  then obtain b' where b': "reset_bitmaps b i (div_ceil (nslots c) 64) = Some b'" "bm_shape (nsp h) b'" "same_links b b'"
    "alloc_bits b' = alloc_bits b - scanned i (nslots c)" "free_bits b' = free_bits b - scanned i (nslots c)"
    using reset_words_bits [OF b(2) il, of "[0..<div_ceil (nslots c) 64]"] by (auto simp: reset_bitmaps_def words_of_upt scanned_def span_slots_def)
  let ?cl = "central_lists h ! cell"
  let ?cs = "(central_lists h)[cell := (if reuse_hint ?cl = i then ?cl\<lparr>cl_head := new, reuse_hint := NO_SPAN\<rparr> else ?cl\<lparr>cl_head := new\<rparr>)]"
  define h1 where h1: "h1 = h\<lparr>span_bm := b', central_lists := ?cs\<rparr>"
  have hints: "\<forall>d\<in>set ?cs. reuse_hint d = NO_SPAN \<or> reuse_hint d < nsp h"
  proof
    fix d assume "d \<in> set ?cs"
    then have d: "d = (if reuse_hint ?cl = i then ?cl\<lparr>cl_head := new, reuse_hint := NO_SPAN\<rparr> else ?cl\<lparr>cl_head := new\<rparr>) \<or> d \<in> set (central_lists h)"
      by (rule set_upd_cases)
    have "\<forall>d\<in>set (central_lists h). reuse_hint d = NO_SPAN \<or> reuse_hint d < nsp h" using g unfolding geom_def by blast
    then show "reuse_hint d = NO_SPAN \<or> reuse_hint d < nsp h" using d nth_mem [OF cell(1)] by (auto split: if_splits)
  qed
  have de: "delist h h1 cell ps i ys"
    unfolding delist_def using b b' hints cell(1) c
    by (intro exI [of _ b'] exI [of _ ?cs]) (auto simp: h1 same_links_def alloc_bits_def free_bits_def)
  note q = delist_eqs [OF de il sh]
  note k = delist_hinv [OF h de cell full [folded c]]
  have fit1: "i < nsp h1" "0 < gsp c" "i + gsp c \<le> nsp h1" using il fit q(1) gsp_bounds [OF cs] by simp_all
  obtain t where t: "assign_range (span_tab h1) (hbase h1 + i * 65536) (gsp c * 65536) LARGE_CLASS 0 = Some t"
    "\<forall>ar la k. retag h1 (h1\<lparr>span_tab := t, arena := ar, large := la, clock := k\<rparr>) i (gsp c) (pack LARGE_CLASS 0)"
    using assign_retag [OF hinv_parts(1) [OF k(1)] fit1] by blast
  define h' where h': "h' = h1\<lparr>span_tab := t\<rparr>"
  have rt: "retag h1 h' i (gsp c) (pack LARGE_CLASS 0)"
    using t(2) [rule_format, where ar = "arena h1" and la = "large h1" and k = "clock h1"] by (simp add: h' retag_def)
  have un: "\<forall>s. i \<le> s \<and> s < i + gsp c \<longrightarrow> \<not> listed h1 s" unfolding q using own by auto
  have pk: "pack LARGE_CLASS 0 < 2 ^ 32" by (simp add: pack_def LARGE_CLASS_def)
  note r = retag_hinv [OF k(1) rt pk un]
  have "live_objs h' = live_objs h" unfolding live_objs_def r(2,3) using k(2) by (simp add: live_objs_def fun_eq_iff)
  moreover have "listed h' j \<longrightarrow> class_at h' j = class_at h j" for j using r(6) [of j] un unfolding r(4) q(3) by auto
  moreover have "listed h' = (listed h)(i := False)" "ubits h' = ubits h - scanned i (nslots (class_at h i))" using r(4,8) q(12,13) by simp_all
  moreover have "sh_slab h' = sh_slab h" "arena h' = arena h" "large h' = large h" "counters h' = counters h" "num_shards h' = num_shards h"
    "budget_bytes h' = budget_bytes h" "length (central_lists h') = length (central_lists h)" using q by (simp_all add: h')
  moreover have "class_at h' j = class_at h j \<or> class_at h' j = LARGE_CLASS" for j
    using retag_class [OF rt, of j] q(3) by (simp add: LARGE_CLASS_def)
  ultimately have "retired h h' (ls(cell := ps @ ys)) i" unfolding retired_def using r(1,5,7) q(1,2) by simp
  moreover have "retire_span h cell i (pred_of ps) (nslots c) (gsp c) = Some h'"
  proof -
    have sb: "span_base b i = hbase h1 + i * 65536"
      using span_lookup(3) [OF g il] b(3) q(2) by (simp add: span_base_def)
    have tab: "span_tab h1 = span_tab h" by (simp add: h1)
    show ?thesis
      using b(1) b'(1) t(1) cell(1) sb unfolding tab by (auto simp: retire_span_def set_head_def set_hint_def h' h1)
  qed
  ultimately show ?thesis by blast
qed

subsection \<open>Reclaiming empty spans\<close>

definition own1 :: "sub_heap \<Rightarrow> bool" where
  "own1 h \<longleftrightarrow> arena_ok h \<and> (\<forall>s. owners h s \<le> (if s < carved h then 1 else 0))"

lemma carved_le: "arena_ok h \<Longrightarrow> carved h \<le> nsp h"
proof -
  assume "arena_ok h"
  then have "carved h * 65536 \<le> budget_bytes h" by (auto simp: arena_ok_def)
  also have "\<dots> \<le> nsp h * 65536" unfolding nsp_def using div_ceil_mult_ge [of 65536 "budget_bytes h"] by simp
  finally show ?thesis by simp
qed

lemma group_span:
  assumes o: "own1 h" and i: "listed h i" and s: "i \<le> s" "s < i + gsp (class_at h i)"
  shows "s < carved h" "group_owners h s = {i}" "s \<notin> free_spans (la_pool (large h))" "run_owners (large h) s = {}"
proof -
  have a: "i \<in> group_owners h s" using i s by (simp add: group_owners_def)
  then have c: "1 \<le> card (group_owners h s)" by (metis One_nat_def Suc_leI card_gt_0_iff empty_iff finite_owners(1))
  have t: "pool_owner (large h) s + card (group_owners h s) + card (run_owners (large h) s) \<le> (if s < carved h then 1 else 0)"
    using o unfolding own1_def owners_def by blast
  show l: "s < carved h" using t c by (cases "s < carved h") simp_all
  have e: "pool_owner (large h) s = 0" "card (group_owners h s) = 1" "card (run_owners (large h) s) = 0"
    using t c unfolding if_P [OF l] by linarith+
  show "group_owners h s = {i}" using e(2) a by (metis card_1_singletonE singletonD)
  show "s \<notin> free_spans (la_pool (large h))" using e(1) by (simp add: pool_owner_def split: if_splits)
  show "run_owners (large h) s = {}" using e(3) by simp
qed

lemma group_room:
  assumes o: "own1 h" and i: "listed h i" and c: "class_at h i = c" "small_class c" and cl: "\<forall>j. listed h j \<longrightarrow> small_class (class_at h j)"
  shows "i + gsp c \<le> nsp h" "\<forall>j. i < j \<and> j < i + gsp c \<longrightarrow> \<not> listed h j"
proof -
  have "i + gsp c - 1 < carved h" using group_span(1) [OF o i, of "i + gsp c - 1"] c gsp_bounds [OF c(2)] by auto
  then show "i + gsp c \<le> nsp h" using carved_le [of h] o gsp_bounds [OF c(2)] by (simp add: own1_def)
  show "\<forall>j. i < j \<and> j < i + gsp c \<longrightarrow> \<not> listed h j"
  proof (intro allI impI notI)
    fix j assume j: "i < j \<and> j < i + gsp c" "listed h j"
    then have "group_owners h j = {i}" using group_span(2) [OF o i, of j] c by simp
    moreover have "j \<in> group_owners h j" using j gsp_bounds [OF cl [rule_format, OF j(2)]] by (simp add: group_owners_def)
    ultimately show False using j by simp
  qed
qed

lemma retired_owners:
  assumes r: "retired h h' ls' i" and i: "listed h i" and c: "class_at h i = c"
  shows "owners h' s + in_run i (gsp c) s = owners h s"
proof -
  have e: "listed h' = (listed h)(i := False)" "\<forall>j. listed h' j \<longrightarrow> class_at h' j = class_at h j" "large h' = large h"
    using r by (simp_all add: retired_def)
  have "group_owners h s = group_owners h' s \<union> (if i \<le> s \<and> s < i + gsp c then {i} else {})"
    using i c e(1,2) by (auto simp: group_owners_def split: if_splits)
  moreover have "i \<notin> group_owners h' s" using e(1) by (simp add: group_owners_def)
  ultimately have "card (group_owners h s) = card (group_owners h' s) + in_run i (gsp c) s" by (auto simp: in_run_def)
  then show ?thesis using e(3) by (simp add: owners_def)
qed

definition transit :: "nat \<Rightarrow> nat list \<Rightarrow> nat \<Rightarrow> nat" where
  "transit c T s = (\<Sum>i\<leftarrow>T. in_run i (gsp c) s)"

definition nlisted :: "sub_heap \<Rightarrow> nat" where
  "nlisted h = card {i. listed h i}"

lemma finite_listed [simp]: "finite {i. listed h i}"
  by (rule finite_subset [of _ "{..<nsp h}"]) (auto simp: listed_def)

text \<open>The listed spans all of whose slots are free: what a sweep is after.\<close>

definition fulls :: "sub_heap \<Rightarrow> nat set" where
  "fulls h = {i. listed h i \<and> span_slots i (nslots (class_at h i)) \<subseteq> ubits h}"

lemma finite_fulls [simp]: "finite (fulls h)"
  by (rule finite_subset [of _ "{i. listed h i}"]) (auto simp: fulls_def)

lemma fulls_map: "same_map h h' \<Longrightarrow> ubits h' = ubits h \<Longrightarrow> fulls h' = fulls h"
  using same_map_eqs(3,4) [of h h'] by (simp add: fulls_def)

lemma scanned_other:
  assumes "small_class c" "small_class d" "j \<noteq> i"
  shows "span_slots j (nslots d) \<inter> scanned i (nslots c) = {}"
proof -
  have n: "nslots d \<le> 8192" "nslots c \<le> 8192" using nslots_bounds assms(1,2) by simp_all
  have m: "64 * div_ceil (nslots c) 64 \<le> 8192" using div_ceil_le_iff [of 64 "nslots c" 128] n by simp
  have "k \<notin> scanned i (nslots c)" if "k \<in> span_slots j (nslots d)" for k
    using that assms(3) unfolding scanned_def span_slots_iff [OF n(1)] span_slots_iff [OF m] by simp
  then show ?thesis by blast
qed

lemma retired_fulls:
  assumes h: "hinv h ls" and r: "retired h h' ls' i" and i: "i \<in> fulls h"
  shows "fulls h' = fulls h - {i}"
proof -
  have sm: "small_class (class_at h j)" if "listed h j" for j using hinv_parts(2) [OF h] that unfolding lists_ok_def by blast
  have e: "listed h' = (listed h)(i := False)" "\<forall>j. listed h' j \<longrightarrow> class_at h' j = class_at h j"
    "ubits h' = ubits h - scanned i (nslots (class_at h i))" using r by (simp_all add: retired_def)
  have "j \<in> fulls h' \<longleftrightarrow> j \<in> fulls h" if "j \<noteq> i" for j
  proof (cases "listed h j")
    case True
    have "span_slots j (nslots (class_at h j)) \<inter> scanned i (nslots (class_at h i)) = {}"
      using scanned_other [OF sm sm that] True i by (simp add: fulls_def)
    then show ?thesis using True that e by (auto simp: fulls_def)
  qed (use that e(1) in \<open>simp add: fulls_def\<close>)
  then have "j \<in> fulls h' \<longleftrightarrow> j \<in> fulls h - {i}" for j using e(1) by (cases "j = i") (simp_all add: fulls_def)
  then show ?thesis by blast
qed

definition walked :: "nat \<Rightarrow> sub_heap \<Rightarrow> sub_heap \<Rightarrow> (nat \<Rightarrow> nat list) \<Rightarrow> nat list \<Rightarrow> bool" where
  "walked c h h' ls' T \<longleftrightarrow> hinv h' ls' \<and> own1 h' \<and> live_objs h' = live_objs h \<and> nsp h' = nsp h \<and> hbase h' = hbase h \<and>
     tally h' = tally h \<and> carved h' = carved h \<and> large h' = large h \<and> arena h' = arena h \<and> num_shards h' = num_shards h \<and>
     length (central_lists h') = length (central_lists h) \<and> (\<forall>s. owners h' s + transit c T s = owners h s) \<and>
     nlisted h' + length T = nlisted h \<and> budget_bytes h' = budget_bytes h \<and> set T \<subseteq> fulls h \<and> fulls h' = fulls h - set T"

lemma walked_trans:
  assumes a: "walked c a b ls1 S" and b: "walked c b d ls2 T"
  shows "walked c a d ls2 (S @ T)"
proof -
  have "owners d s + transit c (S @ T) s = owners a s" for s
  proof -
    have "owners b s + transit c S s = owners a s" "owners d s + transit c T s = owners b s" using a b by (simp_all add: walked_def)
    then show ?thesis by (simp add: transit_def)
  qed
  moreover have "set (S @ T) \<subseteq> fulls a" "fulls d = fulls a - set (S @ T)" using a b by (auto simp: walked_def)
  ultimately show ?thesis using a b by (simp add: walked_def)
qed

lemma same_map_walked:
  assumes "hinv h' ls" "own1 h" "same_map h h'" "live_objs h' = live_objs h" "tally h' = tally h" "ubits h' = ubits h"
  shows "walked c h h' ls []"
proof -
  note e = same_map_eqs [OF assms(3)]
  have b: "budget_bytes h' = budget_bytes h" using assms(3) by (simp add: same_map_def)
  have cv: "carved h' = carved h" using e by (simp add: carved_def)
  have o: "owners h' = owners h" using e by (simp add: owners_def group_owners_def fun_eq_iff)
  have "tags_ok h' = tags_ok h" using assms(3) b by (intro tags_large) (simp_all add: same_map_def)
  then have "own1 h'" using assms(2) e b cv unfolding own1_def arena_ok_def o by simp
  then show ?thesis using assms(1,4,5) fulls_map [OF assms(3,6)] e cv o by (simp add: walked_def transit_def nlisted_def)
qed

lemma retired_walked:
  assumes h: "hinv h ls" and r: "retired h h' ls' i" and o: "own1 h" and i: "listed h i" and c: "class_at h i = c"
    and full: "span_slots i (nslots c) \<subseteq> ubits h"
  shows "walked c h h' ls' [i]"
proof -
  have w: "owners h' s + in_run i (gsp c) s = owners h s" for s using retired_owners [OF r i c] .
  have cv: "carved h' = carved h" using r by (simp add: retired_def carved_def)
  have "owners h' s \<le> (if s < carved h' then 1 else 0)" for s
    using o w [of s] unfolding own1_def cv by (metis le_add1 le_trans)
  moreover have "tags_ok h'" using o r unfolding own1_def arena_ok_def retired_def tags_ok_def by metis
  then have "arena_ok h'" using o r cv by (simp add: own1_def retired_def arena_ok_def)
  ultimately have "own1 h'" by (simp add: own1_def)
  moreover have "{j. listed h j} = insert i {j. listed h' j}" "\<not> listed h' i" using r i by (auto simp: retired_def)
  then have "nlisted h' + 1 = nlisted h" by (simp add: nlisted_def)
  moreover have "i \<in> fulls h" using i c full by (simp add: fulls_def)
  then have "i \<in> fulls h \<and> fulls h' = fulls h - {i}" using retired_fulls [OF h r] by blast
  ultimately show ?thesis using r w cv by (simp add: walked_def retired_def transit_def tally_def)
qed

text \<open>The probe folds deposits into the allocation bitmap and decides whether every slot is free.\<close>

lemma probe_ok:
  assumes h: "hinv h ls" and i: "listed h i" and c: "class_at h i = c"
  shows "\<exists>b. is_fully_free (span_bm h) i (nslots c) = Some (b, span_slots i (nslots c) \<subseteq> ubits h) \<and>
    hinv (h\<lparr>span_bm := b\<rparr>) ls \<and> same_map h (h\<lparr>span_bm := b\<rparr>) \<and> live_objs (h\<lparr>span_bm := b\<rparr>) = live_objs h \<and>
    ubits (h\<lparr>span_bm := b\<rparr>) = ubits h"
proof -
  have g: "geom h" using hinv_parts(1) [OF h] .
  have sh: "bm_shape (nsp h) (span_bm h)" and il: "i < nsp h" using g i by (auto simp: geom_def listed_def)
  have cs: "small_class c" using hinv_parts(2) [OF h] i c unfolding lists_ok_def by blast
  have n: "nslots c \<le> 8192" using nslots_bounds [OF cs] by simp
  have "64 * div_ceil (nslots c) 64 \<le> 8192" using div_ceil_le_iff [of 64 "nslots c" 128] n by simp
  then have "(alloc_bits (span_bm h) \<union> free_bits (span_bm h)) \<inter> scanned i (nslots c) \<subseteq> span_slots i (nslots c)"
    using hinv_parts(3) [OF h] c span_slots_iff n by (fastforce simp: scanned_def bits_ok_def ubits_def tiles_def)
  then obtain b where b: "is_fully_free (span_bm h) i (nslots c) = Some (b, span_slots i (nslots c) \<subseteq> alloc_bits (span_bm h) \<union> free_bits (span_bm h))"
    "bm_shape (nsp h) b" "same_links (span_bm h) b" "free_bits b = free_bits (span_bm h) - scanned i (nslots c)"
    "alloc_bits b = alloc_bits (span_bm h) \<union> (free_bits (span_bm h) \<inter> scanned i (nslots c))"
    using is_fully_free_bits [OF sh il n] by blast
  let ?h = "h\<lparr>span_bm := b\<rparr>"
  note st = bits_step [OF g b(3,2)]
  note e = same_map_eqs [OF st(1)]
  have u: "ubits ?h = ubits h" using b(4,5) by (auto simp: ubits_def)
  have hd: "held ?h = held h" unfolding held_def e u by simp
  have "bits_ok ?h" using hinv_parts(3) [OF h] b(4,5) unfolding bits_ok_def e u by auto
  then have "hinv ?h ls" using hinv_step [OF h st] hinv_parts(4) [OF h] unfolding held_ok_def hd by blast
  moreover have "live_objs ?h = live_objs h" unfolding live_objs_def hd e by simp
  ultimately show ?thesis using b(1) st(1) u by (auto simp: ubits_def)
qed

lemma list_facts:
  assumes "hinv h ls" "cell < length (central_lists h)" "ls cell = ps @ i # ys"
  shows "listed h i" "class_at h i = cell mod NUM_CLASSES" "next_active (span_bm h) ! i = hd_or ys NO_SPAN" "i < nsp h" "i \<noteq> NO_SPAN"
    "i < length (next_active (span_bm h))"
proof -
  have a: "alist (next_active (span_bm h)) (cl_head (central_lists h ! cell)) (ls cell) NO_SPAN"
    "\<forall>i\<in>set (ls cell). listed h i \<and> class_at h i = cell mod NUM_CLASSES"
    using assms(1,2) unfolding hinv_def lists_ok_def by blast+
  show "listed h i" "class_at h i = cell mod NUM_CLASSES" using a(2) assms(3) by auto
  then show "i < nsp h" by (simp add: listed_def)
  have b: "i \<noteq> NO_SPAN" "i < length (next_active (span_bm h))" "alist (next_active (span_bm h)) (next_active (span_bm h) ! i) ys NO_SPAN"
    using a(1) assms(3) by (auto simp: alist_append)
  then show "i \<noteq> NO_SPAN" "i < length (next_active (span_bm h))" by blast+
  show "next_active (span_bm h) ! i = hd_or ys NO_SPAN" using b(3) by (cases ys) auto
qed

lemma pred_snoc [simp]: "pred_of (ps @ [i]) = i"
  by (simp add: pred_of_def)

lemma reclaim_walk_ok:
  assumes "hinv h ls" "own1 h" "cell < length (central_lists h)" "cell mod NUM_CLASSES = c" "small_class c"
    "ls cell = ps @ ys" "length ys < fuel"
  shows "\<exists>h' ls' T. reclaim_walk fuel cell cap (nslots c) (gsp c) (pred_of ps) (hd_or ys NO_SPAN) h taken = Some (h', taken @ T) \<and>
    walked c h h' ls' T \<and> set T \<subseteq> set ys \<and> distinct T \<and> length T \<le> cap - length taken \<and>
    (length taken + length T < cap \<longrightarrow> set T = {i\<in>set ys. span_slots i (nslots c) \<subseteq> ubits h}) \<and> (\<forall>d. set (ls' d) \<subseteq> set (ls d))"
  using assms
proof (induction ys arbitrary: h ls ps taken fuel)
  case Nil
  then obtain f where "fuel = Suc f" by (cases fuel) auto
  then show ?case using Nil same_map_walked [OF Nil.prems(1,2)]
    by (intro exI [of _ h] exI [of _ ls] exI [of _ "[]"]) simp
next
  case (Cons i ys)
  obtain f where f: "fuel = Suc f" "length ys < f" using Cons.prems(7) by (cases fuel) auto
  note lf = list_facts [OF Cons.prems(1,3,6)]
  have ci: "class_at h i = c" using lf(2) Cons.prems(4) by simp
  show ?case
  proof (cases "length taken < cap")
    case False
    then show ?thesis using f same_map_walked [OF Cons.prems(1,2)]
      by (intro exI [of _ h] exI [of _ ls] exI [of _ "[]"]) simp
  next
    case True
    have dis: "distinct (ps @ i # ys)" using Cons.prems(1,3,6) unfolding hinv_def lists_ok_def by metis
    obtain b where b: "is_fully_free (span_bm h) i (nslots c) = Some (b, span_slots i (nslots c) \<subseteq> ubits h)"
      "hinv (h\<lparr>span_bm := b\<rparr>) ls" "same_map h (h\<lparr>span_bm := b\<rparr>)" "live_objs (h\<lparr>span_bm := b\<rparr>) = live_objs h" "ubits (h\<lparr>span_bm := b\<rparr>) = ubits h"
      using probe_ok [OF Cons.prems(1) lf(1) ci] by blast
    let ?h1 = "h\<lparr>span_bm := b\<rparr>"
    have w1: "walked c h ?h1 ls []" using same_map_walked [OF b(2) Cons.prems(2) b(3,4) _ b(5)] by (simp add: tally_def)
    then have i1: "own1 ?h1" "cell < length (central_lists ?h1)" using Cons.prems(3) by (simp_all add: walked_def)
    have nx: "next_span (span_bm h) i = Some (hd_or ys NO_SPAN)" using lf(3,6) by (simp add: next_span_def)
    show ?thesis
    proof (cases "span_slots i (nslots c) \<subseteq> ubits h")
      case full: True
      have l1: "listed ?h1 i" "class_at ?h1 i = c" using same_map_eqs(3,4) [OF b(3)] lf(1) ci by simp_all
      have sm: "\<forall>j. listed ?h1 j \<longrightarrow> small_class (class_at ?h1 j)" using hinv_parts(2) [OF b(2)] unfolding lists_ok_def by blast
      have full1: "span_slots i (nslots c) \<subseteq> ubits ?h1" using full b(5) by simp
      obtain h2 where r: "retire_span ?h1 cell i (pred_of ps) (nslots c) (gsp c) = Some h2" "retired ?h1 h2 (ls(cell := ps @ ys)) i"
        using retire_ok [OF b(2) i1(2) Cons.prems(6) l1(2) full1 group_room [OF i1(1) l1(1,2) Cons.prems(5) sm]] by blast
      have w2: "walked c h h2 (ls(cell := ps @ ys)) [i]"
        using walked_trans [OF w1 retired_walked [OF b(2) r(2) i1(1) l1 full1]] by simp
      have i2: "hinv h2 (ls(cell := ps @ ys))" "own1 h2" "cell < length (central_lists h2)" using w2 Cons.prems(3) by (simp_all add: walked_def)
      have l2: "(ls(cell := ps @ ys)) cell = ps @ ys" by simp
      obtain h3 ls3 T where 3: "reclaim_walk f cell cap (nslots c) (gsp c) (pred_of ps) (hd_or ys NO_SPAN) h2 (taken @ [i]) = Some (h3, (taken @ [i]) @ T)"
        "walked c h2 h3 ls3 T" "set T \<subseteq> set ys" "distinct T" "length T \<le> cap - length (taken @ [i])"
        "length (taken @ [i]) + length T < cap \<longrightarrow> set T = {j\<in>set ys. span_slots j (nslots c) \<subseteq> ubits h2}"
        "\<forall>d. set (ls3 d) \<subseteq> set ((ls(cell := ps @ ys)) d)"
        using Cons.IH [OF i2 Cons.prems(4,5) l2 f(2)] by blast
      have "span_slots j (nslots c) \<subseteq> ubits h2 \<longleftrightarrow> span_slots j (nslots c) \<subseteq> ubits h" if j: "j \<in> set ys" for j
      proof -
        have "j \<noteq> i" using j dis by auto
        then have "span_slots j (nslots c) \<inter> scanned i (nslots c) = {}" using scanned_other [OF Cons.prems(5,5)] by blast
        moreover have "ubits h2 = ubits h - scanned i (nslots c)" using r(2) b(5) l1(2) by (simp add: retired_def)
        ultimately show ?thesis by blast
      qed
      then have "length taken + length (i # T) < cap \<longrightarrow> set (i # T) = {j\<in>set (i # ys). span_slots j (nslots c) \<subseteq> ubits h}"
        using 3(6) full by auto
      moreover have "reclaim_walk fuel cell cap (nslots c) (gsp c) (pred_of ps) (hd_or (i # ys) NO_SPAN) h taken = Some (h3, taken @ (i # T))"
        using f(1) True lf(5) nx b(1) full r(1) 3(1) by simp
      moreover have "walked c h h3 ls3 (i # T)" using walked_trans [OF w2 3(2)] by simp
      moreover have "i \<notin> set T" using 3(3) dis by auto
      moreover have "set (ls3 d) \<subseteq> set (ls d)" for d using 3(7) [rule_format, of d] Cons.prems(6) by (cases "d = cell") auto
      ultimately show ?thesis using 3(3-5) True by (intro exI [of _ h3] exI [of _ ls3] exI [of _ "i # T"]) auto
    next
      case nf: False
      have l2: "ls cell = (ps @ [i]) @ ys" using Cons.prems(6) by simp
      obtain h3 ls3 T where 3: "reclaim_walk f cell cap (nslots c) (gsp c) (pred_of (ps @ [i])) (hd_or ys NO_SPAN) ?h1 taken = Some (h3, taken @ T)"
        "walked c ?h1 h3 ls3 T" "set T \<subseteq> set ys" "distinct T" "length T \<le> cap - length taken"
        "length taken + length T < cap \<longrightarrow> set T = {j\<in>set ys. span_slots j (nslots c) \<subseteq> ubits ?h1}" "\<forall>d. set (ls3 d) \<subseteq> set (ls d)"
        using Cons.IH [OF b(2) i1 Cons.prems(4,5) l2 f(2)] by blast
      have "reclaim_walk fuel cell cap (nslots c) (gsp c) (pred_of ps) (hd_or (i # ys) NO_SPAN) h taken = Some (h3, taken @ T)"
        using f(1) True lf(5) nx b(1) nf 3(1) by simp
      moreover have "walked c h h3 ls3 T" using walked_trans [OF w1 3(2)] by simp
      moreover have "length taken + length T < cap \<longrightarrow> set T = {j\<in>set (i # ys). span_slots j (nslots c) \<subseteq> ubits h}"
        using 3(6) b(5) nf by auto
      ultimately show ?thesis using 3(3-5,7) by (intro exI [of _ h3] exI [of _ ls3] exI [of _ T]) auto
    qed
  qed
qed


text \<open>Filing the retired groups with the free-run index.\<close>

lemma large_pool_owner:
  assumes "free_spans p = free_spans (la_pool la) \<union> {i..<i + n}" "{i..<i + n} \<inter> free_spans (la_pool la) = {}"
  shows "pool_owner (la\<lparr>la_pool := p\<rparr>) s = pool_owner la s + in_run i n s"
  using assms by (auto simp: pool_owner_def in_run_def)

lemma file_runs_ok:
  assumes "hinv h ls" "own1 h" "\<forall>s. owners h s + transit c T s = (if s < carved h then 1 else 0)" "small_class c"
  shows "\<exists>la. file_runs (gsp c) T h = Some (h\<lparr>large := la\<rparr>) \<and> hinv (h\<lparr>large := la\<rparr>) ls \<and> sinv (h\<lparr>large := la\<rparr>) \<and>
    live_objs (h\<lparr>large := la\<rparr>) = live_objs h \<and> run_spans la = run_spans (large h) \<and>
    free_spans (la_pool la) = free_spans (la_pool (large h)) \<union> (\<Union>i\<in>set T. {i..<i + gsp c})"
  using assms
proof (induction T arbitrary: h)
  case Nil
  then have "sinv h" by (simp add: own1_def sinv_def spans_ok_def transit_def)
  then show ?case using Nil by (intro exI [of _ "large h"]) simp
next
  case (Cons i T)
  have g: "geom h" using hinv_parts(1) [OF Cons.prems(1)] .
  have ao: "arena_ok h" using Cons.prems(2) by (simp add: own1_def)
  have pi: "pool_inv (la_pool (large h))" "num_spans (la_pool (large h)) = nsp h" "arena_base (large h) = hbase h"
    using ao by (simp_all add: arena_ok_def)
  have n: "0 < gsp c" using gsp_bounds [OF Cons.prems(4)] by simp
  have sp: "s < carved h \<and> s \<notin> free_spans (la_pool (large h))" if "i \<le> s" "s < i + gsp c" for s
  proof -
    have "1 \<le> transit c (i # T) s" using that by (simp add: transit_def in_run_def)
    then show ?thesis using Cons.prems(3) [rule_format, of s] by (auto simp: owners_def pool_owner_def split: if_splits)
  qed
  have "i + gsp c - 1 < carved h" using sp [of "i + gsp c - 1"] n by auto
  then have fit: "i + gsp c \<le> nsp h" "i < nsp h" using carved_le [OF ao] n by linarith+
  have dj: "{i..<i + gsp c} \<inter> free_spans (la_pool (large h)) = {}" using sp by auto
  obtain p where p: "pool_free (la_pool (large h)) i (gsp c) = Some p" "pool_inv p" "num_spans p = nsp h"
    "free_spans p = free_spans (la_pool (large h)) \<union> {i..<i + gsp c}"
    using sp.ix_free_law [OF pi(1) n] fit pi(2) dj by metis
  let ?la = "(large h)\<lparr>la_pool := p\<rparr>"
  define h1 where h1: "h1 = h\<lparr>large := ?la\<rparr>"
  note k = large_only_hinv [OF Cons.prems(1) h1]
  have o: "owners h1 s = owners h s + in_run i (gsp c) s" for s
    unfolding owners_def k(5) using large_pool_owner [OF p(4) dj, of s] by (simp add: h1 run_owners_def)
  have cv: "carved h1 = carved h" by (simp add: h1 carved_def)
  have t1: "\<forall>s. owners h1 s + transit c T s = (if s < carved h1 then 1 else 0)"
    using Cons.prems(3) unfolding o cv by (simp add: transit_def add.assoc)
  have "tags_ok h1 = tags_ok h" by (rule tags_large) (simp_all add: h1)
  then have "arena_ok h1" using ao p(2,3) by (simp add: arena_ok_def h1 nsp_def carved_def)
  moreover have "owners h1 s \<le> (if s < carved h1 then 1 else 0)" for s using t1 by (metis le_add1)
  ultimately have o1: "own1 h1" by (simp add: own1_def)
  obtain la where la: "file_runs (gsp c) T h1 = Some (h1\<lparr>large := la\<rparr>)" "hinv (h1\<lparr>large := la\<rparr>) ls" "sinv (h1\<lparr>large := la\<rparr>)"
    "live_objs (h1\<lparr>large := la\<rparr>) = live_objs h1" "run_spans la = run_spans (large h1)"
    "free_spans (la_pool la) = free_spans (la_pool (large h1)) \<union> (\<Union>i\<in>set T. {i..<i + gsp c})"
    using Cons.IH [OF k(1) o1 t1 Cons.prems(4)] by blast
  have idx: "as_u32 (span_index (large h) (span_base (span_bm h) i)) = i"
  proof -
    have "span_base (span_bm h) i = hbase h + i * 65536" using span_lookup(3) [OF g fit(2)] .
    moreover have "hbase h + i * 65536 < 2 ^ 64" "i < 2 ^ 32" using g fit(2) mult_le_mono1 [of i "nsp h" 65536] by (auto simp: geom_def)
    ultimately show ?thesis using pi(3) by (simp add: span_index_def as_u32_small)
  qed
  have "file_runs (gsp c) (i # T) h = Some (h\<lparr>large := la\<rparr>)" using la(1) p(1) idx by (simp add: h1)
  moreover have "free_spans (la_pool la) = free_spans (la_pool (large h)) \<union> (\<Union>j\<in>set (i # T). {j..<j + gsp c})"
    using la(6) p(4) by (auto simp: h1)
  ultimately show ?case using la k(2) by (intro exI [of _ la]) (simp add: h1)
qed


lemma clock_hinv:
  assumes "hinv h ls"
  shows "hinv (h\<lparr>clock := t\<rparr>) ls" "same_map h (h\<lparr>clock := t\<rparr>)" "live_objs (h\<lparr>clock := t\<rparr>) = live_objs h"
proof -
  show m: "same_map h (h\<lparr>clock := t\<rparr>)" by (simp add: same_map_def)
  note e = same_map_eqs [OF m]
  have u: "ubits (h\<lparr>clock := t\<rparr>) = ubits h" by (simp add: ubits_def)
  have hd: "held (h\<lparr>clock := t\<rparr>) = held h" unfolding held_def e u by simp
  have "geom (h\<lparr>clock := t\<rparr>)" using hinv_parts(1) [OF assms] e by (simp add: geom_def)
  moreover have "bits_ok (h\<lparr>clock := t\<rparr>)" using hinv_parts(3) [OF assms] unfolding bits_ok_def e u by simp
  ultimately show "hinv (h\<lparr>clock := t\<rparr>) ls" using hinv_step [OF assms m] hinv_parts(4) [OF assms] unfolding held_ok_def hd by blast
  show "live_objs (h\<lparr>clock := t\<rparr>) = live_objs h" unfolding live_objs_def hd e by simp
qed

definition reclaimed :: "sub_heap \<Rightarrow> sub_heap \<Rightarrow> nat \<Rightarrow> bool" where
  "reclaimed h h' n \<longleftrightarrow> heap_inv h' \<and> live_objs h' = live_objs h \<and> nsp h' = nsp h \<and> hbase h' = hbase h \<and> counters h' = counters h \<and>
     num_shards h' = num_shards h \<and> run_spans (large h') = run_spans (large h) \<and> nlisted h' + n = nlisted h \<and> budget_bytes h' = budget_bytes h \<and>
     free_spans (la_pool (large h)) \<subseteq> free_spans (la_pool (large h')) \<and> fulls h' \<subseteq> fulls h \<and> card (fulls h') + n = card (fulls h)"

lemma reclaimed_trans: "reclaimed a b m \<Longrightarrow> reclaimed b c n \<Longrightarrow> reclaimed a c (m + n)"
  unfolding reclaimed_def by auto

text \<open>With the active lists \<open>ls\<close> and \<open>ls'\<close>: a sweep only takes spans off the lists; the lists in \<open>C\<close> keep no empty span.\<close>

definition cleared :: "sub_heap \<Rightarrow> (nat \<Rightarrow> nat list) \<Rightarrow> sub_heap \<Rightarrow> (nat \<Rightarrow> nat list) \<Rightarrow> nat set \<Rightarrow> bool" where
  "cleared h ls h' ls' C \<longleftrightarrow> hinv h' ls' \<and> (\<forall>d. set (ls' d) \<subseteq> set (ls d)) \<and> fulls h' \<subseteq> fulls h \<and> (\<forall>cell\<in>C. fulls h' \<inter> set (ls' cell) = {})"

lemma cleared_trans: "cleared h ls h1 ls1 C \<Longrightarrow> cleared h1 ls1 h2 ls2 D \<Longrightarrow> cleared h ls h2 ls2 (C \<union> D)"
  unfolding cleared_def by (intro conjI ballI allI; blast)

definition free_of_locks :: "ctx \<Rightarrow> nat \<Rightarrow> bool" where
  "free_of_locks x cap \<longleftrightarrow> cap \<le> 32 \<and> (\<forall>t. \<not> cell_busy x t)"

lemma reclaim_cell_small:
  assumes c: "small_class c"
  shows "reclaim_cell x h sh c cap = (if cap = 0 then Some (h, 0) else do {
     cell \<leftarrow> central_index h sh c;
     cl \<leftarrow> idx (central_lists h) cell;
     if cell_busy x (clock h) then Some (h\<lparr>clock := Suc (clock h)\<rparr>, 0)
     else do {
       (h1, taken) \<leftarrow> reclaim_walk (walk_fuel (span_bm h)) cell (min cap 32) (nslots c) (gsp c) NO_SPAN (cl_head cl) (h\<lparr>clock := Suc (clock h)\<rparr>) [];
       if taken = [] then Some (h1, 0) else do { h2 \<leftarrow> file_runs (gsp c) taken h1; Some (h2, length taken) }
     }
   })"
proof -
  have osz: "CLASS_SIZES ! c \<noteq> 0" using osz_pos [OF c] by simp
  have gs: "as_u32 (max (div_ceil (CLASS_SIZES ! c) SPAN_BYTES) 1) = gsp c" using gsp_bounds [OF c] by (simp add: gsp_def max_def as_u32_small)
  show ?thesis
    unfolding reclaim_cell_def size_of_small [OF c] bind.bind_lunit Let_def osz_rounded [OF c] gs nslots_def [symmetric] if_not_P [OF osz]
    by (simp cong: if_cong)
qed

lemma fulls_large [simp]: "fulls (h\<lparr>large := la\<rparr>) = fulls h"
  by (simp add: fulls_def listed_def class_at_def ubits_def nsp_def)

lemma cleared_refl: "hinv h ls \<Longrightarrow> cleared h ls h ls {}"
  by (simp add: cleared_def)

definition if_clear :: "bool \<Rightarrow> sub_heap \<Rightarrow> nat \<Rightarrow> nat \<Rightarrow> nat set" where
  "if_clear b h sh c = (if b then {cell. central_index h sh c = Some cell} else {})"

text \<open>A walk that ends before its cap has retired every empty span of its list.\<close>

lemma walked_cleared:
  assumes k: "hinv h ls" and w: "walked c h h' ls' T" and s: "\<forall>d. set (ls' d) \<subseteq> set (ls d)"
    and cell: "cell < length (central_lists h)" "cell mod NUM_CLASSES = c"
    and t: "b \<longrightarrow> set T = {i\<in>set (ls cell). span_slots i (nslots c) \<subseteq> ubits h}"
  shows "cleared h ls h' ls' (if b then {cell} else {})"
proof -
  have "fulls h' \<inter> set (ls' cell) = {}" if b
  proof -
    have "class_at h i = c" if "i \<in> set (ls cell)" for i
      using k cell that unfolding hinv_def lists_ok_def by blast
    then have "fulls h \<inter> set (ls cell) \<subseteq> set T" using t \<open>b\<close> by (auto simp: fulls_def)
    then show ?thesis using w s by (auto simp: walked_def)
  qed
  then show ?thesis using w s by (auto simp: cleared_def walked_def)
qed

lemma reclaim_cell_ok:
  assumes h: "hinv h ls" "sinv h" and c: "small_class c"
  shows "\<exists>h' n ls'. reclaim_cell x h sh c cap = Some (h', n) \<and> reclaimed h h' n \<and> n \<le> cap \<and> n \<le> 32 \<and>
    cleared h ls h' ls' (if_clear (free_of_locks x cap \<and> n < cap) h sh c)"
proof -
  obtain cell where cell: "central_index h sh c = Some cell" "cell < length (central_lists h)" "cell mod NUM_CLASSES = c"
    using cell_of [OF hinv_parts(1) [OF h(1)] c] by blast
  define h0 where h0: "h0 = h\<lparr>clock := Suc (clock h)\<rparr>"
  note k = clock_hinv [OF h(1), of "Suc (clock h)", folded h0]
  have s0: "sinv h0" using same_map_sinv [OF k(2) h(2)] .
  have f0: "fulls h0 = fulls h" using fulls_map [OF k(2)] by (simp add: h0 ubits_def)
  have r0: "reclaimed h h0 0"
    using k s0 f0 same_map_eqs [OF k(2)] by (auto simp: reclaimed_def heap_inv_def h0 nlisted_def)
  show ?thesis
  proof (cases "cap = 0 \<or> cell_busy x (clock h)")
    case True
    have "reclaimed h h 0" using h by (auto simp: reclaimed_def heap_inv_def)
    moreover have "reclaim_cell x h sh c cap = Some (if cap = 0 then h else h0, 0)"
      using True cell by (auto simp: reclaim_cell_small [OF c] h0)
    moreover have "\<not> (free_of_locks x cap \<and> 0 < cap)" using True by (auto simp: free_of_locks_def)
    moreover have "cleared h ls h0 ls {}" using k(1) f0 by (simp add: cleared_def)
    ultimately show ?thesis using r0 cleared_refl [OF h(1)] by (auto simp: if_clear_def)
  next
    case False
    have o0: "own1 h0" using s0 by (simp add: own1_def sinv_def spans_ok_def)
    have al: "alist (next_active (span_bm h0)) (cl_head (central_lists h0 ! cell)) (ls cell) NO_SPAN" "distinct (ls cell)"
      using k(1) cell(2) unfolding hinv_def lists_ok_def by (auto simp: h0)
    have hd: "cl_head (central_lists h ! cell) = hd_or (ls cell) NO_SPAN" using al(1) by (cases "ls cell") (auto simp: h0)
    have fuel: "length (ls cell) < walk_fuel (span_bm h0)" using alist_length [OF al] by (simp add: walk_fuel_def)
    have cell0: "cell < length (central_lists h0)" using cell(2) by (simp add: h0)
    obtain h1 ls1 T where 1: "reclaim_walk (walk_fuel (span_bm h0)) cell (min cap 32) (nslots c) (gsp c) (pred_of []) (hd_or (ls cell) NO_SPAN) h0 [] = Some (h1, [] @ T)"
      "walked c h0 h1 ls1 T" "length T \<le> min cap 32 - length ([]::nat list)" "distinct T"
      "length ([]::nat list) + length T < min cap 32 \<longrightarrow> set T = {i\<in>set (ls cell). span_slots i (nslots c) \<subseteq> ubits h0}" "\<forall>d. set (ls1 d) \<subseteq> set (ls d)"
      using reclaim_walk_ok [OF k(1) o0 cell0 cell(3) c _ fuel, of "[]" "min cap 32" "[]"] by auto
    have ow: "\<forall>s. owners h1 s + transit c T s = (if s < carved h1 then 1 else 0)"
      using 1(2) s0 by (simp add: walked_def sinv_def spans_ok_def)
    have i1: "hinv h1 ls1" "own1 h1" using 1(2) by (simp_all add: walked_def)
    obtain la where la: "file_runs (gsp c) T h1 = Some (h1\<lparr>large := la\<rparr>)" "hinv (h1\<lparr>large := la\<rparr>) ls1" "sinv (h1\<lparr>large := la\<rparr>)"
      "live_objs (h1\<lparr>large := la\<rparr>) = live_objs h1" "run_spans la = run_spans (large h1)"
      "free_spans (la_pool la) = free_spans (la_pool (large h1)) \<union> (\<Union>i\<in>set T. {i..<i + gsp c})"
      using file_runs_ok [OF i1 ow c] by blast
    have cd: "set T \<subseteq> fulls h0" "fulls h1 = fulls h0 - set T" using 1(2) by (simp_all add: walked_def)
    then have "card (fulls h1) + length T = card (fulls h0)"
      using card_Un_disjoint [of "fulls h0 - set T" "set T"] distinct_card [OF 1(4)] by (simp add: Un_absorb2 Int_Diff_disjoint Int_commute)
    then have "reclaimed h0 (h1\<lparr>large := la\<rparr>) (length T)"
      using la 1(2) cd by (auto simp: reclaimed_def walked_def heap_inv_def tally_def nlisted_def listed_def nsp_def)
    then have "reclaimed h (h1\<lparr>large := la\<rparr>) (length T)" using reclaimed_trans [OF r0] by fastforce
    moreover have "file_runs (gsp c) [] h1 = Some h1" by simp
    then have "T = [] \<Longrightarrow> h1\<lparr>large := la\<rparr> = h1" using la(1) by auto
    moreover have "reclaim_cell x h sh c cap = (if T = [] then Some (h1, 0) else Some (h1\<lparr>large := la\<rparr>, length T))"
    proof -
      have w: "reclaim_walk (walk_fuel (span_bm h0)) cell (min cap 32) (nslots c) (gsp c) NO_SPAN (cl_head (central_lists h ! cell)) h0 [] = Some (h1, T)"
        using 1(1) hd by (simp add: pred_of_def)
      show ?thesis using False cell w la(1) unfolding h0 by (simp add: reclaim_cell_small [OF c])
    qed
    moreover have "cleared h0 ls h1 ls1 (if free_of_locks x cap \<and> length T < cap then {cell} else {})"
      by (rule walked_cleared [OF k(1) 1(2,6) cell0 cell(3)]) (use 1(5) in \<open>auto simp: free_of_locks_def\<close>)
    then have "cleared h ls (h1\<lparr>large := la\<rparr>) ls1 (if_clear (free_of_locks x cap \<and> length T < cap) h sh c)"
      using la(2) f0 cell(1) by (auto simp: cleared_def if_clear_def)
    ultimately show ?thesis using 1(3) by (intro exI [of _ "h1\<lparr>large := la\<rparr>"] exI [of _ "length T"] exI [of _ ls1]) auto
  qed
qed

lemma nlisted_le: "nlisted h \<le> nsp h"
proof -
  have "{i. listed h i} \<subseteq> {..<nsp h}" by (auto simp: listed_def)
  then show ?thesis unfolding nlisted_def using card_mono [of "{..<nsp h}"] by fastforce
qed

text \<open>Enough fuel: every round that goes on has retired at least one span.\<close>

lemma reclaim_repeat_ok:
  assumes "hinv h ls" "sinv h" "small_class c" "0 < cap" "nlisted h < fuel"
  shows "\<exists>h' m ls'. reclaim_repeat fuel x sh c cap h n = Some (h', n + m) \<and> reclaimed h h' m \<and> sinv h' \<and>
    cleared h ls h' ls' (if_clear (free_of_locks x cap) h sh c)"
  using assms
proof (induction fuel arbitrary: h ls n)
  case (Suc fuel)
  obtain h1 got ls1 where 1: "reclaim_cell x h sh c cap = Some (h1, got)" "reclaimed h h1 got" "got \<le> cap"
    "cleared h ls h1 ls1 (if_clear (free_of_locks x cap \<and> got < cap) h sh c)" using reclaim_cell_ok [OF Suc.prems(1-3)] by blast
  have i1: "hinv h1 ls1" "sinv h1" "num_shards h1 = num_shards h" using 1(2,4) by (auto simp: cleared_def reclaimed_def heap_inv_def)
  show ?case
  proof (cases "got < cap")
    case True
    then show ?thesis using 1 i1 by (intro exI [of _ h1] exI [of _ got] exI [of _ ls1]) simp
  next
    case False
    have "nlisted h1 < fuel" using 1(2) False Suc.prems(4,5) by (auto simp: reclaimed_def)
    then obtain h2 m ls2 where 2: "reclaim_repeat fuel x sh c cap h1 (n + got) = Some (h2, n + got + m)" "reclaimed h1 h2 m" "sinv h2"
      "cleared h1 ls1 h2 ls2 (if_clear (free_of_locks x cap) h1 sh c)"
      using Suc.IH [OF i1(1,2) Suc.prems(3,4)] by blast
    moreover have "cleared h ls h2 ls2 (if_clear (free_of_locks x cap) h sh c)"
    proof -
      have "if_clear b h1 sh c = if_clear b h sh c" for b using i1(3) by (simp add: if_clear_def central_index_def)
      then show ?thesis using cleared_trans [OF 1(4) 2(4)] False by (simp add: if_clear_def)
    qed
    ultimately show ?thesis using 1 False reclaimed_trans [OF 1(2)] by (intro exI [of _ h2] exI [of _ "got + m"] exI [of _ ls2]) simp
  qed
qed simp

lemma reclaim_cells_ok:
  assumes "hinv h ls" "sinv h" "0 < cap" "\<forall>sc\<in>set scs. small_class (snd sc)"
  shows "\<exists>h' m ls'. reclaim_cells x cap scs h n = Some (h', n + m) \<and> reclaimed h h' m \<and>
    cleared h ls h' ls' (\<Union>sc\<in>set scs. if_clear (free_of_locks x cap) h (fst sc) (snd sc))"
  using assms
proof (induction scs arbitrary: h ls n)
  case Nil
  then show ?case by (intro exI [of _ h] exI [of _ 0] exI [of _ ls]) (auto simp: reclaimed_def heap_inv_def cleared_def)
next
  case (Cons sc scs)
  have sh: "bm_shape (nsp h) (span_bm h)" using Cons.prems(1) by (auto simp: hinv_def geom_def)
  have "nlisted h < walk_fuel (span_bm h)" using nlisted_le [of h] sh by (simp add: walk_fuel_def bm_shape_def)
  moreover have "small_class (snd sc)" using Cons.prems(4) by simp
  ultimately obtain h1 m ls1 where 1: "reclaim_repeat (walk_fuel (span_bm h)) x (fst sc) (snd sc) cap h n = Some (h1, n + m)" "reclaimed h h1 m"
    "sinv h1" "cleared h ls h1 ls1 (if_clear (free_of_locks x cap) h (fst sc) (snd sc))"
    using reclaim_repeat_ok [OF Cons.prems(1,2) _ Cons.prems(3)] by blast
  have i1: "hinv h1 ls1" "num_shards h1 = num_shards h" using 1(2,4) by (simp_all add: cleared_def reclaimed_def)
  have ic: "if_clear b h1 = if_clear b h" for b using i1(2) by (simp add: if_clear_def central_index_def fun_eq_iff)
  obtain h2 k ls2 where 2: "reclaim_cells x cap scs h1 (n + m) = Some (h2, n + m + k)" "reclaimed h1 h2 k"
    "cleared h1 ls1 h2 ls2 (\<Union>sc\<in>set scs. if_clear (free_of_locks x cap) h1 (fst sc) (snd sc))"
    using Cons.IH [OF i1(1) 1(3) Cons.prems(3), of "n + m"] Cons.prems(4) by auto
  then show ?case using 1 reclaimed_trans [OF 1(2)] cleared_trans [OF 1(4) 2(3)] unfolding ic
    by (intro exI [of _ h2] exI [of _ "m + k"] exI [of _ ls2]) simp
qed

text \<open>
  The whole sweep retires exactly as many empty spans as it reports; when it finds no list locked
  by another thread, it leaves none.
\<close>

lemma reclaim_empty_spans_ok:
  assumes "heap_inv h"
  shows "\<exists>h' m. reclaim_empty_spans x h cap = Some (h', m) \<and> reclaimed h h' m \<and> (free_of_locks x cap \<longrightarrow> fulls h' = {})"
proof -
  let ?scs = "List.product [0..<num_shards h] [1..<NUM_CLASSES]"
  obtain ls where h: "hinv h ls" "sinv h" using assms by (auto simp: heap_inv_def)
  have sc: "\<forall>sc\<in>set ?scs. small_class (snd sc)" "0 < max cap 1" by (auto simp: small_class_def)
  obtain h' m ls' where r: "reclaim_cells x (max cap 1) ?scs h 0 = Some (h', 0 + m)" "reclaimed h h' m"
    "cleared h ls h' ls' (\<Union>sc\<in>set ?scs. if_clear (free_of_locks x (max cap 1)) h (fst sc) (snd sc))"
    using reclaim_cells_ok [OF h sc(2,1), of x 0] by blast
  have "i \<notin> fulls h'" if fl: "free_of_locks x cap" for i
  proof
    assume i: "i \<in> fulls h'"
    have k: "hinv h' ls'" using r(3) by (simp add: cleared_def)
    obtain j where j: "j < length (central_lists h')" "i \<in> set (ls' j)" "small_class (class_at h' i)"
      using hinv_parts(2) [OF k] i unfolding lists_ok_def fulls_def by blast
    have cl: "class_at h' i = j mod 49" using k j unfolding hinv_def lists_ok_def by auto
    have ns: "num_shards h' = num_shards h" "length (central_lists h') = num_shards h' * 49" using r(2) hinv_parts(1) [OF k] by (auto simp: reclaimed_def geom_def)
    have sh: "j div 49 < num_shards h" "j mod 49 \<noteq> 0" using j(1,3) ns cl by (auto simp: less_mult_imp_div_less small_class_def)
    then have "(j div 49, j mod 49) \<in> set ?scs" "central_index h (j div 49) (j mod 49) = Some j" by (auto simp: central_index_def)
    moreover have "free_of_locks x (max cap 1)" using fl by (simp add: free_of_locks_def)
    ultimately have "j \<in> (\<Union>sc\<in>set ?scs. if_clear (free_of_locks x (max cap 1)) h (fst sc) (snd sc))"
      by (intro UN_I [of "(j div 49, j mod 49)"]) (simp_all add: if_clear_def)
    then show False using r(3) i j(2) unfolding cleared_def by blast
  qed
  then show ?thesis using r(1,2) unfolding reclaim_empty_spans_def by fastforce
qed

end
