(* ===== verification/Sub_Heap_Correct.thy ===== *)
theory Sub_Heap_Correct
  imports Sub_Heap_Reclaim
begin

text \<open>
  The sub-heap as a whole: supervisor operations on a stack, the state that \<open>build_at\<close> constructs,
  live blocks and their separation, the live counters, histories of operations (\<open>heap_step\<close>)
  and the abstract allocator they refine.
\<close>

subsection \<open>Supervisor operations on a stack\<close>

lemma steal_one:
  assumes h: "hinv h ls" "sinv h" and c: "small_class c" and cpu: "cpu < num_cpus (sh_slab h)"
    and cur: "0 < current (stacks (sh_slab h) ! cpu ! c)"
  defines "st \<equiv> stacks (sh_slab h) ! cpu ! c"
  defines "sl \<equiv> set_stack (sh_slab h) cpu c (st\<lparr>current := current st - 1\<rparr>)"
  shows "\<exists>h2. get_stack (sh_slab h) cpu c = Some st \<and> idx (slots st) (current st - 1) = Some (slots st ! (current st - 1)) \<and>
    put_stack (sh_slab h) cpu c (st\<lparr>current := current st - 1\<rparr>) = Some sl \<and> slots st ! (current st - 1) \<noteq> 0 \<and>
    central_deposit (CLASS_SIZES ! c) (slots st ! (current st - 1)) (h\<lparr>sh_slab := sl\<rparr>) = Some h2 \<and>
    hinv h2 ls \<and> sinv h2 \<and> same_map h h2 \<and> live_objs h2 c = live_objs h c \<and> sh_slab h2 = sl \<and> counters h2 = counters h \<and>
    (\<forall>d. small_class d \<and> d \<noteq> c \<longrightarrow> live_objs h2 d = live_objs h d)"
proof -
  note g = hinv_parts(1) [OF h(1)]
  have slinv: "slab_inv NUM_CLASSES (sh_slab h)" using g by (simp add: geom_def)
  have cc: "c < NUM_CLASSES" using c by (simp add: small_class_def)
  note sg = slab_get [OF slinv cpu cc, folded st_def]
  have cur': "0 < current st" using cur by (simp add: st_def)
  have ok: "cstack_ok st" using sg by blast
  note cp = contents_pop [OF ok cur']
  note pt = slab_put [OF slinv cpu cc cp(3), folded sl_def st_def]
  let ?p = "slots st ! (current st - 1)"
  have objs: "class_objs (sh_slab h) c = add_mset ?p (class_objs sl c)" using pt(3) cp(4) by simp
  let ?h1 = "h\<lparr>sh_slab := sl\<rparr>"
  have m: "same_map h ?h1" by (simp add: same_map_def)
  note e = same_map_eqs [OF m]
  have u: "ubits ?h1 = ubits h" by (simp add: ubits_def)
  have hc: "held h c = add_mset ?p (held ?h1 c)" unfolding held_def e u using objs by simp
  have hd: "held ?h1 d = held h d" if "d \<noteq> c" for d unfolding held_def e u using pt(4) [OF that] by simp
  have sub: "held ?h1 d \<subseteq># all_objs h d" if "small_class d" for d
    using hinv_parts(4) [OF h(1)] that hc hd [of d] unfolding held_ok_def
    by (cases "d = c") (auto, metis mset_subset_eq_insertD subset_mset.less_imp_le)
  have "geom ?h1" using g pt(2) e by (simp add: geom_def)
  moreover have "bits_ok ?h1" using hinv_parts(3) [OF h(1)] unfolding bits_ok_def e u by simp
  ultimately have i1: "hinv ?h1 ls" using hinv_step [OF h(1) m] sub by blast
  have s1: "sinv ?h1" using same_map_sinv [OF m h(2)] .
  have l1: "live_objs ?h1 c = add_mset ?p (live_objs h c)" using same_map_live [OF h(1) i1 m c, of "{#?p#}"] hc by simp
  have ld: "live_objs ?h1 d = live_objs h d" if "small_class d" "d \<noteq> c" for d
    using same_map_live [OF h(1) i1 m that(1), of "{#}"] hd that by simp
  have "?p \<in># live_objs ?h1 c" using l1 by simp
  then have p1: "?p \<in># all_objs ?h1 c" "?p \<notin># held ?h1 c" using live_obj [OF i1 c] by blast+
  obtain h2 where h2: "central_deposit (CLASS_SIZES ! c) ?p ?h1 = Some h2" "hinv h2 ls" "same_map ?h1 h2" "sh_slab h2 = sh_slab ?h1"
    "counters h2 = counters ?h1" "held h2 c = add_mset ?p (held ?h1 c)" "\<forall>d. small_class d \<and> d \<noteq> c \<longrightarrow> held h2 d = held ?h1 d"
    using central_deposit_ok [OF i1 c p1] by blast
  have b: "live_objs ?h1 c = add_mset ?p (live_objs h2 c)" using back_live [OF i1 h2(2,3) c, of "{#?p#}"] h2(6) by simp
  have "live_objs h2 d = live_objs ?h1 d" if "small_class d" "d \<noteq> c" for d
    using same_map_live [OF i1 h2(2,3) that(1), of "{#}"] h2(7) that by simp
  then show ?thesis using sg cp(1,2) pt(1) h2 same_map_trans [OF m h2(3)] same_map_sinv [OF h2(3) s1] b l1 ld
    by (intro exI [of _ h2]) auto
qed

lemma rebalance_loop_ok:
  assumes "hinv h ls" "sinv h" "small_class c" "cpu < num_cpus (sh_slab h)" "k \<le> current (stacks (sh_slab h) ! cpu ! c)"
    "current (stacks (sh_slab h) ! cpu ! c) < 2 ^ 32"
  shows "\<exists>h'. rebalance_loop cpu c (CLASS_SIZES ! c) k h = Some h' \<and> hinv h' ls \<and> sinv h' \<and> same_map h h' \<and> counters h' = counters h \<and>
    (\<forall>d. small_class d \<longrightarrow> live_objs h' d = live_objs h d) \<and>
    sh_slab h' = set_stack (sh_slab h) cpu c ((stacks (sh_slab h) ! cpu ! c)\<lparr>current := current (stacks (sh_slab h) ! cpu ! c) - k\<rparr>)"
  using assms
proof (induction k arbitrary: h)
  case (Suc k)
  let ?st = "stacks (sh_slab h) ! cpu ! c"
  let ?sl = "set_stack (sh_slab h) cpu c (?st\<lparr>current := current ?st - 1\<rparr>)"
  have cur: "0 < current ?st" using Suc.prems(5) by simp
  obtain h2 where h2: "get_stack (sh_slab h) cpu c = Some ?st" "idx (slots ?st) (current ?st - 1) = Some (slots ?st ! (current ?st - 1))"
    "put_stack (sh_slab h) cpu c (?st\<lparr>current := current ?st - 1\<rparr>) = Some ?sl" "slots ?st ! (current ?st - 1) \<noteq> 0"
    "central_deposit (CLASS_SIZES ! c) (slots ?st ! (current ?st - 1)) (h\<lparr>sh_slab := ?sl\<rparr>) = Some h2"
    "hinv h2 ls" "sinv h2" "same_map h h2" "live_objs h2 c = live_objs h c" "sh_slab h2 = ?sl" "counters h2 = counters h"
    "\<forall>d. small_class d \<and> d \<noteq> c \<longrightarrow> live_objs h2 d = live_objs h d"
    using steal_one [OF Suc.prems(1-4) cur] by blast
  have sl: "slab_inv NUM_CLASSES (sh_slab h)" using hinv_parts(1) [OF Suc.prems(1)] by (simp add: geom_def)
  have len: "length (stacks (sh_slab h) ! cpu) = NUM_CLASSES" "cpu < length (stacks (sh_slab h))" "c < NUM_CLASSES"
    using slab_get [OF sl Suc.prems(4), of c] Suc.prems(3,4) sl by (auto simp: small_class_def slab_inv_def)
  then have st2: "stacks (sh_slab h2) ! cpu ! c = ?st\<lparr>current := current ?st - 1\<rparr>" unfolding h2(10) by (simp add: set_stack_def)
  have n2: "num_cpus (sh_slab h2) = num_cpus (sh_slab h)" unfolding h2(10) by (simp add: set_stack_def)
  obtain h' where h': "rebalance_loop cpu c (CLASS_SIZES ! c) k h2 = Some h'" "hinv h' ls" "sinv h'" "same_map h2 h'" "counters h' = counters h2"
    "\<forall>d. small_class d \<longrightarrow> live_objs h' d = live_objs h2 d"
    "sh_slab h' = set_stack (sh_slab h2) cpu c ((stacks (sh_slab h2) ! cpu ! c)\<lparr>current := current (stacks (sh_slab h2) ! cpu ! c) - k\<rparr>)"
    using Suc.IH [OF h2(6,7) Suc.prems(3)] Suc.prems(4-6) st2 n2 by fastforce
  have s32: "sub32 (current ?st) 1 = current ?st - 1" using cur Suc.prems(6) by simp
  have "live_objs h' d = live_objs h d" if "small_class d" for d using h'(6) h2(9,12) that by (cases "d = c") auto
  moreover have "sh_slab h' = set_stack (sh_slab h) cpu c (?st\<lparr>current := current ?st - Suc k\<rparr>)"
    unfolding h'(7) st2 unfolding h2(10) using len by (simp add: set_stack_def)
  ultimately show ?case using h2(1-5,11) s32 h' same_map_trans [OF h2(8) h'(4)] by (intro exI [of _ h']) simp
qed (auto simp: set_stack_def)

text \<open>The objects of a class whose free bits are set.\<close>

definition parked :: "sub_heap \<Rightarrow> nat \<Rightarrow> nat multiset" where
  "parked h c = image_mset (addr (hbase h) c) (mset_set (ubits h \<inter> tiles h c))"

lemma parked_moved:
  assumes "hinv h ls" "hinv h' ls'" "same_map h h'" "small_class c" "live_objs h' c = live_objs h c"
    "class_objs (sh_slab h) c = M + class_objs (sh_slab h') c"
  shows "parked h' c = M + parked h c"
proof -
  have "held h' c = held h c"
    using live_held [OF assms(1,4)] live_held [OF assms(2,4)] assms(5) same_map_eqs(5) [OF assms(3)] by (metis add_left_imp_eq all_objs_def same_map_eqs(2,6) [OF assms(3)])
  then show ?thesis using assms(6) by (simp add: held_def parked_def ac_simps)
qed

definition popped :: "cstack \<Rightarrow> nat \<Rightarrow> nat list" where
  "popped st k = drop (current st - k) (contents st)"

lemma contents_popped:
  assumes "cstack_ok st" "k \<le> current st"
  shows "cstack_ok (st\<lparr>current := current st - k\<rparr>)" "contents (st\<lparr>current := current st - k\<rparr>) @ popped st k = contents st"
    "length (popped st k) = k"
proof -
  have e: "contents (st\<lparr>current := current st - k\<rparr>) = take (current st - k) (contents st)" by (simp add: contents_def)
  then show "contents (st\<lparr>current := current st - k\<rparr>) @ popped st k = contents st" by (simp add: popped_def)
  show "cstack_ok (st\<lparr>current := current st - k\<rparr>)" using assms(1) set_take_subset unfolding cstack_ok_def e by fastforce
  show "length (popped st k) = k" using assms by (simp add: popped_def contents_def cstack_ok_def)
qed

text \<open>
  Rebalancing takes exactly the top \<open>min n current\<close> objects of the stack of the CPU and the class;
  these, and nothing else, are added to the objects with a free bit.
\<close>

lemma rebalance_capacity_ok:
  fixes n :: nat
  assumes hi: "heap_inv h" and c: "small_class c" and cpu: "cpu < num_cpus (sh_slab h)"
    and cur: "current (stacks (sh_slab h) ! cpu ! c) < 2 ^ 32"
  defines "st \<equiv> stacks (sh_slab h) ! cpu ! c"
  defines "m \<equiv> min n (current st)"
  shows "\<exists>h'. rebalance_capacity h cpu c n = Some (h', m) \<and> heap_inv h' \<and> same_frame h h' \<and>
    counters h' = counters h \<and> (\<forall>d. small_class d \<longrightarrow> live_objs h' d = live_objs h d) \<and>
    sh_slab h' = set_stack (sh_slab h) cpu c (st\<lparr>current := current st - m\<rparr>) \<and>
    (\<forall>d. small_class d \<longrightarrow> parked h' d = (if d = c then mset (popped st m) else {#}) + parked h d)"
proof -
  obtain ls where h: "hinv h ls" "sinv h" using hi by (auto simp: heap_inv_def)
  have sl: "slab_inv NUM_CLASSES (sh_slab h)" using hinv_parts(1) [OF h(1)] by (simp add: geom_def)
  have cc: "c < NUM_CLASSES" using c by (simp add: small_class_def)
  have gs: "get_stack (sh_slab h) cpu c = Some st" "cstack_ok st" using slab_get [OF sl cpu cc] by (simp_all add: st_def)
  have m: "m \<le> current st" by (simp add: m_def)
  obtain h' where h': "rebalance_loop cpu c (CLASS_SIZES ! c) m h = Some h'" "hinv h' ls" "sinv h'" "same_map h h'" "counters h' = counters h"
    "\<forall>d. small_class d \<longrightarrow> live_objs h' d = live_objs h d" "sh_slab h' = set_stack (sh_slab h) cpu c (st\<lparr>current := current st - m\<rparr>)"
    using rebalance_loop_ok [OF h c cpu _ cur, of m] m by (auto simp: st_def)
  have f: "same_frame h h'" using same_map_eqs [OF h'(4)] h'(7) by (simp add: same_frame_def set_stack_def)
  note cp = contents_popped [OF gs(2) m]
  note pt = slab_put [OF sl cpu cc cp(1)]
  have "mset (contents st) = mset (contents (st\<lparr>current := current st - m\<rparr>)) + mset (popped st m)" using cp(2) by (metis mset_append)
  then have "class_objs (sh_slab h) c = mset (popped st m) + class_objs (sh_slab h') c" using pt(3) unfolding h'(7) st_def [symmetric] by (simp add: ac_simps)
  then have "class_objs (sh_slab h) d = (if d = c then mset (popped st m) else {#}) + class_objs (sh_slab h') d" for d
    using pt(4) [of d] unfolding h'(7) by simp
  then have pk: "parked h' d = (if d = c then mset (popped st m) else {#}) + parked h d" if "small_class d" for d
    using parked_moved [OF h(1) h'(2,4) that] h'(6) that by blast
  show ?thesis
  proof (cases "m = 0")
    case True
    then have "rebalance_capacity h cpu c n = Some (h, 0)" using gs(1) by (simp add: rebalance_capacity_def m_def)
    then show ?thesis using True h' f pk by (auto simp: heap_inv_def)
  next
    case False
    then have "rebalance_capacity h cpu c n = Some (h', m)" using gs(1) h'(1) c by (auto simp: rebalance_capacity_def Let_def min_def m_def)
    then show ?thesis using h' f pk by (auto simp: heap_inv_def)
  qed
qed

subsection \<open>Construction\<close>

lemma class_locs_some: "\<forall>c\<in>set cs. c < NUM_CLASSES \<Longrightarrow> \<exists>r. class_locs cap cs off = Some r"
proof (induction cs arbitrary: off)
  case (Cons c cs)
  obtain k where k: "cap_for_class c cap = Some k" using Cons.prems by (auto simp: cap_for_class_def size_of_class_def)
  obtain r where "class_locs cap cs (off + k * 8) = Some r" using Cons.IH [of "off + k * 8"] Cons.prems by auto
  then show ?case using k by (cases r) simp
qed simp

lemma slab_row_ok:
  "\<forall>c\<in>set cs. c < NUM_CLASSES \<Longrightarrow> \<exists>row. slab_row cap cs = Some row \<and> length row = length cs \<and>
    (\<forall>s\<in>set row. cstack_ok s \<and> contents s = [])"
proof (induction cs)
  case (Cons c cs)
  obtain k where k: "cap_for_class c cap = Some k" using Cons.prems by (auto simp: cap_for_class_def size_of_class_def)
  obtain row where r: "slab_row cap cs = Some row" "length row = length cs" "\<forall>s\<in>set row. cstack_ok s \<and> contents s = []" using Cons by auto
  then show ?case using k by (simp add: cstack_ok_def contents_def)
qed simp

lemma slab_row_empty:
  "\<forall>c\<in>set cs. c < NUM_CLASSES \<Longrightarrow> \<exists>row. slab_row cap cs = Some row \<and> length row = length cs \<and> (\<forall>s\<in>set row. current s = 0)"
proof (induction cs)
  case (Cons c cs)
  obtain k where k: "cap_for_class c cap = Some k" using Cons.prems by (auto simp: cap_for_class_def size_of_class_def)
  obtain row where "slab_row cap cs = Some row" "length row = length cs" "\<forall>s\<in>set row. current s = 0" using Cons by auto
  then show ?case using k by simp
qed simp

definition build_ok :: "builder \<Rightarrow> nat \<Rightarrow> bool" where
  "build_ok bl base \<longleftrightarrow> 0 < base \<and> 0 < b_num_cpus bl \<and> b_num_cpus bl < U32_MAX \<and> 0 < b_budget bl \<and> b_num_shards bl \<noteq> Some 0 \<and>
     (\<forall>locs bytes. block_layout (b_cap_per_class bl) = Some (locs, bytes) \<longrightarrow>
        base + stride_for bytes * b_num_cpus bl + div_ceil (b_budget bl) SPAN_BYTES * SPAN_BYTES < 2 ^ 64) \<and>
     div_ceil (b_budget bl) SPAN_BYTES < 2 ^ 32 - 1"

lemma shard_count_pos: "b_num_shards bl \<noteq> Some 0 \<Longrightarrow> 0 < shard_count bl"
  by (cases "b_num_shards bl") (simp_all add: shard_count_def MAX_SHARDS_def U16_MAX_def)

lemma build_at_ok:
  assumes b: "build_ok bl base"
  shows "\<exists>h. build_at bl base = Some h \<and> heap_inv h \<and> (\<forall>c. live_objs h c = {#}) \<and> (\<forall>s. run_spans (large h) ! s = 0 \<or> nsp h \<le> s) \<and>
    bsum h = 0 \<and> osum h = 0 \<and> budget_bytes h = b_budget bl \<and> run_spans (large h) = replicate (nsp h) 0 \<and> avail h = b_budget bl div SPAN_BYTES"
proof -
  obtain locs bytes where lay: "block_layout (b_cap_per_class bl) = Some (locs, bytes)"
    using class_locs_some [of "[0..<NUM_CLASSES]"] unfolding block_layout_def by fastforce
  obtain row where row: "slab_row (b_cap_per_class bl) [0..<NUM_CLASSES] = Some row" "length row = NUM_CLASSES"
    "\<forall>s\<in>set row. cstack_ok s \<and> contents s = []"
    using slab_row_ok [of "[0..<NUM_CLASSES]" "b_cap_per_class bl"] by auto
  let ?ab = "base + stride_for bytes * b_num_cpus bl" and ?n = "div_ceil (b_budget bl) SPAN_BYTES"
  have n: "0 < ?n" "?n < 2 ^ 32 - 1" "?ab + ?n * 65536 < 2 ^ 64" using b lay div_ceil_pos [of "b_budget bl" 65536] by (auto simp: build_ok_def)
  have mx: "max ?n 1 = ?n" using n(1) by simp
  obtain h where h: "build_at bl base = Some h" using lay row(1) by (force simp: build_at_def Let_def)
  then have e: "sh_slab h = \<lparr> num_cpus = b_num_cpus bl, stacks = replicate (b_num_cpus bl) row, stopped = replicate (max (b_num_cpus bl) 1) False \<rparr>"
    "central_lists h = replicate (shard_count bl * NUM_CLASSES) \<lparr> cl_head = NO_SPAN, reuse_hint = NO_SPAN \<rparr>"
    "span_bm h = bitmaps_new ?ab (b_budget bl)" "num_shards h = shard_count bl"
    "arena h = \<lparr> cursor = ?ab, ar_end = ?ab + b_budget bl, ar_base = ?ab \<rparr>" "span_tab h = table_new ?ab (b_budget bl)"
    "large h = large_new ?ab (b_budget bl)" "budget_bytes h = b_budget bl" "counters h = counters_new (b_num_cpus bl)"
    using lay row(1) by (auto simp: build_at_def Let_def)
  have ns: "nsp h = ?n" "hbase h = ?ab" by (simp_all add: nsp_def e bitmaps_new_def Let_def)
  have bud: "b_budget bl \<le> ?n * 65536" using div_ceil_mult_ge [of 65536 "b_budget bl"] by simp
  have sl: "slab_inv NUM_CLASSES (sh_slab h)" using b row by (simp add: slab_inv_def e build_ok_def)
  have "counters_new (b_num_cpus bl) \<noteq> []" by (simp add: counters_new_def)
  then have g: "geom h"
    using b sl n bud shard_count_pos [of bl] bitmaps_new_shape [of "b_budget bl" ?ab] table_new_shape [of ?ab "b_budget bl"]
    unfolding geom_def ns by (auto simp: e build_ok_def table_new_def)
  have un: "\<not> listed h i" for i by (simp add: listed_def ns(1)) (simp add: e bitmaps_new_def Let_def)
  have ti: "tiles h c = {}" for c using un by (simp add: tiles_def)
  have ub: "ubits h = {}" using bitmaps_new_shape [of "b_budget bl" ?ab] by (simp add: ubits_def e)
  have z: "sum_list (replicate k ({#} :: nat multiset)) = {#}" for k by (induction k) auto
  have co: "class_objs (sh_slab h) c = {#}" if "c < NUM_CLASSES" for c
    using row that by (simp add: class_objs_def e z)
  have ob: "all_objs h c = {#}" for c by (simp add: all_objs_def ti)
  have hd: "held h c = {#}" if "small_class c" for c using co [of c] that by (simp add: held_def ti small_class_def)
  have "lists_ok h (\<lambda>_. [])" using un by (simp add: lists_ok_def e)
  moreover have "bits_ok h" using ub by (auto simp: bits_ok_def ubits_def)
  moreover have "held_ok h" using hd by (simp add: held_ok_def)
  ultimately have hi: "hinv h (\<lambda>_. [])" using g by (simp add: hinv_def)
  have cv: "carved h = 0" by (simp add: carved_def e bitmaps_new_def Let_def)
  note pn = pool_new_inv_free [of ?n]
  have "tags_ok h" using mx by (simp add: tags_ok_def e large_new_def Let_def ns(1))
  then have ao: "arena_ok h" using pn n cv mx unfolding arena_ok_def ns by (simp add: e large_new_def Let_def)
  have "owners h s = 0" for s
    using pn n un mx by (simp add: owners_def pool_owner_def group_owners_def run_owners_def e large_new_def Let_def)
  then have "sinv h" using ao cv by (simp add: sinv_def spans_ok_def)
  moreover have "bsum h = 0" "osum h = 0" by (simp_all add: bsum_def osum_def e counters_new_def sum_list_replicate)
  moreover have "run_spans (large h) = replicate (nsp h) 0" using mx by (simp add: e large_new_def Let_def ns(1))
  ultimately show ?thesis using h hi ob by (auto simp: heap_inv_def live_objs_def avail_def e)
qed

subsection \<open>Blocks do not overlap\<close>

text \<open>A live block: its first address and its length.\<close>

definition live_block :: "sub_heap \<Rightarrow> nat \<times> nat \<Rightarrow> bool" where
  "live_block h = (\<lambda>(p, n). (\<exists>c. small_class c \<and> p \<in># live_objs h c \<and> n = CLASS_SIZES ! c) \<or>
     (\<exists>a<nsp h. 0 < run_spans (large h) ! a \<and> p = hbase h + a * SPAN_BYTES \<and> n = run_spans (large h) ! a * SPAN_BYTES))"

lemma object_spans:
  assumes c: "small_class c" and k: "k mod 8192 < nslots c" and x: "addr b c k \<le> x" "x < addr b c k + CLASS_SIZES ! c"
  shows "k div 8192 \<le> (x - b) div 65536" "(x - b) div 65536 < k div 8192 + gsp c"
proof -
  have s: "k mod 8192 * CLASS_SIZES ! c + CLASS_SIZES ! c \<le> gsp c * 65536"
  proof (cases "CLASS_SIZES ! c \<le> 65536")
    case True
    have "k mod 8192 < 65536 div CLASS_SIZES ! c" using k small_slots [OF c True] by simp
    then have "Suc (k mod 8192) * CLASS_SIZES ! c \<le> 65536"
      using div_times_less_eq_dividend [of 65536 "CLASS_SIZES ! c"] mult_le_mono1 [of "Suc (k mod 8192)" "65536 div CLASS_SIZES ! c" "CLASS_SIZES ! c"]
      by linarith
    then show ?thesis using gsp_one [OF c True] by simp
  next
    case False
    then have "k mod 8192 = 0" using k big_slots [of c] by simp
    then show ?thesis using div_ceil_mult_ge [of 65536 "CLASS_SIZES ! c"] by (simp add: gsp_def)
  qed
  have lo: "k div 8192 * 65536 \<le> x - b" and hi: "x - b < k div 8192 * 65536 + gsp c * 65536"
    using x s unfolding addr_def by linarith+
  show "k div 8192 \<le> (x - b) div 65536" using lo by (simp add: less_eq_div_iff_mult_less_eq)
  have "x - b < (k div 8192 + gsp c) * 65536" using hi by (simp add: algebra_simps)
  then show "(x - b) div 65536 < k div 8192 + gsp c" by (rule less_mult_imp_div_less)
qed

lemma addr_disjoint:
  assumes c: "small_class c" and k: "k div 8192 = j div 8192" "k \<noteq> j"
    and x: "addr b c k \<le> x" "x < addr b c k + CLASS_SIZES ! c" "addr b c j \<le> x" "x < addr b c j + CLASS_SIZES ! c"
  shows False
proof -
  have "k mod 8192 \<noteq> j mod 8192" using k by (metis div_mult_mod_eq)
  then have "Suc (k mod 8192) \<le> j mod 8192 \<or> Suc (j mod 8192) \<le> k mod 8192" by linarith
  then have "Suc (k mod 8192) * CLASS_SIZES ! c \<le> j mod 8192 * CLASS_SIZES ! c \<or> Suc (j mod 8192) * CLASS_SIZES ! c \<le> k mod 8192 * CLASS_SIZES ! c"
    using mult_le_mono1 by blast
  then show False using x k(1) unfolding addr_def mult_Suc by (elim disjE) linarith+
qed

text \<open>Every byte of a live block lies in a span owned by the block's group or run.\<close>

definition block_owner :: "sub_heap \<Rightarrow> nat \<times> nat \<Rightarrow> bool \<times> nat \<Rightarrow> bool" where
  "block_owner h = (\<lambda>(p, n) (big, i). \<forall>x. p \<le> x \<and> x < p + n \<longrightarrow> hbase h \<le> x \<and>
     i \<in> (if big then run_owners (large h) ((x - hbase h) div 65536) else group_owners h ((x - hbase h) div 65536)))"

lemma small_owner:
  assumes h: "hinv h ls" and c: "small_class c" and k: "k \<in> tiles h c"
  shows "block_owner h (addr (hbase h) c k, CLASS_SIZES ! c) (False, k div 8192)"
proof -
  have t: "listed h (k div 8192)" "class_at h (k div 8192) = c" "k mod 8192 < nslots c" using k by (auto simp: tiles_def)
  have "hbase h \<le> addr (hbase h) c k" by (simp add: addr_def)
  then show ?thesis using object_spans [OF c t(3), of "hbase h"] t(1,2) by (auto simp: block_owner_def group_owners_def)
qed

lemma large_owner:
  assumes a: "a < length (run_spans (large h))"
  shows "block_owner h (hbase h + a * 65536, run_spans (large h) ! a * 65536) (True, a)"
proof -
  have "a \<le> (x - hbase h) div 65536 \<and> (x - hbase h) div 65536 < a + run_spans (large h) ! a"
    if "hbase h + a * 65536 \<le> x" "x < hbase h + a * 65536 + run_spans (large h) ! a * 65536" for x
  proof -
    have "a * 65536 \<le> x - hbase h" "x - hbase h < (a + run_spans (large h) ! a) * 65536" using that by (simp_all add: algebra_simps)
    then show ?thesis by (simp add: less_eq_div_iff_mult_less_eq less_mult_imp_div_less)
  qed
  then show ?thesis using a by (auto simp: block_owner_def run_owners_def)
qed

lemma owner_unique:
  assumes s: "sinv h" and b: "block_owner h (p, n) u" "block_owner h (q, m) v" and x: "p \<le> x" "x < p + n" "q \<le> x" "x < q + m"
  shows "u = v"
proof -
  let ?s = "(x - hbase h) div 65536"
  have o: "pool_owner (large h) ?s + card (group_owners h ?s) + card (run_owners (large h) ?s) \<le> 1"
    using s unfolding sinv_def spans_ok_def owners_def by (metis le_refl zero_le_one)
  obtain ub ui vb vi where uv: "u = (ub, ui)" "v = (vb, vi)" by (cases u; cases v) auto
  have m: "ui \<in> (if ub then run_owners (large h) ?s else group_owners h ?s)" "vi \<in> (if vb then run_owners (large h) ?s else group_owners h ?s)"
    using b x unfolding uv block_owner_def by auto
  have pos: "i \<in> A \<Longrightarrow> finite A \<Longrightarrow> 1 \<le> card A" for i and A :: "nat set" by (metis One_nat_def Suc_leI card_gt_0_iff empty_iff)
  have one: "i \<in> A \<Longrightarrow> j \<in> A \<Longrightarrow> finite A \<Longrightarrow> card A \<le> 1 \<Longrightarrow> i = j" for i j and A :: "nat set"
    by (metis One_nat_def card_le_Suc0_iff_eq)
  have eq: "ub = vb"
  proof (rule ccontr)
    assume "ub \<noteq> vb"
    then have "1 \<le> card (group_owners h ?s)" "1 \<le> card (run_owners (large h) ?s)"
      using m pos [OF _ finite_owners(1)] pos [OF _ finite_owners(2)] by (cases ub; simp; blast)+
    then show False using o by linarith
  qed
  then have "ui = vi" using m o one [OF _ _ finite_owners(1)] one [OF _ _ finite_owners(2)] by (cases ub) (auto simp del: One_nat_def)
  then show ?thesis using uv eq by simp
qed


lemma live_in_tiles:
  assumes "hinv h ls" "small_class c" "p \<in># live_objs h c"
  shows "\<exists>k\<in>tiles h c. p = addr (hbase h) c k"
  using obj_tile [OF assms(2) live_obj(1) [OF assms]] .

lemma live_block_cases:
  assumes h: "hinv h ls" and s: "sinv h" and b: "live_block h (p, n)"
  obtains c k where "small_class c" "k \<in> tiles h c" "p = addr (hbase h) c k" "n = CLASS_SIZES ! c" "block_owner h (p, n) (False, k div 8192)"
  | a where "a < nsp h" "p = hbase h + a * 65536" "n = run_spans (large h) ! a * 65536" "block_owner h (p, n) (True, a)"
proof -
  have len: "length (run_spans (large h)) = nsp h" using s by (simp add: sinv_def arena_ok_def)
  from b consider c where "small_class c" "p \<in># live_objs h c" "n = CLASS_SIZES ! c"
    | a where "a < nsp h" "p = hbase h + a * 65536" "n = run_spans (large h) ! a * 65536"
    by (auto simp: live_block_def)
  then show thesis
  proof cases
    case 1
    then obtain k where "k \<in> tiles h c" "p = addr (hbase h) c k" using live_in_tiles [OF h] by blast
    then show thesis using 1 small_owner [OF h] that(1) by blast
  next
    case 2
    then show thesis using large_owner [of a h] len that(2) by simp
  qed
qed

lemma block_pos: "live_block h (p, n) \<Longrightarrow> 0 < n"
  using osz_pos by (fastforce simp: live_block_def)

lemma blocks_disjoint:
  assumes hi: "heap_inv h" and b: "live_block h (p, n)" "live_block h (q, m)" and ne: "(p, n) \<noteq> (q, m)"
  shows "p + n \<le> q \<or> q + m \<le> p"
proof (rule ccontr)
  assume "\<not> (p + n \<le> q \<or> q + m \<le> p)"
  then have x: "p \<le> max p q" "max p q < p + n" "q \<le> max p q" "max p q < q + m" using block_pos [OF b(1)] block_pos [OF b(2)] by auto
  obtain ls where h: "hinv h ls" "sinv h" using hi by (auto simp: heap_inv_def)
  show False
    using h b(1)
  proof (cases rule: live_block_cases)
    case (1 c k)
    note A = 1
    show False
      using h b(2)
    proof (cases rule: live_block_cases)
      case (1 d j)
      have "k div 8192 = j div 8192" using owner_unique [OF h(2) A(5) 1(5) x] by simp
      then have e: "k div 8192 = j div 8192" "c = d" using A(2) 1(2) by (auto simp: tiles_def)
      have "k \<noteq> j" using ne A(3,4) 1(3,4) e(2) by auto
      then show False using addr_disjoint [OF A(1) e(1), of "hbase h" "max p q"] x A(3,4) 1(3,4) e(2) by simp
    next
      case (2 a)
      then show False using owner_unique [OF h(2) A(5) 2(4) x] by simp
    qed
  next
    case (2 a)
    note A = 2
    show False
      using h b(2)
    proof (cases rule: live_block_cases)
      case (1 d j)
      then show False using owner_unique [OF h(2) A(4) 1(5) x] by simp
    next
      case (2 a')
      then show False using owner_unique [OF h(2) A(4) 2(4) x] A(2,3) 2(2,3) ne by simp
    qed
  qed
qed

lemma block_bounds:
  assumes hi: "heap_inv h" and b: "live_block h (p, n)"
  shows "0 < n" "hbase h \<le> p" "p + n \<le> hbase h + budget_bytes h"
proof -
  obtain ls where h: "hinv h ls" "sinv h" using hi by (auto simp: heap_inv_def)
  show n: "0 < n" using block_pos [OF b] .
  obtain u where u: "block_owner h (p, n) u" using live_block_cases [OF h b] by metis
  have ow: "hbase h \<le> x \<and> (x - hbase h) div 65536 < carved h" if "p \<le> x" "x < p + n" for x
  proof -
    let ?s = "(x - hbase h) div 65536"
    obtain ub ui where uq: "u = (ub, ui)" by (cases u)
    have m: "hbase h \<le> x" "ui \<in> (if ub then run_owners (large h) ?s else group_owners h ?s)" using u that unfolding uq block_owner_def by auto
    then have "card (group_owners h ?s) \<noteq> 0 \<or> card (run_owners (large h) ?s) \<noteq> 0" by (cases ub) auto
    then have "owners h ?s \<noteq> 0" unfolding owners_def by linarith
    then have "?s < carved h" using h(2) unfolding sinv_def spans_ok_def by (metis (no_types))
    then show ?thesis using m(1) by simp
  qed
  show "hbase h \<le> p" using ow [of p] n by simp
  have l: "hbase h \<le> p + n - 1" "(p + n - 1 - hbase h) div 65536 < carved h" using ow [of "p + n - 1"] n by auto
  have "p + n - 1 - hbase h < carved h * 65536" using l(2) by (metis div_less_iff_less_mult zero_less_numeral)
  moreover have "carved h * 65536 \<le> budget_bytes h" using h(2) by (auto simp: sinv_def arena_ok_def)
  ultimately show "p + n \<le> hbase h + budget_bytes h" using l(1) n by linarith
qed

subsection \<open>The counters count the live blocks\<close>

definition live_total :: "sub_heap \<Rightarrow> nat" where
  "live_total h = (\<Sum>c\<in>{1..<NUM_CLASSES}. CLASS_SIZES ! c * size (live_objs h c)) + (\<Sum>n\<leftarrow>run_spans (large h). n * SPAN_BYTES)"

definition live_count :: "sub_heap \<Rightarrow> nat" where
  "live_count h = (\<Sum>c\<in>{1..<NUM_CLASSES}. size (live_objs h c)) + length (filter (\<lambda>n. 0 < n) (run_spans (large h)))"

definition acct :: "sub_heap \<Rightarrow> bool" where
  "acct h \<longleftrightarrow> bsum h = of_nat (live_total h) \<and> osum h = of_nat (live_count h)"

lemma class_sum:
  fixes f g :: "nat \<Rightarrow> nat"
  assumes "small_class c" "f c = k + g c" "\<forall>d. small_class d \<and> d \<noteq> c \<longrightarrow> f d = g d"
  shows "(\<Sum>c\<in>{1..<NUM_CLASSES}. f c) = k + (\<Sum>c\<in>{1..<NUM_CLASSES}. g c)"
proof -
  have c: "c \<in> {1..<NUM_CLASSES}" using assms(1) by (auto simp: small_class_def)
  have "(\<Sum>c\<in>{1..<NUM_CLASSES} - {c}. f c) = (\<Sum>c\<in>{1..<NUM_CLASSES} - {c}. g c)"
    using assms(3) by (intro sum.cong) (auto simp: small_class_def)
  then show ?thesis using sum.remove [OF _ c, of f] sum.remove [OF _ c, of g] assms(2) by simp
qed

lemma hands_out_acct:
  assumes o: "hands_out h h' c M" and c: "small_class c" and a: "acct h"
  shows "acct h'"
proof -
  have e: "live_objs h' c = M + live_objs h c" "\<forall>d. small_class d \<and> d \<noteq> c \<longrightarrow> live_objs h' d = live_objs h d"
    "run_spans (large h') = run_spans (large h)" using o by (simp_all add: hands_out_def same_frame_def)
  have "live_total h' = CLASS_SIZES ! c * size M + live_total h" unfolding live_total_def e(3)
    using class_sum [OF c, of "\<lambda>d. CLASS_SIZES ! d * size (live_objs h' d)" "CLASS_SIZES ! c * size M" "\<lambda>d. CLASS_SIZES ! d * size (live_objs h d)"] e(1,2)
    by (simp add: algebra_simps)
  moreover have "live_count h' = size M + live_count h" unfolding live_count_def e(3)
    using class_sum [OF c, of "\<lambda>d. size (live_objs h' d)" "size M" "\<lambda>d. size (live_objs h d)"] e(1,2) by simp
  ultimately show ?thesis using o a by (simp add: acct_def hands_out_def)
qed

lemma takes_back_acct:
  assumes o: "takes_back h h' c M" and c: "small_class c" and a: "acct h"
  shows "acct h'"
proof -
  have e: "live_objs h c = M + live_objs h' c" "\<forall>d. small_class d \<and> d \<noteq> c \<longrightarrow> live_objs h d = live_objs h' d"
    "run_spans (large h') = run_spans (large h)" using o by (simp_all add: takes_back_def same_frame_def)
  have "live_total h = CLASS_SIZES ! c * size M + live_total h'" unfolding live_total_def e(3)
    using class_sum [OF c, of "\<lambda>d. CLASS_SIZES ! d * size (live_objs h d)" "CLASS_SIZES ! c * size M" "\<lambda>d. CLASS_SIZES ! d * size (live_objs h' d)"] e(1,2)
    by (simp add: algebra_simps)
  moreover have "live_count h = size M + live_count h'" unfolding live_count_def e(3)
    using class_sum [OF c, of "\<lambda>d. size (live_objs h d)" "size M" "\<lambda>d. size (live_objs h' d)"] e(1,2) by simp
  ultimately show ?thesis using o a by (simp add: acct_def takes_back_def)
qed

lemma filter_len_upd:
  "a < length rs \<Longrightarrow> rs ! a = 0 \<Longrightarrow> 0 < n \<Longrightarrow> length (filter (\<lambda>n. 0 < n) (rs[a := n])) = Suc (length (filter (\<lambda>n. 0 < n) (rs :: nat list)))"
proof (induction rs arbitrary: a)
  case (Cons r rs)
  then show ?case by (cases a) auto
qed simp

lemma runs_upd:
  fixes rs :: "nat list"
  assumes "a < length rs" "rs ! a = 0"
  shows "(\<Sum>n\<leftarrow>rs[a := n]. n * SPAN_BYTES) = n * SPAN_BYTES + (\<Sum>n\<leftarrow>rs. n * SPAN_BYTES)"
  using Cpu_Slab.sum_list_upd [of a rs "\<lambda>n. n * SPAN_BYTES" n] assms by simp

lemma run_granted_acct:
  assumes g: "run_granted h h' a n" and n: "0 < n" and a: "acct h" and len: "a < length (run_spans (large h))"
  shows "acct h'"
proof -
  have e: "live_objs h' = live_objs h" "run_spans (large h') = (run_spans (large h))[a := n]" "run_spans (large h) ! a = 0" using g by (simp_all add: run_granted_def)
  have "live_total h' = n * SPAN_BYTES + live_total h" unfolding live_total_def e(1,2) runs_upd [OF len e(3)] by simp
  moreover have "live_count h' = Suc (live_count h)" unfolding live_count_def e(1,2) filter_len_upd [OF len e(3) n] by simp
  ultimately show ?thesis using g a by (simp add: acct_def run_granted_def)
qed

lemma run_returned_acct:
  assumes g: "run_returned h h' a n" and n: "n = run_spans (large h) ! a" "0 < n" and a: "acct h" and len: "a < length (run_spans (large h))"
  shows "acct h'"
proof -
  let ?rs = "run_spans (large h')"
  have e: "live_objs h' = live_objs h" "?rs = (run_spans (large h))[a := 0]" using g by (simp_all add: run_returned_def)
  have r: "run_spans (large h) = ?rs[a := n]" "a < length ?rs" "?rs ! a = 0" using e(2) n(1) len by simp_all
  have "live_total h = n * SPAN_BYTES + live_total h'" unfolding live_total_def e(1) r(1) runs_upd [OF r(2,3)] by simp
  moreover have "live_count h = Suc (live_count h')" unfolding live_count_def e(1) r(1) filter_len_upd [OF r(2,3) n(2)] by simp
  ultimately show ?thesis using g a by (simp add: acct_def run_returned_def)
qed

lemma same_acct:
  assumes "acct h" "counters h' = counters h" "\<forall>d. small_class d \<longrightarrow> live_objs h' d = live_objs h d" "run_spans (large h') = run_spans (large h)"
  shows "acct h'"
proof -
  have "live_total h' = live_total h" "live_count h' = live_count h"
    unfolding live_total_def live_count_def assms(4) using assms(3) by (simp_all add: small_class_def)
  then show ?thesis using assms(1,2) by (simp add: acct_def bsum_def osum_def)
qed

subsection \<open>Histories\<close>

text \<open>
  One operation of the sub-heap with what the caller gives it and gets back. Releases carry what
  the caller must own (\<open>dealloc_class\<close> and \<open>dealloc_class_batch\<close> are unsafe functions); the
  allocations of a class above 64 KiB are restricted by \<open>carvable\<close> and \<open>batch_room\<close> to arenas in
  which no carve meets a short group at the end; a large request counts its spans in 32 bits.
\<close>

datatype heap_op =
    Alloc nat "nat option"
  | Free nat nat
  | AllocBatch nat nat "nat list"
  | FreeBatch nat "nat list"
  | AllocRun nat "nat option"
  | FreeRun nat
  | Reclaim nat nat
  | Rebalance nat nat nat
  | StopCpu nat bool

inductive heap_act :: "heap_op \<Rightarrow> sub_heap \<Rightarrow> sub_heap \<Rightarrow> bool" where
  alloc: "small_class c \<Longrightarrow> carvable h c \<Longrightarrow> alloc_class x h c = Some (h', r) \<Longrightarrow> heap_act (Alloc c r) h h'"
| free: "small_class c \<Longrightarrow> p \<in># live_objs h c \<Longrightarrow> dealloc_class x h p c = Some h' \<Longrightarrow> heap_act (Free c p) h h'"
| alloc_batch: "small_class c \<Longrightarrow> batch_room h c len \<Longrightarrow> refill_batch x h c len = Some (h', out) \<Longrightarrow> heap_act (AllocBatch c len out) h h'"
| free_batch: "small_class c \<Longrightarrow> mset ps \<subseteq># live_objs h c \<Longrightarrow> dealloc_class_batch x h ps c = Some h' \<Longrightarrow> heap_act (FreeBatch c ps) h h'"
| alloc_run: "large_count sz < 2 ^ 32 \<Longrightarrow> alloc_large x h sz = Some (h', r') \<Longrightarrow> heap_act (AllocRun sz r') h h'"
| free_run: "a < nsp h \<Longrightarrow> dealloc_large x h (hbase h + a * SPAN_BYTES) = Some h' \<Longrightarrow> heap_act (FreeRun (hbase h + a * SPAN_BYTES)) h h'"
| reclaim: "reclaim_empty_spans x h cap = Some (h', n) \<Longrightarrow> heap_act (Reclaim cap n) h h'"
| rebalance: "small_class c \<Longrightarrow> cpu < num_cpus (sh_slab h) \<Longrightarrow> current (stacks (sh_slab h) ! cpu ! c) < 2 ^ 32 \<Longrightarrow>
    rebalance_capacity h cpu c k = Some (h', m) \<Longrightarrow> heap_act (Rebalance cpu c m) h h'"
| stop: "set_cpu_stopped h cpu v = Some h' \<Longrightarrow> heap_act (StopCpu cpu v) h h'"

definition heap_step :: "sub_heap \<Rightarrow> sub_heap \<Rightarrow> bool" where
  "heap_step h h' \<longleftrightarrow> (\<exists>l. heap_act l h h')"

lemma stopped_ok:
  assumes hi: "heap_inv h" and s: "set_cpu_stopped h cpu v = Some h'"
  shows "heap_inv h'" "same_frame h h'" "counters h' = counters h" "live_objs h' = live_objs h"
proof -
  obtain ls where h: "hinv h ls" "sinv h" using hi by (auto simp: heap_inv_def)
  obtain fs where fs: "h' = h\<lparr>sh_slab := (sh_slab h)\<lparr>stopped := fs\<rparr>\<rparr>" "length fs = length (stopped (sh_slab h))"
    using s by (auto simp: set_cpu_stopped_def set_stopped_def upd_def split: if_splits)
  have m: "same_map h h'" by (simp add: same_map_def fs)
  note e = same_map_eqs [OF m]
  have u: "ubits h' = ubits h" by (simp add: ubits_def fs)
  have hd: "held h' = held h" unfolding held_def e u by (simp add: fs class_objs_def fun_eq_iff)
  have "geom h'" using hinv_parts(1) [OF h(1)] e fs by (simp add: geom_def slab_inv_def)
  moreover have "bits_ok h'" using hinv_parts(3) [OF h(1)] unfolding bits_ok_def e u by (simp add: fs)
  ultimately have "hinv h' ls" using hinv_step [OF h(1) m] hinv_parts(4) [OF h(1)] unfolding held_ok_def hd by blast
  then show "heap_inv h'" using same_map_sinv [OF m h(2)] by (auto simp: heap_inv_def)
  show "live_objs h' = live_objs h" unfolding live_objs_def hd e by simp
  show "counters h' = counters h" "same_frame h h'" using e by (simp_all add: fs same_frame_def)
qed

lemma run_len: "heap_inv h \<Longrightarrow> length (run_spans (large h)) = nsp h"
  by (simp add: heap_inv_def sinv_def arena_ok_def)

lemma heap_act_inv:
  assumes st: "heap_act l h h'" and hi: "heap_inv h" and a: "acct h"
  shows "heap_inv h' \<and> acct h'"
  using st
proof cases
  case (alloc c x r)
  then have t: "hands_out h h' c (case r of None \<Rightarrow> {#} | Some p \<Rightarrow> {#p#})" using alloc_class_ok [OF hi alloc(2,3), of x] by auto
  then show ?thesis using hands_out_acct [OF t alloc(2) a] by (simp add: hands_out_def)
next
  case (free c p x)
  then have t: "takes_back h h' c {#p#}" using dealloc_class_ok [OF hi free(2,3), of x] by auto
  then show ?thesis using takes_back_acct [OF t free(2) a] by (simp add: takes_back_def)
next
  case (alloc_batch c len x out)
  then have t: "hands_out h h' c (mset out)" using refill_batch_ok [OF hi alloc_batch(2,3), of x] by auto
  then show ?thesis using hands_out_acct [OF t alloc_batch(2) a] by (simp add: hands_out_def)
next
  case (free_batch c ps x)
  then have t: "takes_back h h' c (mset ps)" using dealloc_class_batch_ok [OF hi free_batch(2,3), of x] by auto
  then show ?thesis using takes_back_acct [OF t free_batch(2) a] by (simp add: takes_back_def)
next
  case (alloc_run sz x r')
  have n: "0 < large_count sz" by (simp add: large_count_def)
  show ?thesis
  proof (cases r')
    case None
    then have "heap_inv h'" "live_objs h' = live_objs h" "large h' = large h" "counters h' = counters h"
      using alloc_large_ok [OF hi alloc_run(2), of x] alloc_run(3) by auto
    then show ?thesis using same_acct [OF a] by simp
  next
    case (Some p)
    then obtain b where b: "run_granted h h' b (large_count sz)" using alloc_large_ok [OF hi alloc_run(2), of x] alloc_run(3) by auto
    then have "b < length (run_spans (large h))" using n run_len [OF hi] by (simp add: run_granted_def)
    then show ?thesis using run_granted_acct [OF b n a] b by (simp add: run_granted_def)
  qed
next
  case (free_run b x)
  note fr = free_run(2,3)
  show ?thesis
  proof (cases "run_spans (large h) ! b = 0")
    case True
    then show ?thesis using dealloc_large_ok [OF hi fr(1), of x] fr(2) hi a by (auto split: if_splits)
  next
    case False
    then have r: "run_returned h h' b (run_spans (large h) ! b)" using dealloc_large_ok [OF hi fr(1), of x] fr(2) by auto
    then show ?thesis using run_returned_acct [OF r refl _ a] False fr(1) run_len [OF hi] by (simp add: run_returned_def)
  qed
next
  case (reclaim x cap n)
  then have "reclaimed h h' n" using reclaim_empty_spans_ok [OF hi, of x cap] by auto
  then show ?thesis using same_acct [OF a] by (simp add: reclaimed_def)
next
  case (rebalance c cpu k m)
  then show ?thesis using rebalance_capacity_ok [OF hi rebalance(2-4), of k] same_acct [OF a] by (auto simp: same_frame_def)
next
  case (stop cpu v)
  then show ?thesis using stopped_ok [OF hi stop(2)] same_acct [OF a] by (simp add: same_frame_def)
qed

lemma heap_step_inv: "heap_step h h' \<Longrightarrow> heap_inv h \<Longrightarrow> acct h \<Longrightarrow> heap_inv h' \<and> acct h'"
  using heap_act_inv by (auto simp: heap_step_def)

lemma heap_steps_inv: "heap_step\<^sup>*\<^sup>* h h' \<Longrightarrow> heap_inv h \<Longrightarrow> acct h \<Longrightarrow> heap_inv h' \<and> acct h'"
  by (induction rule: rtranclp_induct) (auto dest: heap_step_inv)

lemma live_bytes_total: "acct h \<Longrightarrow> live_total h < 2 ^ 63 \<Longrightarrow> live_bytes h = live_total h"
proof -
  assume a: "acct h" "live_total h < 2 ^ 63"
  have "sint (of_nat (live_total h) :: u64) = int (live_total h)"
    using a(2) by (simp add: signed_of_nat signed_take_bit_int_eq_self)
  then show ?thesis using a(1) by (simp add: live_bytes_def total_bytes_def acct_def bsum_def)
qed

lemma live_objects_total: "acct h \<Longrightarrow> live_count h < 2 ^ 63 \<Longrightarrow> live_objects h = live_count h"
proof -
  assume a: "acct h" "live_count h < 2 ^ 63"
  have "sint (of_nat (live_count h) :: u64) = int (live_count h)"
    using a(2) by (simp add: signed_of_nat signed_take_bit_int_eq_self)
  then show ?thesis using a(1) by (simp add: live_objects_def total_objs_def acct_def osum_def)
qed

subsection \<open>A reference for the batch release\<close>

primrec dealloc_each :: "ctx \<Rightarrow> nat list \<Rightarrow> nat \<Rightarrow> sub_heap \<Rightarrow> sub_heap rust" where
  "dealloc_each x [] c h = Some h"
| "dealloc_each x (p # ps) c h = do { h1 \<leftarrow> dealloc_class x h p c; dealloc_each x ps c h1 }"

lemma takes_back_trans:
  assumes "takes_back h h1 c M" "takes_back h1 h2 c N"
  shows "takes_back h h2 c (M + N)"
proof -
  have e: "bsum h1 = bsum h - of_nat (CLASS_SIZES ! c * size M)" "osum h1 = osum h - of_nat (size M)"
    "bsum h2 = bsum h1 - of_nat (CLASS_SIZES ! c * size N)" "osum h2 = osum h1 - of_nat (size N)"
    using assms unfolding takes_back_def by blast+
  have "bsum h2 = bsum h - of_nat (CLASS_SIZES ! c * size (M + N))" "osum h2 = osum h - of_nat (size (M + N))"
    unfolding e by (simp_all add: algebra_simps)
  then show ?thesis using assms same_frame_trans [of h h1 h2] by (simp add: takes_back_def)
qed

lemma dealloc_each_ok:
  assumes "heap_inv h" "small_class c" "mset ps \<subseteq># live_objs h c"
  shows "\<exists>h'. dealloc_each x ps c h = Some h' \<and> takes_back h h' c (mset ps)"
  using assms
proof (induction ps arbitrary: h)
  case Nil
  then show ?case by (simp add: takes_back_def same_frame_def)
next
  case (Cons p ps)
  have "p \<in># live_objs h c" using mset_subset_eqD [OF Cons.prems(3), of p] by simp
  then obtain h1 where 1: "dealloc_class x h p c = Some h1" "takes_back h h1 c {#p#}" using dealloc_class_ok [OF Cons.prems(1,2)] by blast
  then have "mset ps \<subseteq># live_objs h1 c" "heap_inv h1" using Cons.prems(3) by (simp_all add: takes_back_def)
  then obtain h2 where "dealloc_each x ps c h1 = Some h2" "takes_back h1 h2 c (mset ps)" using Cons.IH Cons.prems(2) by blast
  then show ?case using 1 takes_back_trans [OF 1(2)] by fastforce
qed

end
