(* ===== verification/Sub_Heap_Refine.thy ===== *)
theory Sub_Heap_Refine
  imports Sub_Heap_Correct
begin

text \<open>
  The abstract allocator a sub-heap refines. Its state is the set of the blocks handed out; an
  operation with its arguments and results (\<open>heap_op\<close>) determines the next set: an allocation adds
  exactly the block it returns, which lies inside the region and apart from every other block; a
  release removes exactly the block it names; everything else leaves the set as it is.
\<close>

subsection \<open>Specification\<close>

text \<open>A block: its size class (none for a large run), its address and its length.\<close>

type_synonym block = "nat option \<times> nat \<times> nat"

definition obj :: "nat \<Rightarrow> nat \<Rightarrow> block" where
  "obj c p = (Some c, p, CLASS_SIZES ! c)"

definition run_of :: "nat \<Rightarrow> nat \<Rightarrow> block" where
  "run_of p n = (None, p, n)"

definition apart :: "block \<Rightarrow> block \<Rightarrow> bool" where
  "apart = (\<lambda>(t, p, n) (u, q, m). p + n \<le> q \<or> q + m \<le> p)"

definition within :: "nat \<Rightarrow> nat \<Rightarrow> block \<Rightarrow> bool" where
  "within base len = (\<lambda>(t, p, n). 0 < n \<and> base \<le> p \<and> p + n \<le> base + len)"

text \<open>New blocks for a set of blocks: inside the region, apart from the old ones and from each other.\<close>

definition fresh_blocks :: "nat \<Rightarrow> nat \<Rightarrow> block set \<Rightarrow> block set \<Rightarrow> bool" where
  "fresh_blocks base len B N \<longleftrightarrow> N \<inter> B = {} \<and> (\<forall>b\<in>N. within base len b \<and> (\<forall>d\<in>B \<union> N. b \<noteq> d \<longrightarrow> apart b d))"

fun alloc_spec :: "nat \<Rightarrow> nat \<Rightarrow> heap_op \<Rightarrow> block set \<Rightarrow> block set \<Rightarrow> bool" where
  "alloc_spec base len (Alloc c r) B B' \<longleftrightarrow>
     (let N = (case r of None \<Rightarrow> {} | Some p \<Rightarrow> {obj c p}) in fresh_blocks base len B N \<and> B' = B \<union> N)"
| "alloc_spec base len (Free c p) B B' \<longleftrightarrow> obj c p \<in> B \<and> B' = B - {obj c p}"
| "alloc_spec base len (AllocBatch c n out) B B' \<longleftrightarrow>
     distinct out \<and> length out \<le> n \<and> fresh_blocks base len B (obj c ` set out) \<and> B' = B \<union> obj c ` set out"
| "alloc_spec base len (FreeBatch c ps) B B' \<longleftrightarrow> distinct ps \<and> obj c ` set ps \<subseteq> B \<and> B' = B - obj c ` set ps"
| "alloc_spec base len (AllocRun sz r) B B' \<longleftrightarrow>
     (let n = large_count sz * SPAN_BYTES; N = (case r of None \<Rightarrow> {} | Some p \<Rightarrow> {run_of p n})
      in sz \<le> n \<and> fresh_blocks base len B N \<and> B' = B \<union> N)"
| "alloc_spec base len (FreeRun p) B B' \<longleftrightarrow> B' = B - range (run_of p)"
| "alloc_spec base len (Reclaim cap n) B B' \<longleftrightarrow> B' = B"
| "alloc_spec base len (Rebalance cpu c m) B B' \<longleftrightarrow> B' = B"
| "alloc_spec base len (StopCpu cpu v) B B' \<longleftrightarrow> B' = B"

text \<open>A history: a list of operations, each of which relates a state to the next.\<close>

primrec runs :: "('l \<Rightarrow> 's \<Rightarrow> 's \<Rightarrow> bool) \<Rightarrow> 'l list \<Rightarrow> 's \<Rightarrow> 's \<Rightarrow> bool" where
  "runs R [] s s' \<longleftrightarrow> s' = s"
| "runs R (l # ls) s s' \<longleftrightarrow> (\<exists>t. R l s t \<and> runs R ls t s')"

subsection \<open>The abstraction\<close>

definition blocks :: "sub_heap \<Rightarrow> block set" where
  "blocks h = (\<Union>c\<in>{c. small_class c}. obj c ` set_mset (live_objs h c)) \<union>
     {run_of (hbase h + a * SPAN_BYTES) (run_spans (large h) ! a * SPAN_BYTES) | a. a < nsp h \<and> 0 < run_spans (large h) ! a}"

lemma obj_in: "obj c p \<in> blocks h \<longleftrightarrow> small_class c \<and> p \<in># live_objs h c"
  by (auto simp: blocks_def obj_def run_of_def)

lemma run_in: "run_of p n \<in> blocks h \<longleftrightarrow> (\<exists>a<nsp h. 0 < run_spans (large h) ! a \<and> p = hbase h + a * SPAN_BYTES \<and> n = run_spans (large h) ! a * SPAN_BYTES)"
  by (auto simp: blocks_def obj_def run_of_def)

lemma block_cases:
  assumes "b \<in> blocks h"
  obtains c p where "b = obj c p" "small_class c" "p \<in># live_objs h c"
  | a where "b = run_of (hbase h + a * SPAN_BYTES) (run_spans (large h) ! a * SPAN_BYTES)" "a < nsp h" "0 < run_spans (large h) ! a"
  using assms by (auto simp: blocks_def)

lemma block_live: "(t, p, n) \<in> blocks h \<Longrightarrow> live_block h (p, n)"
  by (auto simp: blocks_def obj_def run_of_def live_block_def)

lemma obj_run [simp]: "obj c p \<noteq> run_of q n" "run_of q n \<noteq> obj c p"
  by (simp_all add: obj_def run_of_def)

definition shaped :: "block \<Rightarrow> bool" where
  "shaped b \<longleftrightarrow> (\<exists>c p. b = obj c p) \<or> (\<exists>p n. b = run_of p n)"

lemma shaped_obj [simp]: "shaped (obj c p)" "shaped (run_of p n)"
  by (auto simp: shaped_def)

lemma blocks_eqI:
  assumes "\<And>c p. obj c p \<in> B \<longleftrightarrow> obj c p \<in> C" "\<And>p n. run_of p n \<in> B \<longleftrightarrow> run_of p n \<in> C" "\<forall>b\<in>B \<union> C. shaped b"
  shows "B = C"
proof (rule set_eqI)
  fix b show "b \<in> B \<longleftrightarrow> b \<in> C" using assms(1,2) assms(3) [rule_format, of b] by (auto simp: shaped_def)
qed

lemma blocks_shaped [simp]: "b \<in> blocks h \<Longrightarrow> shaped b"
  by (auto simp: blocks_def)

lemma blocks_within: "heap_inv h \<Longrightarrow> b \<in> blocks h \<Longrightarrow> within (hbase h) (budget_bytes h) b"
  using block_live block_bounds by (cases b) (fastforce simp: within_def)

text \<open>Blocks of the same address and length are the same block: each byte has one owner.\<close>

lemma blocks_apart:
  assumes hi: "heap_inv h" and b: "b \<in> blocks h" "d \<in> blocks h" "b \<noteq> d"
  shows "apart b d"
proof (rule ccontr)
  assume na: "\<not> apart b d"
  obtain t p n u q m where e: "b = (t, p, n)" "d = (u, q, m)" by (cases b; cases d) auto
  have l: "live_block h (p, n)" "live_block h (q, m)" using b block_live by (auto simp: e)
  have eq: "p = q" "n = m" using na blocks_disjoint [OF hi l] by (auto simp: apart_def e)
  obtain ls where h: "hinv h ls" "sinv h" using hi by (auto simp: heap_inv_def)
  have x: "p \<le> p" "p < p + n" "q \<le> p" "p < q + m" using block_pos [OF l(1)] eq by auto
  have own: "\<exists>v. block_owner h (p', n') v \<and> (case t' of Some c \<Rightarrow> class_at h (snd v) = c \<and> \<not> fst v | None \<Rightarrow> fst v)" if "(t', p', n') \<in> blocks h" for t' p' n'
    using that
  proof (cases rule: block_cases)
    case (1 c r)
    then obtain k where k: "k \<in> tiles h c" "r = addr (hbase h) c k" using live_in_tiles [OF h(1)] by blast
    then show ?thesis using small_owner [OF h(1) 1(2) k(1)] 1(1) by (intro exI [of _ "(False, k div 8192)"]) (auto simp: obj_def tiles_def)
  next
    case (2 a)
    then show ?thesis using large_owner [of a h] run_len [OF hi] by (intro exI [of _ "(True, a)"]) (simp add: run_of_def)
  qed
  obtain v where v: "block_owner h (p, n) v" "case t of Some c \<Rightarrow> class_at h (snd v) = c \<and> \<not> fst v | None \<Rightarrow> fst v" using own b(1) e(1) by blast
  obtain w where w: "block_owner h (q, m) w" "case u of Some c \<Rightarrow> class_at h (snd w) = c \<and> \<not> fst w | None \<Rightarrow> fst w" using own b(2) e(2) by blast
  have "v = w" using owner_unique [OF h(2) v(1) w(1) x] .
  then have "t = u" using v(2) w(2) by (auto split: option.splits)
  then show False using b(3) e eq by simp
qed

lemma fresh_in_next:
  assumes "heap_inv h'" "blocks h' = B \<union> N" "N \<inter> B = {}" "hbase h' = base" "budget_bytes h' = len"
  shows "fresh_blocks base len B N"
  using blocks_within [OF assms(1)] blocks_apart [OF assms(1)] assms(2-5) unfolding fresh_blocks_def by auto

subsection \<open>Each operation follows the specification\<close>

lemma live_once:
  assumes "heap_inv h" "small_class c"
  shows "count (live_objs h c) p \<le> 1"
proof -
  obtain ls where "hinv h ls" using assms(1) by (auto simp: heap_inv_def)
  then have "count (live_objs h c) p \<le> count (all_objs h c) p" using live_held [of h ls c] assms(2) by (metis count_union le_add1)
  then show ?thesis using all_objs_once [OF assms(2), of h p] by linarith
qed

lemma same_frame_runs: "same_frame h h' \<Longrightarrow> run_of p n \<in> blocks h' \<longleftrightarrow> run_of p n \<in> blocks h"
  by (simp add: run_in same_frame_def)

lemma hands_out_spec:
  assumes o: "hands_out h h' c (mset out)" and c: "small_class c"
  shows "distinct out" "fresh_blocks (hbase h) (budget_bytes h) (blocks h) (obj c ` set out)" "blocks h' = blocks h \<union> obj c ` set out"
proof -
  have i: "heap_inv h'" "same_frame h h'" "live_objs h' c = mset out + live_objs h c" "\<forall>d. small_class d \<and> d \<noteq> c \<longrightarrow> live_objs h' d = live_objs h d"
    using o by (simp_all add: hands_out_def)
  have one: "count (mset out) p + count (live_objs h c) p \<le> 1" for p using live_once [OF i(1) c, of p] unfolding i(3) by simp
  show "distinct out" unfolding distinct_count_atmost_1 using one by (metis One_nat_def Suc_le_lessD add_leD1 count_mset_0_iff le_SucE le_zero_eq)
  have "obj d p \<in> blocks h' \<longleftrightarrow> obj d p \<in> blocks h \<union> obj c ` set out" for d p
    using i(3,4) c unfolding Un_iff obj_in by (cases "d = c") (auto simp: obj_def)
  moreover have "run_of p n \<in> blocks h' \<longleftrightarrow> run_of p n \<in> blocks h \<union> obj c ` set out" for p n
    using same_frame_runs [OF i(2)] by (auto simp: obj_def run_of_def)
  ultimately show e: "blocks h' = blocks h \<union> obj c ` set out"
    by (rule blocks_eqI) auto
  have "obj c ` set out \<inter> blocks h = {}"
  proof -
    have "p \<notin># live_objs h c" if "p \<in> set out" for p
    proof -
      have "0 < count (mset out) p" using that by simp
      then have "count (live_objs h c) p = 0" using one [of p] by linarith
      then show ?thesis by (simp add: not_in_iff)
    qed
    then show ?thesis using obj_in by blast
  qed
  then show "fresh_blocks (hbase h) (budget_bytes h) (blocks h) (obj c ` set out)"
    using fresh_in_next [OF i(1) e] i(2) by (simp add: same_frame_def)
qed

lemma takes_back_spec:
  assumes o: "takes_back h h' c (mset ps)" and hi: "heap_inv h" and c: "small_class c"
  shows "distinct ps" "obj c ` set ps \<subseteq> blocks h" "blocks h' = blocks h - obj c ` set ps"
proof -
  have i: "same_frame h h'" "live_objs h c = mset ps + live_objs h' c" "\<forall>d. small_class d \<and> d \<noteq> c \<longrightarrow> live_objs h' d = live_objs h d"
    using o by (simp_all add: takes_back_def)
  have one: "count (mset ps) p + count (live_objs h' c) p \<le> 1" for p using live_once [OF hi c, of p] unfolding i(2) by simp
  show "distinct ps" unfolding distinct_count_atmost_1 using one by (metis One_nat_def Suc_le_lessD add_leD1 count_mset_0_iff le_SucE le_zero_eq)
  show "obj c ` set ps \<subseteq> blocks h" using i(2) c by (auto simp: obj_in)
  have nl: "p \<notin># live_objs h' c" if "p \<in> set ps" for p
  proof -
    have "0 < count (mset ps) p" using that by simp
    then have "count (live_objs h' c) p = 0" using one [of p] by linarith
    then show ?thesis by (simp add: not_in_iff)
  qed
  have "obj d p \<in> blocks h' \<longleftrightarrow> obj d p \<in> blocks h - obj c ` set ps" for d p
    using i(2,3) c nl unfolding Diff_iff obj_in by (cases "d = c") (auto simp: obj_def)
  moreover have "run_of p n \<in> blocks h' \<longleftrightarrow> run_of p n \<in> blocks h - obj c ` set ps" for p n
    using same_frame_runs [OF i(1)] by (auto simp: obj_def run_of_def)
  ultimately show "blocks h' = blocks h - obj c ` set ps"
    by (rule blocks_eqI) auto
qed

lemma same_blocks:
  assumes "\<forall>d. small_class d \<longrightarrow> live_objs h' d = live_objs h d" "hbase h' = hbase h" "nsp h' = nsp h" "run_spans (large h') = run_spans (large h)"
  shows "blocks h' = blocks h"
  using assms by (simp add: blocks_def)

lemma run_granted_spec:
  assumes r: "run_granted h h' a n" and hi: "heap_inv h" and n: "0 < n"
  defines "N \<equiv> {run_of (hbase h + a * SPAN_BYTES) (n * SPAN_BYTES)}"
  shows "fresh_blocks (hbase h) (budget_bytes h) (blocks h) N" "blocks h' = blocks h \<union> N"
proof -
  have i: "heap_inv h'" "live_objs h' = live_objs h" "nsp h' = nsp h" "hbase h' = hbase h" "budget_bytes h' = budget_bytes h" "a < nsp h"
    "run_spans (large h) ! a = 0" "run_spans (large h') = (run_spans (large h))[a := n]" using r n by (simp_all add: run_granted_def)
  have g: "run_spans (large h') ! j = (if j = a then n else run_spans (large h) ! j)" if "j < nsp h" for j
    using that run_len [OF hi] unfolding i(8) by (simp add: nth_list_update)
  have "obj d p \<in> blocks h' \<longleftrightarrow> obj d p \<in> blocks h \<union> N" for d p using i(2) by (simp add: obj_in N_def)
  moreover have "run_of p m \<in> blocks h' \<longleftrightarrow> run_of p m \<in> blocks h \<union> N" for p m
    unfolding Un_iff run_in i(3,4) N_def using g i(6,7) n by (auto simp: run_of_def)
  ultimately show e: "blocks h' = blocks h \<union> N"
    by (rule blocks_eqI) (auto simp: N_def)
  have "N \<inter> blocks h = {}" using i(7) by (auto simp: N_def run_in)
  then show "fresh_blocks (hbase h) (budget_bytes h) (blocks h) N" using fresh_in_next [OF i(1) e] i(4,5) by simp
qed

lemma run_returned_spec:
  assumes r: "run_returned h h' a (run_spans (large h) ! a)" and hi: "heap_inv h" and a: "a < nsp h"
  shows "blocks h' = blocks h - range (run_of (hbase h + a * SPAN_BYTES))"
proof -
  let ?R = "range (run_of (hbase h + a * SPAN_BYTES))"
  have i: "live_objs h' = live_objs h" "nsp h' = nsp h" "hbase h' = hbase h" "run_spans (large h') = (run_spans (large h))[a := 0]"
    using r by (simp_all add: run_returned_def)
  have g: "run_spans (large h') ! j = (if j = a then 0 else run_spans (large h) ! j)" if "j < nsp h" for j
    using that run_len [OF hi] unfolding i(4) by (simp add: nth_list_update)
  have "obj d p \<in> blocks h' \<longleftrightarrow> obj d p \<in> blocks h - ?R" for d p using i(1) by (auto simp: obj_in)
  moreover have "run_of p m \<in> blocks h' \<longleftrightarrow> run_of p m \<in> blocks h - ?R" for p m
    unfolding Diff_iff run_in i(2,3) using g a by (auto simp: run_of_def)
  ultimately show ?thesis
    by (rule blocks_eqI) auto
qed

lemma no_run_spec:
  assumes "run_spans (large h) ! a = 0"
  shows "blocks h = blocks h - range (run_of (hbase h + a * SPAN_BYTES))"
proof -
  have "run_of (hbase h + a * SPAN_BYTES) n \<notin> blocks h" for n using assms by (auto simp: run_in)
  then show ?thesis by blast
qed

lemma large_count_covers: "sz \<le> large_count sz * SPAN_BYTES"
  using div_ceil_mult_ge [of SPAN_BYTES sz] mult_le_mono1 [of "div_ceil sz SPAN_BYTES" "large_count sz" SPAN_BYTES]
  by (simp add: large_count_def)

lemma heap_act_spec:
  assumes st: "heap_act l h h'" and hi: "heap_inv h"
  shows "alloc_spec (hbase h) (budget_bytes h) l (blocks h) (blocks h') \<and> hbase h' = hbase h \<and> budget_bytes h' = budget_bytes h"
  using st
proof cases
  case (alloc c x r)
  define out where "out = (case r of None \<Rightarrow> [] | Some p \<Rightarrow> [p])"
  have "mset out = (case r of None \<Rightarrow> {#} | Some p \<Rightarrow> {#p#})" "obj c ` set out = (case r of None \<Rightarrow> {} | Some p \<Rightarrow> {obj c p})"
    by (auto simp: out_def split: option.split)
  moreover have "hands_out h h' c (case r of None \<Rightarrow> {#} | Some p \<Rightarrow> {#p#})" using alloc_class_ok [OF hi alloc(2,3), of x] alloc(4) by auto
  ultimately have o: "hands_out h h' c (mset out)" and e: "obj c ` set out = (case r of None \<Rightarrow> {} | Some p \<Rightarrow> {obj c p})" by simp_all
  show ?thesis using hands_out_spec [OF o alloc(2)] o unfolding e by (simp add: alloc(1) Let_def hands_out_def same_frame_def)
next
  case (free c p x)
  then have o: "takes_back h h' c (mset [p])" using dealloc_class_ok [OF hi free(2,3), of x] by auto
  show ?thesis using takes_back_spec [OF o hi free(2)] o by (simp add: free(1) takes_back_def same_frame_def)
next
  case (alloc_batch c len x out)
  then have o: "hands_out h h' c (mset out)" "length out \<le> len" using refill_batch_ok [OF hi alloc_batch(2,3), of x] by auto
  show ?thesis using hands_out_spec [OF o(1) alloc_batch(2)] o by (simp add: alloc_batch(1) hands_out_def same_frame_def)
next
  case (free_batch c ps x)
  then have o: "takes_back h h' c (mset ps)" using dealloc_class_batch_ok [OF hi free_batch(2,3), of x] by auto
  show ?thesis using takes_back_spec [OF o hi free_batch(2)] o by (simp add: free_batch(1) takes_back_def same_frame_def)
next
  case (alloc_run sz x r')
  show ?thesis
  proof (cases r')
    case None
    then have e: "live_objs h' = live_objs h" "large h' = large h" using alloc_large_ok [OF hi alloc_run(2), of x] alloc_run(3) by auto
    have f: "hbase h' = hbase h \<and> budget_bytes h' = budget_bytes h \<and> nsp h' = nsp h"
      using alloc_run(3) None by (auto simp: alloc_large_def Let_def nsp_def charge_remote_def split: bind_splits option.splits prod.splits)
    then have "blocks h' = blocks h" using e by (intro same_blocks) simp_all
    then show ?thesis using f None large_count_covers [of sz] by (simp add: alloc_run(1) Let_def fresh_blocks_def)
  next
    case (Some p)
    then obtain a where a: "p = hbase h + a * SPAN_BYTES" "run_granted h h' a (large_count sz)" using alloc_large_ok [OF hi alloc_run(2), of x] alloc_run(3) by auto
    have "0 < large_count sz" by (simp add: large_count_def)
    note r = run_granted_spec [OF a(2) hi this]
    show ?thesis using r a large_count_covers [of sz] Some by (simp add: alloc_run(1) Let_def run_granted_def)
  qed
next
  case (free_run a x)
  show ?thesis
  proof (cases "run_spans (large h) ! a = 0")
    case True
    then have "h' = h" using dealloc_large_ok [OF hi free_run(2), of x] free_run(3) by (auto split: if_splits)
    then show ?thesis using no_run_spec [OF True] by (simp add: free_run(1))
  next
    case False
    then have r: "run_returned h h' a (run_spans (large h) ! a)" using dealloc_large_ok [OF hi free_run(2), of x] free_run(3) by auto
    then show ?thesis using run_returned_spec [OF r hi free_run(2)] by (simp add: free_run(1) run_returned_def)
  qed
next
  case (reclaim x cap n)
  then have "reclaimed h h' n" using reclaim_empty_spans_ok [OF hi, of x cap] by auto
  then show ?thesis using same_blocks [of h' h] by (simp add: reclaim(1) reclaimed_def)
next
  case (rebalance c cpu k m)
  then have "same_frame h h'" "\<forall>d. small_class d \<longrightarrow> live_objs h' d = live_objs h d" using rebalance_capacity_ok [OF hi rebalance(2-4), of k] by auto
  then show ?thesis using same_blocks [of h' h] by (simp add: rebalance(1) same_frame_def)
next
  case (stop cpu v)
  then show ?thesis using stopped_ok [OF hi stop(2)] same_blocks [of h' h] by (simp add: same_frame_def)
qed

lemma heap_runs_spec:
  assumes "runs heap_act ls h h'" "heap_inv h" "acct h"
  shows "runs (alloc_spec (hbase h) (budget_bytes h)) ls (blocks h) (blocks h')"
  using assms
proof (induction ls arbitrary: h)
  case (Cons l ls)
  then obtain h1 where 1: "heap_act l h h1" "runs heap_act ls h1 h'" by auto
  note i = heap_act_inv [OF 1(1) Cons.prems(2,3)] and s = heap_act_spec [OF 1(1) Cons.prems(2)]
  have "runs (alloc_spec (hbase h) (budget_bytes h)) ls (blocks h1) (blocks h')" using Cons.IH [OF 1(2)] i s by simp
  then show ?case using s by auto
qed simp

end
