(* ===== verification/Sub_Heap_Props.thy ===== *)
theory Sub_Heap_Props
  imports Sub_Heap_Refine
begin

text \<open>
  The properties of the sub-heap, with a small heap on which each of them is applied.
\<close>

subsection \<open>A concrete heap\<close>

text \<open>One CPU, one shard, a budget of 16 spans.\<close>

definition demo_builder :: builder where
  "demo_builder = \<lparr> b_budget = 1048576, b_num_cpus = 1, b_num_shards = Some 1, b_cap_per_class = 8 \<rparr>"

definition demo_ctx :: ctx where
  "demo_ctx = \<lparr> shard_id = 0, env_at = (\<lambda>_. \<lparr> current_cpu = Some 0, anchor = 0, rseq_cpu = Some 0 \<rparr>),
     pool_busy = (\<lambda>_. False), cell_busy = (\<lambda>_. False), debug_build = False \<rparr>"

lemma cap8: "c < 49 \<Longrightarrow> cap_for_class c 8 = Some 8"
  by (simp add: cap_for_class_def size_of_class_def)

lemma class_locs8: "\<forall>c\<in>set cs. c < 49 \<Longrightarrow> map_option snd (class_locs 8 cs off) = Some (off + 64 * length cs)"
proof (induction cs arbitrary: off)
  case (Cons c cs)
  obtain r t where "class_locs 8 cs (off + 64) = Some (r, t)" "t = off + 64 + 64 * length cs" using Cons.IH [of "off + 64"] Cons.prems by auto
  then show ?case using Cons.prems cap8 [of c] by simp
qed simp

lemma demo_build_budget: "0 < n \<Longrightarrow> n \<le> 1048576 \<Longrightarrow> build_ok (demo_builder\<lparr>b_budget := n\<rparr>) 65536"
proof -
  assume n: "0 < n" "n \<le> 1048576"
  have "map_option snd (block_layout 8) = Some 3728" unfolding block_layout_def
    by (subst class_locs8) (simp_all add: headers_bytes_def HEADER_BYTES_def)
  then have l: "block_layout 8 = Some (locs, bytes) \<Longrightarrow> bytes = 3728" for locs bytes by simp
  have s: "stride_for 3728 = 4096" by (simp add: stride_for_def bit_len.simps)
  have "div_ceil n 65536 \<le> 16" using n(2) by (subst div_ceil_le_iff) auto
  then show ?thesis using n l s by (auto simp: build_ok_def demo_builder_def U32_MAX_def)
qed

lemma demo_build: "build_ok demo_builder 65536"
  using demo_build_budget [of 1048576] by (simp add: demo_builder_def)

lemma demo_heap:
  "\<exists>h. build_at demo_builder 65536 = Some h \<and> heap_inv h \<and> acct h \<and> (\<forall>c. live_objs h c = {#}) \<and> avail h = 16 \<and>
    (\<forall>a<nsp h. run_spans (large h) ! a = 0)"
proof -
  obtain h where h: "build_at demo_builder 65536 = Some h" "heap_inv h" "\<forall>c. live_objs h c = {#}" "\<forall>s. run_spans (large h) ! s = 0 \<or> nsp h \<le> s"
    "bsum h = 0" "osum h = 0" "run_spans (large h) = replicate (nsp h) 0" "avail h = b_budget demo_builder div SPAN_BYTES"
    using build_at_ok [OF demo_build] by blast
  have "acct h" using h by (simp add: acct_def live_total_def live_count_def sum_list_replicate)
  then show ?thesis using h by (auto simp: demo_builder_def)
qed

lemma demo_large:
  assumes "heap_inv h" "1 \<le> avail h"
  shows "\<exists>h' a. heap_step h h' \<and> run_granted h h' a 1"
proof -
  have n: "large_count 65536 = 1" by (simp add: large_count_def div_ceil_def)
  obtain h' r where r: "alloc_large demo_ctx h 65536 = Some (h', r)"
    "case r of None \<Rightarrow> heap_inv h' \<and> live_objs h' = live_objs h \<and> large h' = large h \<and> counters h' = counters h \<and> \<not> run_fits h 1
     | Some p \<Rightarrow> \<exists>a. p = hbase h + a * SPAN_BYTES \<and> run_granted h h' a 1"
    using alloc_large_ok [OF assms(1), of 65536 demo_ctx, unfolded n] by force
  have "heap_act (AllocRun 65536 r) h h'" using heap_act.alloc_run [OF _ r(1)] n by simp
  then have "heap_step h h'" by (auto simp: heap_step_def)
  then show ?thesis using r(2) assms(2) by (cases r) (auto simp: run_fits_def)
qed

lemma demo_alloc:
  assumes "heap_inv h" "0 < avail h" "small_class c" "gsp c = 1"
  shows "\<exists>h' p. alloc_class demo_ctx h c = Some (h', Some p) \<and> hands_out h h' c {#p#} \<and> heap_step h h' \<and> heap_act (Alloc c (Some p)) h h'"
proof -
  have cv: "carvable h c" using assms(4) by (simp add: carvable_def)
  obtain h' r where r: "alloc_class demo_ctx h c = Some (h', r)" "hands_out h h' c (case r of None \<Rightarrow> {#} | Some p \<Rightarrow> {#p#})" "r = None \<longrightarrow> avail h = 0"
    using alloc_class_ok [OF assms(1,3) cv] by blast
  have "heap_act (Alloc c r) h h'" using heap_act.alloc [OF assms(3) cv r(1)] .
  then show ?thesis using r assms(2) by (cases r) (auto simp: heap_step_def)
qed

lemma demo_class: "small_class 1" "gsp 1 = 1"
  by (simp_all add: small_class_def gsp_def div_ceil_def)

subsection \<open>The counters under migration\<close>

text \<open>\<open>add_local\<close> is its loads and stores in their order, without an interruption.\<close>

lemma add_local_split:
  "add_local cells cpu b n = do {
     lb \<leftarrow> load_bytes cells cpu;
     cells1 \<leftarrow> store_bytes cells cpu (lb + of_int b);
     lo \<leftarrow> load_objs cells1 cpu;
     store_objs cells1 cpu (lo + of_int n)
   }"
  by (auto simp: add_local_def load_bytes_def store_bytes_def load_objs_def store_objs_def idx_def upd_def counter_cell_def)

text \<open>
  An update of the same cell that falls between the load and the store of the bytes is lost: the
  bytes of the other thread never arrive.
\<close>

lemma add_local_lost:
  assumes "cells \<noteq> []"
  shows "\<exists>lb cs1 cs2 lo cs3. load_bytes cells cpu = Some lb \<and> add_local cells cpu b' n' = Some cs1 \<and>
    store_bytes cs1 cpu (lb + of_int b) = Some cs2 \<and> load_objs cs2 cpu = Some lo \<and> store_objs cs2 cpu (lo + of_int n) = Some cs3 \<and>
    add_local cells cpu b (n' + n) = Some cs3"
proof -
  have "counter_cell cells cpu < length cells" using assms by (cases cells) (auto simp: counter_cell_def)
  then show ?thesis
    by (auto simp: load_bytes_def store_bytes_def load_objs_def store_objs_def add_local_def idx_def upd_def counter_cell_def nth_list_update add.assoc)
qed

subsection \<open>Properties\<close>

text \<open>
  C2. Memory safety of histories: in every state reached from a freshly built sub-heap by any
  sequence of allocations, releases, batches, large allocations, reclaims and supervisor steps,
  two different live blocks never overlap. The steps are those of \<open>heap_act\<close>: an object is released
  only while it is live; a class above 64 KiB is allocated only while the spans left in the arena
  are none, or enough for one object (one allocation), or whole objects of the class or enough for
  the batch (a batch); a large request has fewer than 2 ^ 32 spans.
\<close>

theorem heap_no_overlap:
  assumes "build_ok bl base" "build_at bl base = Some h0" "heap_step\<^sup>*\<^sup>* h0 h"
    and "live_block h (p, n)" "live_block h (q, m)" "(p, n) \<noteq> (q, m)"
  shows "p + n \<le> q \<or> q + m \<le> p"
proof -
  have i: "heap_inv h0" "acct h0" using build_at_ok [OF assms(1)] assms(2)
    by (auto simp: acct_def live_total_def live_count_def sum_list_replicate)
  have "heap_inv h" using heap_steps_inv [OF assms(3) i] by blast
  then show ?thesis using blocks_disjoint assms(4-6) by blast
qed

theorem heap_no_overlap_witness:
  "\<exists>h0 h p q. build_at demo_builder 65536 = Some h0 \<and> heap_step\<^sup>*\<^sup>* h0 h \<and> live_block h (p, 65536) \<and> live_block h (q, 65536) \<and>
     (p + 65536 \<le> q \<or> q + 65536 \<le> p)"
proof -
  obtain h0 where h0: "build_at demo_builder 65536 = Some h0" "heap_inv h0" "avail h0 = 16" using demo_heap by blast
  obtain h1 a where 1: "heap_step h0 h1" "run_granted h0 h1 a 1" using demo_large [OF h0(2)] h0(3) by auto
  have i1: "heap_inv h1" "1 \<le> avail h1" using 1(2) h0(3) by (auto simp: run_granted_def)
  obtain h b where 2: "heap_step h1 h" "run_granted h1 h b 1" using demo_large [OF i1] by blast
  have g: "nsp h1 = nsp h0" "nsp h = nsp h0" "hbase h = hbase h0" "a < nsp h0" "b < nsp h0" "length (run_spans (large h0)) = nsp h0"
    "run_spans (large h) = (run_spans (large h0))[a := 1, b := 1]" "(run_spans (large h0))[a := 1] ! b = 0"
    using 1(2) 2(2) run_len [OF h0(2)] by (auto simp: run_granted_def)
  have ne: "a \<noteq> b" using g by auto
  have b: "live_block h (hbase h + a * SPAN_BYTES, 65536)" "live_block h (hbase h + b * SPAN_BYTES, 65536)"
    using g ne unfolding live_block_def by (auto intro!: exI [of _ a] exI [of _ b])
  have st: "heap_step\<^sup>*\<^sup>* h0 h" using 1(1) 2(1) by (meson r_into_rtranclp rtranclp.rtrancl_into_rtrancl)
  have "hbase h + a * SPAN_BYTES + 65536 \<le> hbase h + b * SPAN_BYTES \<or> hbase h + b * SPAN_BYTES + 65536 \<le> hbase h + a * SPAN_BYTES"
    using heap_no_overlap [OF demo_build h0(1) st b] ne by auto
  then show ?thesis using h0(1) st b by blast
qed

text \<open>
  C9. Bounds of histories: in every state reached by the same histories as above (classes above
  64 KiB only from an arena without a short tail for them, large requests below 2 ^ 32 spans) a
  live block is not empty and lies inside the arena of the sub-heap.
\<close>

theorem heap_blocks_inside:
  assumes "build_ok bl base" "build_at bl base = Some h0" "heap_step\<^sup>*\<^sup>* h0 h" "live_block h (p, n)"
  shows "0 < n \<and> hbase h \<le> p \<and> p + n \<le> hbase h + budget_bytes h"
proof -
  have i: "heap_inv h0" "acct h0" using build_at_ok [OF assms(1)] assms(2)
    by (auto simp: acct_def live_total_def live_count_def sum_list_replicate)
  have "heap_inv h" using heap_steps_inv [OF assms(3) i] by blast
  then show ?thesis using block_bounds assms(4) by blast
qed

theorem heap_blocks_inside_witness:
  "\<exists>h0 h p. build_at demo_builder 65536 = Some h0 \<and> heap_step\<^sup>*\<^sup>* h0 h \<and> live_block h (p, 8) \<and> hbase h \<le> p \<and> p + 8 \<le> hbase h + budget_bytes h"
proof -
  obtain h0 where h0: "build_at demo_builder 65536 = Some h0" "heap_inv h0" "avail h0 = 16" using demo_heap by blast
  obtain h p where 1: "hands_out h0 h 1 {#p#}" "heap_step h0 h" using demo_alloc [OF h0(2) _ demo_class] h0(3) by auto
  have "live_block h (p, 8)" using 1(1) demo_class(1) by (auto simp: live_block_def hands_out_def intro!: exI [of _ 1])
  moreover have st: "heap_step\<^sup>*\<^sup>* h0 h" using 1(2) by blast
  ultimately show ?thesis using heap_blocks_inside [OF demo_build h0(1) st, of p 8] h0(1) by blast
qed

text \<open>
  C3. The live counters are exact when their updates do not interleave: in every state reached by
  the same histories, in which each call of \<open>add_local\<close> is one step, \<open>live_bytes\<close> and \<open>live_objects\<close>
  are the total size and the number of the live blocks (as long as these fit a signed 64-bit
  integer). A thread that migrates inside \<open>add_local\<close> can lose another thread's delta
  (\<open>add_local_lost\<close>); such schedules are outside this statement.
\<close>

theorem heap_accounting:
  assumes "build_ok bl base" "build_at bl base = Some h0" "heap_step\<^sup>*\<^sup>* h0 h" "live_total h < 2 ^ 63" "live_count h < 2 ^ 63"
  shows "live_bytes h = live_total h \<and> live_objects h = live_count h"
proof -
  have i: "heap_inv h0" "acct h0" using build_at_ok [OF assms(1)] assms(2)
    by (auto simp: acct_def live_total_def live_count_def sum_list_replicate)
  have "acct h" using heap_steps_inv [OF assms(3) i] by blast
  then show ?thesis using live_bytes_total live_objects_total assms(4,5) by blast
qed

theorem heap_accounting_witness:
  "\<exists>h0 h. build_at demo_builder 65536 = Some h0 \<and> heap_step\<^sup>*\<^sup>* h0 h \<and> live_bytes h = 8 \<and> live_objects h = 1"
proof -
  obtain h0 where h0: "build_at demo_builder 65536 = Some h0" "heap_inv h0" "avail h0 = 16" "acct h0" "\<forall>c. live_objs h0 c = {#}"
    "\<forall>a<nsp h0. run_spans (large h0) ! a = 0" using demo_heap by blast
  obtain h p where 1: "hands_out h0 h 1 {#p#}" "heap_step h0 h" using demo_alloc [OF h0(2) _ demo_class] h0(3) by auto
  have rs: "run_spans (large h) = run_spans (large h0)" "\<forall>n\<in>set (run_spans (large h0)). n = 0"
    using 1(1) h0(6) run_len [OF h0(2)] by (auto simp: hands_out_def same_frame_def in_set_conv_nth)
  have l: "live_objs h 1 = {#p#}" "\<forall>d. small_class d \<and> d \<noteq> 1 \<longrightarrow> live_objs h d = {#}" using 1(1) h0(5) by (simp_all add: hands_out_def)
  have z: "(\<Sum>n\<leftarrow>run_spans (large h0). n * 65536) = 0" "filter (\<lambda>n. 0 < n) (run_spans (large h0)) = []"
    using rs(2) by (auto simp: filter_empty_conv)
  have "live_total h = 8" "live_count h = 1"
    using class_sum [OF demo_class(1), of "\<lambda>d. CLASS_SIZES ! d * size (live_objs h d)" 8 "\<lambda>_. 0"]
      class_sum [OF demo_class(1), of "\<lambda>d. size (live_objs h d)" 1 "\<lambda>_. 0"] l z rs(1) by (simp_all add: live_total_def live_count_def)
  moreover have st: "heap_step\<^sup>*\<^sup>* h0 h" using 1(2) by blast
  ultimately have "live_bytes h = 8 \<and> live_objects h = 1" using heap_accounting [OF demo_build h0(1) st] by simp
  then show ?thesis using h0(1) st by blast
qed

text \<open>
  C7. Allocation of a small object never panics (for a class above 64 KiB: when the arena has no
  span left or at least those of one object). When it returns an object, the object was not
  live, it is now the only new live object, and the counters are charged for exactly it; it
  fails, without any change of the live objects, only when the arena is exhausted.
\<close>

theorem alloc_class_fresh:
  assumes "heap_inv h" "small_class c" "gsp c = 1 \<or> room h (gsp c)"
  shows "\<exists>h' r. alloc_class x h c = Some (h', r) \<and> heap_inv h' \<and>
    (case r of
       None \<Rightarrow> avail h = 0 \<and> live_objs h' c = live_objs h c \<and> bsum h' = bsum h
     | Some p \<Rightarrow> p \<notin># live_objs h c \<and> live_objs h' c = add_mset p (live_objs h c) \<and>
         bsum h' = bsum h + of_nat (CLASS_SIZES ! c) \<and> osum h' = osum h + 1) \<and>
    (\<forall>d. small_class d \<and> d \<noteq> c \<longrightarrow> live_objs h' d = live_objs h d)"
proof -
  have cv: "carvable h c" using assms(3) by (simp add: carvable_def)
  obtain h' r where r: "alloc_class x h c = Some (h', r)" "hands_out h h' c (case r of None \<Rightarrow> {#} | Some p \<Rightarrow> {#p#})" "r = None \<longrightarrow> avail h = 0"
    using alloc_class_ok [OF assms(1,2) cv] by blast
  obtain ls where ls: "hinv h' ls" using r(2) by (auto simp: hands_out_def heap_inv_def)
  have "p \<notin># live_objs h c" if "r = Some p" for p
    using count_disjoint [OF ls assms(2), of p "live_objs h c"] r(2) that by (simp add: hands_out_def)
  then show ?thesis using r by (intro exI [of _ h'] exI [of _ r]) (cases r; simp add: hands_out_def)
qed

theorem alloc_class_fresh_witness:
  "\<exists>h h' r. build_at demo_builder 65536 = Some h \<and> alloc_class demo_ctx h 1 = Some (h', r) \<and> r \<noteq> None \<and> heap_inv h'"
proof -
  obtain h where h: "build_at demo_builder 65536 = Some h" "heap_inv h" "avail h = 16" using demo_heap by blast
  have "gsp 1 = 1 \<or> room h (gsp 1)" using demo_class(2) by simp
  from alloc_class_fresh [OF h(2) demo_class(1) this, of demo_ctx] obtain h' r where
    "alloc_class demo_ctx h 1 = Some (h', r)" "heap_inv h'" "r = None \<longrightarrow> avail h = 0" by (auto split: option.splits)
  then show ?thesis using h by auto
qed

text \<open>
  C8. Releasing a live small object never panics, removes exactly that object from the live
  objects of its class, leaves the other classes alone and takes its charge back.
\<close>

theorem dealloc_class_returns:
  assumes "heap_inv h" "small_class c" "p \<in># live_objs h c"
  shows "\<exists>h'. dealloc_class x h p c = Some h' \<and> heap_inv h' \<and> live_objs h' c = live_objs h c - {#p#} \<and>
    (\<forall>d. small_class d \<and> d \<noteq> c \<longrightarrow> live_objs h' d = live_objs h d) \<and>
    bsum h' = bsum h - of_nat (CLASS_SIZES ! c) \<and> osum h' = osum h - 1"
proof -
  obtain h' where "dealloc_class x h p c = Some h'" "takes_back h h' c {#p#}" using dealloc_class_ok [OF assms] by blast
  then show ?thesis by (intro exI [of _ h']) (simp add: takes_back_def)
qed

theorem dealloc_class_returns_witness:
  "\<exists>h p h'. heap_inv h \<and> p \<in># live_objs h 1 \<and> dealloc_class demo_ctx h p 1 = Some h' \<and> live_objs h' 1 = {#}"
proof -
  obtain h0 where h0: "heap_inv h0" "avail h0 = 16" "live_objs h0 1 = {#}" using demo_heap by blast
  obtain h p where 1: "hands_out h0 h 1 {#p#}" using demo_alloc [OF h0(1) _ demo_class] h0(2) by auto
  have i: "heap_inv h" "p \<in># live_objs h 1" "live_objs h 1 = {#p#}" using 1 h0(3) by (simp_all add: hands_out_def)
  from dealloc_class_returns [OF i(1) demo_class(1) i(2), of demo_ctx] show ?thesis using i by auto
qed

text \<open>
  Releasing what was just allocated restores the live objects of every class and both
  counters, whatever the two operations did with caches, bitmaps and spans in between.
\<close>

theorem alloc_free_roundtrip:
  assumes "heap_inv h" "small_class c" "gsp c = 1 \<or> room h (gsp c)" "alloc_class x h c = Some (h1, Some p)"
  shows "\<exists>h2. dealloc_class y h1 p c = Some h2 \<and> heap_inv h2 \<and> (\<forall>d. small_class d \<longrightarrow> live_objs h2 d = live_objs h d) \<and>
    live_bytes h2 = live_bytes h \<and> live_objects h2 = live_objects h"
proof -
  have cv: "carvable h c" using assms(3) by (simp add: carvable_def)
  have o: "hands_out h h1 c {#p#}" using alloc_class_ok [OF assms(1,2) cv, of x] assms(4) by auto
  then obtain h2 where h2: "dealloc_class y h1 p c = Some h2" "takes_back h1 h2 c {#p#}"
    using dealloc_class_ok [of h1 c p y] assms(2) by (auto simp: hands_out_def)
  have "live_objs h2 d = live_objs h d" if "small_class d" for d
    using o h2(2) that by (cases "d = c") (simp_all add: hands_out_def takes_back_def)
  moreover have "bsum h2 = bsum h" "osum h2 = osum h" using o h2(2) by (simp_all add: hands_out_def takes_back_def)
  ultimately show ?thesis using h2 by (auto simp: takes_back_def live_bytes_def live_objects_def total_bytes_def total_objs_def bsum_def osum_def)
qed

theorem alloc_free_roundtrip_witness:
  "\<exists>h h1 p h2. alloc_class demo_ctx h 1 = Some (h1, Some p) \<and> dealloc_class demo_ctx h1 p 1 = Some h2 \<and> live_bytes h2 = live_bytes h"
proof -
  obtain h where h: "heap_inv h" "avail h = 16" using demo_heap by blast
  obtain h1 p where 1: "alloc_class demo_ctx h 1 = Some (h1, Some p)" using demo_alloc [OF h(1) _ demo_class] h(2) by auto
  have "gsp 1 = 1 \<or> room h (gsp 1)" using demo_class(2) by simp
  from alloc_free_roundtrip [OF h(1) demo_class(1) this 1, of demo_ctx] show ?thesis using 1 by blast
qed

text \<open>
  C20. A large allocation of fewer than 2 ^ 32 spans succeeds exactly when a run of the needed spans is free in the index or
  left in the arena, and then grants a span-aligned run that no live run starts in; a request
  that fails changes nothing that is live.
\<close>

theorem alloc_large_exact:
  assumes "heap_inv h" "large_count sz < 2 ^ 32"
  shows "\<exists>h' r. alloc_large x h sz = Some (h', r) \<and> heap_inv h' \<and> live_objs h' = live_objs h \<and> (r \<noteq> None \<longleftrightarrow> run_fits h (large_count sz)) \<and>
    (case r of None \<Rightarrow> large h' = large h
     | Some p \<Rightarrow> \<exists>a. p = hbase h + a * SPAN_BYTES \<and> a + large_count sz \<le> nsp h \<and> run_spans (large h) ! a = 0 \<and>
         run_spans (large h') = (run_spans (large h))[a := large_count sz])"
proof -
  obtain h' r where r: "alloc_large x h sz = Some (h', r)"
    "case r of None \<Rightarrow> heap_inv h' \<and> live_objs h' = live_objs h \<and> large h' = large h \<and> counters h' = counters h \<and> \<not> run_fits h (large_count sz)
     | Some p \<Rightarrow> \<exists>a. p = hbase h + a * SPAN_BYTES \<and> run_granted h h' a (large_count sz)"
    using alloc_large_ok [OF assms] by blast
  have "run_fits h (large_count sz)" if "r \<noteq> None"
    using alloc_large_fits [OF assms, of x h'] r(1) that by auto
  then show ?thesis using r by (intro exI [of _ h'] exI [of _ r]) (cases r; auto simp: run_granted_def)
qed


theorem alloc_large_exact_witness:
  "\<exists>h h' r. build_at demo_builder 65536 = Some h \<and> alloc_large demo_ctx h 65536 = Some (h', r) \<and> r \<noteq> None"
proof -
  obtain h where h: "build_at demo_builder 65536 = Some h" "heap_inv h" "avail h = 16" using demo_heap by blast
  have n: "large_count 65536 = 1" by (simp add: large_count_def div_ceil_def)
  have "run_fits h (large_count 65536)" using h(3) n by (simp add: run_fits_def)
  then show ?thesis using alloc_large_exact [OF h(2), of 65536 demo_ctx] h(1) n by auto
qed

text \<open>
  C21. Releasing a large run returns its spans to the free-run index and its charge to the
  counters. A release at a span where no live run starts, in particular a second release, panics
  in a build with debug assertions and is ignored in a release build: the state does not change.
\<close>

theorem dealloc_large_effect:
  assumes "heap_inv h" "a < nsp h"
  shows "if run_spans (large h) ! a = 0 then dealloc_large x h (hbase h + a * SPAN_BYTES) = (if debug_build x then None else Some h)
    else \<exists>h'. dealloc_large x h (hbase h + a * SPAN_BYTES) = Some h' \<and> heap_inv h' \<and> live_objs h' = live_objs h \<and>
       run_spans (large h') = (run_spans (large h))[a := 0] \<and>
       free_spans (la_pool (large h')) = free_spans (la_pool (large h)) \<union> {a..<a + run_spans (large h) ! a} \<and>
       bsum h' = bsum h - of_nat (run_spans (large h) ! a * SPAN_BYTES) \<and> osum h' = osum h - 1 \<and>
       dealloc_large x h' (hbase h + a * SPAN_BYTES) = (if debug_build x then None else Some h')"
proof (cases "run_spans (large h) ! a = 0")
  case True
  then show ?thesis using dealloc_large_ok [OF assms, of x] by simp
next
  case False
  then obtain h' where h': "dealloc_large x h (hbase h + a * SPAN_BYTES) = Some h'" and r: "run_returned h h' a (run_spans (large h) ! a)"
    using dealloc_large_ok [OF assms, of x] by auto
  then have i: "heap_inv h'" "a < nsp h'" "hbase h' = hbase h" "run_spans (large h') ! a = 0"
    using assms(2) run_len [OF assms(1)] by (simp_all add: run_returned_def)
  then have "dealloc_large x h' (hbase h + a * SPAN_BYTES) = (if debug_build x then None else Some h')" using dealloc_large_ok [OF i(1,2), of x] by simp
  then show ?thesis using h' r False by (simp add: run_returned_def)
qed

theorem dealloc_large_effect_witness:
  "\<exists>h a h'. run_spans (large h) ! a = 1 \<and> dealloc_large demo_ctx h (hbase h + a * SPAN_BYTES) = Some h' \<and>
     free_spans (la_pool (large h')) = free_spans (la_pool (large h)) \<union> {a} \<and> dealloc_large demo_ctx h' (hbase h + a * SPAN_BYTES) = Some h' \<and>
     dealloc_large (demo_ctx\<lparr>debug_build := True\<rparr>) h' (hbase h' + a * SPAN_BYTES) = None"
proof -
  obtain h0 where h0: "heap_inv h0" "avail h0 = 16" using demo_heap by blast
  obtain h a where 1: "run_granted h0 h a 1" using demo_large [OF h0(1)] h0(2) by auto
  have i: "heap_inv h" "a < nsp h" "run_spans (large h) ! a = 1" using 1 run_len [OF h0(1)] by (auto simp: run_granted_def)
  obtain h' where h': "dealloc_large demo_ctx h (hbase h + a * SPAN_BYTES) = Some h'" "heap_inv h'" "run_spans (large h') = (run_spans (large h))[a := 0]"
    "free_spans (la_pool (large h')) = free_spans (la_pool (large h)) \<union> {a}" "dealloc_large demo_ctx h' (hbase h + a * SPAN_BYTES) = Some h'"
    using dealloc_large_effect [OF i(1,2), of demo_ctx] i(3) by (auto simp: demo_ctx_def)
  have "a < nsp h'" "run_spans (large h') ! a = 0" using h'(2,3) i(2) run_len [OF i(1)] run_len [OF h'(2)] by simp_all
  then show ?thesis using i(3) h' dealloc_large_effect [OF h'(2), of a "demo_ctx\<lparr>debug_build := True\<rparr>"] by (intro exI [of _ h] exI [of _ a] exI [of _ h']) simp
qed

text \<open>
  C10. The batch release, which coalesces the deposits of remote objects word by word, is
  equivalent to releasing the objects one at a time: the same live objects and the same counters.
\<close>

theorem dealloc_batch_equiv:
  assumes "heap_inv h" "small_class c" "mset ps \<subseteq># live_objs h c"
  shows "\<exists>h1 h2. dealloc_class_batch x h ps c = Some h1 \<and> dealloc_each y ps c h = Some h2 \<and> heap_inv h1 \<and>
    (\<forall>d. small_class d \<longrightarrow> live_objs h1 d = live_objs h2 d) \<and> live_objs h c = mset ps + live_objs h1 c \<and>
    live_bytes h1 = live_bytes h2 \<and> live_objects h1 = live_objects h2"
proof -
  obtain h1 where 1: "dealloc_class_batch x h ps c = Some h1" "takes_back h h1 c (mset ps)" using dealloc_class_batch_ok [OF assms] by blast
  obtain h2 where 2: "dealloc_each y ps c h = Some h2" "takes_back h h2 c (mset ps)" using dealloc_each_ok [OF assms] by blast
  have "live_objs h1 d = live_objs h2 d" if "small_class d" for d
    using 1(2) 2(2) that by (cases "d = c") (simp_all add: takes_back_def)
  moreover have "bsum h1 = bsum h2" "osum h1 = osum h2" using 1(2) 2(2) by (simp_all add: takes_back_def)
  ultimately show ?thesis using 1 2
    by (auto simp: takes_back_def live_bytes_def live_objects_def total_bytes_def total_objs_def bsum_def osum_def)
qed

theorem dealloc_batch_equiv_witness:
  "\<exists>h p h1 h2. p \<in># live_objs h 1 \<and> dealloc_class_batch demo_ctx h [p] 1 = Some h1 \<and> dealloc_each demo_ctx [p] 1 h = Some h2 \<and>
     live_bytes h1 = live_bytes h2"
proof -
  obtain h0 where h0: "heap_inv h0" "avail h0 = 16" "live_objs h0 1 = {#}" using demo_heap by blast
  obtain h p where 1: "hands_out h0 h 1 {#p#}" using demo_alloc [OF h0(1) _ demo_class] h0(2) by auto
  have i: "heap_inv h" "mset [p] \<subseteq># live_objs h 1" "p \<in># live_objs h 1" using 1 by (simp_all add: hands_out_def)
  from dealloc_batch_equiv [OF i(1) demo_class(1) i(2), of demo_ctx demo_ctx] show ?thesis using i(3) by blast
qed

text \<open>
  C18. Reclaiming empty spans always terminates without a panic, whatever the batch limit: it
  takes \<open>n\<close> spans out of the active lists, keeps every live object and every counter, and never
  removes a span from the free-run index.
\<close>

theorem reclaim_terminates:
  assumes "heap_inv h"
  shows "\<exists>h' n. reclaim_empty_spans x h cap = Some (h', n) \<and> heap_inv h' \<and> live_objs h' = live_objs h \<and> counters h' = counters h \<and>
    nlisted h' + n = nlisted h \<and> free_spans (la_pool (large h)) \<subseteq> free_spans (la_pool (large h'))"
  using reclaim_empty_spans_ok [OF assms, of x cap] by (auto simp: reclaimed_def)

theorem reclaim_terminates_witness:
  "\<exists>h h' n. build_at demo_builder 65536 = Some h \<and> reclaim_empty_spans demo_ctx h 4 = Some (h', n) \<and> heap_inv h'"
proof -
  obtain h where h: "build_at demo_builder 65536 = Some h" "heap_inv h" using demo_heap by blast
  then show ?thesis using reclaim_terminates [OF h(2), of demo_ctx 4] by blast
qed

text \<open>
  C4. The sub-heap refines an abstract allocator whose state is the set of the blocks handed out
  (class, address, length), started with none: along every history of operations with their
  arguments and results, a successful allocation, large allocation or batch adds exactly the
  blocks it returns, which were not handed out, lie inside the arena and apart from all others; a
  release or batch release removes exactly the blocks it names, a large release exactly the run
  that starts at its pointer, if any; failed allocations, reclaims, rebalances and stop flags
  leave the set as it is. The histories are those of \<open>heap_act\<close>: an object is released only while it
  is live, classes above 64 KiB are allocated only from an arena whose remaining spans hold whole
  objects of the class (\<open>carvable\<close>, \<open>batch_room\<close>; the other case is the short tail of the arena),
  and large requests are below 2 ^ 32 spans.
\<close>

theorem heap_refines_spec:
  assumes "build_ok bl base" "build_at bl base = Some h0" "runs heap_act ls h0 h"
  shows "runs (alloc_spec (hbase h0) (budget_bytes h0)) ls {} (blocks h)"
proof -
  have i: "heap_inv h0" "acct h0" "\<forall>c. live_objs h0 c = {#}" "run_spans (large h0) = replicate (nsp h0) 0"
    using build_at_ok [OF assms(1)] assms(2) by (auto simp: acct_def live_total_def live_count_def sum_list_replicate)
  then have "blocks h0 = {}" by (simp add: blocks_def)
  then show ?thesis using heap_runs_spec [OF assms(3) i(1,2)] by simp
qed

theorem heap_refines_spec_witness:
  "\<exists>h0 h p. build_at demo_builder 65536 = Some h0 \<and> runs heap_act [Alloc 1 (Some p), Free 1 p] h0 h \<and>
     runs (alloc_spec (hbase h0) (budget_bytes h0)) [Alloc 1 (Some p), Free 1 p] {} (blocks h)"
proof -
  obtain h0 where h0: "build_at demo_builder 65536 = Some h0" "heap_inv h0" "avail h0 = 16" using demo_heap by blast
  obtain h1 p where 1: "hands_out h0 h1 1 {#p#}" "heap_act (Alloc 1 (Some p)) h0 h1" using demo_alloc [OF h0(2) _ demo_class] h0(3) by auto
  have l: "p \<in># live_objs h1 1" "heap_inv h1" using 1(1) by (simp_all add: hands_out_def)
  then obtain h where h: "dealloc_class demo_ctx h1 p 1 = Some h" using dealloc_class_ok [OF _ demo_class(1)] by blast
  have r: "runs heap_act [Alloc 1 (Some p), Free 1 p] h0 h" using 1(2) heap_act.free [OF demo_class(1) l(1) h] by auto
  show ?thesis using heap_refines_spec [OF demo_build h0(1) r] r h0(1) by blast
qed

text \<open>
  C24. The short group at the end of the arena: when the arena has spans left but fewer than an
  object of a class above 64 KiB needs, and no run comes from the free-run index, carving does
  not fail. It lists an object that ends beyond the end of the arena, free for the next refill.
\<close>

theorem carve_tail_overruns:
  assumes "heap_inv h" "small_class c" "0 < avail h" "avail h < gsp c" "budget_bytes h mod SPAN_BYTES = 0" "pool_busy x (clock h)"
    and "cell < length (central_lists h)" "cell mod NUM_CLASSES = c"
  shows "\<exists>h' p. central_carve x h cell c sh batch = Some (h', 1) \<and> p \<in># held h' c \<and> ar_end (arena h) < p + CLASS_SIZES ! c"
proof -
  obtain ls where h: "hinv h ls" "sinv h" using assms(1) by (auto simp: heap_inv_def)
  have big: "65536 < CLASS_SIZES ! c" using gsp_one [OF assms(2)] assms(3,4) by (cases "65536 < CLASS_SIZES ! c") auto
  let ?h0 = "h\<lparr>clock := Suc (clock h)\<rparr>"
  note k = clock_hinv [OF h(1), of "Suc (clock h)"]
  have g0: "0 < gsp c" using assms(4) by simp
  obtain ar t m where c: "carve_spans (arena ?h0) (gsp c) c (as_u16 sh) (span_tab ?h0) =
      Some (ar, t, hbase ?h0 + carved ?h0 * 65536, hbase ?h0 + (carved ?h0 + m) * 65536)"
    "m = min (gsp c) ((ar_end (arena ?h0) - cursor (arena ?h0)) div 65536)" "handed ?h0 (?h0\<lparr>arena := ar, span_tab := t\<rparr>) ls (carved ?h0) m c"
    using carve_spans_ok [OF k(1) same_map_sinv [OF k(2) h(2)] g0, of c "as_u16 sh"] small_u16 [OF assms(2)] by (auto simp: as_u16_def)
  have m: "0 < m" using c(2) assms(3) g0 by (simp add: avail_def)
  let ?h1 = "?h0\<lparr>arena := ar, span_tab := t\<rparr>" and ?a = "carved h"
  note p = handed_parts [OF c(3)]
  have cv: "carved ?h0 = ?a" by (simp add: carved_def)
  have a: "?a < nsp ?h1" "class_at ?h1 ?a = c" "\<not> listed ?h1 ?a" using p(10,11) m unfolding cv by auto
  have cell: "cell < length (central_lists ?h1)" using assms(7) by simp
  obtain b h' where h': "alloc_set_mask (span_bm ?h1) ?a 0 1 = Some b" "activate (?h1\<lparr>span_bm := b\<rparr>) cell ?a = Some h'"
    "grows ?h1 h' ls (ls(cell := ?a # ls cell)) cell ?a 1"
    using carve_big_ok [OF p(1) a(1,3,2) assms(2) big_slots [OF big] cell assms(8)] by blast
  have so: "span_of (span_bm ?h1) (hbase h + ?a * 65536) = ?a" using span_of_base [OF hinv_parts(1) [OF p(1)] a(1)] by simp
  have "try_pool_alloc x h (gsp c) c (as_u16 sh) = Some (?h0, None)" using assms(6) by (simp add: try_pool_alloc_def)
  then have "carve_or_reuse_spans x h (gsp c) c (as_u16 sh) = Some (?h1, hbase h + ?a * 65536, hbase h + (?a + m) * 65536)"
    using c(1) cv by (simp add: carve_or_reuse_spans_def)
  then have run: "central_carve x h cell c sh batch = Some (h', 1)"
    using h'(1,2) so m big osz_rounded [OF assms(2)] size_of_small [OF assms(2)] small_u16 [OF assms(2)] by (simp add: central_carve_def gsp_def)
  let ?p = "hbase h + ?a * 65536"
  have g: "?a * 8192 \<in> ubits h'" "listed h' ?a" "class_at h' ?a = c" "hbase h' = hbase h" using h'(3) a(2) unfolding grows_def by auto
  have tile: "?a * 8192 \<in> tiles h' c" using g(2,3) nslots_bounds [OF assms(2)] by (simp add: tiles_def)
  have "?p = addr (hbase h') c (?a * 8192)" by (simp add: addr_def g(4))
  then have held: "?p \<in># held h' c" using g(1) tile by (auto simp: held_def)
  have cur: "cursor (arena h) = hbase h + ?a * 65536" "ar_end (arena h) = hbase h + budget_bytes h" "?a * 65536 \<le> budget_bytes h"
    using h(2) by (auto simp: sinv_def arena_ok_def)
  obtain q where q: "budget_bytes h = q * 65536" using assms(5) by (auto simp: mod_eq_0_iff_dvd elim: dvdE)
  have av: "avail h = q - ?a" using cur q by (simp add: avail_def flip: diff_mult_distrib)
  have "CLASS_SIZES ! c > (gsp c - 1) * 65536" using div_ceil_mult_less [of 65536 "CLASS_SIZES ! c"] g0 by (simp add: gsp_def diff_mult_distrib)
  moreover have "avail h * 65536 \<le> (gsp c - 1) * 65536" using assms(4) by (intro mult_le_mono1) simp
  ultimately have "avail h * 65536 < CLASS_SIZES ! c" by linarith
  then have "ar_end (arena h) < ?p + CLASS_SIZES ! c" using cur(2,3) q av by (simp add: diff_mult_distrib)
  then show ?thesis using run held by blast
qed

theorem carve_tail_overruns_witness:
  "\<exists>h h' p. build_at (demo_builder\<lparr>b_budget := 65536\<rparr>) 65536 = Some h \<and>
     central_carve (demo_ctx\<lparr>pool_busy := \<lambda>_. True\<rparr>) h 46 46 0 4 = Some (h', 1) \<and> p \<in># held h' 46 \<and> ar_end (arena h) < p + 131072"
proof -
  let ?b = "demo_builder\<lparr>b_budget := 65536\<rparr>"
  obtain h where h: "build_at ?b 65536 = Some h" "heap_inv h" "budget_bytes h = b_budget ?b" "avail h = b_budget ?b div SPAN_BYTES"
    using build_at_ok [OF demo_build_budget [of 65536]] by auto
  have c: "small_class 46" "gsp 46 = 2" "CLASS_SIZES ! 46 = 131072" by (simp_all add: small_class_def gsp_def div_ceil_def CLASS_SIZES_def)
  have l: "length (central_lists h) = 49"
    using h(1) by (auto simp: build_at_def demo_builder_def shard_count_def Let_def split: bind_splits)
  from carve_tail_overruns [OF h(2) c(1), of "demo_ctx\<lparr>pool_busy := \<lambda>_. True\<rparr>" 46 0 4] show ?thesis
    using h c l by simp
qed

end
