(* ===== verification/Reserve.thy ===== *)
theory Reserve
  imports Toccata_Prelude
begin

text \<open>
  The memory reservation (\<^verbatim>\<open>toccata-core/src/sys/reserve.rs\<close>) and the allocation-free decimal
  formatter it reports with (\<^verbatim>\<open>toccata-core/src/sys/diag.rs\<close>).

  The kernel is the parameter \<open>os\<close>: what \<open>mmap\<close> answers to a length and flags, what \<open>mlock2\<close>
  answers, the memory-lock limit, and the text of \<open>/proc/meminfo\<close>. \<open>reserve_with\<close> returns the
  calls it made in order together with its result, so that statements about what stays mapped
  and what the kernel was asked to populate are statements about that trace. The \<open>mmap\<close> flags are the record
  \<open>map_flags\<close>; every mapping is private and anonymous.
\<close>

subsection \<open>Options\<close>

datatype 'a require = Off | BestEffort 'a | Required 'a

primrec req_value :: "'a require \<Rightarrow> 'a option" where
  "req_value Off = None"
| "req_value (BestEffort t) = Some t"
| "req_value (Required t) = Some t"

primrec is_required :: "'a require \<Rightarrow> bool" where
  "is_required Off = False"
| "is_required (BestEffort t) = False"
| "is_required (Required t) = True"

primrec is_off :: "'a require \<Rightarrow> bool" where
  "is_off Off = True"
| "is_off (BestEffort t) = False"
| "is_off (Required t) = False"

datatype backing = Anonymous

datatype huge_pages = HPDefault | HPSize nat

record reserve_opts =
  ro_len :: nat
  ro_backing :: backing
  ro_lock :: "unit require"
  ro_huge_pages :: "huge_pages require"
  ro_populate :: bool
  ro_dontdump :: bool

definition opts_new :: "nat \<Rightarrow> reserve_opts" where
  "opts_new n = \<lparr> ro_len = n, ro_backing = Anonymous, ro_lock = Required (), ro_huge_pages = Off,
     ro_populate = True, ro_dontdump = True \<rparr>"

definition with_huge_pages :: "reserve_opts \<Rightarrow> huge_pages \<Rightarrow> reserve_opts" where
  "with_huge_pages opts h = opts\<lparr>ro_huge_pages := Required h\<rparr>"

definition with_huge_pages_best_effort :: "reserve_opts \<Rightarrow> huge_pages \<Rightarrow> reserve_opts" where
  "with_huge_pages_best_effort opts h = opts\<lparr>ro_huge_pages := BestEffort h\<rparr>"

definition with_lock :: "reserve_opts \<Rightarrow> unit require \<Rightarrow> reserve_opts" where
  "with_lock opts mode = opts\<lparr>ro_lock := mode\<rparr>"

definition with_populate :: "reserve_opts \<Rightarrow> bool \<Rightarrow> reserve_opts" where
  "with_populate opts yes = opts\<lparr>ro_populate := yes\<rparr>"

definition with_dontdump :: "reserve_opts \<Rightarrow> bool \<Rightarrow> reserve_opts" where
  "with_dontdump opts yes = opts\<lparr>ro_dontdump := yes\<rparr>"

subsection \<open>Decimal numbers without allocation\<close>

text \<open>
  \<open>usize_to_dec\<close> fills a 20-byte buffer from its end: \<open>dec_fill\<close> is the loop, the buffer is the
  list of its bytes, and an index below the buffer start is a panic.
\<close>

function dec_fill :: "nat \<Rightarrow> nat \<Rightarrow> nat list \<Rightarrow> (nat \<times> nat list) rust" where
  "dec_fill n i buf =
     (if n = 0 then Some (i, buf)
      else if i = 0 then None
      else do {
        b \<leftarrow> upd buf (i - 1) (48 + n mod 10);
        dec_fill (n div 10) (i - 1) b
      })"
  by pat_completeness auto
termination
  by (relation "measure (\<lambda>(n, i, buf). n)") auto

declare dec_fill.simps [simp del]

definition usize_to_dec :: "nat \<Rightarrow> nat list \<Rightarrow> (nat list \<times> nat list) rust" where
  "usize_to_dec n buf =
     (if n = 0 then do {
        b \<leftarrow> upd buf 0 48;
        Some (b, take 1 b)
      }
      else do {
        (i, b) \<leftarrow> dec_fill n (length buf) buf;
        Some (b, drop i b)
      })"

subsection \<open>The kernel\<close>

record map_flags =
  mf_hugetlb :: "nat option"
  mf_populate :: bool

datatype rlimit = RlFailed | RlInfinity | RlCur nat

record os =
  os_mmap :: "nat \<Rightarrow> map_flags \<Rightarrow> nat + nat"
  os_mlock2 :: "nat \<Rightarrow> nat \<Rightarrow> nat option"
  os_rlimit :: rlimit
  os_meminfo :: "string option"

datatype advice = MADV_HUGEPAGE | MADV_WILLNEED | MADV_DONTDUMP

datatype sys_event =
    EvMmap nat map_flags "nat + nat"
  | EvMadvise nat nat advice
  | EvMlock nat nat "nat option"
  | EvMunmap nat nat
  | EvWrite "nat list"

datatype reserve_error =
    EMmap nat
  | EMlock nat nat nat
  | ERlimitTooLow nat nat
  | EInvalidConfig string

record reservation =
  res_base :: nat
  res_len :: nat
  res_locked :: bool
  res_huge_page_size :: "nat option"

definition U64_MAX :: nat where
  "U64_MAX = 2 ^ 64 - 1"

definition memlock_limit :: "os \<Rightarrow> nat" where
  "memlock_limit k = (case os_rlimit k of RlFailed \<Rightarrow> 0 | RlInfinity \<Rightarrow> U64_MAX | RlCur n \<Rightarrow> n)"

definition mmap_region :: "os \<Rightarrow> nat \<Rightarrow> map_flags \<Rightarrow> sys_event list \<times> (nat + nat)" where
  "mmap_region k n flags = ([EvMmap n flags (os_mmap k n flags)], os_mmap k n flags)"

definition bytes_of :: "string \<Rightarrow> nat list" where
  "bytes_of s = map of_char s"

definition warn_degraded :: "string \<Rightarrow> nat \<Rightarrow> sys_event list rust" where
  "warn_degraded prefix bytes = do {
     (b, s) \<leftarrow> usize_to_dec bytes (replicate 20 0);
     Some [EvWrite (bytes_of prefix), EvWrite s, EvWrite [93, 10]]
   }"

subsection \<open>Huge-page size\<close>

text \<open>The string functions of the Rust library that the parser of \<open>/proc/meminfo\<close> uses.\<close>

definition is_ws :: "char \<Rightarrow> bool" where
  "is_ws c \<longleftrightarrow> c \<in> {CHR '' '', CHR 0x09, CHR 0x0A, CHR 0x0B, CHR 0x0C, CHR 0x0D}"

definition newline :: char where
  "newline = CHR 0x0A"

function text_lines :: "string \<Rightarrow> string list" where
  "text_lines s =
     (if s = [] then []
      else let l = takeWhile (\<lambda>c. c \<noteq> newline) s in
        (if l \<noteq> [] \<and> last l = CHR 0x0D then butlast l else l) # text_lines (drop (length l + 1) s))"
  by pat_completeness auto
termination
  by (relation "measure length") (auto simp: length_drop)

declare text_lines.simps [simp del]

definition strip_prefix :: "string \<Rightarrow> string \<Rightarrow> string option" where
  "strip_prefix p s = (if take (length p) s = p then Some (drop (length p) s) else None)"

function split_whitespace :: "string \<Rightarrow> string list" where
  "split_whitespace s =
     (let t = dropWhile is_ws s in
      if t = [] then []
      else takeWhile (\<lambda>c. \<not> is_ws c) t # split_whitespace (dropWhile (\<lambda>c. \<not> is_ws c) t))"
  by pat_completeness auto
termination
proof (relation "measure length", goal_cases)
  case (2 s t)
  then have t: "t \<noteq> []" "length t \<le> length s" by (simp_all add: length_dropWhile_le)
  then have "\<not> is_ws (hd t)" using 2 hd_dropWhile [of is_ws s] by simp
  then have "dropWhile (\<lambda>c. \<not> is_ws c) t = dropWhile (\<lambda>c. \<not> is_ws c) (tl t)"
    using t(1) by (cases t) simp_all
  then have "length (dropWhile (\<lambda>c. \<not> is_ws c) t) \<le> length (tl t)" by (metis length_dropWhile_le)
  moreover have "length (tl t) < length t" using t(1) by (cases t) simp_all
  ultimately show ?case using t(2) by simp
qed simp

declare split_whitespace.simps [simp del]

definition is_digit_char :: "char \<Rightarrow> bool" where
  "is_digit_char c \<longleftrightarrow> 48 \<le> (of_char c :: nat) \<and> (of_char c :: nat) \<le> 57"

definition checked_usize :: "nat \<Rightarrow> nat option" where
  "checked_usize n = (if n < 2 ^ 64 then Some n else None)"

primrec parse_digits :: "nat \<Rightarrow> string \<Rightarrow> nat option" where
  "parse_digits acc [] = Some acc"
| "parse_digits acc (c # cs) =
     (if is_digit_char c
      then do { a \<leftarrow> checked_usize (acc * 10 + (of_char c - 48)); parse_digits a cs }
      else None)"

definition parse_usize :: "string \<Rightarrow> nat option" where
  "parse_usize s =
     (let t = (if s \<noteq> [] \<and> hd s = CHR ''+'' then tl s else s) in
      if t = [] then None else parse_digits 0 t)"

definition unit_mult :: "string \<Rightarrow> nat" where
  "unit_mult u = (if u = ''kB'' then 1024 else if u = ''MB'' then 1024 * 1024 else 1024)"

fun huge_size_of_lines :: "string list \<Rightarrow> nat option" where
  "huge_size_of_lines [] = None"
| "huge_size_of_lines (l # ls) =
     (case strip_prefix ''Hugepagesize:'' l of
        None \<Rightarrow> huge_size_of_lines ls
      | Some rest \<Rightarrow>
          (case split_whitespace rest of
             [] \<Rightarrow> None
           | v # us \<Rightarrow> do {
               val \<leftarrow> parse_usize v;
               sz \<leftarrow> checked_usize (val * unit_mult (case us of [] \<Rightarrow> ''kB'' | u # _ \<Rightarrow> u));
               if 0 < sz then Some sz else None
             }))"

definition default_huge_page_size :: "os \<Rightarrow> nat option" where
  "default_huge_page_size k = do { s \<leftarrow> os_meminfo k; huge_size_of_lines (text_lines s) }"

definition resolve_huge_pages :: "os \<Rightarrow> huge_pages \<Rightarrow> string + (nat \<times> nat)" where
  "resolve_huge_pages k h =
     (case (case h of
              HPSize n \<Rightarrow> if is_pow2 n then Inr n else Inl ''huge page size must be a power of two''
            | HPDefault \<Rightarrow> (case default_huge_page_size k of
                 None \<Rightarrow> Inl ''could not determine the default huge page size'' | Some n \<Rightarrow> Inr n)) of
        Inl why \<Rightarrow> Inl why
      | Inr sz \<Rightarrow> Inr (trailing_zeros_nat sz mod 64, sz))"

subsection \<open>The reservation\<close>

text \<open>
  The stages of \<open>reserve_with\<close>: \<open>choose_pages\<close> (mapping length, huge-page flag bits and size),
  \<open>preflight\<close> (the lock limit), \<open>map_pages\<close> (one \<open>mmap\<close> with a base-page retry), \<open>hint_pages\<close>
  and \<open>lock_pages\<close>.
\<close>

definition WARN_LIMIT :: string where
  "WARN_LIMIT = ''toccata: reservation lock requested (best-effort) but RLIMIT_MEMLOCK too low; proceeding UNLOCKED, never-stall forfeited [bytes=''"

definition WARN_HUGE :: string where
  "WARN_HUGE = ''toccata: huge pages requested (best-effort) but mmap failed; falling back to base pages [bytes=''"

definition WARN_MLOCK :: string where
  "WARN_MLOCK = ''toccata: reservation mlock2 failed (best-effort); proceeding UNLOCKED, never-stall forfeited [bytes=''"

definition choose_pages :: "os \<Rightarrow> reserve_opts \<Rightarrow> reserve_error + (nat \<times> (nat \<times> nat) option)" where
  "choose_pages k opts =
     (case req_value (ro_huge_pages opts) of
        None \<Rightarrow> Inr (ro_len opts, None)
      | Some h \<Rightarrow>
          (case resolve_huge_pages k h of
             Inr (flags, sz) \<Rightarrow> Inr ((div_ceil (ro_len opts) sz * sz) mod 2 ^ 64, Some (flags, sz))
           | Inl why \<Rightarrow>
               if is_required (ro_huge_pages opts) then Inl (EInvalidConfig why)
               else Inr (ro_len opts, None)))"

definition preflight :: "os \<Rightarrow> reserve_opts \<Rightarrow> nat \<Rightarrow> (sys_event list \<times> (reserve_error + unit)) rust" where
  "preflight k opts map_len =
     (let limit = memlock_limit k in
      if \<not> is_off (ro_lock opts) \<and> limit < map_len \<and> limit \<noteq> U64_MAX
      then if is_required (ro_lock opts) then Some ([], Inl (ERlimitTooLow limit map_len))
           else do { w \<leftarrow> warn_degraded WARN_LIMIT map_len; Some (w, Inr ()) }
      else Some ([], Inr ()))"

definition map_pages :: "os \<Rightarrow> reserve_opts \<Rightarrow> nat \<Rightarrow> (nat \<times> nat) option \<Rightarrow>
    (sys_event list \<times> (reserve_error + (nat \<times> nat \<times> nat option))) rust" where
  "map_pages k opts map_len hp =
     (let thp = (hp = None);
          flags = \<lparr> mf_hugetlb = map_option fst hp, mf_populate = ro_populate opts \<and> \<not> thp \<rparr>;
          (t1, r1) = mmap_region k map_len flags in
      case r1 of
        Inr p \<Rightarrow> if p = 0 then None else Some (t1, Inr (p, map_len, map_option snd hp))
      | Inl e1 \<Rightarrow>
          if \<not> thp \<and> \<not> is_required (ro_huge_pages opts) then do {
            w \<leftarrow> warn_degraded WARN_HUGE (ro_len opts);
            let (t2, r2) = mmap_region k (ro_len opts) \<lparr> mf_hugetlb = None, mf_populate = False \<rparr>;
            case r2 of
              Inr p \<Rightarrow> if p = 0 then None else Some (t1 @ w @ t2, Inr (p, ro_len opts, None))
            | Inl e2 \<Rightarrow> Some (t1 @ w @ t2, Inl (EMmap e2))
          }
          else Some (t1, Inl (EMmap e1)))"

definition hint_pages :: "reserve_opts \<Rightarrow> bool \<Rightarrow> nat \<Rightarrow> nat \<Rightarrow> sys_event list" where
  "hint_pages opts thp base map_len =
     (if thp then EvMadvise base map_len MADV_HUGEPAGE #
        (if ro_populate opts \<and> is_off (ro_lock opts) then [EvMadvise base map_len MADV_WILLNEED] else [])
      else [])"

definition lock_pages :: "os \<Rightarrow> reserve_opts \<Rightarrow> nat \<Rightarrow> nat \<Rightarrow> (sys_event list \<times> (reserve_error + bool)) rust" where
  "lock_pages k opts base map_len =
     (if is_off (ro_lock opts) then Some ([], Inr False)
      else let rc = os_mlock2 k base map_len; t = [EvMlock base map_len rc] in
        case rc of
          None \<Rightarrow> Some (t, Inr True)
        | Some e \<Rightarrow>
            if is_required (ro_lock opts)
            then Some (t @ [EvMunmap base map_len], Inl (EMlock e (memlock_limit k) map_len))
            else do { w \<leftarrow> warn_degraded WARN_MLOCK map_len; Some (t @ w, Inr False) })"

definition reserve_with :: "os \<Rightarrow> reserve_opts \<Rightarrow> (sys_event list \<times> (reserve_error + reservation)) rust" where
  "reserve_with k opts =
     (if ro_len opts = 0 then None
      else case choose_pages k opts of
        Inl e \<Rightarrow> Some ([], Inl e)
      | Inr (map_len, hp) \<Rightarrow> do {
          (t1, r1) \<leftarrow> preflight k opts map_len;
          case r1 of
            Inl e \<Rightarrow> Some (t1, Inl e)
          | Inr _ \<Rightarrow> do {
              (t2, r2) \<leftarrow> map_pages k opts map_len hp;
              case r2 of
                Inl e \<Rightarrow> Some (t1 @ t2, Inl e)
              | Inr (base, len, hp_size) \<Rightarrow> do {
                  let t3 = hint_pages opts (hp = None) base len;
                  (t4, r4) \<leftarrow> lock_pages k opts base len;
                  case r4 of
                    Inl e \<Rightarrow> Some (t1 @ t2 @ t3 @ t4, Inl e)
                  | Inr locked \<Rightarrow>
                      Some (t1 @ t2 @ t3 @ t4 @ (if ro_dontdump opts then [EvMadvise base len MADV_DONTDUMP] else []),
                            Inr \<lparr> res_base = base, res_len = len, res_locked = locked, res_huge_page_size = hp_size \<rparr>)
                }
            }
        })"

definition reserve :: "os \<Rightarrow> nat \<Rightarrow> (sys_event list \<times> (reserve_error + reservation)) rust" where
  "reserve k n = reserve_with k (opts_new n)"

definition reservation_drop :: "reservation \<Rightarrow> sys_event list" where
  "reservation_drop r = [EvMunmap (res_base r) (res_len r)]"

subsection \<open>Decimal digits\<close>

fun dec_digits :: "nat \<Rightarrow> nat list" where
  "dec_digits n = (if n = 0 then [] else dec_digits (n div 10) @ [48 + n mod 10])"

declare dec_digits.simps [simp del]

lemma dec_digits_0 [simp]: "dec_digits 0 = []"
  by (simp add: dec_digits.simps)

lemma dec_digits_step: "0 < n \<Longrightarrow> dec_digits n = dec_digits (n div 10) @ [48 + n mod 10]"
  by (simp add: dec_digits.simps [of n])

lemma dec_fill_digits:
  "length (dec_digits n) \<le> i \<Longrightarrow> i \<le> length buf \<Longrightarrow>
   dec_fill n i buf = Some (i - length (dec_digits n), take (i - length (dec_digits n)) buf @ dec_digits n @ drop i buf)"
proof (induction n i buf rule: dec_fill.induct)
  case (1 n i buf)
  show ?case
  proof (cases "n = 0")
    case False
    let ?b = "buf[i - 1 := 48 + n mod 10]" and ?d = "dec_digits (n div 10)"
    have d: "dec_digits n = ?d @ [48 + n mod 10]" using False dec_digits_step by simp
    have i: "0 < i" "i - 1 < length buf" "length ?d \<le> i - 1" "i - 1 \<le> length ?b"
      using "1.prems" d by auto
    have "dec_fill n i buf = dec_fill (n div 10) (i - 1) ?b"
      using False i by (simp add: dec_fill.simps [of n i buf])
    also have "\<dots> = Some (i - 1 - length ?d, take (i - 1 - length ?d) ?b @ ?d @ drop (i - 1) ?b)"
      using "1.IH" [of ?b] False i by simp
    also have "take (i - 1 - length ?d) ?b = take (i - 1 - length ?d) buf" by simp
    also have "drop (i - 1) ?b = (48 + n mod 10) # drop i buf"
      using i by (simp add: drop_update_swap Cons_nth_drop_Suc [symmetric])
    finally show ?thesis using d by simp
  qed (simp add: dec_fill.simps)
qed

lemma dec_digits_length: "n < 10 ^ k \<Longrightarrow> length (dec_digits n) \<le> k"
proof (induction n arbitrary: k rule: dec_digits.induct)
  case (1 n)
  show ?case
  proof (cases "n = 0")
    case False
    then obtain j where k: "k = Suc j" using "1.prems" by (cases k) auto
    then have "n div 10 < 10 ^ j" using "1.prems" by (simp add: div_less_iff_less_mult mult.commute)
    then show ?thesis using "1.IH" [of j] False k dec_digits_step [of n] by simp
  qed simp
qed

lemma parse_digits_snoc:
  "parse_digits acc (cs @ [c]) =
     do { a \<leftarrow> parse_digits acc cs; parse_digits a [c] }"
  by (induction cs arbitrary: acc) (auto split: bind_splits)

lemma parse_dec_digits:
  "n < 2 ^ 64 \<Longrightarrow> parse_digits 0 (map char_of (dec_digits n)) = Some n"
proof (induction n rule: dec_digits.induct)
  case (1 n)
  show ?case
  proof (cases "n = 0")
    case False
    have d: "48 + n mod 10 < 256" "n mod 10 < 10" by simp_all
    have c: "(of_char (char_of (48 + n mod 10)) :: nat) = 48 + n mod 10" using d by simp
    have "n div 10 < 2 ^ 64" using "1.prems" by (meson div_le_dividend le_less_trans)
    then have "parse_digits 0 (map char_of (dec_digits (n div 10))) = Some (n div 10)"
      using "1.IH" False by simp
    moreover have "n div 10 * 10 + n mod 10 = n" by simp
    ultimately show ?thesis
      using False "1.prems" c d dec_digits_step [of n]
      by (simp add: parse_digits_snoc is_digit_char_def checked_usize_def)
  qed simp
qed

lemma dec_digits_plus: "dec_digits n = c # cs \<Longrightarrow> 48 \<le> c \<and> c < 58"
proof (induction n arbitrary: c cs rule: dec_digits.induct)
  case (1 n)
  then show ?case
    by (cases "n = 0"; cases "dec_digits (n div 10)") (auto simp: dec_digits_step)
qed

lemma dec_digits_Nil_iff [simp]: "dec_digits n = [] \<longleftrightarrow> n = 0"
  by (simp add: dec_digits.simps [of n])

lemma digit_not_plus:
  assumes "48 \<le> (c::nat)" "c < 58"
  shows "char_of c \<noteq> CHR ''+''"
proof
  assume "char_of c = CHR ''+''"
  then have "(of_char (char_of c) :: nat) = of_char (CHR ''+'')" by simp
  then show False using assms by simp
qed

lemma usize_to_dec_ok:
  assumes "n < 2 ^ 64" "length buf = 20"
  shows "\<exists>b s. usize_to_dec n buf = Some (b, s) \<and> length b = 20 \<and> s \<noteq> [] \<and> parse_usize (map char_of s) = Some n"
proof (cases "n = 0")
  case True
  then show ?thesis
    using assms digit_not_plus [of 48] by (cases buf) (auto simp: usize_to_dec_def parse_usize_def is_digit_char_def checked_usize_def Let_def)
next
  case False
  let ?d = "dec_digits n"
  have "n < 10 ^ 20" using assms(1) by simp
  then have l: "length ?d \<le> 20" by (rule dec_digits_length)
  then have f: "dec_fill n 20 buf = Some (20 - length ?d, take (20 - length ?d) buf @ ?d)"
    using dec_fill_digits [of n 20 buf] assms(2) by simp
  obtain c cs where c: "?d = c # cs" using False by (cases ?d) simp_all
  have "char_of c \<noteq> CHR ''+''" using dec_digits_plus [OF c] digit_not_plus by blast
  then have "parse_usize (map char_of ?d) = Some n"
    using parse_dec_digits [OF assms(1)] c by (simp add: parse_usize_def Let_def)
  then show ?thesis
    using f False c l assms(2) by (auto simp: usize_to_dec_def)
qed

subsection \<open>What the trace leaves mapped\<close>

primrec map_effect :: "sys_event \<Rightarrow> (nat \<times> nat) list \<Rightarrow> (nat \<times> nat) list" where
  "map_effect (EvMmap n f r) ms = (case r of Inl e \<Rightarrow> ms | Inr p \<Rightarrow> (p, n) # ms)"
| "map_effect (EvMadvise p n a) ms = ms"
| "map_effect (EvMlock p n r) ms = ms"
| "map_effect (EvMunmap p n) ms = remove1 (p, n) ms"
| "map_effect (EvWrite bs) ms = ms"

definition mapped :: "sys_event list \<Rightarrow> (nat \<times> nat) list" where
  "mapped t = fold map_effect t []"

text \<open>
  The calls that ask the kernel to populate a region: a populating mapping and the will-need advice,
  neither of which promises that the pages are resident when it returns, and a successful \<open>mlock2\<close>,
  which does.
\<close>

primrec asks_populate :: "sys_event \<Rightarrow> bool" where
  "asks_populate (EvMmap n f r) \<longleftrightarrow> mf_populate f \<and> (case r of Inl e \<Rightarrow> False | Inr p \<Rightarrow> True)"
| "asks_populate (EvMadvise p n a) \<longleftrightarrow> a = MADV_WILLNEED"
| "asks_populate (EvMlock p n r) \<longleftrightarrow> r = None"
| "asks_populate (EvMunmap p n) \<longleftrightarrow> False"
| "asks_populate (EvWrite bs) \<longleftrightarrow> False"

definition populate_asked :: "sys_event list \<Rightarrow> bool" where
  "populate_asked t \<longleftrightarrow> (\<exists>e\<in>set t. asks_populate e)"

definition os_ok :: "os \<Rightarrow> bool" where
  "os_ok k \<longleftrightarrow> (\<forall>n f. os_mmap k n f \<noteq> Inr 0)"

text \<open>The request fits the address space after rounding to the huge-page size.\<close>

definition fits :: "os \<Rightarrow> reserve_opts \<Rightarrow> bool" where
  "fits k opts \<longleftrightarrow> 0 < ro_len opts \<and> ro_len opts < 2 ^ 64 \<and>
     (\<forall>h f sz. req_value (ro_huge_pages opts) = Some h \<longrightarrow> resolve_huge_pages k h = Inr (f, sz) \<longrightarrow>
        ro_len opts + sz \<le> 2 ^ 64)"

lemma huge_size_pos: "huge_size_of_lines ls = Some sz \<Longrightarrow> 0 < sz"
  by (induction ls) (auto split: option.splits list.splits bind_splits if_splits)

lemma resolve_pos:
  assumes "resolve_huge_pages k h = Inr (f, sz)"
  shows "0 < sz"
proof (cases h)
  case HPDefault
  then show ?thesis
    using assms huge_size_pos
    by (auto simp: resolve_huge_pages_def default_huge_page_size_def split: option.splits bind_splits)
next
  case (HPSize n)
  have "\<not> is_pow2 0" by (simp add: is_pow2_def count_ones_card)
  then show ?thesis using assms HPSize by (cases "n = 0") (auto simp: resolve_huge_pages_def split: if_splits)
qed

lemma warn_ok:
  assumes "n < 2 ^ 64"
  shows "\<exists>w. warn_degraded p n = Some w \<and> (\<forall>e\<in>set w. \<not> asks_populate e) \<and> (\<forall>ms. fold map_effect w ms = ms)"
proof -
  obtain b s where "usize_to_dec n (replicate 20 0) = Some (b, s)" using usize_to_dec_ok [OF assms, of "replicate 20 0"] by auto
  then show ?thesis by (simp add: warn_degraded_def)
qed

lemma choose_pages_ok:
  assumes "fits k opts" "choose_pages k opts = Inr (map_len, hp)"
  shows "ro_len opts \<le> map_len" "map_len < 2 ^ 64" "hp = None \<Longrightarrow> map_len = ro_len opts \<and> \<not> is_required (ro_huge_pages opts)"
    "hp = Some (f, sz) \<Longrightarrow> 0 < sz \<and> sz dvd map_len"
proof -
  have "ro_len opts \<le> map_len \<and> map_len < 2 ^ 64 \<and> (hp = None \<longrightarrow> map_len = ro_len opts \<and> \<not> is_required (ro_huge_pages opts)) \<and>
    (hp = Some (f, sz) \<longrightarrow> 0 < sz \<and> sz dvd map_len)"
  proof (cases "req_value (ro_huge_pages opts)")
    case None
    then show ?thesis using assms by (cases "ro_huge_pages opts") (auto simp: choose_pages_def fits_def)
  next
    case (Some h)
    show ?thesis
    proof (cases "resolve_huge_pages k h")
      case (Inl why)
      then show ?thesis using Some assms by (auto simp: choose_pages_def fits_def split: if_splits)
    next
      case (Inr a)
      obtain g z where a: "a = (g, z)" by (cases a)
      have z: "0 < z" using resolve_pos Inr a by simp
      have "ro_len opts + z \<le> 2 ^ 64" using assms(1) Some Inr a by (auto simp: fits_def)
      then have s: "div_ceil (ro_len opts) z * z < 2 ^ 64" using div_ceil_mult_less [OF z, of "ro_len opts"] by linarith
      then have "map_len = div_ceil (ro_len opts) z * z" "hp = Some (g, z)"
        using assms(2) Some Inr a by (auto simp: choose_pages_def)
      then show ?thesis using div_ceil_mult_ge [OF z, of "ro_len opts"] s z by auto
    qed
  qed
  then show "ro_len opts \<le> map_len" "map_len < 2 ^ 64" "hp = None \<Longrightarrow> map_len = ro_len opts \<and> \<not> is_required (ro_huge_pages opts)"
    "hp = Some (f, sz) \<Longrightarrow> 0 < sz \<and> sz dvd map_len" by simp_all
qed

lemma preflight_ok:
  assumes "map_len < 2 ^ 64"
  shows "\<exists>t r. preflight k opts map_len = Some (t, r) \<and> (\<forall>e\<in>set t. \<not> asks_populate e) \<and> (\<forall>ms. fold map_effect t ms = ms) \<and>
    (case r of Inl e \<Rightarrow> is_required (ro_lock opts) | Inr _ \<Rightarrow> True)"
  using warn_ok [OF assms, of WARN_LIMIT] by (auto simp: preflight_def Let_def)

lemma map_pages_ok:
  assumes "os_ok k" "fits k opts" "choose_pages k opts = Inr (map_len, hp)"
  shows "\<exists>t r. map_pages k opts map_len hp = Some (t, r) \<and>
    (case r of Inl e \<Rightarrow> fold map_effect t [] = []
     | Inr (base, n, sz) \<Rightarrow> fold map_effect t [] = [(base, n)] \<and> base \<noteq> 0 \<and> ro_len opts \<le> n \<and> n < 2 ^ 64 \<and>
         (sz = None \<longrightarrow> n = ro_len opts \<and> \<not> is_required (ro_huge_pages opts)) \<and>
         (\<forall>s. sz = Some s \<longrightarrow> s dvd n \<and> hp \<noteq> None) \<and>
         ((\<exists>e\<in>set t. asks_populate e) \<longleftrightarrow> ro_populate opts \<and> sz \<noteq> None))"
proof -
  note c = choose_pages_ok [OF assms(2,3)]
  have l: "ro_len opts < 2 ^ 64" using c by linarith
  obtain w where w: "warn_degraded WARN_HUGE (ro_len opts) = Some w" "\<forall>e\<in>set w. \<not> asks_populate e" "\<forall>ms. fold map_effect w ms = ms"
    using warn_ok [OF l] by blast
  have nz: "os_mmap k n f \<noteq> Inr 0" for n f using assms(1) by (simp add: os_ok_def)
  let ?f = "\<lparr> mf_hugetlb = map_option fst hp, mf_populate = ro_populate opts \<and> hp \<noteq> None \<rparr>"
  let ?g = "\<lparr> mf_hugetlb = None, mf_populate = False \<rparr>"
  show ?thesis
  proof (cases "os_mmap k map_len ?f")
    case (Inr p)
    then have "p \<noteq> 0" using nz [of map_len ?f] by auto
    then show ?thesis using Inr c by (cases hp) (auto simp: map_pages_def mmap_region_def Let_def)
  next
    case (Inl e)
    show ?thesis
    proof (cases "hp \<noteq> None \<and> \<not> is_required (ro_huge_pages opts)")
      case True
      then show ?thesis
        using Inl w l nz [of "ro_len opts" ?g]
        by (cases "os_mmap k (ro_len opts) ?g") (auto simp: map_pages_def mmap_region_def Let_def)
    next
      case False
      then show ?thesis using Inl by (auto simp: map_pages_def mmap_region_def Let_def)
    qed
  qed
qed

lemma hint_effect:
  "fold map_effect (hint_pages opts b base n) ms = ms"
  "(\<exists>e\<in>set (hint_pages opts b base n). asks_populate e) \<longleftrightarrow> b \<and> ro_populate opts \<and> is_off (ro_lock opts)"
  by (cases b; cases "ro_populate opts \<and> is_off (ro_lock opts)"; force simp: hint_pages_def)+

lemma lock_pages_ok:
  assumes "n < 2 ^ 64"
  shows "\<exists>t r. lock_pages k opts base n = Some (t, r) \<and>
    (case r of Inl e \<Rightarrow> \<forall>ms. fold map_effect t ((base, n) # ms) = ms
     | Inr b \<Rightarrow> (\<forall>ms. fold map_effect t ms = ms) \<and> (is_required (ro_lock opts) \<longrightarrow> b) \<and>
         (b \<longrightarrow> EvMlock base n None \<in> set t) \<and> ((\<exists>e\<in>set t. asks_populate e) \<longleftrightarrow> b))"
proof (cases "ro_lock opts")
  case Off
  then show ?thesis by (simp add: lock_pages_def)
next
  case (BestEffort u)
  obtain w where w: "warn_degraded WARN_MLOCK n = Some w" "\<forall>e\<in>set w. \<not> asks_populate e" "\<forall>ms. fold map_effect w ms = ms"
    using warn_ok [OF assms] by blast
  show ?thesis using BestEffort w by (cases "os_mlock2 k base n") (auto simp: lock_pages_def Let_def)
next
  case (Required u)
  then show ?thesis by (cases "os_mlock2 k base n") (auto simp: lock_pages_def Let_def)
qed

text \<open>The result of a reservation, with what its trace says of it.\<close>

definition good_reservation :: "os \<Rightarrow> reserve_opts \<Rightarrow> sys_event list \<Rightarrow> reservation \<Rightarrow> bool" where
  "good_reservation k opts t v \<longleftrightarrow> mapped t = [(res_base v, res_len v)] \<and> res_base v \<noteq> 0 \<and> ro_len opts \<le> res_len v \<and>
     (res_huge_page_size v = None \<longrightarrow> res_len v = ro_len opts \<and> \<not> is_required (ro_huge_pages opts)) \<and>
     (\<forall>s. res_huge_page_size v = Some s \<longrightarrow> s dvd res_len v) \<and>
     (is_required (ro_lock opts) \<longrightarrow> res_locked v) \<and>
     (res_locked v \<longrightarrow> EvMlock (res_base v) (res_len v) None \<in> set t)"

lemma reserve_with_ok:
  assumes "os_ok k" "fits k opts"
  shows "\<exists>t r. reserve_with k opts = Some (t, r) \<and>
    (case r of Inl e \<Rightarrow> mapped t = []
     | Inr v \<Rightarrow> good_reservation k opts t v \<and>
         (ro_populate opts \<longrightarrow> (populate_asked t \<longleftrightarrow> res_locked v \<or> res_huge_page_size v \<noteq> None \<or>
            (is_off (ro_lock opts) \<and> choose_pages k opts = Inr (ro_len opts, None)))))"
proof (cases "choose_pages k opts")
  case (Inl e)
  then show ?thesis using assms(2) by (simp add: reserve_with_def fits_def mapped_def)
next
  case (Inr a)
  obtain ml hp where a: "choose_pages k opts = Inr (ml, hp)" using Inr by (cases a) auto
  have z: "0 < ro_len opts" using assms(2) by (simp add: fits_def)
  note c = choose_pages_ok [OF assms(2) a]
  obtain t1 r1 where p: "preflight k opts ml = Some (t1, r1)" "\<forall>e\<in>set t1. \<not> asks_populate e" "\<forall>ms. fold map_effect t1 ms = ms"
    using preflight_ok [OF c(2)] by blast
  obtain t2 r2 where m: "map_pages k opts ml hp = Some (t2, r2)"
    "case r2 of Inl e \<Rightarrow> fold map_effect t2 [] = []
     | Inr (base, n, sz) \<Rightarrow> fold map_effect t2 [] = [(base, n)] \<and> base \<noteq> 0 \<and> ro_len opts \<le> n \<and> n < 2 ^ 64 \<and>
         (sz = None \<longrightarrow> n = ro_len opts \<and> \<not> is_required (ro_huge_pages opts)) \<and>
         (\<forall>s. sz = Some s \<longrightarrow> s dvd n \<and> hp \<noteq> None) \<and>
         ((\<exists>e\<in>set t2. asks_populate e) \<longleftrightarrow> ro_populate opts \<and> sz \<noteq> None)"
    using map_pages_ok [OF assms a] by blast
  show ?thesis
  proof (cases r1)
    case r1: (Inl e)
    then show ?thesis using a p z by (simp add: reserve_with_def mapped_def)
  next
    case r1: (Inr u)
    show ?thesis
    proof (cases r2)
      case r2: (Inl e)
      then show ?thesis using a p z r1 m by (simp add: reserve_with_def mapped_def)
    next
      case r2: (Inr b)
      obtain base n sz where b: "b = (base, n, sz)" by (cases b)
      have m': "fold map_effect t2 [] = [(base, n)]" "base \<noteq> 0" "ro_len opts \<le> n" "n < 2 ^ 64"
        "sz = None \<longrightarrow> n = ro_len opts \<and> \<not> is_required (ro_huge_pages opts)" "\<forall>s. sz = Some s \<longrightarrow> s dvd n \<and> hp \<noteq> None"
        "(\<exists>e\<in>set t2. asks_populate e) \<longleftrightarrow> ro_populate opts \<and> sz \<noteq> None"
        using m(2) r2 b by auto
      let ?t3 = "hint_pages opts (hp = None) base n"
      have h: "fold map_effect ?t3 ms = ms" "(\<exists>e\<in>set ?t3. asks_populate e) \<longleftrightarrow> hp = None \<and> ro_populate opts \<and> is_off (ro_lock opts)" for ms
        using hint_effect by simp_all
      obtain t4 r4 where l: "lock_pages k opts base n = Some (t4, r4)"
        "case r4 of Inl e \<Rightarrow> \<forall>ms. fold map_effect t4 ((base, n) # ms) = ms
         | Inr b \<Rightarrow> (\<forall>ms. fold map_effect t4 ms = ms) \<and> (is_required (ro_lock opts) \<longrightarrow> b) \<and>
             (b \<longrightarrow> EvMlock base n None \<in> set t4) \<and> ((\<exists>e\<in>set t4. asks_populate e) \<longleftrightarrow> b)"
        using lock_pages_ok [OF m'(4)] by blast
      have hp: "choose_pages k opts = Inr (ro_len opts, None) \<longleftrightarrow> hp = None" using a c(3) by auto
      show ?thesis
      proof (cases r4)
        case r4: (Inl e)
        then show ?thesis using a p z r1 r2 b m(1) m'(1) h(1) l by (simp add: reserve_with_def mapped_def)
      next
        case r4: (Inr q)
        let ?d = "if ro_dontdump opts then [EvMadvise base n MADV_DONTDUMP] else []"
        let ?t = "t1 @ t2 @ ?t3 @ t4 @ ?d"
        let ?v = "\<lparr> res_base = base, res_len = n, res_locked = q, res_huge_page_size = sz \<rparr>"
        have e: "reserve_with k opts = Some (?t, Inr ?v)"
          using a p z r1 r2 b m(1) l(1) r4 by (simp add: reserve_with_def)
        have l': "\<forall>ms. fold map_effect t4 ms = ms" "is_required (ro_lock opts) \<longrightarrow> q"
          "q \<longrightarrow> EvMlock base n None \<in> set t4" "(\<exists>e\<in>set t4. asks_populate e) \<longleftrightarrow> q" using l(2) r4 by simp_all
        have "mapped ?t = [(base, n)]" using p(3) m'(1) h(1) l'(1) by (simp add: mapped_def)
        then have g: "good_reservation k opts ?t ?v" using m' l' by (simp add: good_reservation_def)
        have "populate_asked ?t \<longleftrightarrow> (\<exists>e\<in>set t2. asks_populate e) \<or> (\<exists>e\<in>set ?t3. asks_populate e) \<or> (\<exists>e\<in>set t4. asks_populate e)"
          using p(2) by (auto simp: populate_asked_def)
        also have "\<dots> \<longleftrightarrow> ro_populate opts \<and> sz \<noteq> None \<or> hp = None \<and> ro_populate opts \<and> is_off (ro_lock opts) \<or> q"
          using m'(7) h(2) l'(4) by simp
        finally show ?thesis using e g hp by auto
      qed
    qed
  qed
qed

lemma warn_no_lock: "warn_degraded p n = Some w \<Longrightarrow> EvMlock q l r \<notin> set w"
  by (auto simp: warn_degraded_def split: bind_splits)

lemma preflight_no_lock: "preflight k opts ml = Some (t, r) \<Longrightarrow> EvMlock q l z \<notin> set t"
  by (auto simp: preflight_def Let_def warn_no_lock split: if_splits bind_splits)

lemma map_pages_no_lock: "map_pages k opts ml hp = Some (t, r) \<Longrightarrow> EvMlock q l z \<notin> set t"
  by (auto simp: map_pages_def mmap_region_def Let_def warn_no_lock split: if_splits bind_splits sum.splits)

lemma hint_no_lock: "EvMlock q l z \<notin> set (hint_pages opts b base n)"
  by (simp add: hint_pages_def)

lemma lock_pages_locks:
  "lock_pages k opts base n = Some (t, Inr b) \<Longrightarrow> EvMlock q l None \<in> set t \<Longrightarrow> b \<and> q = base \<and> l = n"
  by (auto simp: lock_pages_def Let_def warn_no_lock split: if_splits bind_splits option.splits)

lemma reserve_locks:
  assumes "reserve_with k opts = Some (t, Inr v)" "EvMlock q l None \<in> set t"
  shows "res_locked v \<and> q = res_base v \<and> l = res_len v"
proof -
  obtain ml hp where c: "choose_pages k opts = Inr (ml, hp)"
    using assms(1) by (auto simp: reserve_with_def split: if_splits sum.splits)
  obtain t1 u where p: "preflight k opts ml = Some (t1, Inr u)"
    using assms(1) c by (auto simp: reserve_with_def split: if_splits bind_splits sum.splits)
  obtain t2 base n sz where m: "map_pages k opts ml hp = Some (t2, Inr (base, n, sz))"
    using assms(1) c p by (auto simp: reserve_with_def split: if_splits bind_splits sum.splits)
  obtain t4 b where o: "lock_pages k opts base n = Some (t4, Inr b)"
    using assms(1) c p m by (auto simp: reserve_with_def Let_def split: if_splits bind_splits sum.splits)
  have e: "t = t1 @ t2 @ hint_pages opts (hp = None) base n @ t4 @ (if ro_dontdump opts then [EvMadvise base n MADV_DONTDUMP] else [])"
    "v = \<lparr> res_base = base, res_len = n, res_locked = b, res_huge_page_size = sz \<rparr>"
    using assms(1) c p m o by (auto simp: reserve_with_def Let_def split: if_splits)
  have "EvMlock q l None \<in> set t4"
    using assms(2) e(1) preflight_no_lock [OF p] map_pages_no_lock [OF m] hint_no_lock by (auto split: if_splits)
  then show ?thesis using lock_pages_locks [OF o] e(2) by simp
qed

subsection \<open>Properties\<close>

text \<open>A kernel without huge pages: it maps base pages at 1 MiB and lets everything be locked.\<close>

definition plain_os :: os where
  "plain_os = \<lparr> os_mmap = (\<lambda>n f. if mf_hugetlb f = None then Inr 1048576 else Inl 12), os_mlock2 = (\<lambda>p n. None),
     os_rlimit = RlInfinity, os_meminfo = None \<rparr>"

definition try_huge :: "unit require \<Rightarrow> reserve_opts" where
  "try_huge l = with_lock (with_huge_pages_best_effort (opts_new 5000) (HPSize 4096)) l"

lemma plain_os_ok: "os_ok plain_os"
  by (simp add: os_ok_def plain_os_def)

lemma try_huge_resolve: "resolve_huge_pages plain_os (HPSize 4096) = Inr (12, 4096)"
  using trailing_zeros_nat_power [of 12] by (simp add: resolve_huge_pages_def)

lemma try_huge_fits: "fits plain_os (try_huge l)"
  using try_huge_resolve
  by (simp add: fits_def try_huge_def with_lock_def with_huge_pages_best_effort_def opts_new_def)

lemma try_huge_reserve:
  "\<exists>t. reserve_with plain_os (try_huge Off) = Some (t, Inr \<lparr> res_base = 1048576, res_len = 5000, res_locked = False, res_huge_page_size = None \<rparr>)"
proof -
  obtain w where "warn_degraded WARN_HUGE 5000 = Some w" using warn_ok [of 5000 WARN_HUGE] by auto
  moreover have "choose_pages plain_os (try_huge Off) = Inr (8192, Some (12, 4096))"
    using try_huge_resolve
    by (simp add: choose_pages_def try_huge_def with_lock_def with_huge_pages_best_effort_def opts_new_def div_ceil_def)
  ultimately show ?thesis
    by (simp add: reserve_with_def preflight_def map_pages_def mmap_region_def lock_pages_def Let_def
        try_huge_def with_lock_def with_huge_pages_best_effort_def opts_new_def plain_os_def)
qed

text \<open>
  C31. A reservation either fails with nothing left mapped, or exactly the region it returns is
  left mapped. That region is at least as long as requested (exactly as long on base pages, a
  multiple of the page size on huge pages), a lock that was required has been taken, and the
  reported lock state and page size are those of the calls actually made. No request whose
  rounded length fits the address space panics, whatever the kernel answers.
\<close>

theorem reserve_outcome:
  assumes "os_ok k" "fits k opts"
  shows "\<exists>t r. reserve_with k opts = Some (t, r) \<and>
    (case r of Inl e \<Rightarrow> mapped t = [] | Inr v \<Rightarrow> good_reservation k opts t v)"
proof -
  obtain t r where r: "reserve_with k opts = Some (t, r)" "case r of Inl e \<Rightarrow> mapped t = [] | Inr v \<Rightarrow> good_reservation k opts t v \<and>
      (ro_populate opts \<longrightarrow> (populate_asked t \<longleftrightarrow> res_locked v \<or> res_huge_page_size v \<noteq> None \<or>
        (is_off (ro_lock opts) \<and> choose_pages k opts = Inr (ro_len opts, None))))"
    using reserve_with_ok [OF assms] by blast
  then show ?thesis by (cases r) simp_all
qed

theorem reserve_outcome_witness:
  "\<exists>t v. reserve_with plain_os (try_huge Off) = Some (t, Inr v) \<and> mapped t = [(1048576, 5000)]"
  using reserve_outcome [OF plain_os_ok try_huge_fits, of Off] try_huge_reserve by (auto simp: good_reservation_def)

text \<open>
  C32. When \<open>populate\<close> is requested, a successful reservation has asked the kernel to populate its
  region (by a populating mapping, a successful lock, or the will-need advice) exactly when the region
  is locked, or is on huge pages, or locking was off and no huge pages were considered. So after a
  best-effort huge-page request that falls back to base pages without a lock, and after a best-effort
  lock that fails on base pages, nothing has asked for the pages. The only request that guarantees
  residence, a successful \<open>mlock2\<close>, was made exactly when the region is reported as locked, and then on
  the whole region.
\<close>

theorem reserve_populate_requests:
  assumes "os_ok k" "fits k opts" "ro_populate opts" "reserve_with k opts = Some (t, Inr v)"
  shows "(populate_asked t \<longleftrightarrow> res_locked v \<or> res_huge_page_size v \<noteq> None \<or>
      (is_off (ro_lock opts) \<and> choose_pages k opts = Inr (ro_len opts, None))) \<and>
    (\<forall>p n. EvMlock p n None \<in> set t \<longleftrightarrow> res_locked v \<and> p = res_base v \<and> n = res_len v)"
proof -
  have g: "good_reservation k opts t v" "populate_asked t \<longleftrightarrow> res_locked v \<or> res_huge_page_size v \<noteq> None \<or>
      (is_off (ro_lock opts) \<and> choose_pages k opts = Inr (ro_len opts, None))"
    using reserve_with_ok [OF assms(1,2)] assms(3,4) by auto
  have "EvMlock (res_base v) (res_len v) None \<in> set t" if "res_locked v" using g(1) that by (simp add: good_reservation_def)
  then show ?thesis using g(2) reserve_locks [OF assms(4)] by blast
qed

theorem reserve_populate_requests_witness:
  "\<exists>t v. reserve_with plain_os (try_huge Off) = Some (t, Inr v) \<and> ro_populate (try_huge Off) \<and> \<not> populate_asked t"
proof -
  have p: "ro_populate (try_huge Off)" "ro_len (try_huge Off) = 5000"
    by (simp_all add: try_huge_def with_lock_def with_huge_pages_best_effort_def opts_new_def)
  have "choose_pages plain_os (try_huge Off) = Inr (8192, Some (12, 4096))"
    using try_huge_resolve
    by (simp add: choose_pages_def try_huge_def with_lock_def with_huge_pages_best_effort_def opts_new_def div_ceil_def)
  then show ?thesis
    using try_huge_reserve reserve_populate_requests [OF plain_os_ok try_huge_fits p(1)] p by fastforce
qed

text \<open>
  Formatting a number for a diagnostic never runs off its 20-byte buffer, and reading the
  printed bytes back as a decimal number gives the number.
\<close>

theorem usize_to_dec_roundtrip:
  assumes "n < 2 ^ 64" "length buf = 20"
  shows "\<exists>b s. usize_to_dec n buf = Some (b, s) \<and> length b = 20 \<and> parse_usize (map char_of s) = Some n"
  using usize_to_dec_ok [OF assms] by blast

theorem usize_to_dec_roundtrip_witness:
  "\<exists>b s. usize_to_dec 18446744073709551615 (replicate 20 0) = Some (b, s) \<and>
     parse_usize (map char_of s) = Some 18446744073709551615"
  using usize_to_dec_roundtrip [of 18446744073709551615 "replicate 20 0"] by auto

end
