(* ===== verification/Magazine.thy ===== *)
theory Magazine
  imports Cpu_Slab
begin

text \<open>
  The fixed-size stack of pointers that the thread caches are made of: \<open>len\<close> and \<open>ptrs\<close> of
  \<open>Magazine\<close> (\<^verbatim>\<open>toccata-core/src/magazine.rs\<close>) and of \<open>FrameCache\<close>
  (\<^verbatim>\<open>toccata-core/src/frame.rs\<close>).
\<close>

record magazine =
  mag_len :: nat
  mag_ptrs :: "nat list"

definition mag_new :: "nat \<Rightarrow> magazine" where
  "mag_new cap = \<lparr> mag_len = 0, mag_ptrs = replicate cap 0 \<rparr>"

text \<open>\<open>mag_take\<close> is \<open>len -= 1; ptrs[len]\<close>, \<open>mag_store\<close> is \<open>ptrs[len] = p; len += 1\<close>.\<close>

definition mag_take :: "magazine \<Rightarrow> (magazine \<times> nat) rust" where
  "mag_take m =
     (if mag_len m = 0 then None
      else do { p \<leftarrow> idx (mag_ptrs m) (mag_len m - 1); Some (m\<lparr>mag_len := mag_len m - 1\<rparr>, p) })"

definition mag_store :: "magazine \<Rightarrow> nat \<Rightarrow> magazine rust" where
  "mag_store m p = do {
     ps \<leftarrow> upd (mag_ptrs m) (mag_len m) p;
     Some (m\<lparr>mag_ptrs := ps, mag_len := mag_len m + 1\<rparr>)
   }"

definition mag_objs :: "magazine \<Rightarrow> nat list" where
  "mag_objs m = take (mag_len m) (mag_ptrs m)"

definition mag_ok :: "nat \<Rightarrow> magazine \<Rightarrow> bool" where
  "mag_ok cap m \<longleftrightarrow> mag_len m \<le> cap \<and> length (mag_ptrs m) = cap"

lemma mag_new_ok [simp]: "mag_ok cap (mag_new cap)" "mag_objs (mag_new cap) = []" "mag_len (mag_new cap) = 0"
  by (simp_all add: mag_ok_def mag_new_def mag_objs_def)

lemma mag_objs_length [simp]: "mag_ok cap m \<Longrightarrow> length (mag_objs m) = mag_len m"
  by (simp add: mag_ok_def mag_objs_def)

lemma mag_objs_empty: "mag_ok cap m \<Longrightarrow> mag_objs m = [] \<longleftrightarrow> mag_len m = 0"
  by (metis length_0_conv mag_objs_length)

lemma mag_take_ok:
  assumes "mag_ok cap m" "0 < mag_len m"
  shows "\<exists>m' p. mag_take m = Some (m', p) \<and> mag_ok cap m' \<and> mag_objs m = mag_objs m' @ [p] \<and> mag_len m' = mag_len m - 1"
proof -
  have l: "mag_len m - 1 < length (mag_ptrs m)" using assms by (auto simp: mag_ok_def)
  then show ?thesis
    using take_Suc_conv_app_nth [OF l] assms by (auto simp: mag_take_def mag_ok_def mag_objs_def)
qed

lemma mag_store_ok:
  assumes "mag_ok cap m" "mag_len m < cap"
  shows "\<exists>m'. mag_store m p = Some m' \<and> mag_ok cap m' \<and> mag_objs m' = mag_objs m @ [p] \<and> mag_len m' = mag_len m + 1"
  using assms by (auto simp: mag_store_def mag_ok_def mag_objs_def take_Suc_conv_app_nth)

end
