(* ===== verification/Frame_Pool.thy ===== *)
theory Frame_Pool
  imports Magazine Reserve
begin

text \<open>
  The frame pool (\<^verbatim>\<open>toccata-core/src/frame.rs\<close>, up to and including \<open>FrameCache\<close>): metadata
  policies, the region, the central stack, the pool over a single-class per-CPU slab, and the
  thread caches in front of it.

  A frame is its address. The trait \<open>FrameMeta\<close> is the record \<open>frame_meta\<close> of its default value and
  its two hooks, passed to the operations that call them. What the slab operations of a thread
  observe is a sequence of \<open>env\<close>, indexed by the clock of the pool. The spin lock of the central
  stack makes a refill and a drain atomic. An out-of-range access is a panic (\<open>None\<close>).
\<close>

subsection \<open>Metadata policies\<close>

datatype reclaim = Free | Keep

text \<open>A \<open>FrameMeta\<close> implementation: the initial value and the two hooks.\<close>

record 'm frame_meta =
  fm_default :: 'm
  on_alloc :: "'m \<Rightarrow> 'm"
  on_free :: "'m \<Rightarrow> 'm \<times> reclaim"

definition unit_meta :: "unit frame_meta" where
  "unit_meta = \<lparr> fm_default = (), on_alloc = (\<lambda>u. ()), on_free = (\<lambda>u. ((), Free)) \<rparr>"

definition rc_retain :: "u64 \<Rightarrow> u64" where
  "rc_retain c = c + 1"

definition rc_release :: "u64 \<Rightarrow> u64 \<times> reclaim" where
  "rc_release c = (c - 1, if c \<noteq> 1 then Keep else Free)"

definition rc_count :: "u64 \<Rightarrow> nat" where
  "rc_count c = unat c"

definition refcount_meta :: "u64 frame_meta" where
  "refcount_meta = \<lparr> fm_default = 0, on_alloc = (\<lambda>c. 1), on_free = rc_release \<rparr>"

subsection \<open>Region and central stack\<close>

datatype region = OwnedRegion reservation | BorrowedRegion nat nat

primrec region_base :: "region \<Rightarrow> nat" where
  "region_base (OwnedRegion r) = res_base r"
| "region_base (BorrowedRegion base n) = base"

primrec region_len :: "region \<Rightarrow> nat" where
  "region_len (OwnedRegion r) = res_len r"
| "region_len (BorrowedRegion base n) = n"

record central =
  c_slots :: "nat list"
  c_top :: nat

definition central_new :: "nat \<Rightarrow> central" where
  "central_new n = \<lparr> c_slots = replicate n 0, c_top = 0 \<rparr>"

definition central_push :: "central \<Rightarrow> nat \<Rightarrow> central rust" where
  "central_push c p = do {
     ss \<leftarrow> upd (c_slots c) (c_top c) p;
     Some (c\<lparr>c_slots := ss, c_top := c_top c + 1\<rparr>)
   }"

definition central_pop :: "central \<Rightarrow> (central \<times> nat option) rust" where
  "central_pop c =
     (if c_top c = 0 then Some (c, None)
      else do {
        p \<leftarrow> idx (c_slots c) (c_top c - 1);
        Some (c\<lparr>c_top := c_top c - 1\<rparr>, Some p)
      })"

subsection \<open>The pool\<close>

definition BATCH :: nat where
  "BATCH = 32"

definition CAP_PER_CPU :: nat where
  "CAP_PER_CPU = 256"

record 'm frame_pool =
  frames_base :: nat
  frame_shift :: nat
  frame_size :: nat
  n_frames :: nat
  fp_slab :: slab
  fp_central :: central
  fp_meta :: "'m list"
  slab_words :: nat
  fp_region :: region
  fp_clock :: nat

datatype frame_pool_error =
    FrameSizeNotPow2 nat
  | RegionTooSmall nat nat
  | ReserveFailed reserve_error

definition slots_off_frame :: nat where
  "slots_off_frame = (8 + 4 + 7) div 8 * 8"

definition block_bytes_frame :: nat where
  "block_bytes_frame = slots_off_frame + CAP_PER_CPU * 8"

definition block_shift_frame :: nat where
  "block_shift_frame = bit_len (max block_bytes_frame 1 - 1)"

definition frame_slab :: "nat \<Rightarrow> slab" where
  "frame_slab cpus =
     \<lparr> num_cpus = cpus,
       stacks = replicate cpus [\<lparr> current = 0, capacity = CAP_PER_CPU, slots = replicate CAP_PER_CPU 0 \<rparr>],
       stopped = replicate (max cpus 1) False \<rparr>"

primrec seed_central :: "nat \<Rightarrow> nat \<Rightarrow> nat list \<Rightarrow> central \<Rightarrow> central rust" where
  "seed_central base sz [] c = Some c"
| "seed_central base sz (i # is) c = do { c' \<leftarrow> central_push c (base + i * sz); seed_central base sz is c' }"

definition fp_build :: "'m frame_meta \<Rightarrow> nat \<Rightarrow> region \<Rightarrow> nat \<Rightarrow> (frame_pool_error + 'm frame_pool) rust" where
  "fp_build P cpus rg sz =
     (if \<not> is_pow2 sz then Some (Inl (FrameSizeNotPow2 sz))
      else let base = region_base rg; n = region_len rg; frames = n div sz in
        if frames = 0 then Some (Inl (RegionTooSmall n sz))
        else do {
          c \<leftarrow> seed_central base sz [0..<frames] (central_new frames);
          Some (Inr \<lparr> frames_base = base, frame_shift = trailing_zeros_nat sz, frame_size = sz, n_frames = frames,
            fp_slab = frame_slab cpus, fp_central = c, fp_meta = replicate frames (fm_default P),
            slab_words = div_ceil (2 ^ block_shift_frame * cpus) 8, fp_region = rg, fp_clock = 0 \<rparr>)
        })"

definition fp_over :: "'m frame_meta \<Rightarrow> nat \<Rightarrow> nat \<Rightarrow> nat \<Rightarrow> nat \<Rightarrow> (frame_pool_error + 'm frame_pool) rust" where
  "fp_over P cpus base n sz = fp_build P cpus (BorrowedRegion base n) sz"

definition with_reservation :: "'m frame_meta \<Rightarrow> os \<Rightarrow> nat \<Rightarrow> nat \<Rightarrow> nat \<Rightarrow> reserve_opts \<Rightarrow>
    (sys_event list \<times> (frame_pool_error + 'm frame_pool)) rust" where
  "with_reservation P k cpus frames sz opts =
     (if \<not> is_pow2 sz then Some ([], Inl (FrameSizeNotPow2 sz))
      else do {
        n \<leftarrow> checked_usize (frames * sz);
        (t, r) \<leftarrow> reserve_with k (opts\<lparr>ro_len := n\<rparr>);
        case r of
          Inl e \<Rightarrow> Some (t, Inl (ReserveFailed e))
        | Inr v \<Rightarrow> do { b \<leftarrow> fp_build P cpus (OwnedRegion v) sz; Some (t, b) }
      })"

definition fp_capacity :: "'m frame_pool \<Rightarrow> nat" where
  "fp_capacity fp = n_frames fp"

definition frame_index_of :: "'m frame_pool \<Rightarrow> nat \<Rightarrow> nat" where
  "frame_index_of fp p = sub64 p (frames_base fp) div 2 ^ frame_shift fp"

definition frame_meta_of :: "'m frame_pool \<Rightarrow> nat \<Rightarrow> 'm rust" where
  "frame_meta_of fp f = idx (fp_meta fp) (frame_index_of fp f)"

definition into_addr :: "'m frame_pool \<Rightarrow> nat \<Rightarrow> nat" where
  "into_addr fp f = sub64 f (frames_base fp)"

definition from_addr :: "'m frame_pool \<Rightarrow> nat \<Rightarrow> nat" where
  "from_addr fp a = add64 (frames_base fp) a"

definition set_meta :: "'m frame_pool \<Rightarrow> nat \<Rightarrow> 'm \<Rightarrow> 'm frame_pool rust" where
  "set_meta fp f v = do {
     ms \<leftarrow> upd (fp_meta fp) (frame_index_of fp f) v;
     Some (fp\<lparr>fp_meta := ms\<rparr>)
   }"

subsection \<open>The per-CPU level\<close>

definition fp_pop :: "(nat \<Rightarrow> env) \<Rightarrow> nat \<Rightarrow> 'm frame_pool \<Rightarrow> ('m frame_pool \<times> nat fast) rust" where
  "fp_pop ev cs fp = do {
     (sl, r) \<leftarrow> pop (fp_slab fp) (ev (fp_clock fp)) cs 0;
     Some (fp\<lparr>fp_slab := sl, fp_clock := Suc (fp_clock fp)\<rparr>, r)
   }"

definition fp_push :: "(nat \<Rightarrow> env) \<Rightarrow> nat \<Rightarrow> nat \<Rightarrow> 'm frame_pool \<Rightarrow> ('m frame_pool \<times> unit fast) rust" where
  "fp_push ev cs p fp = do {
     (sl, r) \<leftarrow> push (fp_slab fp) (ev (fp_clock fp)) cs 0 p;
     Some (fp\<lparr>fp_slab := sl, fp_clock := Suc (fp_clock fp)\<rparr>, r)
   }"

definition fp_sink :: "nat \<Rightarrow> 'm frame_pool \<Rightarrow> 'm frame_pool rust" where
  "fp_sink p fp = do { c \<leftarrow> central_push (fp_central fp) p; Some (fp\<lparr>fp_central := c\<rparr>) }"

primrec fp_refill_loop :: "(nat \<Rightarrow> env) \<Rightarrow> nat \<Rightarrow> nat \<Rightarrow> 'm frame_pool \<Rightarrow> 'm frame_pool rust" where
  "fp_refill_loop ev cs 0 fp = Some fp"
| "fp_refill_loop ev cs (Suc k) fp = do {
     (c, r) \<leftarrow> central_pop (fp_central fp);
     case r of
       None \<Rightarrow> Some (fp\<lparr>fp_central := c\<rparr>)
     | Some p \<Rightarrow> do {
         (fp1, f) \<leftarrow> fp_push ev cs p (fp\<lparr>fp_central := c\<rparr>);
         case f of
           NeedsSlow \<Rightarrow> fp_sink p fp1
         | FOk _ \<Rightarrow> fp_refill_loop ev cs k fp1
       }
   }"

definition fp_refill :: "(nat \<Rightarrow> env) \<Rightarrow> nat \<Rightarrow> 'm frame_pool \<Rightarrow> ('m frame_pool \<times> nat option) rust" where
  "fp_refill ev cs fp = do {
     (c, r) \<leftarrow> central_pop (fp_central fp);
     case r of
       None \<Rightarrow> Some (fp\<lparr>fp_central := c\<rparr>, None)
     | Some handed \<Rightarrow> do {
         fp1 \<leftarrow> fp_refill_loop ev cs (BATCH - 1) (fp\<lparr>fp_central := c\<rparr>);
         Some (fp1, Some handed)
       }
   }"

definition fp_drain :: "(nat \<Rightarrow> env) \<Rightarrow> nat \<Rightarrow> nat \<Rightarrow> 'm frame_pool \<Rightarrow> 'm frame_pool rust" where
  "fp_drain ev cs p fp = do {
     fp1 \<leftarrow> drain_with (fp_pop ev cs) fp_sink (max (BATCH div 2) 1) fp;
     (fp2, f) \<leftarrow> fp_push ev cs p fp1;
     case f of
       FOk _ \<Rightarrow> Some fp2
     | NeedsSlow \<Rightarrow> fp_sink p fp2
   }"

definition pop_l2 :: "(nat \<Rightarrow> env) \<Rightarrow> nat \<Rightarrow> 'm frame_pool \<Rightarrow> ('m frame_pool \<times> nat option) rust" where
  "pop_l2 ev cs fp = do {
     (sl, f, cpu) \<leftarrow> pop_on (fp_slab fp) (ev (fp_clock fp)) cs 0;
     let fp1 = fp\<lparr>fp_slab := sl, fp_clock := Suc (fp_clock fp)\<rparr>;
     case f of
       FOk p \<Rightarrow> Some (fp1, Some p)
     | NeedsSlow \<Rightarrow> fp_refill ev cs fp1
   }"

definition push_l2 :: "(nat \<Rightarrow> env) \<Rightarrow> nat \<Rightarrow> nat \<Rightarrow> 'm frame_pool \<Rightarrow> 'm frame_pool rust" where
  "push_l2 ev cs p fp = do {
     (fp1, f) \<leftarrow> fp_push ev cs p fp;
     case f of
       FOk _ \<Rightarrow> Some fp1
     | NeedsSlow \<Rightarrow> fp_drain ev cs p fp1
   }"

definition fp_current :: "(nat \<Rightarrow> env) \<Rightarrow> 'm frame_pool \<Rightarrow> nat" where
  "fp_current ev fp = current_stack (fp_slab fp) (ev (fp_clock fp))"

subsection \<open>Operations of the pool\<close>

definition do_on_alloc :: "'m frame_meta \<Rightarrow> nat \<Rightarrow> 'm frame_pool \<Rightarrow> 'm frame_pool rust" where
  "do_on_alloc P f fp = do { m \<leftarrow> frame_meta_of fp f; set_meta fp f (on_alloc P m) }"

definition do_on_free :: "'m frame_meta \<Rightarrow> nat \<Rightarrow> 'm frame_pool \<Rightarrow> ('m frame_pool \<times> reclaim) rust" where
  "do_on_free P f fp = do {
     m \<leftarrow> frame_meta_of fp f;
     let (m', r) = on_free P m;
     fp1 \<leftarrow> set_meta fp f m';
     Some (fp1, r)
   }"

definition fp_alloc :: "'m frame_meta \<Rightarrow> (nat \<Rightarrow> env) \<Rightarrow> 'm frame_pool \<Rightarrow> ('m frame_pool \<times> nat option) rust" where
  "fp_alloc P ev fp = do {
     let cs = current_fast (fp_slab fp);
     (fp1, r) \<leftarrow> pop_l2 ev cs fp;
     case r of
       None \<Rightarrow> Some (fp1, None)
     | Some p \<Rightarrow> do { fp2 \<leftarrow> do_on_alloc P p fp1; Some (fp2, Some p) }
   }"

definition fp_recycle :: "(nat \<Rightarrow> env) \<Rightarrow> nat \<Rightarrow> 'm frame_pool \<Rightarrow> 'm frame_pool rust" where
  "fp_recycle ev f fp = push_l2 ev (fp_current ev fp) f fp"

definition fp_free :: "'m frame_meta \<Rightarrow> (nat \<Rightarrow> env) \<Rightarrow> nat \<Rightarrow> 'm frame_pool \<Rightarrow> 'm frame_pool rust" where
  "fp_free P ev f fp = do {
     (fp1, r) \<leftarrow> do_on_free P f fp;
     if r = Keep then Some fp1 else push_l2 ev (fp_current ev fp1) f fp1
   }"

primrec alloc_n_loop :: "'m frame_meta \<Rightarrow> (nat \<Rightarrow> env) \<Rightarrow> nat \<Rightarrow> nat \<Rightarrow> 'm frame_pool \<Rightarrow> ('m frame_pool \<times> nat list) rust" where
  "alloc_n_loop P ev cs 0 fp = Some (fp, [])"
| "alloc_n_loop P ev cs (Suc k) fp = do {
     (fp1, r) \<leftarrow> pop_l2 ev cs fp;
     case r of
       None \<Rightarrow> Some (fp1, [])
     | Some p \<Rightarrow> do {
         fp2 \<leftarrow> do_on_alloc P p fp1;
         (fp3, ps) \<leftarrow> alloc_n_loop P ev cs k fp2;
         Some (fp3, p # ps)
       }
   }"

text \<open>The frames written to the front of the output slice; their number is the result of \<open>alloc_n\<close>.\<close>

definition alloc_n :: "'m frame_meta \<Rightarrow> (nat \<Rightarrow> env) \<Rightarrow> nat \<Rightarrow> 'm frame_pool \<Rightarrow> ('m frame_pool \<times> nat list) rust" where
  "alloc_n P ev k fp = alloc_n_loop P ev (current_fast (fp_slab fp)) k fp"

primrec free_n_loop :: "'m frame_meta \<Rightarrow> (nat \<Rightarrow> env) \<Rightarrow> nat \<Rightarrow> nat list \<Rightarrow> 'm frame_pool \<Rightarrow> 'm frame_pool rust" where
  "free_n_loop P ev cs [] fp = Some fp"
| "free_n_loop P ev cs (f # fs) fp = do {
     (fp1, r) \<leftarrow> do_on_free P f fp;
     fp2 \<leftarrow> (if r = Free then push_l2 ev cs f fp1 else Some fp1);
     free_n_loop P ev cs fs fp2
   }"

definition free_n :: "'m frame_meta \<Rightarrow> (nat \<Rightarrow> env) \<Rightarrow> nat list \<Rightarrow> 'm frame_pool \<Rightarrow> 'm frame_pool rust" where
  "free_n P ev fs fp = free_n_loop P ev (fp_current ev fp) fs fp"

subsection \<open>Frame caches\<close>

definition FRAME_MAG_CAP :: nat where
  "FRAME_MAG_CAP = 32"

definition fp_cache :: magazine where
  "fp_cache = mag_new FRAME_MAG_CAP"

primrec fc_refill_loop :: "(nat \<Rightarrow> env) \<Rightarrow> nat \<Rightarrow> nat \<Rightarrow> magazine \<times> 'm frame_pool \<Rightarrow> (magazine \<times> 'm frame_pool) rust" where
  "fc_refill_loop ev cs 0 s = Some s"
| "fc_refill_loop ev cs (Suc k) s = (case s of (m, fp) \<Rightarrow> do {
     (fp1, r) \<leftarrow> pop_l2 ev cs fp;
     case r of
       None \<Rightarrow> Some (m, fp1)
     | Some p \<Rightarrow> do { m1 \<leftarrow> mag_store m p; fc_refill_loop ev cs k (m1, fp1) }
   })"

definition fc_refill :: "(nat \<Rightarrow> env) \<Rightarrow> magazine \<times> 'm frame_pool \<Rightarrow> ((magazine \<times> 'm frame_pool) \<times> nat option) rust" where
  "fc_refill ev s = do {
     let want = FRAME_MAG_CAP div 2;
     (m, fp) \<leftarrow> fc_refill_loop ev (current_fast (fp_slab (snd s))) (want - mag_len (fst s)) s;
     if mag_len m = 0 then Some ((m, fp), None)
     else do { (m1, p) \<leftarrow> mag_take m; Some ((m1, fp), Some p) }
   }"

definition fc_alloc :: "'m frame_meta \<Rightarrow> (nat \<Rightarrow> env) \<Rightarrow> magazine \<times> 'm frame_pool \<Rightarrow>
    ((magazine \<times> 'm frame_pool) \<times> nat option) rust" where
  "fc_alloc P ev s = do {
     ((m, fp), r) \<leftarrow> (if 0 < mag_len (fst s)
        then do { (m1, p) \<leftarrow> mag_take (fst s); Some ((m1, snd s), Some p) }
        else fc_refill ev s);
     case r of
       None \<Rightarrow> Some ((m, fp), None)
     | Some p \<Rightarrow> do { fp1 \<leftarrow> do_on_alloc P p fp; Some ((m, fp1), Some p) }
   }"

primrec fc_flush :: "(nat \<Rightarrow> env) \<Rightarrow> nat \<Rightarrow> nat \<Rightarrow> magazine \<times> 'm frame_pool \<Rightarrow> (magazine \<times> 'm frame_pool) rust" where
  "fc_flush ev cs 0 s = Some s"
| "fc_flush ev cs (Suc k) s = (case s of (m, fp) \<Rightarrow> do {
     (m1, p) \<leftarrow> mag_take m;
     fp1 \<leftarrow> push_l2 ev cs p fp;
     fc_flush ev cs k (m1, fp1)
   })"

definition fc_drain_then_push :: "(nat \<Rightarrow> env) \<Rightarrow> nat \<Rightarrow> magazine \<times> 'm frame_pool \<Rightarrow> (magazine \<times> 'm frame_pool) rust" where
  "fc_drain_then_push ev p s = do {
     (m, fp) \<leftarrow> fc_flush ev (fp_current ev (snd s)) (FRAME_MAG_CAP div 2) s;
     m1 \<leftarrow> mag_store m p;
     Some (m1, fp)
   }"

definition fc_recycle :: "(nat \<Rightarrow> env) \<Rightarrow> nat \<Rightarrow> magazine \<times> 'm frame_pool \<Rightarrow> (magazine \<times> 'm frame_pool) rust" where
  "fc_recycle ev f s =
     (if mag_len (fst s) < FRAME_MAG_CAP
      then do { m1 \<leftarrow> mag_store (fst s) f; Some (m1, snd s) }
      else fc_drain_then_push ev f s)"

definition fc_free :: "'m frame_meta \<Rightarrow> (nat \<Rightarrow> env) \<Rightarrow> nat \<Rightarrow> magazine \<times> 'm frame_pool \<Rightarrow> (magazine \<times> 'm frame_pool) rust" where
  "fc_free P ev f s = do {
     (fp1, r) \<leftarrow> do_on_free P f (snd s);
     if r = Keep then Some (fst s, fp1) else fc_recycle ev f (fst s, fp1)
   }"

definition fc_drop :: "(nat \<Rightarrow> env) \<Rightarrow> magazine \<times> 'm frame_pool \<Rightarrow> (magazine \<times> 'm frame_pool) rust" where
  "fc_drop ev s = fc_flush ev (fp_current ev (snd s)) (mag_len (fst s)) s"

end
