(* ===== verification/Frame_Handles.thy ===== *)
theory Frame_Handles
  imports Frame_Pool
begin

text \<open>
  The named pools and handles of \<^verbatim>\<open>toccata-core/src/frame.rs\<close>: the statics and functions that
  \<open>frame_pool!\<close> generates, the typed handles \<open>Owned\<close> and \<open>Shared\<close>, and the splittable byte
  buffers \<open>FrameMut\<close> and \<open>FrameBuf\<close>. Window offsets and lengths are 16-bit.
\<close>

subsection \<open>Named pools\<close>

text \<open>
  The statics of \<open>frame_pool!\<close>: the published pool, and the \<open>PTR\<close> of every thread, which is null
  before its first use of the pool, then points at its cache, with or without a destructor
  registered for it, and dangles once \<open>on_exit\<close> has freed the cache, because nothing resets it.
  \<open>thread_ctx\<close> is the calling thread, the answer of \<open>calloc\<close> when its cache has to be created,
  whether the destructor of that cache gets registered (\<open>pthread_key_create\<close> and
  \<open>pthread_setspecific\<close> both succeed; the code ignores a failure), and what its slab operations
  observe.
\<close>

datatype cache_ptr = PtrNull | PtrLive bool magazine | PtrFreed

record 'm named_pool =
  np_pool :: "'m frame_pool option"
  np_tls :: "cache_ptr list"

record thread_ctx =
  tc_id :: nat
  tc_calloc :: bool
  tc_key :: bool
  tc_env :: "nat \<Rightarrow> env"

definition np_install :: "'m frame_pool \<Rightarrow> 'm named_pool \<Rightarrow> 'm named_pool" where
  "np_install built np = (if np_pool np = None then np\<lparr>np_pool := Some built\<rparr> else np)"

definition configure_sized :: "'m frame_meta \<Rightarrow> os \<Rightarrow> nat \<Rightarrow> nat \<Rightarrow> nat \<Rightarrow> reserve_opts \<Rightarrow> 'm named_pool \<Rightarrow>
    ('m named_pool \<times> (frame_pool_error + unit)) rust" where
  "configure_sized P k cpus nf sz opts np =
     (if np_pool np \<noteq> None then Some (np, Inr ())
      else do {
        (t, r) \<leftarrow> with_reservation P k cpus nf sz opts;
        case r of
          Inl e \<Rightarrow> Some (np, Inl e)
        | Inr built \<Rightarrow> Some (np_install built np, Inr ())
      })"

definition configure_over :: "'m frame_meta \<Rightarrow> nat \<Rightarrow> nat \<Rightarrow> nat \<Rightarrow> nat \<Rightarrow> 'm named_pool \<Rightarrow>
    ('m named_pool \<times> (frame_pool_error + unit)) rust" where
  "configure_over P cpus base n sz np =
     (if np_pool np \<noteq> None then Some (np, Inr ())
      else do {
        r \<leftarrow> fp_over P cpus base n sz;
        case r of
          Inl e \<Rightarrow> Some (np, Inl e)
        | Inr built \<Rightarrow> Some (np_install built np, Inr ())
      })"

text \<open>The typed \<open>configure\<close>: one value per frame, at least 8 bytes, rounded up to a power of two.\<close>

definition typed_frame_size :: "nat \<Rightarrow> nat" where
  "typed_frame_size item = 2 ^ bit_len (max item 8 - 1)"

definition typed_configure :: "os \<Rightarrow> nat \<Rightarrow> nat \<Rightarrow> nat \<Rightarrow> reserve_opts \<Rightarrow> u64 named_pool \<Rightarrow>
    (u64 named_pool \<times> (frame_pool_error + unit)) rust" where
  "typed_configure k cpus item nf opts np =
     configure_sized refcount_meta k cpus nf (typed_frame_size item) opts np"

text \<open>
  \<open>with\<close> runs an operation on the cache of the calling thread, created on first use; without storage
  for it, on a temporary cache that is dropped at once. Through a dangling pointer it is undefined.
\<close>

definition tls_with :: "thread_ctx \<Rightarrow> 'm frame_pool \<Rightarrow>
    (magazine \<times> 'm frame_pool \<Rightarrow> ((magazine \<times> 'm frame_pool) \<times> 'r) rust) \<Rightarrow> 'm named_pool \<Rightarrow> ('m named_pool \<times> 'r) rust" where
  "tls_with x fp f np = do {
     c \<leftarrow> idx (np_tls np) (tc_id x);
     case c of
       PtrFreed \<Rightarrow> None
     | PtrLive k m0 \<Rightarrow> do {
         ((m, fp1), r) \<leftarrow> f (m0, fp);
         cs \<leftarrow> upd (np_tls np) (tc_id x) (PtrLive k m);
         Some (np\<lparr>np_pool := Some fp1, np_tls := cs\<rparr>, r)
       }
     | PtrNull \<Rightarrow> do {
         ((m, fp1), r) \<leftarrow> f (fp_cache, fp);
         if tc_calloc x then do {
           cs \<leftarrow> upd (np_tls np) (tc_id x) (PtrLive (tc_key x) m);
           Some (np\<lparr>np_pool := Some fp1, np_tls := cs\<rparr>, r)
         }
         else do {
           (m2, fp2) \<leftarrow> fc_drop (tc_env x) (m, fp1);
           Some (np\<lparr>np_pool := Some fp2\<rparr>, r)
         }
       }
   }"

definition np_alloc :: "'m frame_meta \<Rightarrow> thread_ctx \<Rightarrow> 'm named_pool \<Rightarrow> ('m named_pool \<times> nat option) rust" where
  "np_alloc P x np =
     (case np_pool np of
        None \<Rightarrow> Some (np, None)
      | Some fp \<Rightarrow> tls_with x fp (fc_alloc P (tc_env x)) np)"

definition np_free :: "'m frame_meta \<Rightarrow> thread_ctx \<Rightarrow> nat \<Rightarrow> 'm named_pool \<Rightarrow> 'm named_pool rust" where
  "np_free P x f np =
     (case np_pool np of
        None \<Rightarrow> Some np
      | Some fp \<Rightarrow> do {
          (np1, r) \<leftarrow> tls_with x fp (\<lambda>s. do { s1 \<leftarrow> fc_free P (tc_env x) f s; Some (s1, ()) }) np;
          Some np1
        })"

definition np_recycle :: "thread_ctx \<Rightarrow> nat \<Rightarrow> 'm named_pool \<Rightarrow> 'm named_pool rust" where
  "np_recycle x f np =
     (case np_pool np of
        None \<Rightarrow> Some np
      | Some fp \<Rightarrow> do {
          (np1, r) \<leftarrow> tls_with x fp (\<lambda>s. do { s1 \<leftarrow> fc_recycle (tc_env x) f s; Some (s1, ()) }) np;
          Some np1
        })"

text \<open>
  The end of a thread: \<open>on_exit\<close> flushes and frees a cache whose destructor is registered, and leaves
  \<open>PTR\<close> dangling; any other cache is neither flushed nor freed.
\<close>

definition np_thread_exit :: "thread_ctx \<Rightarrow> 'm named_pool \<Rightarrow> 'm named_pool rust" where
  "np_thread_exit x np = do {
     c \<leftarrow> idx (np_tls np) (tc_id x);
     case c of
       PtrLive True m \<Rightarrow> do {
         fp \<leftarrow> np_pool np;
         (m1, fp1) \<leftarrow> fc_drop (tc_env x) (m, fp);
         cs \<leftarrow> upd (np_tls np) (tc_id x) PtrFreed;
         Some (np\<lparr>np_pool := Some fp1, np_tls := cs\<rparr>)
       }
     | _ \<Rightarrow> Some np
   }"

subsection \<open>The frame source of the handles\<close>

definition refcount_update :: "(u64 \<Rightarrow> u64 \<times> 'r) \<Rightarrow> nat \<Rightarrow> u64 named_pool \<Rightarrow> (u64 named_pool \<times> 'r) rust" where
  "refcount_update g f np = do {
     fp \<leftarrow> np_pool np;
     c \<leftarrow> frame_meta_of fp f;
     let (c', r) = g c;
     fp1 \<leftarrow> set_meta fp f c';
     Some (np\<lparr>np_pool := Some fp1\<rparr>, r)
   }"

definition np_release :: "nat \<Rightarrow> u64 named_pool \<Rightarrow> (u64 named_pool \<times> reclaim) rust" where
  "np_release f np = refcount_update rc_release f np"

definition np_retain :: "nat \<Rightarrow> u64 named_pool \<Rightarrow> u64 named_pool rust" where
  "np_retain f np = do { (np1, u) \<leftarrow> refcount_update (\<lambda>c. (rc_retain c, ())) f np; Some np1 }"

definition np_count :: "nat \<Rightarrow> u64 named_pool \<Rightarrow> nat rust" where
  "np_count f np = do { fp \<leftarrow> np_pool np; c \<leftarrow> frame_meta_of fp f; Some (rc_count c) }"

definition frame_capacity :: "'m named_pool \<Rightarrow> nat" where
  "frame_capacity np = (case np_pool np of None \<Rightarrow> 0 | Some fp \<Rightarrow> frame_size fp)"

subsection \<open>Owned and Shared\<close>

text \<open>
  A typed pool: the frame source, the value stored in the body of each frame, and the values whose
  destructor has run. A handle is the address of its frame.
\<close>

record 'v typed_pool =
  tp_np :: "u64 named_pool"
  tp_body :: "nat \<rightharpoonup> 'v"
  tp_dropped :: "'v list"

definition drop_in_place :: "nat \<Rightarrow> 'v typed_pool \<Rightarrow> 'v typed_pool rust" where
  "drop_in_place f t = do {
     v \<leftarrow> tp_body t f;
     Some (t\<lparr>tp_body := (tp_body t)(f := None), tp_dropped := v # tp_dropped t\<rparr>)
   }"

definition owned_new :: "thread_ctx \<Rightarrow> 'v \<Rightarrow> 'v typed_pool \<Rightarrow> ('v typed_pool \<times> nat option) rust" where
  "owned_new x v t = do {
     (np, r) \<leftarrow> np_alloc refcount_meta x (tp_np t);
     case r of
       None \<Rightarrow> Some (t\<lparr>tp_np := np, tp_dropped := v # tp_dropped t\<rparr>, None)
     | Some f \<Rightarrow> Some (t\<lparr>tp_np := np, tp_body := (tp_body t)(f \<mapsto> v)\<rparr>, Some f)
   }"

definition owned_into_shared :: "nat \<Rightarrow> nat" where
  "owned_into_shared f = f"

definition handle_deref :: "'v typed_pool \<Rightarrow> nat \<Rightarrow> 'v rust" where
  "handle_deref t f = tp_body t f"

definition handle_write :: "nat \<Rightarrow> 'v \<Rightarrow> 'v typed_pool \<Rightarrow> 'v typed_pool" where
  "handle_write f v t = t\<lparr>tp_body := (tp_body t)(f \<mapsto> v)\<rparr>"

definition owned_drop :: "thread_ctx \<Rightarrow> nat \<Rightarrow> 'v typed_pool \<Rightarrow> 'v typed_pool rust" where
  "owned_drop x f t = do {
     t1 \<leftarrow> drop_in_place f t;
     (np1, r) \<leftarrow> np_release f (tp_np t1);
     np2 \<leftarrow> np_recycle x f np1;
     Some (t1\<lparr>tp_np := np2\<rparr>)
   }"

definition shared_new :: "thread_ctx \<Rightarrow> 'v \<Rightarrow> 'v typed_pool \<Rightarrow> ('v typed_pool \<times> nat option) rust" where
  "shared_new x v t = do {
     (t1, r) \<leftarrow> owned_new x v t;
     Some (t1, map_option owned_into_shared r)
   }"

definition strong_count :: "nat \<Rightarrow> 'v typed_pool \<Rightarrow> nat rust" where
  "strong_count f t = np_count f (tp_np t)"

definition shared_clone :: "nat \<Rightarrow> 'v typed_pool \<Rightarrow> ('v typed_pool \<times> nat) rust" where
  "shared_clone f t = do {
     np1 \<leftarrow> np_retain f (tp_np t);
     Some (t\<lparr>tp_np := np1\<rparr>, f)
   }"

definition shared_drop :: "thread_ctx \<Rightarrow> nat \<Rightarrow> 'v typed_pool \<Rightarrow> 'v typed_pool rust" where
  "shared_drop x f t = do {
     (np1, r) \<leftarrow> np_release f (tp_np t);
     if r = Free then do {
       t1 \<leftarrow> drop_in_place f (t\<lparr>tp_np := np1\<rparr>);
       np2 \<leftarrow> np_recycle x f (tp_np t1);
       Some (t1\<lparr>tp_np := np2\<rparr>)
     }
     else Some (t\<lparr>tp_np := np1\<rparr>)
   }"

subsection \<open>Byte buffers\<close>

record frame_mut =
  fm_frame :: nat
  fm_cap :: nat

record frame_buf =
  fb_frame :: nat
  fb_offset :: nat
  fb_len :: nat

definition frame_mut_new :: "thread_ctx \<Rightarrow> u64 named_pool \<Rightarrow> (u64 named_pool \<times> frame_mut option) rust" where
  "frame_mut_new x np = do {
     (np1, r) \<leftarrow> np_alloc refcount_meta x np;
     case r of
       None \<Rightarrow> Some (np1, None)
     | Some f \<Rightarrow> Some (np1, Some \<lparr> fm_frame = f, fm_cap = min (frame_capacity np1) (2 ^ 16 - 1) \<rparr>)
   }"

definition bytes_mut :: "frame_mut \<Rightarrow> nat set" where
  "bytes_mut m = {fm_frame m ..< fm_frame m + fm_cap m}"

definition freeze :: "frame_mut \<Rightarrow> nat \<Rightarrow> frame_buf" where
  "freeze m n = \<lparr> fb_frame = fm_frame m, fb_offset = 0, fb_len = min n (fm_cap m) \<rparr>"

definition frame_mut_drop :: "thread_ctx \<Rightarrow> frame_mut \<Rightarrow> u64 named_pool \<Rightarrow> u64 named_pool rust" where
  "frame_mut_drop x m np = do {
     (np1, r) \<leftarrow> np_release (fm_frame m) np;
     np_recycle x (fm_frame m) np1
   }"

definition payload :: "frame_buf \<Rightarrow> nat set" where
  "payload b = {fb_frame b + fb_offset b ..< fb_frame b + fb_offset b + fb_len b}"

definition split_to :: "frame_buf \<Rightarrow> nat \<Rightarrow> u64 named_pool \<Rightarrow> (u64 named_pool \<times> frame_buf \<times> frame_buf) rust" where
  "split_to b at np =
     (if fb_len b < at then None
      else do {
        np1 \<leftarrow> np_retain (fb_frame b) np;
        Some (np1, b\<lparr>fb_offset := as_u16 (fb_offset b + at), fb_len := fb_len b - at\<rparr>,
              \<lparr> fb_frame = fb_frame b, fb_offset = fb_offset b, fb_len = at \<rparr>)
      })"

definition truncate_buf :: "frame_buf \<Rightarrow> nat \<Rightarrow> frame_buf" where
  "truncate_buf b n = b\<lparr>fb_len := min n (fb_len b)\<rparr>"

definition advance_buf :: "frame_buf \<Rightarrow> nat \<Rightarrow> frame_buf rust" where
  "advance_buf b n =
     (if fb_len b < n then None
      else Some (b\<lparr>fb_offset := as_u16 (fb_offset b + n), fb_len := fb_len b - n\<rparr>))"

definition frame_buf_drop :: "thread_ctx \<Rightarrow> frame_buf \<Rightarrow> u64 named_pool \<Rightarrow> u64 named_pool rust" where
  "frame_buf_drop x b np = do {
     (np1, r) \<leftarrow> np_release (fb_frame b) np;
     if r = Free then np_recycle x (fb_frame b) np1 else Some np1
   }"

end
