(* ===== verification/Frame_Pool_Correct.thy ===== *)
theory Frame_Pool_Correct
  imports Frame_Pool
begin

text \<open>
  Correctness of the frame pool: the invariant \<open>pool_ok\<close>, the effect of every operation of the
  pool and of the caches, the contract of a metadata policy as the locale \<open>frame_policy\<close> with its
  two instances, and histories of a pool with any number of caches.
\<close>

subsection \<open>Frames and the pool invariant\<close>

definition frames :: "'m frame_pool \<Rightarrow> nat list" where
  "frames fp = map (\<lambda>i. frames_base fp + i * frame_size fp) [0..<n_frames fp]"

definition central_frames :: "central \<Rightarrow> nat list" where
  "central_frames c = take (c_top c) (c_slots c)"

definition free_frames :: "'m frame_pool \<Rightarrow> nat multiset" where
  "free_frames fp = class_objs (fp_slab fp) 0 + mset (central_frames (fp_central fp))"

definition geom :: "'m frame_pool \<Rightarrow> nat \<times> nat \<times> nat \<times> nat \<times> nat" where
  "geom fp = (frames_base fp, frame_shift fp, frame_size fp, n_frames fp, num_cpus (fp_slab fp))"

definition stack_caps :: "slab \<Rightarrow> nat list" where
  "stack_caps sl = map (\<lambda>row. capacity (row ! 0)) (stacks sl)"

definition geom_ok :: "'m frame_pool \<Rightarrow> bool" where
  "geom_ok fp \<longleftrightarrow> 0 < frames_base fp \<and> 0 < n_frames fp \<and> frame_shift fp < 64 \<and> frame_size fp = 2 ^ frame_shift fp \<and>
     frames_base fp + n_frames fp * frame_size fp \<le> 2 ^ 64"

definition pool_ok :: "'m frame_pool \<Rightarrow> bool" where
  "pool_ok fp \<longleftrightarrow> geom_ok fp \<and> length (fp_meta fp) = n_frames fp \<and>
     length (c_slots (fp_central fp)) = n_frames fp \<and> c_top (fp_central fp) \<le> n_frames fp \<and>
     slab_inv 1 (fp_slab fp) \<and> (\<forall>c\<in>set (stack_caps (fp_slab fp)). c = CAP_PER_CPU) \<and>
     True \<notin> set (stopped (fp_slab fp)) \<and> free_frames fp \<subseteq># mset (frames fp)"

lemma geom_ok_cong: "geom fp' = geom fp \<Longrightarrow> geom_ok fp' \<longleftrightarrow> geom_ok fp"
  by (simp add: geom_ok_def geom_def)

lemma pool_ok_geom: "pool_ok fp \<Longrightarrow> geom_ok fp"
  by (simp add: pool_ok_def)

lemma frames_geom: "geom fp' = geom fp \<Longrightarrow> frames fp' = frames fp"
  by (simp add: frames_def geom_def)

lemma distinct_frames: "pool_ok fp \<Longrightarrow> distinct (frames fp)"
  by (auto simp: frames_def distinct_map inj_on_def pool_ok_def geom_ok_def)

lemma frame_nonzero: "pool_ok fp \<Longrightarrow> p \<in> set (frames fp) \<Longrightarrow> p \<noteq> 0"
  by (auto simp: frames_def pool_ok_def geom_ok_def)

lemma free_is_frame: "pool_ok fp \<Longrightarrow> p \<in># free_frames fp \<Longrightarrow> p \<in> set (frames fp)"
  using mset_subset_eqD by (fastforce simp: pool_ok_def)

lemma free_once:
  assumes "pool_ok fp"
  shows "count (free_frames fp) p \<le> 1"
proof -
  have "count (free_frames fp) p \<le> count (mset (frames fp)) p"
    using assms by (auto simp: pool_ok_def intro: mset_subset_eq_count)
  also have "\<dots> \<le> 1" using distinct_frames [OF assms] by (simp add: distinct_count_atmost_1)
  finally show ?thesis .
qed

text \<open>A frame that is not free can be added to the free frames.\<close>

lemma add_free:
  assumes "pool_ok fp" "p \<in> set (frames fp)" "p \<notin># free_frames fp"
  shows "add_mset p (free_frames fp) \<subseteq># mset (frames fp)"
proof (rule mset_subset_eqI)
  fix x
  have "count (free_frames fp) x \<le> count (mset (frames fp)) x"
    using assms(1) by (auto simp: pool_ok_def intro: mset_subset_eq_count)
  moreover have "1 \<le> count (mset (frames fp)) p" using assms(2) by (simp add: Suc_le_eq)
  ultimately show "count (add_mset p (free_frames fp)) x \<le> count (mset (frames fp)) x"
    using assms(3) by (cases "x = p") (simp_all add: not_in_iff)
qed

lemma frame_index:
  assumes "pool_ok fp" "i < n_frames fp"
  shows "frame_index_of fp (frames_base fp + i * frame_size fp) = i"
    "sub64 (frames_base fp + i * frame_size fp) (frames_base fp) = i * frame_size fp"
proof -
  have "i * frame_size fp + frame_size fp \<le> n_frames fp * frame_size fp"
    using assms(2) by (metis Suc_leI mult_Suc mult_le_mono1 add.commute)
  moreover have "0 < frame_size fp" using assms(1) by (simp add: pool_ok_def geom_ok_def)
  moreover have "frames_base fp + n_frames fp * frame_size fp \<le> 2 ^ 64"
    using assms(1) unfolding pool_ok_def geom_ok_def by blast
  ultimately have "frames_base fp + i * frame_size fp < 2 ^ 64" by linarith
  then show s: "sub64 (frames_base fp + i * frame_size fp) (frames_base fp) = i * frame_size fp" by simp
  show "frame_index_of fp (frames_base fp + i * frame_size fp) = i"
    using s assms(1) by (simp add: frame_index_of_def pool_ok_def geom_ok_def)
qed

lemma frame_index_less:
  assumes "pool_ok fp" "p \<in> set (frames fp)"
  shows "frame_index_of fp p < n_frames fp" "p = frames_base fp + frame_index_of fp p * frame_size fp"
proof -
  obtain i where i: "i < n_frames fp" "p = frames_base fp + i * frame_size fp"
    using assms(2) by (auto simp: frames_def)
  then have "frame_index_of fp p = i" using frame_index(1) [OF assms(1) i(1)] by simp
  then show "frame_index_of fp p < n_frames fp" "p = frames_base fp + frame_index_of fp p * frame_size fp"
    using i by simp_all
qed

subsection \<open>Slab operations of a pool\<close>

lemma stack_caps_set:
  assumes "slab_inv n sl" "cpu < num_cpus sl" "0 < n" "capacity c = capacity (stacks sl ! cpu ! 0)"
  shows "stack_caps (set_stack sl cpu 0 c) = stack_caps sl"
proof -
  have l: "cpu < length (stacks sl)" "length (stacks sl ! cpu) = n"
    using assms slab_get [OF assms(1-3)] by (auto simp: slab_inv_def)
  show ?thesis
  proof (rule nth_equalityI)
    fix i assume "i < length (stack_caps (set_stack sl cpu 0 c))"
    then have i: "i < length (stacks sl)" by (simp add: stack_caps_def set_stack_def)
    show "stack_caps (set_stack sl cpu 0 c) ! i = stack_caps sl ! i"
      using i l assms(3,4) by (cases "i = cpu") (simp_all add: stack_caps_def set_stack_def)
  qed (simp add: stack_caps_def set_stack_def)
qed

lemma stopped_set [simp]: "stopped (set_stack sl cpu cls c) = stopped sl"
  by (simp add: set_stack_def)

lemma pop_at_caps:
  assumes "slab_inv n sl" "cpu < num_cpus sl" "0 < n" "pop_at sl cpu 0 = (sl', r)"
  shows "stack_caps sl' = stack_caps sl" "stopped sl' = stopped sl"
proof -
  have "sl' = sl \<or> (\<exists>c. sl' = set_stack sl cpu 0 c \<and> capacity c = capacity (stacks sl ! cpu ! 0))"
    using assms(4) by (fastforce simp: pop_at_def Let_def split: if_splits)
  then show "stack_caps sl' = stack_caps sl" "stopped sl' = stopped sl"
    using stack_caps_set [OF assms(1-3)] by auto
qed

lemma push_at_caps:
  assumes "slab_inv n sl" "cpu < num_cpus sl" "0 < n" "push_at sl cpu 0 p = (sl', r)"
  shows "stack_caps sl' = stack_caps sl" "stopped sl' = stopped sl"
proof -
  let ?c = "(stacks sl ! cpu ! 0)\<lparr>slots := (slots (stacks sl ! cpu ! 0))[current (stacks sl ! cpu ! 0) := p],
    current := current (stacks sl ! cpu ! 0) + 1\<rparr>"
  have "sl' = sl \<or> sl' = set_stack sl cpu 0 ?c"
    using assms(4) unfolding push_at_def Let_def by (metis prod.inject)
  moreover have "stack_caps (set_stack sl cpu 0 ?c) = stack_caps sl" by (rule stack_caps_set [OF assms(1-3)]) simp
  ultimately show "stack_caps sl' = stack_caps sl" "stopped sl' = stopped sl" by (metis, metis stopped_set)
qed

definition kept :: "'m frame_pool \<Rightarrow> 'm frame_pool \<Rightarrow> bool" where
  "kept fp fp' \<longleftrightarrow> geom fp' = geom fp \<and> fp_meta fp' = fp_meta fp"

lemma kept_refl [simp]: "kept fp fp"
  by (simp add: kept_def)

lemma fp_kept_trans: "kept a b \<Longrightarrow> kept b c \<Longrightarrow> kept a c"
  by (simp add: kept_def)

lemma kept_frames: "kept fp fp' \<Longrightarrow> frames fp' = frames fp"
  unfolding kept_def by (rule frames_geom) simp

definition l2_bind :: "'m frame_pool \<Rightarrow> nat \<Rightarrow> bool" where
  "l2_bind fp cs \<longleftrightarrow> bind_ok (fp_slab fp) cs"

lemma l2_bind_kept: "kept fp fp' \<Longrightarrow> l2_bind fp' cs \<longleftrightarrow> l2_bind fp cs"
  by (simp add: kept_def geom_def l2_bind_def bind_ok_def)

lemma l2_bind_fast [simp]: "l2_bind fp (current_fast sl)"
  by (simp add: l2_bind_def bind_ok_def current_fast_def)

lemma l2_bind_current: "pool_ok fp \<Longrightarrow> l2_bind fp (fp_current ev fp)"
  using current_stack_less by (auto simp: l2_bind_def bind_ok_def fp_current_def pool_ok_def)

lemma pool_ok_slab:
  assumes "pool_ok fp" "slab_inv 1 sl" "num_cpus sl = num_cpus (fp_slab fp)" "stack_caps sl = stack_caps (fp_slab fp)"
    "stopped sl = stopped (fp_slab fp)"
    "class_objs sl 0 + mset (central_frames (fp_central fp)) \<subseteq># mset (frames fp)"
  shows "pool_ok (fp\<lparr>fp_slab := sl, fp_clock := k\<rparr>)" "kept fp (fp\<lparr>fp_slab := sl, fp_clock := k\<rparr>)"
proof -
  let ?fp = "fp\<lparr>fp_slab := sl, fp_clock := k\<rparr>"
  have g: "geom ?fp = geom fp" using assms(3) by (simp add: geom_def)
  then show "kept fp ?fp" by (simp add: kept_def)
  show "pool_ok ?fp" using assms g geom_ok_cong [OF g] frames_geom [OF g] by (simp add: pool_ok_def free_frames_def)
qed

lemma fp_pop_ok:
  assumes "pool_ok fp" "l2_bind fp cs"
  shows "\<exists>fp' r. fp_pop ev cs fp = Some (fp', r) \<and> pool_ok fp' \<and> kept fp fp' \<and>
    (case r of NeedsSlow \<Rightarrow> free_frames fp' = free_frames fp
     | FOk p \<Rightarrow> p \<in> set (frames fp) \<and> free_frames fp = add_mset p (free_frames fp'))"
proof -
  let ?sl = "fp_slab fp"
  have i: "slab_inv 1 ?sl" "bind_ok ?sl cs" using assms by (simp_all add: pool_ok_def l2_bind_def)
  obtain cpu where c: "cpu < num_cpus ?sl" "pop ?sl (ev (fp_clock fp)) cs 0 = Some (pop_at ?sl cpu 0)"
    using pop_cases [OF i, of 0] by auto
  obtain sl' r where r: "pop_at ?sl cpu 0 = (sl', r)" by (cases "pop_at ?sl cpu 0")
  note eff = pop_at_effect [OF i(1) c(1) zero_less_one r]
  note caps = pop_at_caps [OF i(1) c(1) zero_less_one r]
  let ?fp = "fp\<lparr>fp_slab := sl', fp_clock := Suc (fp_clock fp)\<rparr>"
  have e: "fp_pop ev cs fp = Some (?fp, r)" using c(2) r by (simp add: fp_pop_def)
  have f: "case r of NeedsSlow \<Rightarrow> free_frames ?fp = free_frames fp
     | FOk p \<Rightarrow> free_frames fp = add_mset p (free_frames ?fp)"
    using eff(4,5) by (cases r) (auto simp: free_frames_def)
  then have "free_frames ?fp \<subseteq># free_frames fp"
    by (cases r) (simp_all add: subset_mset.less_imp_le)
  then have "free_frames ?fp \<subseteq># mset (frames fp)"
    using assms(1) by (auto simp: pool_ok_def intro: subset_mset.order_trans)
  then have k: "pool_ok ?fp" "kept fp ?fp"
    using pool_ok_slab [OF assms(1) eff(1,2) caps] by (simp_all add: free_frames_def)
  show ?thesis
  proof (cases r)
    case (FOk p)
    then have "p \<in># free_frames fp" using f by simp
    then have "p \<in> set (frames fp)" using free_is_frame [OF assms(1)] by blast
    then show ?thesis using e f k FOk by auto
  qed (use e f k in auto)
qed

lemma fp_push_ok:
  assumes "pool_ok fp" "l2_bind fp cs" "p \<in> set (frames fp)" "p \<notin># free_frames fp"
  shows "\<exists>fp' r. fp_push ev cs p fp = Some (fp', r) \<and> pool_ok fp' \<and> kept fp fp' \<and>
    (case r of NeedsSlow \<Rightarrow> free_frames fp' = free_frames fp
     | FOk _ \<Rightarrow> free_frames fp' = add_mset p (free_frames fp))"
proof -
  let ?sl = "fp_slab fp"
  have i: "slab_inv 1 ?sl" "bind_ok ?sl cs" using assms by (simp_all add: pool_ok_def l2_bind_def)
  have nz: "p \<noteq> 0" using frame_nonzero assms(1,3) by blast
  obtain cpu where c: "cpu < num_cpus ?sl" "push ?sl (ev (fp_clock fp)) cs 0 p = Some (push_at ?sl cpu 0 p)"
    using push_cases [OF i _ nz, of 0] by auto
  obtain sl' r where r: "push_at ?sl cpu 0 p = (sl', r)" by (cases "push_at ?sl cpu 0 p")
  note eff = push_at_effect [OF i(1) c(1) zero_less_one nz r]
  note caps = push_at_caps [OF i(1) c(1) zero_less_one r]
  let ?fp = "fp\<lparr>fp_slab := sl', fp_clock := Suc (fp_clock fp)\<rparr>"
  have e: "fp_push ev cs p fp = Some (?fp, r)" using c(2) r by (simp add: fp_push_def)
  have f: "case r of NeedsSlow \<Rightarrow> free_frames ?fp = free_frames fp
     | FOk _ \<Rightarrow> free_frames ?fp = add_mset p (free_frames fp)"
    using eff(4,5) by (cases r) (auto simp: free_frames_def)
  have "free_frames ?fp \<subseteq># mset (frames fp)"
    using f add_free [OF assms(1,3,4)] assms(1) by (cases r) (simp_all add: pool_ok_def)
  then have "pool_ok ?fp" "kept fp ?fp"
    using pool_ok_slab [OF assms(1) eff(1,2) caps] by (simp_all add: free_frames_def)
  then show ?thesis using e f by blast
qed

lemma fp_sink_ok:
  assumes "pool_ok fp" "p \<in> set (frames fp)" "p \<notin># free_frames fp"
  shows "\<exists>fp'. fp_sink p fp = Some fp' \<and> pool_ok fp' \<and> kept fp fp' \<and> free_frames fp' = add_mset p (free_frames fp)"
proof -
  let ?c = "fp_central fp"
  have "size (add_mset p (free_frames fp)) \<le> size (mset (frames fp))"
    using add_free [OF assms] size_mset_mono by blast
  then have "length (central_frames ?c) < n_frames fp" by (simp add: free_frames_def frames_def)
  moreover have l: "length (c_slots ?c) = n_frames fp" "c_top ?c \<le> n_frames fp" using assms(1) by (simp_all add: pool_ok_def)
  ultimately have t: "c_top ?c < length (c_slots ?c)" by (simp add: central_frames_def)
  let ?c' = "?c\<lparr>c_slots := (c_slots ?c)[c_top ?c := p], c_top := c_top ?c + 1\<rparr>"
  let ?fp = "fp\<lparr>fp_central := ?c'\<rparr>"
  have cf: "central_frames ?c' = central_frames ?c @ [p]" using t by (simp add: central_frames_def take_Suc_conv_app_nth)
  have e: "fp_sink p fp = Some ?fp" using t by (simp add: fp_sink_def central_push_def)
  have f: "free_frames ?fp = add_mset p (free_frames fp)" using cf by (simp add: free_frames_def)
  have g: "geom ?fp = geom fp" by (simp add: geom_def)
  have "pool_ok ?fp"
    using assms(1) add_free [OF assms] f t l geom_ok_cong [OF g] frames_geom [OF g] by (simp add: pool_ok_def)
  then show ?thesis using e f by (auto simp: kept_def geom_def)
qed

lemma central_pop_ok:
  assumes "pool_ok fp"
  shows "\<exists>c r. central_pop (fp_central fp) = Some (c, r) \<and> pool_ok (fp\<lparr>fp_central := c\<rparr>) \<and> kept fp (fp\<lparr>fp_central := c\<rparr>) \<and>
    (case r of None \<Rightarrow> c = fp_central fp \<and> central_frames c = []
     | Some p \<Rightarrow> free_frames fp = add_mset p (free_frames (fp\<lparr>fp_central := c\<rparr>)))"
proof (cases "c_top (fp_central fp) = 0")
  case True
  then show ?thesis using assms by (auto simp: central_pop_def central_frames_def)
next
  case False
  let ?c = "fp_central fp"
  let ?c' = "?c\<lparr>c_top := c_top ?c - 1\<rparr>"
  let ?fp = "fp\<lparr>fp_central := ?c'\<rparr>"
  have t: "c_top ?c - 1 < length (c_slots ?c)" using False assms by (auto simp: pool_ok_def)
  have "central_frames ?c = central_frames ?c' @ [c_slots ?c ! (c_top ?c - 1)]"
    using take_Suc_conv_app_nth [OF t] False by (simp add: central_frames_def)
  then have f: "free_frames fp = add_mset (c_slots ?c ! (c_top ?c - 1)) (free_frames ?fp)" by (simp add: free_frames_def)
  then have "free_frames ?fp \<subseteq># free_frames fp" by (simp add: subset_mset.less_imp_le)
  then have "free_frames ?fp \<subseteq># mset (frames fp)" using assms by (auto simp: pool_ok_def intro: subset_mset.order_trans)
  moreover have g: "geom ?fp = geom fp" by (simp add: geom_def)
  moreover have "c_top ?c - 1 \<le> n_frames fp" using assms by (auto simp: pool_ok_def)
  ultimately have "pool_ok ?fp" using assms geom_ok_cong [OF g] frames_geom [OF g] by (simp add: pool_ok_def)
  then show ?thesis using t f False by (auto simp: central_pop_def kept_def geom_def)
qed

text \<open>A pool is an object store: the frames are its objects, the central stack its sink.\<close>

interpretation fps: object_store "fp_pop ev cs" "fp_push ev cs"
  "\<lambda>fp. pool_ok fp \<and> l2_bind fp cs \<and> kept fp0 fp" free_frames "\<lambda>fp p. p \<in> set (frames fp)" fp_sink for ev cs fp0
proof
  fix s :: "'a frame_pool" and p
  assume s: "pool_ok s \<and> l2_bind s cs \<and> kept fp0 s"
  obtain fp' r where r: "fp_pop ev cs s = Some (fp', r)" "pool_ok fp'" "kept s fp'"
    "case r of NeedsSlow \<Rightarrow> free_frames fp' = free_frames s
     | FOk p \<Rightarrow> p \<in> set (frames s) \<and> free_frames s = add_mset p (free_frames fp')"
    using fp_pop_ok s by blast
  have k: "l2_bind fp' cs" "kept fp0 fp'" "frames fp' = frames s"
    using r(3) s l2_bind_kept fp_kept_trans kept_frames by blast+
  show "\<exists>s' r. fp_pop ev cs s = Some (s', r) \<and> (pool_ok s' \<and> l2_bind s' cs \<and> kept fp0 s') \<and>
      (\<lambda>p. p \<in> set (frames s')) = (\<lambda>p. p \<in> set (frames s)) \<and>
      (case r of NeedsSlow \<Rightarrow> free_frames s' = free_frames s
       | FOk p \<Rightarrow> p \<in> set (frames s) \<and> free_frames s = add_mset p (free_frames s'))"
    using r k by simp
  show "count (free_frames s) p \<le> 1" using s free_once by blast
  assume p: "p \<in> set (frames s)" "p \<notin># free_frames s"
  obtain fp' r where r: "fp_push ev cs p s = Some (fp', r)" "pool_ok fp'" "kept s fp'"
    "case r of NeedsSlow \<Rightarrow> free_frames fp' = free_frames s | FOk _ \<Rightarrow> free_frames fp' = add_mset p (free_frames s)"
    using fp_push_ok s p by blast
  have k: "l2_bind fp' cs" "kept fp0 fp'" "frames fp' = frames s"
    using r(3) s l2_bind_kept fp_kept_trans kept_frames by blast+
  show "\<exists>s' r. fp_push ev cs p s = Some (s', r) \<and> (pool_ok s' \<and> l2_bind s' cs \<and> kept fp0 s') \<and>
      (\<lambda>p. p \<in> set (frames s')) = (\<lambda>p. p \<in> set (frames s)) \<and>
      (case r of NeedsSlow \<Rightarrow> free_frames s' = free_frames s | FOk _ \<Rightarrow> free_frames s' = add_mset p (free_frames s))"
    using r k by simp
  obtain fp' where q: "fp_sink p s = Some fp'" "pool_ok fp'" "kept s fp'" "free_frames fp' = add_mset p (free_frames s)"
    using fp_sink_ok [of s p] p s by blast
  have k: "l2_bind fp' cs" "kept fp0 fp'" "frames fp' = frames s"
    using q(3) s l2_bind_kept fp_kept_trans kept_frames by blast+
  show "\<exists>s'. fp_sink p s = Some s' \<and> (pool_ok s' \<and> l2_bind s' cs \<and> kept fp0 s') \<and>
      (\<lambda>p. p \<in> set (frames s')) = (\<lambda>p. p \<in> set (frames s)) \<and> free_frames s' = add_mset p (free_frames s)"
    using q k by simp
qed

subsection \<open>Moving frames between the levels\<close>

lemma popped_frame:
  assumes "pool_ok fp" "free_frames fp = add_mset p (free_frames fp')"
  shows "p \<in> set (frames fp)" "p \<notin># free_frames fp'"
  using free_is_frame [OF assms(1), of p] free_once [OF assms(1), of p] assms(2)
  by (simp_all add: not_in_iff)

lemma fp_refill_loop_ok:
  assumes "pool_ok fp" "l2_bind fp cs"
  shows "\<exists>fp'. fp_refill_loop ev cs k fp = Some fp' \<and> pool_ok fp' \<and> kept fp fp' \<and> free_frames fp' = free_frames fp"
  using assms
proof (induction k arbitrary: fp)
  case (Suc k)
  obtain c r where c: "central_pop (fp_central fp) = Some (c, r)" "pool_ok (fp\<lparr>fp_central := c\<rparr>)" "kept fp (fp\<lparr>fp_central := c\<rparr>)"
    "case r of None \<Rightarrow> c = fp_central fp \<and> central_frames c = []
     | Some p \<Rightarrow> free_frames fp = add_mset p (free_frames (fp\<lparr>fp_central := c\<rparr>))"
    using central_pop_ok [OF Suc.prems(1)] by blast
  show ?case
  proof (cases r)
    case None
    then show ?thesis using c Suc.prems by simp
  next
    case (Some p)
    let ?fp = "fp\<lparr>fp_central := c\<rparr>"
    have p: "free_frames fp = add_mset p (free_frames ?fp)" using c(4) Some by simp
    note fr = popped_frame [OF Suc.prems(1) p]
    have q: "p \<in> set (frames ?fp)" "l2_bind ?fp cs"
      using fr(1) kept_frames [OF c(3)] l2_bind_kept [OF c(3)] Suc.prems(2) by simp_all
    obtain fp1 f where f: "fp_push ev cs p ?fp = Some (fp1, f)" "pool_ok fp1" "kept ?fp fp1"
      "case f of NeedsSlow \<Rightarrow> free_frames fp1 = free_frames ?fp | FOk _ \<Rightarrow> free_frames fp1 = add_mset p (free_frames ?fp)"
      using fp_push_ok [OF c(2) q(2,1) fr(2)] by blast
    have k1: "kept fp fp1" "frames fp1 = frames fp" "l2_bind fp1 cs"
      using fp_kept_trans [OF c(3) f(3)] kept_frames l2_bind_kept Suc.prems(2) by blast+
    show ?thesis
    proof (cases f)
      case (FOk u)
      then have e: "free_frames fp1 = free_frames fp" using f(4) p by simp
      obtain fp' where "fp_refill_loop ev cs k fp1 = Some fp'" "pool_ok fp'" "kept fp1 fp'" "free_frames fp' = free_frames fp1"
        using Suc.IH [OF f(2) k1(3)] by blast
      then show ?thesis using c(1) f(1) Some FOk e fp_kept_trans [OF k1(1)] by auto
    next
      case NeedsSlow
      then have e: "free_frames fp1 = free_frames ?fp" using f(4) by simp
      then obtain fp' where "fp_sink p fp1 = Some fp'" "pool_ok fp'" "kept fp1 fp'" "free_frames fp' = add_mset p (free_frames fp1)"
        using fp_sink_ok [OF f(2), of p] fr k1(2) by auto
      then show ?thesis using c(1) f(1) Some NeedsSlow e p fp_kept_trans [OF k1(1)] by auto
    qed
  qed
qed auto

lemma fp_refill_ok:
  assumes "pool_ok fp" "l2_bind fp cs"
  shows "\<exists>fp' r. fp_refill ev cs fp = Some (fp', r) \<and> pool_ok fp' \<and> kept fp fp' \<and>
    (case r of None \<Rightarrow> fp' = fp \<and> central_frames (fp_central fp) = []
     | Some p \<Rightarrow> free_frames fp = add_mset p (free_frames fp'))"
proof -
  obtain c r where c: "central_pop (fp_central fp) = Some (c, r)" "pool_ok (fp\<lparr>fp_central := c\<rparr>)" "kept fp (fp\<lparr>fp_central := c\<rparr>)"
    "case r of None \<Rightarrow> c = fp_central fp \<and> central_frames c = []
     | Some p \<Rightarrow> free_frames fp = add_mset p (free_frames (fp\<lparr>fp_central := c\<rparr>))"
    using central_pop_ok [OF assms(1)] by blast
  show ?thesis
  proof (cases r)
    case None
    then show ?thesis using c assms(1) by (auto simp: fp_refill_def)
  next
    case (Some p)
    have "l2_bind (fp\<lparr>fp_central := c\<rparr>) cs" using l2_bind_kept [OF c(3)] assms(2) by simp
    then obtain fp' where f: "fp_refill_loop ev cs (BATCH - 1) (fp\<lparr>fp_central := c\<rparr>) = Some fp'" "pool_ok fp'"
      "kept (fp\<lparr>fp_central := c\<rparr>) fp'" "free_frames fp' = free_frames (fp\<lparr>fp_central := c\<rparr>)"
      using fp_refill_loop_ok [OF c(2)] by blast
    then show ?thesis using c Some fp_kept_trans [OF c(3) f(3)] by (auto simp: fp_refill_def)
  qed
qed

lemma fp_drain_ok:
  assumes "pool_ok fp" "l2_bind fp cs" "p \<in> set (frames fp)" "p \<notin># free_frames fp"
  shows "\<exists>fp'. fp_drain ev cs p fp = Some fp' \<and> pool_ok fp' \<and> kept fp fp' \<and> free_frames fp' = add_mset p (free_frames fp)"
proof -
  obtain fp1 where d: "drain_with (fp_pop ev cs) fp_sink (max (BATCH div 2) 1) fp = Some fp1" "pool_ok fp1" "l2_bind fp1 cs"
    "kept fp fp1" "free_frames fp1 = free_frames fp"
    using fps.drain_keeps [of fp cs fp ev "max (BATCH div 2) 1"] assms(1,2) kept_refl by blast
  have q: "p \<in> set (frames fp1)" "p \<notin># free_frames fp1" using assms(3,4) d(5) kept_frames [OF d(4)] by simp_all
  obtain fp2 f where f: "fp_push ev cs p fp1 = Some (fp2, f)" "pool_ok fp2" "kept fp1 fp2"
    "case f of NeedsSlow \<Rightarrow> free_frames fp2 = free_frames fp1 | FOk _ \<Rightarrow> free_frames fp2 = add_mset p (free_frames fp1)"
    using fp_push_ok [OF d(2,3) q] by blast
  note k2 = fp_kept_trans [OF d(4) f(3)]
  show ?thesis
  proof (cases f)
    case (FOk u)
    then show ?thesis using d(1,5) f k2 by (auto simp: fp_drain_def)
  next
    case NeedsSlow
    then have "p \<in> set (frames fp2)" "p \<notin># free_frames fp2" using q f kept_frames [OF f(3)] by simp_all
    then obtain fp3 where "fp_sink p fp2 = Some fp3" "pool_ok fp3" "kept fp2 fp3" "free_frames fp3 = add_mset p (free_frames fp2)"
      using fp_sink_ok [OF f(2)] by blast
    then show ?thesis using d(1,5) f NeedsSlow fp_kept_trans [OF k2] by (auto simp: fp_drain_def)
  qed
qed

lemma push_l2_ok:
  assumes "pool_ok fp" "l2_bind fp cs" "p \<in> set (frames fp)" "p \<notin># free_frames fp"
  shows "\<exists>fp'. push_l2 ev cs p fp = Some fp' \<and> pool_ok fp' \<and> kept fp fp' \<and> free_frames fp' = add_mset p (free_frames fp)"
proof -
  obtain fp1 f where f: "fp_push ev cs p fp = Some (fp1, f)" "pool_ok fp1" "kept fp fp1"
    "case f of NeedsSlow \<Rightarrow> free_frames fp1 = free_frames fp | FOk _ \<Rightarrow> free_frames fp1 = add_mset p (free_frames fp)"
    using fp_push_ok [OF assms] by blast
  show ?thesis
  proof (cases f)
    case NeedsSlow
    then obtain fp2 where "fp_drain ev cs p fp1 = Some fp2" "pool_ok fp2" "kept fp1 fp2" "free_frames fp2 = add_mset p (free_frames fp1)"
      using fp_drain_ok [OF f(2)] assms f kept_frames [OF f(3)] l2_bind_kept [OF f(3)] by fastforce
    then show ?thesis using f NeedsSlow fp_kept_trans [OF f(3)] by (auto simp: push_l2_def)
  qed (use f in \<open>auto simp: push_l2_def\<close>)
qed

text \<open>A pop that finds nothing has found the central stack and one CPU's stack empty.\<close>

definition exhausted :: "'m frame_pool \<Rightarrow> bool" where
  "exhausted fp \<longleftrightarrow> central_frames (fp_central fp) = [] \<and>
     (\<exists>cpu<num_cpus (fp_slab fp). contents (stacks (fp_slab fp) ! cpu ! 0) = [])"

lemma pop_l2_ok:
  assumes "pool_ok fp" "l2_bind fp cs"
  shows "\<exists>fp' r. pop_l2 ev cs fp = Some (fp', r) \<and> pool_ok fp' \<and> kept fp fp' \<and>
    (case r of None \<Rightarrow> free_frames fp' = free_frames fp \<and> exhausted fp \<and> exhausted fp'
     | Some p \<Rightarrow> free_frames fp = add_mset p (free_frames fp'))"
proof -
  let ?sl = "fp_slab fp"
  have i: "slab_inv 1 ?sl" "bind_ok ?sl cs" using assms by (simp_all add: pool_ok_def l2_bind_def)
  obtain cpu a where c: "cpu < num_cpus ?sl" "pop_on ?sl (ev (fp_clock fp)) cs 0 = Some (fst (pop_at ?sl cpu 0), snd (pop_at ?sl cpu 0), a)"
    using pop_on_cases [OF i zero_less_one, of "ev (fp_clock fp)"] by blast
  obtain sl' r where r: "pop_at ?sl cpu 0 = (sl', r)" by (cases "pop_at ?sl cpu 0")
  note eff = pop_at_effect [OF i(1) c(1) zero_less_one r]
  note caps = pop_at_caps [OF i(1) c(1) zero_less_one r]
  let ?fp = "fp\<lparr>fp_slab := sl', fp_clock := Suc (fp_clock fp)\<rparr>"
  have f: "case r of NeedsSlow \<Rightarrow> free_frames ?fp = free_frames fp | FOk p \<Rightarrow> free_frames fp = add_mset p (free_frames ?fp)"
    using eff(4,5) by (cases r) (auto simp: free_frames_def)
  then have "free_frames ?fp \<subseteq># free_frames fp"
    by (cases r) (simp_all add: subset_mset.less_imp_le)
  then have "free_frames ?fp \<subseteq># mset (frames fp)"
    using assms(1) by (auto simp: pool_ok_def intro: subset_mset.order_trans)
  then have k: "pool_ok ?fp" "kept fp ?fp"
    using pool_ok_slab [OF assms(1) eff(1,2) caps] by (simp_all add: free_frames_def)
  show ?thesis
  proof (cases r)
    case (FOk p)
    then show ?thesis using c(2) r f k by (auto simp: pop_l2_def Let_def)
  next
    case NeedsSlow
    have "cpu < length (stopped ?sl)" using i(1) c(1) by (simp add: slab_inv_def)
    then have "\<not> stopped ?sl ! cpu" using assms(1) nth_mem by (fastforce simp: pool_ok_def)
    then have z: "contents (stacks ?sl ! cpu ! 0) = []"
      using r NeedsSlow by (auto simp: pop_at_def Let_def contents_def split: if_splits)
    obtain fp' q where q: "fp_refill ev cs ?fp = Some (fp', q)" "pool_ok fp'" "kept ?fp fp'"
      "case q of None \<Rightarrow> fp' = ?fp \<and> central_frames (fp_central ?fp) = [] | Some p \<Rightarrow> free_frames ?fp = add_mset p (free_frames fp')"
      using fp_refill_ok [OF k(1)] l2_bind_kept [OF k(2)] assms(2) by blast
    have "exhausted ?fp \<and> exhausted fp" if "q = None"
      using that q(4) eff(4) NeedsSlow c(1) z by (auto simp: exhausted_def)
    then have "case q of None \<Rightarrow> free_frames fp' = free_frames fp \<and> exhausted fp \<and> exhausted fp'
      | Some p \<Rightarrow> free_frames fp = add_mset p (free_frames fp')"
      using q(4) f NeedsSlow by (cases q) simp_all
    then show ?thesis
      using c r NeedsSlow q(1,2) fp_kept_trans [OF k(2) q(3)] by (cases q) (auto simp: pop_l2_def Let_def)
  qed
qed

text \<open>How many frames the other CPUs can be holding when a pop finds nothing.\<close>

lemma sum_list_bound: "(\<forall>x\<in>set xs. f x \<le> (b::nat)) \<Longrightarrow> (\<Sum>x\<leftarrow>xs. f x) \<le> length xs * b"
  by (induction xs) auto

lemma size_class_objs: "size (class_objs sl c) = (\<Sum>row\<leftarrow>stacks sl. length (contents (row ! c)))"
proof -
  have "size (\<Sum>row\<leftarrow>xs. mset (contents (row ! c))) = (\<Sum>row\<leftarrow>xs. length (contents (row ! c)))" for xs
    by (induction xs) simp_all
  then show ?thesis by (simp add: class_objs_def)
qed

lemma stranded_bound:
  assumes "pool_ok fp" "central_frames (fp_central fp) = []" "cpu < num_cpus (fp_slab fp)"
    "contents (stacks (fp_slab fp) ! cpu ! 0) = []"
  shows "size (free_frames fp) \<le> (num_cpus (fp_slab fp) - 1) * CAP_PER_CPU"
proof -
  let ?sl = "fp_slab fp"
  let ?f = "\<lambda>row. length (contents (row ! 0))"
  have inv: "slab_inv 1 ?sl" "\<forall>c\<in>set (stack_caps ?sl). c = CAP_PER_CPU" using assms(1) by (simp_all add: pool_ok_def)
  have l: "length (stacks ?sl) = num_cpus ?sl" using inv(1) by (simp add: slab_inv_def)
  have b: "?f row \<le> CAP_PER_CPU" if "row \<in> set (stacks ?sl)" for row
  proof -
    have "cstack_ok (row ! 0)" using inv(1) that by (auto simp: slab_inv_def)
    moreover have "capacity (row ! 0) = CAP_PER_CPU" using inv(2) that by (auto simp: stack_caps_def)
    ultimately show ?thesis by (auto simp: cstack_ok_def contents_def)
  qed
  let ?xs = "take cpu (stacks ?sl) @ drop (Suc cpu) (stacks ?sl)"
  have s: "stacks ?sl = take cpu (stacks ?sl) @ stacks ?sl ! cpu # drop (Suc cpu) (stacks ?sl)"
    using l assms(3) by (metis id_take_nth_drop)
  have "(\<Sum>row\<leftarrow>stacks ?sl. ?f row) = (\<Sum>row\<leftarrow>?xs. ?f row)"
    using assms(4) by (subst s) simp
  also have "\<dots> \<le> length ?xs * CAP_PER_CPU"
    using b by (intro sum_list_bound) (auto dest: in_set_takeD in_set_dropD)
  also have "length ?xs = num_cpus ?sl - 1" using l assms(3) by simp
  finally show ?thesis using assms(2) by (simp add: free_frames_def size_class_objs)
qed

lemma exhausted_bound:
  "pool_ok fp \<Longrightarrow> exhausted fp \<Longrightarrow> size (free_frames fp) \<le> (num_cpus (fp_slab fp) - 1) * CAP_PER_CPU"
  using stranded_bound by (auto simp: exhausted_def)

subsection \<open>Metadata updates\<close>

definition meta_at :: "'m frame_pool \<Rightarrow> nat \<Rightarrow> 'm" where
  "meta_at fp f = fp_meta fp ! frame_index_of fp f"

definition put_meta :: "'m frame_pool \<Rightarrow> nat \<Rightarrow> 'm \<Rightarrow> 'm frame_pool" where
  "put_meta fp f v = fp\<lparr>fp_meta := (fp_meta fp)[frame_index_of fp f := v]\<rparr>"

lemma put_meta_simps [simp]:
  "geom (put_meta fp f v) = geom fp" "free_frames (put_meta fp f v) = free_frames fp"
  "frames (put_meta fp f v) = frames fp" "fp_slab (put_meta fp f v) = fp_slab fp"
  "l2_bind (put_meta fp f v) cs = l2_bind fp cs" "fp_central (put_meta fp f v) = fp_central fp"
  by (simp_all add: put_meta_def geom_def free_frames_def frames_def l2_bind_def)

lemma put_meta_pool_ok [simp]: "pool_ok (put_meta fp f v) \<longleftrightarrow> pool_ok fp"
proof -
  have "geom_ok (put_meta fp f v) \<longleftrightarrow> geom_ok fp" by (rule geom_ok_cong) simp
  moreover have "length (fp_meta (put_meta fp f v)) = length (fp_meta fp)" "n_frames (put_meta fp f v) = n_frames fp"
    by (simp_all add: put_meta_def)
  ultimately show ?thesis by (simp add: pool_ok_def)
qed

lemma index_geom: "geom fp' = geom fp \<Longrightarrow> frame_index_of fp' f = frame_index_of fp f"
  by (simp add: geom_def frame_index_of_def)

lemma meta_in_range: "pool_ok fp \<Longrightarrow> f \<in> set (frames fp) \<Longrightarrow> frame_index_of fp f < length (fp_meta fp)"
  using frame_index_less(1) [of fp f] by (simp add: pool_ok_def)

lemma meta_at_put:
  assumes "pool_ok fp" "f \<in> set (frames fp)" "g \<in> set (frames fp)"
  shows "meta_at (put_meta fp f v) g = (if g = f then v else meta_at fp g)"
proof -
  have i: "frame_index_of (put_meta fp f v) g = frame_index_of fp g" by (rule index_geom) simp
  have "g \<noteq> f \<Longrightarrow> frame_index_of fp f \<noteq> frame_index_of fp g"
    using frame_index_less(2) [OF assms(1)] assms(2,3) by metis
  then show ?thesis
    using i meta_in_range [OF assms(1,2)] by (cases "g = f") (auto simp: meta_at_def put_meta_def)
qed

lemma meta_at_kept: "kept fp fp' \<Longrightarrow> meta_at fp' f = meta_at fp f"
  using index_geom unfolding kept_def meta_at_def by metis

lemma do_on_alloc_ok:
  assumes "pool_ok fp" "f \<in> set (frames fp)"
  shows "do_on_alloc P f fp = Some (put_meta fp f (on_alloc P (meta_at fp f)))"
  using meta_in_range [OF assms] by (simp add: do_on_alloc_def frame_meta_of_def set_meta_def meta_at_def put_meta_def)

lemma do_on_free_ok:
  assumes "pool_ok fp" "f \<in> set (frames fp)"
  shows "do_on_free P f fp = Some (put_meta fp f (fst (on_free P (meta_at fp f))), snd (on_free P (meta_at fp f)))"
  using meta_in_range [OF assms]
  by (simp add: do_on_free_def frame_meta_of_def set_meta_def meta_at_def put_meta_def split: prod.splits)

subsection \<open>Allocation and release\<close>

text \<open>The effect of taking one frame, with its metadata set for a fresh allocation.\<close>

definition took :: "'m frame_meta \<Rightarrow> 'm frame_pool \<Rightarrow> nat \<Rightarrow> 'm frame_pool \<Rightarrow> bool" where
  "took P fp p fp' \<longleftrightarrow> geom fp' = geom fp \<and> free_frames fp = add_mset p (free_frames fp') \<and>
     (\<forall>g\<in>set (frames fp). meta_at fp' g = (if g = p then on_alloc P (meta_at fp g) else meta_at fp g))"

lemma pop_took:
  assumes "pool_ok fp" "pool_ok fp1" "kept fp fp1" "free_frames fp = add_mset p (free_frames fp1)"
  shows "\<exists>fp'. do_on_alloc P p fp1 = Some fp' \<and> pool_ok fp' \<and> took P fp p fp'"
proof -
  have p: "p \<in> set (frames fp1)" using popped_frame(1) [OF assms(1,4)] kept_frames [OF assms(3)] by simp
  have "geom fp1 = geom fp" using assms(3) by (simp add: kept_def)
  moreover have "frames fp1 = frames fp" using kept_frames [OF assms(3)] .
  ultimately show ?thesis
    using do_on_alloc_ok [OF assms(2) p, of P] assms meta_at_put [OF assms(2) p] meta_at_kept [OF assms(3)]
    by (auto simp: took_def)
qed

lemma fp_alloc_ok:
  assumes "pool_ok fp"
  shows "\<exists>fp' r. fp_alloc P ev fp = Some (fp', r) \<and> pool_ok fp' \<and>
    (case r of None \<Rightarrow> kept fp fp' \<and> free_frames fp' = free_frames fp \<and> exhausted fp | Some p \<Rightarrow> took P fp p fp')"
proof -
  let ?cs = "current_fast (fp_slab fp)"
  obtain fp1 r where r: "pop_l2 ev ?cs fp = Some (fp1, r)" "pool_ok fp1" "kept fp fp1"
    "case r of None \<Rightarrow> free_frames fp1 = free_frames fp \<and> exhausted fp \<and> exhausted fp1
     | Some p \<Rightarrow> free_frames fp = add_mset p (free_frames fp1)"
    using pop_l2_ok [OF assms l2_bind_fast] by blast
  show ?thesis
  proof (cases r)
    case None
    then show ?thesis using r by (auto simp: fp_alloc_def)
  next
    case (Some p)
    then show ?thesis using pop_took [OF assms r(2,3), of p P] r by (auto simp: fp_alloc_def)
  qed
qed

text \<open>The effect of releasing one reference: the frame joins the free frames when the policy says so.\<close>

definition gave :: "'m frame_meta \<Rightarrow> 'm frame_pool \<Rightarrow> nat \<Rightarrow> 'm frame_pool \<Rightarrow> bool" where
  "gave P fp f fp' \<longleftrightarrow> geom fp' = geom fp \<and>
     free_frames fp' = (if snd (on_free P (meta_at fp f)) = Free then add_mset f (free_frames fp) else free_frames fp) \<and>
     (\<forall>g\<in>set (frames fp). meta_at fp' g = (if g = f then fst (on_free P (meta_at fp g)) else meta_at fp g))"

lemma put_gave:
  assumes "pool_ok fp" "f \<in> set (frames fp)" "f \<notin># free_frames fp" "l2_bind fp cs"
  shows "\<exists>fp'. (if snd (on_free P (meta_at fp f)) = Free then push_l2 ev cs f (put_meta fp f (fst (on_free P (meta_at fp f))))
      else Some (put_meta fp f (fst (on_free P (meta_at fp f))))) = Some fp' \<and> pool_ok fp' \<and> gave P fp f fp'"
proof (cases "snd (on_free P (meta_at fp f)) = Free")
  case True
  let ?fp = "put_meta fp f (fst (on_free P (meta_at fp f)))"
  obtain fp' where f: "push_l2 ev cs f ?fp = Some fp'" "pool_ok fp'" "kept ?fp fp'" "free_frames fp' = add_mset f (free_frames fp)"
    using push_l2_ok [of ?fp cs f ev] assms by auto
  then show ?thesis using True meta_at_put [OF assms(1,2)] meta_at_kept [OF f(3)] by (auto simp: gave_def kept_def)
next
  case False
  then show ?thesis using meta_at_put [OF assms(1,2)] assms(1) by (auto simp: gave_def)
qed

lemma fp_free_ok:
  assumes "pool_ok fp" "f \<in> set (frames fp)" "f \<notin># free_frames fp"
  shows "\<exists>fp'. fp_free P ev f fp = Some fp' \<and> pool_ok fp' \<and> gave P fp f fp'"
proof -
  let ?fp = "put_meta fp f (fst (on_free P (meta_at fp f)))"
  have "l2_bind fp (fp_current ev ?fp)" using l2_bind_current [of ?fp ev] assms(1) by simp
  then show ?thesis
    using put_gave [OF assms, of "fp_current ev ?fp" P ev] do_on_free_ok [OF assms(1,2), of P]
    by (cases "snd (on_free P (meta_at fp f))") (simp_all add: fp_free_def)
qed

lemma fp_recycle_ok:
  assumes "pool_ok fp" "f \<in> set (frames fp)" "f \<notin># free_frames fp"
  shows "\<exists>fp'. fp_recycle ev f fp = Some fp' \<and> pool_ok fp' \<and> kept fp fp' \<and> free_frames fp' = add_mset f (free_frames fp)"
  using push_l2_ok [OF assms(1) l2_bind_current [OF assms(1)] assms(2,3)] by (simp add: fp_recycle_def)

lemma alloc_n_loop_ok:
  assumes "pool_ok fp" "l2_bind fp cs"
  shows "\<exists>fp' ps. alloc_n_loop P ev cs k fp = Some (fp', ps) \<and> pool_ok fp' \<and> geom fp' = geom fp \<and>
    free_frames fp = mset ps + free_frames fp' \<and> length ps \<le> k \<and> (length ps < k \<longrightarrow> exhausted fp')"
  using assms
proof (induction k arbitrary: fp)
  case (Suc k)
  obtain fp1 r where r: "pop_l2 ev cs fp = Some (fp1, r)" "pool_ok fp1" "kept fp fp1"
    "case r of None \<Rightarrow> free_frames fp1 = free_frames fp \<and> exhausted fp \<and> exhausted fp1
     | Some p \<Rightarrow> free_frames fp = add_mset p (free_frames fp1)"
    using pop_l2_ok [OF Suc.prems] by blast
  show ?case
  proof (cases r)
    case None
    then show ?thesis using r None by (auto simp: kept_def)
  next
    case (Some p)
    obtain fp2 where f: "do_on_alloc P p fp1 = Some fp2" "pool_ok fp2" "took P fp p fp2"
      using pop_took [OF Suc.prems(1) r(2,3), of p P] r(4) Some by auto
    have g: "geom fp2 = geom fp" "free_frames fp = add_mset p (free_frames fp2)" using f(3) by (simp_all add: took_def)
    have "l2_bind fp2 cs" using g(1) Suc.prems(2) by (simp add: l2_bind_def bind_ok_def geom_def)
    then obtain fp3 ps where "alloc_n_loop P ev cs k fp2 = Some (fp3, ps)" "pool_ok fp3" "geom fp3 = geom fp2"
      "free_frames fp2 = mset ps + free_frames fp3" "length ps \<le> k" "length ps < k \<longrightarrow> exhausted fp3"
      using Suc.IH [OF f(2)] by blast
    then show ?thesis using r(1) Some f(1) g by simp
  qed
qed (auto)

lemma free_n_loop_ok:
  assumes "pool_ok fp" "l2_bind fp cs" "distinct fs" "\<forall>f\<in>set fs. f \<in> set (frames fp) \<and> f \<notin># free_frames fp"
  shows "\<exists>fp'. free_n_loop P ev cs fs fp = Some fp' \<and> pool_ok fp' \<and> geom fp' = geom fp \<and>
    free_frames fp' = mset (filter (\<lambda>f. snd (on_free P (meta_at fp f)) = Free) fs) + free_frames fp"
  using assms
proof (induction fs arbitrary: fp)
  case (Cons f fs)
  have f: "f \<in> set (frames fp)" "f \<notin># free_frames fp" using Cons.prems(4) by simp_all
  let ?r = "snd (on_free P (meta_at fp f))"
  obtain fp1 where g: "(if ?r = Free then push_l2 ev cs f (put_meta fp f (fst (on_free P (meta_at fp f))))
      else Some (put_meta fp f (fst (on_free P (meta_at fp f))))) = Some fp1" "pool_ok fp1" "gave P fp f fp1"
    using put_gave [OF Cons.prems(1) f Cons.prems(2)] by blast
  have h: "geom fp1 = geom fp" "free_frames fp1 = (if ?r = Free then add_mset f (free_frames fp) else free_frames fp)"
    "\<forall>g\<in>set fs. meta_at fp1 g = meta_at fp g"
    using g(3) Cons.prems(3,4) by (auto simp: gave_def)
  have b: "l2_bind fp1 cs" using h(1) Cons.prems(2) by (simp add: l2_bind_def bind_ok_def geom_def)
  have d: "distinct fs" "\<forall>g\<in>set fs. g \<in> set (frames fp1) \<and> g \<notin># free_frames fp1"
    using Cons.prems(3,4) h(2) frames_geom [OF h(1)] by auto
  obtain fp' where "free_n_loop P ev cs fs fp1 = Some fp'" "pool_ok fp'" "geom fp' = geom fp1"
    "free_frames fp' = mset (filter (\<lambda>f. snd (on_free P (meta_at fp1 f)) = Free) fs) + free_frames fp1"
    using Cons.IH [OF g(2) b d] by blast
  moreover have "filter (\<lambda>f. snd (on_free P (meta_at fp1 f)) = Free) fs = filter (\<lambda>f. snd (on_free P (meta_at fp f)) = Free) fs"
    using h(3) by (intro filter_cong) simp_all
  ultimately show ?case
    using do_on_free_ok [OF Cons.prems(1) f(1), of P] g(1) h(1,2) by auto
qed simp

subsection \<open>Frame caches\<close>

text \<open>A magazine in front of the pool; \<open>cached\<close> are the frames in either.\<close>

definition cached :: "magazine \<times> 'm frame_pool \<Rightarrow> nat multiset" where
  "cached s = mset (mag_objs (fst s)) + free_frames (snd s)"

definition cache_ok :: "magazine \<times> 'm frame_pool \<Rightarrow> bool" where
  "cache_ok s \<longleftrightarrow> pool_ok (snd s) \<and> mag_ok FRAME_MAG_CAP (fst s) \<and> cached s \<subseteq># mset (frames (snd s))"

lemma cached_once:
  assumes "cache_ok s" "cached s = add_mset p X"
  shows "p \<in> set (frames (snd s))" "p \<notin># X"
proof -
  have sub: "add_mset p X \<subseteq># mset (frames (snd s))" using assms by (simp add: cache_ok_def)
  then have "p \<in># mset (frames (snd s))" by (rule mset_subset_eqD) simp
  then show "p \<in> set (frames (snd s))" by simp
  have "distinct (frames (snd s))" using assms(1) distinct_frames [of "snd s"] by (simp add: cache_ok_def)
  then have "count (mset (frames (snd s))) p \<le> 1" by (simp add: distinct_count_atmost_1)
  moreover have "count (add_mset p X) p \<le> count (mset (frames (snd s))) p" using sub by (rule mset_subset_eq_count)
  ultimately show "p \<notin># X" by (simp add: not_in_iff)
qed

lemma cache_sub:
  assumes "cache_ok s" "pool_ok (snd s')" "mag_ok FRAME_MAG_CAP (fst s')" "geom (snd s') = geom (snd s)" "cached s' \<subseteq># cached s"
  shows "cache_ok s'"
  using assms frames_geom [OF assms(4)] subset_mset.order_trans unfolding cache_ok_def by metis

lemma fc_refill_loop_ok:
  assumes "cache_ok (m, fp)" "l2_bind fp cs" "mag_len m + k \<le> FRAME_MAG_CAP"
  shows "\<exists>m' fp'. fc_refill_loop ev cs k (m, fp) = Some (m', fp') \<and> cache_ok (m', fp') \<and> kept fp fp' \<and>
    cached (m', fp') = cached (m, fp) \<and> mag_len m \<le> mag_len m' \<and> (mag_len m' = 0 \<and> 0 < k \<longrightarrow> exhausted fp)"
  using assms
proof (induction k arbitrary: m fp)
  case (Suc k)
  have ok: "pool_ok fp" "mag_ok FRAME_MAG_CAP m" using Suc.prems(1) by (simp_all add: cache_ok_def)
  obtain fp1 r where r: "pop_l2 ev cs fp = Some (fp1, r)" "pool_ok fp1" "kept fp fp1"
    "case r of None \<Rightarrow> free_frames fp1 = free_frames fp \<and> exhausted fp \<and> exhausted fp1
     | Some p \<Rightarrow> free_frames fp = add_mset p (free_frames fp1)"
    using pop_l2_ok [OF ok(1) Suc.prems(2)] by blast
  show ?case
  proof (cases r)
    case None
    then have "cached (m, fp1) = cached (m, fp)" using r by (simp add: cached_def)
    moreover from this have "cache_ok (m, fp1)"
      using cache_sub [OF Suc.prems(1), of "(m, fp1)"] r ok by (simp add: kept_def)
    ultimately show ?thesis using r None by auto
  next
    case (Some p)
    obtain m1 where m: "mag_store m p = Some m1" "mag_ok FRAME_MAG_CAP m1" "mag_objs m1 = mag_objs m @ [p]" "mag_len m1 = mag_len m + 1"
      using mag_store_ok [OF ok(2), of p] Suc.prems(3) by auto
    have c: "cached (m1, fp1) = cached (m, fp)" using r(4) Some m(3) by (simp add: cached_def)
    have k: "cache_ok (m1, fp1)" using cache_sub [OF Suc.prems(1), of "(m1, fp1)"] r m(2) c by (simp add: kept_def)
    have "l2_bind fp1 cs" using l2_bind_kept [OF r(3)] Suc.prems(2) by simp
    then obtain m' fp' where "fc_refill_loop ev cs k (m1, fp1) = Some (m', fp')" "cache_ok (m', fp')" "kept fp1 fp'"
      "cached (m', fp') = cached (m1, fp1)" "mag_len m1 \<le> mag_len m'"
      using Suc.IH [OF k] Suc.prems(3) m(4) by auto
    then show ?thesis using r(1) Some m(1,4) c fp_kept_trans [OF r(3)] by auto
  qed
qed auto

lemma fc_refill_ok:
  assumes "cache_ok (m, fp)" "mag_len m = 0"
  shows "\<exists>m' fp' r. fc_refill ev (m, fp) = Some ((m', fp'), r) \<and> cache_ok (m', fp') \<and> kept fp fp' \<and>
    (case r of None \<Rightarrow> cached (m', fp') = cached (m, fp) \<and> exhausted fp | Some p \<Rightarrow> cached (m, fp) = add_mset p (cached (m', fp')))"
proof -
  have w: "FRAME_MAG_CAP div 2 - mag_len m = 16" "mag_len m + 16 \<le> FRAME_MAG_CAP" using assms(2) by (simp_all add: FRAME_MAG_CAP_def)
  obtain m1 fp1 where f: "fc_refill_loop ev (current_fast (fp_slab fp)) 16 (m, fp) = Some (m1, fp1)" "cache_ok (m1, fp1)" "kept fp fp1"
    "cached (m1, fp1) = cached (m, fp)" "mag_len m1 = 0 \<longrightarrow> exhausted fp"
    using fc_refill_loop_ok [OF assms(1) l2_bind_fast w(2)] by fastforce
  show ?thesis
  proof (cases "mag_len m1 = 0")
    case True
    then show ?thesis using f w(1) by (auto simp: fc_refill_def)
  next
    case False
    have ok: "mag_ok FRAME_MAG_CAP m1" "pool_ok fp1" using f(2) by (simp_all add: cache_ok_def)
    obtain m2 p where m: "mag_take m1 = Some (m2, p)" "mag_ok FRAME_MAG_CAP m2" "mag_objs m1 = mag_objs m2 @ [p]"
      using mag_take_ok [OF ok(1)] False by auto
    have c: "cached (m1, fp1) = add_mset p (cached (m2, fp1))" using m(3) by (simp add: cached_def)
    then have "cached (m2, fp1) \<subseteq># cached (m1, fp1)" by (simp add: subset_mset.less_imp_le)
    then have "cache_ok (m2, fp1)" using cache_sub [OF f(2), of "(m2, fp1)"] ok m(2) by simp
    then show ?thesis using f w(1) False m(1) c by (auto simp: fc_refill_def)
  qed
qed

lemma cache_ok_put_meta: "cache_ok (m, put_meta fp f v) \<longleftrightarrow> cache_ok (m, fp)" "cached (m, put_meta fp f v) = cached (m, fp)"
  by (simp_all add: cache_ok_def cached_def)

text \<open>Taking a frame from a cache and giving one reference back, as for the pool.\<close>

definition meta_took :: "'m frame_meta \<Rightarrow> 'm frame_pool \<Rightarrow> nat \<Rightarrow> 'm frame_pool \<Rightarrow> bool" where
  "meta_took P fp p fp' \<longleftrightarrow> geom fp' = geom fp \<and>
     (\<forall>g\<in>set (frames fp). meta_at fp' g = (if g = p then on_alloc P (meta_at fp g) else meta_at fp g))"

definition meta_gave :: "'m frame_meta \<Rightarrow> 'm frame_pool \<Rightarrow> nat \<Rightarrow> 'm frame_pool \<Rightarrow> bool" where
  "meta_gave P fp f fp' \<longleftrightarrow> geom fp' = geom fp \<and>
     (\<forall>g\<in>set (frames fp). meta_at fp' g = (if g = f then fst (on_free P (meta_at fp g)) else meta_at fp g))"

lemma fc_alloc_ok:
  assumes "cache_ok (m, fp)"
  shows "\<exists>m' fp' r. fc_alloc P ev (m, fp) = Some ((m', fp'), r) \<and> cache_ok (m', fp') \<and>
    (case r of None \<Rightarrow> kept fp fp' \<and> cached (m', fp') = cached (m, fp) \<and> mag_objs m = [] \<and> exhausted fp
     | Some p \<Rightarrow> meta_took P fp p fp' \<and> cached (m, fp) = add_mset p (cached (m', fp')))"
proof -
  have ok: "mag_ok FRAME_MAG_CAP m" "pool_ok fp" using assms by (simp_all add: cache_ok_def)
  let ?x = "if 0 < mag_len m then do { (m1, p) \<leftarrow> mag_take m; Some ((m1, fp), Some p) } else fc_refill ev (m, fp)"
  have "\<exists>m1 fp1 r. ?x = Some ((m1, fp1), r) \<and> cache_ok (m1, fp1) \<and> kept fp fp1 \<and>
    (case r of None \<Rightarrow> cached (m1, fp1) = cached (m, fp) \<and> mag_objs m = [] \<and> exhausted fp
     | Some p \<Rightarrow> cached (m, fp) = add_mset p (cached (m1, fp1)))"
  proof (cases "0 < mag_len m")
    case True
    obtain m1 p where t: "mag_take m = Some (m1, p)" "mag_ok FRAME_MAG_CAP m1" "mag_objs m = mag_objs m1 @ [p]"
      using mag_take_ok [OF ok(1) True] by auto
    have c: "cached (m, fp) = add_mset p (cached (m1, fp))" using t(3) by (simp add: cached_def)
    then have "cached (m1, fp) \<subseteq># cached (m, fp)" by (simp add: subset_mset.less_imp_le)
    then have "cache_ok (m1, fp)" using cache_sub [OF assms, of "(m1, fp)"] ok t(2) by simp
    then show ?thesis using True t(1) c by auto
  next
    case False
    then have z: "mag_len m = 0" "mag_objs m = []" by (simp_all add: mag_objs_def)
    obtain m' fp' r where "fc_refill ev (m, fp) = Some ((m', fp'), r)" "cache_ok (m', fp')" "kept fp fp'"
      "case r of None \<Rightarrow> cached (m', fp') = cached (m, fp) \<and> exhausted fp | Some p \<Rightarrow> cached (m, fp) = add_mset p (cached (m', fp'))"
      using fc_refill_ok [OF assms z(1)] by blast
    then show ?thesis using z by (cases r) auto
  qed
  then obtain m1 fp1 r where x: "?x = Some ((m1, fp1), r)" "cache_ok (m1, fp1)" "kept fp fp1"
    "case r of None \<Rightarrow> cached (m1, fp1) = cached (m, fp) \<and> mag_objs m = [] \<and> exhausted fp
     | Some p \<Rightarrow> cached (m, fp) = add_mset p (cached (m1, fp1))" by blast
  show ?thesis
  proof (cases r)
    case None
    then have "fc_alloc P ev (m, fp) = Some ((m1, fp1), None)" by (simp only: fc_alloc_def fst_conv snd_conv x(1)) simp
    then show ?thesis using x None by auto
  next
    case (Some p)
    have p: "p \<in> set (frames fp1)" "pool_ok fp1"
      using cached_once(1) [OF assms, of p] x(2,4) Some kept_frames [OF x(3)] by (simp_all add: cache_ok_def)
    have "meta_took P fp p (put_meta fp1 p (on_alloc P (meta_at fp1 p)))"
      using meta_at_put [OF p(2,1)] meta_at_kept [OF x(3)] kept_frames [OF x(3)] x(3) by (auto simp: meta_took_def kept_def)
    moreover have "fc_alloc P ev (m, fp) = Some ((m1, put_meta fp1 p (on_alloc P (meta_at fp1 p))), Some p)"
      using Some do_on_alloc_ok [OF p(2,1), of P] by (simp only: fc_alloc_def fst_conv snd_conv x(1)) simp
    ultimately show ?thesis using x(2,4) Some by (auto simp: cache_ok_put_meta)
  qed
qed

lemma fc_flush_ok:
  assumes "cache_ok (m, fp)" "l2_bind fp cs" "k \<le> mag_len m"
  shows "\<exists>m' fp'. fc_flush ev cs k (m, fp) = Some (m', fp') \<and> cache_ok (m', fp') \<and> kept fp fp' \<and>
    cached (m', fp') = cached (m, fp) \<and> mag_len m' = mag_len m - k"
  using assms
proof (induction k arbitrary: m fp)
  case (Suc k)
  have ok: "pool_ok fp" "mag_ok FRAME_MAG_CAP m" using Suc.prems(1) by (simp_all add: cache_ok_def)
  obtain m1 p where m: "mag_take m = Some (m1, p)" "mag_ok FRAME_MAG_CAP m1" "mag_objs m = mag_objs m1 @ [p]" "mag_len m1 = mag_len m - 1"
    using mag_take_ok [OF ok(2)] Suc.prems(3) by auto
  have x: "cached (m, fp) = add_mset p (mset (mag_objs m1) + free_frames fp)" using m(3) by (simp add: cached_def)
  have p: "p \<in> set (frames fp)" "p \<notin># free_frames fp" using cached_once [OF Suc.prems(1) x] by auto
  obtain fp1 where f: "push_l2 ev cs p fp = Some fp1" "pool_ok fp1" "kept fp fp1" "free_frames fp1 = add_mset p (free_frames fp)"
    using push_l2_ok [OF ok(1) Suc.prems(2) p] by blast
  have c: "cached (m1, fp1) = cached (m, fp)" using f(4) m(3) by (simp add: cached_def)
  have k: "cache_ok (m1, fp1)" using cache_sub [OF Suc.prems(1), of "(m1, fp1)"] f m(2) c by (simp add: kept_def)
  have "l2_bind fp1 cs" using l2_bind_kept [OF f(3)] Suc.prems(2) by simp
  moreover have "k \<le> mag_len m1" using Suc.prems(3) m(4) by linarith
  ultimately obtain m' fp' where "fc_flush ev cs k (m1, fp1) = Some (m', fp')" "cache_ok (m', fp')" "kept fp1 fp'"
    "cached (m', fp') = cached (m1, fp1)" "mag_len m' = mag_len m1 - k"
    using Suc.IH [OF k] by blast
  then show ?case using m(1,4) f(1) c fp_kept_trans [OF f(3)] by auto
qed auto

lemma cache_add:
  assumes "cache_ok s" "f \<in> set (frames (snd s))" "f \<notin># cached s"
  shows "add_mset f (cached s) \<subseteq># mset (frames (snd s))"
proof (rule mset_subset_eqI)
  fix x
  have "count (cached s) x \<le> count (mset (frames (snd s))) x"
    using assms(1) by (auto simp: cache_ok_def intro: mset_subset_eq_count)
  moreover have "1 \<le> count (mset (frames (snd s))) f" using assms(2) by (simp add: Suc_le_eq)
  ultimately show "count (add_mset f (cached s)) x \<le> count (mset (frames (snd s))) x"
    using assms(3) by (cases "x = f") (simp_all add: not_in_iff)
qed

lemma fc_store_ok:
  assumes "cache_ok (m, fp)" "f \<in> set (frames fp)" "f \<notin># cached (m, fp)" "mag_len m < FRAME_MAG_CAP"
  shows "\<exists>m'. mag_store m f = Some m' \<and> cache_ok (m', fp) \<and> cached (m', fp) = add_mset f (cached (m, fp))"
proof -
  obtain m' where m: "mag_store m f = Some m'" "mag_ok FRAME_MAG_CAP m'" "mag_objs m' = mag_objs m @ [f]"
    using mag_store_ok [OF _ assms(4), of f] assms(1) by (auto simp: cache_ok_def)
  have c: "cached (m', fp) = add_mset f (cached (m, fp))" using m(3) by (simp add: cached_def)
  then have "cache_ok (m', fp)" using cache_add [OF assms(1)] assms(1-3) m(2) by (simp add: cache_ok_def)
  then show ?thesis using m(1) c by blast
qed

lemma fc_recycle_ok:
  assumes "cache_ok (m, fp)" "f \<in> set (frames fp)" "f \<notin># cached (m, fp)"
  shows "\<exists>m' fp'. fc_recycle ev f (m, fp) = Some (m', fp') \<and> cache_ok (m', fp') \<and> kept fp fp' \<and>
    cached (m', fp') = add_mset f (cached (m, fp))"
proof (cases "mag_len m < FRAME_MAG_CAP")
  case True
  then show ?thesis using fc_store_ok [OF assms True] by (auto simp: fc_recycle_def)
next
  case False
  have ok: "pool_ok fp" "mag_len m = FRAME_MAG_CAP" using assms(1) False by (simp_all add: cache_ok_def mag_ok_def)
  have h: "FRAME_MAG_CAP div 2 \<le> mag_len m" using ok(2) by simp
  obtain m1 fp1 where f: "fc_flush ev (fp_current ev fp) (FRAME_MAG_CAP div 2) (m, fp) = Some (m1, fp1)" "cache_ok (m1, fp1)"
    "kept fp fp1" "cached (m1, fp1) = cached (m, fp)" "mag_len m1 = mag_len m - FRAME_MAG_CAP div 2"
    using fc_flush_ok [OF assms(1) l2_bind_current [OF ok(1)] h] by blast
  have "mag_len m1 < FRAME_MAG_CAP" using f(5) ok(2) by (simp add: FRAME_MAG_CAP_def)
  then obtain m2 where "mag_store m1 f = Some m2" "cache_ok (m2, fp1)" "cached (m2, fp1) = add_mset f (cached (m1, fp1))"
    using fc_store_ok [OF f(2)] assms(2,3) f(4) kept_frames [OF f(3)] by auto
  then show ?thesis using False f by (auto simp: fc_recycle_def fc_drain_then_push_def)
qed

lemma fc_free_ok:
  assumes "cache_ok (m, fp)" "f \<in> set (frames fp)" "f \<notin># cached (m, fp)"
  shows "\<exists>m' fp'. fc_free P ev f (m, fp) = Some (m', fp') \<and> cache_ok (m', fp') \<and> meta_gave P fp f fp' \<and>
    cached (m', fp') = (if snd (on_free P (meta_at fp f)) = Free then add_mset f (cached (m, fp)) else cached (m, fp))"
proof -
  let ?r = "on_free P (meta_at fp f)"
  let ?fp = "put_meta fp f (fst ?r)"
  have ok: "pool_ok fp" using assms(1) by (simp add: cache_ok_def)
  have d: "do_on_free P f fp = Some (?fp, snd ?r)" by (rule do_on_free_ok [OF ok assms(2)])
  have g: "meta_gave P fp f fp'" if "kept ?fp fp'" for fp'
    using meta_at_put [OF ok assms(2)] meta_at_kept [OF that] that by (auto simp: meta_gave_def kept_def)
  show ?thesis
  proof (cases "snd ?r")
    case Free
    obtain m' fp' where "fc_recycle ev f (m, ?fp) = Some (m', fp')" "cache_ok (m', fp')" "kept ?fp fp'"
      "cached (m', fp') = add_mset f (cached (m, fp))"
      using fc_recycle_ok [of m ?fp f ev] assms by (auto simp: cache_ok_put_meta)
    then show ?thesis using d Free g by (auto simp: fc_free_def)
  next
    case Keep
    then show ?thesis using d g [OF kept_refl] assms(1) by (auto simp: fc_free_def cache_ok_put_meta)
  qed
qed

lemma fc_drop_ok:
  assumes "cache_ok (m, fp)"
  shows "\<exists>m' fp'. fc_drop ev (m, fp) = Some (m', fp') \<and> cache_ok (m', fp') \<and> kept fp fp' \<and>
    mag_objs m' = [] \<and> free_frames fp' = cached (m, fp)"
proof -
  have ok: "pool_ok fp" using assms by (simp add: cache_ok_def)
  obtain m' fp' where f: "fc_flush ev (fp_current ev fp) (mag_len m) (m, fp) = Some (m', fp')" "cache_ok (m', fp')"
    "kept fp fp'" "cached (m', fp') = cached (m, fp)" "mag_len m' = 0"
    using fc_flush_ok [OF assms l2_bind_current [OF ok, of ev] order.refl, of ev] by auto
  have "mag_objs m' = []" using f(5) by (simp add: mag_objs_def)
  then show ?thesis using f by (auto simp: fc_drop_def cached_def)
qed

subsection \<open>Construction\<close>

lemma seed_central_ok:
  "length (c_slots c) = n \<Longrightarrow> c_top c + length is \<le> n \<Longrightarrow>
   \<exists>c'. seed_central base sz is c = Some c' \<and> central_frames c' = central_frames c @ map (\<lambda>i. base + i * sz) is \<and>
     length (c_slots c') = n \<and> c_top c' = c_top c + length is"
proof (induction "is" arbitrary: c)
  case (Cons i "is")
  let ?c = "c\<lparr>c_slots := (c_slots c)[c_top c := base + i * sz], c_top := c_top c + 1\<rparr>"
  have t: "c_top c < length (c_slots c)" using Cons.prems by simp
  have cf: "central_frames ?c = central_frames c @ [base + i * sz]" using t by (simp add: central_frames_def take_Suc_conv_app_nth)
  obtain c' where "seed_central base sz is ?c = Some c'" "central_frames c' = central_frames ?c @ map (\<lambda>i. base + i * sz) is"
    "length (c_slots c') = n" "c_top c' = c_top ?c + length is"
    using Cons.IH [of ?c] Cons.prems by auto
  then show ?case using t cf by (auto simp: central_push_def)
qed simp

lemma frame_slab_ok:
  assumes "0 < cpus" "cpus < U32_MAX"
  shows "slab_inv 1 (frame_slab cpus)" "class_objs (frame_slab cpus) 0 = {#}" "num_cpus (frame_slab cpus) = cpus"
    "\<forall>c\<in>set (stack_caps (frame_slab cpus)). c = CAP_PER_CPU" "True \<notin> set (stopped (frame_slab cpus))"
proof -
  show "slab_inv 1 (frame_slab cpus)" using assms by (auto simp: frame_slab_def slab_inv_def cstack_ok_def contents_def max_def)
  have "(\<Sum>row\<leftarrow>replicate k [\<lparr> current = 0, capacity = CAP_PER_CPU, slots = replicate CAP_PER_CPU 0 \<rparr>]. mset (contents (row ! 0))) = {#}" for k
    by (induction k) (simp_all add: contents_def)
  then show "class_objs (frame_slab cpus) 0 = {#}" by (simp add: class_objs_def frame_slab_def)
qed (use assms in \<open>auto simp: frame_slab_def stack_caps_def\<close>)

lemma is_pow2_pos: "is_pow2 n \<Longrightarrow> 0 < n"
  by (cases n) (simp_all add: is_pow2_def count_ones_card)

lemma fp_build_ok:
  assumes "is_pow2 sz" "sz < 2 ^ 64" "sz \<le> region_len rg" "0 < region_base rg" "region_base rg + region_len rg \<le> 2 ^ 64"
    "0 < cpus" "cpus < U32_MAX"
  shows "\<exists>fp. fp_build P cpus rg sz = Some (Inr fp) \<and> pool_ok fp \<and> free_frames fp = mset (frames fp) \<and>
    frames_base fp = region_base rg \<and> frame_size fp = sz \<and> n_frames fp = region_len rg div sz \<and>
    num_cpus (fp_slab fp) = cpus \<and> (\<forall>f\<in>set (frames fp). meta_at fp f = fm_default P)"
proof -
  let ?n = "region_len rg div sz"
  have s: "0 < sz" "sz = 2 ^ trailing_zeros_nat sz" "trailing_zeros_nat sz < 64"
    using is_pow2_pos [OF assms(1)] is_pow2_power [OF assms(1,2)] by simp_all
  have n: "0 < ?n" using assms(3) s(1) by (simp add: div_greater_zero_iff)
  obtain c where c: "seed_central (region_base rg) sz [0..<?n] (central_new ?n) = Some c"
    "central_frames c = map (\<lambda>i. region_base rg + i * sz) [0..<?n]" "length (c_slots c) = ?n" "c_top c = ?n"
    using seed_central_ok [of "central_new ?n" ?n "[0..<?n]" "region_base rg" sz] by (auto simp: central_new_def central_frames_def)
  let ?fp = "\<lparr> frames_base = region_base rg, frame_shift = trailing_zeros_nat sz, frame_size = sz, n_frames = ?n,
    fp_slab = frame_slab cpus, fp_central = c, fp_meta = replicate ?n (fm_default P),
    slab_words = div_ceil (2 ^ block_shift_frame * cpus) 8, fp_region = rg, fp_clock = 0 \<rparr>"
  note sl = frame_slab_ok [OF assms(6,7)]
  have e: "fp_build P cpus rg sz = Some (Inr ?fp)" using assms(1) n c(1) by (simp add: fp_build_def Let_def)
  have fr: "free_frames ?fp = mset (frames ?fp)" using c(2) sl(2) by (simp add: free_frames_def frames_def)
  have "?n * sz \<le> region_len rg" by simp
  then have "region_base rg + ?n * sz \<le> 2 ^ 64" using assms(5) by linarith
  then have "geom_ok ?fp" using s n assms(4) by (simp add: geom_ok_def)
  then have ok: "pool_ok ?fp" using c sl fr by (simp add: pool_ok_def)
  have "\<forall>f\<in>set (frames ?fp). meta_at ?fp f = fm_default P"
    using frame_index_less(1) [OF ok] by (simp add: meta_at_def)
  then show ?thesis using e ok fr sl(3) by auto
qed

subsection \<open>Histories of a pool\<close>

text \<open>
  The contract of a metadata policy, with a count of the references a metadata value stands for:
  a fresh frame has one, a release of the last one reclaims the frame, a release of another one
  keeps it, a retain (where the policy has one) adds one.
\<close>

locale frame_policy =
  fixes fy_meta :: "'m frame_meta"
    and fy_retain :: "'m \<Rightarrow> 'm option"
    and fy_refs :: "'m \<Rightarrow> nat"
  assumes fy_fresh: "fy_refs (on_alloc fy_meta m) = 1"
    and fy_last: "fy_refs m = 1 \<Longrightarrow> snd (on_free fy_meta m) = Free"
    and fy_more: "1 < fy_refs m \<Longrightarrow> snd (on_free fy_meta m) = Keep \<and> fy_refs (fst (on_free fy_meta m)) = fy_refs m - 1"
    and fy_retained: "fy_retain m = Some m' \<Longrightarrow> 0 < fy_refs m \<Longrightarrow> fy_refs m + 1 < 2 ^ 64 \<Longrightarrow> fy_refs m' = fy_refs m + 1"

text \<open>A history: a pool, the live caches over it, and the references held by the program.\<close>

type_synonym 'm history = "'m frame_pool \<times> magazine list \<times> nat multiset"

inductive frame_step :: "'m frame_meta \<Rightarrow> ('m \<Rightarrow> 'm option) \<Rightarrow> 'm history \<Rightarrow> 'm history \<Rightarrow> bool" for P rt where
  alloc: "fp_alloc P ev fp = Some (fp', Some p) \<Longrightarrow> frame_step P rt (fp, ms, R) (fp', ms, add_mset p R)"
| alloc_none: "fp_alloc P ev fp = Some (fp', None) \<Longrightarrow> frame_step P rt (fp, ms, R) (fp', ms, R)"
| free: "fp_free P ev f fp = Some fp' \<Longrightarrow> f \<in># R \<Longrightarrow> frame_step P rt (fp, ms, R) (fp', ms, R - {#f#})"
| retain: "rt (meta_at fp f) = Some v \<Longrightarrow> f \<in># R \<Longrightarrow> count R f + 1 < 2 ^ 64 \<Longrightarrow>
    frame_step P rt (fp, ms, R) (put_meta fp f v, ms, add_mset f R)"
| cache: "frame_step P rt (fp, as @ bs, R) (fp, as @ fp_cache # bs, R)"
| cache_alloc: "fc_alloc P ev (m, fp) = Some ((m', fp'), Some p) \<Longrightarrow>
    frame_step P rt (fp, as @ m # bs, R) (fp', as @ m' # bs, add_mset p R)"
| cache_alloc_none: "fc_alloc P ev (m, fp) = Some ((m', fp'), None) \<Longrightarrow>
    frame_step P rt (fp, as @ m # bs, R) (fp', as @ m' # bs, R)"
| cache_free: "fc_free P ev f (m, fp) = Some (m', fp') \<Longrightarrow> f \<in># R \<Longrightarrow>
    frame_step P rt (fp, as @ m # bs, R) (fp', as @ m' # bs, R - {#f#})"
| cache_drop: "fc_drop ev (m, fp) = Some (m', fp') \<Longrightarrow> frame_step P rt (fp, as @ m # bs, R) (fp', as @ bs, R)"

definition in_caches :: "magazine list \<Rightarrow> nat multiset" where
  "in_caches ms = (\<Sum>m\<leftarrow>ms. mset (mag_objs m))"

lemma in_caches_simps [simp]:
  "in_caches [] = {#}" "in_caches (m # ms) = mset (mag_objs m) + in_caches ms" "in_caches (as @ bs) = in_caches as + in_caches bs"
  by (simp_all add: in_caches_def)

definition hist_ok :: "('m \<Rightarrow> nat) \<Rightarrow> 'm history \<Rightarrow> bool" where
  "hist_ok refs h \<longleftrightarrow> (case h of (fp, ms, R) \<Rightarrow> pool_ok fp \<and> (\<forall>m\<in>set ms. mag_ok FRAME_MAG_CAP m) \<and>
     free_frames fp + in_caches ms + mset_set (set_mset R) = mset (frames fp) \<and>
     (\<forall>f\<in>#R. refs (meta_at fp f) = count R f))"

lemma hist_okD:
  assumes "hist_ok refs (fp, ms, R)"
  shows "pool_ok fp" "\<forall>m\<in>set ms. mag_ok FRAME_MAG_CAP m"
    "free_frames fp + in_caches ms + mset_set (set_mset R) = mset (frames fp)"
    "\<forall>f\<in>#R. refs (meta_at fp f) = count R f"
  using assms by (auto simp: hist_ok_def)

lemma held_frame:
  assumes "hist_ok refs (fp, ms, R)" "f \<in># R"
  shows "f \<in> set (frames fp)" "f \<notin># free_frames fp" "f \<notin># in_caches ms"
proof -
  let ?S = "mset_set (set_mset R)"
  have f: "count ?S f = 1" using assms(2) by simp
  have e: "free_frames fp + in_caches ms + ?S = mset (frames fp)" using hist_okD(3) [OF assms(1)] .
  have "f \<in># mset (frames fp)" using f e by (metis count_eq_zero_iff one_neq_zero union_iff)
  then show "f \<in> set (frames fp)" by simp
  have "count (mset (frames fp)) f \<le> 1"
    using distinct_frames [OF hist_okD(1) [OF assms(1)]] by (simp add: distinct_count_atmost_1)
  then have "count (free_frames fp) f + count (in_caches ms) f + 1 \<le> 1" using f e by (metis count_union)
  then show "f \<notin># free_frames fp" "f \<notin># in_caches ms" by (simp_all add: not_in_iff)
qed

lemma hist_cache_ok:
  assumes "hist_ok refs (fp, as @ m # bs, R)"
  shows "cache_ok (m, fp)"
proof -
  have "mset (frames fp) = cached (m, fp) + (in_caches as + in_caches bs + mset_set (set_mset R))"
    using hist_okD(3) [OF assms] by (simp add: cached_def ac_simps)
  then show ?thesis using hist_okD(1,2) [OF assms] by (simp add: cache_ok_def)
qed

definition stock :: "'m frame_pool \<Rightarrow> magazine list \<Rightarrow> nat multiset" where
  "stock fp ms = free_frames fp + in_caches ms"

lemma hist_ok_stock:
  "hist_ok refs (fp, ms, R) \<longleftrightarrow> pool_ok fp \<and> (\<forall>m\<in>set ms. mag_ok FRAME_MAG_CAP m) \<and>
     stock fp ms + mset_set (set_mset R) = mset (frames fp) \<and> (\<forall>f\<in>#R. refs (meta_at fp f) = count R f)"
  by (simp add: hist_ok_def stock_def)

lemma set_mset_last: "f \<in># R \<Longrightarrow> count R f = 1 \<Longrightarrow> set_mset R = insert f (set_mset (R - {#f#})) \<and> f \<notin># R - {#f#}"
  by (metis add_mset_remove_trivial_eq count_single diff_single_trivial insert_DiffM not_in_iff
      set_mset_add_mset_insert count_add_mset Suc_inject One_nat_def)

lemma set_mset_more: "1 < count R f \<Longrightarrow> set_mset (R - {#f#}) = set_mset R"
  by (auto simp: set_eq_iff in_diff_count intro: count_inI)

context frame_policy
begin

lemma keep_refs:
  assumes "hist_ok fy_refs (fp, ms, R)" "pool_ok fp'" "kept fp fp'" "\<forall>m\<in>set ms'. mag_ok FRAME_MAG_CAP m" "stock fp' ms' = stock fp ms"
  shows "hist_ok fy_refs (fp', ms', R)"
  using assms meta_at_kept [OF assms(3)] kept_frames [OF assms(3)] by (simp add: hist_ok_stock)

lemma take_ref:
  assumes "hist_ok fy_refs (fp, ms, R)" "pool_ok fp'" "meta_took fy_meta fp p fp'" "\<forall>m\<in>set ms'. mag_ok FRAME_MAG_CAP m"
    "stock fp ms = add_mset p (stock fp' ms')"
  shows "hist_ok fy_refs (fp', ms', add_mset p R)"
proof -
  have h: "stock fp ms + mset_set (set_mset R) = mset (frames fp)" "\<forall>f\<in>#R. fy_refs (meta_at fp f) = count R f" "pool_ok fp"
    using assms(1) by (simp_all add: hist_ok_stock)
  have fr: "frames fp' = frames fp" using assms(3) by (auto simp: meta_took_def intro: frames_geom)
  have p: "p \<notin># R"
  proof
    assume "p \<in># R"
    then have "p \<notin># stock fp ms" using held_frame [OF assms(1)] by (simp add: stock_def)
    then show False using assms(5) by simp
  qed
  have "stock fp' ms' + mset_set (set_mset (add_mset p R)) = mset (frames fp')" using h(1) fr p assms(5) by simp
  moreover have "fy_refs (meta_at fp' f) = count (add_mset p R) f" if f: "f \<in># add_mset p R" for f
  proof (cases "f = p")
    case True
    have "p \<in># mset (frames fp)" using h(1) assms(5) by (metis union_iff union_single_eq_member)
    then have "meta_at fp' p = on_alloc fy_meta (meta_at fp p)" using assms(3) by (simp add: meta_took_def)
    then show ?thesis using True p fy_fresh by (simp add: not_in_iff)
  next
    case False
    then have "f \<in># R" using f by simp
    then show ?thesis using False h(2) held_frame(1) [OF assms(1)] assms(3) by (simp add: meta_took_def)
  qed
  ultimately show ?thesis using assms(2,4) by (simp add: hist_ok_stock)
qed

lemma give_ref:
  assumes "hist_ok fy_refs (fp, ms, R)" "pool_ok fp'" "meta_gave fy_meta fp f fp'" "\<forall>m\<in>set ms'. mag_ok FRAME_MAG_CAP m" "f \<in># R"
    "stock fp' ms' = (if snd (on_free fy_meta (meta_at fp f)) = Free then add_mset f (stock fp ms) else stock fp ms)"
  shows "hist_ok fy_refs (fp', ms', R - {#f#})"
proof -
  have h: "stock fp ms + mset_set (set_mset R) = mset (frames fp)" "\<forall>f\<in>#R. fy_refs (meta_at fp f) = count R f"
    using assms(1) by (simp_all add: hist_ok_stock)
  have fr: "frames fp' = frames fp" using assms(3) by (auto simp: meta_gave_def intro: frames_geom)
  have m: "meta_at fp' g = (if g = f then fst (on_free fy_meta (meta_at fp f)) else meta_at fp g)" if "g \<in># R" for g
    using assms(3) held_frame(1) [OF assms(1) that] by (simp add: meta_gave_def)
  have c: "fy_refs (meta_at fp f) = count R f" using h(2) assms(5) by simp
  have "stock fp' ms' + mset_set (set_mset (R - {#f#})) = mset (frames fp') \<and>
    (\<forall>g\<in>#R - {#f#}. fy_refs (meta_at fp' g) = count (R - {#f#}) g)"
  proof (cases "count R f = 1")
    case True
    note s = set_mset_last [OF assms(5) True]
    have "mset_set (set_mset R) = add_mset f (mset_set (set_mset (R - {#f#})))"
      using conjunct1 [OF s] conjunct2 [OF s] by (metis finite_set_mset mset_set.insert)
    moreover have "stock fp' ms' = add_mset f (stock fp ms)" using assms(6) fy_last c True by simp
    ultimately have "stock fp' ms' + mset_set (set_mset (R - {#f#})) = mset (frames fp')" using h(1) fr by simp
    moreover have "fy_refs (meta_at fp' g) = count (R - {#f#}) g" if "g \<in># R - {#f#}" for g
    proof -
      have "g \<noteq> f" "g \<in># R" using that conjunct2 [OF s] by (auto dest: in_diffD)
      then show ?thesis using m [of g] h(2) by simp
    qed
    ultimately show ?thesis by blast
  next
    case False
    then have g: "1 < count R f" using assms(5) by (metis Suc_lessI One_nat_def count_greater_zero_iff)
    have k: "snd (on_free fy_meta (meta_at fp f)) = Keep" "fy_refs (fst (on_free fy_meta (meta_at fp f))) = count R f - 1"
      using fy_more [of "meta_at fp f"] c g by simp_all
    have "fy_refs (meta_at fp' g) = count (R - {#f#}) g" if "g \<in># R - {#f#}" for g
      using that m [of g] k(2) h(2) by (auto dest: in_diffD)
    then show ?thesis using set_mset_more [OF g] k(1) assms(6) h(1) fr by simp
  qed
  then show ?thesis using assms(2,4) by (simp add: hist_ok_stock)
qed

lemma retain_ref:
  assumes "hist_ok fy_refs (fp, ms, R)" "fy_retain (meta_at fp f) = Some v" "f \<in># R" "count R f + 1 < 2 ^ 64"
  shows "hist_ok fy_refs (put_meta fp f v, ms, add_mset f R)"
proof -
  have h: "pool_ok fp" "\<forall>f\<in>#R. fy_refs (meta_at fp f) = count R f" using assms(1) by (simp_all add: hist_ok_stock)
  have f: "f \<in> set (frames fp)" using held_frame(1) [OF assms(1,3)] .
  have "fy_refs v = count R f + 1"
    using fy_retained [OF assms(2)] h(2) assms(3,4) by (simp add: count_greater_zero_iff)
  then have "\<forall>g\<in>#add_mset f R. fy_refs (meta_at (put_meta fp f v) g) = count (add_mset f R) g"
    using meta_at_put [OF h(1) f] held_frame(1) [OF assms(1)] h(2) assms(3) by auto
  moreover have "set_mset (add_mset f R) = set_mset R" using assms(3) by auto
  ultimately show ?thesis using assms(1) by (simp add: hist_ok_stock stock_def)
qed

lemma frame_step_ok:
  assumes "frame_step fy_meta fy_retain s s'" "hist_ok fy_refs s"
  shows "hist_ok fy_refs s' \<and> geom (fst s') = geom (fst s)"
  using assms
proof (cases rule: frame_step.cases)
  case (alloc ev fp fp' p ms R)
  have h: "hist_ok fy_refs (fp, ms, R)" using assms(2) alloc(1) by simp
  have "pool_ok fp'" "took fy_meta fp p fp'" using fp_alloc_ok [OF hist_okD(1) [OF h], of fy_meta ev] alloc(3) by auto
  then show ?thesis
    using take_ref [OF h, of fp' p ms] hist_okD(2) [OF h] alloc(1,2) by (simp add: took_def meta_took_def stock_def)
next
  case (alloc_none ev fp fp' ms R)
  have h: "hist_ok fy_refs (fp, ms, R)" using assms(2) alloc_none(1) by simp
  have "pool_ok fp'" "kept fp fp'" "free_frames fp' = free_frames fp"
    using fp_alloc_ok [OF hist_okD(1) [OF h], of fy_meta ev] alloc_none(3) by auto
  then show ?thesis using keep_refs [OF h, of fp' ms] hist_okD(2) [OF h] alloc_none(1,2) by (simp add: stock_def kept_def)
next
  case (free ev f fp fp' R ms)
  have h: "hist_ok fy_refs (fp, ms, R)" using assms(2) free(1) by simp
  note f = held_frame [OF h free(4)]
  have "pool_ok fp'" "gave fy_meta fp f fp'"
    using fp_free_ok [OF hist_okD(1) [OF h] f(1,2), of fy_meta ev] free(3) by auto
  then show ?thesis
    using give_ref [OF h, of fp' f ms] hist_okD(2) [OF h] free by (auto simp: gave_def meta_gave_def stock_def)
next
  case (retain fp f v R ms)
  then show ?thesis using retain_ref [of fp ms R f v] assms(2) by simp
next
  case (cache fp as bs R)
  have h: "hist_ok fy_refs (fp, as @ bs, R)" using assms(2) cache(1) by simp
  have "hist_ok fy_refs (fp, as @ fp_cache # bs, R)"
    by (rule keep_refs [OF h hist_okD(1) [OF h] kept_refl])
      (use hist_okD(2) [OF h] in \<open>auto simp: stock_def fp_cache_def\<close>)
  then show ?thesis using cache(1,2) by simp
next
  case (cache_alloc ev m fp m' fp' p as bs R)
  have h: "hist_ok fy_refs (fp, as @ m # bs, R)" using assms(2) cache_alloc(1) by simp
  have c: "cache_ok (m', fp')" "meta_took fy_meta fp p fp'" "cached (m, fp) = add_mset p (cached (m', fp'))"
    using fc_alloc_ok [OF hist_cache_ok [OF h], of fy_meta ev] cache_alloc(3) by auto
  have "hist_ok fy_refs (fp', as @ m' # bs, add_mset p R)"
    by (rule take_ref [OF h _ c(2)]) (use c hist_okD(2) [OF h] in \<open>auto simp: cache_ok_def cached_def stock_def ac_simps\<close>)
  then show ?thesis using cache_alloc(1,2) c(2) by (simp add: meta_took_def)
next
  case (cache_alloc_none ev m fp m' fp' as bs R)
  have h: "hist_ok fy_refs (fp, as @ m # bs, R)" using assms(2) cache_alloc_none(1) by simp
  have c: "cache_ok (m', fp')" "kept fp fp'" "cached (m', fp') = cached (m, fp)"
    using fc_alloc_ok [OF hist_cache_ok [OF h], of fy_meta ev] cache_alloc_none(3) by auto
  have "hist_ok fy_refs (fp', as @ m' # bs, R)"
    by (rule keep_refs [OF h _ c(2)]) (use c hist_okD(2) [OF h] in \<open>auto simp: cache_ok_def cached_def stock_def ac_simps\<close>)
  then show ?thesis using cache_alloc_none(1,2) c(2) by (simp add: kept_def)
next
  case (cache_free ev f m fp m' fp' R as bs)
  have h: "hist_ok fy_refs (fp, as @ m # bs, R)" using assms(2) cache_free(1) by simp
  note f = held_frame [OF h cache_free(4)]
  have n: "f \<notin># cached (m, fp)" using f by (simp add: cached_def)
  have c: "cache_ok (m', fp')" "meta_gave fy_meta fp f fp'"
    "cached (m', fp') = (if snd (on_free fy_meta (meta_at fp f)) = Free then add_mset f (cached (m, fp)) else cached (m, fp))"
    using fc_free_ok [OF hist_cache_ok [OF h] f(1) n, of fy_meta ev] cache_free(3) by auto
  have "hist_ok fy_refs (fp', as @ m' # bs, R - {#f#})"
    by (rule give_ref [OF h _ c(2) _ cache_free(4)])
      (use c hist_okD(2) [OF h] in \<open>auto simp: cache_ok_def cached_def stock_def ac_simps split: if_splits\<close>)
  then show ?thesis using cache_free(1,2) c(2) by (simp add: meta_gave_def)
next
  case (cache_drop ev m fp m' fp' as bs R)
  have h: "hist_ok fy_refs (fp, as @ m # bs, R)" using assms(2) cache_drop(1) by simp
  have c: "cache_ok (m', fp')" "kept fp fp'" "free_frames fp' = cached (m, fp)"
    using fc_drop_ok [OF hist_cache_ok [OF h], of ev] cache_drop(3) by auto
  have "hist_ok fy_refs (fp', as @ bs, R)"
    by (rule keep_refs [OF h _ c(2)]) (use c hist_okD(2) [OF h] in \<open>auto simp: cache_ok_def cached_def stock_def ac_simps\<close>)
  then show ?thesis using cache_drop(1,2) c(2) by (simp add: kept_def)
qed

lemma frame_steps_ok: "(frame_step fy_meta fy_retain)\<^sup>*\<^sup>* s s' \<Longrightarrow> hist_ok fy_refs s \<Longrightarrow> hist_ok fy_refs s' \<and> geom (fst s') = geom (fst s)"
  by (induction rule: rtranclp_induct) (auto dest: frame_step_ok)

end

interpretation unit_policy: frame_policy unit_meta "\<lambda>_. None" "\<lambda>_. 1"
  by unfold_locales (simp_all add: unit_meta_def)

interpretation rc_policy: frame_policy refcount_meta "\<lambda>c. Some (rc_retain c)" rc_count
proof
  fix m m' :: u64
  show "rc_count (on_alloc refcount_meta m) = 1" by (simp add: refcount_meta_def rc_count_def)
  show "snd (on_free refcount_meta m) = Free" if "rc_count m = 1"
  proof -
    have "unat m = unat (1::u64)" using that by (simp add: rc_count_def)
    then have "m = 1" using unsigned_word_eqI by blast
    then show ?thesis by (simp add: refcount_meta_def rc_release_def)
  qed
  show "snd (on_free refcount_meta m) = Keep \<and> rc_count (fst (on_free refcount_meta m)) = rc_count m - 1" if "1 < rc_count m"
  proof -
    have "m \<noteq> 0" "m \<noteq> 1" using that by (auto simp: rc_count_def)
    then show ?thesis using that unat_minus_one [of m] by (simp add: refcount_meta_def rc_release_def rc_count_def)
  qed
  show "rc_count m' = rc_count m + 1" if "Some (rc_retain m) = Some m'" "0 < rc_count m" "rc_count m + 1 < 2 ^ 64"
  proof -
    have "unat (m + 1) = (unat m + 1) mod 2 ^ 64" by (simp add: unat_word_ariths)
    then show ?thesis using that by (auto simp: rc_count_def rc_retain_def)
  qed
qed

subsection \<open>Properties\<close>

text \<open>A region a pool can be built over: not at address 0 and inside the address space.\<close>

definition region_ok :: "region \<Rightarrow> bool" where
  "region_ok rg \<longleftrightarrow> 0 < region_base rg \<and> region_base rg + region_len rg \<le> 2 ^ 64"

definition cpus_ok :: "nat \<Rightarrow> bool" where
  "cpus_ok cpus \<longleftrightarrow> 0 < cpus \<and> cpus < U32_MAX"

lemma built_hist:
  assumes "fp_build P cpus rg sz = Some (Inr fp)" "region_ok rg" "cpus_ok cpus" "sz < 2 ^ 64"
  shows "pool_ok fp" "free_frames fp = mset (frames fp)" "hist_ok refs (fp, [], {#})" "num_cpus (fp_slab fp) = cpus"
    "\<forall>f\<in>set (frames fp). meta_at fp f = fm_default P" "0 < n_frames fp"
proof -
  have sz: "is_pow2 sz" "sz \<le> region_len rg"
    using assms(1) is_pow2_pos [of sz] by (auto simp: fp_build_def Let_def div_eq_0_iff split: if_splits)
  obtain fp' where "fp_build P cpus rg sz = Some (Inr fp')" "pool_ok fp'" "free_frames fp' = mset (frames fp')"
    "num_cpus (fp_slab fp') = cpus" "\<forall>f\<in>set (frames fp'). meta_at fp' f = fm_default P"
    using fp_build_ok [OF sz(1) assms(4) sz(2)] assms(2,3) unfolding region_ok_def cpus_ok_def by blast
  then show "pool_ok fp" "free_frames fp = mset (frames fp)" "num_cpus (fp_slab fp) = cpus"
    "\<forall>f\<in>set (frames fp). meta_at fp f = fm_default P" "hist_ok refs (fp, [], {#})"
    using assms(1) by (auto simp: hist_ok_def)
  then show "0 < n_frames fp" by (simp add: pool_ok_def geom_ok_def)
qed

text \<open>A pool of two frames of 4096 bytes over a borrowed region, on two CPUs.\<close>

definition two_frames :: "'m frame_meta \<Rightarrow> 'm frame_pool" where
  "two_frames P = (case fp_build P 2 (BorrowedRegion 4096 8192) 4096 of Some (Inr fp) \<Rightarrow> fp | _ \<Rightarrow> undefined)"

lemma two_frames_build:
  "fp_build P 2 (BorrowedRegion 4096 8192) 4096 = Some (Inr (two_frames P))" "region_ok (BorrowedRegion 4096 8192)" "cpus_ok 2"
proof -
  show r: "region_ok (BorrowedRegion 4096 8192)" "cpus_ok 2" by (simp_all add: region_ok_def cpus_ok_def U32_MAX_def)
  have "is_pow2 4096" using trailing_zeros_nat_power(2) [of 12] by simp
  then obtain fp where "fp_build P 2 (BorrowedRegion 4096 8192) 4096 = Some (Inr fp)"
    using fp_build_ok [of 4096 "BorrowedRegion 4096 8192" 2 P] r by (auto simp: U32_MAX_def)
  then show "fp_build P 2 (BorrowedRegion 4096 8192) 4096 = Some (Inr (two_frames P))" by (simp add: two_frames_def)
qed

lemmas two_frames_hist = built_hist [OF two_frames_build, simplified]

lemma two_frames_alloc: "\<exists>fp' p. fp_alloc P ev (two_frames P) = Some (fp', Some p)"
proof -
  let ?fp = "two_frames P"
  obtain fp' r where r: "fp_alloc P ev ?fp = Some (fp', r)" "r = None \<longrightarrow> exhausted ?fp"
    using fp_alloc_ok [OF two_frames_hist(1), of P ev] by (force split: option.splits)
  have "fp_slab ?fp = frame_slab 2"
    using two_frames_build(1) [of P]
    by (auto simp: fp_build_def Let_def split: if_splits bind_splits) (metis frame_pool.select_convs(5))
  then have "class_objs (fp_slab ?fp) 0 = {#}" using frame_slab_ok(2) [of 2] by (simp add: U32_MAX_def)
  then have "mset (central_frames (fp_central ?fp)) = mset (frames ?fp)"
    using two_frames_hist(2) [of P] by (simp add: free_frames_def)
  moreover have "frames ?fp \<noteq> []" using two_frames_hist(6) [of P] by (simp add: frames_def)
  ultimately have "\<not> exhausted ?fp" by (auto simp: exhausted_def)
  then show ?thesis using r by (cases r) auto
qed

text \<open>
  C25. Conservation of frames: after any history of allocations, releases and retains through the
  pool or through any number of caches, over any metadata policy with the counting contract,
  every frame of the region is in exactly one place: free in the pool (per-CPU stacks and central
  stack), in one cache, or referenced by the program; and the metadata of a referenced frame
  counts exactly its references.
\<close>

theorem frame_history:
  assumes "frame_policy P rt refs" "fp_build P cpus rg sz = Some (Inr fp0)" "region_ok rg" "cpus_ok cpus" "sz < 2 ^ 64"
    and "(frame_step P rt)\<^sup>*\<^sup>* (fp0, [], {#}) (fp, ms, R)"
  shows "free_frames fp + in_caches ms + mset_set (set_mset R) = mset (frames fp0) \<and>
    (\<forall>f\<in>#R. refs (meta_at fp f) = count R f) \<and> frames fp = frames fp0"
proof -
  have "hist_ok refs (fp, ms, R)" "geom fp = geom fp0"
    using frame_policy.frame_steps_ok [OF assms(1,6) built_hist(3) [OF assms(2-5)]] by auto
  then show ?thesis using frames_geom [of fp fp0] by (simp add: hist_ok_def)
qed

theorem frame_history_witness:
  "\<exists>fp p. frame_step refcount_meta (\<lambda>c. Some (rc_retain c)) (two_frames refcount_meta, [], {#}) (fp, [], {#p#}) \<and>
     free_frames fp + {#p#} = mset (frames (two_frames refcount_meta)) \<and> rc_count (meta_at fp p) = 1"
proof -
  let ?fp0 = "two_frames refcount_meta"
  obtain fp p where "fp_alloc refcount_meta (\<lambda>_. undefined) ?fp0 = Some (fp, Some p)" using two_frames_alloc by blast
  then have s: "frame_step refcount_meta (\<lambda>c. Some (rc_retain c)) (?fp0, [], {#}) (fp, [], {#p#})" by (rule frame_step.alloc)
  show ?thesis
    using frame_history [OF rc_policy.frame_policy_axioms two_frames_build _ r_into_rtranclp [of "frame_step refcount_meta (\<lambda>c. Some (rc_retain c))", OF s]] s by auto
qed

text \<open>
  C28. Allocation from a pool is exact up to what other CPUs have cached: it never panics; a frame
  it returns was free and is removed from the free frames, with only its own metadata reset; and
  it answers \<open>None\<close> only when the central stack is empty and at most 256 frames per other CPU are
  free, so with one CPU only when the pool has no free frame at all.
\<close>

theorem frame_alloc_exact:
  assumes "pool_ok fp"
  shows "\<exists>fp' r. fp_alloc P ev fp = Some (fp', r) \<and> pool_ok fp' \<and> frames fp' = frames fp \<and>
    (case r of
       None \<Rightarrow> free_frames fp' = free_frames fp \<and> central_frames (fp_central fp) = [] \<and>
         size (free_frames fp) \<le> (num_cpus (fp_slab fp) - 1) * CAP_PER_CPU
     | Some p \<Rightarrow> p \<in> set (frames fp) \<and> free_frames fp = add_mset p (free_frames fp') \<and> p \<notin># free_frames fp' \<and>
         (\<forall>g\<in>set (frames fp). meta_at fp' g = (if g = p then on_alloc P (meta_at fp g) else meta_at fp g)))"
proof -
  obtain fp' r where r: "fp_alloc P ev fp = Some (fp', r)" "pool_ok fp'"
    "case r of None \<Rightarrow> kept fp fp' \<and> free_frames fp' = free_frames fp \<and> exhausted fp | Some p \<Rightarrow> took P fp p fp'"
    using fp_alloc_ok [OF assms] by blast
  show ?thesis
  proof (cases r)
    case None
    then show ?thesis
      using r exhausted_bound [OF assms] kept_frames [of fp fp'] by (auto simp: exhausted_def)
  next
    case (Some p)
    then have t: "geom fp' = geom fp" "free_frames fp = add_mset p (free_frames fp')"
      "\<forall>g\<in>set (frames fp). meta_at fp' g = (if g = p then on_alloc P (meta_at fp g) else meta_at fp g)"
      using r(3) by (simp_all add: took_def)
    then show ?thesis using r(1,2) Some popped_frame [OF assms t(2)] frames_geom [OF t(1)] by auto
  qed
qed

theorem frame_alloc_exact_witness:
  "\<exists>fp' p. fp_alloc unit_meta (\<lambda>_. undefined) (two_frames unit_meta) = Some (fp', Some p) \<and> p \<notin># free_frames fp'"
proof -
  obtain fp' p where a: "fp_alloc unit_meta (\<lambda>_. undefined) (two_frames unit_meta) = Some (fp', Some p)"
    using two_frames_alloc by blast
  then show ?thesis
    using frame_alloc_exact [OF two_frames_hist(1) [of unit_meta], of unit_meta "\<lambda>_. undefined"] by auto
qed

text \<open>
  C29. Construction: a frame size that is no power of two and a region shorter than one frame are
  rejected with the matching error; every other region yields a pool with all \<open>len / size\<close>
  frames free, side by side from the base of the region, and default metadata.
\<close>

theorem frame_build_outcome:
  assumes "region_ok rg" "cpus_ok cpus" "sz < 2 ^ 64"
  shows "(\<not> is_pow2 sz \<longrightarrow> fp_build P cpus rg sz = Some (Inl (FrameSizeNotPow2 sz))) \<and>
    (is_pow2 sz \<and> region_len rg < sz \<longrightarrow> fp_build P cpus rg sz = Some (Inl (RegionTooSmall (region_len rg) sz))) \<and>
    (is_pow2 sz \<and> sz \<le> region_len rg \<longrightarrow> (\<exists>fp. fp_build P cpus rg sz = Some (Inr fp) \<and> pool_ok fp \<and>
       free_frames fp = mset (frames fp) \<and> frames fp = map (\<lambda>i. region_base rg + i * sz) [0..<region_len rg div sz] \<and>
       (\<forall>f\<in>set (frames fp). meta_at fp f = fm_default P)))"
proof (intro conjI impI)
  show "fp_build P cpus rg sz = Some (Inl (FrameSizeNotPow2 sz))" if "\<not> is_pow2 sz" using that by (simp add: fp_build_def)
  show "fp_build P cpus rg sz = Some (Inl (RegionTooSmall (region_len rg) sz))" if "is_pow2 sz \<and> region_len rg < sz"
    using that by (simp add: fp_build_def Let_def)
  assume s: "is_pow2 sz \<and> sz \<le> region_len rg"
  obtain fp where f: "fp_build P cpus rg sz = Some (Inr fp)" "pool_ok fp" "free_frames fp = mset (frames fp)"
    "frames_base fp = region_base rg" "frame_size fp = sz" "n_frames fp = region_len rg div sz"
    "\<forall>f\<in>set (frames fp). meta_at fp f = fm_default P"
    using fp_build_ok [of sz rg cpus P] s assms unfolding region_ok_def cpus_ok_def by auto
  have "frames fp = map (\<lambda>i. region_base rg + i * sz) [0..<region_len rg div sz]" using f(4-6) by (simp add: frames_def)
  then show "\<exists>fp. fp_build P cpus rg sz = Some (Inr fp) \<and> pool_ok fp \<and> free_frames fp = mset (frames fp) \<and>
     frames fp = map (\<lambda>i. region_base rg + i * sz) [0..<region_len rg div sz] \<and> (\<forall>f\<in>set (frames fp). meta_at fp f = fm_default P)"
    using f(1-3,7) by blast
qed

theorem frame_build_outcome_witness:
  "fp_build unit_meta 2 (BorrowedRegion 4096 4095) 4096 = Some (Inl (RegionTooSmall 4095 4096)) \<and>
   (\<exists>fp. fp_build unit_meta 2 (BorrowedRegion 4096 8192) 4096 = Some (Inr fp) \<and> frames fp = [4096, 8192])"
proof
  have p: "is_pow2 4096" using trailing_zeros_nat_power(2) [of 12] by simp
  have r: "region_ok (BorrowedRegion 4096 4095)" by (simp add: region_ok_def)
  show "fp_build unit_meta 2 (BorrowedRegion 4096 4095) 4096 = Some (Inl (RegionTooSmall 4095 4096))"
    using frame_build_outcome [OF r two_frames_build(3), of 4096 unit_meta] p by simp
  have l: "[0..<2] = [0, 1::nat]" by (simp add: upt_rec)
  show "\<exists>fp. fp_build unit_meta 2 (BorrowedRegion 4096 8192) 4096 = Some (Inr fp) \<and> frames fp = [4096, 8192]"
    using frame_build_outcome [OF two_frames_build(2,3), of 4096 unit_meta] p by (auto simp: l)
qed

text \<open>
  C30. Addresses on a ring: the offset of a frame is a multiple of the frame size below the region
  length, \<open>from_addr\<close> gives the same frame back, and the frame index is that offset divided by
  the frame size, in range of the metadata array and different for different frames.
\<close>

theorem frame_addr_roundtrip:
  assumes "pool_ok fp" "f \<in> set (frames fp)"
  shows "from_addr fp (into_addr fp f) = f \<and> into_addr fp f = frame_index_of fp f * frame_size fp \<and>
    frame_index_of fp f < length (fp_meta fp) \<and> into_addr fp f < n_frames fp * frame_size fp \<and>
    (\<forall>g\<in>set (frames fp). frame_index_of fp g = frame_index_of fp f \<longrightarrow> g = f)"
proof -
  let ?i = "frame_index_of fp f"
  have i: "?i < n_frames fp" "f = frames_base fp + ?i * frame_size fp" using frame_index_less [OF assms] by simp_all
  have a: "into_addr fp f = ?i * frame_size fp" using frame_index(2) [OF assms(1) i(1)] i(2) by (simp add: into_addr_def)
  have g: "frame_size fp = 2 ^ frame_shift fp" "frames_base fp + n_frames fp * frame_size fp \<le> 2 ^ 64"
    using pool_ok_geom [OF assms(1)] unfolding geom_ok_def by blast+
  then have s: "0 < frame_size fp" "frames_base fp + n_frames fp * frame_size fp \<le> 2 ^ 64" by simp_all
  have l: "?i * frame_size fp < n_frames fp * frame_size fp" using i(1) s(1) by simp
  have "frames_base fp + ?i * frame_size fp < 2 ^ 64" using l s(2) by linarith
  then have "from_addr fp (into_addr fp f) = f" using a i(2) by (simp add: from_addr_def)
  moreover have "\<forall>g\<in>set (frames fp). frame_index_of fp g = ?i \<longrightarrow> g = f"
    using frame_index_less(2) [OF assms(1)] i(2) by metis
  ultimately show ?thesis using a l meta_in_range [OF assms] by auto
qed

theorem frame_addr_roundtrip_witness:
  "\<exists>f\<in>set (frames (two_frames unit_meta)). from_addr (two_frames unit_meta) (into_addr (two_frames unit_meta) f) = f"
proof -
  have "frames (two_frames unit_meta) \<noteq> []" using two_frames_hist(6) [of unit_meta] by (simp add: frames_def)
  then obtain f where "f \<in> set (frames (two_frames unit_meta))" by (metis last_in_set)
  then show ?thesis using frame_addr_roundtrip [OF two_frames_hist(1)] by blast
qed

end
