(* ===== verification/Frame_Handles_Correct.thy ===== *)
theory Frame_Handles_Correct
  imports Frame_Handles Frame_Pool_Correct
begin

text \<open>
  Histories of handles: what every operation on a named pool does to the references held on it,
  and the safety of typed handles and of byte buffers over all histories of all threads.
\<close>

subsection \<open>Histories of a named pool\<close>

text \<open>
  The caches that hold frames, and the threads that may use the pool: those whose cache has not been
  freed by the destructor at the end of the thread.
\<close>

definition live_caches :: "cache_ptr list \<Rightarrow> magazine list" where
  "live_caches cs = concat (map (\<lambda>c. case c of PtrLive k m \<Rightarrow> [m] | _ \<Rightarrow> []) cs)"

lemma live_caches_simps [simp]:
  "live_caches [] = []" "live_caches (PtrNull # cs) = live_caches cs" "live_caches (PtrFreed # cs) = live_caches cs"
  "live_caches (PtrLive k m # cs) = m # live_caches cs" "live_caches (as @ bs) = live_caches as @ live_caches bs"
  by (simp_all add: live_caches_def)

definition usable :: "thread_ctx \<Rightarrow> 'm named_pool \<Rightarrow> bool" where
  "usable x np \<longleftrightarrow> tc_id x < length (np_tls np) \<and> np_tls np ! tc_id x \<noteq> PtrFreed"

lemma usable_pool [simp]: "usable x (np\<lparr>np_pool := p\<rparr>) = usable x np"
  by (simp add: usable_def)

lemma tls_split:
  assumes "i < length cs"
  shows "\<exists>as bs. cs = as @ cs ! i # bs \<and> (\<forall>c. cs[i := c] = as @ c # bs)"
proof -
  have l: "length (take i cs) = i" using assms by simp
  have "cs = take i cs @ cs ! i # drop (Suc i) cs" using assms by (rule id_take_nth_drop)
  moreover have "cs[i := c] = take i cs @ c # drop (Suc i) cs" for c using assms by (rule upd_conv_take_nth_drop)
  ultimately show ?thesis by blast
qed

text \<open>
  Running an operation on the cache of the calling thread: \<open>I\<close> holds of the pool and the live
  caches before, \<open>J\<close> of the pool, the live caches and the result after. A transient cache is
  flushed again.
\<close>

lemma tls_with_ok:
  assumes "np_pool np = Some fp" "usable x np" "I fp (live_caches (np_tls np))"
    and new: "\<And>as bs. I fp (as @ bs) \<Longrightarrow> I fp (as @ fp_cache # bs)"
    and op: "\<And>as m bs. I fp (as @ m # bs) \<Longrightarrow> \<exists>m' fp' r. f (m, fp) = Some ((m', fp'), r) \<and> J r fp' (as @ m' # bs)"
    and flush: "\<And>fp' as m bs r. J r fp' (as @ m # bs) \<Longrightarrow> \<exists>m' fp2. fc_drop (tc_env x) (m, fp') = Some (m', fp2) \<and> J r fp2 (as @ bs)"
  shows "\<exists>np' fp' r. tls_with x fp f np = Some (np', r) \<and> np_pool np' = Some fp' \<and> J r fp' (live_caches (np_tls np')) \<and>
    length (np_tls np') = length (np_tls np)"
proof -
  let ?cs = "np_tls np" and ?i = "tc_id x"
  have i: "?i < length ?cs" and u: "?cs ! ?i \<noteq> PtrFreed" using assms(2) by (simp_all add: usable_def)
  obtain as bs where s: "?cs = as @ ?cs ! ?i # bs" "\<forall>c. ?cs[?i := c] = as @ c # bs" using tls_split [OF i] by blast
  have l: "length ?cs = Suc (length as + length bs)" using arg_cong [OF s(1), of length] by simp
  show ?thesis
  proof (cases "?cs ! ?i")
    case PtrNull
    then have e: "live_caches ?cs = live_caches as @ live_caches bs" using s(1) by (metis live_caches_simps(2,5))
    obtain m fp' r where f: "f (fp_cache, fp) = Some ((m, fp'), r)" "J r fp' (live_caches as @ m # live_caches bs)"
      using op new assms(3) e by metis
    obtain m2 fp2 where d: "fc_drop (tc_env x) (m, fp') = Some (m2, fp2)" "J r fp2 (live_caches as @ live_caches bs)"
      using flush [OF f(2)] by blast
    show ?thesis using PtrNull e f d s(2) l i by (cases "tc_calloc x") (simp_all add: tls_with_def)
  next
    case (PtrLive k m0)
    then have "live_caches ?cs = live_caches as @ m0 # live_caches bs" using s(1) by (metis live_caches_simps(4,5))
    then obtain m fp' r where "f (m0, fp) = Some ((m, fp'), r)" "J r fp' (live_caches as @ m # live_caches bs)"
      using op assms(3) by metis
    then show ?thesis using PtrLive s(2) l i by (simp add: tls_with_def)
  qed (use u in simp)
qed

text \<open>The references held on a named pool.\<close>

definition np_ok :: "nat multiset \<Rightarrow> u64 named_pool \<Rightarrow> bool" where
  "np_ok R np \<longleftrightarrow> (case np_pool np of
     None \<Rightarrow> R = {#} \<and> live_caches (np_tls np) = []
   | Some fp \<Rightarrow> hist_ok rc_count (fp, live_caches (np_tls np), R))"

lemma np_ok_held:
  assumes "np_ok R np" "f \<in># R"
  shows "\<exists>fp. np_pool np = Some fp \<and> hist_ok rc_count (fp, live_caches (np_tls np), R)"
  using assms by (cases "np_pool np") (auto simp: np_ok_def)

lemma hist_new_cache: "hist_ok refs (fp, as @ bs, R) \<Longrightarrow> hist_ok refs (fp, as @ fp_cache # bs, R)"
  by (auto simp: hist_ok_stock stock_def fp_cache_def)

lemma hist_drop_cache:
  assumes "hist_ok rc_count (fp, as @ m # bs, R)"
  shows "\<exists>m' fp'. fc_drop ev (m, fp) = Some (m', fp') \<and> hist_ok rc_count (fp', as @ bs, R) \<and> geom fp' = geom fp"
proof -
  obtain m' fp' where d: "fc_drop ev (m, fp) = Some (m', fp')" "kept fp fp'"
    using fc_drop_ok [OF hist_cache_ok [OF assms]] by blast
  then have "frame_step refcount_meta (\<lambda>c. Some (rc_retain c)) (fp, as @ m # bs, R) (fp', as @ bs, R)"
    by (intro frame_step.cache_drop)
  then show ?thesis using rc_policy.frame_step_ok assms d by (auto simp: kept_def)
qed

text \<open>What a named pool keeps through an operation.\<close>

definition np_same :: "'m named_pool \<Rightarrow> 'm named_pool \<Rightarrow> bool" where
  "np_same np np' \<longleftrightarrow> length (np_tls np') = length (np_tls np) \<and> map_option geom (np_pool np') = map_option geom (np_pool np)"

lemma np_same_trans: "np_same a b \<Longrightarrow> np_same b c \<Longrightarrow> np_same a c"
  by (simp add: np_same_def)

lemma np_same_refl [simp]: "np_same a a"
  by (simp add: np_same_def)

lemma np_same_capacity: "np_same a b \<Longrightarrow> frame_capacity b = frame_capacity a"
  by (cases "np_pool a"; cases "np_pool b") (auto simp: np_same_def frame_capacity_def geom_def)

lemma np_alloc_ok:
  assumes "np_ok R np" "usable x np"
  shows "\<exists>np' r. np_alloc refcount_meta x np = Some (np', r) \<and> np_same np np' \<and>
    (case r of None \<Rightarrow> np_ok R np' \<and> (\<forall>fp. np_pool np = Some fp \<longrightarrow> exhausted fp) | Some f \<Rightarrow> f \<notin># R \<and> np_ok (add_mset f R) np')"
proof (cases "np_pool np")
  case None
  then show ?thesis using assms by (auto simp: np_alloc_def np_ok_def)
next
  case (Some fp)
  let ?I = "\<lambda>fp' ms. fp' = fp \<and> hist_ok rc_count (fp, ms, R)"
  let ?J = "\<lambda>r fp' ms. geom fp' = geom fp \<and> (case r of None \<Rightarrow> hist_ok rc_count (fp', ms, R) \<and> exhausted fp
    | Some f \<Rightarrow> f \<notin># R \<and> hist_ok rc_count (fp', ms, add_mset f R))"
  have op: "\<exists>m' fp' r. fc_alloc refcount_meta (tc_env x) (m, fp) = Some ((m', fp'), r) \<and> ?J r fp' (as @ m' # bs)"
    if "?I fp (as @ m # bs)" for as m bs
  proof -
    have h: "hist_ok rc_count (fp, as @ m # bs, R)" using that by simp
    obtain m' fp' r where f: "fc_alloc refcount_meta (tc_env x) (m, fp) = Some ((m', fp'), r)"
      "case r of None \<Rightarrow> kept fp fp' \<and> cached (m', fp') = cached (m, fp) \<and> mag_objs m = [] \<and> exhausted fp
       | Some p \<Rightarrow> meta_took refcount_meta fp p fp' \<and> cached (m, fp) = add_mset p (cached (m', fp'))"
      using fc_alloc_ok [OF hist_cache_ok [OF h]] by blast
    show ?thesis
    proof (cases r)
      case None
      then have "hist_ok rc_count (fp', as @ m' # bs, R)"
        using rc_policy.frame_step_ok [OF frame_step.cache_alloc_none] f(1) h by blast
      then show ?thesis using f None by (auto simp: kept_def)
    next
      case (Some p)
      then have "p \<in># cached (m, fp)" using f(2) by simp
      then have "p \<notin># R" using held_frame(2,3) [OF h] by (auto simp: cached_def)
      moreover have "hist_ok rc_count (fp', as @ m' # bs, add_mset p R)"
        using rc_policy.frame_step_ok [OF frame_step.cache_alloc] f(1) h Some by blast
      ultimately show ?thesis using f Some by (auto simp: meta_took_def)
    qed
  qed
  have fl: "\<exists>m' fp2. fc_drop (tc_env x) (m, fp') = Some (m', fp2) \<and> ?J r fp2 (as @ bs)"
    if "?J r fp' (as @ m # bs)" for fp' as m bs r
    using that hist_drop_cache [of fp' as m bs _ "tc_env x"] by (cases r) fastforce+
  have "?I fp (live_caches (np_tls np))" using assms(1) Some by (simp add: np_ok_def)
  then obtain np' fp' r where t: "tls_with x fp (fc_alloc refcount_meta (tc_env x)) np = Some (np', r)"
    "np_pool np' = Some fp'" "?J r fp' (live_caches (np_tls np'))" "length (np_tls np') = length (np_tls np)"
    using tls_with_ok [of np fp x ?I "fc_alloc refcount_meta (tc_env x)" ?J, OF Some assms(2) _ _ op fl] hist_new_cache by blast
  then show ?thesis using Some by (cases r) (auto simp: np_alloc_def np_ok_def np_same_def)
qed

lemma refcount_update_ok:
  assumes "np_pool np = Some fp" "pool_ok fp" "f \<in> set (frames fp)"
  shows "refcount_update g f np = Some (np\<lparr>np_pool := Some (put_meta fp f (fst (g (meta_at fp f))))\<rparr>, snd (g (meta_at fp f)))"
  using assms(1) meta_in_range [OF assms(2,3)]
  by (simp add: refcount_update_def frame_meta_of_def set_meta_def meta_at_def put_meta_def split: prod.splits)

lemma np_count_ok:
  assumes "np_ok R np" "f \<in># R"
  shows "np_count f np = Some (count R f)"
proof -
  obtain fp where h: "np_pool np = Some fp" "hist_ok rc_count (fp, live_caches (np_tls np), R)" using np_ok_held [OF assms] by blast
  have i: "frame_index_of fp f < length (fp_meta fp)" using meta_in_range [OF hist_okD(1) [OF h(2)] held_frame(1) [OF h(2) assms(2)]] .
  have "rc_count (meta_at fp f) = count R f" using hist_okD(4) [OF h(2)] assms(2) by blast
  then show ?thesis using h(1) i by (simp add: np_count_def frame_meta_of_def meta_at_def)
qed

lemma np_retain_ok:
  assumes "np_ok R np" "f \<in># R" "count R f + 1 < 2 ^ 64"
  shows "\<exists>np'. np_retain f np = Some np' \<and> np_same np np' \<and> np_ok (add_mset f R) np'"
proof -
  obtain fp where h: "np_pool np = Some fp" "hist_ok rc_count (fp, live_caches (np_tls np), R)" using np_ok_held [OF assms(1,2)] by blast
  let ?fp = "put_meta fp f (rc_retain (meta_at fp f))"
  have "np_retain f np = Some (np\<lparr>np_pool := Some ?fp\<rparr>)"
    using refcount_update_ok [OF h(1) hist_okD(1) [OF h(2)] held_frame(1) [OF h(2) assms(2)], of "\<lambda>c. (rc_retain c, ())"]
    by (simp add: np_retain_def)
  moreover have "hist_ok rc_count (?fp, live_caches (np_tls np), add_mset f R)"
    using rc_policy.retain_ref [OF h(2) _ assms(2,3)] by simp
  ultimately show ?thesis using h(1) by (simp add: np_ok_def np_same_def)
qed

text \<open>Releasing a reference and, if it was the last one, recycling the frame.\<close>

lemma np_release_ok:
  assumes "np_ok R np" "f \<in># R" "usable x np"
  shows "\<exists>np1 r. np_release f np = Some (np1, r) \<and> np_same np np1 \<and> (r = Free \<longleftrightarrow> count R f = 1) \<and>
    (r = Keep \<longrightarrow> np_ok (R - {#f#}) np1) \<and>
    (r = Free \<longrightarrow> (\<exists>np2. np_recycle x f np1 = Some np2 \<and> np_same np np2 \<and> np_ok (R - {#f#}) np2))"
proof -
  obtain fp where h: "np_pool np = Some fp" "hist_ok rc_count (fp, live_caches (np_tls np), R)" using np_ok_held [OF assms(1,2)] by blast
  have ok: "pool_ok fp" and f: "f \<in> set (frames fp)" using hist_okD(1) [OF h(2)] held_frame(1) [OF h(2) assms(2)] by simp_all
  let ?v = "fst (rc_release (meta_at fp f))" and ?r = "snd (rc_release (meta_at fp f))"
  let ?fp = "put_meta fp f ?v" and ?np = "np\<lparr>np_pool := Some (put_meta fp f ?v)\<rparr>"
  have e: "np_release f np = Some (?np, ?r)" using refcount_update_ok [OF h(1) ok f, of rc_release] by (simp add: np_release_def)
  have pol: "on_free refcount_meta = rc_release" by (simp add: refcount_meta_def)
  have c: "rc_count (meta_at fp f) = count R f" using hist_okD(4) [OF h(2)] assms(2) by blast
  have pos: "0 < count R f" using assms(2) by simp
  have r: "?r = Free \<longleftrightarrow> count R f = 1"
    using rc_policy.fy_last [of "meta_at fp f"] rc_policy.fy_more [of "meta_at fp f"] c pos pol
    by (cases "count R f = 1") auto
  have g: "meta_gave refcount_meta fp f fp'" if "kept ?fp fp'" for fp'
    using meta_at_put [OF ok f] meta_at_kept [OF that] that pol by (auto simp: meta_gave_def kept_def)
  have keep: "np_ok (R - {#f#}) ?np" if "?r = Keep"
    using rc_policy.give_ref [OF h(2) _ g [OF kept_refl] hist_okD(2) [OF h(2)] assms(2)] ok that pol h(2)
    by (simp add: np_ok_def stock_def)
  have free: "\<exists>np2. np_recycle x f ?np = Some np2 \<and> np_same np np2 \<and> np_ok (R - {#f#}) np2" if rf: "?r = Free"
  proof -
    let ?I = "\<lambda>q ms. q = ?fp \<and> hist_ok rc_count (fp, ms, R)"
    let ?J = "\<lambda>(r::unit) q ms. geom q = geom fp \<and> hist_ok rc_count (q, ms, R - {#f#})"
    let ?op = "\<lambda>s. do { s1 \<leftarrow> fc_recycle (tc_env x) f s; Some (s1, ()) }"
    have op: "\<exists>m' fp' r. ?op (m, ?fp) = Some ((m', fp'), r) \<and> ?J r fp' (as @ m' # bs)" if "?I ?fp (as @ m # bs)" for as m bs
    proof -
      have hm: "hist_ok rc_count (fp, as @ m # bs, R)" using that by simp
      have n: "f \<notin># cached (m, fp)" using held_frame(2,3) [OF hm assms(2)] by (simp add: cached_def)
      obtain m' fp' where q: "fc_recycle (tc_env x) f (m, ?fp) = Some (m', fp')" "cache_ok (m', fp')" "kept ?fp fp'"
        "cached (m', fp') = add_mset f (cached (m, fp))"
        using fc_recycle_ok [of m ?fp f "tc_env x"] hist_cache_ok [OF hm] f n by (auto simp: cache_ok_put_meta)
      have "hist_ok rc_count (fp', as @ m' # bs, R - {#f#})"
        by (rule rc_policy.give_ref [OF hm _ g [OF q(3)] _ assms(2)])
          (use q rf pol hist_okD(2) [OF hm] in \<open>auto simp: cache_ok_def cached_def stock_def ac_simps\<close>)
      then show ?thesis using q(1,3) by (auto simp: kept_def)
    qed
    have fl: "\<exists>m' fp2. fc_drop (tc_env x) (m, fp') = Some (m', fp2) \<and> ?J r fp2 (as @ bs)"
      if "?J r fp' (as @ m # bs)" for fp' as m bs r
      using that hist_drop_cache [of fp' as m bs _ "tc_env x"] by fastforce
    have "\<exists>np' fp' r. tls_with x ?fp ?op ?np = Some (np', r) \<and> np_pool np' = Some fp' \<and> ?J r fp' (live_caches (np_tls np')) \<and>
      length (np_tls np') = length (np_tls ?np)"
      by (rule tls_with_ok [where I = ?I and J = ?J and f = ?op and np = ?np and fp = ?fp and x = x, OF _ _ _ _ op fl]) (use assms(3) h(2) hist_new_cache in auto)
    then show ?thesis using h(1) by (auto simp: np_recycle_def np_ok_def np_same_def)
  qed
  have "np_same np ?np" using h(1) by (simp add: np_same_def)
  then show ?thesis using e r keep free by auto
qed

lemma np_thread_exit_ok:
  assumes "np_ok R np" "tc_id x < length (np_tls np)"
  shows "\<exists>np'. np_thread_exit x np = Some np' \<and> np_same np np' \<and> np_ok R np'"
proof (cases "\<exists>m. np_tls np ! tc_id x = PtrLive True m")
  case False
  then show ?thesis using assms by (auto simp: np_thread_exit_def split: cache_ptr.splits bool.splits)
next
  case True
  then obtain m where m: "np_tls np ! tc_id x = PtrLive True m" by blast
  obtain as bs where s: "np_tls np = as @ np_tls np ! tc_id x # bs" "\<forall>c. (np_tls np)[tc_id x := c] = as @ c # bs"
    using tls_split [OF assms(2)] by blast
  have l: "live_caches (np_tls np) = live_caches as @ m # live_caches bs" using s(1) m by (metis live_caches_simps(4,5))
  then obtain fp where h: "np_pool np = Some fp" "hist_ok rc_count (fp, live_caches as @ m # live_caches bs, R)"
    using assms(1) by (cases "np_pool np") (auto simp: np_ok_def)
  obtain m' fp' where d: "fc_drop (tc_env x) (m, fp) = Some (m', fp')" "hist_ok rc_count (fp', live_caches as @ live_caches bs, R)" "geom fp' = geom fp"
    using hist_drop_cache [OF h(2)] by blast
  have "np_thread_exit x np = Some (np\<lparr>np_pool := Some fp', np_tls := as @ PtrFreed # bs\<rparr>)"
    using m h(1) d(1) assms(2) s(2) by (simp add: np_thread_exit_def)
  moreover have "length (np_tls np) = Suc (length as + length bs)" using arg_cong [OF s(1), of length] by simp
  ultimately show ?thesis using d h(1) by (simp add: np_ok_def np_same_def)
qed

text \<open>
  After the destructor has run, the pointer of the thread still points at the freed cache: every later
  allocation or recycling by that thread is undefined behaviour of the code.
\<close>

lemma use_after_exit:
  assumes "np_pool np = Some fp" "tc_id x < length (np_tls np)" "np_tls np ! tc_id x = PtrLive True m" "np_thread_exit x np = Some np'"
  shows "np_alloc P x np' = None \<and> np_recycle x f np' = None"
proof -
  have "np_tls np' ! tc_id x = PtrFreed \<and> tc_id x < length (np_tls np') \<and> np_pool np' \<noteq> None"
    using assms by (auto simp: np_thread_exit_def split: bind_splits)
  then show ?thesis by (auto simp: np_alloc_def np_recycle_def tls_with_def)
qed

subsection \<open>Histories of typed handles\<close>

text \<open>A typed pool with the live \<open>Owned\<close> handles, the live \<open>Shared\<close> handles and the values ever passed in.\<close>

type_synonym 'v typed_history = "'v typed_pool \<times> nat multiset \<times> nat multiset \<times> 'v multiset"

definition a_thread :: "thread_ctx \<Rightarrow> 'v typed_pool \<Rightarrow> bool" where
  "a_thread x t \<longleftrightarrow> usable x (tp_np t)"

inductive typed_step :: "'v typed_history \<Rightarrow> 'v typed_history \<Rightarrow> bool" where
  new: "a_thread x t \<Longrightarrow> owned_new x v t = Some (t', Some f) \<Longrightarrow>
    typed_step (t, Ow, Sh, C) (t', add_mset f Ow, Sh, add_mset v C)"
| new_none: "a_thread x t \<Longrightarrow> owned_new x v t = Some (t', None) \<Longrightarrow> typed_step (t, Ow, Sh, C) (t', Ow, Sh, add_mset v C)"
| share: "f \<in># Ow \<Longrightarrow> typed_step (t, Ow, Sh, C) (t, Ow - {#f#}, add_mset (owned_into_shared f) Sh, C)"
| drop_owned: "a_thread x t \<Longrightarrow> f \<in># Ow \<Longrightarrow> owned_drop x f t = Some t' \<Longrightarrow> typed_step (t, Ow, Sh, C) (t', Ow - {#f#}, Sh, C)"
| clone: "f \<in># Sh \<Longrightarrow> count Sh f + 1 < 2 ^ 64 \<Longrightarrow> shared_clone f t = Some (t', g) \<Longrightarrow>
    typed_step (t, Ow, Sh, C) (t', Ow, add_mset g Sh, C)"
| drop_shared: "a_thread x t \<Longrightarrow> f \<in># Sh \<Longrightarrow> shared_drop x f t = Some t' \<Longrightarrow> typed_step (t, Ow, Sh, C) (t', Ow, Sh - {#f#}, C)"
| exit: "a_thread x t \<Longrightarrow> np_thread_exit x (tp_np t) = Some np \<Longrightarrow> typed_step (t, Ow, Sh, C) (t\<lparr>tp_np := np\<rparr>, Ow, Sh, C)"

definition live_values :: "(nat \<rightharpoonup> 'v) \<Rightarrow> nat multiset \<Rightarrow> 'v multiset" where
  "live_values b R = image_mset (\<lambda>f. the (b f)) (mset_set (set_mset R))"

definition typed_ok :: "'v typed_history \<Rightarrow> bool" where
  "typed_ok s \<longleftrightarrow> (case s of (t, Ow, Sh, C) \<Rightarrow> np_ok (Ow + Sh) (tp_np t) \<and> (\<forall>f\<in>#Ow. count (Ow + Sh) f = 1) \<and>
     dom (tp_body t) = set_mset (Ow + Sh) \<and> C = mset (tp_dropped t) + live_values (tp_body t) (Ow + Sh))"

lemma live_values_new:
  assumes "f \<notin># R"
  shows "live_values (b(f \<mapsto> v)) (add_mset f R) = add_mset v (live_values b R)"
proof -
  have "image_mset (\<lambda>g. the ((b(f \<mapsto> v)) g)) (mset_set (set_mset R)) = image_mset (\<lambda>g. the (b g)) (mset_set (set_mset R))"
    using assms by (intro image_mset_cong) auto
  then show ?thesis using assms by (simp add: live_values_def)
qed

lemma live_values_cong: "set_mset R' = set_mset R \<Longrightarrow> live_values b R' = live_values b R"
  by (simp add: live_values_def)

lemma live_values_last:
  assumes "f \<in># R" "count R f = 1" "b f = Some v"
  shows "live_values b R = add_mset v (live_values (b(f := None)) (R - {#f#}))"
proof -
  note s = set_mset_last [OF assms(1,2)]
  have "mset_set (set_mset R) = add_mset f (mset_set (set_mset (R - {#f#})))"
    using conjunct1 [OF s] conjunct2 [OF s] by (metis finite_set_mset mset_set.insert)
  moreover have "image_mset (\<lambda>g. the ((b(f := None)) g)) (mset_set (set_mset (R - {#f#}))) =
      image_mset (\<lambda>g. the (b g)) (mset_set (set_mset (R - {#f#})))"
    using conjunct2 [OF s] by (intro image_mset_cong) auto
  ultimately show ?thesis using assms(3) by (simp add: live_values_def)
qed

lemma shared_not_owned:
  assumes "\<forall>f\<in>#Ow. count (Ow + Sh) f = 1" "f \<in># Sh"
  shows "f \<notin># Ow"
proof
  assume "f \<in># Ow"
  then have "0 < count Ow f" "count Ow f + count Sh f = 1" using assms(1) by (simp_all only: count_greater_zero_iff count_union)
  moreover have "0 < count Sh f" using assms(2) by (simp only: count_greater_zero_iff)
  ultimately show False by linarith
qed

lemma owned_new_ok:
  assumes "typed_ok (t, Ow, Sh, C)" "a_thread x t"
  shows "\<exists>t' r. owned_new x v t = Some (t', r) \<and> np_same (tp_np t) (tp_np t') \<and>
    (case r of None \<Rightarrow> typed_ok (t', Ow, Sh, add_mset v C) \<and> (\<forall>fp. np_pool (tp_np t) = Some fp \<longrightarrow> exhausted fp) | Some f \<Rightarrow> f \<notin># Ow + Sh \<and> typed_ok (t', add_mset f Ow, Sh, add_mset v C))"
proof -
  have h: "np_ok (Ow + Sh) (tp_np t)" "\<forall>f\<in>#Ow. count (Ow + Sh) f = 1" "dom (tp_body t) = set_mset (Ow + Sh)"
    "C = mset (tp_dropped t) + live_values (tp_body t) (Ow + Sh)" using assms(1) by (simp_all add: typed_ok_def)
  obtain np r where r: "np_alloc refcount_meta x (tp_np t) = Some (np, r)" "np_same (tp_np t) np"
    "case r of None \<Rightarrow> np_ok (Ow + Sh) np \<and> (\<forall>fp. np_pool (tp_np t) = Some fp \<longrightarrow> exhausted fp) | Some f \<Rightarrow> f \<notin># Ow + Sh \<and> np_ok (add_mset f (Ow + Sh)) np"
    using np_alloc_ok [OF h(1)] assms(2) unfolding a_thread_def by blast
  show ?thesis
  proof (cases r)
    case None
    then show ?thesis using r h by (simp add: owned_new_def typed_ok_def)
  next
    case (Some f)
    have n: "f \<notin># Ow + Sh" "count (Ow + Sh) f = 0" using r(3) Some by (simp_all add: not_in_iff)
    then have "typed_ok (t\<lparr>tp_np := np, tp_body := (tp_body t)(f \<mapsto> v)\<rparr>, add_mset f Ow, Sh, add_mset v C)"
      using r(3) Some h live_values_new [OF n(1), of "tp_body t" v] by (auto simp: typed_ok_def)
    then show ?thesis using r(1,2) Some n(1) by (simp add: owned_new_def)
  qed
qed

text \<open>Dropping one handle, of either kind.\<close>

lemma drop_effect:
  assumes "typed_ok (t, Ow, Sh, C)" "a_thread x t" "f \<in># Ow + Sh"
  shows "count (Ow + Sh) f = 1 \<Longrightarrow> \<exists>v np1 np2. tp_body t f = Some v \<and> np_release f (tp_np t) = Some (np1, Free) \<and>
      np_recycle x f np1 = Some np2 \<and> np_ok (Ow + Sh - {#f#}) np2 \<and> np_same (tp_np t) np2 \<and>
      dom ((tp_body t)(f := None)) = set_mset (Ow + Sh - {#f#}) \<and>
      C = mset (v # tp_dropped t) + live_values ((tp_body t)(f := None)) (Ow + Sh - {#f#})"
    "1 < count (Ow + Sh) f \<Longrightarrow> \<exists>np1. np_release f (tp_np t) = Some (np1, Keep) \<and> np_ok (Ow + Sh - {#f#}) np1 \<and> np_same (tp_np t) np1 \<and>
      dom (tp_body t) = set_mset (Ow + Sh - {#f#}) \<and> C = mset (tp_dropped t) + live_values (tp_body t) (Ow + Sh - {#f#})"
proof -
  have h: "np_ok (Ow + Sh) (tp_np t)" "dom (tp_body t) = set_mset (Ow + Sh)"
    "C = mset (tp_dropped t) + live_values (tp_body t) (Ow + Sh)" using assms(1) by (simp_all add: typed_ok_def)
  obtain np1 r where r: "np_release f (tp_np t) = Some (np1, r)" "np_same (tp_np t) np1" "r = Free \<longleftrightarrow> count (Ow + Sh) f = 1"
    "r = Keep \<longrightarrow> np_ok (Ow + Sh - {#f#}) np1"
    "r = Free \<longrightarrow> (\<exists>np2. np_recycle x f np1 = Some np2 \<and> np_same (tp_np t) np2 \<and> np_ok (Ow + Sh - {#f#}) np2)"
    using np_release_ok [OF h(1) assms(3)] assms(2) unfolding a_thread_def by blast
  show "\<exists>v np1 np2. tp_body t f = Some v \<and> np_release f (tp_np t) = Some (np1, Free) \<and>
      np_recycle x f np1 = Some np2 \<and> np_ok (Ow + Sh - {#f#}) np2 \<and> np_same (tp_np t) np2 \<and>
      dom ((tp_body t)(f := None)) = set_mset (Ow + Sh - {#f#}) \<and>
      C = mset (v # tp_dropped t) + live_values ((tp_body t)(f := None)) (Ow + Sh - {#f#})" if one: "count (Ow + Sh) f = 1"
  proof -
    obtain v where v: "tp_body t f = Some v" using h(2) assms(3) by blast
    note s = set_mset_last [OF assms(3) one]
    have "dom ((tp_body t)(f := None)) = set_mset (Ow + Sh - {#f#})" using h(2) s by auto
    then show ?thesis using r one v h(3) live_values_last [where b = "tp_body t", OF assms(3) one v] by auto
  qed
  show "\<exists>np1. np_release f (tp_np t) = Some (np1, Keep) \<and> np_ok (Ow + Sh - {#f#}) np1 \<and> np_same (tp_np t) np1 \<and>
      dom (tp_body t) = set_mset (Ow + Sh - {#f#}) \<and> C = mset (tp_dropped t) + live_values (tp_body t) (Ow + Sh - {#f#})"
    if more: "1 < count (Ow + Sh) f"
    using r more h set_mset_more [OF more] live_values_cong [OF set_mset_more [OF more], of "tp_body t"] by (cases r) auto
qed

lemma owned_drop_ok:
  assumes "typed_ok (t, Ow, Sh, C)" "a_thread x t" "f \<in># Ow"
  shows "\<exists>t'. owned_drop x f t = Some t' \<and> np_same (tp_np t) (tp_np t') \<and> typed_ok (t', Ow - {#f#}, Sh, C)"
proof -
  have f: "f \<in># Ow + Sh" and one: "count (Ow + Sh) f = 1" and u: "\<forall>f\<in>#Ow. count (Ow + Sh) f = 1"
    using assms by (simp_all add: typed_ok_def)
  obtain v np1 np2 where d: "tp_body t f = Some v" "np_release f (tp_np t) = Some (np1, Free)" "np_recycle x f np1 = Some np2"
    "np_ok (Ow + Sh - {#f#}) np2" "np_same (tp_np t) np2" "dom ((tp_body t)(f := None)) = set_mset (Ow + Sh - {#f#})"
    "C = mset (v # tp_dropped t) + live_values ((tp_body t)(f := None)) (Ow + Sh - {#f#})"
    using drop_effect(1) [OF assms(1,2) f one] by blast
  have e: "Ow + Sh - {#f#} = Ow - {#f#} + Sh" using assms(3) by simp
  have "\<forall>g\<in>#Ow - {#f#}. count (Ow - {#f#} + Sh) g = 1"
    using u one assms(3) by (metis (no_types, lifting) count_add_mset count_diff e in_diffD insert_DiffM add_mset_remove_trivial
        count_inI count_single diff_zero less_numeral_extra(1) set_mset_last union_iff)
  then show ?thesis using d e by (simp add: owned_drop_def drop_in_place_def typed_ok_def)
qed

lemma shared_drop_ok:
  assumes "typed_ok (t, Ow, Sh, C)" "a_thread x t" "f \<in># Sh"
  shows "\<exists>t'. shared_drop x f t = Some t' \<and> np_same (tp_np t) (tp_np t') \<and> typed_ok (t', Ow, Sh - {#f#}, C) \<and>
    (if count Sh f = 1 then \<exists>v. tp_body t f = Some v \<and> tp_dropped t' = v # tp_dropped t else tp_dropped t' = tp_dropped t)"
proof -
  have f: "f \<in># Ow + Sh" and u: "\<forall>f\<in>#Ow. count (Ow + Sh) f = 1" using assms by (simp_all add: typed_ok_def)
  have n: "f \<notin># Ow" using shared_not_owned [OF u assms(3)] .
  then have z: "count Ow f = 0" by (simp add: not_in_iff)
  have e: "Ow + Sh - {#f#} = Ow + (Sh - {#f#})" using assms(3) by simp
  have u': "\<forall>g\<in>#Ow. count (Ow + (Sh - {#f#})) g = 1" using u n by auto
  show ?thesis
  proof (cases "count Sh f = 1")
    case True
    then have one: "count (Ow + Sh) f = 1" using z by simp
    obtain v np1 np2 where d: "tp_body t f = Some v" "np_release f (tp_np t) = Some (np1, Free)" "np_recycle x f np1 = Some np2"
      "np_ok (Ow + Sh - {#f#}) np2" "np_same (tp_np t) np2" "dom ((tp_body t)(f := None)) = set_mset (Ow + Sh - {#f#})"
      "C = mset (v # tp_dropped t) + live_values ((tp_body t)(f := None)) (Ow + Sh - {#f#})"
      using drop_effect(1) [OF assms(1,2) f one] by blast
    then show ?thesis using True e u' by (simp add: shared_drop_def drop_in_place_def typed_ok_def)
  next
    case False
    have "0 < count Sh f" using assms(3) by (simp only: count_greater_zero_iff)
    then have more: "1 < count (Ow + Sh) f" using False z unfolding count_union by linarith
    obtain np1 where d: "np_release f (tp_np t) = Some (np1, Keep)" "np_ok (Ow + Sh - {#f#}) np1" "np_same (tp_np t) np1"
      "dom (tp_body t) = set_mset (Ow + Sh - {#f#})" "C = mset (tp_dropped t) + live_values (tp_body t) (Ow + Sh - {#f#})"
      using drop_effect(2) [OF assms(1,2) f more] by blast
    then show ?thesis using False e u' by (simp add: shared_drop_def typed_ok_def)
  qed
qed

lemma shared_clone_ok:
  assumes "typed_ok (t, Ow, Sh, C)" "f \<in># Sh" "count Sh f + 1 < 2 ^ 64"
  shows "\<exists>t'. shared_clone f t = Some (t', f) \<and> np_same (tp_np t) (tp_np t') \<and> typed_ok (t', Ow, add_mset f Sh, C)"
proof -
  have h: "np_ok (Ow + Sh) (tp_np t)" "\<forall>f\<in>#Ow. count (Ow + Sh) f = 1" "dom (tp_body t) = set_mset (Ow + Sh)"
    "C = mset (tp_dropped t) + live_values (tp_body t) (Ow + Sh)" using assms(1) by (simp_all add: typed_ok_def)
  have n: "f \<notin># Ow" using shared_not_owned [OF h(2) assms(2)] .
  then have c: "count (Ow + Sh) f + 1 < 2 ^ 64" using assms(3) by (simp add: not_in_iff)
  have f: "f \<in># Ow + Sh" using assms(2) by simp
  obtain np where r: "np_retain f (tp_np t) = Some np" "np_same (tp_np t) np" "np_ok (add_mset f (Ow + Sh)) np"
    using np_retain_ok [OF h(1) f c] by blast
  have s: "set_mset (add_mset f (Ow + Sh)) = set_mset (Ow + Sh)" using f by auto
  have "\<forall>g\<in>#Ow. count (Ow + add_mset f Sh) g = 1" using h(2) n by auto
  then have "typed_ok (t\<lparr>tp_np := np\<rparr>, Ow, add_mset f Sh, C)"
    using h r(3) s n live_values_cong [OF s, of "tp_body t"] by (auto simp: typed_ok_def)
  then show ?thesis using r(1,2) by (simp add: shared_clone_def)
qed

lemma typed_step_ok: "typed_step s s' \<Longrightarrow> typed_ok s \<Longrightarrow> typed_ok s'"
proof (induction rule: typed_step.induct)
  case (new x t v t' f Ow Sh C)
  then show ?case using owned_new_ok [of t Ow Sh C x v] by auto
next
  case (new_none x t v t' Ow Sh C)
  then show ?case using owned_new_ok [of t Ow Sh C x v] by auto
next
  case (share f Ow t Sh C)
  have e: "Ow - {#f#} + add_mset f Sh = Ow + Sh" using share(1) by (simp add: insert_DiffM)
  have "\<forall>g\<in>#Ow - {#f#}. count (Ow + Sh) g = 1" using share(2) by (auto simp: typed_ok_def dest: in_diffD)
  then show ?case using share(2) unfolding typed_ok_def prod.case owned_into_shared_def e by blast
next
  case (drop_owned x t f Ow t' Sh C)
  then show ?case using owned_drop_ok [of t Ow Sh C x f] by auto
next
  case (clone f Sh t t' g Ow C)
  then show ?case using shared_clone_ok [of t Ow Sh C f] by auto
next
  case (drop_shared x t f Sh t' Ow C)
  then show ?case using shared_drop_ok [of t Ow Sh C x f] by auto
next
  case (exit x t np Ow Sh C)
  then show ?case using np_thread_exit_ok [of "Ow + Sh" "tp_np t" x] by (auto simp: typed_ok_def a_thread_def usable_def)
qed

lemma typed_steps_ok: "typed_step\<^sup>*\<^sup>* s s' \<Longrightarrow> typed_ok s \<Longrightarrow> typed_ok s'"
  by (induction rule: rtranclp_induct) (auto intro: typed_step_ok)

subsection \<open>Histories of byte buffers\<close>

type_synonym buf_history = "u64 named_pool \<times> frame_mut list \<times> frame_buf list"

definition buf_refs :: "frame_mut list \<Rightarrow> frame_buf list \<Rightarrow> nat multiset" where
  "buf_refs mu bu = mset (map fm_frame mu) + mset (map fb_frame bu)"

inductive buf_step :: "buf_history \<Rightarrow> buf_history \<Rightarrow> bool" where
  new: "usable x np \<Longrightarrow> frame_mut_new x np = Some (np', Some m) \<Longrightarrow> buf_step (np, mu, bu) (np', m # mu, bu)"
| new_none: "usable x np \<Longrightarrow> frame_mut_new x np = Some (np', None) \<Longrightarrow> buf_step (np, mu, bu) (np', mu, bu)"
| freeze: "buf_step (np, as @ m # bs, bu) (np, as @ bs, freeze m n # bu)"
| drop_mut: "usable x np \<Longrightarrow> frame_mut_drop x m np = Some np' \<Longrightarrow>
    buf_step (np, as @ m # bs, bu) (np', as @ bs, bu)"
| split: "split_to b at np = Some (np', b', hb) \<Longrightarrow> length mu + length as + length bs + 2 < 2 ^ 64 \<Longrightarrow>
    buf_step (np, mu, as @ b # bs) (np', mu, as @ hb # b' # bs)"
| truncate: "buf_step (np, mu, as @ b # bs) (np, mu, as @ truncate_buf b n # bs)"
| advance: "advance_buf b n = Some b' \<Longrightarrow> buf_step (np, mu, as @ b # bs) (np, mu, as @ b' # bs)"
| drop_buf: "usable x np \<Longrightarrow> frame_buf_drop x b np = Some np' \<Longrightarrow>
    buf_step (np, mu, as @ b # bs) (np', mu, as @ bs)"
| exit: "usable x np \<Longrightarrow> np_thread_exit x np = Some np' \<Longrightarrow> buf_step (np, mu, bu) (np', mu, bu)"

text \<open>The byte ranges the live handles may write.\<close>

definition regions :: "frame_mut list \<Rightarrow> frame_buf list \<Rightarrow> nat set list" where
  "regions mu bu = map bytes_mut mu @ map payload bu"

definition apart :: "nat set list \<Rightarrow> bool" where
  "apart = sorted_wrt (\<lambda>A B. A \<inter> B = {})"

definition cap_of :: "u64 named_pool \<Rightarrow> nat" where
  "cap_of np = min (frame_capacity np) (2 ^ 16 - 1)"

definition buf_ok :: "buf_history \<Rightarrow> bool" where
  "buf_ok s \<longleftrightarrow> (case s of (np, mu, bu) \<Rightarrow> np_ok (buf_refs mu bu) np \<and>
     (\<forall>m\<in>set mu. fm_cap m = cap_of np \<and> count (buf_refs mu bu) (fm_frame m) = 1) \<and>
     (\<forall>b\<in>set bu. fb_offset b + fb_len b \<le> cap_of np) \<and> apart (regions mu bu))"

text \<open>The extent of the frame at an address.\<close>

definition extent :: "u64 named_pool \<Rightarrow> nat \<Rightarrow> nat set" where
  "extent np f = {f ..< f + frame_capacity np}"

lemma extents_apart:
  assumes "np_ok R np" "f \<in># R" "g \<in># R" "f \<noteq> g"
  shows "extent np f \<inter> extent np g = {}"
proof -
  obtain fp where h: "np_pool np = Some fp" "hist_ok rc_count (fp, live_caches (np_tls np), R)" using np_ok_held [OF assms(1,2)] by blast
  let ?s = "frame_size fp"
  obtain i where i: "f = frames_base fp + i * ?s" using held_frame(1) [OF h(2) assms(2)] by (auto simp: frames_def)
  obtain j where j: "g = frames_base fp + j * ?s" using held_frame(1) [OF h(2) assms(3)] by (auto simp: frames_def)
  have "i < j \<or> j < i" using assms(4) i j by auto
  then have "f + ?s \<le> g \<or> g + ?s \<le> f"
  proof
    assume "i < j"
    then have "Suc i * ?s \<le> j * ?s" by (intro mult_le_mono1) simp
    then show ?thesis using i j by simp
  next
    assume "j < i"
    then have "Suc j * ?s \<le> i * ?s" by (intro mult_le_mono1) simp
    then show ?thesis using i j by simp
  qed
  moreover have "frame_capacity np = ?s" using h(1) by (simp add: frame_capacity_def)
  ultimately show ?thesis by (auto simp: extent_def)
qed

lemma region_extent:
  assumes "buf_ok (np, mu, bu)"
  shows "m \<in> set mu \<Longrightarrow> bytes_mut m \<subseteq> extent np (fm_frame m)" "b \<in> set bu \<Longrightarrow> payload b \<subseteq> extent np (fb_frame b)"
proof -
  show "bytes_mut m \<subseteq> extent np (fm_frame m)" if "m \<in> set mu"
    using assms that by (auto simp: buf_ok_def bytes_mut_def extent_def cap_of_def)
  show "payload b \<subseteq> extent np (fb_frame b)" if "b \<in> set bu"
    using assms that by (fastforce simp: buf_ok_def payload_def extent_def cap_of_def)
qed

lemma apart_insert:
  assumes "np_ok (add_mset f (buf_refs mu bu)) np" "f \<notin># buf_refs mu bu" "apart (regions mu bu)" "A \<subseteq> extent np f"
    "\<forall>m\<in>set mu. bytes_mut m \<subseteq> extent np (fm_frame m)" "\<forall>b\<in>set bu. payload b \<subseteq> extent np (fb_frame b)"
  shows "apart (A # regions mu bu)"
proof -
  have "A \<inter> B = {}" if "B \<in> set (regions mu bu)" for B
  proof -
    have "B \<in> bytes_mut ` set mu \<union> payload ` set bu" using that by (simp add: regions_def)
    then obtain g where g: "g \<in># buf_refs mu bu" "B \<subseteq> extent np g"
    proof
      assume "B \<in> bytes_mut ` set mu"
      then obtain m where "m \<in> set mu" "B = bytes_mut m" by blast
      then show thesis using assms(5) that [of "fm_frame m"] by (simp add: buf_refs_def)
    next
      assume "B \<in> payload ` set bu"
      then obtain b where "b \<in> set bu" "B = payload b" by blast
      then show thesis using assms(6) that [of "fb_frame b"] by (simp add: buf_refs_def)
    qed
    then have "extent np f \<inter> extent np g = {}" using assms(1,2) by (intro extents_apart [OF assms(1)]) auto
    then show ?thesis using assms(4) g(2) by blast
  qed
  then show ?thesis using assms(3) by (simp add: apart_def)
qed

lemma apart_simps: "apart (xs @ ys) \<longleftrightarrow> apart xs \<and> apart ys \<and> (\<forall>A\<in>set xs. \<forall>B\<in>set ys. A \<inter> B = {})"
  "apart (A # xs) \<longleftrightarrow> (\<forall>B\<in>set xs. A \<inter> B = {}) \<and> apart xs" "apart []"
  by (auto simp: apart_def sorted_wrt_append)


lemma cap_of_same: "np_same np np' \<Longrightarrow> cap_of np' = cap_of np" "np_same np np' \<Longrightarrow> extent np' = extent np"
  using np_same_capacity [of np np'] by (simp_all add: cap_of_def extent_def fun_eq_iff)

lemma payload_step:
  assumes "fb_offset b + fb_len b \<le> cap_of np" "n \<le> fb_len b"
  shows "as_u16 (fb_offset b + n) = fb_offset b + n"
  using assms by (simp add: cap_of_def)

lemma advance_ok:
  assumes "advance_buf b n = Some b'" "fb_offset b + fb_len b \<le> cap_of np"
  shows "fb_frame b' = fb_frame b \<and> fb_offset b' + fb_len b' \<le> cap_of np \<and> payload b' \<subseteq> payload b"
  using assms payload_step [OF assms(2), of n] by (auto simp: advance_buf_def payload_def split: if_splits)

lemma truncate_ok:
  "fb_offset b + fb_len b \<le> c \<Longrightarrow> fb_frame (truncate_buf b n) = fb_frame b \<and>
     fb_offset (truncate_buf b n) + fb_len (truncate_buf b n) \<le> c \<and> payload (truncate_buf b n) \<subseteq> payload b"
  by (auto simp: truncate_buf_def payload_def)

lemma split_window:
  assumes "split_to b at np = Some (np', b', hb)" "fb_offset b + fb_len b \<le> cap_of np"
  shows "fb_frame b' = fb_frame b" "fb_frame hb = fb_frame b" "fb_offset b' + fb_len b' \<le> cap_of np" "fb_offset hb + fb_len hb \<le> cap_of np"
    "payload b = payload hb \<union> payload b'" "payload hb \<inter> payload b' = {}" "np_retain (fb_frame b) np = Some np'" "at \<le> fb_len b"
proof -
  have at: "at \<le> fb_len b" and r: "np_retain (fb_frame b) np = Some np'"
    and b': "b' = b\<lparr>fb_offset := as_u16 (fb_offset b + at), fb_len := fb_len b - at\<rparr>"
    and hb: "hb = \<lparr> fb_frame = fb_frame b, fb_offset = fb_offset b, fb_len = at \<rparr>"
    using assms(1) by (auto simp: split_to_def split: if_splits bind_splits)
  note u = payload_step [OF assms(2) at]
  show "at \<le> fb_len b" "np_retain (fb_frame b) np = Some np'" using at r by simp_all
  show "fb_frame b' = fb_frame b" "fb_frame hb = fb_frame b" "fb_offset b' + fb_len b' \<le> cap_of np" "fb_offset hb + fb_len hb \<le> cap_of np"
    using b' hb u at assms(2) by simp_all
  show "payload b = payload hb \<union> payload b'" "payload hb \<inter> payload b' = {}"
    using b' hb u at by (auto simp: payload_def)
qed

lemma shrink_apart:
  assumes "A \<subseteq> B" "apart (xs @ B # ys)"
  shows "apart (xs @ A # ys)"
proof -
  have "\<forall>C\<in>set xs. C \<inter> A = {}" "\<forall>C\<in>set ys. A \<inter> C = {}" using assms by (auto simp: apart_simps)
  then show ?thesis using assms(2) by (simp add: apart_simps)
qed

lemma drop_apart: "apart (xs @ B # ys) \<Longrightarrow> apart (xs @ ys)"
  by (simp add: apart_simps)

lemma split_apart:
  assumes "A \<union> B = C" "A \<inter> B = {}" "apart (xs @ C # ys)"
  shows "apart (xs @ A # B # ys)"
proof -
  have "\<forall>D\<in>set xs. D \<inter> A = {} \<and> D \<inter> B = {}" "\<forall>D\<in>set ys. A \<inter> D = {} \<and> B \<inter> D = {}"
    using assms(1,3) by (auto simp: apart_simps)
  then show ?thesis using assms(2,3) by (simp add: apart_simps)
qed

lemma move_apart:
  assumes "A \<subseteq> B" "apart (xs @ B # ys @ zs)"
  shows "apart (xs @ ys @ A # zs)"
proof -
  have x: "\<forall>C\<in>set xs. C \<inter> B = {}" "\<forall>C\<in>set ys. B \<inter> C = {}" "\<forall>C\<in>set zs. B \<inter> C = {}"
    using assms(2) by (simp_all add: apart_simps)
  have "\<forall>C\<in>set xs. C \<inter> A = {}" using x(1) assms(1) by blast
  moreover have "\<forall>C\<in>set ys. C \<inter> A = {}" using x(2) assms(1) by blast
  moreover have "\<forall>C\<in>set zs. A \<inter> C = {}" using x(3) assms(1) by blast
  ultimately show ?thesis using assms(2) by (simp add: apart_simps)
qed

lemma buf_okD:
  assumes "buf_ok (np, mu, bu)"
  shows "np_ok (buf_refs mu bu) np" "\<forall>m\<in>set mu. fm_cap m = cap_of np \<and> count (buf_refs mu bu) (fm_frame m) = 1"
    "\<forall>b\<in>set bu. fb_offset b + fb_len b \<le> cap_of np" "apart (regions mu bu)"
  using assms by (auto simp: buf_ok_def)

lemma buf_new_ok:
  assumes "buf_ok (np, mu, bu)" "usable x np"
  shows "\<exists>np' r. frame_mut_new x np = Some (np', r) \<and> np_same np np' \<and>
    (case r of None \<Rightarrow> buf_ok (np', mu, bu) \<and> (\<forall>fp. np_pool np = Some fp \<longrightarrow> exhausted fp) | Some m \<Rightarrow> buf_ok (np', m # mu, bu))"
proof -
  note h = buf_okD [OF assms(1)]
  obtain np' r where r: "np_alloc refcount_meta x np = Some (np', r)" "np_same np np'"
    "case r of None \<Rightarrow> np_ok (buf_refs mu bu) np' \<and> (\<forall>fp. np_pool np = Some fp \<longrightarrow> exhausted fp) | Some f \<Rightarrow> f \<notin># buf_refs mu bu \<and> np_ok (add_mset f (buf_refs mu bu)) np'"
    using np_alloc_ok [OF h(1) assms(2)] by blast
  note c = cap_of_same [OF r(2)]
  show ?thesis
  proof (cases r)
    case None
    then show ?thesis using r h c by (simp add: frame_mut_new_def buf_ok_def)
  next
    case (Some f)
    let ?m = "\<lparr> fm_frame = f, fm_cap = cap_of np' \<rparr>"
    have f: "f \<notin># buf_refs mu bu" "np_ok (add_mset f (buf_refs mu bu)) np'" using r(3) Some by simp_all
    have "bytes_mut ?m \<subseteq> extent np' f" by (auto simp: bytes_mut_def extent_def cap_of_def)
    then have a: "apart (bytes_mut ?m # regions mu bu)"
      using apart_insert [OF f(2,1) h(4)] region_extent [OF assms(1)] c(2) by simp
    have e: "buf_refs (?m # mu) bu = add_mset f (buf_refs mu bu)" by (simp add: buf_refs_def)
    have "fm_frame m \<noteq> f" if "m \<in> set mu" for m using that f(1) by (auto simp: buf_refs_def)
    then have "buf_ok (np', ?m # mu, bu)"
      using f h a c(1) e by (auto simp: buf_ok_def regions_def not_in_iff)
    then show ?thesis using r(1,2) Some by (simp add: frame_mut_new_def cap_of_def)
  qed
qed

lemma buf_freeze_ok:
  assumes "buf_ok (np, as @ m # bs, bu)"
  shows "buf_ok (np, as @ bs, freeze m n # bu)"
proof -
  note h = buf_okD [OF assms]
  have e: "buf_refs (as @ bs) (freeze m n # bu) = buf_refs (as @ m # bs) bu" by (simp add: buf_refs_def freeze_def)
  have "payload (freeze m n) \<subseteq> bytes_mut m" by (auto simp: payload_def freeze_def bytes_mut_def)
  then have "apart (regions (as @ bs) (freeze m n # bu))"
    using move_apart [of _ _ "map bytes_mut as" "map bytes_mut bs" "map payload bu"] h(4) by (simp add: regions_def)
  then show ?thesis using h e by (auto simp: buf_ok_def freeze_def)
qed

lemma buf_drop_ok:
  assumes "buf_ok (np, as @ m # bs, bu)" "usable x np"
  shows "\<exists>np'. frame_mut_drop x m np = Some np' \<and> np_same np np' \<and> buf_ok (np', as @ bs, bu)"
proof -
  note h = buf_okD [OF assms(1)]
  let ?f = "fm_frame m" and ?R = "buf_refs (as @ m # bs) bu"
  have f: "?f \<in># ?R" "count ?R ?f = 1" using h(2) by (auto simp: buf_refs_def)
  obtain np1 np2 where d: "np_release ?f np = Some (np1, Free)" "np_recycle x ?f np1 = Some np2" "np_same np np2" "np_ok (?R - {#?f#}) np2"
    using np_release_ok [OF h(1) f(1) assms(2)] f(2) by auto
  have e: "?R = add_mset ?f (buf_refs (as @ bs) bu)" by (simp add: buf_refs_def)
  have "apart (regions (as @ bs) bu)" using drop_apart [of "map bytes_mut as" "bytes_mut m"] h(4) by (simp add: regions_def)
  moreover have "count (buf_refs (as @ bs) bu) (fm_frame k) = 1" if "k \<in> set (as @ bs)" for k
  proof -
    have "count (buf_refs (as @ bs) bu) ?f = 0" using f(2) e by simp
    moreover have "fm_frame k \<in># buf_refs (as @ bs) bu" using that by (auto simp: buf_refs_def)
    ultimately have "fm_frame k \<noteq> ?f" by (metis not_in_iff)
    moreover have "count ?R (fm_frame k) = 1" using h(2) that by auto
    ultimately show ?thesis using e by simp
  qed
  ultimately have "buf_ok (np2, as @ bs, bu)" using h d(4) e cap_of_same(1) [OF d(3)] by (auto simp: buf_ok_def)
  then show ?thesis using d by (simp add: frame_mut_drop_def)
qed

lemma buf_count_le:
  "count (buf_refs mu bu) f \<le> length mu + length bu"
  using count_le_size [of "buf_refs mu bu" f] by (simp add: buf_refs_def)

lemma not_mut_of_buf:
  assumes "buf_ok (np, mu, bu)" "b \<in> set bu" "m \<in> set mu"
  shows "fm_frame m \<noteq> fb_frame b"
proof
  assume e: "fm_frame m = fb_frame b"
  have "fm_frame m \<in># mset (map fm_frame mu)" using assms(3) by simp
  moreover have "fm_frame m \<in># mset (map fb_frame bu)" using assms(2) unfolding e by simp
  ultimately have "0 < count (mset (map fm_frame mu)) (fm_frame m)" "0 < count (mset (map fb_frame bu)) (fm_frame m)"
    by (simp_all only: count_greater_zero_iff)
  moreover have "count (mset (map fm_frame mu)) (fm_frame m) + count (mset (map fb_frame bu)) (fm_frame m) = 1"
    using buf_okD(2) [OF assms(1)] assms(3) by (simp add: buf_refs_def)
  ultimately show False by linarith
qed

lemma buf_split_ok:
  assumes "buf_ok (np, mu, as @ b # bs)" "split_to b at np = Some (np', b', hb)" "length mu + length as + length bs + 2 < 2 ^ 64"
  shows "buf_ok (np', mu, as @ hb # b' # bs)"
proof -
  note h = buf_okD [OF assms(1)]
  have ob: "fb_offset b + fb_len b \<le> cap_of np" using h(3) by simp
  note w = split_window [OF assms(2) ob]
  let ?R = "buf_refs mu (as @ b # bs)"
  have f: "fb_frame b \<in># ?R" by (simp add: buf_refs_def)
  have "count ?R (fb_frame b) + 1 < 2 ^ 64" using buf_count_le [of mu "as @ b # bs" "fb_frame b"] assms(3) by simp
  then obtain np2 where "np_retain (fb_frame b) np = Some np2" "np_same np np2" "np_ok (add_mset (fb_frame b) ?R) np2"
    using np_retain_ok [OF h(1) f] by blast
  then have r: "np_same np np'" "np_ok (add_mset (fb_frame b) ?R) np'" using w(7) by simp_all
  have e: "buf_refs mu (as @ hb # b' # bs) = add_mset (fb_frame b) ?R" using w(1,2) by (simp add: buf_refs_def)
  have "apart (regions mu (as @ hb # b' # bs))"
    using split_apart [OF w(5) [symmetric] w(6), of "map bytes_mut mu @ map payload as" "map payload bs"] h(4) by (simp add: regions_def)
  moreover have "\<forall>m\<in>set mu. fb_frame b \<noteq> fm_frame m" using not_mut_of_buf [OF assms(1), of b] by fastforce
  ultimately show ?thesis using h r w(3,4) e cap_of_same(1) [OF r(1)] by (auto simp: buf_ok_def)
qed

lemma buf_shrink_ok:
  assumes "buf_ok (np, mu, as @ b # bs)" "fb_frame b' = fb_frame b" "fb_offset b' + fb_len b' \<le> cap_of np" "payload b' \<subseteq> payload b"
  shows "buf_ok (np, mu, as @ b' # bs)"
proof -
  note h = buf_okD [OF assms(1)]
  have "buf_refs mu (as @ b' # bs) = buf_refs mu (as @ b # bs)" using assms(2) by (simp add: buf_refs_def)
  moreover have "apart (regions mu (as @ b' # bs))"
    using shrink_apart [OF assms(4), of "map bytes_mut mu @ map payload as" "map payload bs"] h(4) by (simp add: regions_def)
  ultimately show ?thesis using h assms(3) by (auto simp: buf_ok_def)
qed

lemma buf_drop_buf_ok:
  assumes "buf_ok (np, mu, as @ b # bs)" "usable x np"
  shows "\<exists>np'. frame_buf_drop x b np = Some np' \<and> np_same np np' \<and> buf_ok (np', mu, as @ bs)"
proof -
  note h = buf_okD [OF assms(1)]
  let ?f = "fb_frame b" and ?R = "buf_refs mu (as @ b # bs)"
  have f: "?f \<in># ?R" by (simp add: buf_refs_def)
  obtain np' where d: "frame_buf_drop x b np = Some np'" "np_same np np'" "np_ok (?R - {#?f#}) np'"
  proof -
    obtain np1 r where r: "np_release ?f np = Some (np1, r)" "np_same np np1" "r = Keep \<longrightarrow> np_ok (?R - {#?f#}) np1"
      "r = Free \<longrightarrow> (\<exists>np2. np_recycle x ?f np1 = Some np2 \<and> np_same np np2 \<and> np_ok (?R - {#?f#}) np2)"
      using np_release_ok [OF h(1) f assms(2)] by blast
    then show thesis using that by (cases r) (auto simp: frame_buf_drop_def)
  qed
  have e: "?R = add_mset ?f (buf_refs mu (as @ bs))" by (simp add: buf_refs_def)
  have "apart (regions mu (as @ bs))"
    using drop_apart [of "map bytes_mut mu @ map payload as" "payload b" "map payload bs"] h(4) by (simp add: regions_def)
  moreover have "\<forall>m\<in>set mu. ?f \<noteq> fm_frame m" using not_mut_of_buf [OF assms(1), of b] by fastforce
  ultimately have "buf_ok (np', mu, as @ bs)" using h d(3) e cap_of_same(1) [OF d(2)] by (auto simp: buf_ok_def)
  then show ?thesis using d by blast
qed

lemma buf_step_ok: "buf_step s s' \<Longrightarrow> buf_ok s \<Longrightarrow> buf_ok s'"
proof (induction rule: buf_step.induct)
  case (new x np np' m mu bu)
  then show ?case using buf_new_ok [of np mu bu x] by auto
next
  case (new_none x np np' mu bu)
  then show ?case using buf_new_ok [of np mu bu x] by auto
next
  case (drop_mut x np m np' as bs bu)
  then show ?case using buf_drop_ok [of np as m bs bu x] by auto
next
  case (truncate np mu as b bs n)
  then show ?case using buf_shrink_ok truncate_ok buf_okD(3) by (metis in_set_conv_decomp)
next
  case (advance b n b' np mu as bs)
  then have "fb_offset b + fb_len b \<le> cap_of np" using buf_okD(3) by simp
  then show ?case using advance buf_shrink_ok advance_ok by blast
next
  case (drop_buf x np b np' mu as bs)
  then show ?case using buf_drop_buf_ok [of np mu as b bs x] by auto
next
  case (exit x np np' mu bu)
  note h = buf_okD [OF exit.prems]
  obtain q where "np_thread_exit x np = Some q" "np_same np q" "np_ok (buf_refs mu bu) q"
    using np_thread_exit_ok [OF h(1)] exit.hyps(1) unfolding usable_def by blast
  then show ?case using exit.hyps h cap_of_same(1) by (auto simp: buf_ok_def)
qed (blast intro: buf_freeze_ok buf_split_ok)+

lemma buf_steps_ok: "buf_step\<^sup>*\<^sup>* s s' \<Longrightarrow> buf_ok s \<Longrightarrow> buf_ok s'"
  by (induction rule: rtranclp_induct) (auto intro: buf_step_ok)

subsection \<open>Properties\<close>

definition fresh_pool :: "u64 frame_pool \<Rightarrow> nat \<Rightarrow> u64 named_pool" where
  "fresh_pool fp threads = \<lparr> np_pool = Some fp, np_tls = replicate threads PtrNull \<rparr>"

definition fresh_typed :: "u64 frame_pool \<Rightarrow> nat \<Rightarrow> 'v typed_pool" where
  "fresh_typed fp threads = \<lparr> tp_np = fresh_pool fp threads, tp_body = (\<lambda>_. None), tp_dropped = [] \<rparr>"

lemma live_caches_replicate [simp]: "live_caches (replicate k PtrNull) = []"
  by (induction k) simp_all

lemma fresh_pool_ok:
  assumes "fp_build refcount_meta cpus rg sz = Some (Inr fp)" "region_ok rg" "cpus_ok cpus" "sz < 2 ^ 64"
  shows "np_ok {#} (fresh_pool fp threads)"
  using built_hist(3) [OF assms] by (simp add: np_ok_def fresh_pool_def)

lemma fresh_typed_ok:
  assumes "fp_build refcount_meta cpus rg sz = Some (Inr fp)" "region_ok rg" "cpus_ok cpus" "sz < 2 ^ 64"
  shows "typed_ok (fresh_typed fp threads, {#}, {#}, {#})"
  using fresh_pool_ok [OF assms] by (simp add: typed_ok_def fresh_typed_def live_values_def)

text \<open>The frames a named pool can hand out again: free in the pool or in the cache of a thread.\<close>

definition reusable :: "u64 named_pool \<Rightarrow> nat multiset" where
  "reusable np = (case np_pool np of None \<Rightarrow> {#} | Some fp \<Rightarrow> free_frames fp + in_caches (live_caches (np_tls np)))"

lemma held_not_reusable: "np_ok R np \<Longrightarrow> f \<in># R \<Longrightarrow> f \<notin># reusable np"
  using np_ok_held [of R np f] held_frame(2,3) by (fastforce simp: reusable_def)

text \<open>
  C26. Shared ownership: after any history of creating, sharing, cloning and dropping handles of a
  typed pool by any threads, every handle still reads its value and its frame cannot be handed
  out again, a unique handle is the only one of its frame, the strong count is the number of
  handles, and every value ever stored is either still held or has had its destructor run,
  exactly once. The operations of a history, and those shown to return, are by threads whose cache of
  the pool has not been freed: once the destructor has freed it at the end of a thread, \<open>PTR\<close> dangles and
  any further use by that thread is undefined (\<open>use_after_exit\<close>). A frame has fewer than \<open>2 ^ 64\<close> handles.
\<close>

theorem typed_handles_safe:
  assumes "fp_build refcount_meta cpus rg sz = Some (Inr fp)" "region_ok rg" "cpus_ok cpus" "sz < 2 ^ 64"
    and "typed_step\<^sup>*\<^sup>* (fresh_typed fp threads, {#}, {#}, {#}) (t, Ow, Sh, C)"
  shows "(\<forall>f\<in>#Ow + Sh. (\<exists>v. handle_deref t f = Some v) \<and> f \<notin># reusable (tp_np t)) \<and>
    (\<forall>f\<in>#Ow. count Ow f = 1 \<and> f \<notin># Sh) \<and> (\<forall>f\<in>#Sh. strong_count f t = Some (count Sh f)) \<and>
    C = mset (tp_dropped t) + live_values (tp_body t) (Ow + Sh) \<and>
    (\<forall>x v. a_thread x t \<longrightarrow> owned_new x v t \<noteq> None) \<and>
    (\<forall>x. \<forall>f\<in>#Ow. a_thread x t \<longrightarrow> owned_drop x f t \<noteq> None) \<and> (\<forall>x. \<forall>f\<in>#Sh. a_thread x t \<longrightarrow> shared_drop x f t \<noteq> None)"
proof -
  have ok: "typed_ok (t, Ow, Sh, C)" using typed_steps_ok [OF assms(5) fresh_typed_ok [OF assms(1-4)]] .
  then have h: "np_ok (Ow + Sh) (tp_np t)" "\<forall>f\<in>#Ow. count (Ow + Sh) f = 1" "dom (tp_body t) = set_mset (Ow + Sh)"
    "C = mset (tp_dropped t) + live_values (tp_body t) (Ow + Sh)" by (simp_all add: typed_ok_def)
  have d: "\<forall>f\<in>#Ow + Sh. (\<exists>v. handle_deref t f = Some v) \<and> f \<notin># reusable (tp_np t)"
    using h(3) held_not_reusable [OF h(1)] unfolding handle_deref_def by blast
  have u: "\<forall>f\<in>#Ow. count Ow f = 1 \<and> f \<notin># Sh"
  proof
    fix f assume f: "f \<in># Ow"
    then have n: "f \<notin># Sh" using shared_not_owned [OF h(2)] by blast
    moreover have "count Ow f + count Sh f = 1" using h(2) f by simp
    ultimately show "count Ow f = 1 \<and> f \<notin># Sh" by (simp add: not_in_iff)
  qed
  have s: "\<forall>f\<in>#Sh. strong_count f t = Some (count Sh f)"
  proof
    fix f assume f: "f \<in># Sh"
    then have "f \<notin># Ow" using shared_not_owned [OF h(2)] by blast
    then show "strong_count f t = Some (count Sh f)"
      using np_count_ok [OF h(1), of f] f by (simp add: strong_count_def not_in_iff)
  qed
  have p: "\<forall>x v. a_thread x t \<longrightarrow> owned_new x v t \<noteq> None" "\<forall>x. \<forall>f\<in>#Ow. a_thread x t \<longrightarrow> owned_drop x f t \<noteq> None"
    "\<forall>x. \<forall>f\<in>#Sh. a_thread x t \<longrightarrow> shared_drop x f t \<noteq> None"
    using owned_new_ok [OF ok] owned_drop_ok [OF ok] shared_drop_ok [OF ok] by fast+
  show ?thesis using d u s h(4) p by blast
qed

definition thread_zero :: thread_ctx where
  "thread_zero = \<lparr> tc_id = 0, tc_calloc = True, tc_key = True, tc_env = (\<lambda>_. \<lparr> current_cpu = Some 0, anchor = 0, rseq_cpu = None \<rparr>) \<rparr>"

lemma two_frames_not_exhausted: "\<not> exhausted (two_frames P)"
proof
  assume e: "exhausted (two_frames P)"
  have "fp_slab (two_frames P) = frame_slab 2"
    using two_frames_build(1) [of P]
    by (auto simp: fp_build_def Let_def split: if_splits bind_splits) (metis frame_pool.select_convs(5))
  then have "class_objs (fp_slab (two_frames P)) 0 = {#}" using frame_slab_ok(2) [of 2] by (simp add: U32_MAX_def)
  then have "frames (two_frames P) = []"
    using e two_frames_hist(2) [of P] by (simp add: free_frames_def exhausted_def)
  then show False using two_frames_hist(6) [of P] by (simp add: frames_def)
qed

lemma first_new:
  "\<exists>t f. owned_new thread_zero v (fresh_typed (two_frames refcount_meta) 1) = Some (t, Some f)"
proof -
  have ok: "typed_ok (fresh_typed (two_frames refcount_meta) 1, {#}, {#}, {#})"
    by (rule fresh_typed_ok [OF two_frames_build]) simp
  have "a_thread thread_zero (fresh_typed (two_frames refcount_meta) 1)"
    by (simp add: a_thread_def usable_def thread_zero_def fresh_typed_def fresh_pool_def)
  then obtain t r where r: "owned_new thread_zero v (fresh_typed (two_frames refcount_meta) 1) = Some (t, r)"
    "r = None \<longrightarrow> (\<forall>fp. np_pool (tp_np (fresh_typed (two_frames refcount_meta) 1 :: 'a typed_pool)) = Some fp \<longrightarrow> exhausted fp)"
    using owned_new_ok [OF ok] by (fastforce split: option.splits)
  then show ?thesis using two_frames_not_exhausted by (cases r) (auto simp: fresh_typed_def fresh_pool_def)
qed

theorem typed_handles_safe_witness:
  "\<exists>t f. typed_step (fresh_typed (two_frames refcount_meta) 1, {#}, {#}, {#}) (t, {#f#}, {#}, {#''packet''#}) \<and>
     (\<exists>v. handle_deref t f = Some v) \<and> tp_dropped t = []"
proof -
  let ?t0 = "fresh_typed (two_frames refcount_meta) 1"
  obtain t f where n: "owned_new thread_zero ''packet'' ?t0 = Some (t, Some f)" using first_new [of "''packet''"] by auto
  have "a_thread thread_zero ?t0" by (simp add: a_thread_def usable_def thread_zero_def fresh_typed_def fresh_pool_def)
  then have s: "typed_step (?t0, {#}, {#}, {#}) (t, {#f#}, {#}, {#''packet''#})" using n by (rule typed_step.new)
  have "tp_dropped t = []" using n by (auto simp: owned_new_def fresh_typed_def split: bind_splits option.splits)
  moreover have "\<exists>v. handle_deref t f = Some v"
    using typed_handles_safe [OF two_frames_build _ r_into_rtranclp [of typed_step, OF s]] by simp
  ultimately show ?thesis using s by blast
qed

text \<open>
  C27. No aliasing of bytes: after any history of allocating, filling, splitting, truncating,
  advancing and dropping byte buffers by any threads, the byte ranges of any two live handles are
  disjoint, each range lies inside the frame of its handle, and no such frame can be handed out
  again. The 16-bit window offsets never wrap. The operations are by threads whose cache of the pool
  has not been freed by its destructor, and there are fewer than \<open>2 ^ 64\<close> handles.
\<close>

theorem buffers_disjoint:
  assumes "fp_build refcount_meta cpus rg sz = Some (Inr fp)" "region_ok rg" "cpus_ok cpus" "sz < 2 ^ 64"
    and "buf_step\<^sup>*\<^sup>* (fresh_pool fp threads, [], []) (np, mu, bu)"
  shows "(\<forall>i j. i < j \<and> j < length (regions mu bu) \<longrightarrow> regions mu bu ! i \<inter> regions mu bu ! j = {}) \<and>
    (\<forall>m\<in>set mu. bytes_mut m \<subseteq> {fm_frame m ..< fm_frame m + frame_capacity np} \<and> fm_frame m \<notin># reusable np) \<and>
    (\<forall>b\<in>set bu. payload b \<subseteq> {fb_frame b ..< fb_frame b + frame_capacity np} \<and> fb_frame b \<notin># reusable np \<and>
       fb_offset b + fb_len b < 2 ^ 16)"
proof -
  have "buf_ok (fresh_pool fp threads, [], [])"
    using fresh_pool_ok [OF assms(1-4)] by (simp add: buf_ok_def buf_refs_def regions_def apart_def)
  then have ok: "buf_ok (np, mu, bu)" using buf_steps_ok [OF assms(5)] by blast
  note h = buf_okD [OF ok]
  have "fm_frame m \<in># buf_refs mu bu" if "m \<in> set mu" for m using that by (simp add: buf_refs_def)
  moreover have "fb_frame b \<in># buf_refs mu bu" if "b \<in> set bu" for b using that by (simp add: buf_refs_def)
  moreover have "fb_offset b + fb_len b < 2 ^ 16" if "b \<in> set bu" for b
    using h(3) that by (fastforce simp: cap_of_def)
  ultimately show ?thesis
    using h(4) region_extent [OF ok] held_not_reusable [OF h(1)]
    by (auto simp: apart_def sorted_wrt_iff_nth_less extent_def)
qed

theorem buffers_disjoint_witness:
  "\<exists>np m. buf_step (fresh_pool (two_frames refcount_meta) 1, [], []) (np, [m], []) \<and>
     bytes_mut m \<subseteq> {fm_frame m ..< fm_frame m + frame_capacity np} \<and> fm_frame m \<notin># reusable np"
proof -
  let ?np = "fresh_pool (two_frames refcount_meta) 1"
  have "np_ok {#} ?np" by (rule fresh_pool_ok [OF two_frames_build]) simp
  then have ok: "buf_ok (?np, [], [])" by (simp add: buf_ok_def buf_refs_def regions_def apart_def)
  have th: "usable thread_zero ?np" by (simp add: usable_def thread_zero_def fresh_pool_def)
  obtain np r where r: "frame_mut_new thread_zero ?np = Some (np, r)"
    "r = None \<longrightarrow> (\<forall>fp. np_pool ?np = Some fp \<longrightarrow> exhausted fp)"
    using buf_new_ok [OF ok th] by (fastforce split: option.splits)
  then obtain m where "r = Some m" using two_frames_not_exhausted by (cases r) (auto simp: fresh_pool_def)
  then have s: "buf_step (?np, [], []) (np, [m], [])" using r th buf_step.new by blast
  show ?thesis
    using buffers_disjoint [OF two_frames_build _ r_into_rtranclp [of buf_step, OF s]] s by auto
qed

end
