(* ===== verification/Thread_Cache.thy ===== *)
theory Thread_Cache
  imports Sub_Heap_Props Magazine
begin

text \<open>
  The thread-local cache in front of a sub-heap (\<^verbatim>\<open>toccata-core/src/magazine.rs\<close>): one magazine of
  \<open>MAG_CAP\<close> pointers per size class. A hit is a pop or a push of the array; a miss pulls a batch from
  the sub-heap and an overflow returns three quarters of the magazine to it. For the sub-heap an
  object in a magazine is live: the lemmas relate what the magazines hold to its live objects.
\<close>

subsection \<open>Model\<close>

definition MAG_CAP :: nat where
  "MAG_CAP = 32"

type_synonym thread_cache = "magazine list"

definition cache_new :: thread_cache where
  "cache_new = replicate NUM_CLASSES (mag_new MAG_CAP)"

definition try_pop :: "thread_cache \<Rightarrow> nat \<Rightarrow> (thread_cache \<times> nat option) rust" where
  "try_pop tc cls = do {
     m \<leftarrow> idx tc cls;
     if 0 < mag_len m then do {
       (m', p) \<leftarrow> mag_take m;
       tc' \<leftarrow> upd tc cls m';
       Some (tc', Some p)
     } else Some (tc, None)
   }"

text \<open>
  \<open>alloc_prefetch\<close> also issues prefetch hints; they are the list of addresses it returns. The
  pointer arithmetic wraps.
\<close>

definition wadd :: "nat \<Rightarrow> nat \<Rightarrow> nat" where
  "wadd p n = (p + n) mod 2 ^ 64"

function near_hints :: "nat \<Rightarrow> nat \<Rightarrow> nat \<Rightarrow> nat list" where
  "near_hints near osz off =
     (if off < osz \<and> off < 256 then wadd near off # near_hints near osz (off + 64) else [])"
  by pat_completeness auto
termination
  by (relation "measure (\<lambda>(near, osz, off). 256 - off)") auto

declare near_hints.simps [simp del]

definition hints_at :: "nat list \<Rightarrow> nat \<Rightarrow> nat \<Rightarrow> nat list rust" where
  "hints_at ptrs tp osz = do {
     far \<leftarrow> (if 3 \<le> tp then do {
              far \<leftarrow> idx ptrs (tp - 3);
              Some (far # (if 64 < osz then [wadd far 64] else []))
            } else Some []);
     near \<leftarrow> (if 1 \<le> tp then do {
               near \<leftarrow> idx ptrs (tp - 1);
               Some (near_hints near osz 0)
             } else Some []);
     Some (far @ near)
   }"

definition alloc_prefetch :: "thread_cache \<Rightarrow> nat \<Rightarrow> nat \<Rightarrow> (thread_cache \<times> nat option \<times> nat list) rust" where
  "alloc_prefetch tc cls osz = do {
     m \<leftarrow> idx tc cls;
     if 0 < mag_len m then do {
       (m', p) \<leftarrow> mag_take m;
       hints \<leftarrow> hints_at (mag_ptrs m') (mag_len m') osz;
       tc' \<leftarrow> upd tc cls m';
       Some (tc', Some p, hints)
     } else Some (tc, None, [])
   }"

text \<open>
  \<open>refill\<close>: the slice \<open>ptrs[base..base + want]\<close> must lie inside the array. The batch is written to
  its front and reversed there.
\<close>

definition tc_refill :: "ctx \<Rightarrow> sub_heap \<Rightarrow> thread_cache \<Rightarrow> nat \<Rightarrow> (sub_heap \<times> thread_cache \<times> nat option) rust" where
  "tc_refill x h tc cls = do {
     m \<leftarrow> idx tc cls;
     let want = MAG_CAP;
     let base = mag_len m;
     if length (mag_ptrs m) < base + want then None
     else do {
       (h', out) \<leftarrow> refill_batch x h cls want;
       let got = length out;
       let m1 = m\<lparr>mag_ptrs := take base (mag_ptrs m) @ rev out @ drop (base + got) (mag_ptrs m),
                  mag_len := mag_len m + got\<rparr>;
       if 0 < mag_len m1 then do {
         (m2, p) \<leftarrow> mag_take m1;
         tc' \<leftarrow> upd tc cls m2;
         Some (h', tc', Some p)
       } else do {
         tc' \<leftarrow> upd tc cls m1;
         Some (h', tc', None)
       }
     }
   }"

definition tc_alloc :: "ctx \<Rightarrow> sub_heap \<Rightarrow> thread_cache \<Rightarrow> nat \<Rightarrow> (sub_heap \<times> thread_cache \<times> nat option) rust" where
  "tc_alloc x h tc cls = do {
     (tc1, r) \<leftarrow> try_pop tc cls;
     case r of Some p \<Rightarrow> Some (h, tc1, Some p) | None \<Rightarrow> tc_refill x h tc1 cls
   }"

definition try_push :: "thread_cache \<Rightarrow> nat \<Rightarrow> nat \<Rightarrow> (thread_cache \<times> bool) rust" where
  "try_push tc ptr cls = do {
     m \<leftarrow> idx tc cls;
     if mag_len m < MAG_CAP then do {
       m' \<leftarrow> mag_store m ptr;
       tc' \<leftarrow> upd tc cls m';
       Some (tc', True)
     } else Some (tc, False)
   }"

text \<open>\<open>m.len - drop_n\<close> must not underflow; \<open>copy_within\<close> moves the survivors to the front.\<close>

definition drain_then_push :: "ctx \<Rightarrow> sub_heap \<Rightarrow> thread_cache \<Rightarrow> nat \<Rightarrow> nat \<Rightarrow> (sub_heap \<times> thread_cache) rust" where
  "drain_then_push x h tc ptr cls = do {
     let drop_n = MAG_CAP * 3 div 4;
     m \<leftarrow> idx tc cls;
     if mag_len m < drop_n \<or> length (mag_ptrs m) < mag_len m then None
     else do {
       let new_len = mag_len m - drop_n;
       h' \<leftarrow> dealloc_class_batch x h (take drop_n (mag_ptrs m)) cls;
       let ps = take new_len (drop drop_n (mag_ptrs m)) @ drop new_len (mag_ptrs m);
       m' \<leftarrow> mag_store (m\<lparr>mag_ptrs := ps, mag_len := new_len\<rparr>) ptr;
       tc' \<leftarrow> upd tc cls m';
       Some (h', tc')
     }
   }"

definition tc_free :: "ctx \<Rightarrow> sub_heap \<Rightarrow> thread_cache \<Rightarrow> nat \<Rightarrow> nat \<Rightarrow> (sub_heap \<times> thread_cache) rust" where
  "tc_free x h tc ptr cls = do {
     (tc1, ok) \<leftarrow> try_push tc ptr cls;
     if ok then Some (h, tc1) else drain_then_push x h tc1 ptr cls
   }"

text \<open>The two loops of \<open>flush_all\<close>: over the classes, and over the slots of a magazine from the top.\<close>

primrec flush_slots :: "ctx \<Rightarrow> nat \<Rightarrow> nat list \<Rightarrow> nat \<Rightarrow> sub_heap \<Rightarrow> sub_heap rust" where
  "flush_slots x cls ptrs 0 h = Some h"
| "flush_slots x cls ptrs (Suc n) h = do {
     p \<leftarrow> idx ptrs n;
     h1 \<leftarrow> dealloc_class x h p cls;
     flush_slots x cls ptrs n h1
   }"

primrec flush_classes :: "ctx \<Rightarrow> nat list \<Rightarrow> sub_heap \<Rightarrow> thread_cache \<Rightarrow> (sub_heap \<times> thread_cache) rust" where
  "flush_classes x [] h tc = Some (h, tc)"
| "flush_classes x (cls # cs) h tc = do {
     m \<leftarrow> idx tc cls;
     h1 \<leftarrow> flush_slots x cls (mag_ptrs m) (mag_len m) h;
     tc1 \<leftarrow> upd tc cls (m\<lparr>mag_len := 0\<rparr>);
     flush_classes x cs h1 tc1
   }"

definition flush_all :: "ctx \<Rightarrow> sub_heap \<Rightarrow> thread_cache \<Rightarrow> (sub_heap \<times> thread_cache) rust" where
  "flush_all x h tc = flush_classes x [0..<NUM_CLASSES] h tc"

subsection \<open>The objects of a cache\<close>

definition tc_ok :: "thread_cache \<Rightarrow> bool" where
  "tc_ok tc \<longleftrightarrow> length tc = NUM_CLASSES \<and> (\<forall>m\<in>set tc. mag_ok MAG_CAP m) \<and> mag_len (tc ! 0) = 0"

definition tc_objs :: "thread_cache \<Rightarrow> nat \<Rightarrow> nat multiset" where
  "tc_objs tc c = mset (mag_objs (tc ! c))"

text \<open>\<open>tc_chg tc tc' c\<close>: only the magazine of class \<open>c\<close> may differ.\<close>

definition tc_chg :: "thread_cache \<Rightarrow> thread_cache \<Rightarrow> nat \<Rightarrow> bool" where
  "tc_chg tc tc' c \<longleftrightarrow> tc_ok tc' \<and> (\<forall>d. d \<noteq> c \<longrightarrow> tc_objs tc' d = tc_objs tc d)"

lemma cache_new_ok [simp]: "tc_ok cache_new" "c < NUM_CLASSES \<Longrightarrow> tc_objs cache_new c = {#}"
  by (simp_all add: tc_ok_def cache_new_def tc_objs_def nth_replicate)

lemma tc_mag: "tc_ok tc \<Longrightarrow> small_class c \<Longrightarrow> c < length tc \<and> mag_ok MAG_CAP (tc ! c)"
  by (simp add: tc_ok_def small_class_def)

lemma tc_upd:
  assumes "tc_ok tc" "small_class c" "mag_ok MAG_CAP m"
  shows "upd tc c m = Some (tc[c := m])" "tc_chg tc (tc[c := m]) c" "tc_objs (tc[c := m]) c = mset (mag_objs m)"
proof -
  have c: "c < length tc" "0 < c" using assms(1,2) by (simp_all add: tc_ok_def small_class_def)
  show "upd tc c m = Some (tc[c := m])" "tc_objs (tc[c := m]) c = mset (mag_objs m)" using c by (simp_all add: tc_objs_def)
  have "\<forall>m'\<in>set (tc[c := m]). mag_ok MAG_CAP m'" using assms(1,3) set_update_subset_insert [of tc c m] by (auto simp: tc_ok_def)
  then show "tc_chg tc (tc[c := m]) c" using assms(1) c by (simp add: tc_chg_def tc_ok_def tc_objs_def)
qed

lemma tc_objs_zero: "tc_ok tc \<Longrightarrow> tc_objs tc 0 = {#}"
  by (simp add: tc_ok_def tc_objs_def mag_objs_def)

subsection \<open>Pops and pushes\<close>

lemma try_pop_ok:
  assumes "tc_ok tc" "small_class c"
  shows "\<exists>tc' r. try_pop tc c = Some (tc', r) \<and> tc_chg tc tc' c \<and>
    (case r of None \<Rightarrow> tc' = tc \<and> tc_objs tc c = {#} | Some p \<Rightarrow> tc_objs tc c = add_mset p (tc_objs tc' c))"
proof -
  note m = tc_mag [OF assms]
  show ?thesis
  proof (cases "0 < mag_len (tc ! c)")
    case False
    then show ?thesis using m assms(1) by (auto simp: try_pop_def tc_chg_def tc_objs_def mag_objs_def)
  next
    case True
    obtain m' p where t: "mag_take (tc ! c) = Some (m', p)" "mag_ok MAG_CAP m'" "mag_objs (tc ! c) = mag_objs m' @ [p]"
      using mag_take_ok m True by blast
    note u = tc_upd [OF assms t(2)]
    have "try_pop tc c = Some (tc[c := m'], Some p)" using m True t(1) u(1) by (simp add: try_pop_def)
    moreover have "tc_objs tc c = add_mset p (tc_objs (tc[c := m']) c)" using t(3) u(3) by (simp add: tc_objs_def)
    ultimately show ?thesis using u(2) by auto
  qed
qed

lemma hints_total:
  assumes "tp < length ptrs"
  shows "\<exists>hs. hints_at ptrs tp osz = Some hs"
  using assms by (simp add: hints_at_def)

text \<open>The prefetching pop is the plain pop.\<close>

lemma alloc_prefetch_pop:
  assumes "tc_ok tc" "small_class c"
  shows "\<exists>tc' r hs. alloc_prefetch tc c osz = Some (tc', r, hs) \<and> try_pop tc c = Some (tc', r)"
proof -
  note m = tc_mag [OF assms]
  show ?thesis
  proof (cases "0 < mag_len (tc ! c)")
    case False
    then show ?thesis using m by (simp add: try_pop_def alloc_prefetch_def)
  next
    case True
    obtain m' p where t: "mag_take (tc ! c) = Some (m', p)" "mag_ok MAG_CAP m'" "mag_len m' = mag_len (tc ! c) - 1"
      using mag_take_ok m True by blast
    note u = tc_upd [OF assms t(2)]
    have "mag_len m' < length (mag_ptrs m')" using t(2,3) m True by (auto simp: mag_ok_def)
    then obtain hs where "hints_at (mag_ptrs m') (mag_len m') osz = Some hs" using hints_total by blast
    then show ?thesis using m True t(1) u(1) by (simp add: try_pop_def alloc_prefetch_def)
  qed
qed

lemma try_push_ok:
  assumes "tc_ok tc" "small_class c"
  shows "\<exists>tc'. try_push tc p c = Some (tc', mag_len (tc ! c) < MAG_CAP) \<and> tc_chg tc tc' c \<and>
    (if mag_len (tc ! c) < MAG_CAP then tc_objs tc' c = add_mset p (tc_objs tc c) else tc' = tc)"
proof -
  note m = tc_mag [OF assms]
  show ?thesis
  proof (cases "mag_len (tc ! c) < MAG_CAP")
    case False
    then show ?thesis using m assms(1) by (simp add: try_push_def tc_chg_def)
  next
    case True
    obtain m' where t: "mag_store (tc ! c) p = Some m'" "mag_ok MAG_CAP m'" "mag_objs m' = mag_objs (tc ! c) @ [p]"
      using mag_store_ok m True by blast
    note u = tc_upd [OF assms t(2)]
    then show ?thesis using m True t by (auto simp: try_push_def tc_objs_def)
  qed
qed

subsection \<open>Misses, overflows and the flush\<close>

lemma refill_ok:
  assumes hi: "heap_inv h" and c: "small_class c" and g: "batch_room h c MAG_CAP" and tc: "tc_ok tc" and e: "tc_objs tc c = {#}"
  shows "\<exists>h' tc' r. tc_refill x h tc c = Some (h', tc', r) \<and> tc_chg tc tc' c \<and>
    hands_out h h' c ((case r of None \<Rightarrow> {#} | Some p \<Rightarrow> {#p#}) + tc_objs tc' c) \<and> (r = None \<longrightarrow> avail h = 0 \<and> tc_objs tc' c = {#})"
proof -
  note m = tc_mag [OF tc c]
  have z: "mag_len (tc ! c) = 0" using e m by (auto simp: tc_objs_def mag_ok_def mag_objs_def MAG_CAP_def)
  obtain h' out where 1: "refill_batch x h c MAG_CAP = Some (h', out)" "length out \<le> MAG_CAP" "hands_out h h' c (mset out)"
    "out = [] \<and> 0 < MAG_CAP \<longrightarrow> avail h = 0"
    using refill_batch_ok [OF hi c g, of x] by blast
  define m1 where m1: "m1 = (tc ! c)\<lparr>mag_ptrs := rev out @ drop (length out) (mag_ptrs (tc ! c)), mag_len := length out\<rparr>"
  have ok1: "mag_ok MAG_CAP m1" "mag_objs m1 = rev out" using 1(2) m by (auto simp: m1 mag_ok_def mag_objs_def)
  show ?thesis
  proof (cases "out = []")
    case True
    note u = tc_upd [OF tc c ok1(1)]
    have "tc_refill x h tc c = Some (h', tc[c := m1], None)"
      using m z 1(1) True u(1) by (simp add: tc_refill_def mag_ok_def m1)
    then show ?thesis using u(2,3) ok1(2) True 1(3,4) by (simp add: MAG_CAP_def)
  next
    case False
    then have "0 < mag_len m1" by (simp add: m1)
    then obtain m2 p where 2: "mag_take m1 = Some (m2, p)" "mag_ok MAG_CAP m2" "mag_objs m1 = mag_objs m2 @ [p]"
      using mag_take_ok [OF ok1(1)] by blast
    note u = tc_upd [OF tc c 2(2)]
    have r: "tc_refill x h tc c = Some (h', tc[c := m2], Some p)"
      using m z 1(1) False u(1) 2(1) by (simp add: tc_refill_def mag_ok_def m1)
    have "mset out = mset (mag_objs m1)" using ok1(2) by simp
    then have "mset out = {#p#} + tc_objs (tc[c := m2]) c" using 2(3) u(3) by simp
    then show ?thesis using r u(2) 1(3) by simp
  qed
qed

text \<open>\<open>tc_alloc\<close> hands out an object that was cached or one of a batch from the sub-heap.\<close>

lemma tc_alloc_ok:
  assumes hi: "heap_inv h" and c: "small_class c" and g: "batch_room h c MAG_CAP" and tc: "tc_ok tc"
  shows "\<exists>h' tc' r M. tc_alloc x h tc c = Some (h', tc', r) \<and> tc_chg tc tc' c \<and> hands_out h h' c M \<and>
    tc_objs tc c + M = (case r of None \<Rightarrow> {#} | Some p \<Rightarrow> {#p#}) + tc_objs tc' c \<and>
    (tc_objs tc c \<noteq> {#} \<longrightarrow> h' = h \<and> r \<noteq> None) \<and> (r = None \<longrightarrow> avail h = 0)"
proof -
  obtain tc1 q where 1: "try_pop tc c = Some (tc1, q)" "tc_chg tc tc1 c"
    "case q of None \<Rightarrow> tc1 = tc \<and> tc_objs tc c = {#} | Some p \<Rightarrow> tc_objs tc c = add_mset p (tc_objs tc1 c)"
    using try_pop_ok [OF tc c] by blast
  show ?thesis
  proof (cases q)
    case None
    then have e: "tc1 = tc" "tc_objs tc c = {#}" using 1(3) by simp_all
    from refill_ok [OF hi c g tc e(2), of x] show ?thesis using 1(1) None e by (fastforce simp: tc_alloc_def)
  next
    case (Some p)
    then have "tc_alloc x h tc c = Some (h, tc1, Some p)" using 1(1) by (simp add: tc_alloc_def)
    moreover have "hands_out h h c {#}" using hi by (simp add: hands_out_def same_frame_def)
    ultimately show ?thesis using 1(2,3) Some by (intro exI [of _ h] exI [of _ tc1] exI [of _ "Some p"] exI [of _ "{#}"]) simp
  qed
qed

lemma drain_then_push_ok:
  assumes hi: "heap_inv h" and c: "small_class c" and tc: "tc_ok tc" and full: "mag_len (tc ! c) = MAG_CAP" and l: "tc_objs tc c \<subseteq># live_objs h c"
  shows "\<exists>h' tc' M. drain_then_push x h tc p c = Some (h', tc') \<and> tc_chg tc tc' c \<and> takes_back h h' c M \<and>
    add_mset p (tc_objs tc c) = M + tc_objs tc' c \<and> size M = MAG_CAP * 3 div 4 \<and> M \<subseteq># tc_objs tc c"
proof -
  note m = tc_mag [OF tc c]
  let ?ps = "mag_ptrs (tc ! c)"
  have len: "length ?ps = 32" "mag_objs (tc ! c) = ?ps" using m full by (simp_all add: mag_ok_def mag_objs_def MAG_CAP_def)
  have split: "mset ?ps = mset (take 24 ?ps) + mset (drop 24 ?ps)" by (metis append_take_drop_id mset_append)
  then have sub: "mset (take 24 ?ps) \<subseteq># live_objs h c" using l len(2)
    by (metis mset_subset_eq_add_left subset_mset.dual_order.trans tc_objs_def)
  obtain h' where 1: "dealloc_class_batch x h (take 24 ?ps) c = Some h'" "takes_back h h' c (mset (take 24 ?ps))"
    using dealloc_class_batch_ok [OF hi c sub] by blast
  define m1 where m1: "m1 = (tc ! c)\<lparr>mag_ptrs := drop 24 ?ps @ drop 8 ?ps, mag_len := 8\<rparr>"
  have ok1: "mag_ok MAG_CAP m1" "mag_len m1 < MAG_CAP" "mag_objs m1 = drop 24 ?ps"
    using len by (simp_all add: m1 mag_ok_def mag_objs_def MAG_CAP_def)
  obtain m2 where 2: "mag_store m1 p = Some m2" "mag_ok MAG_CAP m2" "mag_objs m2 = mag_objs m1 @ [p]"
    using mag_store_ok [OF ok1(1,2)] by blast
  note u = tc_upd [OF tc c 2(2)]
  have "drain_then_push x h tc p c = Some (h', tc[c := m2])"
    using m full len 1(1) 2(1) u(1) by (simp add: drain_then_push_def MAG_CAP_def flip: m1)
  moreover have "add_mset p (tc_objs tc c) = mset (take 24 ?ps) + tc_objs (tc[c := m2]) c"
    using split u(3) 2(3) ok1(3) len(2) by (simp add: tc_objs_def)
  ultimately show ?thesis using u(2) 1(2) len split
    by (intro exI [of _ h'] exI [of _ "tc[c := m2]"] exI [of _ "mset (take 24 ?ps)"]) (simp add: MAG_CAP_def tc_objs_def)
qed

lemma takes_back_none: "heap_inv h \<Longrightarrow> takes_back h h c {#}"
  by (simp add: takes_back_def same_frame_def)

lemma tc_free_ok:
  assumes hi: "heap_inv h" and c: "small_class c" and tc: "tc_ok tc" and l: "tc_objs tc c \<subseteq># live_objs h c"
  shows "\<exists>h' tc' M. tc_free x h tc p c = Some (h', tc') \<and> tc_chg tc tc' c \<and> takes_back h h' c M \<and>
    add_mset p (tc_objs tc c) = M + tc_objs tc' c \<and> M \<subseteq># tc_objs tc c"
proof -
  obtain tc1 where 1: "try_push tc p c = Some (tc1, mag_len (tc ! c) < MAG_CAP)" "tc_chg tc tc1 c"
    "if mag_len (tc ! c) < MAG_CAP then tc_objs tc1 c = add_mset p (tc_objs tc c) else tc1 = tc"
    using try_push_ok [OF tc c] by blast
  show ?thesis
  proof (cases "mag_len (tc ! c) < MAG_CAP")
    case True
    then show ?thesis using 1 takes_back_none [OF hi, of c]
      by (intro exI [of _ h] exI [of _ tc1] exI [of _ "{#}"]) (simp add: tc_free_def)
  next
    case False
    then have "mag_len (tc ! c) = MAG_CAP" using tc_mag [OF tc c] by (simp add: mag_ok_def)
    from drain_then_push_ok [OF hi c tc this l, of x p] show ?thesis using 1 False by (auto simp: tc_free_def)
  qed
qed

lemma flush_slots_ok:
  assumes "heap_inv h" "small_class c" "n \<le> length ptrs" "mset (take n ptrs) \<subseteq># live_objs h c"
  shows "\<exists>h'. flush_slots x c ptrs n h = Some h' \<and> takes_back h h' c (mset (take n ptrs))"
  using assms
proof (induction n arbitrary: h)
  case 0
  then show ?case using takes_back_none by simp
next
  case (Suc n)
  have s: "mset (take (Suc n) ptrs) = add_mset (ptrs ! n) (mset (take n ptrs))" using Suc.prems(3) by (simp add: take_Suc_conv_app_nth)
  have "ptrs ! n \<in># live_objs h c" using Suc.prems(4) unfolding s by (auto dest: mset_subset_eqD)
  then obtain h1 where 1: "dealloc_class x h (ptrs ! n) c = Some h1" "takes_back h h1 c {#ptrs ! n#}"
    using dealloc_class_ok [OF Suc.prems(1,2)] by blast
  then have "mset (take n ptrs) \<subseteq># live_objs h1 c" "heap_inv h1" using Suc.prems(4) unfolding s by (simp_all add: takes_back_def)
  then obtain h2 where "flush_slots x c ptrs n h1 = Some h2" "takes_back h1 h2 c (mset (take n ptrs))" using Suc.IH Suc.prems(2,3) by auto
  then show ?case using 1 takes_back_trans [OF 1(2)] Suc.prems(3) unfolding s by fastforce
qed

text \<open>\<open>flushed h h' tc\<close>: the sub-heap has taken back what the magazines of \<open>tc\<close> held.\<close>

definition flushed :: "sub_heap \<Rightarrow> sub_heap \<Rightarrow> (nat \<Rightarrow> nat multiset) \<Rightarrow> bool" where
  "flushed h h' M \<longleftrightarrow> heap_inv h' \<and> same_frame h h' \<and> (acct h \<longrightarrow> acct h') \<and>
     (\<forall>d. small_class d \<longrightarrow> live_objs h d = M d + live_objs h' d)"

lemma flush_classes_ok:
  assumes "heap_inv h" "tc_ok tc" "distinct cs" "\<forall>c\<in>set cs. c < NUM_CLASSES" "\<forall>c. small_class c \<longrightarrow> tc_objs tc c \<subseteq># live_objs h c"
  shows "\<exists>h' tc'. flush_classes x cs h tc = Some (h', tc') \<and> tc_ok tc' \<and>
    flushed h h' (\<lambda>c. if c \<in> set cs then tc_objs tc c else {#}) \<and> (\<forall>c. tc_objs tc' c = (if c \<in> set cs then {#} else tc_objs tc c))"
  using assms
proof (induction cs arbitrary: h tc)
  case Nil
  then show ?case by (simp add: flushed_def same_frame_def)
next
  case (Cons c cs)
  let ?m = "tc ! c"
  have m: "c < length tc" "mag_ok MAG_CAP ?m" using Cons.prems(2,4) by (simp_all add: tc_ok_def)
  let ?tc = "tc[c := ?m\<lparr>mag_len := 0\<rparr>]"
  have ok0: "mag_ok MAG_CAP (?m\<lparr>mag_len := 0\<rparr>)" using m(2) by (simp add: mag_ok_def)
  have tc1: "tc_ok ?tc" using Cons.prems(2) m ok0 set_update_subset_insert [of tc c "?m\<lparr>mag_len := 0\<rparr>"]
    by (auto simp: tc_ok_def nth_list_update)
  have o1: "tc_objs ?tc d = (if d = c then {#} else tc_objs tc d)" for d using m(1) by (simp add: tc_objs_def mag_objs_def)
  obtain h1 where h1: "flush_slots x c (mag_ptrs ?m) (mag_len ?m) h = Some h1"
    "flushed h h1 (\<lambda>d. if d = c then tc_objs tc c else {#})"
  proof (cases "c = 0")
    case True
    then have "mag_len ?m = 0" "tc_objs tc c = {#}" using Cons.prems(2) tc_objs_zero by (simp_all add: tc_ok_def)
    then show ?thesis using that [of h] Cons.prems(1) by (simp add: flushed_def same_frame_def)
  next
    case False
    then have sc: "small_class c" using Cons.prems(4) by (simp add: small_class_def)
    have "mset (take (mag_len ?m) (mag_ptrs ?m)) = tc_objs tc c" by (simp add: tc_objs_def mag_objs_def)
    then obtain h1 where "flush_slots x c (mag_ptrs ?m) (mag_len ?m) h = Some h1" and t: "takes_back h h1 c (tc_objs tc c)"
      using flush_slots_ok [OF Cons.prems(1) sc, of "mag_len ?m" "mag_ptrs ?m" x] Cons.prems(5) sc m(2) by (auto simp: mag_ok_def)
    moreover have "flushed h h1 (\<lambda>d. if d = c then tc_objs tc c else {#})"
      using t takes_back_acct [OF t sc] by (simp add: flushed_def takes_back_def)
    ultimately show ?thesis using that by blast
  qed
  have l1: "\<forall>d. small_class d \<longrightarrow> tc_objs ?tc d \<subseteq># live_objs h1 d"
    using h1(2) Cons.prems(5) unfolding o1 flushed_def by auto
  obtain h2 tc2 where 2: "flush_classes x cs h1 ?tc = Some (h2, tc2)" "tc_ok tc2"
    "flushed h1 h2 (\<lambda>d. if d \<in> set cs then tc_objs ?tc d else {#})" "\<forall>d. tc_objs tc2 d = (if d \<in> set cs then {#} else tc_objs ?tc d)"
    using Cons.IH [OF _ tc1 _ _ l1] h1(2) Cons.prems(3,4) by (auto simp: flushed_def)
  have "flushed h h2 (\<lambda>d. if d \<in> set (c # cs) then tc_objs tc d else {#})"
    using h1(2) 2(3) Cons.prems(3) same_frame_trans [of h h1 h2] unfolding flushed_def o1 by (auto simp: ac_simps)
  moreover have "flush_classes x (c # cs) h tc = Some (h2, tc2)" using m(1) h1(1) 2(1) by simp
  moreover have "\<forall>d. tc_objs tc2 d = (if d \<in> set (c # cs) then {#} else tc_objs tc d)" using 2(4) o1 by auto
  ultimately show ?case using 2(2) by blast
qed

lemma flush_all_ok:
  assumes "heap_inv h" "tc_ok tc" "\<forall>c. small_class c \<longrightarrow> tc_objs tc c \<subseteq># live_objs h c"
  shows "\<exists>h' tc'. flush_all x h tc = Some (h', tc') \<and> tc_ok tc' \<and> flushed h h' (tc_objs tc) \<and> (\<forall>c<NUM_CLASSES. tc_objs tc' c = {#})"
proof -
  obtain h' tc' where "flush_classes x [0..<NUM_CLASSES] h tc = Some (h', tc')" "tc_ok tc'"
    "flushed h h' (\<lambda>c. if c \<in> set [0..<NUM_CLASSES] then tc_objs tc c else {#})"
    "\<forall>c. tc_objs tc' c = (if c \<in> set [0..<NUM_CLASSES] then {#} else tc_objs tc c)"
    using flush_classes_ok [OF assms(1,2) _ _ assms(3), of "[0..<NUM_CLASSES]" x] by auto
  then show ?thesis by (auto simp: flush_all_def flushed_def small_class_def)
qed

subsection \<open>The order of a refill\<close>

primrec pops :: "nat \<Rightarrow> thread_cache \<Rightarrow> nat \<Rightarrow> (thread_cache \<times> nat list) rust" where
  "pops 0 tc c = Some (tc, [])"
| "pops (Suc n) tc c = do {
     (tc1, r) \<leftarrow> try_pop tc c;
     p \<leftarrow> r;
     (tc2, ps) \<leftarrow> pops n tc1 c;
     Some (tc2, p # ps)
   }"

lemma pops_rev:
  assumes "tc_ok tc" "small_class c" "mag_objs (tc ! c) = rev ps"
  shows "\<exists>tc'. pops (length ps) tc c = Some (tc', ps) \<and> try_pop tc' c = Some (tc', None)"
  using assms
proof (induction ps arbitrary: tc)
  case Nil
  then have "mag_len (tc ! c) = 0" using mag_objs_empty tc_mag by auto
  then show ?case using tc_mag [OF Nil(1,2)] by (simp add: try_pop_def)
next
  case (Cons p ps)
  note m = tc_mag [OF Cons.prems(1,2)]
  have "0 < mag_len (tc ! c)" using Cons.prems(3) m mag_objs_empty [of MAG_CAP "tc ! c"] by auto
  then obtain m' q where t: "mag_take (tc ! c) = Some (m', q)" "mag_ok MAG_CAP m'" "mag_objs (tc ! c) = mag_objs m' @ [q]"
    using mag_take_ok m by blast
  note u = tc_upd [OF Cons.prems(1,2) t(2)]
  have e: "q = p" "mag_objs m' = rev ps" using t(3) Cons.prems(3) by simp_all
  have "try_pop tc c = Some (tc[c := m'], Some p)" using m \<open>0 < mag_len (tc ! c)\<close> t(1) u(1) e(1) by (simp add: try_pop_def)
  moreover have "tc_ok (tc[c := m'])" "mag_objs (tc[c := m'] ! c) = rev ps" using u(2) m e(2) by (simp_all add: tc_chg_def)
  ultimately show ?case using Cons.IH [of "tc[c := m']"] Cons.prems(2) by auto
qed

text \<open>
  C23. A refill keeps the order of the batch: on an empty magazine it never panics, returns the
  first object that the sub-heap delivered, and the pops that follow return the others in the
  order of delivery, after which the magazine misses again. It returns nothing only when the
  arena is exhausted. For a class above 64 KiB the spans left in the arena must be whole objects
  of the class or enough for a full magazine (\<open>batch_room\<close>).
\<close>

theorem refill_in_order:
  assumes "heap_inv h" "small_class c" "batch_room h c MAG_CAP" "tc_ok tc" "tc_objs tc c = {#}"
  shows "\<exists>h' out. refill_batch x h c MAG_CAP = Some (h', out) \<and>
    (if out = [] then avail h = 0 \<and> (\<exists>tc'. tc_refill x h tc c = Some (h', tc', None))
     else \<exists>tc' tc''. tc_refill x h tc c = Some (h', tc', Some (hd out)) \<and> pops (length out - 1) tc' c = Some (tc'', tl out) \<and>
       try_pop tc'' c = Some (tc'', None))"
proof -
  note m = tc_mag [OF assms(4,2)]
  have z: "mag_len (tc ! c) = 0" using assms(5) m by (auto simp: tc_objs_def mag_ok_def mag_objs_def MAG_CAP_def)
  obtain h' out where 1: "refill_batch x h c MAG_CAP = Some (h', out)" "length out \<le> MAG_CAP" "out = [] \<longrightarrow> avail h = 0"
    using refill_batch_ok [OF assms(1-3), of x] by (auto simp: MAG_CAP_def)
  define m1 where m1: "m1 = (tc ! c)\<lparr>mag_ptrs := rev out @ drop (length out) (mag_ptrs (tc ! c)), mag_len := length out\<rparr>"
  have ok1: "mag_ok MAG_CAP m1" "mag_objs m1 = rev out" using 1(2) m by (auto simp: m1 mag_ok_def mag_objs_def)
  show ?thesis
  proof (cases out)
    case Nil
    note u = tc_upd [OF assms(4,2) ok1(1)]
    have "tc_refill x h tc c = Some (h', tc[c := m1], None)" using m z 1(1) Nil u(1) by (simp add: tc_refill_def mag_ok_def m1)
    then show ?thesis using 1 Nil by auto
  next
    case (Cons p ps)
    then have "0 < mag_len m1" by (simp add: m1)
    then obtain m2 q where 2: "mag_take m1 = Some (m2, q)" "mag_ok MAG_CAP m2" "mag_objs m1 = mag_objs m2 @ [q]"
      using mag_take_ok [OF ok1(1)] by blast
    have e: "q = p" "mag_objs m2 = rev ps" using 2(3) ok1(2) Cons by simp_all
    note u = tc_upd [OF assms(4,2) 2(2)]
    have r: "tc_refill x h tc c = Some (h', tc[c := m2], Some p)" using m z 1(1) Cons u(1) 2(1) e(1) by (simp add: tc_refill_def mag_ok_def m1)
    have "tc_ok (tc[c := m2])" "mag_objs (tc[c := m2] ! c) = rev ps" using u(2) m e(2) by (simp_all add: tc_chg_def)
    then obtain tc'' where "pops (length ps) (tc[c := m2]) c = Some (tc'', ps)" "try_pop tc'' c = Some (tc'', None)"
      using pops_rev [OF _ assms(2)] by blast
    then show ?thesis using 1(1) r Cons by (intro exI [of _ h'] exI [of _ out]) simp
  qed
qed

theorem refill_in_order_witness:
  "\<exists>h h' tc' p. build_at demo_builder 65536 = Some h \<and> tc_refill demo_ctx h cache_new 1 = Some (h', tc', Some p)"
proof -
  obtain h where h: "build_at demo_builder 65536 = Some h" "heap_inv h" "avail h = 16" using demo_heap by blast
  have e: "tc_objs cache_new 1 = {#}" by simp
  from refill_in_order [OF h(2) demo_class(1) batch_room_one [OF demo_class(2)] cache_new_ok(1) e, of demo_ctx] show ?thesis using h(1,3) by (auto split: if_splits)
qed

end
