(* ===== verification/Sub_Heap_Standalone.thy ===== *)
theory Sub_Heap_Standalone
  imports Sub_Heap_Props Reserve
begin

text \<open>
  A sub-heap with a reservation of its own: \<open>SubHeapBuilder::build_standalone\<close>
  (\<^verbatim>\<open>toccata-core/src/subheap.rs\<close>) reserves the per-CPU metadata and the budget and builds over it.
\<close>

definition reserve_bytes :: "builder \<Rightarrow> nat rust" where
  "reserve_bytes bl = do {
     (locs, block_bytes) \<leftarrow> block_layout (b_cap_per_class bl);
     Some (stride_for block_bytes * b_num_cpus bl + b_budget bl)
   }"

definition build_standalone :: "os \<Rightarrow> builder \<Rightarrow> (sys_event list \<times> (reserve_error + (sub_heap \<times> reservation))) rust" where
  "build_standalone k bl = do {
     n \<leftarrow> reserve_bytes bl;
     (t, r) \<leftarrow> reserve k n;
     case r of
       Inl e \<Rightarrow> Some (t, Inl e)
     | Inr res \<Rightarrow> do { h \<leftarrow> build_at bl (res_base res); Some (t, Inr (h, res)) }
   }"

lemma reserve_len: "reserve k n = Some (t, Inr v) \<Longrightarrow> res_len v = n"
  by (auto simp: reserve_def reserve_with_def opts_new_def choose_pages_def map_pages_def Let_def split: if_splits sum.splits bind_splits prod.splits)

lemma reserve_bytes_layout:
  "\<exists>locs bytes. block_layout (b_cap_per_class bl) = Some (locs, bytes) \<and> reserve_bytes bl = Some (stride_for bytes * b_num_cpus bl + b_budget bl)"
proof -
  obtain locs bytes where "block_layout (b_cap_per_class bl) = Some (locs, bytes)"
    using class_locs_some [of "[0..<NUM_CLASSES]"] unfolding block_layout_def by fastforce
  then show ?thesis by (simp add: reserve_bytes_def)
qed

text \<open>What a successful build gives: the arena follows the metadata and ends with the reservation.\<close>

lemma standalone_ok:
  assumes "build_standalone k bl = Some (t, Inr (h, res))" "build_ok bl (res_base res)"
  shows "heap_inv h" "acct h" "\<forall>c. live_objs h c = {#}" "run_spans (large h) = replicate (nsp h) 0" "budget_bytes h = b_budget bl"
    "res_base res \<le> hbase h" "hbase h + budget_bytes h = res_base res + res_len res" "avail h = b_budget bl div SPAN_BYTES"
    "build_at bl (res_base res) = Some h" "reserve_bytes bl = Some (res_len res)"
proof -
  obtain locs bytes where l: "block_layout (b_cap_per_class bl) = Some (locs, bytes)" "reserve_bytes bl = Some (stride_for bytes * b_num_cpus bl + b_budget bl)"
    using reserve_bytes_layout by blast
  have r: "reserve k (stride_for bytes * b_num_cpus bl + b_budget bl) = Some (t, Inr res)" and h: "build_at bl (res_base res) = Some h"
    using assms(1) l(2) by (auto simp: build_standalone_def split: bind_splits sum.splits)
  note len = reserve_len [OF r]
  show "build_at bl (res_base res) = Some h" "reserve_bytes bl = Some (res_len res)" using h l(2) len by simp_all
  have i: "heap_inv h" "\<forall>c. live_objs h c = {#}" "bsum h = 0" "osum h = 0" "budget_bytes h = b_budget bl" "run_spans (large h) = replicate (nsp h) 0"
    "avail h = b_budget bl div SPAN_BYTES" using build_at_ok [OF assms(2)] h by auto
  then show "heap_inv h" "\<forall>c. live_objs h c = {#}" "run_spans (large h) = replicate (nsp h) 0" "budget_bytes h = b_budget bl" "avail h = b_budget bl div SPAN_BYTES"
    by simp_all
  show "acct h" using i by (simp add: acct_def live_total_def live_count_def sum_list_replicate)
  have hb: "hbase h = res_base res + stride_for bytes * b_num_cpus bl" using h l(1) by (auto simp: build_at_def bitmaps_new_def Let_def split: bind_splits)
  then show "res_base res \<le> hbase h" "hbase h + budget_bytes h = res_base res + res_len res" using i(5) len by simp_all
qed

end
