(* ===== verification/Global_Alloc.thy ===== *)
theory Global_Alloc
  imports Thread_Cache Sub_Heap_Standalone
begin

text \<open>
  The process-wide allocator (\<^verbatim>\<open>toccata/src/lib.rs\<close>): the published sub-heap and its address range,
  the thread-local caches with their life cycle, and the four operations of \<open>GlobalAlloc\<close>. The system
  allocator, \<open>calloc\<close> and the kernel are parameters: every operation takes what they answer.
\<close>

subsection \<open>State\<close>

record layout =
  l_size :: nat
  l_align :: nat

text \<open>
  \<open>Tls\<close>: the only sub-heap a thread can resolve is the published one, so \<open>heap\<close> is the flag
  whether it is resolved. \<open>tls_ptr\<close> is the thread's \<open>TLS_PTR\<close>: null before the first access, then
  the storage; the thread-exit destructor frees the storage and leaves the pointer as it is.
\<close>

record tls =
  t_heap :: bool
  t_cache :: thread_cache

datatype tls_ptr = TlsNull | TlsLive tls | TlsFreed

record world =
  main :: "sub_heap option"
  pool_base :: nat
  pool_end :: nat
  tls_ptrs :: "tls_ptr list"

text \<open>What an operation meets: the context of the sub-heap, \<open>calloc\<close>, and \<open>System.alloc\<close>.\<close>

record genv =
  ge_ctx :: ctx
  ge_calloc :: bool
  ge_sys :: nat

definition world_new :: world where
  "world_new = \<lparr> main = None, pool_base = 0, pool_end = 0, tls_ptrs = [] \<rparr>"

definition in_pool :: "world \<Rightarrow> nat \<Rightarrow> bool" where
  "in_pool w a \<longleftrightarrow> pool_base w \<le> a \<and> a < pool_end w"

subsection \<open>Configuration\<close>

text \<open>A failed reservation panics at initialisation.\<close>

definition configure_with :: "os \<Rightarrow> builder \<Rightarrow> world \<Rightarrow> world rust" where
  "configure_with k bl w =
     (case main w of
        Some h \<Rightarrow> Some w
      | None \<Rightarrow> do {
          (t, r) \<leftarrow> build_standalone k bl;
          case r of
            Inl e \<Rightarrow> None
          | Inr (h, res) \<Rightarrow>
              Some (w\<lparr>main := Some h, pool_base := res_base res, pool_end := res_base res + res_len res\<rparr>)
        })"

definition configure :: "os \<Rightarrow> nat \<Rightarrow> nat \<Rightarrow> world \<Rightarrow> world rust" where
  "configure k default_cpus budget w = configure_with k (builder_new default_cpus budget) w"

record heap_stats =
  st_live_bytes :: nat
  st_live_objects :: nat
  st_carved_bytes :: nat
  st_budget_bytes :: nat

definition stats :: "world \<Rightarrow> heap_stats option" where
  "stats w = map_option (\<lambda>h. \<lparr> st_live_bytes = live_bytes h, st_live_objects = live_objects h,
     st_carved_bytes = sh_carved_bytes h, st_budget_bytes = budget_bytes h \<rparr>) (main w)"

subsection \<open>Thread-local state\<close>

definition tls_new :: tls where
  "tls_new = \<lparr> t_heap = False, t_cache = cache_new \<rparr>"

definition tls_heap :: "world \<Rightarrow> tls \<Rightarrow> tls \<times> sub_heap option" where
  "tls_heap w t =
     (let t' = (if \<not> t_heap t \<and> main w \<noteq> None then t\<lparr>t_heap := True\<rparr> else t)
      in (t', if t_heap t' then main w else None))"

definition tls_flush :: "ctx \<Rightarrow> world \<Rightarrow> tls \<Rightarrow> (world \<times> tls) rust" where
  "tls_flush x w t =
     (case (if t_heap t then main w else None) of
        None \<Rightarrow> Some (w, t)
      | Some h \<Rightarrow> do {
          (h', tc) \<leftarrow> flush_all x h (t_cache t);
          Some (w\<lparr>main := Some h'\<rparr>, t\<lparr>t_cache := tc\<rparr>)
        })"

text \<open>
  \<open>with_tls\<close> runs its closure on the thread's storage, which it first creates when there is none; a
  transient one serves when \<open>calloc\<close> fails. Using freed storage is undefined behaviour.
\<close>

definition with_tls ::
  "genv \<Rightarrow> nat \<Rightarrow> (world \<Rightarrow> tls \<Rightarrow> (world \<times> tls \<times> 'r) rust) \<Rightarrow> world \<Rightarrow> (world \<times> 'r) rust" where
  "with_tls e th f w = do {
     p \<leftarrow> idx (tls_ptrs w) th;
     case p of
       TlsFreed \<Rightarrow> None
     | TlsLive t \<Rightarrow> do {
         (w', t', r) \<leftarrow> f w t;
         ps \<leftarrow> upd (tls_ptrs w') th (TlsLive t');
         Some (w'\<lparr>tls_ptrs := ps\<rparr>, r)
       }
     | TlsNull \<Rightarrow> do {
         (w', t', r) \<leftarrow> f w tls_new;
         if ge_calloc e then do {
           ps \<leftarrow> upd (tls_ptrs w') th (TlsLive t');
           Some (w'\<lparr>tls_ptrs := ps\<rparr>, r)
         } else Some (w', r)
       }
   }"

definition on_thread_exit :: "ctx \<Rightarrow> nat \<Rightarrow> world \<Rightarrow> world rust" where
  "on_thread_exit x th w = do {
     p \<leftarrow> idx (tls_ptrs w) th;
     case p of
       TlsNull \<Rightarrow> Some w
     | TlsFreed \<Rightarrow> None
     | TlsLive t \<Rightarrow> do {
         (w', t') \<leftarrow> tls_flush x w t;
         ps \<leftarrow> upd (tls_ptrs w') th TlsFreed;
         Some (w'\<lparr>tls_ptrs := ps\<rparr>)
       }
   }"

subsection \<open>Allocation\<close>

text \<open>What \<open>alloc\<close> comes to; an abort carries the bytes written to standard error.\<close>

datatype served = Dangling nat | FromPool nat | FromSystem nat | Aborted "nat list"

definition EXHAUSTED :: string where
  "EXHAUSTED = ''global sub-heap budget exhausted''"

definition OVERALIGNED :: string where
  "OVERALIGNED = ''alignment exceeds span size''"

definition oom_backpressure :: "layout \<Rightarrow> string \<Rightarrow> served rust" where
  "oom_backpressure l why = do {
     (b, digits) \<leftarrow> usize_to_dec (l_size l) (replicate 20 0);
     Some (Aborted (bytes_of ''toccata: allocation failed (backpressure abort): '' @ bytes_of why @
       bytes_of '' [size='' @ digits @ [93, 10]))
   }"

definition granted :: "layout \<Rightarrow> nat option \<Rightarrow> served rust" where
  "granted l r = (case r of Some p \<Rightarrow> Some (FromPool p) | None \<Rightarrow> oom_backpressure l EXHAUSTED)"

text \<open>The miss of a magazine: resolve the sub-heap, or serve from the system before configuration.\<close>

definition miss :: "genv \<Rightarrow> layout \<Rightarrow> nat \<Rightarrow> world \<Rightarrow> tls \<Rightarrow> (world \<times> tls \<times> served) rust" where
  "miss e l cls w t =
     (let (t1, hp) = tls_heap w t in
      case hp of
        None \<Rightarrow> Some (w, t1, FromSystem (ge_sys e))
      | Some h \<Rightarrow> do {
          (h', tc, r) \<leftarrow> tc_refill (ge_ctx e) h (t_cache t1) cls;
          s \<leftarrow> granted l r;
          Some (w\<lparr>main := Some h'\<rparr>, t1\<lparr>t_cache := tc\<rparr>, s)
        })"

definition pop_or_miss :: "genv \<Rightarrow> layout \<Rightarrow> nat \<Rightarrow> world \<Rightarrow> tls \<Rightarrow> (world \<times> tls \<times> served) rust" where
  "pop_or_miss e l cls w t = do {
     (tc, r) \<leftarrow> try_pop (t_cache t) cls;
     case r of
       Some p \<Rightarrow> Some (w, t\<lparr>t_cache := tc\<rparr>, FromPool p)
     | None \<Rightarrow> miss e l cls w (t\<lparr>t_cache := tc\<rparr>)
   }"

definition alloc_large_smallclass :: "genv \<Rightarrow> nat \<Rightarrow> nat \<Rightarrow> layout \<Rightarrow> world \<Rightarrow> (world \<times> served) rust" where
  "alloc_large_smallclass e th cls l w = do {
     osz \<leftarrow> size_of_class cls;
     with_tls e th (\<lambda>w t. do {
       (tc, r, hints) \<leftarrow> alloc_prefetch (t_cache t) cls osz;
       case r of
         Some p \<Rightarrow> Some (w, t\<lparr>t_cache := tc\<rparr>, FromPool p)
       | None \<Rightarrow> miss e l cls w (t\<lparr>t_cache := tc\<rparr>)
     }) w
   }"

definition alloc_cold :: "genv \<Rightarrow> layout \<Rightarrow> nat \<Rightarrow> world \<Rightarrow> tls \<Rightarrow> (world \<times> tls \<times> served) rust" where
  "alloc_cold e l need w t =
     (let (t1, hp) = tls_heap w t in
      case hp of
        None \<Rightarrow> Some (w, t1, FromSystem (ge_sys e))
      | Some h \<Rightarrow>
          if MAX_SMALL < need \<and> SPAN_BYTES < l_align l then do {
            s \<leftarrow> oom_backpressure l OVERALIGNED;
            Some (w, t1, s)
          }
          else do {
            (h', r) \<leftarrow> (if MAX_SMALL < need then alloc_large (ge_ctx e) h need
                        else do {
                          ac \<leftarrow> aligned_class need (l_align l);
                          case ac of Some c \<Rightarrow> alloc_class (ge_ctx e) h c | None \<Rightarrow> alloc_large (ge_ctx e) h need
                        });
            s \<leftarrow> granted l r;
            Some (w\<lparr>main := Some h'\<rparr>, t1, s)
          })"

text \<open>\<open>class_of(need).unwrap()\<close> panics on \<open>None\<close>.\<close>

definition g_alloc :: "genv \<Rightarrow> nat \<Rightarrow> layout \<Rightarrow> world \<Rightarrow> (world \<times> served) rust" where
  "g_alloc e th l w =
     (if l_size l = 0 then Some (w, Dangling (l_align l))
      else let need = max (l_size l) (l_align l) in
        if need \<le> MAX_SMALL \<and> l_align l \<le> MIN_ALIGN then do {
          co \<leftarrow> class_of need;
          cls \<leftarrow> co;
          if 1024 \<le> need then alloc_large_smallclass e th cls l w
          else with_tls e th (pop_or_miss e l cls) w
        }
        else with_tls e th (alloc_cold e l need) w)"

text \<open>\<open>alloc_zeroed\<close> adds the range of bytes it clears.\<close>

definition g_alloc_zeroed :: "genv \<Rightarrow> nat \<Rightarrow> layout \<Rightarrow> world \<Rightarrow> (world \<times> served \<times> (nat \<times> nat) option) rust" where
  "g_alloc_zeroed e th l w = do {
     (w', s) \<leftarrow> g_alloc e th l w;
     let p = (case s of Dangling p \<Rightarrow> p | FromPool p \<Rightarrow> p | FromSystem p \<Rightarrow> p | Aborted bs \<Rightarrow> 0);
     Some (w', s, if p = 0 then None else Some (p, l_size l))
   }"

subsection \<open>Release\<close>

text \<open>The result says whether the pointer went to the system allocator.\<close>

definition by_ptr :: "genv \<Rightarrow> nat \<Rightarrow> world \<Rightarrow> world rust" where
  "by_ptr e ptr w =
     (case main w of
        None \<Rightarrow> Some w
      | Some h \<Rightarrow> do { (h', ok) \<leftarrow> dealloc_by_ptr (ge_ctx e) h ptr; Some (w\<lparr>main := Some h'\<rparr>) })"

definition g_dealloc :: "genv \<Rightarrow> nat \<Rightarrow> nat \<Rightarrow> layout \<Rightarrow> world \<Rightarrow> (world \<times> bool) rust" where
  "g_dealloc e th ptr l w =
     (if l_size l = 0 then Some (w, False)
      else if \<not> in_pool w ptr then Some (w, True)
      else let need = max (l_size l) (l_align l) in
        if need \<le> MAX_SMALL \<and> l_align l \<le> MIN_ALIGN then do {
          co \<leftarrow> class_of need;
          cls \<leftarrow> co;
          with_tls e th (\<lambda>w t.
            let (t1, hp) = tls_heap w t in
            case hp of
              Some h \<Rightarrow> do {
                (h', tc) \<leftarrow> tc_free (ge_ctx e) h (t_cache t1) ptr cls;
                Some (w\<lparr>main := Some h'\<rparr>, t1\<lparr>t_cache := tc\<rparr>, False)
              }
            | None \<Rightarrow> do { w' \<leftarrow> by_ptr e ptr w; Some (w', t1, False) }) w
        }
        else with_tls e th (\<lambda>w t.
          let (t1, hp) = tls_heap w t in
          do { w' \<leftarrow> by_ptr e ptr w; Some (w', t1, False) }) w)"

end
