(* ===== verification/Global_Ledger.thy ===== *)
theory Global_Ledger
  imports Global_Alloc
begin

text \<open>
  What the program holds and what the pool, the thread caches and the system owe it: the ledger of
  the blocks handed out, the balance of the objects of the sub-heap, and the closures that an
  allocation runs on the storage of its thread, which keep the balance.
\<close>

subsection \<open>Release by address\<close>

lemma lookup_class:
  assumes "hinv h ls" "hbase h \<le> p" "p < hbase h + budget_bytes h" "class_at h ((p - hbase h) div 65536) = c" "c \<noteq> 0" "c < 2 ^ 16"
  shows "\<exists>home. lookup (span_tab h) p = Some (Some (c, home))"
proof -
  have s: "st_shape (span_tab h)" "st_base (span_tab h) = hbase h" "st_len (span_tab h) = budget_bytes h"
    using hinv_parts(1) [OF assms(1)] by (simp_all add: geom_def)
  then show ?thesis using lookup_entry [of "span_tab h" p] assms(2-6) by (auto simp: unpack_def class_at_def as_u16_def)
qed

lemma dealloc_by_ptr_object:
  assumes hi: "heap_inv h" and c: "small_class c" and p: "p \<in># live_objs h c"
  shows "\<exists>h'. dealloc_by_ptr x h p = Some (h', True) \<and> dealloc_class x h p c = Some h' \<and> takes_back h h' c {#p#}"
proof -
  obtain ls where h: "hinv h ls" "sinv h" using hi by (auto simp: heap_inv_def)
  have "live_block h (p, CLASS_SIZES ! c)" using c p by (auto simp: live_block_def)
  note b = block_bounds [OF hi this]
  obtain k where k: "k \<in> tiles h c" "p = addr (hbase h) c k" using live_in_tiles [OF h(1) c p] by blast
  then have "class_at h ((p - hbase h) div 65536) = c" using addr_decode(1) [OF c, of k "hbase h"] by (auto simp: tiles_def)
  then obtain home where "lookup (span_tab h) p = Some (Some (c, home))"
    using lookup_class [OF h(1), of p c] b c by (auto simp: small_class_def)
  moreover obtain h' where "dealloc_class x h p c = Some h'" "takes_back h h' c {#p#}" using dealloc_class_ok [OF hi c p] by blast
  ultimately show ?thesis using c by (simp add: dealloc_by_ptr_def small_class_def LARGE_CLASS_def)
qed

lemma dealloc_by_ptr_run:
  assumes hi: "heap_inv h" and a: "a < nsp h" "0 < run_spans (large h) ! a"
  shows "\<exists>h'. dealloc_by_ptr x h (hbase h + a * SPAN_BYTES) = Some (h', True) \<and> run_returned h h' a (run_spans (large h) ! a)"
proof -
  obtain ls where h: "hinv h ls" "sinv h" using hi by (auto simp: heap_inv_def)
  let ?p = "hbase h + a * 65536"
  have "live_block h (?p, run_spans (large h) ! a * 65536)" using a by (auto simp: live_block_def)
  note b = block_bounds [OF hi this]
  have "class_at h ((?p - hbase h) div 65536) = LARGE_CLASS" using h(2) a by (simp add: sinv_def arena_ok_def tags_ok_def)
  moreover have "hbase h \<le> ?p" "?p < hbase h + budget_bytes h" "LARGE_CLASS \<noteq> 0" "LARGE_CLASS < 2 ^ 16" using b a(2) by (simp_all add: LARGE_CLASS_def)
  ultimately obtain home where "lookup (span_tab h) ?p = Some (Some (LARGE_CLASS, home))" using lookup_class [OF h(1)] by blast
  moreover obtain h' where "dealloc_large x h (hbase h + a * SPAN_BYTES) = Some h'" "run_returned h h' a (run_spans (large h) ! a)"
    using dealloc_large_ok [OF hi a(1), of x] a(2) by auto
  ultimately show ?thesis by (simp add: dealloc_by_ptr_def)
qed

subsection \<open>What serves a layout\<close>

definition l_need :: "layout \<Rightarrow> nat" where
  "l_need l = max (l_size l) (l_align l)"

definition blk_class :: "layout \<Rightarrow> nat option" where
  "blk_class l =
     (if MAX_SMALL < l_need l then None
      else if l_align l \<le> MIN_ALIGN then class_for (l_need l)
      else case aligned_class (l_need l) (l_align l) of None \<Rightarrow> None | Some r \<Rightarrow> r)"

definition blk_bytes :: "layout \<Rightarrow> nat" where
  "blk_bytes l = (case blk_class l of Some c \<Rightarrow> CLASS_SIZES ! c | None \<Rightarrow> large_count (l_need l) * SPAN_BYTES)"

text \<open>
  Layouts as Rust makes them: a power-of-two alignment, here of a positive size that the 32-bit
  span counts hold (a request of size 0 takes nothing from the allocator).
\<close>

definition layout_ok :: "layout \<Rightarrow> bool" where
  "layout_ok l \<longleftrightarrow> 0 < l_size l \<and> (\<exists>k. l_align l = 2 ^ k) \<and> l_need l < 2 ^ 47"

text \<open>
  A request of a class above 64 KiB that cannot meet the short group at the end of the arena: with
  the default alignment a miss fetches a full magazine, with a larger one a single object. Every
  other request is servable.
\<close>

definition servable :: "sub_heap option \<Rightarrow> layout \<Rightarrow> bool" where
  "servable mh l \<longleftrightarrow> (case (mh, blk_class l) of
       (Some h, Some c) \<Rightarrow> if l_align l \<le> MIN_ALIGN then batch_room h c MAG_CAP else carvable h c
     | _ \<Rightarrow> True)"

lemma servable_one: "blk_class l = Some c \<Longrightarrow> gsp c = 1 \<Longrightarrow> servable mh l"
  by (simp add: servable_def batch_room_one carvable_def split: option.split)

lemma servable_large: "blk_class l = None \<Longrightarrow> servable mh l"
  by (simp add: servable_def split: option.split)

lemma blk_class_small: "blk_class l = Some c \<Longrightarrow> 0 < l_align l \<Longrightarrow> small_class c \<and> l_need l \<le> CLASS_SIZES ! c"
proof -
  assume b: "blk_class l = Some c" and a: "0 < l_align l"
  show ?thesis
  proof (cases "l_align l \<le> MIN_ALIGN")
    case True
    then have "class_for (l_need l) = Some c" using b by (simp add: blk_class_def split: if_splits)
    then show ?thesis by (auto simp: class_for_iff small_class_def)
  next
    case False
    obtain r where "aligned_class (l_need l) (l_align l) = Some r"
      "\<forall>c. r = Some c \<longrightarrow> 0 < c \<and> c < 49 \<and> l_need l \<le> CLASS_SIZES ! c"
      using aligned_class_spec [OF a, of "l_need l"] by blast
    then show ?thesis using b False by (auto simp: blk_class_def small_class_def split: if_splits)
  qed
qed

lemma blk_bytes_enough: "0 < l_align l \<Longrightarrow> l_size l \<le> blk_bytes l"
proof -
  assume a: "0 < l_align l"
  have "l_need l \<le> large_count (l_need l) * 65536"
    using div_ceil_mult_ge [of 65536 "l_need l"] by (simp add: large_count_def max_def)
  moreover have "l_size l \<le> l_need l" by (simp add: l_need_def)
  ultimately show ?thesis using blk_class_small [OF _ a] by (force simp: blk_bytes_def split: option.split)
qed

subsection \<open>The ledger\<close>

text \<open>
  What the program holds: the blocks handed out and not yet returned. A block of the pool is an
  object of a class or a run of spans.
\<close>

type_synonym ledger = "(nat \<times> layout) multiset"

definition owed :: "ledger \<Rightarrow> nat \<Rightarrow> nat multiset" where
  "owed B c = image_mset fst (filter_mset (\<lambda>b. blk_class (snd b) = Some c) B)"

definition runs_of :: "ledger \<Rightarrow> ledger" where
  "runs_of B = filter_mset (\<lambda>b. blk_class (snd b) = None) B"

definition run_starts :: "sub_heap \<Rightarrow> nat multiset" where
  "run_starts h = image_mset (\<lambda>a. hbase h + a * SPAN_BYTES) (mset_set {a. a < nsp h \<and> 0 < run_spans (large h) ! a})"

definition run_block :: "sub_heap \<Rightarrow> nat \<times> layout \<Rightarrow> bool" where
  "run_block h b \<longleftrightarrow> (\<exists>a<nsp h. fst b = hbase h + a * SPAN_BYTES \<and> run_spans (large h) ! a = large_count (l_need (snd b))) \<and>
     l_align (snd b) \<le> SPAN_BYTES"

text \<open>The objects of the sub-heap are the cached ones, those of the ledger and the lost ones.\<close>

definition heap_books :: "sub_heap \<Rightarrow> (nat \<Rightarrow> nat multiset) \<Rightarrow> ledger \<Rightarrow> (nat \<Rightarrow> nat multiset) \<Rightarrow> bool" where
  "heap_books h C B L \<longleftrightarrow> heap_inv h \<and> acct h \<and> (\<forall>c. small_class c \<longrightarrow> live_objs h c = C c + owed B c + L c) \<and>
     image_mset fst (runs_of B) = run_starts h \<and> (\<forall>b\<in>#runs_of B. run_block h b) \<and> (\<forall>b\<in>#B. layout_ok (snd b))"

lemma owed_add [simp]: "owed (add_mset (p, l) B) c = (if blk_class l = Some c then add_mset p (owed B c) else owed B c)"
  by (simp add: owed_def)

lemma runs_add [simp]: "runs_of (add_mset (p, l) B) = (if blk_class l = None then add_mset (p, l) (runs_of B) else runs_of B)"
  by (simp add: runs_of_def)

lemma ledger_split: "b \<in># B \<Longrightarrow> B = add_mset b (B - {#b#})"
  by simp

lemma run_starts_frame: "same_frame h h' \<Longrightarrow> run_starts h' = run_starts h \<and> run_block h' = run_block h"
  by (simp add: same_frame_def run_starts_def run_block_def fun_eq_iff)

lemma books_frame:
  assumes "heap_books h C B L" "heap_inv h'" "acct h'" "same_frame h h'" "runs_of B' = runs_of B" "\<forall>b\<in>#B'. layout_ok (snd b)"
    and "\<And>d. small_class d \<Longrightarrow> live_objs h' d = C' d + owed B' d + L' d"
  shows "heap_books h' C' B' L'"
  using assms run_starts_frame [OF assms(4)] by (simp add: heap_books_def)

lemma run_starts_once: "count (run_starts h) p \<le> 1"
proof -
  have "inj_on (\<lambda>a. hbase h + a * SPAN_BYTES) {a. a < nsp h \<and> 0 < run_spans (large h) ! a}" by (auto simp: inj_on_def)
  then show ?thesis unfolding run_starts_def
    by (simp add: image_mset_mset_set count_mset_set')
qed

lemma run_set_upd:
  assumes "a < nsp h" "length (run_spans (large h)) = nsp h" "0 < n"
  shows "{i. i < nsp h \<and> 0 < (run_spans (large h))[a := n] ! i} = insert a {i. i < nsp h \<and> 0 < run_spans (large h) ! i}"
    "{i. i < nsp h \<and> 0 < (run_spans (large h))[a := 0] ! i} = {i. i < nsp h \<and> 0 < run_spans (large h) ! i} - {a}"
  using assms by (auto simp: nth_list_update)

lemma books_run_granted:
  assumes b: "heap_books h C B L" and g: "run_granted h h' a (large_count (l_need l))" and l: "layout_ok l" "blk_class l = None" "l_align l \<le> SPAN_BYTES"
  shows "heap_books h' C (add_mset (hbase h + a * SPAN_BYTES, l) B) L"
proof -
  let ?n = "large_count (l_need l)" and ?R = "{i. i < nsp h \<and> 0 < run_spans (large h) ! i}"
  have n: "0 < ?n" by (simp add: large_count_def)
  have hi: "heap_inv h" "acct h" using b by (simp_all add: heap_books_def)
  have len: "length (run_spans (large h)) = nsp h" using run_len [OF hi(1)] .
  have e: "heap_inv h'" "live_objs h' = live_objs h" "nsp h' = nsp h" "hbase h' = hbase h" "a + ?n \<le> nsp h" "run_spans (large h) ! a = 0"
    "run_spans (large h') = (run_spans (large h))[a := ?n]" using g by (simp_all add: run_granted_def)
  have a: "a < nsp h" "a \<notin> ?R" using e(5,6) n by auto
  have "acct h'" using run_granted_acct [OF g n hi(2)] a len by simp
  moreover have "run_starts h' = add_mset (hbase h + a * SPAN_BYTES) (run_starts h)"
    unfolding run_starts_def e(3,4,7) run_set_upd(1) [OF a(1) len n] using a(2) by simp
  moreover have "run_block h' x" if "run_block h x" for x
    using that a e(6) n unfolding run_block_def e(3,4,7) by (metis less_numeral_extra(3) nth_list_update_neq large_count_def max.strict_coboundedI2 less_one)
  moreover have "run_block h' (hbase h + a * SPAN_BYTES, l)" using a(1) len l(3) unfolding run_block_def e(3,4,7) by (auto intro!: exI [of _ a])
  ultimately show ?thesis using b l e(1,2) by (auto simp: heap_books_def)
qed

lemma books_run_returned:
  assumes b: "heap_books h C B L" and x: "(hbase h + a * SPAN_BYTES, l) \<in># B" "blk_class l = None" "a < nsp h" "run_spans (large h) ! a = n"
    and g: "run_returned h h' a n"
  shows "heap_books h' C (B - {#(hbase h + a * SPAN_BYTES, l)#}) L"
proof -
  let ?p = "hbase h + a * SPAN_BYTES" and ?R = "{i. i < nsp h \<and> 0 < run_spans (large h) ! i}"
  let ?B = "B - {#(?p, l)#}"
  have B: "B = add_mset (?p, l) ?B" using ledger_split [OF x(1)] .
  have hi: "heap_inv h" "acct h" using b by (simp_all add: heap_books_def)
  have len: "length (run_spans (large h)) = nsp h" using run_len [OF hi(1)] .
  have rs: "add_mset ?p (image_mset fst (runs_of ?B)) = run_starts h"
    using b x(2) unfolding heap_books_def by (subst (asm) B) (simp del: insert_DiffM)
  have "?p \<in># run_starts h" by (simp add: flip: rs)
  then have n: "0 < n" "a \<in> ?R" using x(3,4) by (auto simp: run_starts_def)
  have once: "?p \<notin># image_mset fst (runs_of ?B)"
    using run_starts_once [of h ?p] unfolding rs [symmetric] by (simp flip: count_eq_zero_iff del: set_image_mset)
  have e: "heap_inv h'" "live_objs h' = live_objs h" "nsp h' = nsp h" "hbase h' = hbase h" "run_spans (large h') = (run_spans (large h))[a := 0]"
    using g by (simp_all add: run_returned_def)
  have "acct h'" using run_returned_acct [OF g _ n(1) hi(2)] x(3,4) len by simp
  moreover have "add_mset ?p (run_starts h') = run_starts h"
    unfolding run_starts_def e(3,4,5) run_set_upd(2) [OF x(3) len zero_less_one] using n(2)
    by (simp add: mset_set.remove [of _ a])
  then have "image_mset fst (runs_of ?B) = run_starts h'" using rs by (metis add_mset_add_mset_same_iff)
  moreover have "run_block h' y" if "y \<in># runs_of ?B" for y
  proof -
    have "y \<in># runs_of B" using that by (auto simp: runs_of_def dest: in_diffD)
    then obtain i where i: "i < nsp h" "fst y = hbase h + i * SPAN_BYTES" "run_spans (large h) ! i = large_count (l_need (snd y))" "l_align (snd y) \<le> SPAN_BYTES"
      using b by (auto simp: heap_books_def run_block_def)
    have "i \<noteq> a" using once that i(2) by force
    then show ?thesis using i unfolding run_block_def e(3,4,5) by (auto intro!: exI [of _ i])
  qed
  moreover have "owed ?B c = owed B c" for c using x(2) by (subst (2) B) simp
  moreover have "\<forall>y\<in>#?B. layout_ok (snd y)" using b by (auto simp: heap_books_def dest: in_diffD)
  ultimately show ?thesis using b e(1,2) by (simp add: heap_books_def)
qed

subsection \<open>The caches of the threads\<close>

primrec tls_objs :: "tls_ptr \<Rightarrow> nat \<Rightarrow> nat multiset" where
  "tls_objs TlsNull c = {#}"
| "tls_objs (TlsLive t) c = tc_objs (t_cache t) c"
| "tls_objs TlsFreed c = {#}"

definition cached :: "tls_ptr list \<Rightarrow> nat \<Rightarrow> nat multiset" where
  "cached ps c = (\<Sum>p\<leftarrow>ps. tls_objs p c)"

text \<open>A thread that has not resolved the sub-heap has nothing cached.\<close>

definition tls_ok :: "bool \<Rightarrow> tls \<Rightarrow> bool" where
  "tls_ok configured t \<longleftrightarrow> tc_ok (t_cache t) \<and> (t_heap t \<longrightarrow> configured) \<and> (\<not> t_heap t \<longrightarrow> (\<forall>c. small_class c \<longrightarrow> tc_objs (t_cache t) c = {#}))"

definition ptr_ok :: "bool \<Rightarrow> tls_ptr \<Rightarrow> bool" where
  "ptr_ok configured p \<longleftrightarrow> (\<forall>t. p = TlsLive t \<longrightarrow> tls_ok configured t)"

lemma cached_upd: "th < length ps \<Longrightarrow> cached (ps[th := p]) c = tls_objs p c + cached (ps[th := TlsNull]) c"
proof (induction ps arbitrary: th)
  case (Cons q ps)
  then show ?case by (cases th) (simp_all add: cached_def ac_simps)
qed simp

lemma cached_split: "th < length ps \<Longrightarrow> cached ps c = tls_objs (ps ! th) c + cached (ps[th := TlsNull]) c"
  using cached_upd [of th ps "ps ! th" c] by simp

lemma tls_new_ok: "tls_ok b tls_new" "small_class c \<Longrightarrow> tc_objs (t_cache tls_new) c = {#}"
  using cache_new_ok by (simp_all add: tls_ok_def tls_new_def small_class_def del: NUM_CLASSES_eq)

subsection \<open>Invariant\<close>

definition books :: "world \<Rightarrow> (nat \<Rightarrow> nat multiset) \<Rightarrow> ledger \<Rightarrow> (nat \<Rightarrow> nat multiset) \<Rightarrow> bool" where
  "books w C B L \<longleftrightarrow>
     (case main w of
        None \<Rightarrow> pool_base w = 0 \<and> pool_end w = 0 \<and> B = {#} \<and> (\<forall>c. small_class c \<longrightarrow> C c = {#} \<and> L c = {#})
      | Some h \<Rightarrow> heap_books h C B L \<and> pool_base w \<le> hbase h \<and> hbase h + budget_bytes h \<le> pool_end w)"

text \<open>The state while the closure of \<open>with_tls\<close> runs on the storage \<open>t\<close> of thread \<open>th\<close>.\<close>

definition opened :: "nat \<Rightarrow> world \<Rightarrow> tls \<Rightarrow> ledger \<Rightarrow> (nat \<Rightarrow> nat multiset) \<Rightarrow> bool" where
  "opened th w t B L \<longleftrightarrow> books w (\<lambda>c. tc_objs (t_cache t) c + cached ((tls_ptrs w)[th := TlsNull]) c) B L \<and> tls_ok (main w \<noteq> None) t"

definition same_pool :: "world \<Rightarrow> world \<Rightarrow> bool" where
  "same_pool w w' \<longleftrightarrow> tls_ptrs w' = tls_ptrs w \<and> pool_base w' = pool_base w \<and> pool_end w' = pool_end w \<and> (main w' = None \<longleftrightarrow> main w = None)"

lemma same_pool_refl [simp]: "same_pool w w"
  by (simp add: same_pool_def)

lemma same_pool_main [simp]: "main w = Some h \<Longrightarrow> same_pool w (w\<lparr>main := Some h'\<rparr>)"
  by (simp add: same_pool_def)

definition starved :: "world \<Rightarrow> layout \<Rightarrow> bool" where
  "starved w l \<longleftrightarrow> (\<exists>h. main w = Some h \<and>
     (case blk_class l of Some c \<Rightarrow> avail h = 0 | None \<Rightarrow> SPAN_BYTES < l_align l \<or> \<not> run_fits h (large_count (l_need l))))"

text \<open>What a closure of \<open>alloc\<close> promises.\<close>

definition serves :: "genv \<Rightarrow> nat \<Rightarrow> layout \<Rightarrow> ledger \<Rightarrow> (nat \<Rightarrow> nat multiset) \<Rightarrow> world \<Rightarrow> world \<Rightarrow> tls \<Rightarrow> served \<Rightarrow> bool" where
  "serves e th l B L w w' t' s \<longleftrightarrow> same_pool w w' \<and>
     (case s of
        FromPool p \<Rightarrow> opened th w' t' (add_mset (p, l) B) L \<and> main w \<noteq> None
      | FromSystem p \<Rightarrow> p = ge_sys e \<and> main w = None \<and> opened th w' t' B L
      | Aborted bs \<Rightarrow> opened th w' t' B L \<and> starved w l
      | Dangling p \<Rightarrow> False)"

lemma tls_heap_ok:
  assumes "tls_ok (main w \<noteq> None) t"
  shows "\<exists>t'. tls_heap w t = (t', main w) \<and> t_cache t' = t_cache t \<and> tls_ok (main w \<noteq> None) t' \<and> (main w \<noteq> None \<longrightarrow> t_heap t')"
  using assms by (cases "main w"; cases "t_heap t") (auto simp: tls_heap_def tls_ok_def)

lemma opened_cache: "opened th w t B L \<Longrightarrow> t_cache t' = t_cache t \<Longrightarrow> tls_ok (main w \<noteq> None) t' \<Longrightarrow> opened th w t' B L"
  by (simp add: opened_def)

lemma oom_total: "l_size l < 2 ^ 64 \<Longrightarrow> \<exists>bs. oom_backpressure l why = Some (Aborted bs)"
  using usize_to_dec_ok [of "l_size l" "replicate 20 0"] by (auto simp: oom_backpressure_def)

text \<open>A heap operation of class \<open>c\<close> between two opened states.\<close>

lemma opened_heap:
  assumes o: "opened th w t B L" and m: "main w = Some h" and t': "tls_ok True t'" and c: "small_class c"
    and cc: "\<forall>d. d \<noteq> c \<longrightarrow> tc_objs (t_cache t') d = tc_objs (t_cache t) d"
    and h': "heap_inv h'" "acct h'" "same_frame h h'" "\<forall>d. small_class d \<and> d \<noteq> c \<longrightarrow> live_objs h' d = live_objs h d"
    and B: "runs_of B' = runs_of B" "\<forall>b\<in>#B'. layout_ok (snd b)" "\<forall>d. d \<noteq> c \<longrightarrow> owed B' d = owed B d"
    and bal: "live_objs h' c + tc_objs (t_cache t) c + owed B c = live_objs h c + tc_objs (t_cache t') c + owed B' c"
  shows "opened th (w\<lparr>main := Some h'\<rparr>) t' B' L"
proof -
  let ?O = "cached ((tls_ptrs w)[th := TlsNull])"
  have b: "heap_books h (\<lambda>c. tc_objs (t_cache t) c + ?O c) B L" "pool_base w \<le> hbase h" "hbase h + budget_bytes h \<le> pool_end w"
    using o m by (simp_all add: opened_def books_def)
  have l: "live_objs h d = tc_objs (t_cache t) d + ?O d + owed B d + L d" if "small_class d" for d using b(1) that by (simp add: heap_books_def)
  have "live_objs h' d = tc_objs (t_cache t') d + ?O d + owed B' d + L d" if "small_class d" for d
  proof (cases "d = c")
    case True
    have "live_objs h' c + (tc_objs (t_cache t) c + owed B c) = tc_objs (t_cache t') c + ?O c + owed B' c + L c + (tc_objs (t_cache t) c + owed B c)"
      using bal l [OF c] by (simp add: ac_simps)
    then show ?thesis using True by (simp only: add_right_cancel)
  next
    case False
    then show ?thesis using l [OF that] h'(4) cc B(3) that by simp
  qed
  then have "heap_books h' (\<lambda>c. tc_objs (t_cache t') c + ?O c) B' L"
    using books_frame [OF b(1) h'(1,2,3) B(1,2)] by simp
  then show ?thesis using b(2,3) h'(3) t' by (simp add: opened_def books_def same_frame_def)
qed

subsection \<open>Closures of the allocation\<close>

lemma run_is_large:
  assumes "layout_ok l" "blk_class l = None"
  shows "MAX_SMALL < l_need l"
proof (rule ccontr)
  assume n: "\<not> MAX_SMALL < l_need l"
  obtain k where k: "l_align l = 2 ^ k" using assms(1) by (auto simp: layout_ok_def)
  have "0 < l_size l" using assms(1) by (simp add: layout_ok_def)
  then have pos: "0 < l_need l" by (simp add: l_need_def)
  show False
  proof (cases "l_align l \<le> MIN_ALIGN")
    case True
    then show False using n assms(2) fits_exists [of "max 1 (l_need l)"] class_for_fits [of "l_need l"] by (auto simp: blk_class_def)
  next
    case False
    obtain r where r: "aligned_class (l_need l) (l_align l) = Some r"
      "\<forall>c. r = Some c \<longleftrightarrow> 0 < l_need l \<and> 0 < c \<and> c < 49 \<and> l_need l \<le> CLASS_SIZES ! c \<and> l_align l dvd CLASS_SIZES ! c \<and>
         (\<forall>k. 0 < k \<and> k < c \<and> l_need l \<le> CLASS_SIZES ! k \<longrightarrow> \<not> l_align l dvd CLASS_SIZES ! k)"
      using aligned_class_spec [of "l_align l" "l_need l"] k by auto
    define P where "P = (\<lambda>c. 0 < c \<and> c < 49 \<and> l_need l \<le> CLASS_SIZES ! c \<and> l_align l dvd CLASS_SIZES ! c)"
    have "(2::nat) ^ k \<le> 2 ^ 18" using n k by (simp add: l_need_def MAX_SMALL_def)
    then have "k \<le> 18" by (rule power_le_imp_le_exp [rotated]) simp
    then have "(2::nat) ^ k dvd 2 ^ 18" by (rule le_imp_power_dvd)
    then have "P 48" using n k by (simp add: P_def MAX_SMALL_def)
    then have "P (LEAST c. P c)" "\<forall>j. j < (LEAST c. P c) \<longrightarrow> \<not> P j" using LeastI not_less_Least by (metis, blast)
    then have "r = Some (LEAST c. P c)" using r(2) pos unfolding P_def by auto
    then show False using assms(2) n False r(1) by (simp add: blk_class_def)
  qed
qed

lemma alloc_large_none_frame:
  "alloc_large x h sz = Some (h', None) \<Longrightarrow> hbase h' = hbase h \<and> budget_bytes h' = budget_bytes h \<and> nsp h' = nsp h \<and> num_shards h' = num_shards h \<and>
     central_lists h' = central_lists h \<and> sh_slab h' = sh_slab h \<and> run_spans (large h') = run_spans (large h)"
  by (auto simp: alloc_large_def Let_def nsp_def charge_remote_def split: bind_splits option.splits prod.splits)

lemma layout_facts:
  assumes "layout_ok l"
  shows "0 < l_align l" "0 < l_size l" "l_size l < 2 ^ 64" "large_count (l_need l) < 2 ^ 32" "blk_class l = Some c \<Longrightarrow> small_class c"
proof -
  show a: "0 < l_align l" "0 < l_size l" using assms by (auto simp: layout_ok_def)
  have n: "l_need l < 2 ^ 47" using assms by (simp add: layout_ok_def)
  then show "l_size l < 2 ^ 64" by (simp add: l_need_def)
  have "div_ceil (l_need l) 65536 \<le> 2 ^ 31" using n by (subst div_ceil_le_iff) auto
  then show "large_count (l_need l) < 2 ^ 32" by (simp add: large_count_def)
  show "blk_class l = Some c \<Longrightarrow> small_class c" using assms blk_class_small [OF _ a(1)] by (simp add: layout_ok_def)
qed

lemma granted_ok: "l_size l < 2 ^ 64 \<Longrightarrow> \<exists>s. granted l r = Some s \<and> (case r of Some p \<Rightarrow> s = FromPool p | None \<Rightarrow> \<exists>bs. s = Aborted bs)"
  using oom_total [of l EXHAUSTED] by (auto simp: granted_def split: option.split)

lemma tls_ok_upd: "tls_ok True t \<Longrightarrow> t_heap t \<Longrightarrow> tc_ok tc \<Longrightarrow> tls_ok True (t\<lparr>t_cache := tc\<rparr>)"
  by (simp add: tls_ok_def)

lemma miss_ok:
  assumes o: "opened th w t B L" and l: "layout_ok l" and c: "blk_class l = Some c" and sv: "\<forall>h. main w = Some h \<longrightarrow> batch_room h c MAG_CAP"
    and e: "tc_objs (t_cache t) c = {#}"
  shows "\<exists>w' t' s. miss g l c w t = Some (w', t', s) \<and> serves g th l B L w w' t' s"
proof -
  have tok: "tls_ok (main w \<noteq> None) t" using o by (simp add: opened_def)
  obtain t1 where t1: "tls_heap w t = (t1, main w)" "t_cache t1 = t_cache t" "tls_ok (main w \<noteq> None) t1" "main w \<noteq> None \<longrightarrow> t_heap t1"
    using tls_heap_ok [OF tok] by blast
  note lf = layout_facts [OF l]
  have sc: "small_class c" using lf(5) c by auto
  show ?thesis
  proof (cases "main w")
    case None
    then show ?thesis using t1 opened_cache [OF o t1(2,3)] by (simp add: miss_def serves_def)
  next
    case (Some h)
    have hb: "heap_inv h" "acct h" "\<forall>b\<in>#B. layout_ok (snd b)" using o Some by (simp_all add: opened_def books_def heap_books_def)
    have tc: "tc_ok (t_cache t)" using tok by (simp add: tls_ok_def)
    obtain h' tc' r where r: "tc_refill (ge_ctx g) h (t_cache t) c = Some (h', tc', r)" "tc_chg (t_cache t) tc' c"
      "hands_out h h' c ((case r of None \<Rightarrow> {#} | Some p \<Rightarrow> {#p#}) + tc_objs tc' c)" "r = None \<longrightarrow> avail h = 0 \<and> tc_objs tc' c = {#}"
      using refill_ok [OF hb(1) sc _ tc e] sv Some by blast
    obtain s where s: "granted l r = Some s" "case r of Some p \<Rightarrow> s = FromPool p | None \<Rightarrow> \<exists>bs. s = Aborted bs" using granted_ok [OF lf(3)] by blast
    have run: "miss g l c w t = Some (w\<lparr>main := Some h'\<rparr>, t1\<lparr>t_cache := tc'\<rparr>, s)"
      using t1 Some r(1) s(1) by (simp add: miss_def)
    have tok': "tls_ok True (t1\<lparr>t_cache := tc'\<rparr>)" using tls_ok_upd t1 Some r(2) by (simp add: tc_chg_def)
    have ho: "heap_inv h'" "same_frame h h'" "\<forall>d. small_class d \<and> d \<noteq> c \<longrightarrow> live_objs h' d = live_objs h d"
      "live_objs h' c = ((case r of None \<Rightarrow> {#} | Some p \<Rightarrow> {#p#}) + tc_objs tc' c) + live_objs h c" using r(3) by (simp_all add: hands_out_def)
    have ac: "acct h'" using hands_out_acct [OF r(3) sc hb(2)] .
    have cc: "\<forall>d. d \<noteq> c \<longrightarrow> tc_objs (t_cache (t1\<lparr>t_cache := tc'\<rparr>)) d = tc_objs (t_cache t) d" using r(2) by (simp add: tc_chg_def)
    show ?thesis
    proof (cases r)
      case None
      then have "opened th (w\<lparr>main := Some h'\<rparr>) (t1\<lparr>t_cache := tc'\<rparr>) B L"
        using opened_heap [OF o Some tok' sc cc ho(1) ac ho(2,3), of B] hb(3) ho(4) e by simp
      then show ?thesis using run s(2) None r(4) Some c by (auto simp: serves_def starved_def)
    next
      case (Some p)
      then have "opened th (w\<lparr>main := Some h'\<rparr>) (t1\<lparr>t_cache := tc'\<rparr>) (add_mset (p, l) B) L"
        using opened_heap [OF o \<open>main w = Some h\<close> tok' sc cc ho(1) ac ho(2,3), of "add_mset (p, l) B"] hb(3) ho(4) e l c by simp
      then show ?thesis using run s(2) Some \<open>main w = Some h\<close> by (simp add: serves_def)
    qed
  qed
qed

text \<open>A hit needs no sub-heap: what is cached is an object of the published one.\<close>

lemma hit_ok:
  assumes o: "opened th w t B L" and l: "layout_ok l" "blk_class l = Some c"
    and tc: "tc_chg (t_cache t) tc c" "tc_objs (t_cache t) c = add_mset p (tc_objs tc c)"
  shows "serves g th l B L w w (t\<lparr>t_cache := tc\<rparr>) (FromPool p)"
proof -
  have sc: "small_class c" using layout_facts(5) [OF l] by simp
  have tok: "tls_ok (main w \<noteq> None) t" using o by (simp add: opened_def)
  have th: "t_heap t" using tok tc(2) sc by (auto simp: tls_ok_def)
  then obtain h where h: "main w = Some h" using tok by (auto simp: tls_ok_def)
  have hb: "heap_inv h" "acct h" "\<forall>b\<in>#B. layout_ok (snd b)" using o h by (simp_all add: opened_def books_def heap_books_def)
  have tok': "tls_ok True (t\<lparr>t_cache := tc\<rparr>)" using tls_ok_upd tok th tc(1) h by (simp add: tc_chg_def)
  have "opened th (w\<lparr>main := Some h\<rparr>) (t\<lparr>t_cache := tc\<rparr>) (add_mset (p, l) B) L"
    using opened_heap [OF o h tok' sc _ hb(1,2), of "add_mset (p, l) B"] tc hb(3) l by (simp add: tc_chg_def same_frame_def)
  moreover have "w\<lparr>main := Some h\<rparr> = w" using h by simp
  ultimately show ?thesis using h by (simp add: serves_def)
qed

lemma pop_or_miss_ok:
  assumes o: "opened th w t B L" and l: "layout_ok l" and c: "blk_class l = Some c" and sv: "\<forall>h. main w = Some h \<longrightarrow> batch_room h c MAG_CAP"
  shows "\<exists>w' t' s. pop_or_miss g l c w t = Some (w', t', s) \<and> serves g th l B L w w' t' s"
proof -
  have sc: "small_class c" using layout_facts(5) [OF l c] by simp
  have tc: "tc_ok (t_cache t)" using o by (simp add: opened_def tls_ok_def)
  obtain tc' r where r: "try_pop (t_cache t) c = Some (tc', r)" "tc_chg (t_cache t) tc' c"
    "case r of None \<Rightarrow> tc' = t_cache t \<and> tc_objs (t_cache t) c = {#} | Some p \<Rightarrow> tc_objs (t_cache t) c = add_mset p (tc_objs tc' c)"
    using try_pop_ok [OF tc sc] by blast
  show ?thesis
  proof (cases r)
    case None
    then have "t\<lparr>t_cache := tc'\<rparr> = t" using r(3) by simp
    then show ?thesis using miss_ok [OF o l c sv, of g] r None by (simp add: pop_or_miss_def)
  next
    case (Some p)
    then show ?thesis using hit_ok [OF o l c r(2), of p g] r by (simp add: pop_or_miss_def)
  qed
qed

text \<open>The prefetching path is the plain one.\<close>

lemma prefetch_closure:
  assumes "tc_ok (t_cache t)" "small_class c"
  shows "do {
       (tc, r, hints) \<leftarrow> alloc_prefetch (t_cache t) c osz;
       case r of
         Some p \<Rightarrow> Some (w, t\<lparr>t_cache := tc\<rparr>, FromPool p)
       | None \<Rightarrow> miss e l c w (t\<lparr>t_cache := tc\<rparr>)
     } = pop_or_miss e l c w t"
  using alloc_prefetch_pop [OF assms, of osz] by (auto simp: pop_or_miss_def)

lemma alloc_cold_ok:
  assumes o: "opened th w t B L" and l: "layout_ok l" and sv: "servable (main w) l" and n: "MAX_SMALL < l_need l \<or> MIN_ALIGN < l_align l"
  shows "\<exists>w' t' s. alloc_cold g l (l_need l) w t = Some (w', t', s) \<and> serves g th l B L w w' t' s"
proof -
  have tok: "tls_ok (main w \<noteq> None) t" using o by (simp add: opened_def)
  obtain t1 where t1: "tls_heap w t = (t1, main w)" "t_cache t1 = t_cache t" "tls_ok (main w \<noteq> None) t1"
    using tls_heap_ok [OF tok] by blast
  note lf = layout_facts [OF l] and o1 = opened_cache [OF o t1(2,3)]
  show ?thesis
  proof (cases "main w")
    case None
    then show ?thesis using t1 o1 by (simp add: alloc_cold_def serves_def)
  next
    case (Some h)
    have hb: "heap_books h (\<lambda>c. tc_objs (t_cache t1) c + cached ((tls_ptrs w)[th := TlsNull]) c) B L" "pool_base w \<le> hbase h" "hbase h + budget_bytes h \<le> pool_end w"
      using o1 Some by (simp_all add: opened_def books_def)
    have hi: "heap_inv h" "acct h" "\<forall>b\<in>#B. layout_ok (snd b)" using hb(1) by (simp_all add: heap_books_def)
    have same: "w\<lparr>main := Some h\<rparr> = w" using Some by simp
    consider (over) "MAX_SMALL < l_need l \<and> SPAN_BYTES < l_align l"
      | (run) "\<not> (MAX_SMALL < l_need l \<and> SPAN_BYTES < l_align l)" "blk_class l = None"
      | (obj) c where "\<not> (MAX_SMALL < l_need l \<and> SPAN_BYTES < l_align l)" "blk_class l = Some c" by (cases "blk_class l") auto
    then show ?thesis
    proof cases
      case over
      obtain bs where "oom_backpressure l OVERALIGNED = Some (Aborted bs)" using oom_total [OF lf(3)] by blast
      then have "alloc_cold g l (l_need l) w t = Some (w, t1, Aborted bs)" using over t1(1) Some by (simp add: alloc_cold_def)
      moreover have "starved w l" using over Some by (simp add: starved_def blk_class_def)
      ultimately show ?thesis using o1 by (simp add: serves_def)
    next
      case run
      obtain h' r where r: "alloc_large (ge_ctx g) h (l_need l) = Some (h', r)"
        "case r of None \<Rightarrow> heap_inv h' \<and> live_objs h' = live_objs h \<and> large h' = large h \<and> counters h' = counters h \<and> \<not> run_fits h (large_count (l_need l))
         | Some p \<Rightarrow> \<exists>a. p = hbase h + a * SPAN_BYTES \<and> run_granted h h' a (large_count (l_need l))"
        using alloc_large_ok [OF hi(1) lf(4), of "ge_ctx g"] by blast
      obtain s where s: "granted l r = Some s" "case r of Some p \<Rightarrow> s = FromPool p | None \<Rightarrow> \<exists>bs. s = Aborted bs" using granted_ok [OF lf(3)] by blast
      have ex: "\<exists>q. aligned_class (l_need l) (l_align l) = Some q" using aligned_class_spec [OF lf(1)] by blast
      have "(if MAX_SMALL < l_need l then alloc_large (ge_ctx g) h (l_need l)
              else do {
                ac \<leftarrow> aligned_class (l_need l) (l_align l);
                case ac of Some c \<Rightarrow> alloc_class (ge_ctx g) h c | None \<Rightarrow> alloc_large (ge_ctx g) h (l_need l)
              }) = Some (h', r)"
        using run(2) r(1) n ex by (auto simp: blk_class_def split: if_splits option.splits)
      then have ev: "alloc_cold g l (l_need l) w t = Some (w\<lparr>main := Some h'\<rparr>, t1, s)"
        using run(1) t1(1) Some s(1) by (auto simp: alloc_cold_def simp del: span_consts)
      show ?thesis
      proof (cases r)
        case None
        have "same_frame h h'" "heap_inv h'" "live_objs h' = live_objs h" "counters h' = counters h"
          using r None alloc_large_none_frame [OF r(1) [unfolded None]] by (simp_all add: same_frame_def)
        moreover from this have "acct h'" using same_acct [OF hi(2), of h'] by (simp add: same_frame_def)
        ultimately have "heap_books h' (\<lambda>c. tc_objs (t_cache t1) c + cached ((tls_ptrs w)[th := TlsNull]) c) B L"
          using books_frame [OF hb(1), of h' B] hi(3) hb(1) by (simp add: heap_books_def)
        then have "opened th (w\<lparr>main := Some h'\<rparr>) t1 B L"
          using hb(2,3) \<open>same_frame h h'\<close> t1(3) Some by (simp add: opened_def books_def same_frame_def)
        then show ?thesis using ev s(2) None r(2) Some run(2) by (auto simp: serves_def starved_def)
      next
        case (Some p)
        then obtain a where a: "p = hbase h + a * SPAN_BYTES" "run_granted h h' a (large_count (l_need l))" using r(2) by auto
        have "l_align l \<le> SPAN_BYTES" using run run_is_large [OF l] by simp
        then have "opened th (w\<lparr>main := Some h'\<rparr>) t1 (add_mset (p, l) B) L"
          using books_run_granted [OF hb(1) a(2) l run(2)] a hb(2,3) t1(3) \<open>main w = Some h\<close>
          by (simp add: opened_def books_def run_granted_def)
        then show ?thesis using ev s(2) Some \<open>main w = Some h\<close> by (simp add: serves_def)
      qed
    next
      case (obj c)
      have sc: "small_class c" using lf(5) obj(2) by auto
      have "MIN_ALIGN < l_align l" using n obj(2) by (auto simp: blk_class_def split: if_splits)
      then have cv: "carvable h c" using sv Some obj(2) by (simp add: servable_def)
      obtain h' r where r: "alloc_class (ge_ctx g) h c = Some (h', r)" "hands_out h h' c (case r of None \<Rightarrow> {#} | Some p \<Rightarrow> {#p#})" "r = None \<longrightarrow> avail h = 0"
        using alloc_class_ok [OF hi(1) sc cv] by blast
      obtain s where s: "granted l r = Some s" "case r of Some p \<Rightarrow> s = FromPool p | None \<Rightarrow> \<exists>bs. s = Aborted bs" using granted_ok [OF lf(3)] by blast
      have small: "\<not> MAX_SMALL < l_need l" "aligned_class (l_need l) (l_align l) = Some (Some c)"
        using obj(2) n by (auto simp: blk_class_def split: if_splits option.splits)
      have ev: "alloc_cold g l (l_need l) w t = Some (w\<lparr>main := Some h'\<rparr>, t1, s)"
        using small t1(1) Some s(1) r(1) by (simp add: alloc_cold_def)
      have ho: "heap_inv h'" "same_frame h h'" "\<forall>d. small_class d \<and> d \<noteq> c \<longrightarrow> live_objs h' d = live_objs h d"
        "live_objs h' c = (case r of None \<Rightarrow> {#} | Some p \<Rightarrow> {#p#}) + live_objs h c" using r(2) by (simp_all add: hands_out_def)
      have tok1: "tls_ok True t1" using t1(3) Some by simp
      note op = opened_heap [OF o1 Some tok1 sc _ ho(1) hands_out_acct [OF r(2) sc hi(2)] ho(2,3)]
      show ?thesis
      proof (cases r)
        case None
        then have "opened th (w\<lparr>main := Some h'\<rparr>) t1 B L" using op [of B] hi(3) ho(4) by simp
        then show ?thesis using ev s(2) None r(3) Some obj(2) by (auto simp: serves_def starved_def)
      next
        case (Some p)
        then have "opened th (w\<lparr>main := Some h'\<rparr>) t1 (add_mset (p, l) B) L" using op [of "add_mset (p, l) B"] hi(3) ho(4) l obj(2) by simp
        then show ?thesis using ev s(2) Some \<open>main w = Some h\<close> by (simp add: serves_def)
      qed
    qed
  qed
qed

end
