(* ===== verification/Global_Alloc_Correct.thy ===== *)
theory Global_Alloc_Correct
  imports Global_Ledger
begin

text \<open>
  The operations of the global allocator keep the invariant of the ledger; histories of a whole
  program and their properties.
\<close>

subsection \<open>Opening and closing the thread-local storage\<close>

definition world_ok :: "world \<Rightarrow> ledger \<Rightarrow> (nat \<Rightarrow> nat multiset) \<Rightarrow> bool" where
  "world_ok w B L \<longleftrightarrow> books w (cached (tls_ptrs w)) B L \<and> (\<forall>p\<in>set (tls_ptrs w). ptr_ok (main w \<noteq> None) p)"

definition tls_at :: "world \<Rightarrow> nat \<Rightarrow> tls" where
  "tls_at w th = (case tls_ptrs w ! th of TlsLive t \<Rightarrow> t | _ \<Rightarrow> tls_new)"

definition ready :: "world \<Rightarrow> nat \<Rightarrow> bool" where
  "ready w th \<longleftrightarrow> th < length (tls_ptrs w) \<and> tls_ptrs w ! th \<noteq> TlsFreed"

definition stored :: "genv \<Rightarrow> nat \<Rightarrow> world \<Rightarrow> world \<Rightarrow> tls \<Rightarrow> world" where
  "stored e th w w' t' = (if tls_ptrs w ! th = TlsNull \<and> \<not> ge_calloc e then w' else w'\<lparr>tls_ptrs := (tls_ptrs w)[th := TlsLive t']\<rparr>)"

lemma books_cong: "(\<And>c. small_class c \<Longrightarrow> C c = C' c) \<Longrightarrow> (\<And>c. small_class c \<Longrightarrow> L c = L' c) \<Longrightarrow> books w C B L = books w C' B L'"
  by (simp add: books_def heap_books_def cong: option.case_cong)

lemma books_shift:
  assumes "books w (\<lambda>c. X c + C c) B L"
  shows "books w C B (\<lambda>c. L c + X c)"
  using assms by (auto simp: books_def heap_books_def ac_simps split: option.splits)

lemma with_tls_run:
  assumes "ready w th" "f w (tls_at w th) = Some (w', t', r)" "tls_ptrs w' = tls_ptrs w"
  shows "with_tls e th f w = Some (stored e th w w' t', r)"
  using assms by (cases "tls_ptrs w ! th") (auto simp: with_tls_def stored_def ready_def tls_at_def)

lemma open_tls:
  assumes "world_ok w B L" "ready w th"
  shows "opened th w (tls_at w th) B L"
proof -
  have th: "th < length (tls_ptrs w)" using assms(2) by (simp add: ready_def)
  have "cached (tls_ptrs w) c = tc_objs (t_cache (tls_at w th)) c + cached ((tls_ptrs w)[th := TlsNull]) c" if "small_class c" for c
    using cached_split [OF th, of c] tls_new_ok(2) [OF that] assms(2) by (cases "tls_ptrs w ! th") (simp_all add: tls_at_def ready_def)
  then have "books w (\<lambda>c. tc_objs (t_cache (tls_at w th)) c + cached ((tls_ptrs w)[th := TlsNull]) c) B L"
    using assms(1) books_cong [of "cached (tls_ptrs w)" _ L L w B] by (simp add: world_ok_def)
  moreover have "ptr_ok (main w \<noteq> None) (tls_ptrs w ! th)" using assms(1) th by (simp add: world_ok_def)
  then have "tls_ok (main w \<noteq> None) (tls_at w th)" using tls_new_ok(1) by (cases "tls_ptrs w ! th") (simp_all add: tls_at_def ptr_ok_def)
  ultimately show ?thesis by (simp add: opened_def)
qed

lemma books_tls [simp]: "books (w\<lparr>tls_ptrs := ps\<rparr>) C B L = books w C B L"
  by (cases "main w") (simp_all add: books_def)

lemma close_tls:
  assumes "world_ok w B L" "ready w th" "opened th w' t' B' L" "same_pool w w'"
  shows "\<exists>L'. world_ok (stored e th w w' t') B' L' \<and> (ge_calloc e \<longrightarrow> L' = L)"
proof -
  have th: "th < length (tls_ptrs w)" using assms(2) by (simp add: ready_def)
  have sp: "tls_ptrs w' = tls_ptrs w" "main w' = None \<longleftrightarrow> main w = None" using assms(4) by (simp_all add: same_pool_def)
  have ok: "\<forall>p\<in>set (tls_ptrs w). ptr_ok (main w' \<noteq> None) p" "ptr_ok (main w' \<noteq> None) (TlsLive t')"
    using assms(1,3) sp(2) by (simp_all add: world_ok_def opened_def ptr_ok_def)
  have bk: "books w' (\<lambda>c. tc_objs (t_cache t') c + cached ((tls_ptrs w)[th := TlsNull]) c) B' L" using assms(3) sp(1) by (simp add: opened_def)
  show ?thesis
  proof (cases "tls_ptrs w ! th = TlsNull \<and> \<not> ge_calloc e")
    case True
    then have "(tls_ptrs w)[th := TlsNull] = tls_ptrs w" by (metis list_update_id)
    then have "books w' (cached (tls_ptrs w)) B' (\<lambda>c. L c + tc_objs (t_cache t') c)" using books_shift [OF bk] by simp
    then have "world_ok w' B' (\<lambda>c. L c + tc_objs (t_cache t') c)" using ok(1) unfolding world_ok_def sp(1) by blast
    moreover have "stored e th w w' t' = w'" using True by (simp add: stored_def)
    ultimately show ?thesis using True by metis
  next
    case False
    have "cached ((tls_ptrs w)[th := TlsLive t']) c = tc_objs (t_cache t') c + cached ((tls_ptrs w)[th := TlsNull]) c" for c
      using cached_upd [OF th, of "TlsLive t'" c] by simp
    then have "cached ((tls_ptrs w)[th := TlsLive t']) = (\<lambda>c. tc_objs (t_cache t') c + cached ((tls_ptrs w)[th := TlsNull]) c)" by (rule ext)
    then have "books w' (cached ((tls_ptrs w)[th := TlsLive t'])) B' L" using bk by (simp only:)
    moreover have "\<forall>p\<in>set ((tls_ptrs w)[th := TlsLive t']). ptr_ok (main w' \<noteq> None) p"
      using ok set_update_subset_insert [of "tls_ptrs w" th "TlsLive t'"] by auto
    moreover have "stored e th w w' t' = w'\<lparr>tls_ptrs := (tls_ptrs w)[th := TlsLive t']\<rparr>" unfolding stored_def using False by (rule if_not_P)
    ultimately show ?thesis by (intro exI [of _ L]) (simp add: world_ok_def)
  qed
qed

subsection \<open>Allocation\<close>

text \<open>\<open>outcome\<close>: the blocks after an allocation, and the range of the pool that stays the same.\<close>

definition same_range :: "world \<Rightarrow> world \<Rightarrow> bool" where
  "same_range w w' \<longleftrightarrow> pool_base w' = pool_base w \<and> pool_end w' = pool_end w \<and> (main w' = None \<longleftrightarrow> main w = None) \<and>
     length (tls_ptrs w') = length (tls_ptrs w)"

lemma alloc_closes:
  assumes w: "world_ok w B L" "ready w th" and f: "f w (tls_at w th) = Some (w', t', s)" "serves e th l B L w w' t' s"
  shows "\<exists>w2 L2. with_tls e th f w = Some (w2, s) \<and> same_range w w2 \<and> ready w2 th \<and> (ge_calloc e \<longrightarrow> L2 = L) \<and>
    (case s of
       FromPool p \<Rightarrow> world_ok w2 (add_mset (p, l) B) L2 \<and> main w \<noteq> None
     | FromSystem p \<Rightarrow> world_ok w2 B L2 \<and> p = ge_sys e \<and> main w = None
     | Aborted bs \<Rightarrow> world_ok w2 B L2 \<and> starved w l
     | Dangling p \<Rightarrow> False)"
proof -
  have sp: "same_pool w w'" using f(2) by (simp add: serves_def)
  have run: "with_tls e th f w = Some (stored e th w w' t', s)" using with_tls_run [where f = f, OF w(2) f(1)] sp by (simp add: same_pool_def)
  define B' where "B' = (case s of FromPool p \<Rightarrow> add_mset (p, l) B | _ \<Rightarrow> B)"
  have "opened th w' t' B' L" using f(2) by (auto simp: serves_def B'_def split: served.splits)
  from close_tls [OF w this sp, of e] obtain L2 where c: "world_ok (stored e th w w' t') B' L2" "ge_calloc e \<longrightarrow> L2 = L" by blast
  have "same_range w (stored e th w w' t')" using sp by (simp add: same_range_def same_pool_def stored_def)
  moreover have "ready (stored e th w w' t') th" using w(2) sp by (auto simp: ready_def stored_def same_pool_def)
  ultimately show ?thesis using run c f(2) by (intro exI [of _ "stored e th w w' t'"] exI [of _ L2]) (auto simp: serves_def B'_def split: served.splits)
qed

lemma g_alloc_ok:
  assumes w: "world_ok w B L" "ready w th" and l: "layout_ok l" and sv: "servable (main w) l"
  shows "\<exists>s w2 L2. g_alloc e th l w = Some (w2, s) \<and> same_range w w2 \<and> ready w2 th \<and> (ge_calloc e \<longrightarrow> L2 = L) \<and>
    (case s of
       FromPool p \<Rightarrow> world_ok w2 (add_mset (p, l) B) L2 \<and> main w \<noteq> None
     | FromSystem p \<Rightarrow> world_ok w2 B L2 \<and> p = ge_sys e \<and> main w = None
     | Aborted bs \<Rightarrow> world_ok w2 B L2 \<and> starved w l
     | Dangling p \<Rightarrow> False)"
proof -
  note lf = layout_facts [OF l] and o = open_tls [OF w]
  have n: "max (l_size l) (l_align l) = l_need l" by (simp add: l_need_def)
  show ?thesis
  proof (cases "l_need l \<le> MAX_SMALL \<and> l_align l \<le> MIN_ALIGN")
    case False
    then have "MAX_SMALL < l_need l \<or> MIN_ALIGN < l_align l" by auto
    then obtain w' t' s where f: "alloc_cold e l (l_need l) w (tls_at w th) = Some (w', t', s)" "serves e th l B L w w' t' s"
      using alloc_cold_ok [OF o l sv] by blast
    have "g_alloc e th l w = with_tls e th (alloc_cold e l (l_need l)) w" using False lf(2) n by (auto simp: g_alloc_def)
    then show ?thesis using alloc_closes [where f = "alloc_cold e l (l_need l)", OF w f] by auto
  next
    case True
    have "0 < l_need l" using lf(2) by (simp add: l_need_def)
    then have co: "class_of (l_need l) = Some (class_for (l_need l))" using class_of_scan True by simp
    obtain c where c: "class_for (l_need l) = Some c" using True fits_exists [of "max 1 (l_need l)"] class_for_fits by blast
    then have bc: "blk_class l = Some c" using True by (simp add: blk_class_def)
    then have sc: "small_class c" using lf(5) by simp
    have rm: "\<forall>h. main w = Some h \<longrightarrow> batch_room h c MAG_CAP" using sv bc True by (auto simp: servable_def)
    obtain w' t' s where f: "pop_or_miss e l c w (tls_at w th) = Some (w', t', s)" "serves e th l B L w w' t' s"
      using pop_or_miss_ok [OF o l bc rm] by blast
    show ?thesis
    proof (cases "1024 \<le> l_need l")
      case False
      then have "g_alloc e th l w = with_tls e th (pop_or_miss e l c) w" using True lf(2) n co c by (simp add: g_alloc_def)
      then show ?thesis using alloc_closes [where f = "pop_or_miss e l c", OF w f] by auto
    next
      case big: True
      obtain osz where osz: "size_of_class c = Some osz" using size_of_small [OF sc] by blast
      let ?f = "\<lambda>w t. do {
           (tc, r, hints) \<leftarrow> alloc_prefetch (t_cache t) c osz;
           case r of
             Some p \<Rightarrow> Some (w, t\<lparr>t_cache := tc\<rparr>, FromPool p)
           | None \<Rightarrow> miss e l c w (t\<lparr>t_cache := tc\<rparr>)
         }"
      have "tc_ok (t_cache (tls_at w th))" using o by (simp add: opened_def tls_ok_def)
      then have f': "?f w (tls_at w th) = Some (w', t', s)" using prefetch_closure [where t = "tls_at w th" and c = c and osz = osz and w = w and e = e and l = l] sc f(1) by simp
      have "g_alloc e th l w = with_tls e th ?f w"
        using True big lf(2) n co c osz by (simp add: g_alloc_def alloc_large_smallclass_def)
      then show ?thesis using alloc_closes [where f = ?f, OF w f' f(2)] by auto
    qed
  qed
qed

subsection \<open>Release\<close>

lemma books_block:
  assumes "heap_books h C B L" "(p, l) \<in># B"
  shows "live_block h (p, blk_bytes l)" "layout_ok l" "blk_class l = Some c \<Longrightarrow> small_class c \<and> p \<in># live_objs h c"
    "blk_class l = None \<Longrightarrow> \<exists>a<nsp h. p = hbase h + a * SPAN_BYTES \<and> run_spans (large h) ! a = large_count (l_need l) \<and> 0 < large_count (l_need l)"
proof -
  show l: "layout_ok l" using assms by (auto simp: heap_books_def)
  show o: "small_class c \<and> p \<in># live_objs h c" if "blk_class l = Some c" for c
  proof -
    have sc: "small_class c" using layout_facts(5) [OF l that] by simp
    have "p \<in># owed B c" using assms(2) that by (force simp: owed_def)
    then show ?thesis using assms(1) sc by (simp add: heap_books_def)
  qed
  show r: "\<exists>a<nsp h. p = hbase h + a * SPAN_BYTES \<and> run_spans (large h) ! a = large_count (l_need l) \<and> 0 < large_count (l_need l)" if "blk_class l = None"
  proof -
    have "(p, l) \<in># runs_of B" using assms(2) that by (simp add: runs_of_def)
    then show ?thesis using assms(1) by (auto simp: heap_books_def run_block_def large_count_def)
  qed
  show "live_block h (p, blk_bytes l)"
  proof (cases "blk_class l")
    case None
    then show ?thesis using r by (auto simp: live_block_def blk_bytes_def)
  next
    case (Some c)
    then show ?thesis using o by (auto simp: live_block_def blk_bytes_def)
  qed
qed

lemma books_in_pool:
  assumes "books w C B L" "(p, l) \<in># B"
  shows "\<exists>h. main w = Some h \<and> heap_books h C B L \<and> in_pool w p \<and> p + blk_bytes l \<le> pool_end w"
proof -
  obtain h where h: "main w = Some h" "heap_books h C B L" "pool_base w \<le> hbase h" "hbase h + budget_bytes h \<le> pool_end w"
    using assms by (auto simp: books_def split: option.splits)
  have "heap_inv h" using h(2) by (simp add: heap_books_def)
  from block_bounds [OF this books_block(1) [OF h(2) assms(2)]] show ?thesis using h by (auto simp: in_pool_def)
qed

lemma ledger_take:
  assumes "(p, l) \<in># B" "blk_class l = Some c"
  shows "runs_of (B - {#(p, l)#}) = runs_of B" "\<forall>d. d \<noteq> c \<longrightarrow> owed (B - {#(p, l)#}) d = owed B d"
    "owed B c = add_mset p (owed (B - {#(p, l)#}) c)"
proof -
  obtain B' where "B = add_mset (p, l) B'" using assms(1) by (rule mset_add)
  then show "runs_of (B - {#(p, l)#}) = runs_of B" "\<forall>d. d \<noteq> c \<longrightarrow> owed (B - {#(p, l)#}) d = owed B d"
    "owed B c = add_mset p (owed (B - {#(p, l)#}) c)" using assms(2) by simp_all
qed

text \<open>Releasing by address what the ledger holds, with the thread's storage opened.\<close>

lemma by_ptr_ok:
  assumes o: "opened th w t B L" and p: "(p, l) \<in># B"
  shows "\<exists>w'. by_ptr g p w = Some w' \<and> opened th w' t (B - {#(p, l)#}) L \<and> same_pool w w'"
proof -
  let ?C = "\<lambda>c. tc_objs (t_cache t) c + cached ((tls_ptrs w)[th := TlsNull]) c"
  have b: "books w ?C B L" "tls_ok (main w \<noteq> None) t" using o by (simp_all add: opened_def)
  obtain h where h: "main w = Some h" "heap_books h ?C B L" using books_in_pool [OF b(1) p] by blast
  have hi: "heap_inv h" "acct h" "\<forall>b\<in>#B. layout_ok (snd b)" using h(2) by (simp_all add: heap_books_def)
  have lay: "\<forall>b\<in>#B - {#(p, l)#}. layout_ok (snd b)" using hi(3) by (auto dest: in_diffD)
  show ?thesis
  proof (cases "blk_class l")
    case None
    then obtain a where a: "a < nsp h" "p = hbase h + a * SPAN_BYTES" "run_spans (large h) ! a = large_count (l_need l)" "0 < large_count (l_need l)"
      using books_block(4) [OF h(2) p] by blast
    obtain h' where h': "dealloc_by_ptr (ge_ctx g) h p = Some (h', True)" "run_returned h h' a (run_spans (large h) ! a)"
      using dealloc_by_ptr_run [OF hi(1) a(1), of "ge_ctx g"] a by auto
    have "heap_books h' ?C (B - {#(p, l)#}) L" using books_run_returned [OF h(2) _ None a(1) refl h'(2)] p a(2) by simp
    then have "opened th (w\<lparr>main := Some h'\<rparr>) t (B - {#(p, l)#}) L"
      using b h h'(2) by (simp add: opened_def books_def run_returned_def)
    then show ?thesis using h' h(1) by (simp add: by_ptr_def)
  next
    case (Some c)
    then have c: "small_class c" "p \<in># live_objs h c" using books_block(3) [OF h(2) p] by simp_all
    obtain h' where h': "dealloc_by_ptr (ge_ctx g) h p = Some (h', True)" "takes_back h h' c {#p#}"
      using dealloc_by_ptr_object [OF hi(1) c] by blast
    note r = ledger_take [OF p Some]
    have t: "heap_inv h'" "same_frame h h'" "\<forall>d. small_class d \<and> d \<noteq> c \<longrightarrow> live_objs h' d = live_objs h d" "live_objs h c = {#p#} + live_objs h' c"
      using h'(2) by (simp_all add: takes_back_def)
    have "opened th (w\<lparr>main := Some h'\<rparr>) t (B - {#(p, l)#}) L"
      using opened_heap [OF o h(1) _ c(1) _ t(1) takes_back_acct [OF h'(2) c(1) hi(2)] t(2,3) r(1) lay r(2)] b(2) h(1) r(3) t(4) by simp
    then show ?thesis using h' h(1) by (simp add: by_ptr_def)
  qed
qed

lemma free_closure_ok:
  assumes o: "opened th w t B L" and p: "(p, l) \<in># B" and c: "blk_class l = Some c"
  shows "\<exists>t1 h h' tc. tls_heap w t = (t1, Some h) \<and> tc_free (ge_ctx g) h (t_cache t1) p c = Some (h', tc) \<and>
    opened th (w\<lparr>main := Some h'\<rparr>) (t1\<lparr>t_cache := tc\<rparr>) (B - {#(p, l)#}) L \<and> main w = Some h"
proof -
  let ?O = "cached ((tls_ptrs w)[th := TlsNull])"
  have b: "books w (\<lambda>c. tc_objs (t_cache t) c + ?O c) B L" "tls_ok (main w \<noteq> None) t" using o by (simp_all add: opened_def)
  obtain h where h: "main w = Some h" "heap_books h (\<lambda>c. tc_objs (t_cache t) c + ?O c) B L" using books_in_pool [OF b(1) p] by blast
  obtain t1 where t1: "tls_heap w t = (t1, main w)" "t_cache t1 = t_cache t" "tls_ok (main w \<noteq> None) t1" "main w \<noteq> None \<longrightarrow> t_heap t1"
    using tls_heap_ok [OF b(2)] by blast
  have hi: "heap_inv h" "acct h" "\<forall>b\<in>#B. layout_ok (snd b)" using h(2) by (simp_all add: heap_books_def)
  have sc: "small_class c" using books_block(3) [OF h(2) p c] by simp
  have tc: "tc_ok (t_cache t1)" using t1(3) by (simp add: tls_ok_def)
  have sub: "tc_objs (t_cache t1) c \<subseteq># live_objs h c" using h(2) sc t1(2) by (simp add: heap_books_def)
  obtain h' tc' M where f: "tc_free (ge_ctx g) h (t_cache t1) p c = Some (h', tc')" "tc_chg (t_cache t1) tc' c" "takes_back h h' c M"
    "add_mset p (tc_objs (t_cache t1) c) = M + tc_objs tc' c" using tc_free_ok [OF hi(1) sc tc sub, of "ge_ctx g" p] by blast
  have lay: "\<forall>b\<in>#B - {#(p, l)#}. layout_ok (snd b)" using hi(3) by (auto dest: in_diffD)
  note r = ledger_take [OF p c]
  have t: "heap_inv h'" "same_frame h h'" "\<forall>d. small_class d \<and> d \<noteq> c \<longrightarrow> live_objs h' d = live_objs h d" "live_objs h c = M + live_objs h' c"
    using f(3) by (simp_all add: takes_back_def)
  have tok: "tls_ok True (t1\<lparr>t_cache := tc'\<rparr>)" using tls_ok_upd t1 h(1) f(2) by (simp add: tc_chg_def)
  have "live_objs h' c + tc_objs (t_cache t) c + owed B c = live_objs h' c + add_mset p (tc_objs (t_cache t1) c) + owed (B - {#(p, l)#}) c"
    using r(3) t1(2) by simp
  also have "\<dots> = live_objs h c + tc_objs tc' c + owed (B - {#(p, l)#}) c" unfolding f(4) t(4) by (simp add: ac_simps)
  finally have "opened th (w\<lparr>main := Some h'\<rparr>) (t1\<lparr>t_cache := tc'\<rparr>) (B - {#(p, l)#}) L"
    using opened_heap [OF o h(1) tok sc _ t(1) takes_back_acct [OF f(3) sc hi(2)] t(2,3) r(1) lay r(2)] f(2) t1(2) by (simp add: tc_chg_def)
  then show ?thesis using t1(1) h(1) f(1) by auto
qed

lemma g_dealloc_ok:
  assumes w: "world_ok w B L" "ready w th" and p: "(p, l) \<in># B"
  shows "\<exists>w2 L2. g_dealloc e th p l w = Some (w2, False) \<and> same_range w w2 \<and> (ge_calloc e \<longrightarrow> L2 = L) \<and> world_ok w2 (B - {#(p, l)#}) L2"
proof -
  note o = open_tls [OF w]
  obtain h where h: "main w = Some h" "heap_books h (cached (tls_ptrs w)) B L" "in_pool w p"
    using books_in_pool [of w "cached (tls_ptrs w)" B L p l] w(1) p by (auto simp: world_ok_def)
  note lf = layout_facts [OF books_block(2) [OF h(2) p]]
  have n: "max (l_size l) (l_align l) = l_need l" by (simp add: l_need_def)
  have fin: "\<exists>w2 L2. with_tls e th f w = Some (w2, False) \<and> same_range w w2 \<and> (ge_calloc e \<longrightarrow> L2 = L) \<and> world_ok w2 (B - {#(p, l)#}) L2"
    if f: "f w (tls_at w th) = Some (w', t', False)" "opened th w' t' (B - {#(p, l)#}) L" "same_pool w w'" for f w' t'
  proof -
    have run: "with_tls e th f w = Some (stored e th w w' t', False)" using with_tls_run [where f = f, OF w(2) f(1)] f(3) by (simp add: same_pool_def)
    have "same_range w (stored e th w w' t')" using f(3) by (simp add: same_range_def same_pool_def stored_def)
    then show ?thesis using run close_tls [OF w f(2,3), of e] by blast
  qed
  show ?thesis
  proof (cases "l_need l \<le> MAX_SMALL \<and> l_align l \<le> MIN_ALIGN")
    case True
    have "0 < l_need l" using lf(2) by (simp add: l_need_def)
    then have co: "class_of (l_need l) = Some (class_for (l_need l))" using class_of_scan True by simp
    obtain c where c: "class_for (l_need l) = Some c" using True fits_exists [of "max 1 (l_need l)"] class_for_fits by blast
    then have bc: "blk_class l = Some c" using True by (simp add: blk_class_def)
    obtain t1 h1 h' tc where q: "tls_heap w (tls_at w th) = (t1, Some h1)" "tc_free (ge_ctx e) h1 (t_cache t1) p c = Some (h', tc)"
      "opened th (w\<lparr>main := Some h'\<rparr>) (t1\<lparr>t_cache := tc\<rparr>) (B - {#(p, l)#}) L" "main w = Some h1" using free_closure_ok [OF o p bc] by blast
    show ?thesis using fin [of _ "w\<lparr>main := Some h'\<rparr>" "t1\<lparr>t_cache := tc\<rparr>"] q True lf(2) n h(3) co c by (auto simp: g_dealloc_def)
  next
    case False
    have tok: "tls_ok (main w \<noteq> None) (tls_at w th)" using o by (simp add: opened_def)
    obtain t1 where t1: "tls_heap w (tls_at w th) = (t1, main w)" "t_cache t1 = t_cache (tls_at w th)" "tls_ok (main w \<noteq> None) t1"
      using tls_heap_ok [OF tok] by blast
    obtain w' where w': "by_ptr e p w = Some w'" "opened th w' t1 (B - {#(p, l)#}) L" "same_pool w w'"
      using by_ptr_ok [OF opened_cache [OF o t1(2,3)] p] by blast
    show ?thesis using fin [of _ w' t1] w' t1(1) False lf(2) n h(3) by (auto simp: g_dealloc_def)
  qed
qed

subsection \<open>Thread exit\<close>

lemma thread_exit_ok:
  assumes w: "world_ok w B L" "ready w th"
  shows "\<exists>w'. on_thread_exit x th w = Some w' \<and> same_range w w' \<and> world_ok w' B L \<and> tls_objs (tls_ptrs w' ! th) c = {#}"
proof (cases "tls_ptrs w ! th")
  case TlsNull
  then show ?thesis using w by (simp add: on_thread_exit_def ready_def same_range_def)
next
  case TlsFreed
  then show ?thesis using w(2) by (simp add: ready_def)
next
  case (TlsLive t)
  have th: "th < length (tls_ptrs w)" using w(2) by (simp add: ready_def)
  have t: "tls_at w th = t" using TlsLive by (simp add: tls_at_def)
  have o: "books w (\<lambda>c. tc_objs (t_cache t) c + cached ((tls_ptrs w)[th := TlsNull]) c) B L" "tls_ok (main w \<noteq> None) t"
    using open_tls [OF w] by (simp_all add: opened_def t)
  have freed: "cached ((tls_ptrs w)[th := TlsFreed]) = cached ((tls_ptrs w)[th := TlsNull])" using cached_upd [OF th, of TlsFreed] by auto
  have ptrs: "\<forall>p\<in>set ((tls_ptrs w)[th := TlsFreed]). ptr_ok (main w \<noteq> None) p"
    using w(1) set_update_subset_insert [of "tls_ptrs w" th TlsFreed] by (auto simp: world_ok_def ptr_ok_def)
  show ?thesis
  proof (cases "t_heap t")
    case False
    then have "books w (cached ((tls_ptrs w)[th := TlsFreed])) B L"
      using o books_cong [of "\<lambda>c. tc_objs (t_cache t) c + cached ((tls_ptrs w)[th := TlsNull]) c" "cached ((tls_ptrs w)[th := TlsFreed])" L L w B] freed
      by (simp add: tls_ok_def)
    then show ?thesis using TlsLive th False ptrs by (simp add: on_thread_exit_def tls_flush_def world_ok_def same_range_def)
  next
    case True
    then obtain h where h: "main w = Some h" using o(2) by (auto simp: tls_ok_def)
    have hb: "heap_books h (\<lambda>c. tc_objs (t_cache t) c + cached ((tls_ptrs w)[th := TlsNull]) c) B L" "pool_base w \<le> hbase h" "hbase h + budget_bytes h \<le> pool_end w"
      using o(1) h by (simp_all add: books_def)
    have hi: "heap_inv h" "acct h" "\<forall>b\<in>#B. layout_ok (snd b)" using hb(1) by (simp_all add: heap_books_def)
    have l: "live_objs h c = tc_objs (t_cache t) c + (cached ((tls_ptrs w)[th := TlsNull]) c + owed B c + L c)" if "small_class c" for c
      using hb(1) that by (simp add: heap_books_def ac_simps)
    have tc: "tc_ok (t_cache t)" using o(2) by (simp add: tls_ok_def)
    obtain h' tc' where f: "flush_all x h (t_cache t) = Some (h', tc')" "flushed h h' (tc_objs (t_cache t))"
      using flush_all_ok [OF hi(1) tc, of x] l by (metis mset_subset_eq_add_left)
    have "live_objs h' d = cached ((tls_ptrs w)[th := TlsFreed]) d + owed B d + L d" if "small_class d" for d
      using f(2) l [OF that] that unfolding flushed_def freed by (metis add_left_cancel)
    then have "heap_books h' (cached ((tls_ptrs w)[th := TlsFreed])) B L"
      using books_frame [OF hb(1), of h' B] f(2) hi(2,3) by (simp add: flushed_def)
    then have "world_ok (w\<lparr>main := Some h', tls_ptrs := (tls_ptrs w)[th := TlsFreed]\<rparr>) B L"
      using hb(2,3) f(2) ptrs h by (simp add: world_ok_def books_def flushed_def same_frame_def)
    moreover have "on_thread_exit x th w = Some (w\<lparr>main := Some h', tls_ptrs := (tls_ptrs w)[th := TlsFreed]\<rparr>)"
      using TlsLive th True h f(1) by (simp add: on_thread_exit_def tls_flush_def)
    ultimately show ?thesis using th h by (simp add: same_range_def)
  qed
qed

subsection \<open>Geometry of the ledger\<close>

lemma object_no_run:
  assumes hi: "heap_inv h" and c: "small_class c" "p \<in># live_objs h c" and a: "a < nsp h" "0 < run_spans (large h) ! a" "p = hbase h + a * SPAN_BYTES"
  shows False
proof -
  obtain ls where h: "hinv h ls" "sinv h" using hi by (auto simp: heap_inv_def)
  obtain k where k: "k \<in> tiles h c" "p = addr (hbase h) c k" using live_in_tiles [OF h(1) c] by blast
  have s: "block_owner h (p, CLASS_SIZES ! c) (False, k div 8192)" using small_owner [OF h(1) c(1) k(1)] k(2) by simp
  have r: "block_owner h (p, run_spans (large h) ! a * 65536) (True, a)" using large_owner [of a h] a run_len [OF hi] by simp
  show False using owner_unique [OF h(2) s r, of p] osz_pos [OF c(1)] a(2) by simp
qed

lemma same_class_size: "small_class c \<Longrightarrow> small_class d \<Longrightarrow> CLASS_SIZES ! c = CLASS_SIZES ! d \<Longrightarrow> c = d"
  using class_sizes_mono [of c d] class_sizes_mono [of d c] by (cases c d rule: linorder_cases) (auto simp: small_class_def)

lemma books_apart:
  assumes b: "heap_books h C B L" and x: "(p, l) \<in># B" "(q, m) \<in># B - {#(p, l)#}"
  shows "p + blk_bytes l \<le> q \<or> q + blk_bytes m \<le> p"
proof (rule ccontr)
  assume no: "\<not> ?thesis"
  have hi: "heap_inv h" using b by (simp add: heap_books_def)
  then obtain ls where ls: "hinv h ls" by (auto simp: heap_inv_def)
  have y: "(q, m) \<in># B" using x(2) by (rule in_diffD)
  have e: "p = q" "blk_bytes l = blk_bytes m"
    using no blocks_disjoint [OF hi books_block(1) [OF b x(1)] books_block(1) [OF b y]] by auto
  have part: "2 \<le> count (image_mset fst (filter_mset P B)) p" if "P (p, l)" "P (q, m)" for P
  proof -
    obtain N where "B = add_mset (p, l) (add_mset (q, m) N)" using x by (metis insert_DiffM)
    then show ?thesis using that e(1) by simp
  qed
  show False
  proof (cases "blk_class l"; cases "blk_class m")
    assume n: "blk_class l = None" "blk_class m = None"
    then have "2 \<le> count (image_mset fst (runs_of B)) p" using part [of "\<lambda>b. blk_class (snd b) = None"] by (simp add: runs_of_def)
    then show False using run_starts_once [of h p] b by (simp add: heap_books_def)
  next
    fix c assume n: "blk_class l = None" "blk_class m = Some c"
    then have sc: "small_class c" "q \<in># live_objs h c" using books_block(3) [OF b y] by simp_all
    then show False using books_block(4) [OF b x(1) n(1)] object_no_run [OF hi sc] e(1) by force
  next
    fix c assume n: "blk_class l = Some c" "blk_class m = None"
    then have sc: "small_class c" "p \<in># live_objs h c" using books_block(3) [OF b x(1)] by simp_all
    then show False using books_block(4) [OF b y n(2)] object_no_run [OF hi sc] e(1) by force
  next
    fix c d assume n: "blk_class l = Some c" "blk_class m = Some d"
    have sc: "small_class c" "small_class d" using books_block(3) [OF b x(1)] books_block(3) [OF b y] n by auto
    then have cd: "c = d" using e(2) n same_class_size by (simp add: blk_bytes_def)
    then have "2 \<le> count (owed B c) p" using part [of "\<lambda>b. blk_class (snd b) = Some c"] n by (simp add: owed_def)
    moreover have "count (owed B c) p \<le> count (live_objs h c) p" using b sc(1) by (simp add: heap_books_def)
    moreover have "count (live_objs h c) p \<le> 1" using all_objs_once [OF sc(1), of h p] by (simp add: live_objs_def)
    ultimately show False by linarith
  qed
qed

subsection \<open>Alignment\<close>

lemma power_dvd_le: "(2::nat) ^ k \<le> 2 ^ n \<Longrightarrow> (2::nat) ^ k dvd 2 ^ n"
  by (meson le_imp_power_dvd one_less_numeral_iff power_le_imp_le_exp semiring_norm(76))

lemma mod_add_dvd: "(d::nat) dvd y \<Longrightarrow> (x + y) mod d = x mod d"
  by (auto elim: dvdE)

text \<open>A block starts as far from an aligned address as the arena does.\<close>

lemma block_align:
  assumes b: "heap_books h C B L" and x: "(p, l) \<in># B" and s: "l_align l \<le> SPAN_BYTES"
  shows "p mod l_align l = hbase h mod l_align l"
proof -
  have l: "layout_ok l" using books_block(2) [OF b x] .
  obtain k where k: "l_align l = 2 ^ k" using l by (auto simp: layout_ok_def)
  have d: "l_align l dvd 65536" using power_dvd_le [of k 16] k s by simp
  show ?thesis
  proof (cases "blk_class l")
    case None
    then obtain a where a: "p = hbase h + a * SPAN_BYTES" using books_block(4) [OF b x] by blast
    have "l_align l dvd a * 65536" using d by simp
    then show ?thesis using a by (simp only: span_consts mod_add_dvd)
  next
    case (Some c)
    have hi: "heap_inv h" using b by (simp add: heap_books_def)
    then obtain ls where ls: "hinv h ls" by (auto simp: heap_inv_def)
    have c: "small_class c" "p \<in># live_objs h c" using books_block(3) [OF b x Some] by simp_all
    obtain j where j: "p = hbase h + j div 8192 * 65536 + j mod 8192 * CLASS_SIZES ! c"
      using live_in_tiles [OF ls c] by (auto simp: addr_def)
    have "l_align l dvd CLASS_SIZES ! c"
    proof (cases "l_align l \<le> MIN_ALIGN")
      case True
      then have "l_align l dvd 8" using power_dvd_le [of k 3] k by (simp add: MIN_ALIGN_def)
      moreover have "8 dvd CLASS_SIZES ! c" using class_sizes_multiple [of c] c(1) by (simp add: small_class_def mod_eq_0_iff_dvd)
      ultimately show ?thesis using dvd_trans by blast
    next
      case False
      obtain r where r: "aligned_class (l_need l) (l_align l) = Some r" "\<forall>c. r = Some c \<longrightarrow> l_align l dvd CLASS_SIZES ! c"
        using aligned_class_spec [of "l_align l" "l_need l"] k by auto
      then show ?thesis using Some False by (auto simp: blk_class_def split: if_splits)
    qed
    then have "l_align l dvd j div 8192 * 65536 + j mod 8192 * CLASS_SIZES ! c" using d by simp
    then show ?thesis using j by (simp only: add.assoc mod_add_dvd)
  qed
qed

subsection \<open>Configuration\<close>

lemma configure_ok:
  assumes w: "world_ok w B L" and m: "main w = None" and c: "configure_with k bl w = Some w'" and b: "build_ok bl (pool_base w')"
  shows "world_ok w' B L" "main w' \<noteq> None" "tls_ptrs w' = tls_ptrs w"
proof -
  obtain t h res where st: "build_standalone k bl = Some (t, Inr (h, res))"
    and w': "w' = w\<lparr>main := Some h, pool_base := res_base res, pool_end := res_base res + res_len res\<rparr>"
    using m c by (auto simp: configure_with_def split: bind_splits sum.splits prod.splits)
  have "build_ok bl (res_base res)" using b by (simp add: w')
  note i = standalone_ok [OF st this]
  show "main w' \<noteq> None" "tls_ptrs w' = tls_ptrs w" by (simp_all add: w')
  have "{a. a < nsp h \<and> 0 < run_spans (large h) ! a} = {}" using i(4) by auto
  then have "run_starts h = {#}" by (simp only: run_starts_def) simp
  moreover have e: "B = {#}" "\<forall>c. small_class c \<longrightarrow> cached (tls_ptrs w) c = {#} \<and> L c = {#}" using w m by (simp_all add: world_ok_def books_def)
  ultimately have "heap_books h (cached (tls_ptrs w)) B L" using i(1-3) by (simp add: heap_books_def owed_def runs_of_def)
  moreover have "ptr_ok True p" if "ptr_ok False p" for p using that by (auto simp: ptr_ok_def tls_ok_def)
  ultimately show "world_ok w' B L" using w m i(6,7) by (auto simp: world_ok_def books_def w')
qed

lemma reclaim_world:
  assumes w: "world_ok w B L" and m: "main w = Some h" and r: "reclaim_empty_spans x h cap = Some (h', n)"
  shows "world_ok (w\<lparr>main := Some h'\<rparr>) B L"
proof -
  have hb: "heap_books h (cached (tls_ptrs w)) B L" "pool_base w \<le> hbase h" "hbase h + budget_bytes h \<le> pool_end w"
    using w m by (simp_all add: world_ok_def books_def)
  then have rc: "reclaimed h h' n" using reclaim_empty_spans_ok [of h x cap] r by (auto simp: heap_books_def)
  have "acct h'" using rc hb(1) same_acct [of h h'] by (simp add: reclaimed_def heap_books_def)
  moreover have "run_starts h' = run_starts h" "run_block h' = run_block h" using rc by (simp_all add: reclaimed_def run_starts_def run_block_def fun_eq_iff)
  ultimately have "heap_books h' (cached (tls_ptrs w)) B L" using hb(1) rc by (simp add: heap_books_def reclaimed_def)
  then show ?thesis using w m hb(2,3) rc by (simp add: world_ok_def books_def reclaimed_def)
qed

subsection \<open>Histories\<close>

definition apart_from :: "nat \<times> layout \<Rightarrow> nat \<times> layout \<Rightarrow> bool" where
  "apart_from a b \<longleftrightarrow> fst a + l_size (snd a) \<le> fst b \<or> fst b + l_size (snd b) \<le> fst a"

definition disjoint_blocks :: "ledger \<Rightarrow> bool" where
  "disjoint_blocks M \<longleftrightarrow> (\<forall>a\<in>#M. \<forall>b\<in>#M - {#a#}. apart_from a b)"

definition off_pool :: "world \<Rightarrow> nat \<times> layout \<Rightarrow> bool" where
  "off_pool w b \<longleftrightarrow> fst b + l_size (snd b) \<le> pool_base w \<or> pool_end w \<le> fst b"

text \<open>
  The contract of the system allocator: null, or memory apart from what it has handed out and
  from the reservation; the kernel maps the reservation where nothing is live.
\<close>

definition sys_fresh :: "world \<Rightarrow> ledger \<Rightarrow> nat \<Rightarrow> layout \<Rightarrow> bool" where
  "sys_fresh w S p l \<longleftrightarrow> p = 0 \<or> (off_pool w (p, l) \<and> (\<forall>b\<in>#S. apart_from (p, l) b))"

definition map_fresh :: "world \<Rightarrow> ledger \<Rightarrow> bool" where
  "map_fresh w S \<longleftrightarrow> (\<forall>b\<in>#S. off_pool w b)"

definition pool_ledger :: "served \<Rightarrow> layout \<Rightarrow> ledger \<Rightarrow> ledger" where
  "pool_ledger s l B = (case s of FromPool p \<Rightarrow> add_mset (p, l) B | _ \<Rightarrow> B)"

definition sys_ledger :: "served \<Rightarrow> layout \<Rightarrow> ledger \<Rightarrow> ledger" where
  "sys_ledger s l S = (case s of FromSystem p \<Rightarrow> if p = 0 then S else add_mset (p, l) S | _ \<Rightarrow> S)"

text \<open>
  A state is the world, the blocks from the pool and the blocks from the system allocator. With
  \<open>cal\<close> the thread-local storage can always be allocated.
\<close>

inductive g_step :: "bool \<Rightarrow> world \<times> ledger \<times> ledger \<Rightarrow> world \<times> ledger \<times> ledger \<Rightarrow> bool" for cal where
  conf: "configure_with k bl w = Some w' \<Longrightarrow> main w = None \<Longrightarrow> build_ok bl (pool_base w') \<Longrightarrow> map_fresh w' S \<Longrightarrow> g_step cal (w, B, S) (w', B, S)"
| spawn: "g_step cal (w, B, S) (w\<lparr>tls_ptrs := tls_ptrs w @ [TlsNull]\<rparr>, B, S)"
| alloc: "ready w th \<Longrightarrow> layout_ok l \<Longrightarrow> servable (main w) l \<Longrightarrow> (cal \<longrightarrow> ge_calloc e) \<Longrightarrow> sys_fresh w S (ge_sys e) l \<Longrightarrow> g_alloc e th l w = Some (w', s) \<Longrightarrow>
    (\<forall>bs. s \<noteq> Aborted bs) \<Longrightarrow> g_step cal (w, B, S) (w', pool_ledger s l B, sys_ledger s l S)"
| dealloc: "ready w th \<Longrightarrow> (cal \<longrightarrow> ge_calloc e) \<Longrightarrow> (p, l) \<in># B + S \<Longrightarrow> g_dealloc e th p l w = Some (w', sys) \<Longrightarrow>
    g_step cal (w, B, S) (w', if sys then B else B - {#(p, l)#}, if sys then S - {#(p, l)#} else S)"
| exit: "ready w th \<Longrightarrow> on_thread_exit x th w = Some w' \<Longrightarrow> g_step cal (w, B, S) (w', B, S)"
| sweep: "main w = Some h \<Longrightarrow> reclaim_empty_spans x h cap = Some (h', n) \<Longrightarrow> g_step cal (w, B, S) (w\<lparr>main := Some h'\<rparr>, B, S)"

definition sys_ok :: "world \<Rightarrow> ledger \<Rightarrow> bool" where
  "sys_ok w S \<longleftrightarrow> disjoint_blocks S \<and> (\<forall>b\<in>#S. off_pool w b \<and> 0 < l_size (snd b))"

definition g_inv :: "bool \<Rightarrow> world \<times> ledger \<times> ledger \<Rightarrow> bool" where
  "g_inv cal = (\<lambda>(w, B, S). (\<exists>L. world_ok w B L \<and> (cal \<longrightarrow> L = (\<lambda>c. {#}))) \<and> sys_ok w S)"

lemma apart_sym: "apart_from a b = apart_from b a"
  by (auto simp: apart_from_def)

lemma disjoint_add:
  assumes "disjoint_blocks M" "\<forall>b\<in>#M. apart_from a b"
  shows "disjoint_blocks (add_mset a M)"
  unfolding disjoint_blocks_def
proof (intro ballI)
  fix x y assume x: "x \<in># add_mset a M" and y: "y \<in># add_mset a M - {#x#}"
  show "apart_from x y"
  proof (cases "x = a")
    case True
    then show ?thesis using y assms(2) by simp
  next
    case False
    then have xm: "x \<in># M" using x by simp
    then obtain N where "M = add_mset x N" by (rule mset_add)
    then have "y = a \<or> y \<in># M - {#x#}" using y by auto
    then show ?thesis using assms xm apart_sym unfolding disjoint_blocks_def by metis
  qed
qed

lemma disjoint_diff: "disjoint_blocks M \<Longrightarrow> disjoint_blocks (M - {#a#})"
  unfolding disjoint_blocks_def by (metis diff_right_commute in_diffD)

lemma sys_ok_range: "same_range w w' \<Longrightarrow> sys_ok w S \<Longrightarrow> sys_ok w' S"
  by (simp add: sys_ok_def off_pool_def same_range_def)

lemma ledger_off_pool: "off_pool w (p, l) \<Longrightarrow> 0 < l_size l \<Longrightarrow> \<not> in_pool w p"
  by (auto simp: off_pool_def in_pool_def)

lemma sys_dealloc: "sys_ok w S \<Longrightarrow> (p, l) \<in># S \<Longrightarrow> g_dealloc e th p l w = Some (w, True)"
  using ledger_off_pool by (fastforce simp: sys_ok_def g_dealloc_def)

lemma g_step_inv:
  assumes "g_step cal u v" "g_inv cal u"
  shows "g_inv cal v"
  using assms
proof cases
  case (conf k bl w w' S B)
  then obtain L where L: "world_ok w B L" "cal \<longrightarrow> L = (\<lambda>c. {#})" "sys_ok w S" using assms(2) by (auto simp: g_inv_def)
  have "sys_ok w' S" using L(3) conf by (simp add: sys_ok_def map_fresh_def)
  then show ?thesis using configure_ok(1) [OF L(1)] conf L(2) by (auto simp: g_inv_def)
next
  case (spawn w B S)
  then obtain L where L: "world_ok w B L" "cal \<longrightarrow> L = (\<lambda>c. {#})" "sys_ok w S" using assms(2) by (auto simp: g_inv_def)
  have "cached (tls_ptrs w @ [TlsNull]) = cached (tls_ptrs w)" by (simp add: cached_def fun_eq_iff)
  then have "world_ok (w\<lparr>tls_ptrs := tls_ptrs w @ [TlsNull]\<rparr>) B L" using L(1) by (auto simp: world_ok_def ptr_ok_def)
  then show ?thesis using L spawn by (auto simp: g_inv_def sys_ok_def off_pool_def)
next
  case (alloc w th l e S w' s B)
  then obtain L where L: "world_ok w B L" "cal \<longrightarrow> L = (\<lambda>c. {#})" "sys_ok w S" using assms(2) by (auto simp: g_inv_def)
  obtain L2 where r: "same_range w w'" "ge_calloc e \<longrightarrow> L2 = L"
    "case s of FromPool p \<Rightarrow> world_ok w' (add_mset (p, l) B) L2 \<and> main w \<noteq> None | FromSystem p \<Rightarrow> world_ok w' B L2 \<and> p = ge_sys e \<and> main w = None
       | Aborted bs \<Rightarrow> world_ok w' B L2 \<and> starved w l | Dangling p \<Rightarrow> False"
    using g_alloc_ok [OF L(1) alloc(3-5), of e] alloc(8) by auto
  have S': "sys_ok w' S" using sys_ok_range [OF r(1) L(3)] .
  have "sys_ok w' (sys_ledger s l S)"
  proof (cases s)
    case (FromSystem p)
    then have p: "p = ge_sys e" using r(3) by simp
    show ?thesis
    proof (cases "p = 0")
      case False
      then have f: "off_pool w' (p, l)" "\<forall>b\<in>#S. apart_from (p, l) b" "0 < l_size l"
        using alloc(7) p r(1) layout_facts(2) [OF alloc(4)] by (simp_all add: sys_fresh_def off_pool_def same_range_def)
      then show ?thesis using S' FromSystem False disjoint_add [of S "(p, l)"] by (simp add: sys_ledger_def sys_ok_def)
    qed (use S' FromSystem in \<open>simp add: sys_ledger_def\<close>)
  qed (use S' in \<open>simp_all add: sys_ledger_def\<close>)
  moreover have "world_ok w' (pool_ledger s l B) L2" using r(3) by (auto simp: pool_ledger_def split: served.splits)
  ultimately show ?thesis using alloc r(2) L(2) by (auto simp: g_inv_def)
next
  case (dealloc w th e p l B S w' sys)
  then obtain L where L: "world_ok w B L" "cal \<longrightarrow> L = (\<lambda>c. {#})" "sys_ok w S" using assms(2) by (auto simp: g_inv_def)
  show ?thesis
  proof (cases "(p, l) \<in># B")
    case True
    from g_dealloc_ok [OF L(1) dealloc(3) True, of e] obtain L2 where r: "sys = False" "same_range w w'" "ge_calloc e \<longrightarrow> L2 = L" "world_ok w' (B - {#(p, l)#}) L2"
      using dealloc(6) by auto
    then show ?thesis using dealloc L(2) sys_ok_range [OF r(2) L(3)] by (auto simp: g_inv_def)
  next
    case False
    then have s: "(p, l) \<in># S" using dealloc(5) by simp
    then have "w' = w" "sys = True" using sys_dealloc [OF L(3) s, of e th] dealloc(6) by auto
    moreover have "sys_ok w (S - {#(p, l)#})" using L(3) disjoint_diff by (auto simp: sys_ok_def dest: in_diffD)
    ultimately show ?thesis using dealloc L(1,2) by (auto simp: g_inv_def)
  qed
next
  case (exit w th x w' B S)
  then obtain L where L: "world_ok w B L" "cal \<longrightarrow> L = (\<lambda>c. {#})" "sys_ok w S" using assms(2) by (auto simp: g_inv_def)
  then have "same_range w w'" "world_ok w' B L" using thread_exit_ok [OF L(1) exit(3), of x] exit(4) by auto
  then show ?thesis using exit L sys_ok_range by (auto simp: g_inv_def)
next
  case (sweep w h x cap h' n B S)
  then obtain L where L: "world_ok w B L" "cal \<longrightarrow> L = (\<lambda>c. {#})" "sys_ok w S" using assms(2) by (auto simp: g_inv_def)
  then have "world_ok (w\<lparr>main := Some h'\<rparr>) B L" using reclaim_world sweep by blast
  then show ?thesis using sweep L by (auto simp: g_inv_def sys_ok_def off_pool_def)
qed

abbreviation g_start :: "world \<times> ledger \<times> ledger" where
  "g_start \<equiv> (world_new, {#}, {#})"

lemma g_start_inv: "g_inv cal g_start"
  by (auto simp: g_inv_def world_ok_def books_def world_new_def cached_def sys_ok_def disjoint_blocks_def)

lemma g_steps_inv: "(g_step cal)\<^sup>*\<^sup>* g_start v \<Longrightarrow> g_inv cal v"
  by (induction rule: rtranclp_induct) (use g_start_inv g_step_inv in blast)+

lemma disjoint_union:
  assumes "disjoint_blocks M" "disjoint_blocks N" "\<forall>a\<in>#M. \<forall>b\<in>#N. apart_from a b"
  shows "disjoint_blocks (M + N)"
  unfolding disjoint_blocks_def
proof (intro ballI)
  fix x y assume x: "x \<in># M + N" and y: "y \<in># M + N - {#x#}"
  show "apart_from x y"
  proof (cases "x \<in># M")
    case True
    then obtain M' where "M = add_mset x M'" by (rule mset_add)
    then have "y \<in># M - {#x#} \<or> y \<in># N" using y by auto
    then show ?thesis using assms(1,3) True unfolding disjoint_blocks_def by blast
  next
    case False
    then have xn: "x \<in># N" using x by simp
    then obtain N' where "N = add_mset x N'" by (rule mset_add)
    then have "y \<in># M \<or> y \<in># N - {#x#}" using y by auto
    then show ?thesis using assms(2,3) xn apart_sym unfolding disjoint_blocks_def by metis
  qed
qed

subsection \<open>Accounting\<close>

lemma owed_sum:
  assumes "\<forall>b\<in>#B. \<forall>c. blk_class (snd b) = Some c \<longrightarrow> c \<in> {1..<NUM_CLASSES}"
  shows "(\<Sum>c\<in>{1..<NUM_CLASSES}. f c * size (owed B c)) = (\<Sum>b\<in>#B. case blk_class (snd b) of Some c \<Rightarrow> (f c :: nat) | None \<Rightarrow> 0)"
  using assms
proof (induction B)
  case empty
  then show ?case by (simp add: owed_def)
next
  case (add b B)
  obtain p l where b: "b = (p, l)" by (cases b)
  show ?case
  proof (cases "blk_class l")
    case None
    then show ?thesis using add b by simp
  next
    case (Some c)
    then have c: "c \<in> {1..<NUM_CLASSES}" using add.prems b by simp
    have "(\<Sum>d\<in>{1..<NUM_CLASSES}. f d * size (owed (add_mset b B) d)) = (\<Sum>d\<in>{1..<NUM_CLASSES}. f d * size (owed B d) + (if d = c then f c else 0))"
      unfolding b by (intro sum.cong) (auto simp: Some)
    also have "\<dots> = (\<Sum>d\<in>{1..<NUM_CLASSES}. f d * size (owed B d)) + f c" using c by (simp add: sum.distrib del: NUM_CLASSES_eq)
    finally show ?thesis using add b Some by simp
  qed
qed

lemma run_sums:
  assumes b: "heap_books h C B L"
  shows "(\<Sum>n\<leftarrow>run_spans (large h). n * SPAN_BYTES) = (\<Sum>b\<in>#runs_of B. blk_bytes (snd b))"
    "length (filter (\<lambda>n. 0 < n) (run_spans (large h))) = size (runs_of B)"
proof -
  let ?rs = "run_spans (large h)"
  let ?R = "{a. a < nsp h \<and> 0 < ?rs ! a}" and ?g = "\<lambda>p. ?rs ! ((p - hbase h) div 65536) * 65536"
  have hi: "heap_inv h" and im: "image_mset fst (runs_of B) = run_starts h" using b by (simp_all add: heap_books_def)
  have len: "length ?rs = nsp h" using run_len [OF hi] .
  have "length (filter (\<lambda>n. 0 < n) ?rs) = card ?R" by (simp add: length_filter_conv_card len)
  also have "\<dots> = size (run_starts h)" by (simp add: run_starts_def)
  also have "\<dots> = size (runs_of B)" by (simp flip: im)
  finally show "length (filter (\<lambda>n. 0 < n) ?rs) = size (runs_of B)" .
  have "blk_bytes (snd x) = ?g (fst x)" if "x \<in># runs_of B" for x
  proof -
    have "run_block h x" using b that by (simp add: heap_books_def)
    moreover have "blk_class (snd x) = None" using that by (simp add: runs_of_def)
    ultimately show ?thesis by (auto simp: run_block_def blk_bytes_def)
  qed
  then have "(\<Sum>b\<in>#runs_of B. blk_bytes (snd b)) = (\<Sum>p\<in>#image_mset fst (runs_of B). ?g p)" by (simp add: image_mset.compositionality comp_def cong: image_mset_cong)
  also have "\<dots> = (\<Sum>a\<in>?R. ?rs ! a * 65536)" unfolding im run_starts_def by (simp add: image_mset.compositionality comp_def sum_unfold_sum_mset)
  also have "\<dots> = (\<Sum>a<nsp h. ?rs ! a * 65536)" by (rule sum.mono_neutral_left) auto
  also have "\<dots> = (\<Sum>n\<leftarrow>?rs. n * 65536)" using sum_list_sum_nth [of "map (\<lambda>n. n * 65536) ?rs"] len by (simp add: atLeast0LessThan)
  finally show "(\<Sum>n\<leftarrow>?rs. n * SPAN_BYTES) = (\<Sum>b\<in>#runs_of B. blk_bytes (snd b))" by simp
qed

definition cached_bytes :: "tls_ptr list \<Rightarrow> nat" where
  "cached_bytes ps = (\<Sum>c\<in>{1..<NUM_CLASSES}. CLASS_SIZES ! c * size (cached ps c))"

definition cached_count :: "tls_ptr list \<Rightarrow> nat" where
  "cached_count ps = (\<Sum>c\<in>{1..<NUM_CLASSES}. size (cached ps c))"

lemma runs_split: "(\<Sum>b\<in>#B. f b) = (\<Sum>b\<in>#B. if blk_class (snd b) = None then 0 else f b) + (\<Sum>b\<in>#runs_of B. (f b :: nat))"
proof (induction B)
  case (add b B)
  then show ?case by (cases b) simp
qed (simp add: runs_of_def)

lemma runs_split_size: "size B = (\<Sum>x\<in>#B. if blk_class (snd x) = None then 0 else 1) + size (runs_of B)"
proof (induction B)
  case (add b B)
  then show ?case by (cases b) simp
qed (simp add: runs_of_def)

lemma live_exact:
  assumes b: "heap_books h C B (\<lambda>c. {#})"
  shows "live_total h = (\<Sum>c\<in>{1..<NUM_CLASSES}. CLASS_SIZES ! c * size (C c)) + (\<Sum>b\<in>#B. blk_bytes (snd b))"
    "live_count h = (\<Sum>c\<in>{1..<NUM_CLASSES}. size (C c)) + size B"
proof -
  have cl: "\<forall>x\<in>#B. \<forall>c. blk_class (snd x) = Some c \<longrightarrow> c \<in> {1..<NUM_CLASSES}"
    using b layout_facts(5) by (fastforce simp: heap_books_def small_class_def)
  have l: "size (live_objs h c) = size (C c) + size (owed B c)" if "c \<in> {1..<NUM_CLASSES}" for c
    using b that by (simp add: heap_books_def small_class_def)
  have e: "(\<Sum>c\<in>{1..<NUM_CLASSES}. f c * size (live_objs h c)) = (\<Sum>c\<in>{1..<NUM_CLASSES}. f c * size (C c)) +
      (\<Sum>x\<in>#B. case blk_class (snd x) of Some c \<Rightarrow> f c | None \<Rightarrow> 0)" for f :: "nat \<Rightarrow> nat"
    unfolding owed_sum [OF cl, symmetric] sum.distrib [symmetric] using l by (intro sum.cong) (simp_all add: distrib_left)
  have "(\<Sum>x\<in>#B. case blk_class (snd x) of Some c \<Rightarrow> CLASS_SIZES ! c | None \<Rightarrow> 0) = (\<Sum>x\<in>#B. if blk_class (snd x) = None then 0 else blk_bytes (snd x))"
    by (intro arg_cong [where f = sum_mset] image_mset_cong) (simp add: blk_bytes_def split: option.split)
  then show "live_total h = (\<Sum>c\<in>{1..<NUM_CLASSES}. CLASS_SIZES ! c * size (C c)) + (\<Sum>b\<in>#B. blk_bytes (snd b))"
    unfolding live_total_def run_sums(1) [OF b] e [of "(!) CLASS_SIZES"] using runs_split [of "\<lambda>b. blk_bytes (snd b)" B] by linarith
  have "(\<Sum>x\<in>#B. case blk_class (snd x) of Some c \<Rightarrow> 1 | None \<Rightarrow> 0) = (\<Sum>x\<in>#B. if blk_class (snd x) = None then 0 else (1::nat))"
    by (intro arg_cong [where f = sum_mset] image_mset_cong) (simp split: option.split)
  moreover note runs_split_size [of B]
  ultimately show "live_count h = (\<Sum>c\<in>{1..<NUM_CLASSES}. size (C c)) + size B"
    unfolding live_count_def run_sums(2) [OF b] using e [of "\<lambda>_. 1"] by (simp del: NUM_CLASSES_eq)
qed

subsection \<open>A concrete program\<close>

text \<open>One thread; a block from the system before the configuration, a block from the pool after it.\<close>

definition word_layout :: layout where
  "word_layout = \<lparr> l_size = 8, l_align = 8 \<rparr>"

definition demo_env :: genv where
  "demo_env = \<lparr> ge_ctx = demo_ctx, ge_calloc = True, ge_sys = 65536 \<rparr>"

lemma word_layout_ok: "layout_ok word_layout" "blk_class word_layout = Some 1"
proof -
  show c: "blk_class word_layout = Some 1" by (simp add: blk_class_def word_layout_def l_need_def MIN_ALIGN_def MAX_SMALL_def class_for_iff)
  have "\<exists>k. (8::nat) = 2 ^ k" by (intro exI [of _ 3]) simp
  then show "layout_ok word_layout" unfolding layout_ok_def c by (simp add: word_layout_def l_need_def)
qed

lemma word_servable: "servable mh word_layout"
  using servable_one [OF word_layout_ok(2) demo_class(2)] .

lemma demo_layout: "\<exists>locs. block_layout 8 = Some (locs, 3728)"
proof -
  have "map_option snd (block_layout 8) = Some 3728" unfolding block_layout_def
    by (subst class_locs8) (simp_all add: headers_bytes_def HEADER_BYTES_def)
  then show ?thesis by auto
qed

lemma demo_stride: "stride_for 3728 = 4096"
  by (simp add: stride_for_def bit_len.simps)

lemma demo_build_at: "build_ok demo_builder 1048576"
  using demo_layout demo_stride by (auto simp: build_ok_def demo_builder_def U32_MAX_def div_ceil_def)

lemma demo_configure:
  assumes "main w = None"
  shows "\<exists>w' h. configure_with plain_os demo_builder w = Some w' \<and> main w' = Some h \<and> pool_base w' = 1048576 \<and> tls_ptrs w' = tls_ptrs w \<and> avail h = 16"
proof -
  obtain locs where l: "block_layout 8 = Some (locs, 3728)" using demo_layout by blast
  obtain h where h: "build_at demo_builder 1048576 = Some h" "avail h = b_budget demo_builder div SPAN_BYTES" using build_at_ok [OF demo_build_at] by blast
  obtain t r where r: "reserve plain_os 1052672 = Some (t, Inr r)" "res_base r = 1048576"
    by (auto simp: reserve_def reserve_with_def opts_new_def choose_pages_def preflight_def memlock_limit_def U64_MAX_def map_pages_def
        mmap_region_def plain_os_def hint_pages_def lock_pages_def Let_def)
  have b: "b_cap_per_class demo_builder = 8" "b_num_cpus demo_builder = 1" "b_budget demo_builder = 1048576" by (simp_all add: demo_builder_def)
  have "build_standalone plain_os demo_builder = Some (t, Inr (h, r))" using l demo_stride r h(1) by (simp add: build_standalone_def reserve_bytes_def b)
  then show ?thesis using assms r h(2) b(3) by (simp add: configure_with_def)
qed

lemma demo_history:
  "\<exists>w p. (g_step True)\<^sup>*\<^sup>* g_start (w, {#(p, word_layout)#}, {#(65536, word_layout)#}) \<and> ready w 0 \<and> main w \<noteq> None \<and>
     length (tls_ptrs w) = 1"
proof -
  let ?w1 = "world_new\<lparr>tls_ptrs := [TlsNull]\<rparr>" and ?l = word_layout
  have s1: "g_step True g_start (?w1, {#}, {#})" using g_step.spawn [of True world_new "{#}" "{#}"] by (simp add: world_new_def)
  have i1: "g_inv True (?w1, {#}, {#})" using g_step_inv [OF s1 g_start_inv] .
  have L1: "world_ok ?w1 {#} (\<lambda>c. {#})" using i1 by (auto simp: g_inv_def)
  have r1: "ready ?w1 0" "main ?w1 = None" by (simp_all add: ready_def world_new_def)
  obtain s w2 where 2: "g_alloc demo_env 0 ?l ?w1 = Some (w2, s)" "same_range ?w1 w2" "s = FromSystem 65536" "ready w2 0"
  proof -
    obtain s w2 L2 where q: "g_alloc demo_env 0 ?l ?w1 = Some (w2, s)" "same_range ?w1 w2" "ready w2 0"
      "case s of FromPool p \<Rightarrow> world_ok w2 (add_mset (p, ?l) {#}) L2 \<and> main ?w1 \<noteq> None | FromSystem p \<Rightarrow> world_ok w2 {#} L2 \<and> p = ge_sys demo_env \<and> main ?w1 = None
         | Aborted bs \<Rightarrow> world_ok w2 {#} L2 \<and> starved ?w1 ?l | Dangling p \<Rightarrow> False"
      using g_alloc_ok [OF L1 r1(1) word_layout_ok(1) word_servable, of demo_env] by blast
    have "s = FromSystem 65536" using q(4) r1(2) by (cases s) (simp_all add: demo_env_def starved_def)
    then show thesis using that q by blast
  qed
  have f1: "sys_fresh ?w1 {#} (ge_sys demo_env) ?l" by (simp add: sys_fresh_def off_pool_def world_new_def)
  have s2: "g_step True (?w1, {#}, {#}) (w2, {#}, {#(65536, ?l)#})"
    using g_step.alloc [OF r1(1) word_layout_ok(1) word_servable _ f1 2(1), of True "{#}"] 2(3) by (simp add: demo_env_def pool_ledger_def sys_ledger_def)
  have m2: "main w2 = None" using 2(2) r1(2) by (simp add: same_range_def)
  obtain w3 h where 3: "configure_with plain_os demo_builder w2 = Some w3" "main w3 = Some h" "pool_base w3 = 1048576" "tls_ptrs w3 = tls_ptrs w2" "avail h = 16"
    using demo_configure [OF m2] by blast
  have "map_fresh w3 {#(65536, ?l)#}" using 3(3) by (simp add: map_fresh_def off_pool_def word_layout_def)
  then have s3: "g_step True (w2, {#}, {#(65536, ?l)#}) (w3, {#}, {#(65536, ?l)#})" using g_step.conf [OF 3(1) m2] 3(3) demo_build_at by simp
  have r3: "ready w3 0" using 2(4) 3(4) by (simp add: ready_def)
  have i3: "g_inv True (w3, {#}, {#(65536, ?l)#})" using g_step_inv [OF s3 g_step_inv [OF s2 i1]] .
  then have L3: "world_ok w3 {#} (\<lambda>c. {#})" by (auto simp: g_inv_def)
  obtain p w4 where 4: "g_alloc (demo_env\<lparr>ge_sys := 0\<rparr>) 0 ?l w3 = Some (w4, FromPool p)" "same_range w3 w4" "ready w4 0"
  proof -
    obtain s w4 L2 where q: "g_alloc (demo_env\<lparr>ge_sys := 0\<rparr>) 0 ?l w3 = Some (w4, s)" "same_range w3 w4" "ready w4 0"
      "case s of FromPool p \<Rightarrow> world_ok w4 (add_mset (p, ?l) {#}) L2 \<and> main w3 \<noteq> None | FromSystem p \<Rightarrow> world_ok w4 {#} L2 \<and> p = ge_sys (demo_env\<lparr>ge_sys := 0\<rparr>) \<and> main w3 = None
         | Aborted bs \<Rightarrow> world_ok w4 {#} L2 \<and> starved w3 ?l | Dangling p \<Rightarrow> False"
      using g_alloc_ok [OF L3 r3 word_layout_ok(1) word_servable, of "demo_env\<lparr>ge_sys := 0\<rparr>"] by blast
    have "\<exists>p. s = FromPool p" using q(4) 3(2,5) word_layout_ok(2) by (cases s) (simp_all add: starved_def)
    then show thesis using that q by blast
  qed
  have "sys_fresh w3 {#(65536, ?l)#} (ge_sys (demo_env\<lparr>ge_sys := 0\<rparr>)) ?l" by (simp add: sys_fresh_def)
  then have s4: "g_step True (w3, {#}, {#(65536, ?l)#}) (w4, {#(p, ?l)#}, {#(65536, ?l)#})"
    using g_step.alloc [OF r3 word_layout_ok(1) word_servable _ _ 4(1), of True _ "{#}"] by (simp add: demo_env_def pool_ledger_def sys_ledger_def)
  have "(g_step True)\<^sup>*\<^sup>* g_start (w4, {#(p, ?l)#}, {#(65536, ?l)#})"
    using s1 s2 s3 s4 by (meson rtranclp.rtrancl_into_rtrancl rtranclp.rtrancl_refl)
  moreover have "main w4 \<noteq> None" "length (tls_ptrs w4) = 1" using 4(2) 3(2,4) 2(2) by (simp_all add: same_range_def)
  ultimately show ?thesis using 4(3) by blast
qed

subsection \<open>Properties\<close>

lemma g_inv_parts:
  assumes "g_inv cal (w, B, S)"
  shows "\<exists>L. world_ok w B L \<and> (cal \<longrightarrow> L = (\<lambda>c. {#}))" "sys_ok w S"
  using assms by (auto simp: g_inv_def)

lemma pool_block_range:
  assumes "world_ok w B L" "(p, l) \<in># B"
  shows "\<exists>h. main w = Some h \<and> pool_base w \<le> p \<and> p + l_size l \<le> pool_end w \<and>
    (l_align l \<le> SPAN_BYTES \<longrightarrow> p mod l_align l = hbase h mod l_align l) \<and> 0 < l_size l"
proof -
  obtain h where h: "main w = Some h" "heap_books h (cached (tls_ptrs w)) B L" "in_pool w p" "p + blk_bytes l \<le> pool_end w"
    using books_in_pool [of w "cached (tls_ptrs w)" B L p l] assms by (auto simp: world_ok_def)
  note lf = layout_facts [OF books_block(2) [OF h(2) assms(2)]]
  show ?thesis using h block_align [OF h(2) assms(2)] blk_bytes_enough [OF lf(1)] lf(2) by (auto simp: in_pool_def)
qed

lemma pool_disjoint: "world_ok w B L \<Longrightarrow> disjoint_blocks B"
  unfolding disjoint_blocks_def
proof (intro ballI)
  fix a b assume w: "world_ok w B L" and a: "a \<in># B" and b: "b \<in># B - {#a#}"
  obtain p l q m where e: "a = (p, l)" "b = (q, m)" by (cases a; cases b) auto
  have a': "(p, l) \<in># B" and b': "(q, m) \<in># B - {#(p, l)#}" "(q, m) \<in># B" using a b e in_diffD by auto
  obtain h where h: "heap_books h (cached (tls_ptrs w)) B L"
    using books_in_pool [of w "cached (tls_ptrs w)" B L p l] w a' by (auto simp: world_ok_def)
  have "0 < l_align l" "0 < l_align m" using layout_facts(1) books_block(2) [OF h a'] books_block(2) [OF h b'(2)] by blast+
  then show "apart_from a b" using books_apart [OF h a' b'(1)] blk_bytes_enough [of l] blk_bytes_enough [of m] by (auto simp: apart_from_def e)
qed

text \<open>
  C1. Memory safety of the global allocator. In every state that a program reaches by configuring
  it, starting threads, allocating, releasing what it holds, ending threads and sweeping, the
  blocks the program holds, whether they came from the pool or from the system allocator, do not
  overlap; a block of the pool lies in the published range and, for alignments up to a span, is
  aligned exactly as far as the arena is. The program's requests are below 2 ^ 47 bytes, are made
  by threads whose storage is not yet freed, and those of a class above 64 KiB meet an arena whose
  remaining spans are whole objects of the class or enough for the request (\<open>servable\<close>: a full
  magazine of 32 objects, or one object when the alignment exceeds the default). The system
  allocator and the kernel hand out memory that is not in use.
\<close>

theorem global_memory_safe:
  assumes "(g_step cal)\<^sup>*\<^sup>* g_start (w, B, S)"
  shows "disjoint_blocks (B + S) \<and>
    (\<forall>(p, l)\<in>#B. \<exists>h. main w = Some h \<and> pool_base w \<le> p \<and> p + l_size l \<le> pool_end w \<and>
       (l_align l \<le> SPAN_BYTES \<longrightarrow> p mod l_align l = hbase h mod l_align l))"
proof -
  obtain L where L: "world_ok w B L" and S: "sys_ok w S" using g_inv_parts [OF g_steps_inv [OF assms]] by blast
  have "apart_from a b" if "a \<in># B" "b \<in># S" for a b
  proof -
    obtain p l where a: "a = (p, l)" by (cases a)
    then show ?thesis using pool_block_range [OF L, of p l] S that by (fastforce simp: sys_ok_def off_pool_def apart_from_def)
  qed
  then have "disjoint_blocks (B + S)" using disjoint_union [OF pool_disjoint [OF L]] S by (simp add: sys_ok_def)
  then show ?thesis using pool_block_range [OF L] by fastforce
qed

theorem global_memory_safe_witness:
  "\<exists>w p. (g_step True)\<^sup>*\<^sup>* g_start (w, {#(p, word_layout)#}, {#(65536, word_layout)#}) \<and> (p + 8 \<le> 65536 \<or> 65544 \<le> p) \<and>
     pool_base w \<le> p \<and> p + 8 \<le> pool_end w"
proof -
  obtain w p where h: "(g_step True)\<^sup>*\<^sup>* g_start (w, {#(p, word_layout)#}, {#(65536, word_layout)#})" using demo_history by blast
  from global_memory_safe [OF h] show ?thesis using h by (auto simp: disjoint_blocks_def apart_from_def word_layout_def)
qed



text \<open>
  C6. The statistics are exact and nothing leaks, for the histories as above in which moreover the
  thread-local storage can always be allocated and each update of a counter is one step (no thread
  migrates inside \<open>add_local\<close>): the live bytes and the live objects of \<open>stats\<close> are those of the
  blocks that the program holds and of the objects in the caches of the threads, as long as these
  sums fit a signed 64-bit integer; when every thread has ended and every block was returned, both
  are zero.
\<close>

theorem stats_exact:
  assumes "(g_step True)\<^sup>*\<^sup>* g_start (w, B, S)" "stats w = Some st"
    and "cached_bytes (tls_ptrs w) + (\<Sum>b\<in>#B. blk_bytes (snd b)) < 2 ^ 63" "cached_count (tls_ptrs w) + size B < 2 ^ 63"
  shows "st_live_bytes st = cached_bytes (tls_ptrs w) + (\<Sum>b\<in>#B. blk_bytes (snd b)) \<and>
    st_live_objects st = cached_count (tls_ptrs w) + size B \<and>
    (B = {#} \<and> (\<forall>p\<in>set (tls_ptrs w). p = TlsNull \<or> p = TlsFreed) \<longrightarrow> st_live_bytes st = 0 \<and> st_live_objects st = 0)"
proof -
  have L: "world_ok w B (\<lambda>c. {#})" using g_inv_parts(1) [OF g_steps_inv [OF assms(1)]] by auto
  obtain h where h: "main w = Some h" "st_live_bytes st = live_bytes h" "st_live_objects st = live_objects h" using assms(2) by (auto simp: stats_def)
  have b: "heap_books h (cached (tls_ptrs w)) B (\<lambda>c. {#})" "acct h" using L h(1) by (simp_all add: world_ok_def books_def heap_books_def)
  have e: "live_total h = cached_bytes (tls_ptrs w) + (\<Sum>b\<in>#B. blk_bytes (snd b))" "live_count h = cached_count (tls_ptrs w) + size B"
    using live_exact [OF b(1)] by (simp_all add: cached_bytes_def cached_count_def del: NUM_CLASSES_eq)
  have r: "st_live_bytes st = cached_bytes (tls_ptrs w) + (\<Sum>b\<in>#B. blk_bytes (snd b))" "st_live_objects st = cached_count (tls_ptrs w) + size B"
    using live_bytes_total [OF b(2)] live_objects_total [OF b(2)] assms(3,4) h e by simp_all
  have "cached_bytes (tls_ptrs w) = 0 \<and> cached_count (tls_ptrs w) = 0" if "\<forall>p\<in>set (tls_ptrs w). p = TlsNull \<or> p = TlsFreed"
  proof -
    have "cached ps c = {#}" if "\<forall>p\<in>set ps. p = TlsNull \<or> p = TlsFreed" for ps c using that by (induction ps) (auto simp: cached_def)
    then show ?thesis using that by (simp add: cached_bytes_def cached_count_def)
  qed
  then show ?thesis using r by simp
qed

theorem stats_exact_witness:
  "\<exists>w p S st. (g_step True)\<^sup>*\<^sup>* g_start (w, {#(p, word_layout)#}, S) \<and> stats w = Some st \<and> st_live_bytes st = 8 \<and> st_live_objects st = 1"
proof -
  let ?B = "\<lambda>p. {#(p, word_layout)#}" and ?S = "{#(65536, word_layout)#}"
  obtain w p where h: "(g_step True)\<^sup>*\<^sup>* g_start (w, ?B p, ?S)" "ready w 0" "main w \<noteq> None" "length (tls_ptrs w) = 1" using demo_history by blast
  obtain L where L: "world_ok w (?B p) L" using g_inv_parts(1) [OF g_steps_inv [OF h(1)]] by blast
  obtain w' where w': "on_thread_exit demo_ctx 0 w = Some w'" "same_range w w'" "\<And>c. tls_objs (tls_ptrs w' ! 0) c = {#}"
    using thread_exit_ok [OF L h(2), of demo_ctx] by (metis option.inject)
  have s: "(g_step True)\<^sup>*\<^sup>* g_start (w', ?B p, ?S)" using rtranclp.rtrancl_into_rtrancl [OF h(1) g_step.exit [OF h(2) w'(1)]] .
  obtain q where q: "tls_ptrs w' = [q]" using w'(2) h(4) by (auto simp: same_range_def length_Suc_conv)
  have "cached (tls_ptrs w') c = {#}" for c using w'(3) [of c] by (simp add: cached_def q)
  then have z: "cached_bytes (tls_ptrs w') = 0" "cached_count (tls_ptrs w') = 0" by (simp_all add: cached_bytes_def cached_count_def)
  obtain st where st: "stats w' = Some st" using w'(2) h(3) by (auto simp: stats_def same_range_def)
  have "blk_bytes word_layout = 8" using word_layout_ok(2) by (simp add: blk_bytes_def)
  then show ?thesis using stats_exact [OF s st] z s st by auto
qed

end
