(* ===== verification/Supervisor.thy ===== *)
theory Supervisor
  imports Sub_Heap_Props
begin

text \<open>
  The background thread (\<^verbatim>\<open>toccata-core/src/supervisor.rs\<close>): the sweep over the managed sub-heaps,
  its adaptive nap, and the protocol that seizes the slab of a CPU. The usage query
  (\<^verbatim>\<open>toccata-core/src/metrics.rs\<close>) reads the same counters. The \<open>membarrier\<close> system call is a
  parameter, durations are in nanoseconds.
\<close>

subsection \<open>Model\<close>

definition RECLAIM_CAP_PER_CELL :: nat where
  "RECLAIM_CAP_PER_CELL = 32"

record sup_builder =
  sb_heaps :: "sub_heap list"
  sb_interval :: nat

definition sup_builder_new :: sup_builder where
  "sup_builder_new = \<lparr> sb_heaps = [], sb_interval = 10 * 1000000 \<rparr>"

definition manage :: "sup_builder \<Rightarrow> sub_heap \<Rightarrow> sup_builder" where
  "manage b h = b\<lparr>sb_heaps := sb_heaps b @ [h]\<rparr>"

definition with_interval :: "sup_builder \<Rightarrow> nat \<Rightarrow> sup_builder" where
  "with_interval b d = b\<lparr>sb_interval := d\<rparr>"

text \<open>The state of the thread: the sub-heaps, the statistics and the length of the next nap.\<close>

record sup_state =
  su_heaps :: "sub_heap list"
  su_sweeps :: nat
  su_reclaimed :: nat
  su_nap :: nat

definition FAST_NS :: nat where
  "FAST_NS = 1 * 1000000"

definition sup_start :: "sup_builder \<Rightarrow> sup_state" where
  "sup_start b = \<lparr> su_heaps = sb_heaps b, su_sweeps = 0, su_reclaimed = 0, su_nap = sb_interval b \<rparr>"

primrec sweep_heaps :: "ctx \<Rightarrow> sub_heap list \<Rightarrow> nat \<Rightarrow> (sub_heap list \<times> nat) rust" where
  "sweep_heaps x [] n = Some ([], n)"
| "sweep_heaps x (h # hs) n = do {
     let n1 = add64 n (reclaim_stranded_remote h);
     (h', k) \<leftarrow> reclaim_empty_spans x h RECLAIM_CAP_PER_CELL;
     (hs', m) \<leftarrow> sweep_heaps x hs (add64 n1 k);
     Some (h' # hs', m)
   }"

definition sweep_round :: "ctx \<Rightarrow> nat \<Rightarrow> sup_state \<Rightarrow> sup_state rust" where
  "sweep_round x interval s = do {
     let idle = interval;
     let fast = min FAST_NS interval;
     (hs, reclaimed) \<leftarrow> sweep_heaps x (su_heaps s) 0;
     Some \<lparr> su_heaps = hs, su_sweeps = add64 (su_sweeps s) 1, su_reclaimed = add64 (su_reclaimed s) reclaimed,
            su_nap = (if 0 < reclaimed then fast else idle) \<rparr>
   }"

text \<open>The loop of the thread when the stop flag is first seen set after \<open>n\<close> rounds, and the final sweep.\<close>

primrec sup_run :: "ctx \<Rightarrow> nat \<Rightarrow> nat \<Rightarrow> sup_state \<Rightarrow> sup_state rust" where
  "sup_run x interval 0 s = do {
     (hs, n) \<leftarrow> sweep_heaps x (su_heaps s) 0;
     Some (s\<lparr>su_heaps := hs\<rparr>)
   }"
| "sup_run x interval (Suc n) s = do {
     s1 \<leftarrow> sweep_round x interval s;
     sup_run x interval n s1
   }"

subsection \<open>Seizing a CPU\<close>

record membarrier_caps =
  private_expedited :: bool
  private_expedited_rseq :: bool

text \<open>
  The Linux side: \<open>sys cmd flags cpu\<close> is the answer of the \<open>membarrier\<close> system call; the CPU number is
  passed as a C \<open>int\<close>.
\<close>

type_synonym membarrier_sys = "int \<Rightarrow> int \<Rightarrow> int \<Rightarrow> int"

definition CMD_REGISTER_PRIVATE_EXPEDITED :: int where
  "CMD_REGISTER_PRIVATE_EXPEDITED = 2 ^ 4"

definition CMD_PRIVATE_EXPEDITED :: int where
  "CMD_PRIVATE_EXPEDITED = 2 ^ 3"

definition CMD_PRIVATE_EXPEDITED_RSEQ :: int where
  "CMD_PRIVATE_EXPEDITED_RSEQ = 2 ^ 7"

definition CMD_REGISTER_PRIVATE_EXPEDITED_RSEQ :: int where
  "CMD_REGISTER_PRIVATE_EXPEDITED_RSEQ = 2 ^ 8"

definition CMD_FLAG_CPU :: int where
  "CMD_FLAG_CPU = 2 ^ 0"

definition mb_register :: "membarrier_sys \<Rightarrow> membarrier_caps" where
  "mb_register sys =
     \<lparr> private_expedited = (sys CMD_REGISTER_PRIVATE_EXPEDITED 0 0 = 0),
       private_expedited_rseq = (sys CMD_REGISTER_PRIVATE_EXPEDITED_RSEQ 0 0 = 0) \<rparr>"

definition expedited :: "membarrier_sys \<Rightarrow> bool" where
  "expedited sys \<longleftrightarrow> sys CMD_PRIVATE_EXPEDITED 0 0 = 0"

definition expedited_rseq_cpu :: "membarrier_sys \<Rightarrow> nat \<Rightarrow> bool" where
  "expedited_rseq_cpu sys cpu \<longleftrightarrow> sys CMD_PRIVATE_EXPEDITED_RSEQ CMD_FLAG_CPU (sint (word_of_nat cpu :: 32 word)) = 0"

definition can_seize :: "membarrier_caps \<Rightarrow> bool" where
  "can_seize caps = private_expedited_rseq caps"

text \<open>The flag of the result says whether there is a guard.\<close>

definition seize_cpu :: "membarrier_caps \<Rightarrow> membarrier_sys \<Rightarrow> sub_heap \<Rightarrow> nat \<Rightarrow> (sub_heap \<times> bool) rust" where
  "seize_cpu caps sys h cpu =
     (if \<not> private_expedited_rseq caps then Some (h, False)
      else do {
        h1 \<leftarrow> set_cpu_stopped h cpu True;
        if \<not> expedited_rseq_cpu sys cpu then do {
          h2 \<leftarrow> set_cpu_stopped h1 cpu False;
          Some (h2, False)
        } else Some (h1, True)
      })"

definition guard_rebalance :: "sub_heap \<Rightarrow> nat \<Rightarrow> nat \<Rightarrow> nat \<Rightarrow> (sub_heap \<times> nat) rust" where
  "guard_rebalance h cpu cls n = rebalance_capacity h cpu cls n"

definition guard_drop :: "sub_heap \<Rightarrow> nat \<Rightarrow> sub_heap rust" where
  "guard_drop h cpu = set_cpu_stopped h cpu False"

subsection \<open>Usage\<close>

record sub_heap_usage =
  us_name :: string
  us_live_bytes :: nat
  us_live_objects :: nat
  us_budget_bytes :: nat

definition usage :: "string \<Rightarrow> sub_heap \<Rightarrow> sub_heap_usage" where
  "usage name h = \<lparr> us_name = name, us_live_bytes = live_bytes h, us_live_objects = live_objects h, us_budget_bytes = budget_bytes h \<rparr>"

text \<open>
  The supervisor beside the other threads: a round of the loop, or a step of another thread on one
  of the managed sub-heaps. Each operation is one step.
\<close>

inductive sup_step :: "nat \<Rightarrow> sup_state \<Rightarrow> sup_state \<Rightarrow> bool" for interval where
  sweep: "sweep_round x interval s = Some s' \<Longrightarrow> sup_step interval s s'"
| other: "i < length (su_heaps s) \<Longrightarrow> heap_step (su_heaps s ! i) h' \<Longrightarrow> sup_step interval s (s\<lparr>su_heaps := (su_heaps s)[i := h']\<rparr>)"

subsection \<open>Sweeps\<close>

text \<open>The spans on the active lists, and the empty ones among them, of all managed sub-heaps.\<close>

definition all_listed :: "sub_heap list \<Rightarrow> nat" where
  "all_listed hs = (\<Sum>h\<leftarrow>hs. nlisted h)"

definition all_empty :: "sub_heap list \<Rightarrow> nat" where
  "all_empty hs = (\<Sum>h\<leftarrow>hs. card (fulls h))"

definition swept :: "sub_heap \<Rightarrow> sub_heap \<Rightarrow> bool" where
  "swept h h' \<longleftrightarrow> (\<exists>n. reclaimed h h' n)"

definition managed :: "sub_heap list \<Rightarrow> bool" where
  "managed hs \<longleftrightarrow> (\<forall>h\<in>set hs. heap_inv h \<and> acct h) \<and> length hs < 2 ^ 32"

lemma empty_le: "card (fulls h) \<le> nlisted h"
  unfolding nlisted_def by (rule card_mono) (auto simp: fulls_def)

lemma all_listed_bound:
  assumes "managed hs"
  shows "all_listed hs < 2 ^ 64"
proof -
  have "nlisted h \<le> 2 ^ 32" if "h \<in> set hs" for h
  proof -
    obtain ls where "hinv h ls" using assms \<open>h \<in> set hs\<close> by (auto simp: heap_inv_def managed_def)
    then have "nsp h < 2 ^ 32" using hinv_parts(1) [of h ls] by (simp add: geom_def)
    then show ?thesis using nlisted_le [of h] by simp
  qed
  then have "all_listed hs \<le> (\<Sum>h\<leftarrow>hs. 2 ^ 32)" unfolding all_listed_def by (rule sum_list_mono)
  then have "all_listed hs \<le> length hs * 2 ^ 32" by (simp add: sum_list_triv)
  moreover have "length hs * 2 ^ 32 \<le> (2 ^ 32 - 1) * (2 ^ 32 :: nat)" using assms unfolding managed_def by (intro mult_le_mono1) simp
  ultimately show ?thesis by (simp add: le_less_trans)
qed

text \<open>A sweep reports what left the lists; it leaves no empty span unless it met a lock.\<close>

lemma sweep_heaps_ok:
  assumes "\<forall>h\<in>set hs. heap_inv h" "n + all_listed hs < 2 ^ 64"
  shows "\<exists>hs' k. sweep_heaps x hs n = Some (hs', n + k) \<and> list_all2 swept hs hs' \<and> all_listed hs' + k = all_listed hs \<and>
    all_empty hs' + k = all_empty hs \<and> ((\<forall>t. \<not> cell_busy x t) \<longrightarrow> all_empty hs' = 0)"
  using assms
proof (induction hs arbitrary: n)
  case Nil
  then show ?case by (simp add: all_listed_def all_empty_def)
next
  case (Cons h hs)
  have "heap_inv h" using Cons.prems(1) by simp
  then obtain h' k where h': "reclaim_empty_spans x h RECLAIM_CAP_PER_CELL = Some (h', k)" "reclaimed h h' k" "(\<forall>t. \<not> cell_busy x t) \<longrightarrow> fulls h' = {}"
    using reclaim_empty_spans_ok [of h x RECLAIM_CAP_PER_CELL] by (auto simp: free_of_locks_def RECLAIM_CAP_PER_CELL_def)
  have k: "nlisted h' + k = nlisted h" "card (fulls h') + k = card (fulls h)" using h'(2) by (simp_all add: reclaimed_def)
  have "add64 n (reclaim_stranded_remote h) = n" "add64 n k = n + k" "n + k + all_listed hs < 2 ^ 64"
    using Cons.prems(2) k by (simp_all add: reclaim_stranded_remote_def all_listed_def)
  moreover from this obtain hs' m where "sweep_heaps x hs (n + k) = Some (hs', n + k + m)" "list_all2 swept hs hs'" "all_listed hs' + m = all_listed hs"
    "all_empty hs' + m = all_empty hs" "(\<forall>t. \<not> cell_busy x t) \<longrightarrow> all_empty hs' = 0"
    using Cons.IH [of "n + k"] Cons.prems(1) by auto
  moreover have "swept h h'" using h'(2) by (auto simp: swept_def)
  ultimately show ?case using h'(1,3) k by (intro exI [of _ "h' # hs'"] exI [of _ "k + m"]) (simp add: all_listed_def all_empty_def)
qed

lemma swept_managed: "list_all2 swept hs hs' \<Longrightarrow> managed hs \<Longrightarrow> managed hs'"
proof -
  have "heap_inv h' \<and> acct h'" if "swept h h'" "acct h" for h h'
    using that same_acct [of h h'] by (auto simp: swept_def reclaimed_def)
  moreover assume a: "list_all2 swept hs hs'" "managed hs"
  ultimately have "\<forall>h'\<in>set hs'. heap_inv h' \<and> acct h'" unfolding managed_def
    by (metis in_set_conv_nth list_all2_lengthD list_all2_nthD2 nth_mem)
  then show ?thesis using a list_all2_lengthD [OF a(1)] by (simp add: managed_def)
qed

text \<open>One round, exactly.\<close>

lemma sweep_round_ok:
  assumes "managed (su_heaps s)"
  shows "\<exists>hs k. sweep_heaps x (su_heaps s) 0 = Some (hs, k) \<and> sweep_round x interval s = Some \<lparr> su_heaps = hs, su_sweeps = add64 (su_sweeps s) 1,
      su_reclaimed = add64 (su_reclaimed s) k, su_nap = (if 0 < k then min FAST_NS interval else interval) \<rparr> \<and>
    list_all2 swept (su_heaps s) hs \<and> managed hs \<and> all_listed hs + k = all_listed (su_heaps s) \<and> all_empty hs + k = all_empty (su_heaps s) \<and>
    ((\<forall>t. \<not> cell_busy x t) \<longrightarrow> all_empty hs = 0)"
proof -
  have "\<forall>h\<in>set (su_heaps s). heap_inv h" using assms by (simp add: managed_def)
  then obtain hs k where r: "sweep_heaps x (su_heaps s) 0 = Some (hs, 0 + k)" "list_all2 swept (su_heaps s) hs" "all_listed hs + k = all_listed (su_heaps s)"
    "all_empty hs + k = all_empty (su_heaps s)" "(\<forall>t. \<not> cell_busy x t) \<longrightarrow> all_empty hs = 0"
    using sweep_heaps_ok [of "su_heaps s" 0 x] all_listed_bound [OF assms] by auto
  then show ?thesis using swept_managed [OF r(2) assms] by (auto simp: sweep_round_def)
qed

lemma sup_step_managed:
  assumes "sup_step interval s s'" "managed (su_heaps s)"
  shows "managed (su_heaps s')"
  using assms(1)
proof cases
  case (sweep x)
  then show ?thesis using sweep_round_ok [OF assms(2), of x interval] by auto
next
  case (other i h')
  have "heap_inv h' \<and> acct h'" using heap_step_inv [OF other(3)] assms(2) other(2) by (auto simp: managed_def)
  then show ?thesis using other(1) assms(2) set_update_subset_insert [of "su_heaps s" i h'] by (auto simp: managed_def)
qed

lemma sup_steps_managed: "(sup_step interval)\<^sup>*\<^sup>* s s' \<Longrightarrow> managed (su_heaps s) \<Longrightarrow> managed (su_heaps s')"
  by (induction rule: rtranclp_induct) (auto dest: sup_step_managed)

lemma sup_run_total: "managed (su_heaps s) \<Longrightarrow> \<exists>s'. sup_run x interval n s = Some s'"
proof (induction n arbitrary: s)
  case 0
  then show ?case using sweep_round_ok [of s x interval] by auto
next
  case (Suc n)
  obtain s1 where "sweep_round x interval s = Some s1" "managed (su_heaps s1)" using sweep_round_ok [OF Suc.prems, of x interval] by auto
  then show ?case using Suc.IH by simp
qed

text \<open>
  C19. The supervisor beside the other threads. In every state reached by rounds of the supervisor
  and steps of other threads on the managed sub-heaps (\<open>heap_step\<close>, with its conditions on classes
  above 64 KiB), the next round ends without a panic, and with \<open>k\<close> the number of empty spans it
  reports: the sweeps grow by one and the reclaimed spans by \<open>k\<close> (modulo 2 ^ 64), exactly \<open>k\<close>
  empty spans have left the active lists, the next nap is the short one if and only if \<open>k\<close> is
  positive, and every sub-heap keeps its invariant, its live objects, its runs and its counters.
  A round that finds no list locked leaves no empty span on any list. The final sweep has the same
  effect on the sub-heaps as a round and does not count. The loop is total for any number of rounds.
\<close>

theorem supervisor_round_exact:
  assumes "managed (sb_heaps b)" "(sup_step (sb_interval b))\<^sup>*\<^sup>* (sup_start b) s"
  shows "\<exists>s' k. sweep_round x (sb_interval b) s = Some s' \<and> su_sweeps s' = add64 (su_sweeps s) 1 \<and> su_reclaimed s' = add64 (su_reclaimed s) k \<and>
    all_listed (su_heaps s') + k = all_listed (su_heaps s) \<and> all_empty (su_heaps s') + k = all_empty (su_heaps s) \<and>
    su_nap s' = (if 0 < k then min FAST_NS (sb_interval b) else sb_interval b) \<and>
    list_all2 (\<lambda>h h'. heap_inv h' \<and> live_objs h' = live_objs h \<and> counters h' = counters h \<and> run_spans (large h') = run_spans (large h))
      (su_heaps s) (su_heaps s') \<and>
    ((\<forall>t. \<not> cell_busy x t) \<longrightarrow> all_empty (su_heaps s') = 0) \<and>
    sup_run x (sb_interval b) 0 s = Some (s\<lparr>su_heaps := su_heaps s'\<rparr>) \<and> (\<forall>n. \<exists>s''. sup_run x (sb_interval b) n s = Some s'')"
proof -
  have m: "managed (su_heaps s)" using sup_steps_managed [OF assms(2)] assms(1) by (simp add: sup_start_def)
  obtain hs k where r: "sweep_heaps x (su_heaps s) 0 = Some (hs, k)" "sweep_round x (sb_interval b) s = Some \<lparr> su_heaps = hs, su_sweeps = add64 (su_sweeps s) 1,
      su_reclaimed = add64 (su_reclaimed s) k, su_nap = (if 0 < k then min FAST_NS (sb_interval b) else sb_interval b) \<rparr>"
    "list_all2 swept (su_heaps s) hs" "all_listed hs + k = all_listed (su_heaps s)" "all_empty hs + k = all_empty (su_heaps s)"
    "(\<forall>t. \<not> cell_busy x t) \<longrightarrow> all_empty hs = 0" using sweep_round_ok [OF m] by blast
  have "list_all2 (\<lambda>h h'. heap_inv h' \<and> live_objs h' = live_objs h \<and> counters h' = counters h \<and> run_spans (large h') = run_spans (large h)) (su_heaps s) hs"
    using r(3) by (rule list_all2_mono) (auto simp: swept_def reclaimed_def)
  then show ?thesis using r sup_run_total [OF m] by (intro exI [of _ "\<lparr> su_heaps = hs, su_sweeps = add64 (su_sweeps s) 1,
      su_reclaimed = add64 (su_reclaimed s) k, su_nap = (if 0 < k then min FAST_NS (sb_interval b) else sb_interval b) \<rparr>"] exI [of _ k]) simp
qed

text \<open>A freshly carved span is empty: every free object of a class is in the bitmaps while its stacks are.\<close>

lemma unused_full:
  assumes h: "hinv h ls" and i: "listed h i" and e: "live_objs h (class_at h i) = {#}" "class_objs (sh_slab h) (class_at h i) = {#}"
  shows "i \<in> fulls h"
proof -
  let ?c = "class_at h i"
  have c: "small_class ?c" using hinv_parts(2) [OF h] i unfolding lists_ok_def by blast
  have "image_mset (addr (hbase h) ?c) (mset_set (ubits h \<inter> tiles h ?c)) = image_mset (addr (hbase h) ?c) (mset_set (tiles h ?c))"
    using live_held [OF h c] e by (simp add: held_def all_objs_def)
  then have "size (mset_set (ubits h \<inter> tiles h ?c)) = size (mset_set (tiles h ?c))" by (metis size_image_mset)
  then have "ubits h \<inter> tiles h ?c = tiles h ?c" by (intro card_subset_eq) auto
  moreover have "span_slots i (nslots ?c) \<subseteq> tiles h ?c" using i nslots_bounds [OF c] by (auto simp: tiles_def span_slots_iff)
  ultimately show ?thesis using i by (auto simp: fulls_def)
qed

lemma slab_row8: "\<forall>c\<in>set cs. c < 49 \<Longrightarrow> slab_row 8 cs = Some (replicate (length cs) \<lparr> current = 0, capacity = 8, slots = replicate 8 0 \<rparr>)"
proof (induction cs)
  case (Cons c cs)
  then show ?case using cap8 [of c] by simp
qed simp

lemma demo_stacks:
  assumes "build_at demo_builder 65536 = Some h"
  shows "sh_slab h = \<lparr> num_cpus = 1, stacks = [replicate NUM_CLASSES \<lparr> current = 0, capacity = 8, slots = replicate 8 0 \<rparr>], stopped = [False] \<rparr>"
  using assms slab_row8 [of "[0..<NUM_CLASSES]"] by (auto simp: build_at_def demo_builder_def Let_def numeral_2_eq_2 split: bind_splits)

lemma demo_room: "heap_inv h \<Longrightarrow> carvable h 1"
  using demo_class(2) by (simp add: carvable_def)

text \<open>The demo heap with one carved span, all of whose objects are free.\<close>

lemma demo_stocked:
  "\<exists>h. heap_inv h \<and> acct h \<and> nlisted h \<le> 16 \<and> 0 < card (fulls h)"
proof -
  obtain h0 where h0: "build_at demo_builder 65536 = Some h0" "heap_inv h0" "acct h0" "\<forall>c. live_objs h0 c = {#}" "avail h0 = 16" using demo_heap by blast
  obtain ls where ls: "hinv h0 ls" "sinv h0" using h0(2) by (auto simp: heap_inv_def)
  obtain cell where cell: "cell < length (central_lists h0)" "cell mod NUM_CLASSES = 1" using cell_of [OF hinv_parts(1) [OF ls(1)] demo_class(1)] by blast
  have rm: "gsp 1 = 1 \<or> room h0 (gsp 1)" "(1::nat) < 2 ^ 32" using demo_class by simp_all
  obtain h n ls' where h: "stocked h0 h ls'" "if (n::nat) = 0 then avail h0 = 0 else \<exists>i\<in>set (ls' cell). ubits h \<inter> {k. k div 8192 = i} \<noteq> {}"
    using central_carve_ok [OF ls demo_class(1) rm(1) cell rm(2), of demo_ctx 0] by blast
  have s: "hinv h ls'" "sinv h" "live_objs h = live_objs h0" "sh_slab h = sh_slab h0" "counters h = counters h0" "run_spans (large h) = run_spans (large h0)"
    "cell < length (central_lists h)" "nsp h = nsp h0"
    using h(1) cell(1) by (simp_all add: stocked_def)
  obtain i where "i \<in> set (ls' cell)" using h(2) h0(5) by (auto split: if_splits)
  then have i: "listed h i" using hinv_parts(2) [OF s(1)] s(7) unfolding lists_ok_def by blast
  have "small_class (class_at h i)" using hinv_parts(2) [OF s(1)] i unfolding lists_ok_def by blast
  then have "class_objs (sh_slab h) (class_at h i) = {#}" unfolding s(4) demo_stacks [OF h0(1)] by (simp add: class_objs_def contents_def small_class_def)
  then have "i \<in> fulls h" using unused_full [OF s(1) i] h0(4) s(3) by simp
  then have "0 < card (fulls h)" by (auto simp: card_gt_0_iff)
  moreover have "nsp h0 = 16" using h0(1) by (auto simp: build_at_def demo_builder_def Let_def nsp_def div_ceil_def split: bind_splits)
  then have "nlisted h \<le> 16" using nlisted_le [of h] s(8) by simp
  ultimately show ?thesis using s same_acct [OF h0(3)] by (auto simp: heap_inv_def)
qed

theorem supervisor_round_exact_witness:
  "\<exists>h s k. sweep_round demo_ctx 10000000 (sup_start (manage sup_builder_new h)) = Some s \<and> 0 < k \<and> su_sweeps s = 1 \<and> su_reclaimed s = k \<and>
     su_nap s = 1000000 \<and> card (fulls h) = k \<and> all_empty (su_heaps s) = 0"
proof -
  obtain h where h: "heap_inv h" "acct h" "nlisted h \<le> 16" "0 < card (fulls h)" using demo_stocked by blast
  let ?b = "manage sup_builder_new h"
  have b: "sb_heaps ?b = [h]" "sb_interval ?b = 10000000" "su_heaps (sup_start ?b) = [h]" "su_sweeps (sup_start ?b) = 0" "su_reclaimed (sup_start ?b) = 0"
    by (simp_all add: manage_def sup_builder_new_def sup_start_def)
  have m: "managed (sb_heaps ?b)" using h b by (simp add: managed_def)
  have c: "card (fulls h) \<le> 16" using empty_le [of h] h(3) by simp
  have nb: "\<forall>t. \<not> cell_busy demo_ctx t" by (simp add: demo_ctx_def)
  obtain s k where r: "sweep_round demo_ctx 10000000 (sup_start ?b) = Some s" "su_sweeps s = add64 0 1" "su_reclaimed s = add64 0 k"
    "all_empty (su_heaps s) + k = all_empty [h]" "su_nap s = (if 0 < k then min FAST_NS 10000000 else 10000000)"
    "(\<forall>t. \<not> cell_busy demo_ctx t) \<longrightarrow> all_empty (su_heaps s) = 0"
    using supervisor_round_exact [OF m rtranclp.rtrancl_refl, of demo_ctx] unfolding b by blast
  have "all_empty (su_heaps s) = 0" using r(6) nb by blast
  moreover have "all_empty [h] = card (fulls h)" by (simp add: all_empty_def)
  ultimately have "k = card (fulls h)" using r(4) by linarith
  then show ?thesis using r h(4) c \<open>all_empty (su_heaps s) = 0\<close> by (intro exI [of _ h] exI [of _ s] exI [of _ k]) (simp add: FAST_NS_def)
qed

subsection \<open>The seize protocol\<close>

lemma set_stopped_again:
  assumes "set_cpu_stopped h cpu v = Some h1"
  shows "set_cpu_stopped h1 cpu u = set_cpu_stopped h cpu u" "is_stopped (sh_slab h1) cpu = Some v"
    "num_cpus (sh_slab h1) = num_cpus (sh_slab h)" "stacks (sh_slab h1) = stacks (sh_slab h)"
  using assms by (auto simp: set_cpu_stopped_def set_stopped_def is_stopped_def stop_index_def upd_def idx_def split: if_splits)

lemma stop_total:
  assumes "heap_inv h"
  shows "\<exists>h'. set_cpu_stopped h cpu v = Some h'"
proof -
  obtain ls where "hinv h ls" using assms by (auto simp: heap_inv_def)
  then have "stopped (sh_slab h) \<noteq> []" using hinv_parts(1) [of h ls] by (auto simp: geom_def slab_inv_def)
  then have "min cpu (length (stopped (sh_slab h)) - 1) < length (stopped (sh_slab h))" by (cases "stopped (sh_slab h)") auto
  then show ?thesis by (simp add: set_cpu_stopped_def set_stopped_def stop_index_def upd_def)
qed

lemma set_stopped_same: "is_stopped (sh_slab h) cpu = Some v \<Longrightarrow> set_cpu_stopped h cpu v = Some h"
proof -
  assume "is_stopped (sh_slab h) cpu = Some v"
  then have i: "stop_index (sh_slab h) cpu < length (stopped (sh_slab h))" "stopped (sh_slab h) ! stop_index (sh_slab h) cpu = v"
    by (simp_all add: is_stopped_def idx_def split: if_splits)
  then have "(stopped (sh_slab h))[stop_index (sh_slab h) cpu := v] = stopped (sh_slab h)" by (subst i(2) [symmetric]) (rule list_update_id)
  then show ?thesis using i(1) by (simp add: set_cpu_stopped_def set_stopped_def upd_def)
qed

lemma stopped_slab: "set_cpu_stopped h cpu v = Some h' \<Longrightarrow> sh_slab h' = (sh_slab h)\<lparr>stopped := (stopped (sh_slab h))[stop_index (sh_slab h) cpu := v]\<rparr>"
  by (auto simp: set_cpu_stopped_def set_stopped_def upd_def split: if_splits)

lemma stopped_parked: "set_cpu_stopped h cpu v = Some h' \<Longrightarrow> parked h' = parked h"
  by (auto simp: set_cpu_stopped_def set_stopped_def upd_def parked_def ubits_def tiles_def listed_def class_at_def nsp_def fun_eq_iff split: if_splits)

text \<open>
  C22. The seize protocol, for a CPU that is not stopped. Without the capability, or when the
  kernel refuses the barrier, seizing changes nothing. Otherwise the CPU is stopped; the guard
  takes exactly the top \<open>min n current\<close> objects off the CPU's stack of the class, which is the
  number it reports, and sets the free bits of exactly these objects; no other stack, no other
  object with a free bit, no live object and no counter changes; dropping the guard starts the CPU
  again. Each operation is one step: operations of the locked path on the seized CPU that tested
  the flag before it was set are outside (\<open>locked_push_races\<close>).
\<close>

theorem seize_protocol:
  assumes "heap_inv h" "small_class c" "cpu < num_cpus (sh_slab h)" "current (stacks (sh_slab h) ! cpu ! c) < 2 ^ 32"
    and "is_stopped (sh_slab h) cpu = Some False"
    and st: "st = stacks (sh_slab h) ! cpu ! c" and m: "m = min n (current st)"
  shows "if private_expedited_rseq caps \<and> expedited_rseq_cpu sys cpu
    then \<exists>h1 h2 h3. seize_cpu caps sys h cpu = Some (h1, True) \<and> is_stopped (sh_slab h1) cpu = Some True \<and>
      guard_rebalance h1 cpu c n = Some (h2, m) \<and> is_stopped (sh_slab h2) cpu = Some True \<and> guard_drop h2 cpu = Some h3 \<and>
      sh_slab h3 = set_stack (sh_slab h) cpu c (st\<lparr>current := current st - m\<rparr>) \<and>
      (\<forall>d. small_class d \<longrightarrow> parked h3 d = (if d = c then mset (drop (current st - m) (contents st)) else {#}) + parked h d) \<and>
      heap_inv h3 \<and> counters h3 = counters h \<and> (\<forall>d. small_class d \<longrightarrow> live_objs h3 d = live_objs h d)
    else seize_cpu caps sys h cpu = Some (h, False)"
proof -
  obtain h1 where 1: "set_cpu_stopped h cpu True = Some h1" using stop_total [OF assms(1)] by blast
  note s1 = set_stopped_again [OF 1] and k1 = stopped_ok [OF assms(1) 1]
  show ?thesis
  proof (cases "private_expedited_rseq caps \<and> expedited_rseq_cpu sys cpu")
    case False
    then show ?thesis using 1 s1(1) set_stopped_same [OF assms(5)] by (auto simp: seize_cpu_def)
  next
    case True
    have a: "cpu < num_cpus (sh_slab h1)" "current (stacks (sh_slab h1) ! cpu ! c) < 2 ^ 32" "st = stacks (sh_slab h1) ! cpu ! c"
      using assms(3,4) s1 by (simp_all add: st)
    obtain h2 where 2: "rebalance_capacity h1 cpu c n = Some (h2, m)" "heap_inv h2" "counters h2 = counters h1"
      "\<forall>d. small_class d \<longrightarrow> live_objs h2 d = live_objs h1 d" "sh_slab h2 = set_stack (sh_slab h1) cpu c (st\<lparr>current := current st - m\<rparr>)"
      "\<forall>d. small_class d \<longrightarrow> parked h2 d = (if d = c then mset (popped st m) else {#}) + parked h1 d"
      using rebalance_capacity_ok [OF k1(1) assms(2) a(1,2), of n] unfolding m a(3) by blast
    obtain h3 where 3: "set_cpu_stopped h2 cpu False = Some h3" using stop_total [OF 2(2)] by blast
    note k3 = stopped_ok [OF 2(2) 3]
    let ?fs = "stopped (sh_slab h)" and ?i = "stop_index (sh_slab h) cpu"
    have st2: "is_stopped (sh_slab h2) cpu = Some True" using s1(2) unfolding 2(5) by (simp add: is_stopped_def stop_index_def set_stack_def)
    have "?fs[?i := True, ?i := False] = ?fs" using assms(5) by (simp add: is_stopped_def idx_def list_update_same_conv split: if_splits)
    then have sl: "sh_slab h3 = set_stack (sh_slab h) cpu c (st\<lparr>current := current st - m\<rparr>)"
      unfolding stopped_slab [OF 3] 2(5) stopped_slab [OF 1] by (simp add: set_stack_def stop_index_def)
    have pk: "parked h3 d = (if d = c then mset (drop (current st - m) (contents st)) else {#}) + parked h d" if "small_class d" for d
      using 2(6) that unfolding stopped_parked [OF 3] stopped_parked [OF 1] popped_def by blast
    show ?thesis using True 1 s1(2) 2(1-4) 3 st2 sl pk k1 k3 by (simp add: seize_cpu_def guard_rebalance_def guard_drop_def)
  qed
qed

text \<open>The demo heap with one object of class 1 cached on CPU 0.\<close>

lemma demo_cached:
  "\<exists>h p. heap_inv h \<and> num_cpus (sh_slab h) = 1 \<and> is_stopped (sh_slab h) 0 = Some False \<and>
    current (stacks (sh_slab h) ! 0 ! 1) = 1 \<and> contents (stacks (sh_slab h) ! 0 ! 1) = [p]"
proof -
  obtain h0 where h0: "build_at demo_builder 65536 = Some h0" "heap_inv h0" "avail h0 = 16" using demo_heap by blast
  obtain ls where ls: "hinv h0 ls" "sinv h0" using h0(2) by (auto simp: heap_inv_def)
  obtain cell where cell: "cell < length (central_lists h0)" "cell mod NUM_CLASSES = 1" using cell_of [OF hinv_parts(1) [OF ls(1)] demo_class(1)] by blast
  obtain h1 ls1 got where 1: "gives h0 h1 ls1 1 (mset got)" "\<forall>p\<in>set got. p \<in># all_objs h1 1 \<and> p \<notin># held h1 1" "sh_slab h1 = sh_slab h0" "got \<noteq> []"
    using carve_take_gives [OF ls demo_class(1) demo_room [OF h0(2)] cell, of 1 1 demo_ctx 0] h0(3) by fastforce
  obtain p where p: "p \<in># all_objs h1 1" "p \<notin># held h1 1" using 1(2,4) by (cases got) auto
  have i1: "hinv h1 ls1" "sinv h1" "bind_ok (sh_slab h1) 0" using 1(1,3) demo_stacks [OF h0(1)] by (simp_all add: gives_def bind_ok_def)
  obtain h2 r where 2: "sh_push demo_ctx 0 1 p h1 = Some (h2, r)" "hinv h2 ls1" "same_map h1 h2" using sh_push_ok [OF i1(1) demo_class(1) i1(3) p] by blast
  have sl: "sh_slab h2 = (sh_slab h1)\<lparr>stacks := [(replicate NUM_CLASSES \<lparr> current = 0, capacity = 8, slots = replicate 8 0 \<rparr>)
      [1 := \<lparr> current = 1, capacity = 8, slots = (replicate 8 0)[0 := p] \<rparr>]]\<rparr>"
    using 2(1) unfolding sh_push_def push_def asm_push_def 1(3) demo_stacks [OF h0(1)]
    by (auto simp: demo_ctx_def get_stack_def put_stack_def idx_def upd_def)
  have "heap_inv h2" using 2(2) same_map_sinv [OF 2(3) i1(2)] by (auto simp: heap_inv_def)
  then show ?thesis using sl demo_stacks [OF h0(1)] unfolding 1(3)
    by (intro exI [of _ h2] exI [of _ p]) (simp add: is_stopped_def stop_index_def contents_def numeral_eq_Suc)
qed

theorem seize_protocol_witness:
  "\<exists>h h1 h2 h3 p. contents (stacks (sh_slab h) ! 0 ! 1) = [p] \<and> seize_cpu (mb_register (\<lambda>_ _ _. 0)) (\<lambda>_ _ _. 0) h 0 = Some (h1, True) \<and>
     guard_rebalance h1 0 1 5 = Some (h2, 1) \<and> guard_drop h2 0 = Some h3 \<and> parked h3 1 = add_mset p (parked h 1) \<and>
     sh_slab h3 = set_stack (sh_slab h) 0 1 ((stacks (sh_slab h) ! 0 ! 1)\<lparr>current := 0\<rparr>)"
proof -
  obtain h p where h: "heap_inv h" "num_cpus (sh_slab h) = 1" "is_stopped (sh_slab h) 0 = Some False"
    "current (stacks (sh_slab h) ! 0 ! 1) = 1" "contents (stacks (sh_slab h) ! 0 ! 1) = [p]" using demo_cached by blast
  have a: "0 < num_cpus (sh_slab h)" "current (stacks (sh_slab h) ! 0 ! 1) < 2 ^ 32" using h by simp_all
  let ?caps = "mb_register (\<lambda>_ _ _. 0)" and ?sys = "\<lambda>_ _ _. 0 :: int"
  have y: "private_expedited_rseq ?caps \<and> expedited_rseq_cpu ?sys 0" by (simp add: mb_register_def expedited_rseq_cpu_def)
  have e: "min 5 (1::nat) = 1" "(1::nat) - 1 = 0" by simp_all
  obtain h1 h2 h3 where r: "seize_cpu ?caps ?sys h 0 = Some (h1, True)" "guard_rebalance h1 0 1 5 = Some (h2, 1)" "guard_drop h2 0 = Some h3"
    "sh_slab h3 = set_stack (sh_slab h) 0 1 ((stacks (sh_slab h) ! 0 ! 1)\<lparr>current := 0\<rparr>)"
    "\<forall>d. small_class d \<longrightarrow> parked h3 d = (if d = 1 then mset (drop 0 [p]) else {#}) + parked h d"
    using seize_protocol [OF h(1) demo_class(1) a h(3) refl refl, of ?caps ?sys 5] unfolding if_P [OF y] h(4,5) e by blast
  have "parked h3 1 = add_mset p (parked h 1)" using r(5) demo_class(1) by simp
  then show ?thesis using h(5) r(1-4) by blast
qed

text \<open>
  The locked path is not excluded: a push that tested the stop flag before the CPU was seized runs
  its critical section under the guard and writes to the seized stack.
\<close>

lemma locked_push_races:
  assumes "heap_inv h" "cpu < num_cpus (sh_slab h)" "c < NUM_CLASSES" "current (stacks (sh_slab h) ! cpu ! c) < capacity (stacks (sh_slab h) ! cpu ! c)"
    and "is_stopped (sh_slab h) cpu = Some False" "private_expedited_rseq caps" "expedited_rseq_cpu sys cpu"
  shows "\<exists>h1 sl. seize_cpu caps sys h cpu = Some (h1, True) \<and> push_critical (sh_slab h1) cpu c p = Some (sl, FOk ()) \<and>
    is_stopped sl cpu = Some True \<and> current (stacks sl ! cpu ! c) = current (stacks (sh_slab h1) ! cpu ! c) + 1"
proof -
  obtain ls where ls: "hinv h ls" using assms(1) by (auto simp: heap_inv_def)
  have sl: "slab_inv NUM_CLASSES (sh_slab h)" using hinv_parts(1) [OF ls] by (simp add: geom_def)
  have l: "cpu < length (stacks (sh_slab h))" "length (stacks (sh_slab h) ! cpu) = NUM_CLASSES" "cstack_ok (stacks (sh_slab h) ! cpu ! c)"
    using sl assms(2) slab_get [OF sl assms(2,3)] by (auto simp: slab_inv_def)
  then have s: "current (stacks (sh_slab h) ! cpu ! c) < length (slots (stacks (sh_slab h) ! cpu ! c))" using assms(4) by (simp add: cstack_ok_def)
  obtain h1 where 1: "set_cpu_stopped h cpu True = Some h1" using stop_total [OF assms(1)] by blast
  note s1 = set_stopped_again [OF 1]
  let ?st = "stacks (sh_slab h) ! cpu ! c"
  let ?sl = "set_stack (sh_slab h1) cpu c (?st\<lparr>slots := (slots ?st)[current ?st := p], current := current ?st + 1\<rparr>)"
  have "push_critical (sh_slab h1) cpu c p = Some (?sl, FOk ())"
    using l s assms(3,4) s1(4) by (simp add: push_critical_def get_stack_def put_stack_def set_stack_def)
  moreover have "is_stopped ?sl cpu = Some True" using s1(2) by (simp add: is_stopped_def stop_index_def set_stack_def)
  moreover have "current (stacks ?sl ! cpu ! c) = current (stacks (sh_slab h1) ! cpu ! c) + 1" using l assms(3) s1(4) by (simp add: set_stack_def)
  ultimately show ?thesis using 1 assms(6,7) by (simp add: seize_cpu_def)
qed

text \<open>A guard does not exclude another one of the same CPU: dropping the first starts the CPU under the second.\<close>

lemma seize_not_exclusive:
  assumes "heap_inv h" "private_expedited_rseq caps" "expedited_rseq_cpu sys cpu"
  shows "\<exists>h1 h2 h3. seize_cpu caps sys h cpu = Some (h1, True) \<and> seize_cpu caps sys h1 cpu = Some (h2, True) \<and> guard_drop h2 cpu = Some h3 \<and>
    is_stopped (sh_slab h3) cpu = Some False"
proof -
  obtain h1 where 1: "set_cpu_stopped h cpu True = Some h1" using stop_total [OF assms(1)] by blast
  obtain h2 where 2: "set_cpu_stopped h1 cpu True = Some h2" using stop_total [OF stopped_ok(1) [OF assms(1) 1]] by blast
  obtain h3 where 3: "set_cpu_stopped h2 cpu False = Some h3" using stop_total [OF stopped_ok(1) [OF stopped_ok(1) [OF assms(1) 1] 2]] by blast
  show ?thesis using 1 2 3 set_stopped_again(2) [OF 3] assms(2,3) by (simp add: seize_cpu_def guard_drop_def)
qed

end
