(* ===== verification/Registry.thy ===== *)
theory Registry
  imports Sub_Heap_Standalone
begin

text \<open>
  The registry of named sub-heaps (\<^verbatim>\<open>toccata-core/src/registry.rs\<close>): the budgets of the application,
  their validation against the registrations, and the sub-heaps built from them. The list of
  registrations is collected by the linker and is a parameter, as are the kernel and the number of
  CPUs; reservations that were made are returned beside the result.
\<close>

subsection \<open>Model\<close>

datatype on_exhaust = ReturnNone | Abort

text \<open>No operation of the core reads the policy or the name; a sub-heap only carries them for its owner.\<close>

record registration =
  r_name :: string
  r_on_exhaust :: on_exhaust
  r_cap_per_class :: nat

text \<open>The defaults of \<open>register_subheap!\<close>.\<close>

definition register_subheap :: "string \<Rightarrow> on_exhaust option \<Rightarrow> nat option \<Rightarrow> registration" where
  "register_subheap name oe cap =
     \<lparr> r_name = name, r_on_exhaust = (case oe of None \<Rightarrow> ReturnNone | Some v \<Rightarrow> v),
       r_cap_per_class = (case cap of None \<Rightarrow> 256 | Some v \<Rightarrow> v) \<rparr>"

record budgets =
  bg_total :: nat
  bg_subs :: "(string \<times> nat) list"

definition budgets_new :: "nat \<Rightarrow> budgets" where
  "budgets_new n = \<lparr> bg_total = n, bg_subs = [] \<rparr>"

definition budgets_sub :: "budgets \<Rightarrow> string \<Rightarrow> nat \<Rightarrow> budgets" where
  "budgets_sub b name bytes = b\<lparr>bg_subs := bg_subs b @ [(name, bytes)]\<rparr>"

definition budgets_lookup :: "budgets \<Rightarrow> string \<Rightarrow> nat option" where
  "budgets_lookup b name = map_option snd (List.find (\<lambda>e. fst e = name) (bg_subs b))"

datatype configure_error =
    AlreadyConfigured
  | Unconfigured string
  | OverBudget nat nat
  | ReserveFailed string reserve_error

definition saturating_add :: "nat \<Rightarrow> nat \<Rightarrow> nat" where
  "saturating_add a b = min (a + b) (2 ^ 64 - 1)"

primrec budget_sum :: "budgets \<Rightarrow> registration list \<Rightarrow> nat \<Rightarrow> configure_error + nat" where
  "budget_sum b [] acc = Inr acc"
| "budget_sum b (r # rs) acc =
     (case budgets_lookup b (r_name r) of
        None \<Rightarrow> Inl (Unconfigured (r_name r))
      | Some n \<Rightarrow> budget_sum b rs (saturating_add acc n))"

definition reg_builder :: "nat \<Rightarrow> registration \<Rightarrow> nat \<Rightarrow> builder" where
  "reg_builder cpus r bytes = (builder_new cpus bytes)\<lparr>b_cap_per_class := r_cap_per_class r\<rparr>"

text \<open>
  The second loop: \<open>unwrap\<close> panics on \<open>None\<close>. The kernel answers the reservation of each
  registration; what was reserved before a failure stays reserved.
\<close>

primrec build_all ::
  "(string \<Rightarrow> os) \<Rightarrow> nat \<Rightarrow> budgets \<Rightarrow> registration list \<Rightarrow> (reservation list \<times> (configure_error + (string \<times> sub_heap) list)) rust" where
  "build_all k cpus b [] = Some ([], Inr [])"
| "build_all k cpus b (r # rs) = do {
     bytes \<leftarrow> budgets_lookup b (r_name r);
     (t, res) \<leftarrow> build_standalone (k (r_name r)) (reg_builder cpus r bytes);
     case res of
       Inl e \<Rightarrow> Some ([], Inl (ReserveFailed (r_name r) e))
     | Inr (h, v) \<Rightarrow> do {
         (vs, rest) \<leftarrow> build_all k cpus b rs;
         Some (v # vs, case rest of Inl e \<Rightarrow> Inl e | Inr m \<Rightarrow> Inr ((r_name r, h) # m))
       }
   }"

type_synonym registry = "(string \<times> sub_heap) list option"

definition reg_configure ::
  "(string \<Rightarrow> os) \<Rightarrow> nat \<Rightarrow> registration list \<Rightarrow> budgets \<Rightarrow> registry \<Rightarrow> (registry \<times> reservation list \<times> (configure_error + unit)) rust" where
  "reg_configure k cpus regs b configured =
     (if configured \<noteq> None then Some (configured, [], Inl AlreadyConfigured)
      else case budget_sum b regs 0 of
        Inl e \<Rightarrow> Some (configured, [], Inl e)
      | Inr requested \<Rightarrow>
          if bg_total b < requested then Some (configured, [], Inl (OverBudget requested (bg_total b)))
          else do {
            (vs, m) \<leftarrow> build_all k cpus b regs;
            case m of Inl e \<Rightarrow> Some (configured, vs, Inl e) | Inr hs \<Rightarrow> Some (Some hs, vs, Inr ())
          })"

definition reg_subheap :: "registry \<Rightarrow> string \<Rightarrow> sub_heap option" where
  "reg_subheap c name = do { m \<leftarrow> c; map_option snd (List.find (\<lambda>e. fst e = name) m) }"

definition reg_all :: "registry \<Rightarrow> (string \<times> sub_heap) list" where
  "reg_all c = (case c of None \<Rightarrow> [] | Some m \<Rightarrow> m)"

definition is_configured :: "registry \<Rightarrow> bool" where
  "is_configured c \<longleftrightarrow> c \<noteq> None"

subsection \<open>Validation\<close>

definition budget_of :: "budgets \<Rightarrow> registration \<Rightarrow> nat" where
  "budget_of b r = (case budgets_lookup b (r_name r) of None \<Rightarrow> 0 | Some n \<Rightarrow> n)"

definition covered :: "budgets \<Rightarrow> registration list \<Rightarrow> bool" where
  "covered b rs \<longleftrightarrow> (\<forall>r\<in>set rs. budgets_lookup b (r_name r) \<noteq> None)"

lemma budget_sum_covered:
  assumes "covered b rs" "acc < 2 ^ 64"
  shows "budget_sum b rs acc = Inr (min (acc + (\<Sum>r\<leftarrow>rs. budget_of b r)) (2 ^ 64 - 1))"
  using assms
proof (induction rs arbitrary: acc)
  case (Cons r rs)
  obtain n where n: "budgets_lookup b (r_name r) = Some n" using Cons.prems(1) by (auto simp: covered_def)
  have "saturating_add acc n < 2 ^ 64" by (simp add: saturating_add_def)
  then have "budget_sum b (r # rs) acc = Inr (min (saturating_add acc n + (\<Sum>r\<leftarrow>rs. budget_of b r)) (2 ^ 64 - 1))"
    using Cons.IH [of "saturating_add acc n"] Cons.prems(1) n by (simp add: covered_def)
  then show ?case using n by (simp add: saturating_add_def budget_of_def)
qed (simp add: min_def)

lemma budget_sum_missing:
  assumes "\<not> covered b rs"
  shows "\<exists>pre r post. rs = pre @ r # post \<and> covered b pre \<and> budgets_lookup b (r_name r) = None \<and> budget_sum b rs acc = Inl (Unconfigured (r_name r))"
  using assms
proof (induction rs arbitrary: acc)
  case Nil
  then show ?case by (simp add: covered_def)
next
  case (Cons r rs)
  show ?case
  proof (cases "budgets_lookup b (r_name r)")
    case None
    then show ?thesis by (intro exI [of _ "[]"] exI [of _ r] exI [of _ rs]) (simp add: covered_def)
  next
    case (Some n)
    then have "\<not> covered b rs" using Cons.prems by (simp add: covered_def)
    then obtain pre q post where "rs = pre @ q # post" "covered b pre" "budgets_lookup b (r_name q) = None"
      "budget_sum b rs (saturating_add acc n) = Inl (Unconfigured (r_name q))" using Cons.IH by blast
    then show ?thesis using Some by (intro exI [of _ "r # pre"] exI [of _ q] exI [of _ post]) (simp add: covered_def)
  qed
qed

subsection \<open>Building\<close>

text \<open>The kernel maps every reservation where a sub-heap fits, and the capacities give a layout.\<close>

definition kernel_ok :: "(string \<Rightarrow> os) \<Rightarrow> nat \<Rightarrow> budgets \<Rightarrow> registration \<Rightarrow> bool" where
  "kernel_ok k cpus b r \<longleftrightarrow> os_ok (k (r_name r)) \<and> 0 < cpus \<and> (\<forall>n. reserve_bytes (reg_builder cpus r (budget_of b r)) = Some n \<longrightarrow> n < 2 ^ 64) \<and>
     (\<forall>t h v. build_standalone (k (r_name r)) (reg_builder cpus r (budget_of b r)) = Some (t, Inr (h, v)) \<longrightarrow>
        build_ok (reg_builder cpus r (budget_of b r)) (res_base v))"

definition built :: "nat \<Rightarrow> budgets \<Rightarrow> registration \<Rightarrow> string \<times> sub_heap \<Rightarrow> bool" where
  "built cpus b r e \<longleftrightarrow> fst e = r_name r \<and> heap_inv (snd e) \<and> acct (snd e) \<and> (\<forall>c. live_objs (snd e) c = {#}) \<and> budget_bytes (snd e) = budget_of b r"

lemma build_at_total: "\<exists>h. build_at bl base = Some h"
proof -
  obtain locs bytes where "block_layout (b_cap_per_class bl) = Some (locs, bytes)" using reserve_bytes_layout by blast
  moreover obtain row where "slab_row (b_cap_per_class bl) [0..<NUM_CLASSES] = Some row"
    using slab_row_ok [of "[0..<NUM_CLASSES]" "b_cap_per_class bl"] by auto
  ultimately show ?thesis by (force simp: build_at_def Let_def)
qed

lemma reserve_bytes_more: "0 < b_num_cpus bl \<Longrightarrow> \<exists>n. reserve_bytes bl = Some n \<and> b_budget bl < n"
  using reserve_bytes_layout [of bl] by (auto simp: stride_for_def)

lemma build_standalone_total:
  assumes "os_ok k" "reserve_bytes bl = Some n" "0 < n" "n < 2 ^ 64"
  shows "\<exists>t r. build_standalone k bl = Some (t, r)"
proof -
  have "fits k (opts_new n)" using assms(3,4) by (simp add: fits_def opts_new_def)
  then obtain t r where r: "reserve k n = Some (t, r)" using reserve_with_ok [OF assms(1), of "opts_new n"] unfolding reserve_def by blast
  show ?thesis
  proof (cases r)
    case (Inr v)
    then show ?thesis using r assms(2) build_at_total [of bl "res_base v"] by (auto simp: build_standalone_def)
  qed (use r assms(2) in \<open>simp add: build_standalone_def\<close>)
qed

lemma build_all_ok:
  assumes "covered b rs" "\<forall>r\<in>set rs. kernel_ok k cpus b r"
  shows "\<exists>vs m. build_all k cpus b rs = Some (vs, m) \<and>
    (case m of
       Inr hs \<Rightarrow> list_all2 (built cpus b) rs hs \<and> length vs = length rs \<and> (\<Sum>r\<leftarrow>rs. budget_of b r) + length rs \<le> (\<Sum>v\<leftarrow>vs. res_len v)
     | Inl e \<Rightarrow> \<exists>pre r post e'. rs = pre @ r # post \<and> e = ReserveFailed (r_name r) e' \<and> length vs = length pre)"
  using assms
proof (induction rs)
  case (Cons r rs)
  obtain n where n: "budgets_lookup b (r_name r) = Some n" "budget_of b r = n" using Cons.prems(1) by (auto simp: covered_def budget_of_def)
  let ?bl = "reg_builder cpus r n"
  have k: "kernel_ok k cpus b r" using Cons.prems(2) by simp
  have bl: "b_num_cpus ?bl = cpus" "b_budget ?bl = n" by (simp_all add: reg_builder_def builder_new_def)
  have "0 < cpus" using k by (simp add: kernel_ok_def)
  then obtain z where z: "reserve_bytes ?bl = Some z" "n < z" using reserve_bytes_more [of ?bl] bl by auto
  have "\<exists>t res. build_standalone (k (r_name r)) ?bl = Some (t, res)"
    using build_standalone_total [of "k (r_name r)" ?bl z] k z n(2) by (auto simp: kernel_ok_def)
  then obtain t res where st: "build_standalone (k (r_name r)) ?bl = Some (t, res)" by blast
  show ?case
  proof (cases res)
    case (Inl e)
    then show ?thesis using n(1) st by (auto intro!: exI [of _ "[]"])
  next
    case (Inr hv)
    obtain h v where hv: "hv = (h, v)" by (cases hv)
    note st' = st [unfolded Inr hv]
    have "build_ok ?bl (res_base v)" using k st' n(2) by (auto simp: kernel_ok_def)
    note i = standalone_ok [OF st' this]
    have bt: "built cpus b r (r_name r, h)" using i bl n(2) by (simp add: built_def)
    have len: "res_len v = z" using i(10) z(1) by simp
    obtain vs m where r: "build_all k cpus b rs = Some (vs, m)"
      "case m of
         Inr hs \<Rightarrow> list_all2 (built cpus b) rs hs \<and> length vs = length rs \<and> (\<Sum>r\<leftarrow>rs. budget_of b r) + length rs \<le> (\<Sum>v\<leftarrow>vs. res_len v)
       | Inl e \<Rightarrow> \<exists>pre r post e'. rs = pre @ r # post \<and> e = ReserveFailed (r_name r) e' \<and> length vs = length pre"
      using Cons.IH Cons.prems by (auto simp: covered_def)
    have run: "build_all k cpus b (r # rs) = Some (v # vs, case m of Inl e \<Rightarrow> Inl e | Inr m \<Rightarrow> Inr ((r_name r, h) # m))"
      using n(1) st' r(1) by simp
    show ?thesis
    proof (cases m)
      case (Inl e)
      then obtain pre q post e' where "rs = pre @ q # post" "e = ReserveFailed (r_name q) e'" "length vs = length pre" using r(2) by auto
      then show ?thesis using run Inl by (auto intro!: exI [of _ "r # pre"])
    next
      case (Inr hs)
      then show ?thesis using run r(2) bt len z(2) n(2) by simp
    qed
  qed
qed simp

text \<open>
  C33. The outcome of configuring the registry. A second configuration is refused. A registration
  without a budget is reported, the first one in order, and a sum of budgets above the total is
  reported with the (saturated) sum; in both cases nothing is reserved. Otherwise either every
  registration gets an empty sub-heap of its budget, with reservations that together exceed the
  budgets; or the registration whose reservation fails is reported, the registry stays
  unconfigured, and the reservations made before it remain.
\<close>

theorem registry_configure_outcome:
  assumes "\<forall>r\<in>set regs. kernel_ok k cpus b r"
  shows "if c \<noteq> None then reg_configure k cpus regs b c = Some (c, [], Inl AlreadyConfigured)
    else if \<not> covered b regs
    then \<exists>pre r post. regs = pre @ r # post \<and> covered b pre \<and> budgets_lookup b (r_name r) = None \<and>
      reg_configure k cpus regs b c = Some (None, [], Inl (Unconfigured (r_name r)))
    else if bg_total b < min (\<Sum>r\<leftarrow>regs. budget_of b r) (2 ^ 64 - 1)
    then reg_configure k cpus regs b c = Some (None, [], Inl (OverBudget (min (\<Sum>r\<leftarrow>regs. budget_of b r) (2 ^ 64 - 1)) (bg_total b)))
    else (\<exists>hs vs. reg_configure k cpus regs b c = Some (Some hs, vs, Inr ()) \<and> list_all2 (built cpus b) regs hs \<and> length vs = length regs \<and>
        (\<Sum>r\<leftarrow>regs. budget_of b r) + length regs \<le> (\<Sum>v\<leftarrow>vs. res_len v)) \<or>
      (\<exists>pre r post e vs. regs = pre @ r # post \<and> length vs = length pre \<and> reg_configure k cpus regs b c = Some (None, vs, Inl (ReserveFailed (r_name r) e)))"
proof (cases "c = None \<and> covered b regs")
  case False
  show ?thesis
  proof (cases "c = None")
    case True
    then have nc: "\<not> covered b regs" using False by simp
    then obtain pre r post where "regs = pre @ r # post" "covered b pre" "budgets_lookup b (r_name r) = None" "budget_sum b regs 0 = Inl (Unconfigured (r_name r))"
      using budget_sum_missing by blast
    then have "\<exists>pre r post. regs = pre @ r # post \<and> covered b pre \<and> budgets_lookup b (r_name r) = None \<and>
        reg_configure k cpus regs b c = Some (None, [], Inl (Unconfigured (r_name r)))" using True by (auto simp: reg_configure_def)
    then show ?thesis using True nc by (simp only: if_True if_False simp_thms)
  qed (simp add: reg_configure_def)
next
  case True
  let ?s = "min (\<Sum>r\<leftarrow>regs. budget_of b r) (2 ^ 64 - 1)"
  have sm: "budget_sum b regs 0 = Inr ?s" using budget_sum_covered [of b regs 0] True by simp
  show ?thesis
  proof (cases "bg_total b < ?s")
    case over: True
    then have "reg_configure k cpus regs b c = Some (None, [], Inl (OverBudget ?s (bg_total b)))" using True sm by (simp add: reg_configure_def)
    then show ?thesis using True over by (simp only: if_True if_False simp_thms)
  next
    case fit: False
    obtain vs m where r: "build_all k cpus b regs = Some (vs, m)"
      "case m of
         Inr hs \<Rightarrow> list_all2 (built cpus b) regs hs \<and> length vs = length regs \<and> (\<Sum>r\<leftarrow>regs. budget_of b r) + length regs \<le> (\<Sum>v\<leftarrow>vs. res_len v)
       | Inl e \<Rightarrow> \<exists>pre r post e'. regs = pre @ r # post \<and> e = ReserveFailed (r_name r) e' \<and> length vs = length pre"
      using build_all_ok [OF _ assms] True by blast
    have run: "reg_configure k cpus regs b c = (case m of Inl e \<Rightarrow> Some (None, vs, Inl e) | Inr hs \<Rightarrow> Some (Some hs, vs, Inr ()))"
      using fit by (simp add: reg_configure_def sm r(1) conjunct1 [OF True] del: min_less_iff_conj)
    show ?thesis
    proof (cases m)
      case (Inl e)
      then obtain pre q post e' where "regs = pre @ q # post" "e = ReserveFailed (r_name q) e'" "length vs = length pre" using r(2) by auto
      then show ?thesis using run Inl True fit by (simp only: if_False simp_thms sum.case) blast
    next
      case (Inr hs)
      then show ?thesis using run r(2) True fit by (simp only: if_False simp_thms sum.case) blast
    qed
  qed
qed

theorem registry_configure_outcome_witness:
  "reg_configure (\<lambda>_. plain_os) 1 [register_subheap ''packet'' None (Some 8)] (budgets_sub (budgets_new 1000) ''packet'' 1048576) None =
     Some (None, [], Inl (OverBudget 1048576 1000))"
proof -
  let ?r = "register_subheap ''packet'' None (Some 8)" and ?b = "budgets_sub (budgets_new 1000) ''packet'' 1048576"
  have l: "budgets_lookup ?b (r_name ?r) = Some 1048576" by (simp add: budgets_lookup_def budgets_sub_def budgets_new_def register_subheap_def)
  have b: "budget_of ?b ?r = 1048576" using l by (simp add: budget_of_def)
  let ?bl = "reg_builder (Suc 0) ?r 1048576"
  have bl: "b_cap_per_class ?bl = 8" "b_num_cpus ?bl = Suc 0" "b_budget ?bl = 1048576" "b_num_shards ?bl = None"
    by (simp_all add: reg_builder_def builder_new_def register_subheap_def)
  have lay: "block_layout 8 = Some (locs, bytes) \<Longrightarrow> bytes = 3728" for locs bytes
  proof -
    have "map_option snd (block_layout 8) = Some 3728" unfolding block_layout_def
      by (subst class_locs8) (simp_all add: headers_bytes_def HEADER_BYTES_def)
    then show "block_layout 8 = Some (locs, bytes) \<Longrightarrow> bytes = 3728" by simp
  qed
  have s: "stride_for 3728 = 4096" by (simp add: stride_for_def bit_len.simps)
  have rb: "reserve_bytes ?bl = Some n \<Longrightarrow> n = 1052672" for n using lay s by (auto simp: reserve_bytes_def bl split: bind_splits)
  have ok: "build_ok ?bl 1048576" using lay s by (auto simp: build_ok_def bl U32_MAX_def div_ceil_def)
  have "res_base v = 1048576" if st: "build_standalone plain_os ?bl = Some (t, Inr (h, v))" for t h v
  proof -
    obtain n where "reserve_bytes ?bl = Some n" "reserve plain_os n = Some (t, Inr v)" using st by (auto simp: build_standalone_def split: bind_splits sum.splits)
    then have "reserve plain_os 1052672 = Some (t, Inr v)" using rb by simp
    then show ?thesis by (auto simp: reserve_def reserve_with_def opts_new_def choose_pages_def preflight_def memlock_limit_def U64_MAX_def map_pages_def
        mmap_region_def plain_os_def hint_pages_def lock_pages_def Let_def)
  qed
  then have k: "\<forall>r\<in>set [?r]. kernel_ok (\<lambda>_. plain_os) 1 ?b r" using plain_os_ok rb ok by (fastforce simp: kernel_ok_def b)
  have c: "covered ?b [?r]" using l by (simp add: covered_def)
  have t: "bg_total ?b = 1000" by (simp add: budgets_sub_def budgets_new_def)
  from registry_configure_outcome [OF k, of None] show ?thesis using c by (simp add: b t)
qed

end
