(* ===== verification/Rseq_Asm.thy ===== *)
theory Rseq_Asm
  imports Cpu_Slab
begin

text \<open>
  The restartable sequences of \<^verbatim>\<open>toccata-core/src/rseq/asm.rs\<close>, instruction by instruction, for both
  architectures. A program is the list of the items of its \<open>asm!\<close> block; labels stay in the list, as
  positions. Registers carry the names of the operands, hold 64-bit values, and a 32-bit
  operation clears the upper half. Memory is a map from the address of a cell (a \<open>u32\<close> or a pointer) to
  its value; the \<open>struct rseq\<close> of a thread is a record of its own.
\<close>

subsection \<open>Instructions\<close>

datatype reg = R_cpu | R_ncpus | R_loops | R_tmp | R_tmp2 | R_blk | R_base | R_shift | R_hdr | R_header_off | R_cur | R_cap |
  R_slots | R_slots_off | R_obj | R_status | R_stop_base

text \<open>Memory operands: a field of the rseq area, base plus offset, base plus shifted index plus offset.\<close>

datatype rseq_field = CPU_START | CPU_ID | RSEQ_CS

datatype opnd = RseqAt rseq_field | At reg nat | AtIdx reg reg nat nat

datatype item =
    Lbl nat
  | Sig
  | Ldw reg opnd
  | Ldx reg opnd
  | Stw opnd reg
  | Stx opnd reg
  | Stz opnd
  | Cmpw reg reg
  | Cmpwm reg opnd
  | Testw reg
  | Decx reg
  | Decw reg
  | Incw reg
  | Adrp reg
  | Addlo reg
  | Leacs reg
  | Lsli reg reg nat
  | Lslr reg reg reg
  | Add reg reg reg
  | Movr reg reg
  | Movi reg nat
  | Jhs nat
  | Jeq nat
  | Jne nat
  | Cbz reg nat
  | Cbnz reg nat
  | Jmp nat

definition STOP_SHIFT :: nat where
  "STOP_SHIFT = 7"

definition pop_a64 :: "item list" where
  "pop_a64 =
     [Jmp 7, Sig,
      Lbl 7,
      Ldw R_cpu (RseqAt CPU_START),
      Cmpw R_cpu R_ncpus,
      Jhs 92,
      Decx R_loops,
      Jeq 92,
      Adrp R_tmp,
      Addlo R_tmp,
      Stx (RseqAt RSEQ_CS) R_tmp,
      Lbl 2,
      Ldw R_tmp (RseqAt CPU_ID),
      Cmpw R_cpu R_tmp,
      Jne 7,
      Lsli R_tmp R_cpu STOP_SHIFT,
      Ldw R_tmp2 (AtIdx R_stop_base R_tmp 0 0),
      Cbnz R_tmp2 92,
      Lslr R_blk R_cpu R_shift,
      Add R_blk R_base R_blk,
      Add R_hdr R_blk R_header_off,
      Ldw R_cur (At R_hdr 0),
      Cbz R_cur 90,
      Decw R_cur,
      Add R_slots R_blk R_slots_off,
      Ldx R_obj (AtIdx R_slots R_cur 3 0),
      Stw (At R_hdr 0) R_cur,
      Lbl 6,
      Stz (RseqAt RSEQ_CS),
      Movi R_status 0,
      Jmp 8,
      Lbl 90,
      Stz (RseqAt RSEQ_CS),
      Movi R_status 1,
      Jmp 8,
      Lbl 92,
      Stz (RseqAt RSEQ_CS),
      Movi R_status 2,
      Movi R_obj 0,
      Lbl 8]"

definition push_a64 :: "item list" where
  "push_a64 =
     [Jmp 7, Sig,
      Lbl 7,
      Ldw R_cpu (RseqAt CPU_START),
      Cmpw R_cpu R_ncpus,
      Jhs 92,
      Decx R_loops,
      Jeq 92,
      Adrp R_tmp,
      Addlo R_tmp,
      Stx (RseqAt RSEQ_CS) R_tmp,
      Lbl 2,
      Ldw R_tmp (RseqAt CPU_ID),
      Cmpw R_cpu R_tmp,
      Jne 7,
      Lsli R_tmp R_cpu STOP_SHIFT,
      Ldw R_cap (AtIdx R_stop_base R_tmp 0 0),
      Cbnz R_cap 92,
      Lslr R_blk R_cpu R_shift,
      Add R_blk R_base R_blk,
      Add R_hdr R_blk R_header_off,
      Ldw R_cur (At R_hdr 0),
      Ldw R_cap (At R_hdr 4),
      Cmpw R_cur R_cap,
      Jhs 90,
      Add R_slots R_blk R_slots_off,
      Stx (AtIdx R_slots R_cur 3 0) R_obj,
      Incw R_cur,
      Stw (At R_hdr 0) R_cur,
      Lbl 6,
      Stz (RseqAt RSEQ_CS),
      Movi R_status 0,
      Jmp 8,
      Lbl 90,
      Stz (RseqAt RSEQ_CS),
      Movi R_status 1,
      Jmp 8,
      Lbl 92,
      Stz (RseqAt RSEQ_CS),
      Movi R_status 2,
      Lbl 8]"

text \<open>On x86-64 \<open>xor r, r\<close> is the move of 0, \<open>lea\<close> of a sum an addition, and the shift count of \<open>shlx\<close> is taken modulo 64 as for \<open>lsl\<close>.\<close>

definition pop_x64 :: "item list" where
  "pop_x64 =
     [Jmp 7, Sig,
      Lbl 7,
      Ldw R_cpu (RseqAt CPU_START),
      Cmpw R_cpu R_ncpus,
      Jhs 92,
      Decx R_loops,
      Jeq 92,
      Leacs R_tmp,
      Stx (RseqAt RSEQ_CS) R_tmp,
      Lbl 2,
      Cmpwm R_cpu (RseqAt CPU_ID),
      Jne 7,
      Movr R_tmp R_cpu,
      Lsli R_tmp R_tmp STOP_SHIFT,
      Ldw R_cur (AtIdx R_stop_base R_tmp 0 0),
      Testw R_cur,
      Jne 92,
      Movr R_blk R_cpu,
      Lslr R_blk R_blk R_shift,
      Add R_blk R_blk R_base,
      Ldw R_cur (AtIdx R_blk R_header_off 0 0),
      Testw R_cur,
      Jeq 90,
      Decw R_cur,
      Add R_tmp R_blk R_slots_off,
      Ldx R_obj (AtIdx R_tmp R_cur 3 0),
      Stw (AtIdx R_blk R_header_off 0 0) R_cur,
      Lbl 6,
      Stz (RseqAt RSEQ_CS),
      Movi R_status 0,
      Jmp 8,
      Lbl 90,
      Stz (RseqAt RSEQ_CS),
      Movi R_status 1,
      Jmp 8,
      Lbl 92,
      Stz (RseqAt RSEQ_CS),
      Movi R_status 2,
      Movi R_obj 0,
      Lbl 8]"

definition push_x64 :: "item list" where
  "push_x64 =
     [Jmp 7, Sig,
      Lbl 7,
      Ldw R_cpu (RseqAt CPU_START),
      Cmpw R_cpu R_ncpus,
      Jhs 92,
      Decx R_loops,
      Jeq 92,
      Leacs R_tmp,
      Stx (RseqAt RSEQ_CS) R_tmp,
      Lbl 2,
      Cmpwm R_cpu (RseqAt CPU_ID),
      Jne 7,
      Movr R_tmp R_cpu,
      Lsli R_tmp R_tmp STOP_SHIFT,
      Ldw R_cap (AtIdx R_stop_base R_tmp 0 0),
      Testw R_cap,
      Jne 92,
      Movr R_blk R_cpu,
      Lslr R_blk R_blk R_shift,
      Add R_blk R_blk R_base,
      Ldw R_cur (AtIdx R_blk R_header_off 0 0),
      Ldw R_cap (AtIdx R_blk R_header_off 0 4),
      Cmpw R_cur R_cap,
      Jhs 90,
      Add R_tmp R_blk R_slots_off,
      Stx (AtIdx R_tmp R_cur 3 0) R_obj,
      Incw R_cur,
      Stw (AtIdx R_blk R_header_off 0 0) R_cur,
      Lbl 6,
      Stz (RseqAt RSEQ_CS),
      Movi R_status 0,
      Jmp 8,
      Lbl 90,
      Stz (RseqAt RSEQ_CS),
      Movi R_status 1,
      Jmp 8,
      Lbl 92,
      Stz (RseqAt RSEQ_CS),
      Movi R_status 2,
      Lbl 8]"

datatype arch = A64 | X64

text \<open>A call: which sequence, for which class, with which object.\<close>

datatype rseq_op = OpPop nat | OpPush nat nat

fun code :: "arch \<Rightarrow> rseq_op \<Rightarrow> item list" where
  "code A64 (OpPop k) = pop_a64"
| "code A64 (OpPush k p) = push_a64"
| "code X64 (OpPop k) = pop_x64"
| "code X64 (OpPush k p) = push_x64"

subsection \<open>Execution\<close>

fun target :: "item list \<Rightarrow> nat \<Rightarrow> nat" where
  "target [] l = 0"
| "target (i # is) l = (if i = Lbl l then 0 else Suc (target is l))"

text \<open>The descriptor in the section \<open>__rseq_cs\<close>.\<close>

record rseq_cs =
  start_ip :: nat
  post_commit_offset :: nat
  abort_ip :: nat

definition descriptor :: "item list \<Rightarrow> rseq_cs" where
  "descriptor is = \<lparr> start_ip = target is 2, post_commit_offset = target is 6 - target is 2, abort_ip = target is 7 \<rparr>"

text \<open>The state of a thread: program counter, registers, flags (equal; unsigned higher or same), and the fields of its rseq area.\<close>

record thr =
  pc :: nat
  regs :: "reg \<Rightarrow> nat"
  zf :: bool
  hs :: bool
  cpu_id_start :: nat
  cpu_id :: nat
  rseq_cs_ptr :: nat

type_synonym mem = "nat \<Rightarrow> nat"

definition w32 :: "nat \<Rightarrow> nat" where
  "w32 n = n mod 2 ^ 32"

definition w64 :: "nat \<Rightarrow> nat" where
  "w64 n = n mod 2 ^ 64"

fun addr_of :: "thr \<Rightarrow> opnd \<Rightarrow> nat" where
  "addr_of t (RseqAt f) = 0"
| "addr_of t (At r d) = w64 (regs t r + d)"
| "addr_of t (AtIdx r i s d) = w64 (regs t r + regs t i * 2 ^ s + d)"

fun load :: "mem \<Rightarrow> thr \<Rightarrow> opnd \<Rightarrow> nat" where
  "load m t (RseqAt CPU_START) = cpu_id_start t"
| "load m t (RseqAt CPU_ID) = cpu_id t"
| "load m t (RseqAt RSEQ_CS) = rseq_cs_ptr t"
| "load m t a = m (addr_of t a)"

text \<open>The sequences store only to the descriptor pointer of their rseq area and to memory.\<close>

fun store :: "opnd \<Rightarrow> nat \<Rightarrow> mem \<times> thr \<Rightarrow> mem \<times> thr" where
  "store (RseqAt CPU_START) v (m, t) = (m, t\<lparr>cpu_id_start := v\<rparr>)"
| "store (RseqAt CPU_ID) v (m, t) = (m, t\<lparr>cpu_id := v\<rparr>)"
| "store (RseqAt RSEQ_CS) v (m, t) = (m, t\<lparr>rseq_cs_ptr := v\<rparr>)"
| "store a v (m, t) = (m(addr_of t a := v), t)"

definition next_pc :: "thr \<Rightarrow> thr" where
  "next_pc t = t\<lparr>pc := pc t + 1\<rparr>"

definition set_reg :: "reg \<Rightarrow> nat \<Rightarrow> thr \<Rightarrow> thr" where
  "set_reg r v t = t\<lparr>regs := (regs t)(r := v), pc := pc t + 1\<rparr>"

definition branch :: "item list \<Rightarrow> bool \<Rightarrow> nat \<Rightarrow> thr \<Rightarrow> thr" where
  "branch is b l t = t\<lparr>pc := (if b then target is l else pc t + 1)\<rparr>"

text \<open>One instruction; \<open>cs\<close> is the address of the descriptor.\<close>

fun exec_item :: "item list \<Rightarrow> nat \<Rightarrow> item \<Rightarrow> mem \<times> thr \<Rightarrow> mem \<times> thr" where
  "exec_item is cs (Lbl l) (m, t) = (m, next_pc t)"
| "exec_item is cs Sig (m, t) = (m, t)"
| "exec_item is cs (Ldw r a) (m, t) = (m, set_reg r (w32 (load m t a)) t)"
| "exec_item is cs (Ldx r a) (m, t) = (m, set_reg r (w64 (load m t a)) t)"
| "exec_item is cs (Stw a r) (m, t) = store a (w32 (regs t r)) (m, next_pc t)"
| "exec_item is cs (Stx a r) (m, t) = store a (w64 (regs t r)) (m, next_pc t)"
| "exec_item is cs (Stz a) (m, t) = store a 0 (m, next_pc t)"
| "exec_item is cs (Cmpw r q) (m, t) =
     (m, next_pc t\<lparr>zf := (w32 (regs t r) = w32 (regs t q)), hs := (w32 (regs t q) \<le> w32 (regs t r))\<rparr>)"
| "exec_item is cs (Cmpwm r a) (m, t) =
     (m, next_pc t\<lparr>zf := (w32 (regs t r) = w32 (load m t a)), hs := (w32 (load m t a) \<le> w32 (regs t r))\<rparr>)"
| "exec_item is cs (Testw r) (m, t) = (m, next_pc t\<lparr>zf := (w32 (regs t r) = 0), hs := True\<rparr>)"
| "exec_item is cs (Decx r) (m, t) = (m, set_reg r (w64 (regs t r + 2 ^ 64 - 1)) (t\<lparr>zf := (w64 (regs t r + 2 ^ 64 - 1) = 0)\<rparr>))"
| "exec_item is cs (Decw r) (m, t) = (m, set_reg r (w32 (regs t r + 2 ^ 32 - 1)) t)"
| "exec_item is cs (Incw r) (m, t) = (m, set_reg r (w32 (regs t r + 1)) t)"
| "exec_item is cs (Adrp r) (m, t) = (m, set_reg r (cs - cs mod 4096) t)"
| "exec_item is cs (Addlo r) (m, t) = (m, set_reg r (w64 (regs t r + cs mod 4096)) t)"
| "exec_item is cs (Leacs r) (m, t) = (m, set_reg r cs t)"
| "exec_item is cs (Lsli r q n) (m, t) = (m, set_reg r (w64 (regs t q * 2 ^ n)) t)"
| "exec_item is cs (Lslr r q s) (m, t) = (m, set_reg r (w64 (regs t q * 2 ^ (regs t s mod 64))) t)"
| "exec_item is cs (Add r q s) (m, t) = (m, set_reg r (w64 (regs t q + regs t s)) t)"
| "exec_item is cs (Movr r q) (m, t) = (m, set_reg r (regs t q) t)"
| "exec_item is cs (Movi r n) (m, t) = (m, set_reg r n t)"
| "exec_item is cs (Jhs l) (m, t) = (m, branch is (hs t) l t)"
| "exec_item is cs (Jeq l) (m, t) = (m, branch is (zf t) l t)"
| "exec_item is cs (Jne l) (m, t) = (m, branch is (\<not> zf t) l t)"
| "exec_item is cs (Cbz r l) (m, t) = (m, branch is (w32 (regs t r) = 0) l t)"
| "exec_item is cs (Cbnz r l) (m, t) = (m, branch is (w32 (regs t r) \<noteq> 0) l t)"
| "exec_item is cs (Jmp l) (m, t) = (m, branch is True l t)"

definition exec1 :: "item list \<Rightarrow> nat \<Rightarrow> mem \<times> thr \<Rightarrow> mem \<times> thr" where
  "exec1 is cs s = (if pc (snd s) < length is then exec_item is cs (is ! pc (snd s)) s else s)"

text \<open>The \<open>match\<close> on the status after the block.\<close>

fun result_of :: "rseq_op \<Rightarrow> thr \<Rightarrow> rseq_result" where
  "result_of (OpPop k) t =
     (if regs t R_status = 0 then ROk (regs t R_obj) (w32 (regs t R_cpu)) else if regs t R_status = 1 then RNeedsSlow else RFallback)"
| "result_of (OpPush k p) t =
     (if regs t R_status = 0 then ROk 0 (w32 (regs t R_cpu)) else if regs t R_status = 1 then RNeedsSlow else RFallback)"

end
