(* ===== verification/Pthread_Local.thy ===== *)
theory Pthread_Local
  imports Toccata_Prelude
begin

text \<open>
  The thread-local slot of \<^verbatim>\<open>sys/pthread_local.rs\<close>, which is safe to use inside the allocator. The state
  of one static \<open>PthreadLocal\<close>, the values that the threads have under its key, and the blocks of the C
  heap that hold an initialized value. The C library is a parameter; its answers may differ from call to call.
\<close>

record 'a plocal =
  key_cell :: nat
  once :: bool
  failed :: bool
  specific :: "nat \<Rightarrow> nat \<Rightarrow> nat"
  tls_blocks :: "nat \<rightharpoonup> 'a"

text \<open>\<open>pthread_key_create\<close> answers with a code and a key, \<open>posix_memalign\<close> with a code and an address that
  depends on what is in use, \<open>pthread_setspecific\<close> with a code.\<close>

record libc =
  key_create :: "nat \<times> nat"
  memalign :: "nat set \<Rightarrow> nat \<Rightarrow> nat \<Rightarrow> nat \<times> nat"
  setspecific :: nat

definition libc_ok :: "libc \<Rightarrow> bool" where
  "libc_ok lc \<longleftrightarrow> (\<forall>U a n. fst (memalign lc U a n) = 0 \<longrightarrow> snd (memalign lc U a n) \<notin> U)"

definition pl_new :: "'a plocal" where
  "pl_new = \<lparr> key_cell = 0, once = False, failed = False, specific = (\<lambda>i k. 0), tls_blocks = Map.empty \<rparr>"

definition pl_key :: "libc \<Rightarrow> 'a plocal \<Rightarrow> 'a plocal \<times> nat option" where
  "pl_key lc w =
     (let w' = (if once w then w
                else if fst (key_create lc) \<noteq> 0 then w\<lparr>once := True, failed := True\<rparr>
                else w\<lparr>once := True, key_cell := snd (key_create lc)\<rparr>)
      in (w', if failed w' then None else Some (key_cell w')))"

text \<open>The initializer may change a state of its own, here the kernel's.\<close>

definition init_slot :: "libc \<Rightarrow> nat \<Rightarrow> nat \<Rightarrow> ('s \<Rightarrow> 'a \<times> 's) \<Rightarrow> nat \<Rightarrow> nat \<Rightarrow> 's \<times> 'a plocal \<Rightarrow> ('s \<times> 'a plocal) \<times> nat" where
  "init_slot lc align_T size_T init i key = (\<lambda>(s, w).
     (let (rc, p) = memalign lc (dom (tls_blocks w)) (max align_T 8) (max size_T 1)
      in if rc \<noteq> 0 \<or> p = 0 then ((s, w), 0)
         else (let (v, s') = init s;
                   w' = w\<lparr>tls_blocks := (tls_blocks w)(p \<mapsto> v)\<rparr>
               in ((s', if setspecific lc = 0 then w'\<lparr>specific := (specific w')(i := (specific w' i)(key := p))\<rparr> else w'), p))))"

definition NO_TLS :: string where
  "NO_TLS = ''toccata-sys: thread-local storage unavailable (pthread key/alloc failed); aborting'' @ [CHR 0x0A]"

text \<open>\<open>with\<close>: an abort is \<open>Inl\<close> with its message; reading a block that holds no value would be undefined (\<open>None\<close>).\<close>

definition pl_with :: "libc \<Rightarrow> nat \<Rightarrow> nat \<Rightarrow> ('s \<Rightarrow> 'a \<times> 's) \<Rightarrow> nat \<Rightarrow> ('a \<Rightarrow> 'r \<times> 'a) \<Rightarrow> 's \<times> 'a plocal \<Rightarrow> (('s \<times> 'a plocal) \<times> (string + 'r)) rust" where
  "pl_with lc align_T size_T init i f = (\<lambda>(s, w).
     (case pl_key lc w of
        (w1, None) \<Rightarrow> Some ((s, w1), Inl NO_TLS)
      | (w1, Some key) \<Rightarrow>
          (let existing = specific w1 i key;
               ((s2, w2), p) = (if existing = 0 then init_slot lc align_T size_T init i key (s, w1) else ((s, w1), existing))
           in if p = 0 then Some ((s2, w2), Inl NO_TLS)
              else do {
                v \<leftarrow> tls_blocks w2 p;
                Some ((s2, w2\<lparr>tls_blocks := (tls_blocks w2)(p \<mapsto> snd (f v))\<rparr>), Inr (fst (f v)))
              })))"

text \<open>The destructor drops the value in place and frees the block.\<close>

definition dtor :: "('a \<Rightarrow> 's \<Rightarrow> 's) \<Rightarrow> nat \<Rightarrow> 's \<times> 'a plocal \<Rightarrow> ('s \<times> 'a plocal) rust" where
  "dtor drop_T p = (\<lambda>(s, w).
     if p = 0 then Some (s, w)
     else do { v \<leftarrow> tls_blocks w p; Some (drop_T v s, w\<lparr>tls_blocks := (tls_blocks w)(p := None)\<rparr>) })"

text \<open>At the end of a thread, POSIX clears the value under the key and calls the destructor with it.\<close>

definition exit_slot :: "('a \<Rightarrow> 's \<Rightarrow> 's) \<Rightarrow> nat \<Rightarrow> 's \<times> 'a plocal \<Rightarrow> ('s \<times> 'a plocal) rust" where
  "exit_slot drop_T i = (\<lambda>(s, w).
     let p = specific w i (key_cell w) in
     dtor drop_T p (s, w\<lparr>specific := (specific w)(i := (specific w i)(key_cell w := 0))\<rparr>))"

subsection \<open>Invariant\<close>

text \<open>The values under the key are addresses of blocks with a value, different for different threads.\<close>

definition slots_ok :: "'a plocal \<Rightarrow> bool" where
  "slots_ok w \<longleftrightarrow> 0 \<notin> dom (tls_blocks w) \<and>
     (\<forall>i k. specific w i k \<noteq> 0 \<longrightarrow> once w \<and> \<not> failed w \<and> k = key_cell w \<and> specific w i k \<in> dom (tls_blocks w) \<and> (\<forall>j. specific w j k = specific w i k \<longrightarrow> j = i))"

lemma slots_ok_new [simp]: "slots_ok pl_new"
  by (simp add: slots_ok_def pl_new_def)

lemma slots_okD:
  assumes "slots_ok w" "specific w i k \<noteq> 0"
  shows "k = key_cell w" "specific w i k \<in> dom (tls_blocks w)" "specific w j k = specific w i k \<longleftrightarrow> j = i" "once w" "\<not> failed w"
  using assms unfolding slots_ok_def by metis+

lemma slots_okI:
  assumes "0 \<notin> dom (tls_blocks w)" "\<And>h k. specific w h k = s h k"
    and "\<And>h k. s h k \<noteq> 0 \<Longrightarrow> once w \<and> \<not> failed w \<and> k = key_cell w \<and> s h k \<in> dom (tls_blocks w) \<and> (\<forall>j. s j k = s h k \<longrightarrow> j = h)"
  shows "slots_ok w"
  unfolding slots_ok_def assms(2) using assms(1,3) by blast

text \<open>What the key does to the slots: nothing.\<close>

lemma pl_key_cases:
  assumes "pl_key lc w = (w1, ko)" "slots_ok w"
  shows "slots_ok w1" "tls_blocks w1 = tls_blocks w" "specific w1 = specific w" "once w1" "ko = (if failed w1 then None else Some (key_cell w1))"
  using assms by (auto simp: pl_key_def slots_ok_def Let_def split: if_splits)

lemma slots_ok_fresh:
  assumes "slots_ok w" "once w" "\<not> failed w" "p \<noteq> 0" "p \<notin> dom (tls_blocks w)"
  shows "slots_ok (w\<lparr>tls_blocks := (tls_blocks w)(p \<mapsto> v)\<rparr>)"
    "slots_ok (w\<lparr>tls_blocks := (tls_blocks w)(p \<mapsto> v), specific := (specific w)(i := (specific w i)(key_cell w := p))\<rparr>)"
proof -
  note D = slots_okD [OF assms(1)]
  have z: "0 \<notin> dom (tls_blocks w)" using assms(1) by (simp add: slots_ok_def)
  show "slots_ok (w\<lparr>tls_blocks := (tls_blocks w)(p \<mapsto> v)\<rparr>)" using assms z D unfolding slots_ok_def by simp
  have n: "specific w j k \<noteq> p" for j k using D(2) [of j k] assms(4,5) by auto
  let ?s = "\<lambda>h k. if h = i \<and> k = key_cell w then p else specific w h k"
  have s: "once w \<and> \<not> failed w \<and> k = key_cell w \<and> ?s h k \<in> insert p (dom (tls_blocks w)) \<and> (\<forall>j. ?s j k = ?s h k \<longrightarrow> j = h)" if "?s h k \<noteq> 0" for h k
    using that assms(2-4) n n [symmetric] D [of h k] by (simp split: if_splits)
  show "slots_ok (w\<lparr>tls_blocks := (tls_blocks w)(p \<mapsto> v), specific := (specific w)(i := (specific w i)(key_cell w := p))\<rparr>)" (is "slots_ok ?w")
  proof (rule slots_okI [where s = ?s])
    have e: "once ?w = once w" "failed ?w = failed w" "key_cell ?w = key_cell w" "dom (tls_blocks ?w) = insert p (dom (tls_blocks w))" by simp_all
    show "once ?w \<and> \<not> failed ?w \<and> k = key_cell ?w \<and> ?s h k \<in> dom (tls_blocks ?w) \<and> (\<forall>j. ?s j k = ?s h k \<longrightarrow> j = h)" if "?s h k \<noteq> 0" for h k
      unfolding e by (rule s [OF that])
  qed (use assms(4) z in simp_all)
qed

lemma slots_ok_write: "slots_ok w \<Longrightarrow> p \<in> dom (tls_blocks w) \<Longrightarrow> slots_ok (w\<lparr>tls_blocks := (tls_blocks w)(p \<mapsto> v)\<rparr>)"
  by (simp add: slots_ok_def insert_absorb)

lemma slots_ok_gone:
  assumes "slots_ok w" "specific w i (key_cell w) \<noteq> 0"
  shows "slots_ok (w\<lparr>specific := (specific w)(i := (specific w i)(key_cell w := 0)), tls_blocks := (tls_blocks w)(specific w i (key_cell w) := None)\<rparr>)"
proof -
  note D = slots_okD [OF assms(1)]
  let ?s = "\<lambda>h k. if h = i \<and> k = key_cell w then 0 else specific w h k"
  have s: "once w \<and> \<not> failed w \<and> k = key_cell w \<and> ?s h k \<in> dom (tls_blocks w) - {specific w i (key_cell w)} \<and> (\<forall>j. ?s j k = ?s h k \<longrightarrow> j = h)" if "?s h k \<noteq> 0" for h k
  proof -
    have h: "specific w h k \<noteq> 0" "h \<noteq> i \<or> k \<noteq> key_cell w" using that by (auto split: if_splits)
    then have k: "k = key_cell w" "h \<noteq> i" using D(1) [OF h(1)] by auto
    have i: "?s h k = specific w h k" using k by simp
    have "specific w h k \<noteq> specific w i (key_cell w)" using D(3) [OF h(1), of i] k by metis
    moreover have "j = h" if "?s j k = specific w h k" for j using that D(3) [OF h(1), of j] h(1) by presburger
    ultimately show ?thesis unfolding i using D(2,4,5) [OF h(1)] k(1) by blast
  qed
  have z: "0 \<notin> dom (tls_blocks w)" using assms(1) by (simp add: slots_ok_def)
  show ?thesis (is "slots_ok ?w")
  proof (rule slots_okI [where s = ?s])
    have e: "once ?w = once w" "failed ?w = failed w" "key_cell ?w = key_cell w" "dom (tls_blocks ?w) = dom (tls_blocks w) - {specific w i (key_cell w)}" by simp_all
    show "once ?w \<and> \<not> failed ?w \<and> k = key_cell ?w \<and> ?s h k \<in> dom (tls_blocks ?w) \<and> (\<forall>j. ?s j k = ?s h k \<longrightarrow> j = h)" if "?s h k \<noteq> 0" for h k
      unfolding e by (rule s [OF that])
  qed (use z in simp_all)
qed

text \<open>The three outcomes of an access: an abort that changes no slot, the value of the thread, or a new one.\<close>

lemma pl_with_cases:
  assumes "slots_ok w" "libc_ok lc"
  obtains (abort) w' where "pl_with lc al sz init i f (s, w) = Some ((s, w'), Inl NO_TLS)" "slots_ok w'" "tls_blocks w' = tls_blocks w" "specific w' = specific w"
      "\<And>h. specific w i h = 0"
  | (found) w' p v where "pl_with lc al sz init i f (s, w) = Some ((s, w'), Inr (fst (f v)))" "slots_ok w'" "p = specific w i (key_cell w')" "p \<noteq> 0" "tls_blocks w p = Some v"
      "tls_blocks w' = (tls_blocks w)(p \<mapsto> snd (f v))" "specific w' = specific w"
  | (fresh) w' s' p v where "pl_with lc al sz init i f (s, w) = Some ((s', w'), Inr (fst (f v)))" "slots_ok w'" "p \<noteq> 0" "p \<notin> dom (tls_blocks w)" "init s = (v, s')"
      "tls_blocks w' = (tls_blocks w)(p \<mapsto> snd (f v))" "specific w i (key_cell w') = 0" "specific w' = specific w \<or> specific w' = (specific w)(i := (specific w i)(key_cell w' := p))"
proof -
  obtain w1 ko where k: "pl_key lc w = (w1, ko)" by fastforce
  note K = pl_key_cases [OF k assms(1)]
  show ?thesis
  proof (cases "failed w1")
    case True
    then have "specific w i h = 0" for h using slots_okD(5) [OF K(1), of i h] K(3) by auto
    then show ?thesis using k K True by (intro abort [of w1]) (simp_all add: pl_with_def)
  next
    case False
    note K' = K(1-4) and ko = K(5) [simplified False if_False]
    show ?thesis
    proof (cases "specific w1 i (key_cell w1) = 0")
      case False
      then obtain v where v: "tls_blocks w1 (specific w1 i (key_cell w1)) = Some v" using slots_okD(2) [OF K'(1)] by blast
      then show ?thesis using k ko False K' slots_ok_write [OF K'(1), of "specific w1 i (key_cell w1)" "snd (f v)"]
        by (intro found [of "w1\<lparr>tls_blocks := (tls_blocks w1)(specific w1 i (key_cell w1) \<mapsto> snd (f v))\<rparr>" v]) (auto simp: pl_with_def Let_def)
    next
      case new: True
      obtain rc p where m: "memalign lc (dom (tls_blocks w1)) (max al 8) (max sz 1) = (rc, p)" by fastforce
      show ?thesis
      proof (cases "rc \<noteq> 0 \<or> p = 0")
        case True
        have "specific w i h = 0" for h using slots_okD(1) [OF K'(1), of i h] K'(3) new by auto
        with True show ?thesis using k ko new m K' by (intro abort [of w1]) (auto simp: pl_with_def init_slot_def Let_def)
      next
        case False
        then have p: "p \<noteq> 0" "rc = 0" "p \<notin> dom (tls_blocks w1)" using assms(2) m by (auto simp: libc_ok_def) (metis fst_conv snd_conv domI)
        obtain v s' where v: "init s = (v, s')" by fastforce
        note S = slots_ok_fresh [OF K'(1,4) \<open>\<not> failed w1\<close> p(1,3)]
        let ?w = "w1\<lparr>tls_blocks := (tls_blocks w1)(p \<mapsto> snd (f v))\<rparr>"
        let ?w2 = "if setspecific lc = 0 then ?w\<lparr>specific := (specific w1)(i := (specific w1 i)(key_cell w1 := p))\<rparr> else ?w"
        have "pl_with lc al sz init i f (s, w) = Some ((s', ?w2), Inr (fst (f v)))"
          using k ko new m p v by (simp add: pl_with_def init_slot_def Let_def)
        then show ?thesis using K' new p v S by (intro fresh [of s' ?w2 v p]) simp_all
      qed
    qed
  qed
qed

text \<open>A thread ends without a double free, and its slot only is gone.\<close>

lemma exit_slot_cases:
  assumes "slots_ok w"
  obtains (none) "specific w i (key_cell w) = 0" "exit_slot drop_T i (s, w) = Some (s, w)"
  | (some) w' p v where "p = specific w i (key_cell w)" "p \<noteq> 0" "tls_blocks w p = Some v" "exit_slot drop_T i (s, w) = Some (drop_T v s, w')" "slots_ok w'"
      "tls_blocks w' = (tls_blocks w)(p := None)" "specific w' = (specific w)(i := (specific w i)(key_cell w := 0))" "key_cell w' = key_cell w"
proof (cases "specific w i (key_cell w) = 0")
  case True
  then have "w\<lparr>specific := (specific w)(i := (specific w i)(key_cell w := 0))\<rparr> = w" by (metis fun_upd_triv plocal.surjective plocal.update_convs(4))
  then show ?thesis using True none by (simp add: exit_slot_def dtor_def Let_def)
next
  case False
  then obtain v where v: "tls_blocks w (specific w i (key_cell w)) = Some v" using slots_okD(2) [OF assms] by blast
  let ?p = "specific w i (key_cell w)"
  let ?w = "w\<lparr>specific := (specific w)(i := (specific w i)(key_cell w := 0)), tls_blocks := (tls_blocks w)(?p := None)\<rparr>"
  have "slots_ok ?w" by (rule slots_ok_gone [OF assms False])
  then show ?thesis using False v by (intro some [of ?p v ?w]) (simp_all add: exit_slot_def dtor_def Let_def)
qed

subsection \<open>The contract of a thread-local value\<close>

text \<open>
  Each thread has at most one value; an access by a thread changes its own value only, and works on the
  value that it left there; the end of a thread takes its value away.
\<close>

locale thread_slots =
  fixes ok :: "'w \<Rightarrow> bool" and val :: "'w \<Rightarrow> nat \<Rightarrow> 'a option"
    and acc :: "nat \<Rightarrow> ('a \<Rightarrow> 'a) \<Rightarrow> 'w \<Rightarrow> 'w \<Rightarrow> bool" and quit :: "nat \<Rightarrow> 'w \<Rightarrow> 'w \<Rightarrow> bool"
  assumes acc_ok: "ok w \<Longrightarrow> acc i g w w' \<Longrightarrow> ok w'"
    and acc_other: "ok w \<Longrightarrow> acc i g w w' \<Longrightarrow> j \<noteq> i \<Longrightarrow> val w' j = val w j"
    and acc_own: "ok w \<Longrightarrow> acc i g w w' \<Longrightarrow> val w i = Some v \<Longrightarrow> val w' i = Some (g v)"
    and quit_ok: "ok w \<Longrightarrow> quit i w w' \<Longrightarrow> ok w'"
    and quit_other: "ok w \<Longrightarrow> quit i w w' \<Longrightarrow> j \<noteq> i \<Longrightarrow> val w' j = val w j"
    and quit_own: "ok w \<Longrightarrow> quit i w w' \<Longrightarrow> val w' i = None"
begin

inductive slot_run :: "nat \<Rightarrow> 'w \<Rightarrow> ('a \<Rightarrow> 'a) list \<Rightarrow> 'w \<Rightarrow> bool" for i where
  start: "slot_run i w [] w"
| mine: "slot_run i w gs w' \<Longrightarrow> acc i g w' w'' \<Longrightarrow> slot_run i w (gs @ [g]) w''"
| others: "slot_run i w gs w' \<Longrightarrow> acc j g w' w'' \<Longrightarrow> j \<noteq> i \<Longrightarrow> slot_run i w gs w''"
| other_quits: "slot_run i w gs w' \<Longrightarrow> quit j w' w'' \<Longrightarrow> j \<noteq> i \<Longrightarrow> slot_run i w gs w''"

lemma slot_run_value:
  "slot_run i w gs w' \<Longrightarrow> ok w \<Longrightarrow> val w i = Some v \<Longrightarrow> ok w' \<and> val w' i = Some (fold (\<lambda>g. g) gs v)"
proof (induction rule: slot_run.induct)
  case (mine w gs w' g w'')
  then show ?case using acc_ok acc_own by auto
next
  case (others w gs w' j g w'')
  then show ?case using acc_ok acc_other [of w' j g w'' i] by auto
next
  case (other_quits w gs w' j w'')
  then show ?case using quit_ok quit_other [of w' j w'' i] by auto
qed simp

end

definition slot_value :: "'a plocal \<Rightarrow> nat \<Rightarrow> 'a option" where
  "slot_value w i = (if specific w i (key_cell w) = 0 then None else tls_blocks w (specific w i (key_cell w)))"

definition pl_access :: "nat \<Rightarrow> nat \<Rightarrow> ('s \<Rightarrow> 'a \<times> 's) \<Rightarrow> nat \<Rightarrow> ('a \<Rightarrow> 'a) \<Rightarrow> 's \<times> 'a plocal \<Rightarrow> 's \<times> 'a plocal \<Rightarrow> bool" where
  "pl_access al sz init i g x x' \<longleftrightarrow> (\<exists>lc r. libc_ok lc \<and> pl_with lc al sz init i (\<lambda>v. ((), g v)) x = Some (x', r))"

lemma slot_value_iff: "slots_ok w \<Longrightarrow> slot_value w i = Some v \<longleftrightarrow> (\<exists>k. specific w i k \<noteq> 0 \<and> tls_blocks w (specific w i k) = Some v)"
  using slots_okD(1) [of w i] unfolding slot_value_def by (metis option.distinct(1))

lemma slot_value_other:
  assumes "slots_ok w" "slots_ok w'" "specific w' j = specific w j" "\<And>k. specific w j k \<noteq> 0 \<Longrightarrow> tls_blocks w' (specific w j k) = tls_blocks w (specific w j k)"
  shows "slot_value w' j = slot_value w j"
proof -
  have "slot_value w' j = Some v \<longleftrightarrow> slot_value w j = Some v" for v
    unfolding slot_value_iff [OF assms(1)] slot_value_iff [OF assms(2)] assms(3) using assms(4) by auto
  then show ?thesis by (metis not_Some_eq)
qed

lemma access_slot:
  assumes "slots_ok (snd x)" "pl_access al sz init i g x x'"
  shows "slots_ok (snd x')" "j \<noteq> i \<Longrightarrow> slot_value (snd x') j = slot_value (snd x) j" "slot_value (snd x) i = Some v \<Longrightarrow> slot_value (snd x') i = Some (g v)"
proof -
  obtain lc r where lc: "libc_ok lc" and a: "pl_with lc al sz init i (\<lambda>v. ((), g v)) (fst x, snd x) = Some (x', r)" using assms(2) by (auto simp: pl_access_def)
  note D = slots_okD [OF assms(1)]
  have n: "slot_value (snd x) h = None" if "specific (snd x) h (key_cell (snd x)) = 0" for h using that by (simp add: slot_value_def)
  from assms(1) lc have "slots_ok (snd x') \<and> (j \<noteq> i \<longrightarrow> slot_value (snd x') j = slot_value (snd x) j) \<and> (slot_value (snd x) i = Some v \<longrightarrow> slot_value (snd x') i = Some (g v))"
  proof (cases rule: pl_with_cases [where al = al and sz = sz and init = init and i = i and f = "\<lambda>v. ((), g v)" and s = "fst x"])
    case (abort w')
    have x: "snd x' = w'" using a abort(1) by auto
    have "slot_value w' j = slot_value (snd x) j" by (rule slot_value_other [OF assms(1) abort(2)]) (simp_all add: abort(3,4))
    then show ?thesis unfolding x using abort(2,5) n by simp
  next
    case (found w' p u)
    have x: "snd x' = w'" using a found(1) by auto
    have "slot_value w' j = slot_value (snd x) j" if "j \<noteq> i"
    proof (rule slot_value_other [OF assms(1) found(2)])
      show "tls_blocks w' (specific (snd x) j k) = tls_blocks (snd x) (specific (snd x) j k)" if "specific (snd x) j k \<noteq> 0" for k
        using D(1,3) [OF that] found(3,4,6) D(1) [of i "key_cell w'"] \<open>j \<noteq> i\<close> by (metis fun_upd_other)
    qed (simp add: found(7))
    moreover have "slot_value (snd x) i = Some u" using slot_value_iff [OF assms(1)] found(3-5) by blast
    moreover have "slot_value w' i = Some (g u)" using slot_value_iff [OF found(2), of i "g u"] found(3,4,6,7) by auto
    ultimately show ?thesis using x found(2) by simp
  next
    case (fresh w' s' p u)
    have x: "snd x' = w'" using a fresh(1) by auto
    have "slot_value w' j = slot_value (snd x) j" if "j \<noteq> i"
    proof (rule slot_value_other [OF assms(1) fresh(2)])
      show "tls_blocks w' (specific (snd x) j k) = tls_blocks (snd x) (specific (snd x) j k)" if "specific (snd x) j k \<noteq> 0" for k
        using D(2) [OF that] fresh(4,6) by auto
      show "specific w' j = specific (snd x) j" using fresh(8) \<open>j \<noteq> i\<close> by auto
    qed
    moreover have "slot_value (snd x) i = None"
    proof -
      have "specific (snd x) i h = 0" for h
      proof (rule ccontr)
        assume h: "specific (snd x) i h \<noteq> 0"
        then have "specific w' i h \<noteq> 0" using fresh(3,8) by (metis fun_upd_apply)
        then have "h = key_cell w'" by (rule slots_okD(1) [OF fresh(2)])
        then show False using h fresh(7) by simp
      qed
      then show ?thesis by (simp add: slot_value_def)
    qed
    ultimately show ?thesis using x fresh(2) by simp
  qed
  then show "slots_ok (snd x')" "j \<noteq> i \<Longrightarrow> slot_value (snd x') j = slot_value (snd x) j" "slot_value (snd x) i = Some v \<Longrightarrow> slot_value (snd x') i = Some (g v)" by blast+
qed

lemma exit_slot_value:
  assumes "slots_ok (snd x)" "exit_slot drop_T i x = Some x'"
  shows "slots_ok (snd x')" "j \<noteq> i \<Longrightarrow> slot_value (snd x') j = slot_value (snd x) j" "slot_value (snd x') i = None"
proof -
  note D = slots_okD [OF assms(1)]
  have e: "exit_slot drop_T i (fst x, snd x) = Some x'" using assms(2) by simp
  from assms(1) have "slots_ok (snd x') \<and> (j \<noteq> i \<longrightarrow> slot_value (snd x') j = slot_value (snd x) j) \<and> slot_value (snd x') i = None"
  proof (cases rule: exit_slot_cases [where i = i and drop_T = drop_T and s = "fst x"])
    case none
    then show ?thesis using e assms(1) by (auto simp: slot_value_def)
  next
    case (some w' p v)
    have "slot_value w' j = slot_value (snd x) j" if "j \<noteq> i"
    proof (rule slot_value_other [OF assms(1) some(5)])
      show "tls_blocks w' (specific (snd x) j k) = tls_blocks (snd x) (specific (snd x) j k)" if "specific (snd x) j k \<noteq> 0" for k
        using D(1,3) [OF that] some(1,2,6) \<open>j \<noteq> i\<close> by (metis fun_upd_other)
    qed (simp add: some(7) that)
    moreover have "slot_value w' i = None" by (simp add: slot_value_def some(7,8))
    ultimately show ?thesis using e some(4,5) by auto
  qed
  then show "slots_ok (snd x')" "j \<noteq> i \<Longrightarrow> slot_value (snd x') j = slot_value (snd x) j" "slot_value (snd x') i = None" by blast+
qed

interpretation pls: thread_slots "\<lambda>x. slots_ok (snd x)" "\<lambda>x. slot_value (snd x)" "pl_access al sz init" "\<lambda>i x x'. exit_slot drop_T i x = Some x'" for al sz init drop_T
  by unfold_locales (rule access_slot exit_slot_value; assumption)+

text \<open>
  The value of a thread is private: whatever other threads access, initialize or drop, it is the
  result of the accesses of its own thread, in their order.
\<close>

lemma slot_private:
  assumes "pls.slot_run al sz init drop_T i (s, w) gs (s', w')" "slots_ok w" "slot_value w i = Some v"
  shows "slot_value w' i = Some (fold (\<lambda>g. g) gs v)"
  using pls.slot_run_value [OF assms(1)] assms(2,3) by simp

end
