(* ===== verification/Rseq_Abi.thy ===== *)
theory Rseq_Abi
  imports Rseq_Asm Pthread_Local
begin

text \<open>
  The rseq area of a thread (\<^verbatim>\<open>rseq/abi.rs\<close>, \<^verbatim>\<open>rseq/abi/linux.rs\<close>): the area that glibc has registered, or
  one that the thread registers itself on first use, keeps in a thread-local slot and unregisters when it
  ends. The dynamic linker, the thread pointer, the system allocator and the system call are parameters.
\<close>

subsection \<open>Data\<close>

record rseq_area =
  ra_cpu_id_start :: nat
  ra_cpu_id :: nat
  ra_rseq_cs :: nat
  ra_flags :: nat

definition rseq_zeroed :: rseq_area where
  "rseq_zeroed = \<lparr> ra_cpu_id_start = 0, ra_cpu_id = 0, ra_rseq_cs = 0, ra_flags = 0 \<rparr>"

fun RSEQ_SIG :: "arch \<Rightarrow> nat" where
  "RSEQ_SIG X64 = 0x53053053"
| "RSEQ_SIG A64 = 0xd428bc00"

definition CPU_UNREGISTERED :: nat where
  "CPU_UNREGISTERED = 2 ^ 32 - 1"

text \<open>A self-registered area in a system-backed box.\<close>

record rseq_storage =
  st_slot :: nat
  st_registered :: bool

text \<open>The live areas, by address, and the area that the kernel has registered for each thread.\<close>

record kmem =
  areas :: "nat \<rightharpoonup> rseq_area"
  kreg :: "nat \<Rightarrow> nat option"

record platform =
  p_arch :: arch
  thread_pointer :: "nat \<Rightarrow> nat"
  dl :: "string \<Rightarrow> nat option"
  peek :: "nat \<Rightarrow> int"
  box_at :: "nat set \<Rightarrow> nat"
  syscall_rseq :: "nat \<Rightarrow> nat \<Rightarrow> nat \<Rightarrow> nat \<Rightarrow> nat \<Rightarrow> kmem \<Rightarrow> nat \<times> kmem"

record abi_state =
  rseq_offset :: int
  km :: kmem
  self_rseq :: "rseq_storage plocal"

subsection \<open>Registration\<close>

definition sys_rseq :: "platform \<Rightarrow> nat \<Rightarrow> nat \<Rightarrow> nat \<Rightarrow> kmem \<Rightarrow> bool \<times> kmem" where
  "sys_rseq P i p flags k = (let (ret, k') = syscall_rseq P i p 32 flags (RSEQ_SIG (p_arch P)) k in (ret = 0, k'))"

definition register :: "platform \<Rightarrow> nat \<Rightarrow> kmem \<Rightarrow> rseq_storage \<times> kmem" where
  "register P i k =
     (let p = box_at P (dom (areas k));
          (ok, k1) = sys_rseq P i p 0 (k\<lparr>areas := (areas k)(p \<mapsto> rseq_zeroed)\<rparr>)
      in if ok then (\<lparr> st_slot = p, st_registered = True \<rparr>, k1)
         else (\<lparr> st_slot = p, st_registered = False \<rparr>, k1\<lparr>areas := (areas k1)(p := map_option (ra_cpu_id_start_update (\<lambda>_. CPU_UNREGISTERED)) (areas k1 p))\<rparr>))"

text \<open>The destructor unregisters; then the box is freed.\<close>

definition storage_drop :: "platform \<Rightarrow> nat \<Rightarrow> rseq_storage \<Rightarrow> kmem \<Rightarrow> kmem" where
  "storage_drop P i st k =
     (let k1 = (if \<not> st_registered st then k else snd (sys_rseq P i (st_slot st) 1 k))
      in k1\<lparr>areas := (areas k1)(st_slot st := None)\<rparr>)"

definition self_registered_rseq :: "platform \<Rightarrow> libc \<Rightarrow> nat \<Rightarrow> abi_state \<Rightarrow> (abi_state \<times> (string + nat)) rust" where
  "self_registered_rseq P lc i A = do {
     ((k, w), r) \<leftarrow> pl_with lc 8 16 (register P i) i (\<lambda>st. (st_slot st, st)) (km A, self_rseq A);
     Some (A\<lparr>km := k, self_rseq := w\<rparr>, r)
   }"

subsection \<open>Lookup\<close>

definition I64_MIN :: int where
  "I64_MIN = - (2 ^ 63)"

definition I64_MAX :: int where
  "I64_MAX = 2 ^ 63 - 1"

definition libc_rseq_offset :: "platform \<Rightarrow> int option" where
  "libc_rseq_offset P = do {
     _ \<leftarrow> dl P ''__rseq_size'';
     offset \<leftarrow> dl P ''__rseq_offset'';
     _ \<leftarrow> dl P ''__rseq_flags'';
     Some (peek P offset)
   }"

definition area_at :: "platform \<Rightarrow> nat \<Rightarrow> int \<Rightarrow> nat" where
  "area_at P i off = nat ((int (thread_pointer P i) + off) mod 2 ^ 64)"

definition rseq_resolve :: "platform \<Rightarrow> libc \<Rightarrow> nat \<Rightarrow> int \<Rightarrow> abi_state \<Rightarrow> (abi_state \<times> (string + nat)) rust" where
  "rseq_resolve P lc i off A =
     (if off = I64_MIN then
        (case libc_rseq_offset P of
           Some ofs \<Rightarrow> if ofs \<noteq> I64_MIN \<and> ofs \<noteq> I64_MAX then Some (A\<lparr>rseq_offset := ofs\<rparr>, Inr (area_at P i ofs))
             else self_registered_rseq P lc i (A\<lparr>rseq_offset := I64_MAX\<rparr>)
         | None \<Rightarrow> self_registered_rseq P lc i (A\<lparr>rseq_offset := I64_MAX\<rparr>))
      else self_registered_rseq P lc i A)"

definition rseq :: "platform \<Rightarrow> libc \<Rightarrow> nat \<Rightarrow> abi_state \<Rightarrow> (abi_state \<times> (string + nat)) rust" where
  "rseq P lc i A =
     (let off = rseq_offset A
      in if off \<noteq> I64_MIN \<and> off \<noteq> I64_MAX then Some (A, Inr (area_at P i off)) else rseq_resolve P lc i off A)"

definition abi_current_cpu :: "platform \<Rightarrow> libc \<Rightarrow> nat \<Rightarrow> abi_state \<Rightarrow> (abi_state \<times> (string + nat option)) rust" where
  "abi_current_cpu P lc i A = do {
     (A', r) \<leftarrow> rseq P lc i A;
     case r of
       Inl m \<Rightarrow> Some (A', Inl m)
     | Inr p \<Rightarrow> do {
         a \<leftarrow> areas (km A') p;
         Some (A', Inr (if ra_cpu_id_start a \<noteq> CPU_UNREGISTERED then Some (ra_cpu_id_start a) else None))
       }
   }"

text \<open>The end of a thread, as far as its slot is concerned.\<close>

definition abi_exit :: "platform \<Rightarrow> nat \<Rightarrow> abi_state \<Rightarrow> abi_state rust" where
  "abi_exit P i A = do {
     (k, w) \<leftarrow> exit_slot (storage_drop P i) i (km A, self_rseq A);
     Some (A\<lparr>km := k, self_rseq := w\<rparr>)
   }"

subsection \<open>Histories\<close>

text \<open>
  The contract of the system call: it touches the given area only; a registration succeeds only for a
  thread that has none; a failure changes nothing; the area that is registered can be unregistered.
\<close>

definition sys_rseq_ok :: "platform \<Rightarrow> bool" where
  "sys_rseq_ok P \<longleftrightarrow> (\<forall>i p f k ok k'. sys_rseq P i p f k = (ok, k') \<longrightarrow>
     dom (areas k') = dom (areas k) \<and> (\<forall>q. q \<noteq> p \<longrightarrow> areas k' q = areas k q) \<and> (\<not> ok \<longrightarrow> k' = k) \<and>
     (f = 0 \<and> ok \<longrightarrow> kreg k i = None \<and> kreg k' = (kreg k)(i := Some p)) \<and>
     (f = 1 \<and> ok \<longrightarrow> kreg k' = (kreg k)(i := None)) \<and> (f = 1 \<and> kreg k i = Some p \<longrightarrow> ok))"

definition published :: "platform \<Rightarrow> int option" where
  "published P = (case libc_rseq_offset P of Some ofs \<Rightarrow> if ofs \<noteq> I64_MIN \<and> ofs \<noteq> I64_MAX then Some ofs else None | None \<Rightarrow> None)"

text \<open>The system allocator returns new addresses, and glibc has an area for every thread when it publishes an offset.\<close>

definition platform_ok :: "platform \<Rightarrow> kmem \<Rightarrow> bool" where
  "platform_ok P k0 \<longleftrightarrow> sys_rseq_ok P \<and> (\<forall>U. finite U \<longrightarrow> box_at P U \<notin> U) \<and> finite (dom (areas k0)) \<and>
     (\<forall>i p. kreg k0 i = Some p \<longrightarrow> p \<in> dom (areas k0)) \<and> (\<forall>ofs i. published P = Some ofs \<longrightarrow> area_at P i ofs \<in> dom (areas k0))"

definition abi_init :: "kmem \<Rightarrow> abi_state" where
  "abi_init k0 = \<lparr> rseq_offset = I64_MIN, km = k0, self_rseq = pl_new \<rparr>"

text \<open>
  Threads ask for their area, end, and arm sections in areas; the kernel writes to the areas that are
  registered.
\<close>

inductive abi_step :: "platform \<Rightarrow> abi_state \<Rightarrow> abi_state \<Rightarrow> bool" for P where
  ask: "libc_ok lc \<Longrightarrow> rseq P lc i A = Some (A', r) \<Longrightarrow> abi_step P A A'"
| leave: "abi_exit P i A = Some A' \<Longrightarrow> abi_step P A A'"
| arm: "areas (km A) p = Some a \<Longrightarrow> abi_step P A (A\<lparr>km := (km A)\<lparr>areas := (areas (km A))(p \<mapsto> a\<lparr>ra_rseq_cs := v\<rparr>)\<rparr>\<rparr>)"
| kernel_write: "kreg (km A) i = Some p \<Longrightarrow> abi_step P A (A\<lparr>km := (km A)\<lparr>areas := (areas (km A))(p \<mapsto> a)\<rparr>\<rparr>)"

end
