(* ===== verification/Rseq_Machine.thy ===== *)
theory Rseq_Machine
  imports Rseq_Asm
begin

text \<open>
  Threads that run restartable sequences on several CPUs. The geometry of the slab gives every stack
  its cells; a machine has one running thread per CPU, and the kernel moves threads between CPUs at
  any instruction. What the kernel does to a thread that it moves or interrupts is a parameter,
  with the contract of \<open>rseq(2)\<close> as the hypothesis \<open>rseq_kernel\<close>.
\<close>

subsection \<open>Geometry\<close>

record geometry =
  geo_base :: nat
  geo_shift :: nat
  geo_cpus :: nat
  geo_stop :: nat
  geo_locs :: "(nat \<times> nat) list"
  geo_caps :: "nat list"

datatype cell = HdrC nat nat | CapC nat nat | SlotC nat nat nat | StopC nat

definition block_at :: "geometry \<Rightarrow> nat \<Rightarrow> nat" where
  "block_at G c = geo_base G + c * 2 ^ geo_shift G"

definition hoff :: "geometry \<Rightarrow> nat \<Rightarrow> nat" where
  "hoff G k = fst (geo_locs G ! k)"

definition soff :: "geometry \<Rightarrow> nat \<Rightarrow> nat" where
  "soff G k = snd (geo_locs G ! k)"

fun cell_addr :: "geometry \<Rightarrow> cell \<Rightarrow> nat" where
  "cell_addr G (HdrC c k) = block_at G c + hoff G k"
| "cell_addr G (CapC c k) = block_at G c + hoff G k + 4"
| "cell_addr G (SlotC c k i) = block_at G c + soff G k + i * 8"
| "cell_addr G (StopC c) = geo_stop G + c * 2 ^ STOP_SHIFT"

declare cell_addr.simps [simp del]

fun width :: "cell \<Rightarrow> nat" where
  "width (SlotC c k i) = 8"
| "width _ = 4"

fun cell_ok :: "geometry \<Rightarrow> cell \<Rightarrow> bool" where
  "cell_ok G (HdrC c k) \<longleftrightarrow> c < geo_cpus G \<and> k < length (geo_locs G)"
| "cell_ok G (CapC c k) \<longleftrightarrow> c < geo_cpus G \<and> k < length (geo_locs G)"
| "cell_ok G (SlotC c k i) \<longleftrightarrow> c < geo_cpus G \<and> k < length (geo_locs G) \<and> i < geo_caps G ! k"
| "cell_ok G (StopC c) \<longleftrightarrow> c < geo_cpus G"

text \<open>The cells are disjoint ranges of bytes below \<open>2 ^ 64\<close>.\<close>

definition geo_ok :: "geometry \<Rightarrow> bool" where
  "geo_ok G \<longleftrightarrow> geo_shift G < 64 \<and> geo_cpus G < 2 ^ 32 \<and> length (geo_caps G) = length (geo_locs G) \<and> (\<forall>n\<in>set (geo_caps G). n < 2 ^ 32) \<and>
     (\<forall>x. cell_ok G x \<longrightarrow> cell_addr G x + width x \<le> 2 ^ 64) \<and>
     (\<forall>x y. cell_ok G x \<and> cell_ok G y \<and> x \<noteq> y \<longrightarrow> cell_addr G x + width x \<le> cell_addr G y \<or> cell_addr G y + width y \<le> cell_addr G x)"

lemma geo_inj: "geo_ok G \<Longrightarrow> cell_ok G x \<Longrightarrow> cell_ok G y \<Longrightarrow> cell_addr G x = cell_addr G y \<longleftrightarrow> x = y"
proof
  assume g: "geo_ok G" "cell_ok G x" "cell_ok G y" and e: "cell_addr G x = cell_addr G y"
  have "0 < width x" "0 < width y" by (cases x; simp; fail)+ (cases y; simp)
  then show "x = y" using g e unfolding geo_ok_def by (metis add_le_same_cancel1 not_le)
qed simp

subsection \<open>Machine\<close>

definition op_class :: "rseq_op \<Rightarrow> nat" where
  "op_class p = (case p of OpPop k \<Rightarrow> k | OpPush k q \<Rightarrow> k)"

text \<open>The registers at the start of a call, as the operands of the \<open>asm!\<close> block bind them; the others are undefined.\<close>

definition args_ok :: "geometry \<Rightarrow> rseq_op \<Rightarrow> (reg \<Rightarrow> nat) \<Rightarrow> bool" where
  "args_ok G p r \<longleftrightarrow> r R_base = geo_base G \<and> r R_ncpus = geo_cpus G \<and> r R_shift = geo_shift G \<and>
     r R_header_off = hoff G (op_class p) \<and> r R_slots_off = soff G (op_class p) \<and> r R_stop_base = geo_stop G \<and>
     (case p of OpPop k \<Rightarrow> True | OpPush k q \<Rightarrow> r R_obj = q)"

definition call_ok :: "geometry \<Rightarrow> rseq_op \<Rightarrow> bool" where
  "call_ok G p \<longleftrightarrow> op_class p < length (geo_locs G) \<and> (case p of OpPop k \<Rightarrow> True | OpPush k q \<Rightarrow> q < 2 ^ 64)"

text \<open>
  The contract of the kernel for a thread that resumes on CPU \<open>c\<close>, after a switch or after a barrier
  on its CPU: its rseq area names \<open>c\<close>, its registers are untouched, and if it was inside the section that
  its area points to, whose handler follows the signature, it continues at the handler.
\<close>

definition in_section :: "item list \<Rightarrow> nat \<Rightarrow> bool" where
  "in_section is n \<longleftrightarrow> start_ip (descriptor is) \<le> n \<and> n < start_ip (descriptor is) + post_commit_offset (descriptor is)"

definition resumed :: "item list \<Rightarrow> nat \<Rightarrow> nat \<Rightarrow> thr \<Rightarrow> thr \<Rightarrow> bool" where
  "resumed is cs c t t' \<longleftrightarrow> regs t' = regs t \<and> zf t' = zf t \<and> hs t' = hs t \<and> cpu_id_start t' = c \<and> cpu_id t' = c \<and>
     (if rseq_cs_ptr t = cs \<and> in_section is (pc t) then pc t' = abort_ip (descriptor is) else pc t' = pc t)"

definition rseq_kernel :: "(item list \<Rightarrow> nat \<Rightarrow> nat \<Rightarrow> thr \<Rightarrow> thr) \<Rightarrow> bool" where
  "rseq_kernel K \<longleftrightarrow> (\<forall>is cs c t. 0 < abort_ip (descriptor is) \<and> is ! (abort_ip (descriptor is) - 1) = Sig \<longrightarrow> resumed is cs c t (K is cs c t))"

text \<open>
  The machine: memory, threads with their calls, the thread that runs on each CPU, the CPUs that are
  seized (flag set and barrier returned), and, as history variables, the commit of the current call of
  each thread and the number of instructions of that call.
\<close>

record machine =
  mc_mem :: mem
  mc_thr :: "nat \<Rightarrow> thr"
  mc_op :: "nat \<Rightarrow> rseq_op"
  mc_run :: "nat \<Rightarrow> nat option"
  mc_seized :: "nat set"
  mc_commit :: "nat \<Rightarrow> (nat \<times> nat) option"
  mc_count :: "nat \<Rightarrow> nat"

definition commit_pc :: "item list \<Rightarrow> nat" where
  "commit_pc is = target is 6 - 1"

definition commit_value :: "rseq_op \<Rightarrow> thr \<Rightarrow> nat \<times> nat" where
  "commit_value p t = (regs t R_cpu, case p of OpPop k \<Rightarrow> regs t R_obj | OpPush k q \<Rightarrow> 0)"

definition finished :: "arch \<Rightarrow> rseq_op \<Rightarrow> thr \<Rightarrow> bool" where
  "finished a p t \<longleftrightarrow> pc t = length (code a p)"

text \<open>The memory may be changed on a seized CPU by the holder of the guard: any stack of that CPU, to any stack that fits.\<close>

definition stack_fits :: "geometry \<Rightarrow> mem \<Rightarrow> nat \<Rightarrow> nat \<Rightarrow> bool" where
  "stack_fits G m c k \<longleftrightarrow> m (cell_addr G (HdrC c k)) \<le> geo_caps G ! k \<and> m (cell_addr G (CapC c k)) = geo_caps G ! k \<and>
     (\<forall>i<m (cell_addr G (HdrC c k)). m (cell_addr G (SlotC c k i)) < 2 ^ 64)"

definition mem_ok :: "geometry \<Rightarrow> mem \<Rightarrow> bool" where
  "mem_ok G m \<longleftrightarrow> (\<forall>c<geo_cpus G. m (cell_addr G (StopC c)) < 2 ^ 32 \<and> (\<forall>k<length (geo_locs G). stack_fits G m c k))"

definition same_elsewhere :: "geometry \<Rightarrow> nat \<Rightarrow> mem \<Rightarrow> mem \<Rightarrow> bool" where
  "same_elsewhere G c m m' \<longleftrightarrow> (\<forall>d<geo_cpus G. m' (cell_addr G (StopC d)) = m (cell_addr G (StopC d)) \<and>
     (d \<noteq> c \<longrightarrow> (\<forall>x. cell_ok G x \<and> x \<in> {HdrC d k | k. True} \<union> {CapC d k | k. True} \<union> {SlotC d k i | k i. True} \<longrightarrow> m' (cell_addr G x) = m (cell_addr G x))))"

inductive mstep :: "(item list \<Rightarrow> nat \<Rightarrow> nat \<Rightarrow> thr \<Rightarrow> thr) \<Rightarrow> arch \<Rightarrow> nat \<Rightarrow> geometry \<Rightarrow> machine \<Rightarrow> machine \<Rightarrow> bool" for K a cs G where
  instr: "mc_run M c = Some i \<Longrightarrow> pc (mc_thr M i) < length (code a (mc_op M i)) \<Longrightarrow> exec1 (code a (mc_op M i)) cs (mc_mem M, mc_thr M i) = (m', t') \<Longrightarrow>
    mstep K a cs G M (M\<lparr>mc_mem := m', mc_thr := (mc_thr M)(i := t'), mc_count := (mc_count M)(i := mc_count M i + 1),
      mc_commit := (if pc (mc_thr M i) = commit_pc (code a (mc_op M i)) then (mc_commit M)(i := Some (commit_value (mc_op M i) (mc_thr M i))) else mc_commit M)\<rparr>)"
| call: "mc_run M c = Some i \<Longrightarrow> finished a (mc_op M i) (mc_thr M i) \<Longrightarrow> call_ok G p \<Longrightarrow> args_ok G p r \<Longrightarrow> r R_loops = 5 \<Longrightarrow>
    mstep K a cs G M (M\<lparr>mc_thr := (mc_thr M)(i := (mc_thr M i)\<lparr>pc := 0, regs := r\<rparr>), mc_op := (mc_op M)(i := p),
      mc_commit := (mc_commit M)(i := None), mc_count := (mc_count M)(i := 0)\<rparr>)"
| switch_out: "mstep K a cs G M (M\<lparr>mc_run := (mc_run M)(c := None)\<rparr>)"
| switch_in: "mc_run M c = None \<Longrightarrow> c < 2 ^ 32 \<Longrightarrow> \<forall>d. mc_run M d \<noteq> Some i \<Longrightarrow>
    mstep K a cs G M (M\<lparr>mc_run := (mc_run M)(c := Some i), mc_thr := (mc_thr M)(i := K (code a (mc_op M i)) cs c (mc_thr M i))\<rparr>)"
| set_flag: "c < geo_cpus G \<Longrightarrow> v < 2 ^ 32 \<Longrightarrow>
    mstep K a cs G M (M\<lparr>mc_mem := (mc_mem M)(cell_addr G (StopC c) := v), mc_seized := (if v = 0 then mc_seized M - {c} else mc_seized M)\<rparr>)"
| barrier: "c < geo_cpus G \<Longrightarrow>
    mstep K a cs G M (M\<lparr>mc_thr := (case mc_run M c of None \<Rightarrow> mc_thr M | Some i \<Rightarrow> (mc_thr M)(i := K (code a (mc_op M i)) cs c (mc_thr M i))),
      mc_seized := (if mc_mem M (cell_addr G (StopC c)) \<noteq> 0 then insert c (mc_seized M) else mc_seized M)\<rparr>)"
| guard_write: "c \<in> mc_seized M \<Longrightarrow> same_elsewhere G c (mc_mem M) m' \<Longrightarrow> mem_ok G m' \<Longrightarrow> mstep K a cs G M (M\<lparr>mc_mem := m'\<rparr>)"

end
