(* ===== verification/Rseq_Local.thy ===== *)
theory Rseq_Local
  imports Rseq_Machine
begin

text \<open>
  What a thread knows at each instruction of a sequence. The assertion at a program counter speaks
  of the registers and, inside the section, of the header cell of the thread's CPU; it is kept by
  every instruction, and after the kernel resumed the thread it holds with any memory.
\<close>

lemma w32_id [simp]: "n < 2 ^ 32 \<Longrightarrow> w32 n = n"
  by (simp add: w32_def)

lemma w64_id: "n < 2 ^ 64 \<Longrightarrow> w64 n = n"
  by (simp add: w64_def)

lemma w32_less [simp]: "w32 n < 4294967296"
  by (simp add: w32_def)

lemma geo_addr_lt: "geo_ok G \<Longrightarrow> cell_ok G x \<Longrightarrow> cell_addr G x < 2 ^ 64"
proof -
  assume g: "geo_ok G" "cell_ok G x"
  have "0 < width x" by (cases x) simp_all
  moreover have "cell_addr G x + width x \<le> 2 ^ 64" using g by (simp add: geo_ok_def)
  ultimately show ?thesis by linarith
qed

text \<open>The address computations of the sequences do not wrap.\<close>

lemma geo_arith:
  assumes "geo_ok G" "c < geo_cpus G" "k < length (geo_locs G)"
  shows "w64 (c * 2 ^ geo_shift G) = c * 2 ^ geo_shift G" "w64 (geo_base G + c * 2 ^ geo_shift G) = block_at G c"
    "w64 (c * 2 ^ geo_shift G + geo_base G) = block_at G c"
    "w64 (block_at G c + hoff G k) = cell_addr G (HdrC c k)" "w64 (block_at G c + hoff G k + 4) = cell_addr G (CapC c k)"
    "w64 (cell_addr G (HdrC c k) + 4) = cell_addr G (CapC c k)" "w64 (cell_addr G (HdrC c k)) = cell_addr G (HdrC c k)"
    "w64 (c * 2 ^ STOP_SHIFT) = c * 2 ^ STOP_SHIFT" "w64 (geo_stop G + c * 2 ^ STOP_SHIFT) = cell_addr G (StopC c)"
    "w32 c = c" "c < 4294967296"
proof -
  have "cell_addr G (HdrC c k) < 2 ^ 64" "cell_addr G (CapC c k) < 2 ^ 64" "cell_addr G (StopC c) < 2 ^ 64"
    by (rule geo_addr_lt [OF assms(1)]; simp add: assms(2,3))+
  then show "w64 (c * 2 ^ geo_shift G) = c * 2 ^ geo_shift G" "w64 (geo_base G + c * 2 ^ geo_shift G) = block_at G c"
    "w64 (c * 2 ^ geo_shift G + geo_base G) = block_at G c"
    "w64 (block_at G c + hoff G k) = cell_addr G (HdrC c k)" "w64 (block_at G c + hoff G k + 4) = cell_addr G (CapC c k)"
    "w64 (cell_addr G (HdrC c k) + 4) = cell_addr G (CapC c k)" "w64 (cell_addr G (HdrC c k)) = cell_addr G (HdrC c k)"
    "w64 (c * 2 ^ STOP_SHIFT) = c * 2 ^ STOP_SHIFT" "w64 (geo_stop G + c * 2 ^ STOP_SHIFT) = cell_addr G (StopC c)"
    by (simp_all add: cell_addr.simps w64_def block_at_def add.commute)
  show "w32 c = c" "c < 4294967296" using assms(1,2) by (simp_all add: geo_ok_def w32_def)
qed

lemma geo_slot:
  assumes "geo_ok G" "c < geo_cpus G" "k < length (geo_locs G)" "i < geo_caps G ! k"
  shows "w64 (block_at G c + soff G k) = block_at G c + soff G k" "w64 (block_at G c + soff G k + i * 8) = cell_addr G (SlotC c k i)"
proof -
  have "cell_addr G (SlotC c k i) < 2 ^ 64" by (rule geo_addr_lt [OF assms(1)]) (simp add: assms(2-4))
  then show "w64 (block_at G c + soff G k) = block_at G c + soff G k" "w64 (block_at G c + soff G k + i * 8) = cell_addr G (SlotC c k i)"
    by (simp_all add: cell_addr.simps w64_def)
qed

text \<open>
  Assertions. \<open>fz\<close> says that the CPU of the thread is seized, \<open>g\<close> is the commit of the call. Before the
  section (\<open>pre\<close>) an assertion speaks of registers only; in the section (\<open>sec\<close>) the area points to the
  descriptor; after the check of the CPU (\<open>own\<close>) the hint is the CPU; after the check of the flag (\<open>go\<close>) the
  CPU is not seized, and the assertion may speak of its memory; \<open>post\<close> follows the commit.
\<close>

type_synonym asn = "bool \<Rightarrow> (nat \<times> nat) option \<Rightarrow> mem \<Rightarrow> thr \<Rightarrow> bool"

definition pre :: "(thr \<Rightarrow> bool) \<Rightarrow> asn" where
  "pre P = (\<lambda>fz g m t. g = None \<and> P t)"

definition sec :: "geometry \<Rightarrow> nat \<Rightarrow> (bool \<Rightarrow> mem \<Rightarrow> thr \<Rightarrow> bool) \<Rightarrow> asn" where
  "sec G cs P = (\<lambda>fz g m t. g = None \<and> 0 < regs t R_loops \<and> regs t R_cpu < geo_cpus G \<and> rseq_cs_ptr t = cs \<and> P fz m t)"

definition own :: "geometry \<Rightarrow> nat \<Rightarrow> (bool \<Rightarrow> thr \<Rightarrow> bool) \<Rightarrow> asn" where
  "own G cs P = sec G cs (\<lambda>fz m t. regs t R_cpu = cpu_id t \<and> cpu_id t < geo_cpus G \<and> P fz t)"

definition go :: "geometry \<Rightarrow> nat \<Rightarrow> (mem \<Rightarrow> thr \<Rightarrow> bool) \<Rightarrow> asn" where
  "go G cs P = sec G cs (\<lambda>fz m t. regs t R_cpu = cpu_id t \<and> cpu_id t < geo_cpus G \<and> \<not> fz \<and> P m t)"

definition post :: "geometry \<Rightarrow> (thr \<Rightarrow> nat) \<Rightarrow> (thr \<Rightarrow> bool) \<Rightarrow> asn" where
  "post G ob P = (\<lambda>fz g m t. g = Some (regs t R_cpu, ob t) \<and> regs t R_cpu < geo_cpus G \<and> P t)"

definition over :: "geometry \<Rightarrow> (thr \<Rightarrow> nat) \<Rightarrow> asn" where
  "over G ob = (\<lambda>fz g m t. (g = None \<longrightarrow> regs t R_status \<noteq> 0) \<and>
     (\<forall>c v. g = Some (c, v) \<longrightarrow> regs t R_status = 0 \<and> regs t R_cpu = c \<and> ob t = v \<and> c < geo_cpus G))"

lemmas asn_defs = pre_def sec_def own_def go_def post_def over_def

definition head_asns :: "geometry \<Rightarrow> asn list" where
  "head_asns G =
     [pre (\<lambda>t. 0 < regs t R_loops), pre (\<lambda>t. False),
      pre (\<lambda>t. 0 < regs t R_loops),
      pre (\<lambda>t. 0 < regs t R_loops),
      pre (\<lambda>t. 0 < regs t R_loops \<and> regs t R_cpu < 2 ^ 32),
      pre (\<lambda>t. 0 < regs t R_loops \<and> regs t R_cpu < 2 ^ 32 \<and> hs t = (geo_cpus G \<le> regs t R_cpu)),
      pre (\<lambda>t. 0 < regs t R_loops \<and> regs t R_cpu < geo_cpus G),
      pre (\<lambda>t. regs t R_cpu < geo_cpus G \<and> zf t = (regs t R_loops = 0))]"

definition leave :: "geometry \<Rightarrow> (thr \<Rightarrow> nat) \<Rightarrow> asn list" where
  "leave G ob =
     [post G ob (\<lambda>t. True), post G ob (\<lambda>t. True), post G ob (\<lambda>t. True), post G ob (\<lambda>t. regs t R_status = 0),
      pre (\<lambda>t. True), pre (\<lambda>t. True), pre (\<lambda>t. True), pre (\<lambda>t. regs t R_status = 1),
      pre (\<lambda>t. True), pre (\<lambda>t. True), pre (\<lambda>t. True)]"

abbreviation obj_reg :: "thr \<Rightarrow> nat" where
  "obj_reg t \<equiv> regs t R_obj"

abbreviation no_obj :: "thr \<Rightarrow> nat" where
  "no_obj t \<equiv> 0"

definition tried :: "geometry \<Rightarrow> thr \<Rightarrow> bool" where
  "tried G t \<longleftrightarrow> 0 < regs t R_loops \<and> regs t R_cpu < geo_cpus G"

definition blk_ok :: "geometry \<Rightarrow> thr \<Rightarrow> bool" where
  "blk_ok G t \<longleftrightarrow> regs t R_blk = block_at G (cpu_id t)"

definition hdr_ok :: "geometry \<Rightarrow> nat \<Rightarrow> thr \<Rightarrow> bool" where
  "hdr_ok G k t \<longleftrightarrow> blk_ok G t \<and> regs t R_hdr = cell_addr G (HdrC (cpu_id t) k)"

definition height :: "geometry \<Rightarrow> nat \<Rightarrow> mem \<Rightarrow> thr \<Rightarrow> nat" where
  "height G k m t = m (cell_addr G (HdrC (cpu_id t) k))"

text \<open>
  The four annotated programs: one assertion before each item, and one after the last. \<open>checked\<close> holds up
  to the computation of the block, \<open>pop_tail\<close> and \<open>push_tail\<close> from the load of the header to the commit; \<open>at\<close>
  says where the address of the header and \<open>sl\<close> where the address of the slots is kept.
\<close>

definition pop_tail :: "geometry \<Rightarrow> nat \<Rightarrow> nat \<Rightarrow> (thr \<Rightarrow> bool) \<Rightarrow> reg \<Rightarrow> asn list" where
  "pop_tail G cs k at sl =
     [go G cs (\<lambda>m t. at t \<and> regs t R_cur = height G k m t \<and> 0 < regs t R_cur \<and> regs t R_cur \<le> geo_caps G ! k),
      go G cs (\<lambda>m t. at t \<and> height G k m t = regs t R_cur + 1 \<and> regs t R_cur < geo_caps G ! k),
      go G cs (\<lambda>m t. at t \<and> height G k m t = regs t R_cur + 1 \<and> regs t R_cur < geo_caps G ! k \<and> regs t sl = block_at G (cpu_id t) + soff G k),
      go G cs (\<lambda>m t. at t \<and> height G k m t = regs t R_cur + 1 \<and> regs t R_cur < geo_caps G ! k \<and> regs t R_obj = m (cell_addr G (SlotC (cpu_id t) k (regs t R_cur))))] @
     leave G obj_reg @ [pre (\<lambda>t. regs t R_status = 2), over G obj_reg, over G obj_reg]"

definition push_tail :: "geometry \<Rightarrow> nat \<Rightarrow> nat \<Rightarrow> nat \<Rightarrow> (thr \<Rightarrow> bool) \<Rightarrow> reg \<Rightarrow> asn list" where
  "push_tail G cs k q at sl =
     [go G cs (\<lambda>m t. at t \<and> regs t R_cur = height G k m t),
      go G cs (\<lambda>m t. at t \<and> regs t R_cur = height G k m t \<and> regs t R_cap = geo_caps G ! k),
      go G cs (\<lambda>m t. at t \<and> regs t R_cur = height G k m t \<and> hs t = (geo_caps G ! k \<le> regs t R_cur)),
      go G cs (\<lambda>m t. at t \<and> regs t R_cur = height G k m t \<and> regs t R_cur < geo_caps G ! k),
      go G cs (\<lambda>m t. at t \<and> regs t R_cur = height G k m t \<and> regs t R_cur < geo_caps G ! k \<and> regs t sl = block_at G (cpu_id t) + soff G k),
      go G cs (\<lambda>m t. at t \<and> regs t R_cur = height G k m t \<and> regs t R_cur < geo_caps G ! k \<and> m (cell_addr G (SlotC (cpu_id t) k (regs t R_cur))) = q),
      go G cs (\<lambda>m t. at t \<and> regs t R_cur = height G k m t + 1 \<and> height G k m t < geo_caps G ! k \<and>
        m (cell_addr G (SlotC (cpu_id t) k (height G k m t))) = q)] @
     leave G no_obj @ [over G no_obj, over G no_obj]"

definition checked_a64 :: "geometry \<Rightarrow> nat \<Rightarrow> reg \<Rightarrow> asn list" where
  "checked_a64 G cs fl = head_asns G @
     [pre (tried G),
      pre (\<lambda>t. tried G t \<and> regs t R_tmp = cs - cs mod 4096),
      pre (\<lambda>t. tried G t \<and> regs t R_tmp = cs),
      sec G cs (\<lambda>fz m t. True),
      sec G cs (\<lambda>fz m t. True),
      sec G cs (\<lambda>fz m t. regs t R_tmp = cpu_id t),
      sec G cs (\<lambda>fz m t. zf t = (regs t R_cpu = cpu_id t)),
      own G cs (\<lambda>fz t. True),
      own G cs (\<lambda>fz t. regs t R_tmp = cpu_id t * 2 ^ STOP_SHIFT),
      own G cs (\<lambda>fz t. w32 (regs t fl) = 0 \<longrightarrow> \<not> fz),
      go G cs (\<lambda>m t. True),
      go G cs (\<lambda>m t. regs t R_blk = cpu_id t * 2 ^ geo_shift G),
      go G cs (\<lambda>m t. blk_ok G t)]"

definition checked_x64 :: "geometry \<Rightarrow> nat \<Rightarrow> reg \<Rightarrow> asn list" where
  "checked_x64 G cs fl = head_asns G @
     [pre (tried G),
      pre (\<lambda>t. tried G t \<and> regs t R_tmp = cs),
      sec G cs (\<lambda>fz m t. True),
      sec G cs (\<lambda>fz m t. True),
      sec G cs (\<lambda>fz m t. zf t = (regs t R_cpu = cpu_id t)),
      own G cs (\<lambda>fz t. True),
      own G cs (\<lambda>fz t. regs t R_tmp = cpu_id t),
      own G cs (\<lambda>fz t. regs t R_tmp = cpu_id t * 2 ^ STOP_SHIFT),
      own G cs (\<lambda>fz t. w32 (regs t fl) = 0 \<longrightarrow> \<not> fz),
      own G cs (\<lambda>fz t. zf t \<longrightarrow> \<not> fz),
      go G cs (\<lambda>m t. True),
      go G cs (\<lambda>m t. regs t R_blk = cpu_id t),
      go G cs (\<lambda>m t. regs t R_blk = cpu_id t * 2 ^ geo_shift G)]"

fun asns :: "arch \<Rightarrow> geometry \<Rightarrow> nat \<Rightarrow> rseq_op \<Rightarrow> asn list" where
  "asns A64 G cs (OpPop k) = checked_a64 G cs R_tmp2 @
     [go G cs (\<lambda>m t. hdr_ok G k t), go G cs (\<lambda>m t. hdr_ok G k t \<and> regs t R_cur = height G k m t)] @ pop_tail G cs k (hdr_ok G k) R_slots"
| "asns A64 G cs (OpPush k q) = checked_a64 G cs R_cap @ [go G cs (\<lambda>m t. hdr_ok G k t)] @ push_tail G cs k q (hdr_ok G k) R_slots"
| "asns X64 G cs (OpPop k) = checked_x64 G cs R_cur @
     [go G cs (\<lambda>m t. blk_ok G t), go G cs (\<lambda>m t. blk_ok G t \<and> regs t R_cur = height G k m t),
      go G cs (\<lambda>m t. blk_ok G t \<and> regs t R_cur = height G k m t \<and> zf t = (regs t R_cur = 0))] @ pop_tail G cs k (blk_ok G) R_tmp"
| "asns X64 G cs (OpPush k q) = checked_x64 G cs R_cap @ [go G cs (\<lambda>m t. blk_ok G t)] @ push_tail G cs k q (blk_ok G) R_tmp"

definition at_pc :: "arch \<Rightarrow> geometry \<Rightarrow> nat \<Rightarrow> rseq_op \<Rightarrow> asn" where
  "at_pc a G cs p fz g m t \<longleftrightarrow> args_ok G p (regs t) \<and> cpu_id t < 2 ^ 32 \<and> cpu_id_start t < 2 ^ 32 \<and> regs t R_loops \<le> 5 \<and>
     pc t \<le> length (code a p) \<and> (asns a G cs p ! pc t) fz g m t"

text \<open>What an instruction may do to the memory and to the record of the commit.\<close>

definition outcome :: "geometry \<Rightarrow> rseq_op \<Rightarrow> nat \<Rightarrow> bool \<Rightarrow> mem \<Rightarrow> mem \<Rightarrow> (nat \<times> nat) option \<Rightarrow> (nat \<times> nat) option \<Rightarrow> bool" where
  "outcome G p c fz m m' g g' \<longleftrightarrow> m' = m \<and> g' = g \<or> \<not> fz \<and> g = None \<and> c < geo_cpus G \<and>
     (case p of
        OpPop k \<Rightarrow> (let n = m (cell_addr G (HdrC c k)) in 0 < n \<and> g' = Some (c, m (cell_addr G (SlotC c k (n - 1)))) \<and> m' = m(cell_addr G (HdrC c k) := n - 1))
      | OpPush k q \<Rightarrow> (let n = m (cell_addr G (HdrC c k)) in n < geo_caps G ! k \<and>
          (g' = None \<and> m' = m(cell_addr G (SlotC c k n) := q) \<or> g' = Some (c, 0) \<and> m (cell_addr G (SlotC c k n)) = q \<and> m' = m(cell_addr G (HdrC c k) := n + 1))))"

definition commit_of :: "arch \<Rightarrow> rseq_op \<Rightarrow> thr \<Rightarrow> (nat \<times> nat) option \<Rightarrow> (nat \<times> nat) option" where
  "commit_of a p t g = (if pc t = commit_pc (code a p) then Some (commit_value p t) else g)"

lemma commit_pcs [simp]: "commit_pc (code A64 (OpPop k)) = 26" "commit_pc (code A64 (OpPush k q)) = 28" "commit_pc (code X64 (OpPop k)) = 27" "commit_pc (code X64 (OpPush k q)) = 28"
  by (simp_all add: commit_pc_def pop_a64_def push_a64_def pop_x64_def push_x64_def)

lemma commit_of_simps:
  "commit_of A64 (OpPop k) t g = (if pc t = 26 then Some (regs t R_cpu, regs t R_obj) else g)"
  "commit_of A64 (OpPush k q) t g = (if pc t = 28 then Some (regs t R_cpu, 0) else g)"
  "commit_of X64 (OpPop k) t g = (if pc t = 27 then Some (regs t R_cpu, regs t R_obj) else g)"
  "commit_of X64 (OpPush k q) t g = (if pc t = 28 then Some (regs t R_cpu, 0) else g)"
  unfolding commit_of_def commit_pcs commit_value_def by simp_all

lemma code_len [simp]: "length pop_a64 = 40" "length push_a64 = 41" "length pop_x64 = 41" "length push_x64 = 41"
  by (simp_all add: pop_a64_def push_a64_def pop_x64_def push_x64_def)

text \<open>Labels and items are looked up without unfolding the programs elsewhere.\<close>

lemma pop_a64_targets: "target pop_a64 2 = 11" "target pop_a64 6 = 27" "target pop_a64 7 = 2" "target pop_a64 8 = 39" "target pop_a64 90 = 31" "target pop_a64 92 = 35"
  by (simp_all add: pop_a64_def)

lemmas pop_a64_fetch = pop_a64_def [THEN arg_cong, of "\<lambda>is. is ! _"]

lemma push_a64_targets: "target push_a64 2 = 11" "target push_a64 6 = 29" "target push_a64 7 = 2" "target push_a64 8 = 40" "target push_a64 90 = 33" "target push_a64 92 = 37"
  by (simp_all add: push_a64_def)

lemmas push_a64_fetch = push_a64_def [THEN arg_cong, of "\<lambda>is. is ! _"]

lemma pop_x64_targets: "target pop_x64 2 = 10" "target pop_x64 6 = 28" "target pop_x64 7 = 2" "target pop_x64 8 = 40" "target pop_x64 90 = 32" "target pop_x64 92 = 36"
  by (simp_all add: pop_x64_def)

lemmas pop_x64_fetch = pop_x64_def [THEN arg_cong, of "\<lambda>is. is ! _"]

lemma push_x64_targets: "target push_x64 2 = 10" "target push_x64 6 = 29" "target push_x64 7 = 2" "target push_x64 8 = 40" "target push_x64 90 = 33" "target push_x64 92 = 37"
  by (simp_all add: push_x64_def)

lemmas push_x64_fetch = push_x64_def [THEN arg_cong, of "\<lambda>is. is ! _"]

lemmas exec_simps = next_pc_def set_reg_def branch_def exec1_def
lemmas step_simps = checked_a64_def checked_x64_def pop_tail_def push_tail_def head_asns_def leave_def at_pc_def asn_defs tried_def blk_ok_def hdr_ok_def height_def

lemma args_simps:
  "args_ok G (OpPop k) r \<longleftrightarrow> r R_base = geo_base G \<and> r R_ncpus = geo_cpus G \<and> r R_shift = geo_shift G \<and> r R_header_off = hoff G k \<and>
     r R_slots_off = soff G k \<and> r R_stop_base = geo_stop G"
  "args_ok G (OpPush k q) r \<longleftrightarrow> r R_base = geo_base G \<and> r R_ncpus = geo_cpus G \<and> r R_shift = geo_shift G \<and> r R_header_off = hoff G k \<and>
     r R_slots_off = soff G k \<and> r R_stop_base = geo_stop G \<and> r R_obj = q"
  by (simp_all add: args_ok_def op_class_def)

lemma dec_simps: "0 < n \<Longrightarrow> n \<le> 5 \<Longrightarrow> w64 (18446744073709551615 + n) = n - 1" "0 < n \<Longrightarrow> n < 4294967296 \<Longrightarrow> w32 (4294967295 + n) = n - 1"
  by (simp_all add: w64_def w32_def mod_if)

lemma adr_simps: "cs < 2 ^ 64 \<Longrightarrow> w64 (cs - cs mod 4096 + cs mod 4096) = cs" "cs < 2 ^ 64 \<Longrightarrow> w64 cs = cs"
  by (simp_all add: w64_def)

lemma nat_less41: "(n::nat) < 41 \<Longrightarrow> n \<in> {0, 1, 2, 3, 4, 5, 6, 7, 8, 9, 10, 11, 12, 13, 14, 15, 16, 17, 18, 19, 20, 21, 22, 23, 24, 25, 26, 27, 28, 29, 30, 31, 32, 33, 34, 35, 36, 37, 38, 39, 40}"
  by (simp add: numeral_eq_Suc less_Suc_eq)

lemma nat_less40: "(n::nat) < 40 \<Longrightarrow> n \<in> {0, 1, 2, 3, 4, 5, 6, 7, 8, 9, 10, 11, 12, 13, 14, 15, 16, 17, 18, 19, 20, 21, 22, 23, 24, 25, 26, 27, 28, 29, 30, 31, 32, 33, 34, 35, 36, 37, 38, 39}"
  by (simp add: numeral_eq_Suc less_Suc_eq)

text \<open>Arithmetic of a geometry and a well-formed memory, as rewrite rules.\<close>

lemma mem_simps:
  assumes "geo_ok G" "mem_ok G m" "k < length (geo_locs G)"
  shows "geo_shift G mod 64 = geo_shift G" "w32 (geo_cpus G) = geo_cpus G" "c < geo_cpus G \<Longrightarrow> m (cell_addr G (HdrC c k)) \<le> geo_caps G ! k"
    "c < geo_cpus G \<Longrightarrow> w32 (m (cell_addr G (HdrC c k))) = m (cell_addr G (HdrC c k))" "c < geo_cpus G \<Longrightarrow> w32 (m (cell_addr G (CapC c k))) = geo_caps G ! k"
    "c < geo_cpus G \<Longrightarrow> i < m (cell_addr G (HdrC c k)) \<Longrightarrow> w64 (m (cell_addr G (SlotC c k i))) = m (cell_addr G (SlotC c k i))"
    "c < geo_cpus G \<Longrightarrow> w32 (m (cell_addr G (StopC c))) = m (cell_addr G (StopC c))" "n \<le> geo_caps G ! k \<Longrightarrow> w32 n = n" "n \<le> geo_caps G ! k \<Longrightarrow> n < 4294967296"
    "c < geo_cpus G \<Longrightarrow> i < geo_caps G ! k \<Longrightarrow> cell_addr G (HdrC c k) \<noteq> cell_addr G (SlotC c k i)"
    "c < geo_cpus G \<Longrightarrow> i < m (cell_addr G (HdrC c k)) \<Longrightarrow> i < geo_caps G ! k"
proof -
  have c: "geo_caps G ! k < 4294967296" using assms(1,3) by (auto simp: geo_ok_def)
  show n: "geo_shift G mod 64 = geo_shift G" "w32 (geo_cpus G) = geo_cpus G" "n \<le> geo_caps G ! k \<Longrightarrow> w32 n = n" "n \<le> geo_caps G ! k \<Longrightarrow> n < 4294967296" for n
    using assms(1) c by (simp_all add: geo_ok_def)
  assume l: "c < geo_cpus G"
  have s: "stack_fits G m c k" "m (cell_addr G (StopC c)) < 2 ^ 32" using assms(2,3) l by (simp_all add: mem_ok_def)
  then show "m (cell_addr G (HdrC c k)) \<le> geo_caps G ! k" "w32 (m (cell_addr G (HdrC c k))) = m (cell_addr G (HdrC c k))" "w32 (m (cell_addr G (CapC c k))) = geo_caps G ! k"
    "i < m (cell_addr G (HdrC c k)) \<Longrightarrow> w64 (m (cell_addr G (SlotC c k i))) = m (cell_addr G (SlotC c k i))" "w32 (m (cell_addr G (StopC c))) = m (cell_addr G (StopC c))"
    "i < m (cell_addr G (HdrC c k)) \<Longrightarrow> i < geo_caps G ! k"
    using c by (simp_all add: stack_fits_def w64_id)
  show "i < geo_caps G ! k \<Longrightarrow> cell_addr G (HdrC c k) \<noteq> cell_addr G (SlotC c k i)" using geo_inj [OF assms(1), of "HdrC c k" "SlotC c k i"] l assms(3) by simp
qed

definition step_ok :: "arch \<Rightarrow> geometry \<Rightarrow> nat \<Rightarrow> rseq_op \<Rightarrow> bool" where
  "step_ok a G cs p \<longleftrightarrow> (\<forall>fz g m t. mem_ok G m \<longrightarrow> (fz \<longrightarrow> cpu_id t < geo_cpus G \<longrightarrow> m (cell_addr G (StopC (cpu_id t))) \<noteq> 0) \<longrightarrow>
     at_pc a G cs p fz g m t \<longrightarrow> pc t < length (code a p) \<longrightarrow>
     outcome G p (cpu_id t) fz m (fst (exec1 (code a p) cs (m, t))) g (commit_of a p t g) \<and>
     at_pc a G cs p fz (commit_of a p t g) (fst (exec1 (code a p) cs (m, t))) (snd (exec1 (code a p) cs (m, t))))"

lemma pop_a64_step:
  assumes G: "geo_ok G" "k < length (geo_locs G)" "cs < 2 ^ 64"
  shows "step_ok A64 G cs (OpPop k)"
  unfolding step_ok_def
proof (intro allI impI)
  fix fz g m t assume m: "mem_ok G m" and fz: "fz \<longrightarrow> cpu_id t < geo_cpus G \<longrightarrow> m (cell_addr G (StopC (cpu_id t))) \<noteq> 0" and J: "at_pc A64 G cs (OpPop k) fz g m t"
    and l: "pc t < length (code A64 (OpPop k))"
  note F = geo_arith [OF G(1) _ G(2)] geo_slot(2) [OF G(1) _ G(2)] geo_slot(1) [OF G(1) _ G(2), where i = 0] mem_simps [OF G(1) m G(2)] dec_simps adr_simps [OF G(3)]
  have "pc t < 40" using l by simp
  from nat_less40 [OF this] show "outcome G (OpPop k) (cpu_id t) fz m (fst (exec1 (code A64 (OpPop k)) cs (m, t))) g (commit_of A64 (OpPop k) t g) \<and>
    at_pc A64 G cs (OpPop k) fz (commit_of A64 (OpPop k) t g) (fst (exec1 (code A64 (OpPop k)) cs (m, t))) (snd (exec1 (code A64 (OpPop k)) cs (m, t)))"
    using J fz
    by (elim insertE emptyE) (simp_all add: outcome_def Let_def commit_of_simps exec_simps args_simps step_simps pop_a64_targets pop_a64_fetch F, auto)
qed

lemma push_a64_step:
  assumes G: "geo_ok G" "k < length (geo_locs G)" "cs < 2 ^ 64" "q < 2 ^ 64"
  shows "step_ok A64 G cs (OpPush k q)"
  unfolding step_ok_def
proof (intro allI impI)
  fix fz g m t assume m: "mem_ok G m" and fz: "fz \<longrightarrow> cpu_id t < geo_cpus G \<longrightarrow> m (cell_addr G (StopC (cpu_id t))) \<noteq> 0" and J: "at_pc A64 G cs (OpPush k q) fz g m t"
    and l: "pc t < length (code A64 (OpPush k q))"
  note F = geo_arith [OF G(1) _ G(2)] geo_slot(2) [OF G(1) _ G(2)] geo_slot(1) [OF G(1) _ G(2), where i = 0] mem_simps [OF G(1) m G(2)] dec_simps adr_simps [OF G(3)] w64_id [OF G(4)]
  have "pc t < 41" using l by simp
  from nat_less41 [OF this] show "outcome G (OpPush k q) (cpu_id t) fz m (fst (exec1 (code A64 (OpPush k q)) cs (m, t))) g (commit_of A64 (OpPush k q) t g) \<and>
    at_pc A64 G cs (OpPush k q) fz (commit_of A64 (OpPush k q) t g) (fst (exec1 (code A64 (OpPush k q)) cs (m, t))) (snd (exec1 (code A64 (OpPush k q)) cs (m, t)))"
    using J fz
    by (elim insertE emptyE) (simp_all add: outcome_def Let_def commit_of_simps exec_simps args_simps step_simps push_a64_targets push_a64_fetch F, auto)
qed

lemma pop_x64_step:
  assumes G: "geo_ok G" "k < length (geo_locs G)" "cs < 2 ^ 64"
  shows "step_ok X64 G cs (OpPop k)"
  unfolding step_ok_def
proof (intro allI impI)
  fix fz g m t assume m: "mem_ok G m" and fz: "fz \<longrightarrow> cpu_id t < geo_cpus G \<longrightarrow> m (cell_addr G (StopC (cpu_id t))) \<noteq> 0" and J: "at_pc X64 G cs (OpPop k) fz g m t"
    and l: "pc t < length (code X64 (OpPop k))"
  note F = geo_arith [OF G(1) _ G(2)] geo_slot(2) [OF G(1) _ G(2)] geo_slot(1) [OF G(1) _ G(2), where i = 0] mem_simps [OF G(1) m G(2)] dec_simps adr_simps [OF G(3)]
  have "pc t < 41" using l by simp
  from nat_less41 [OF this] show "outcome G (OpPop k) (cpu_id t) fz m (fst (exec1 (code X64 (OpPop k)) cs (m, t))) g (commit_of X64 (OpPop k) t g) \<and>
    at_pc X64 G cs (OpPop k) fz (commit_of X64 (OpPop k) t g) (fst (exec1 (code X64 (OpPop k)) cs (m, t))) (snd (exec1 (code X64 (OpPop k)) cs (m, t)))"
    using J fz
    by (elim insertE emptyE) (simp_all add: outcome_def Let_def commit_of_simps exec_simps args_simps step_simps pop_x64_targets pop_x64_fetch F, auto)
qed

lemma push_x64_step:
  assumes G: "geo_ok G" "k < length (geo_locs G)" "cs < 2 ^ 64" "q < 2 ^ 64"
  shows "step_ok X64 G cs (OpPush k q)"
  unfolding step_ok_def
proof (intro allI impI)
  fix fz g m t assume m: "mem_ok G m" and fz: "fz \<longrightarrow> cpu_id t < geo_cpus G \<longrightarrow> m (cell_addr G (StopC (cpu_id t))) \<noteq> 0" and J: "at_pc X64 G cs (OpPush k q) fz g m t"
    and l: "pc t < length (code X64 (OpPush k q))"
  note F = geo_arith [OF G(1) _ G(2)] geo_slot(2) [OF G(1) _ G(2)] geo_slot(1) [OF G(1) _ G(2), where i = 0] mem_simps [OF G(1) m G(2)] dec_simps adr_simps [OF G(3)] w64_id [OF G(4)]
  have "pc t < 41" using l by simp
  from nat_less41 [OF this] show "outcome G (OpPush k q) (cpu_id t) fz m (fst (exec1 (code X64 (OpPush k q)) cs (m, t))) g (commit_of X64 (OpPush k q) t g) \<and>
    at_pc X64 G cs (OpPush k q) fz (commit_of X64 (OpPush k q) t g) (fst (exec1 (code X64 (OpPush k q)) cs (m, t))) (snd (exec1 (code X64 (OpPush k q)) cs (m, t)))"
    using J fz
    by (elim insertE emptyE) (simp_all add: outcome_def Let_def commit_of_simps exec_simps args_simps step_simps push_x64_targets push_x64_fetch F, auto)
qed

end
