(* ===== verification/Rseq_Correct.thy ===== *)
theory Rseq_Correct
  imports Rseq_Local
begin

text \<open>
  The assertions of the sequences survive what other threads, the kernel and the supervisor do; so they
  hold in every state of a machine. From them: a commit is an operation of the slab, nothing else
  touches the stacks, and calls are bounded.
\<close>

subsection \<open>Interference\<close>

text \<open>
  Steps of other threads leave the header and the slots of this CPU alone, unless the CPU is seized. An
  assertion is stable when it survives such a change, and also the end of a seizure.
\<close>

definition agree :: "geometry \<Rightarrow> nat \<Rightarrow> nat \<Rightarrow> mem \<Rightarrow> mem \<Rightarrow> bool" where
  "agree G c k m m' \<longleftrightarrow> m' (cell_addr G (HdrC c k)) = m (cell_addr G (HdrC c k)) \<and> (\<forall>i<geo_caps G ! k. m' (cell_addr G (SlotC c k i)) = m (cell_addr G (SlotC c k i)))"

definition stable :: "geometry \<Rightarrow> nat \<Rightarrow> asn \<Rightarrow> bool" where
  "stable G k A \<longleftrightarrow> (\<forall>fz fz' g m m' t. (fz' \<longrightarrow> fz) \<longrightarrow> fz \<or> (cpu_id t < geo_cpus G \<longrightarrow> agree G (cpu_id t) k m m') \<longrightarrow> A fz g m t \<longrightarrow> A fz' g m' t)"

lemma stable_out: "stable G k (pre P)" "stable G k (post G ob Q)" "stable G k (over G ob)"
  by (simp_all add: stable_def asn_defs)

lemma stable_sec: "stable G k (sec G cs (\<lambda>fz m t. P t))"
  by (simp add: stable_def sec_def)

lemma stable_own: "stable G k (own G cs (\<lambda>fz t. P t))" "stable G k (own G cs (\<lambda>fz t. P t \<longrightarrow> \<not> fz))"
  by (auto simp: stable_def own_def sec_def)

lemma stable_go: "(\<And>m m' t. agree G (cpu_id t) k m m' \<Longrightarrow> P m t \<Longrightarrow> P m' t) \<Longrightarrow> stable G k (go G cs P)"
  by (auto simp: stable_def go_def sec_def)

lemma stable_tails: "list_all (stable G k) (pop_tail G cs k at sl)" "list_all (stable G k) (push_tail G cs k q at sl)"
  unfolding pop_tail_def push_tail_def leave_def
  by (simp_all add: stable_out) (auto intro!: stable_go simp: agree_def height_def)

lemma stable_checked: "list_all (stable G k) (checked_a64 G cs fl)" "list_all (stable G k) (checked_x64 G cs fl)"
  unfolding checked_a64_def checked_x64_def head_asns_def by (simp_all add: stable_out stable_sec stable_own stable_go)

lemma stable_asns: "list_all (stable G (op_class p)) (asns a G cs p)"
  by (cases a; cases p) (simp_all add: op_class_def stable_tails stable_checked, auto intro!: stable_go simp: agree_def height_def)

lemma asns_len: "length (asns a G cs p) = length (code a p) + 1"
  by (cases a; cases p) (simp_all add: checked_a64_def checked_x64_def pop_tail_def push_tail_def head_asns_def leave_def)

lemma at_pc_stable:
  assumes "at_pc a G cs p fz g m t" "fz' \<longrightarrow> fz" "fz \<or> (cpu_id t < geo_cpus G \<longrightarrow> agree G (cpu_id t) (op_class p) m m')"
  shows "at_pc a G cs p fz' g m' t"
proof -
  have "stable G (op_class p) (asns a G cs p ! pc t)" using stable_asns [of G p a cs] assms(1) by (simp add: list_all_length asns_len at_pc_def)
  then have "(asns a G cs p ! pc t) fz' g m' t" using assms unfolding stable_def at_pc_def by blast
  then show ?thesis using assms(1) by (simp add: at_pc_def)
qed

subsection \<open>Resumption\<close>

text \<open>
  Outside the section an assertion does not speak of the memory, of the CPU or of the area; inside, it
  implies that the area points to the descriptor and that attempts are left.
\<close>

definition outside :: "asn \<Rightarrow> bool" where
  "outside A \<longleftrightarrow> (\<forall>fz fz' g m m' t t'. regs t' = regs t \<longrightarrow> zf t' = zf t \<longrightarrow> hs t' = hs t \<longrightarrow> A fz g m t \<longrightarrow> A fz' g m' t')"

definition inside :: "nat \<Rightarrow> asn \<Rightarrow> bool" where
  "inside cs A \<longleftrightarrow> (\<forall>fz g m t. A fz g m t \<longrightarrow> g = None \<and> rseq_cs_ptr t = cs \<and> 0 < regs t R_loops)"

definition framed :: "item list \<Rightarrow> nat \<Rightarrow> asn list \<Rightarrow> bool" where
  "framed is cs as \<longleftrightarrow> (\<forall>n<length as. if in_section is n then inside cs (as ! n) else outside (as ! n))"

lemma inside_simps: "inside cs (sec G cs P)" "inside cs (own G cs Q)" "inside cs (go G cs R)"
  by (simp_all add: inside_def asn_defs)

lemma outside_pre: "(\<And>t t'. regs t' = regs t \<Longrightarrow> zf t' = zf t \<Longrightarrow> hs t' = hs t \<Longrightarrow> P t = P t') \<Longrightarrow> outside (pre P)"
  unfolding outside_def pre_def by blast

lemma outside_post:
  "(\<And>t t'. regs t' = regs t \<Longrightarrow> ob t' = ob t) \<Longrightarrow> (\<And>t t'. regs t' = regs t \<Longrightarrow> P t = P t') \<Longrightarrow> outside (post G ob P)"
  "(\<And>t t'. regs t' = regs t \<Longrightarrow> ob t' = ob t) \<Longrightarrow> outside (over G ob)"
  unfolding outside_def post_def over_def by (metis, metis)

lemma framed_split:
  assumes "start_ip (descriptor is) = s" "post_commit_offset (descriptor is) = n" "s + n \<le> length as"
    and "list_all outside (take s as)" "list_all (inside cs) (take n (drop s as))" "list_all outside (drop (s + n) as)"
  shows "framed is cs as"
  unfolding framed_def
proof (intro allI impI)
  fix i assume i: "i < length as"
  consider "i < s" | "s \<le> i" "i < s + n" | "s + n \<le> i" by linarith
  then show "if in_section is i then inside cs (as ! i) else outside (as ! i)"
  proof cases
    case 1
    then show ?thesis using assms(1,4) i by (simp add: in_section_def list_all_length)
  next
    case 2
    have "\<forall>j<n. inside cs (as ! (s + j))" using assms(3,5) by (simp add: list_all_length)
    then have "inside cs (as ! i)" using 2 by (auto dest: spec [of _ "i - s"])
    then show ?thesis using 2 assms(1-3) by (simp add: in_section_def)
  next
    case 3
    have "\<forall>j<length as - (s + n). outside (as ! (s + n + j))" using assms(6) by (simp add: list_all_length)
    then have "outside (as ! i)" using 3 i by (auto dest: spec [of _ "i - (s + n)"])
    then show ?thesis using 3 assms(1-3) by (simp add: in_section_def)
  qed
qed

lemma descriptor_simps:
  "descriptor pop_a64 = \<lparr> start_ip = 11, post_commit_offset = 16, abort_ip = 2 \<rparr>" "descriptor push_a64 = \<lparr> start_ip = 11, post_commit_offset = 18, abort_ip = 2 \<rparr>"
  "descriptor pop_x64 = \<lparr> start_ip = 10, post_commit_offset = 18, abort_ip = 2 \<rparr>" "descriptor push_x64 = \<lparr> start_ip = 10, post_commit_offset = 19, abort_ip = 2 \<rparr>"
  by (simp_all add: descriptor_def pop_a64_def push_a64_def pop_x64_def push_x64_def)

lemmas shape_defs = checked_a64_def checked_x64_def pop_tail_def push_tail_def head_asns_def leave_def inside_simps

lemma framed_programs:
  "framed pop_a64 cs (asns A64 G cs (OpPop k))" "framed push_a64 cs (asns A64 G cs (OpPush k q))"
  "framed pop_x64 cs (asns X64 G cs (OpPop k))" "framed push_x64 cs (asns X64 G cs (OpPush k q))"
proof -
  show "framed pop_a64 cs (asns A64 G cs (OpPop k))" by (rule framed_split [of _ 11 16]; simp add: descriptor_simps shape_defs; intro conjI outside_pre outside_post; simp add: tried_def)
  show "framed push_a64 cs (asns A64 G cs (OpPush k q))" by (rule framed_split [of _ 11 18]; simp add: descriptor_simps shape_defs; intro conjI outside_pre outside_post; simp add: tried_def)
  show "framed pop_x64 cs (asns X64 G cs (OpPop k))" by (rule framed_split [of _ 10 18]; simp add: descriptor_simps shape_defs; intro conjI outside_pre outside_post; simp add: tried_def)
  show "framed push_x64 cs (asns X64 G cs (OpPush k q))" by (rule framed_split [of _ 10 19]; simp add: descriptor_simps shape_defs; intro conjI outside_pre outside_post; simp add: tried_def)
qed

lemma asns_framed: "framed (code a p) cs (asns a G cs p)"
  using framed_programs by (cases a; cases p) simp_all

lemma abort_ok: "abort_ip (descriptor (code a p)) = 2" "code a p ! 1 = Sig" "asns a G cs p ! 2 = pre (\<lambda>t. 0 < regs t R_loops)"
proof -
  show "abort_ip (descriptor (code a p)) = 2" by (cases a; cases p) (simp_all add: descriptor_simps)
  show "code a p ! 1 = Sig" by (cases a; cases p) (simp_all add: pop_a64_def push_a64_def pop_x64_def push_x64_def)
  show "asns a G cs p ! 2 = pre (\<lambda>t. 0 < regs t R_loops)" by (cases a; cases p) (simp_all add: checked_a64_def checked_x64_def head_asns_def)
qed

lemma at_pc_resumed:
  assumes "at_pc a G cs p fz g m t" "resumed (code a p) cs c t t'" "c < 2 ^ 32"
  shows "at_pc a G cs p fz' g m' t'"
proof -
  have f: "if in_section (code a p) (pc t) then inside cs (asns a G cs p ! pc t) else outside (asns a G cs p ! pc t)"
    using asns_framed [of a p cs G] assms(1) unfolding framed_def at_pc_def by (auto simp: asns_len)
  have A: "(asns a G cs p ! pc t) fz g m t" using assms(1) by (simp add: at_pc_def)
  have r: "regs t' = regs t" "zf t' = zf t" "hs t' = hs t" "cpu_id_start t' = c" "cpu_id t' = c" using assms(2) by (simp_all add: resumed_def)
  have "pc t' \<le> length (code a p) \<and> (asns a G cs p ! pc t') fz' g m' t'"
  proof (cases "in_section (code a p) (pc t)")
    case True
    then have i: "g = None" "rseq_cs_ptr t = cs" "0 < regs t R_loops" using f A unfolding inside_def by auto
    then have "pc t' = 2" using assms(2) True abort_ok(1) by (simp add: resumed_def)
    then show ?thesis using i r(1) abort_ok(3) [of a G cs p] by (cases a; cases p) (simp_all add: pre_def)
  next
    case False
    then have e: "pc t' = pc t" using assms(2) by (simp add: resumed_def)
    have o: "outside (asns a G cs p ! pc t)" using f False by simp
    show ?thesis using o [unfolded outside_def, rule_format, OF r(1-3) A] e assms(1) by (simp add: at_pc_def)
  qed
  then show ?thesis using assms(1,3) r by (simp add: at_pc_def)
qed

lemma at_pc_kernel:
  assumes "rseq_kernel K" "at_pc a G cs p fz g m t" "c < 2 ^ 32"
  shows "at_pc a G cs p fz' g m' (K (code a p) cs c t)" "cpu_id (K (code a p) cs c t) = c" "resumed (code a p) cs c t (K (code a p) cs c t)"
proof -
  show r: "resumed (code a p) cs c t (K (code a p) cs c t)" using assms(1) abort_ok(1,2) [of a p] by (simp add: rseq_kernel_def)
  then show "cpu_id (K (code a p) cs c t) = c" by (simp add: resumed_def)
  show "at_pc a G cs p fz' g m' (K (code a p) cs c t)" by (rule at_pc_resumed [OF assms(2) r assms(3)])
qed

lemma at_pc_call:
  assumes "args_ok G p r" "r R_loops = 5" "cpu_id t < 2 ^ 32" "cpu_id_start t < 2 ^ 32"
  shows "at_pc a G cs p fz None m (t\<lparr>pc := 0, regs := r\<rparr>)"
  using assms by (cases a; cases p) (simp_all add: at_pc_def checked_a64_def checked_x64_def head_asns_def pre_def)

lemma step_all:
  assumes "geo_ok G" "cs < 2 ^ 64" "call_ok G p"
  shows "step_ok a G cs p"
  using assms pop_a64_step push_a64_step pop_x64_step push_x64_step by (cases a; cases p) (auto simp: call_ok_def op_class_def)

subsection \<open>The invariant of the machine\<close>

text \<open>
  A running thread satisfies its assertion in the current memory, with its CPU seized or not; a thread
  that was switched out satisfied it in the memory of that moment.
\<close>

definition minv :: "arch \<Rightarrow> nat \<Rightarrow> geometry \<Rightarrow> machine \<Rightarrow> bool" where
  "minv a cs G M \<longleftrightarrow> mem_ok G (mc_mem M) \<and> (\<forall>i. call_ok G (mc_op M i)) \<and>
     (\<forall>c i. mc_run M c = Some i \<longrightarrow> cpu_id (mc_thr M i) = c \<and> at_pc a G cs (mc_op M i) (c \<in> mc_seized M) (mc_commit M i) (mc_mem M) (mc_thr M i)) \<and>
     (\<forall>i. \<exists>fz m. at_pc a G cs (mc_op M i) fz (mc_commit M i) m (mc_thr M i)) \<and>
     (\<forall>c\<in>mc_seized M. c < geo_cpus G \<and> mc_mem M (cell_addr G (StopC c)) \<noteq> 0)"

text \<open>The machine before any call: no thread runs, every thread has returned without a commit.\<close>

definition started :: "arch \<Rightarrow> geometry \<Rightarrow> machine \<Rightarrow> bool" where
  "started a G M \<longleftrightarrow> mem_ok G (mc_mem M) \<and> mc_seized M = {} \<and> (\<forall>c. mc_run M c = None) \<and>
     (\<forall>i. call_ok G (mc_op M i) \<and> args_ok G (mc_op M i) (regs (mc_thr M i)) \<and> finished a (mc_op M i) (mc_thr M i) \<and> mc_commit M i = None \<and> mc_count M i = 0 \<and>
       regs (mc_thr M i) R_status \<noteq> 0 \<and> regs (mc_thr M i) R_loops \<le> 5 \<and> cpu_id (mc_thr M i) < 2 ^ 32 \<and> cpu_id_start (mc_thr M i) < 2 ^ 32)"

lemma last_asn: "asns a G cs p ! length (code a p) = over G (case p of OpPop k \<Rightarrow> obj_reg | OpPush k q \<Rightarrow> no_obj)"
  by (cases a; cases p) (simp_all add: checked_a64_def checked_x64_def pop_tail_def push_tail_def head_asns_def leave_def)

lemma started_inv: "started a G M \<Longrightarrow> minv a cs G M"
  by (auto simp: started_def minv_def at_pc_def finished_def last_asn over_def)

text \<open>The cells of the stacks of a CPU.\<close>

definition stack_cell :: "nat \<Rightarrow> cell \<Rightarrow> bool" where
  "stack_cell c x \<longleftrightarrow> (case x of HdrC d k \<Rightarrow> d = c | CapC d k \<Rightarrow> d = c | SlotC d k i \<Rightarrow> d = c | StopC d \<Rightarrow> False)"

lemma outcome_elsewhere:
  assumes "geo_ok G" "mem_ok G m" "call_ok G p" "outcome G p c fz m m' g g'" "cell_ok G x" "fz \<or> \<not> stack_cell c x"
  shows "m' (cell_addr G x) = m (cell_addr G x)"
proof (cases "m' = m")
  case False
  then obtain y v where y: "cell_ok G y" "stack_cell c y" "m' = m(cell_addr G y := v)" and fz: "\<not> fz"
  proof (cases p)
    case (OpPop k)
    then show ?thesis using assms(3,4) False that [of "HdrC c k"] by (auto simp: outcome_def Let_def call_ok_def op_class_def stack_cell_def)
  next
    case (OpPush k q)
    then show ?thesis using assms(3,4) False that [of "HdrC c k"] that [of "SlotC c k (m (cell_addr G (HdrC c k)))"]
      by (auto simp: outcome_def Let_def call_ok_def op_class_def stack_cell_def)
  qed
  then have "x \<noteq> y" using assms(6) by auto
  then show ?thesis using y geo_inj [OF assms(1,5) y(1)] by simp
qed simp

lemma outcome_mem:
  assumes "geo_ok G" "mem_ok G m" "call_ok G p" "outcome G p c fz m m' g g'"
  shows "mem_ok G m'"
  unfolding mem_ok_def
proof (intro allI impI conjI)
  fix d assume d: "d < geo_cpus G"
  show "m' (cell_addr G (StopC d)) < 2 ^ 32"
    using outcome_elsewhere [OF assms, of "StopC d"] assms(2) d by (simp add: mem_ok_def stack_cell_def)
  fix k assume k: "k < length (geo_locs G)"
  have s: "stack_fits G m d k" using assms(2) d k by (simp add: mem_ok_def)
  note ne = geo_inj [OF assms(1)]
  show "stack_fits G m' d k"
  proof (cases "m' = m")
    case False
    then show ?thesis
    proof (cases p)
      case (OpPop j)
      then have j: "j < length (geo_locs G)" "c < geo_cpus G" "m' = m(cell_addr G (HdrC c j) := m (cell_addr G (HdrC c j)) - 1)" "0 < m (cell_addr G (HdrC c j))"
        using assms(3,4) False by (auto simp: outcome_def Let_def call_ok_def op_class_def)
      show ?thesis using s j d k ne unfolding stack_fits_def by (auto simp: fun_upd_def)
    next
      case (OpPush j q)
      let ?n = "m (cell_addr G (HdrC c j))"
      have j: "j < length (geo_locs G)" "c < geo_cpus G" "?n < geo_caps G ! j" "q < 2 ^ 64"
        "m' = m(cell_addr G (SlotC c j ?n) := q) \<or> m (cell_addr G (SlotC c j ?n)) = q \<and> m' = m(cell_addr G (HdrC c j) := ?n + 1)"
        using OpPush assms(3,4) False by (auto simp: outcome_def Let_def call_ok_def op_class_def)
      show ?thesis using j(5)
      proof
        assume "m' = m(cell_addr G (SlotC c j ?n) := q)"
        then show ?thesis using s j d k ne unfolding stack_fits_def by (auto simp: fun_upd_def)
      next
        assume "m (cell_addr G (SlotC c j ?n)) = q \<and> m' = m(cell_addr G (HdrC c j) := ?n + 1)"
        then show ?thesis using s j d k ne unfolding stack_fits_def by (auto simp: fun_upd_def less_Suc_eq)
      qed
    qed
  qed (use s in simp)
qed

lemma minv_parts:
  assumes "minv a cs G M"
  shows "mem_ok G (mc_mem M)" "call_ok G (mc_op M i)"
    "mc_run M c = Some i \<Longrightarrow> cpu_id (mc_thr M i) = c" "mc_run M c = Some i \<Longrightarrow> at_pc a G cs (mc_op M i) (c \<in> mc_seized M) (mc_commit M i) (mc_mem M) (mc_thr M i)"
    "\<exists>fz m. at_pc a G cs (mc_op M i) fz (mc_commit M i) m (mc_thr M i)"
    "c \<in> mc_seized M \<Longrightarrow> c < geo_cpus G \<and> mc_mem M (cell_addr G (StopC c)) \<noteq> 0"
  using assms by (simp_all add: minv_def)

text \<open>What one instruction of a running thread does.\<close>

lemma instr_ok:
  assumes G: "geo_ok G" "cs < 2 ^ 64" and M: "minv a cs G M" and r: "mc_run M c = Some i" and l: "pc (mc_thr M i) < length (code a (mc_op M i))"
    and e: "exec1 (code a (mc_op M i)) cs (mc_mem M, mc_thr M i) = (m', t')"
  shows "outcome G (mc_op M i) c (c \<in> mc_seized M) (mc_mem M) m' (mc_commit M i) (commit_of a (mc_op M i) (mc_thr M i) (mc_commit M i))"
    "at_pc a G cs (mc_op M i) (c \<in> mc_seized M) (commit_of a (mc_op M i) (mc_thr M i) (mc_commit M i)) m' t'" "mem_ok G m'"
proof -
  note p = minv_parts [OF M]
  have "step_ok a G cs (mc_op M i)" by (rule step_all [OF G p(2)])
  then show o: "outcome G (mc_op M i) c (c \<in> mc_seized M) (mc_mem M) m' (mc_commit M i) (commit_of a (mc_op M i) (mc_thr M i) (mc_commit M i))"
    and "at_pc a G cs (mc_op M i) (c \<in> mc_seized M) (commit_of a (mc_op M i) (mc_thr M i) (mc_commit M i)) m' t'"
    using p(1,6) p(3,4) [OF r] l e unfolding step_ok_def by fastforce+
  show "mem_ok G m'" by (rule outcome_mem [OF G(1) p(1,2) o])
qed

text \<open>The kernel never moves the CPU of a thread inside an instruction, so its area still names the CPU.\<close>

lemma exec_cpu: "cpu_id (snd (exec_item is cs it (m, t))) = cpu_id t" if "\<forall>r. it \<noteq> Stw (RseqAt CPU_ID) r \<and> it \<noteq> Stx (RseqAt CPU_ID) r \<and> it \<noteq> Stz (RseqAt CPU_ID)"
proof -
  have s: "cpu_id (snd (store od v (m, next_pc t))) = cpu_id t" if "od \<noteq> RseqAt CPU_ID" for od v
  proof (cases od)
    case (RseqAt f)
    then show ?thesis using that by (cases f) (auto simp: next_pc_def)
  qed (simp_all add: next_pc_def)
  show ?thesis using that by (cases it) (simp_all add: s, simp_all add: next_pc_def set_reg_def branch_def)
qed

lemma code_cpu: "it \<in> set (code a p) \<Longrightarrow> it \<noteq> Stw (RseqAt CPU_ID) r \<and> it \<noteq> Stx (RseqAt CPU_ID) r \<and> it \<noteq> Stz (RseqAt CPU_ID)"
  by (cases a; cases p) (auto simp: pop_a64_def push_a64_def pop_x64_def push_x64_def)

lemma exec1_cpu: "exec1 (code a p) cs (m, t) = (m', t') \<Longrightarrow> cpu_id t' = cpu_id t"
  using exec_cpu [of "code a p ! pc t" "code a p" cs m t] code_cpu [of "code a p ! pc t" a p] by (auto simp: exec1_def split: if_splits)

lemma agree_elsewhere:
  assumes "d < geo_cpus G" "k < length (geo_locs G)" "\<And>x. cell_ok G x \<Longrightarrow> stack_cell d x \<Longrightarrow> m' (cell_addr G x) = m (cell_addr G x)"
  shows "agree G d k m m'"
  using assms(3) [of "HdrC d k"] assms(3) [of "SlotC d k _"] assms(1,2) by (simp add: agree_def stack_cell_def)

lemma instr_inv:
  assumes G: "geo_ok G" "cs < 2 ^ 64" and M: "minv a cs G M" and r: "mc_run M c = Some i" and l: "pc (mc_thr M i) < length (code a (mc_op M i))"
    and e: "exec1 (code a (mc_op M i)) cs (mc_mem M, mc_thr M i) = (m', t')"
    and M': "mc_mem M' = m'" "mc_thr M' = (mc_thr M)(i := t')" "mc_op M' = mc_op M" "mc_run M' = mc_run M" "mc_seized M' = mc_seized M"
      "mc_commit M' = (mc_commit M)(i := commit_of a (mc_op M i) (mc_thr M i) (mc_commit M i))"
  shows "minv a cs G M'"
proof -
  note p = minv_parts [OF M] and o = instr_ok [OF G M r l e]
  note el = outcome_elsewhere [OF G(1) p(1,2) o(1)]
  have run: "cpu_id (mc_thr M' j) = d \<and> at_pc a G cs (mc_op M' j) (d \<in> mc_seized M') (mc_commit M' j) (mc_mem M') (mc_thr M' j)" if d: "mc_run M' d = Some j" for d j
  proof (cases "j = i")
    case True
    then have "d = c" using d p(3) [OF r] p(3) [of d i] M'(4) by simp
    then show ?thesis using True o(2) exec1_cpu [OF e] p(3) [OF r] M' by simp
  next
    case False
    then have dc: "d \<noteq> c" using d r M'(4) by auto
    have ag: "d < geo_cpus G \<Longrightarrow> agree G d (op_class (mc_op M j)) (mc_mem M) m'"
      using p(2) [of j] dc by (intro agree_elsewhere el) (auto simp: call_ok_def stack_cell_def split: cell.splits)
    have dr: "mc_run M d = Some j" using d M'(4) by simp
    show ?thesis using at_pc_stable [OF p(4) [OF dr], of "d \<in> mc_seized M" m'] ag p(3) [OF dr] False M' by simp
  qed
  have all: "\<exists>fz m. at_pc a G cs (mc_op M' j) fz (mc_commit M' j) m (mc_thr M' j)" for j
    using o(2) p(5) [of j] M' by (cases "j = i") auto
  have "\<forall>d\<in>mc_seized M'. d < geo_cpus G \<and> mc_mem M' (cell_addr G (StopC d)) \<noteq> 0"
    using p(6) el [of "StopC _"] M' by (simp add: stack_cell_def)
  then show ?thesis using o(3) p(2) run all M' by (simp add: minv_def)
qed

lemma mstep_inv:
  assumes G: "geo_ok G" "cs < 2 ^ 64" "rseq_kernel K" and s: "mstep K a cs G M M'" and M: "minv a cs G M"
  shows "minv a cs G M'"
  using s
proof cases
  case (instr c i m' t')
  then show ?thesis by (intro instr_inv [OF G(1,2) M instr(2-4)]) (auto simp: commit_of_def)
next
  case (call c i p r)
  note q = minv_parts [OF M]
  have A: "at_pc a G cs p fz None m ((mc_thr M i)\<lparr>pc := 0, regs := r\<rparr>)" for fz m
    using q(5) [of i] call by (intro at_pc_call) (auto simp: at_pc_def)
  show ?thesis using M call(1,4) A unfolding minv_def by (auto simp del: at_pc_def)
next
  case (switch_out c)
  then show ?thesis using M by (auto simp: minv_def)
next
  case (switch_in c i)
  obtain fz m where q: "at_pc a G cs (mc_op M i) fz (mc_commit M i) m (mc_thr M i)" using minv_parts(5) [OF M] by blast
  note k = at_pc_kernel [OF G(3) q switch_in(3)]
  have ne: "mc_run M d = Some j \<Longrightarrow> j \<noteq> i" for d j using switch_in(4) by auto
  show ?thesis using M switch_in(1,2) k(1,2) ne unfolding minv_def by (auto; blast)
next
  case (set_flag c v)
  have ne: "x = StopC c \<or> mc_mem M' (cell_addr G x) = mc_mem M (cell_addr G x)" if "cell_ok G x" for x
    using set_flag(1,2) geo_inj [OF G(1) that, of "StopC c"] by auto
  have ag: "agree G d k (mc_mem M) (mc_mem M')" if "d < geo_cpus G" "k < length (geo_locs G)" for d k
  proof (rule agree_elsewhere [OF that])
    fix x assume x: "cell_ok G x" "stack_cell d x"
    then have "x \<noteq> StopC c" by (auto simp: stack_cell_def)
    then show "mc_mem M' (cell_addr G x) = mc_mem M (cell_addr G x)" using ne [OF x(1)] by simp
  qed
  note q = minv_parts [OF M]
  have run: "cpu_id (mc_thr M j) = d \<and> at_pc a G cs (mc_op M j) (d \<in> mc_seized M') (mc_commit M j) (mc_mem M') (mc_thr M j)" if "mc_run M d = Some j" for d j
    using at_pc_stable [OF q(4) [OF that], of "d \<in> mc_seized M'" "mc_mem M'"] ag [of d "op_class (mc_op M j)"] q(2) [of j] q(3) [OF that] set_flag(1)
    by (auto simp: call_ok_def split: if_splits)
  have "mem_ok G (mc_mem M')" unfolding mem_ok_def stack_fits_def
    using q(1) set_flag ne [of "StopC _"] ne [of "HdrC _ _"] ne [of "CapC _ _"] ne [of "SlotC _ _ _"]
    by (auto simp: mem_ok_def stack_fits_def)
  moreover have "\<forall>d\<in>mc_seized M'. d < geo_cpus G \<and> mc_mem M' (cell_addr G (StopC d)) \<noteq> 0"
    using q(6) geo_inj [OF G(1), of "StopC _" "StopC c"] set_flag by (auto split: if_splits)
  ultimately show ?thesis using q(2,5) run set_flag(1) by (simp add: minv_def)
next
  case (barrier c)
  note q = minv_parts [OF M]
  have c: "c < 2 ^ 32" using barrier(2) G(1) by (simp add: geo_ok_def)
  have K: "at_pc a G cs (mc_op M j) fz' (mc_commit M j) m' (K (code a (mc_op M j)) cs c (mc_thr M j))" "cpu_id (K (code a (mc_op M j)) cs c (mc_thr M j)) = c" for j fz' m'
    using at_pc_kernel(1,2) [OF G(3) _ c] q(5) [of j] by blast+
  have ms: "d \<in> mc_seized M' \<longleftrightarrow> d \<in> mc_seized M" if "d \<noteq> c" for d using that barrier(1) by simp
  have thr: "mc_thr M' j = (if mc_run M c = Some j then K (code a (mc_op M j)) cs c (mc_thr M j) else mc_thr M j)" for j
    using barrier(1) by (auto split: option.splits)
  have run: "cpu_id (mc_thr M' j) = d \<and> at_pc a G cs (mc_op M j) (d \<in> mc_seized M') (mc_commit M j) (mc_mem M) (mc_thr M' j)" if d: "mc_run M d = Some j" for d j
  proof (cases "d = c")
    case True
    then show ?thesis using K d thr by simp
  next
    case False
    then have "mc_run M c \<noteq> Some j" using q(3) [OF d] q(3) [of c j] by auto
    then show ?thesis using q(3,4) [OF d] ms [OF False] thr by simp
  qed
  have all: "\<exists>fz m. at_pc a G cs (mc_op M j) fz (mc_commit M j) m (mc_thr M' j)" for j using K(1) q(5) [of j] thr by auto
  show ?thesis using q(1,2,6) run all barrier(1,2) by (auto simp: minv_def split: if_splits)
next
  case (guard_write c m')
  note q = minv_parts [OF M]
  have ag: "agree G d k (mc_mem M) m'" if "d < geo_cpus G" "k < length (geo_locs G)" "d \<noteq> c" for d k
    using guard_write(3) that unfolding same_elsewhere_def agree_def by auto
  have run: "cpu_id (mc_thr M j) = d \<and> at_pc a G cs (mc_op M j) (d \<in> mc_seized M) (mc_commit M j) m' (mc_thr M j)" if "mc_run M d = Some j" for d j
    using at_pc_stable [OF q(4) [OF that], of "d \<in> mc_seized M" m'] ag [of d "op_class (mc_op M j)"] q(2) [of j] q(3) [OF that] guard_write(2)
    by (cases "d = c") (auto simp: call_ok_def)
  have "\<forall>d\<in>mc_seized M. d < geo_cpus G \<and> m' (cell_addr G (StopC d)) \<noteq> 0" using q(6) guard_write(3) by (simp add: same_elsewhere_def)
  then show ?thesis using q(2,5) run guard_write(1,4) by (simp add: minv_def)
qed

lemma msteps_inv:
  "(mstep K a cs G)\<^sup>*\<^sup>* M0 M \<Longrightarrow> geo_ok G \<Longrightarrow> cs < 2 ^ 64 \<Longrightarrow> rseq_kernel K \<Longrightarrow> started a G M0 \<Longrightarrow> minv a cs G M"
  by (induction rule: rtranclp_induct) (auto intro: started_inv mstep_inv)

subsection \<open>The sequences as atomic operations of the slab\<close>

definition stack_of :: "geometry \<Rightarrow> mem \<Rightarrow> nat \<Rightarrow> nat \<Rightarrow> cstack" where
  "stack_of G m c k = \<lparr> current = m (cell_addr G (HdrC c k)), capacity = m (cell_addr G (CapC c k)), slots = map (\<lambda>i. m (cell_addr G (SlotC c k i))) [0..<geo_caps G ! k] \<rparr>"

definition slab_of :: "geometry \<Rightarrow> mem \<Rightarrow> slab" where
  "slab_of G m = \<lparr> num_cpus = geo_cpus G, stacks = map (\<lambda>c. map (stack_of G m c) [0..<length (geo_locs G)]) [0..<geo_cpus G],
     stopped = map (\<lambda>c. m (cell_addr G (StopC c)) \<noteq> 0) [0..<geo_cpus G] \<rparr>"

text \<open>The slab with the stop flag of a CPU down: the flag may rise after the sequence has checked it.\<close>

definition awake :: "nat \<Rightarrow> slab \<Rightarrow> slab" where
  "awake c sl = sl\<lparr>stopped := (stopped sl)[c := False]\<rparr>"

definition on_cpu :: "nat \<Rightarrow> env" where
  "on_cpu c = \<lparr> current_cpu = None, anchor = 0, rseq_cpu = Some c \<rparr>"

lemma commit_in_section: "in_section (code a p) (commit_pc (code a p))"
  by (cases a; cases p) (simp_all add: in_section_def descriptor_simps commit_pc_def, simp_all add: pop_a64_def push_a64_def pop_x64_def push_x64_def)

lemma commit_fresh:
  assumes "at_pc a G cs p fz g m t" "pc t = commit_pc (code a p)"
  shows "g = None"
proof -
  have "inside cs (asns a G cs p ! pc t)"
    using asns_framed [of a p cs G, unfolded framed_def, rule_format, of "pc t"] commit_in_section [of a p] assms by (simp add: asns_len at_pc_def)
  then show ?thesis using assms(1) unfolding inside_def at_pc_def by blast
qed

text \<open>A change of one cell of a stack is a change of one stack of the slab.\<close>

lemma stack_of_upd:
  assumes "geo_ok G" "cell_ok G x" "c < geo_cpus G" "k < length (geo_locs G)"
  shows "stack_of G (m(cell_addr G x := v)) c k = (stack_of G m c k)\<lparr>current := (if x = HdrC c k then v else current (stack_of G m c k)),
    capacity := (if x = CapC c k then v else capacity (stack_of G m c k)), slots := map (\<lambda>i. if x = SlotC c k i then v else m (cell_addr G (SlotC c k i))) [0..<geo_caps G ! k]\<rparr>"
  using geo_inj [OF assms(1) _ assms(2)] assms(3,4) by (auto simp: stack_of_def)

lemma slab_of_hdr:
  assumes "geo_ok G" "c < geo_cpus G" "k < length (geo_locs G)"
  shows "slab_of G (m(cell_addr G (HdrC c k) := v)) = (slab_of G m)\<lparr>stacks := (stacks (slab_of G m))[c := (stacks (slab_of G m) ! c)[k := (stack_of G m c k)\<lparr>current := v\<rparr>]]\<rparr>"
proof -
  have s: "stack_of G (m(cell_addr G (HdrC c k) := v)) d j = (if d = c \<and> j = k then (stack_of G m c k)\<lparr>current := v\<rparr> else stack_of G m d j)"
    if "d < geo_cpus G" "j < length (geo_locs G)" for d j
    using stack_of_upd [OF assms(1) _ that, of "HdrC c k" m v] assms(2,3) by (auto simp: stack_of_def)
  have f: "cell_addr G (StopC d) \<noteq> cell_addr G (HdrC c k)" if "d < geo_cpus G" for d using geo_inj [OF assms(1), of "StopC d" "HdrC c k"] that assms(2,3) by simp
  show ?thesis using s f assms(2,3) by (auto simp: slab_of_def intro!: nth_equalityI simp: nth_list_update)
qed

lemma slab_of_get:
  assumes "c < geo_cpus G" "k < length (geo_locs G)"
  shows "get_stack (awake c (slab_of G m)) c k = Some (stack_of G m c k)" "idx (stopped (awake c (slab_of G m))) c = Some False"
    "num_cpus (awake c (slab_of G m)) = geo_cpus G" "stacks (awake c (slab_of G m)) ! c ! k = stack_of G m c k"
  using assms by (simp_all add: awake_def slab_of_def get_stack_def)

text \<open>A commit is the operation of the slab.\<close>

lemma commit_atomic:
  assumes "geo_ok G" "mem_ok G m" "call_ok G p" "outcome G p c fz m m' None (Some (d, v))"
  shows "d = c \<and> \<not> fz \<and> c < geo_cpus G \<and> (case p of
      OpPop k \<Rightarrow> asm_pop (awake c (slab_of G m)) (on_cpu c) k = Some (awake c (slab_of G m'), ROk v c)
    | OpPush k q \<Rightarrow> v = 0 \<and> asm_push (awake c (slab_of G m)) (on_cpu c) k q = Some (awake c (slab_of G m'), ROk 0 c))"
proof (cases p)
  case (OpPop k)
  let ?n = "m (cell_addr G (HdrC c k))"
  have o: "\<not> fz" "c < geo_cpus G" "k < length (geo_locs G)" "0 < ?n" "d = c" "v = m (cell_addr G (SlotC c k (?n - 1)))" "m' = m(cell_addr G (HdrC c k) := ?n - 1)"
    using assms(3,4) OpPop by (auto simp: outcome_def Let_def call_ok_def op_class_def)
  have "?n \<le> geo_caps G ! k" using assms(2) o(2,3) by (simp add: mem_ok_def stack_fits_def)
  then have "?n - 1 < geo_caps G ! k" using o(4) by linarith
  then have "idx (slots (stack_of G m c k)) (current (stack_of G m c k) - 1) = Some v" using o(4,6) by (simp add: stack_of_def)
  moreover have "put_stack (awake c (slab_of G m)) c k ((stack_of G m c k)\<lparr>current := ?n - 1\<rparr>) = Some (awake c (slab_of G m'))"
    unfolding o(7) slab_of_hdr [OF assms(1) o(2,3)] using o(2,3) by (simp add: put_stack_def awake_def slab_of_def)
  ultimately show ?thesis using o OpPop slab_of_get [OF o(2,3), of m] by (simp add: asm_pop_def on_cpu_def stack_of_def)
next
  case (OpPush k q)
  let ?n = "m (cell_addr G (HdrC c k))"
  have o: "\<not> fz" "c < geo_cpus G" "k < length (geo_locs G)" "?n < geo_caps G ! k" "d = c" "v = 0" "q = m (cell_addr G (SlotC c k ?n))" "m' = m(cell_addr G (HdrC c k) := ?n + 1)"
    using assms(3,4) OpPush by (auto simp: outcome_def Let_def call_ok_def op_class_def)
  have cp: "capacity (stack_of G m c k) = geo_caps G ! k" using assms(2) o(2,3) by (simp add: mem_ok_def stack_fits_def stack_of_def)
  have "upd (slots (stack_of G m c k)) ?n q = Some (slots (stack_of G m c k))"
    using o(4) unfolding o(7) by (auto simp: stack_of_def upd_def intro!: nth_equalityI simp: nth_list_update)
  moreover have "put_stack (awake c (slab_of G m)) c k ((stack_of G m c k)\<lparr>current := ?n + 1\<rparr>) = Some (awake c (slab_of G m'))"
    unfolding o(8) slab_of_hdr [OF assms(1) o(2,3)] using o(2,3) by (simp add: put_stack_def awake_def slab_of_def)
  moreover have "(stack_of G m c k)\<lparr>slots := slots (stack_of G m c k), current := ?n + 1\<rparr> = (stack_of G m c k)\<lparr>current := ?n + 1\<rparr>" by (simp add: stack_of_def)
  ultimately show ?thesis using o(1-6) OpPush slab_of_get [OF o(2,3), of m] cp by (simp add: asm_push_def on_cpu_def stack_of_def)
qed

text \<open>Any other instruction leaves the contents of all stacks alone.\<close>

lemma scratch_contents:
  assumes "geo_ok G" "call_ok G p" "outcome G p c fz m m' g g" "d < geo_cpus G" "k < length (geo_locs G)"
  shows "contents (stack_of G m' d k) = contents (stack_of G m d k)"
proof (cases "m' = m")
  case False
  then obtain j q where p: "p = OpPush j q" "m' = m(cell_addr G (SlotC c j (m (cell_addr G (HdrC c j)))) := q)" "m (cell_addr G (HdrC c j)) < geo_caps G ! j" "c < geo_cpus G" "j < length (geo_locs G)"
    using assms(2,3) by (auto simp: outcome_def Let_def call_ok_def op_class_def split: rseq_op.splits)
  have "stack_of G m' d k = (stack_of G m d k)\<lparr>slots := map (\<lambda>i. if SlotC c j (m (cell_addr G (HdrC c j))) = SlotC d k i then q else m (cell_addr G (SlotC d k i))) [0..<geo_caps G ! k]\<rparr>"
    using stack_of_upd [OF assms(1) _ assms(4,5), of "SlotC c j (m (cell_addr G (HdrC c j)))" m q] p(3-5) unfolding p(2) by (simp add: stack_of_def)
  then show ?thesis by (auto simp: contents_def stack_of_def intro!: nth_equalityI)
qed simp

subsection \<open>Bounded calls\<close>

text \<open>
  The rank of a thread falls with every instruction and does not rise when the kernel resumes it: a new
  attempt costs one of the five loops.
\<close>

definition rank :: "thr \<Rightarrow> nat" where
  "rank t = 47 * regs t R_loops + (if pc t \<le> 6 then 28 - pc t else 2 * (41 - pc t))"

fun jump_of :: "item \<Rightarrow> nat option" where
  "jump_of (Jhs l) = Some l"
| "jump_of (Jeq l) = Some l"
| "jump_of (Jne l) = Some l"
| "jump_of (Cbz r l) = Some l"
| "jump_of (Cbnz r l) = Some l"
| "jump_of (Jmp l) = Some l"
| "jump_of _ = None"

fun writes :: "item \<Rightarrow> reg option" where
  "writes (Ldw r a) = Some r"
| "writes (Ldx r a) = Some r"
| "writes (Decx r) = Some r"
| "writes (Decw r) = Some r"
| "writes (Incw r) = Some r"
| "writes (Adrp r) = Some r"
| "writes (Addlo r) = Some r"
| "writes (Leacs r) = Some r"
| "writes (Lsli r q n) = Some r"
| "writes (Lslr r q s) = Some r"
| "writes (Add r q s) = Some r"
| "writes (Movr r q) = Some r"
| "writes (Movi r n) = Some r"
| "writes _ = None"

text \<open>Jumps go forward, past the section when they leave the head, or back to the start from inside the section.\<close>

definition jump_ok :: "item list \<Rightarrow> nat \<Rightarrow> nat \<Rightarrow> bool" where
  "jump_ok is n k \<longleftrightarrow> n < k \<and> k < length is \<and> (n < 6 \<longrightarrow> k \<le> 6 \<or> 30 \<le> k) \<or> 6 < n \<and> n < 28 \<and> k = 2"

definition flow :: "item list \<Rightarrow> bool" where
  "flow is \<longleftrightarrow> length is \<le> 41 \<and> is ! 6 = Decx R_loops \<and> list_all (\<lambda>(n, it). n = 6 \<or> writes it \<noteq> Some R_loops \<and> (it = Sig \<longrightarrow> n = 1) \<and>
     (case jump_of it of None \<Rightarrow> True | Some l \<Rightarrow> jump_ok is n (target is l))) (enumerate 0 is)"

lemma code_flow: "flow (code a p)"
proof -
  have "flow pop_a64" "flow push_a64" "flow pop_x64" "flow push_x64"
    unfolding pop_a64_def push_a64_def pop_x64_def push_x64_def by (simp_all add: flow_def jump_ok_def)
  then show ?thesis by (cases a; cases p) simp_all
qed

lemma store_frame: "regs (snd (store od v (m, t))) = regs t" "pc (snd (store od v (m, t))) = pc t"
proof -
  show "regs (snd (store od v (m, t))) = regs t" by (cases "(od, v, (m, t))" rule: store.cases) simp_all
  show "pc (snd (store od v (m, t))) = pc t" by (cases "(od, v, (m, t))" rule: store.cases) simp_all
qed

lemma exec_frame:
  assumes "writes it \<noteq> Some R_loops" "it \<noteq> Sig" "exec_item is cs it (m, t) = (m', t')"
  shows "regs t' R_loops = regs t R_loops" "pc t' = pc t + 1 \<or> (\<exists>l. jump_of it = Some l \<and> pc t' = target is l)"
proof -
  have t: "t' = snd (exec_item is cs it (m, t))" using assms(3) by simp
  show "regs t' R_loops = regs t R_loops" unfolding t using assms(1) by (cases it) (simp_all add: store_frame, auto simp: next_pc_def set_reg_def branch_def)
  show "pc t' = pc t + 1 \<or> (\<exists>l. jump_of it = Some l \<and> pc t' = target is l)"
    unfolding t using assms(2) by (cases it) (simp_all add: store_frame, auto simp: next_pc_def set_reg_def branch_def)
qed

lemma rank_step:
  assumes f: "flow is" and l: "pc t < length is" "pc t \<noteq> 1" "pc t = 6 \<longrightarrow> 0 < regs t R_loops \<and> regs t R_loops \<le> 5" and e: "exec1 is cs (m, t) = (m', t')"
  shows "rank t' < rank t"
proof (cases "pc t = 6")
  case True
  then have "exec_item is cs (Decx R_loops) (m, t) = (m', t')" using f l e by (simp add: flow_def exec1_def)
  then have "pc t' = 7" "regs t' R_loops = regs t R_loops - 1" using True l(3) by (auto simp: set_reg_def dec_simps add.commute [of _ 18446744073709551615])
  then show ?thesis using True l(3) by (cases "regs t R_loops") (simp_all add: rank_def)
next
  case False
  have it: "writes (is ! pc t) \<noteq> Some R_loops" "is ! pc t \<noteq> Sig" "\<And>k. jump_of (is ! pc t) = Some k \<Longrightarrow> jump_ok is (pc t) (target is k)"
  proof -
    have "(pc t, is ! pc t) \<in> set (enumerate 0 is)" using l(1) by (simp add: in_set_enumerate_eq)
    then show "writes (is ! pc t) \<noteq> Some R_loops" "is ! pc t \<noteq> Sig" "\<And>k. jump_of (is ! pc t) = Some k \<Longrightarrow> jump_ok is (pc t) (target is k)"
      using f l False unfolding flow_def list_all_iff by fastforce+
  qed
  have x: "exec_item is cs (is ! pc t) (m, t) = (m', t')" using e l by (simp add: exec1_def)
  note fr = exec_frame [OF it(1,2) x]
  have len: "length is \<le> 41" using f by (simp add: flow_def)
  from fr(2) show ?thesis
  proof
    assume "pc t' = pc t + 1"
    then show ?thesis using fr(1) l(1) False len by (auto simp: rank_def)
  next
    assume "\<exists>k. jump_of (is ! pc t) = Some k \<and> pc t' = target is k"
    then have "jump_ok is (pc t) (pc t')" using it(3) by auto
    then show ?thesis using fr(1) l(1) False len by (auto simp: rank_def jump_ok_def)
  qed
qed

lemma rank_resumed:
  assumes "resumed (code a p) cs c t t'"
  shows "rank t' \<le> rank t"
proof -
  have "pc t' = pc t \<or> pc t' = 2 \<and> 6 < pc t \<and> pc t \<le> 28"
    using assms by (cases a; cases p) (auto simp: resumed_def in_section_def descriptor_simps split: if_splits)
  then show ?thesis using assms by (auto simp: rank_def resumed_def)
qed

lemma head_asns: "asns a G cs p ! 1 = pre (\<lambda>t. False)" "asns a G cs p ! 6 = pre (\<lambda>t. 0 < regs t R_loops \<and> regs t R_cpu < geo_cpus G)"
  by (cases a; cases p; simp add: checked_a64_def checked_x64_def head_asns_def)+

lemma rank_mstep:
  assumes G: "geo_ok G" "cs < 2 ^ 64" "rseq_kernel K" and M: "minv a cs G M" and c: "\<forall>i. mc_count M i + rank (mc_thr M i) \<le> 263" and s: "mstep K a cs G M M'"
  shows "\<forall>i. mc_count M' i + rank (mc_thr M' i) \<le> 263"
  using s
proof cases
  case (instr d i m' t')
  have A: "at_pc a G cs (mc_op M i) (d \<in> mc_seized M) (mc_commit M i) (mc_mem M) (mc_thr M i)" by (rule minv_parts(4) [OF M instr(2)])
  have "pc (mc_thr M i) \<noteq> 1" using A head_asns(1) [of a G cs "mc_op M i"] by (auto simp: at_pc_def pre_def)
  moreover have "pc (mc_thr M i) = 6 \<longrightarrow> 0 < regs (mc_thr M i) R_loops \<and> regs (mc_thr M i) R_loops \<le> 5"
    using A head_asns(2) [of a G cs "mc_op M i"] by (auto simp: at_pc_def pre_def)
  ultimately have "rank t' < rank (mc_thr M i)" using rank_step [OF code_flow instr(3) _ _ instr(4)] by blast
  then have "Suc (mc_count M i + rank t') \<le> 263" using spec [OF c, of i] by linarith
  then show ?thesis using c instr(1) by simp
next
  case (call d i p r)
  then have "rank (mc_thr M' i) \<le> 263" by (simp add: rank_def)
  then show ?thesis using c call(1) by simp
next
  case (switch_in d i)
  have "rank (K (code a (mc_op M i)) cs d (mc_thr M i)) \<le> rank (mc_thr M i)"
    using minv_parts(5) [OF M, of i] at_pc_kernel(3) [OF G(3) _ switch_in(3)] rank_resumed by blast
  then have "mc_count M i + rank (K (code a (mc_op M i)) cs d (mc_thr M i)) \<le> 263" using spec [OF c, of i] by linarith
  then show ?thesis using c switch_in(1) by simp
next
  case (barrier d)
  have d: "d < 2 ^ 32" using barrier(2) G(1) by (simp add: geo_ok_def)
  have k: "mc_count M i + rank (K (code a (mc_op M i)) cs d (mc_thr M i)) \<le> 263" for i
  proof -
    have "rank (K (code a (mc_op M i)) cs d (mc_thr M i)) \<le> rank (mc_thr M i)"
      using minv_parts(5) [OF M, of i] at_pc_kernel(3) [OF G(3) _ d] rank_resumed by blast
    then show ?thesis using spec [OF c, of i] by linarith
  qed
  then show ?thesis using c barrier(1) by (simp split: option.splits)
qed (use c in simp_all)

lemma msteps_rank:
  assumes "(mstep K a cs G)\<^sup>*\<^sup>* M0 M" "geo_ok G" "cs < 2 ^ 64" "rseq_kernel K" "started a G M0"
  shows "\<forall>i. mc_count M i + rank (mc_thr M i) \<le> 263"
  using assms(1)
proof (induction rule: rtranclp_induct)
  case base
  have "mc_count M0 i + rank (mc_thr M0 i) \<le> 263" for i
  proof -
    have "40 \<le> pc (mc_thr M0 i)" "regs (mc_thr M0 i) R_loops \<le> 5" "mc_count M0 i = 0" using assms(5) by (cases a; cases "mc_op M0 i"; simp add: started_def finished_def)+
    then show ?thesis by (simp add: rank_def)
  qed
  then show ?case by blast
next
  case (step M M')
  then show ?case using rank_mstep [OF assms(2-4) msteps_inv [OF step(1) assms(2-5)]] by blast
qed

end
