(* ===== verification/Rseq_Run.thy ===== *)
theory Rseq_Run
  imports Rseq_Correct
begin

text \<open>
  The runs of the sequences without an interruption, on every branch, against the one-step
  operations \<open>asm_pop\<close> and \<open>asm_push\<close> of the slab.
\<close>

subsection \<open>A call that is not interrupted\<close>

definition leads :: "item list \<Rightarrow> nat \<Rightarrow> mem \<times> thr \<Rightarrow> (mem \<times> thr \<Rightarrow> bool) \<Rightarrow> bool" where
  "leads is cs s Q \<longleftrightarrow> (\<exists>n. Q ((exec1 is cs ^^ n) s))"

lemma leads_step: "pc t < length is \<Longrightarrow> leads is cs (exec_item is cs (is ! pc t) (m, t)) Q \<Longrightarrow> leads is cs (m, t) Q"
  unfolding leads_def by (metis exec1_def funpow_Suc_right comp_apply snd_conv)

lemma leads_done: "Q s \<Longrightarrow> leads is cs s Q"
  unfolding leads_def by (metis funpow_0)

lemmas exec_frame_simps = next_pc_def set_reg_def branch_def

definition ends :: "rseq_op \<Rightarrow> item list \<Rightarrow> mem \<Rightarrow> rseq_result \<Rightarrow> mem \<times> thr \<Rightarrow> bool" where
  "ends p is m res s \<longleftrightarrow> pc (snd s) = length is \<and> fst s = m \<and> result_of p (snd s) = res"

definition plain_run :: "geometry \<Rightarrow> rseq_op \<Rightarrow> nat \<Rightarrow> mem \<Rightarrow> mem \<times> rseq_result" where
  "plain_run G p c m =
     (if geo_cpus G \<le> c \<or> m (cell_addr G (StopC c)) \<noteq> 0 then (m, RFallback)
      else case p of
        OpPop k \<Rightarrow> (let n = m (cell_addr G (HdrC c k)) in
          if n = 0 then (m, RNeedsSlow) else (m(cell_addr G (HdrC c k) := n - 1), ROk (m (cell_addr G (SlotC c k (n - 1)))) c))
      | OpPush k q \<Rightarrow> (let n = m (cell_addr G (HdrC c k)) in
          if geo_caps G ! k \<le> n then (m, RNeedsSlow) else (m(cell_addr G (SlotC c k n) := q, cell_addr G (HdrC c k) := n + 1), ROk 0 c)))"

lemma five: "w64 18446744073709551620 = 4"
  by (simp add: w64_def)

lemma pop_a64_runs:
  assumes G: "geo_ok G" "k < length (geo_locs G)" "cs < 2 ^ 64" "mem_ok G m" and A: "args_ok G (OpPop k) r" "r R_loops = 5"
    and c: "c < 2 ^ 32" "cpu_id t = c" "cpu_id_start t = c"
  shows "leads pop_a64 cs (m, t\<lparr>pc := 0, regs := r\<rparr>) (ends (OpPop k) pop_a64 (fst (plain_run G (OpPop k) c m)) (snd (plain_run G (OpPop k) c m)))"
proof -
  note F = geo_arith [OF G(1) _ G(2)] geo_slot(2) [OF G(1) _ G(2)] geo_slot(1) [OF G(1) _ G(2), where i = 0] mem_simps [OF G(1) G(4) G(2)] dec_simps adr_simps [OF G(3)]
  have H: "m (cell_addr G (HdrC c k)) - Suc 0 \<le> geo_caps G ! k" if "c < geo_cpus G" using mem_simps(3) [OF G(1) G(4) G(2) that] le_trans diff_le_self by blast
  note A' = A(1) [unfolded args_simps] A(2)
  consider "geo_cpus G \<le> c" | "c < geo_cpus G" "m (cell_addr G (StopC c)) \<noteq> 0" | "c < geo_cpus G" "m (cell_addr G (StopC c)) = 0" "m (cell_addr G (HdrC c k)) = 0"
    | "c < geo_cpus G" "m (cell_addr G (StopC c)) = 0" "\<not> m (cell_addr G (HdrC c k)) = 0" by linarith
  then show ?thesis using c A'
    by cases (((rule leads_step, simp, simp add: pop_a64_targets exec_frame_simps pop_a64_fetch five F)+)[1], (rule leads_done, simp add: ends_def plain_run_def Let_def F H))+
qed

lemma push_a64_runs:
  assumes G: "geo_ok G" "k < length (geo_locs G)" "cs < 2 ^ 64" "mem_ok G m" "q < 2 ^ 64" and A: "args_ok G (OpPush k q) r" "r R_loops = 5"
    and c: "c < 2 ^ 32" "cpu_id t = c" "cpu_id_start t = c"
  shows "leads push_a64 cs (m, t\<lparr>pc := 0, regs := r\<rparr>) (ends (OpPush k q) push_a64 (fst (plain_run G (OpPush k q) c m)) (snd (plain_run G (OpPush k q) c m)))"
proof -
  note F = geo_arith [OF G(1) _ G(2)] geo_slot(2) [OF G(1) _ G(2)] geo_slot(1) [OF G(1) _ G(2), where i = 0] mem_simps [OF G(1) G(4) G(2)] dec_simps adr_simps [OF G(3)] w64_id [OF G(5)]
  have H: "m (cell_addr G (HdrC c k)) - Suc 0 \<le> geo_caps G ! k" if "c < geo_cpus G" using mem_simps(3) [OF G(1) G(4) G(2) that] le_trans diff_le_self by blast
  note A' = A(1) [unfolded args_simps] A(2)
  consider "geo_cpus G \<le> c" | "c < geo_cpus G" "m (cell_addr G (StopC c)) \<noteq> 0" | "c < geo_cpus G" "m (cell_addr G (StopC c)) = 0" "geo_caps G ! k \<le> m (cell_addr G (HdrC c k))"
    | "c < geo_cpus G" "m (cell_addr G (StopC c)) = 0" "\<not> geo_caps G ! k \<le> m (cell_addr G (HdrC c k))" by linarith
  then show ?thesis using c A'
    by cases (((rule leads_step, simp, simp add: push_a64_targets exec_frame_simps push_a64_fetch five F)+)[1], (rule leads_done, simp add: ends_def plain_run_def Let_def F H))+
qed

lemma pop_x64_runs:
  assumes G: "geo_ok G" "k < length (geo_locs G)" "cs < 2 ^ 64" "mem_ok G m" and A: "args_ok G (OpPop k) r" "r R_loops = 5"
    and c: "c < 2 ^ 32" "cpu_id t = c" "cpu_id_start t = c"
  shows "leads pop_x64 cs (m, t\<lparr>pc := 0, regs := r\<rparr>) (ends (OpPop k) pop_x64 (fst (plain_run G (OpPop k) c m)) (snd (plain_run G (OpPop k) c m)))"
proof -
  note F = geo_arith [OF G(1) _ G(2)] geo_slot(2) [OF G(1) _ G(2)] geo_slot(1) [OF G(1) _ G(2), where i = 0] mem_simps [OF G(1) G(4) G(2)] dec_simps adr_simps [OF G(3)]
  have H: "m (cell_addr G (HdrC c k)) - Suc 0 \<le> geo_caps G ! k" if "c < geo_cpus G" using mem_simps(3) [OF G(1) G(4) G(2) that] le_trans diff_le_self by blast
  note A' = A(1) [unfolded args_simps] A(2)
  consider "geo_cpus G \<le> c" | "c < geo_cpus G" "m (cell_addr G (StopC c)) \<noteq> 0" | "c < geo_cpus G" "m (cell_addr G (StopC c)) = 0" "m (cell_addr G (HdrC c k)) = 0"
    | "c < geo_cpus G" "m (cell_addr G (StopC c)) = 0" "\<not> m (cell_addr G (HdrC c k)) = 0" by linarith
  then show ?thesis using c A'
    by cases (((rule leads_step, simp, simp add: pop_x64_targets exec_frame_simps pop_x64_fetch five F)+)[1], (rule leads_done, simp add: ends_def plain_run_def Let_def F H))+
qed

lemma push_x64_runs:
  assumes G: "geo_ok G" "k < length (geo_locs G)" "cs < 2 ^ 64" "mem_ok G m" "q < 2 ^ 64" and A: "args_ok G (OpPush k q) r" "r R_loops = 5"
    and c: "c < 2 ^ 32" "cpu_id t = c" "cpu_id_start t = c"
  shows "leads push_x64 cs (m, t\<lparr>pc := 0, regs := r\<rparr>) (ends (OpPush k q) push_x64 (fst (plain_run G (OpPush k q) c m)) (snd (plain_run G (OpPush k q) c m)))"
proof -
  note F = geo_arith [OF G(1) _ G(2)] geo_slot(2) [OF G(1) _ G(2)] geo_slot(1) [OF G(1) _ G(2), where i = 0] mem_simps [OF G(1) G(4) G(2)] dec_simps adr_simps [OF G(3)] w64_id [OF G(5)]
  have H: "m (cell_addr G (HdrC c k)) - Suc 0 \<le> geo_caps G ! k" if "c < geo_cpus G" using mem_simps(3) [OF G(1) G(4) G(2) that] le_trans diff_le_self by blast
  note A' = A(1) [unfolded args_simps] A(2)
  consider "geo_cpus G \<le> c" | "c < geo_cpus G" "m (cell_addr G (StopC c)) \<noteq> 0" | "c < geo_cpus G" "m (cell_addr G (StopC c)) = 0" "geo_caps G ! k \<le> m (cell_addr G (HdrC c k))"
    | "c < geo_cpus G" "m (cell_addr G (StopC c)) = 0" "\<not> geo_caps G ! k \<le> m (cell_addr G (HdrC c k))" by linarith
  then show ?thesis using c A'
    by cases (((rule leads_step, simp, simp add: push_x64_targets exec_frame_simps push_x64_fetch five F)+)[1], (rule leads_done, simp add: ends_def plain_run_def Let_def F H))+
qed

lemma slab_of_slot:
  assumes "geo_ok G" "c < geo_cpus G" "k < length (geo_locs G)" "i < geo_caps G ! k"
  shows "slab_of G (m(cell_addr G (SlotC c k i) := v)) =
    (slab_of G m)\<lparr>stacks := (stacks (slab_of G m))[c := (stacks (slab_of G m) ! c)[k := (stack_of G m c k)\<lparr>slots := (slots (stack_of G m c k))[i := v]\<rparr>]]\<rparr>"
proof -
  have l: "map (\<lambda>j. if i = j then v else m (cell_addr G (SlotC c k j))) [0..<geo_caps G ! k] = (slots (stack_of G m c k))[i := v]"
    using assms(4) by (intro nth_equalityI) (simp_all add: stack_of_def nth_list_update)
  have s: "stack_of G (m(cell_addr G (SlotC c k i) := v)) d j = (if d = c \<and> j = k then (stack_of G m c k)\<lparr>slots := (slots (stack_of G m c k))[i := v]\<rparr> else stack_of G m d j)"
    if "d < geo_cpus G" "j < length (geo_locs G)" for d j
  proof -
    note u = stack_of_upd [OF assms(1) _ that, of "SlotC c k i" m v]
    show ?thesis
    proof (cases "d = c \<and> j = k")
      case True
      then have "d = c" "j = k" by simp_all
      then show ?thesis using stack_of_upd [OF assms(1) _ assms(2,3), of "SlotC c k i" m v] assms(2-4) l by (cases "stack_of G m c k") simp
    next
      case False
      then have "map (\<lambda>ia. if SlotC c k i = SlotC d j ia then v else m (cell_addr G (SlotC d j ia))) [0..<geo_caps G ! j] = slots (stack_of G m d j)" by (auto simp: stack_of_def)
      then show ?thesis using u assms(2-4) False by (cases "stack_of G m d j") auto
    qed
  qed
  have f: "cell_addr G (StopC d) \<noteq> cell_addr G (SlotC c k i)" if "d < geo_cpus G" for d using geo_inj [OF assms(1), of "StopC d" "SlotC c k i"] that assms(2-4) by simp
  show ?thesis using s f assms(2,3) by (auto simp: slab_of_def intro!: nth_equalityI simp: nth_list_update)
qed

lemma plain_run_slab:
  assumes "geo_ok G" "mem_ok G m" "call_ok G p"
  shows "(case p of OpPop k \<Rightarrow> asm_pop (slab_of G m) (on_cpu c) k | OpPush k q \<Rightarrow> asm_push (slab_of G m) (on_cpu c) k q) =
    Some (slab_of G (fst (plain_run G p c m)), snd (plain_run G p c m))"
proof (cases "c < geo_cpus G \<and> m (cell_addr G (StopC c)) = 0")
  case False
  then show ?thesis by (auto simp: asm_pop_def asm_push_def on_cpu_def plain_run_def slab_of_def split: rseq_op.splits)
next
  case True
  have st: "idx (stopped (slab_of G m)) c = Some False" "num_cpus (slab_of G m) = geo_cpus G" using True by (simp_all add: slab_of_def)
  show ?thesis
  proof (cases p)
    case (OpPop k)
    let ?n = "m (cell_addr G (HdrC c k))"
    have k: "k < length (geo_locs G)" "?n \<le> geo_caps G ! k" using assms(2,3) True OpPop by (auto simp: call_ok_def op_class_def mem_ok_def stack_fits_def)
    have g: "get_stack (slab_of G m) c k = Some (stack_of G m c k)" using True k by (simp add: get_stack_def slab_of_def)
    have x: "idx (slots (stack_of G m c k)) (?n - 1) = Some (m (cell_addr G (SlotC c k (?n - 1))))" if "0 < ?n"
    proof -
      have "?n - 1 < geo_caps G ! k" using k(2) that by linarith
      then show ?thesis by (simp add: stack_of_def)
    qed
    have "put_stack (slab_of G m) c k ((stack_of G m c k)\<lparr>current := ?n - 1\<rparr>) = Some (slab_of G (m(cell_addr G (HdrC c k) := ?n - 1)))"
      unfolding slab_of_hdr [OF assms(1) conjunct1 [OF True] k(1)] using True k by (simp add: put_stack_def slab_of_def)
    then show ?thesis using OpPop True st g x by (simp add: asm_pop_def on_cpu_def plain_run_def Let_def) (simp add: stack_of_def)
  next
    case (OpPush k q)
    let ?n = "m (cell_addr G (HdrC c k))" and ?m = "\<lambda>n. m(cell_addr G (SlotC c k n) := q)"
    have k: "k < length (geo_locs G)" "capacity (stack_of G m c k) = geo_caps G ! k" using assms(2,3) True OpPush by (auto simp: call_ok_def op_class_def mem_ok_def stack_fits_def stack_of_def)
    have g: "get_stack (slab_of G m) c k = Some (stack_of G m c k)" using True k by (simp add: get_stack_def slab_of_def)
    have "upd (slots (stack_of G m c k)) ?n q = Some ((slots (stack_of G m c k))[?n := q])" if "?n < geo_caps G ! k" using that by (simp add: stack_of_def)
    moreover have "put_stack (slab_of G m) c k ((stack_of G m c k)\<lparr>slots := (slots (stack_of G m c k))[?n := q], current := ?n + 1\<rparr>) =
      Some (slab_of G ((?m ?n)(cell_addr G (HdrC c k) := ?n + 1)))" if n: "?n < geo_caps G ! k"
    proof -
      have s: "stack_of G (?m ?n) c k = (stack_of G m c k)\<lparr>slots := (slots (stack_of G m c k))[?n := q]\<rparr>"
        using slab_of_slot [OF assms(1) conjunct1 [OF True] k(1) n, of m q] True k(1) by (auto simp: slab_of_def dest!: arg_cong [of _ _ "\<lambda>l. l ! c ! k"])
      show ?thesis unfolding slab_of_hdr [OF assms(1) conjunct1 [OF True] k(1)] s slab_of_slot [OF assms(1) conjunct1 [OF True] k(1) n]
        using True k by (simp add: put_stack_def slab_of_def)
    qed
    ultimately show ?thesis using OpPush True st g k(2) by (simp add: asm_push_def on_cpu_def plain_run_def Let_def) (simp add: stack_of_def)
  qed
qed

end
