(* ===== verification/Rseq_Layout.thy ===== *)
theory Rseq_Layout
  imports Rseq_Correct Sub_Heap_Props
begin

text \<open>
  The cells that the builder of a sub-heap lays out are a well-formed geometry.
\<close>

text \<open>
  The geometry that the builder of a sub-heap (\<^verbatim>\<open>toccata-core/src/subheap.rs\<close>) gives to the sequences.
  The stop flags are allocated apart, at \<open>stop\<close>.
\<close>

definition geometry_of :: "builder \<Rightarrow> nat \<Rightarrow> nat \<Rightarrow> geometry rust" where
  "geometry_of bl base stop = do {
     (locs, block_bytes) \<leftarrow> block_layout (b_cap_per_class bl);
     row \<leftarrow> slab_row (b_cap_per_class bl) [0..<NUM_CLASSES];
     Some \<lparr> geo_base = base, geo_shift = bit_len (max block_bytes 1 - 1), geo_cpus = b_num_cpus bl, geo_stop = stop,
            geo_locs = map (\<lambda>l. (header_off l, slots_off l)) locs, geo_caps = map capacity row \<rparr>
   }"

lemma locs_spec:
  "class_locs cap cs off = Some (locs, tot) \<Longrightarrow> slab_row cap cs = Some row \<Longrightarrow> tot < 2 ^ 32 \<Longrightarrow>
   length locs = length cs \<and> length row = length cs \<and> off \<le> tot \<and>
   (\<forall>k<length cs. header_off (locs ! k) = as_u32 (cs ! k * 8) \<and> off \<le> slots_off (locs ! k) \<and> slots_off (locs ! k) + 8 * capacity (row ! k) \<le> tot) \<and>
   (\<forall>k j. k < j \<and> j < length cs \<longrightarrow> slots_off (locs ! k) + 8 * capacity (row ! k) \<le> slots_off (locs ! j))"
proof (induction cs arbitrary: off locs row)
  case (Cons c cs)
  obtain n ls rs where n: "cap_for_class c cap = Some n" "class_locs cap cs (off + n * 8) = Some (ls, tot)" "slab_row cap cs = Some rs"
    "locs = \<lparr> header_off = as_u32 (c * HEADER_BYTES), lock_off = as_u32 (headers_bytes + c * 4), slots_off = as_u32 off \<rparr> # ls"
    "row = \<lparr> current = 0, capacity = n, slots = replicate n 0 \<rparr> # rs" using Cons.prems(1,2) by (auto split: bind_splits)
  note I = Cons.IH [OF n(2,3) Cons.prems(3)]
  have o: "as_u32 off = off" using I Cons.prems(3) by (simp add: as_u32_def)
  show ?case using I unfolding n(4,5)
    by (intro conjI allI impI) (auto simp: o HEADER_BYTES_def nth_Cons split: nat.splits)
qed simp

lemma bit_len_bounds: "n < 2 ^ bit_len n" "n < 2 ^ k \<Longrightarrow> bit_len n \<le> k"
proof -
  show "n < 2 ^ bit_len n"
  proof (induction n rule: bit_len.induct)
    case (1 n)
    show ?case
    proof (cases "n = 0")
      case False
      then have "n < 2 ^ bit_len (n div 2) * 2" using 1 by (simp add: div_less_iff_less_mult [symmetric])
      then show ?thesis using False by (simp add: bit_len.simps [of n])
    qed simp
  qed
  show "n < 2 ^ k \<Longrightarrow> bit_len n \<le> k"
  proof (induction n arbitrary: k rule: bit_len.induct)
    case (1 n)
    show ?case
    proof (cases "n = 0")
      case False
      then obtain j where "k = Suc j" using "1.prems" by (cases k) auto
      then show ?thesis using "1.IH" [OF False, of j] "1.prems" False by (simp add: bit_len.simps [of n])
    qed (simp add: bit_len.simps)
  qed
qed

text \<open>The offset of a cell in the block of its CPU.\<close>

fun offset :: "geometry \<Rightarrow> cell \<Rightarrow> nat" where
  "offset G (HdrC c k) = hoff G k"
| "offset G (CapC c k) = hoff G k + 4"
| "offset G (SlotC c k i) = soff G k + i * 8"
| "offset G (StopC c) = 0"

fun owner :: "cell \<Rightarrow> nat" where
  "owner (HdrC c k) = c"
| "owner (CapC c k) = c"
| "owner (SlotC c k i) = c"
| "owner (StopC c) = c"

definition is_stop :: "cell \<Rightarrow> bool" where
  "is_stop x \<longleftrightarrow> (\<exists>c. x = StopC c)"

lemma addr_offset: "\<not> is_stop x \<Longrightarrow> cell_addr G x = block_at G (owner x) + offset G x"
  by (cases x) (auto simp: cell_addr.simps is_stop_def)

text \<open>Disjointness in one block and room in the block give a well-formed geometry.\<close>

lemma geo_okI:
  assumes "geo_shift G < 64" "geo_cpus G < 2 ^ 32" "length (geo_caps G) = length (geo_locs G)" "\<forall>n\<in>set (geo_caps G). n < 2 ^ 32"
    and b: "geo_base G + geo_cpus G * 2 ^ geo_shift G \<le> 2 ^ 64" "geo_stop G + geo_cpus G * 128 \<le> 2 ^ 64"
      "geo_base G + geo_cpus G * 2 ^ geo_shift G \<le> geo_stop G \<or> geo_stop G + geo_cpus G * 128 \<le> geo_base G"
    and f: "\<And>x. cell_ok G x \<Longrightarrow> \<not> is_stop x \<Longrightarrow> offset G x + width x \<le> 2 ^ geo_shift G"
    and d: "\<And>x y. cell_ok G x \<Longrightarrow> cell_ok G y \<Longrightarrow> \<not> is_stop x \<Longrightarrow> \<not> is_stop y \<Longrightarrow> owner x = owner y \<Longrightarrow> x \<noteq> y \<Longrightarrow>
      offset G x + width x \<le> offset G y \<or> offset G y + width y \<le> offset G x"
  shows "geo_ok G"
proof -
  have ow: "owner x < geo_cpus G" if "cell_ok G x" for x using that by (cases x) simp_all
  have blk: "block_at G c + 2 ^ geo_shift G \<le> block_at G e" if "c < e" for c e
  proof -
    have "Suc c * 2 ^ geo_shift G \<le> e * 2 ^ geo_shift G" using that by (intro mult_le_mono1) simp
    then show ?thesis by (simp add: block_at_def)
  qed
  have en: "cell_addr G x + width x \<le> block_at G (owner x) + 2 ^ geo_shift G" "block_at G (owner x) \<le> cell_addr G x" if "cell_ok G x" "\<not> is_stop x" for x
    using f [OF that] addr_offset [OF that(2), of G] by simp_all
  have top: "block_at G c + 2 ^ geo_shift G \<le> geo_base G + geo_cpus G * 2 ^ geo_shift G" if "c < geo_cpus G" for c
    using blk [OF that] by (simp add: block_at_def)
  have st: "geo_stop G \<le> cell_addr G x" "cell_addr G x + width x \<le> geo_stop G + geo_cpus G * 128" if "cell_ok G x" "is_stop x" for x
    using that by (auto simp: is_stop_def cell_addr.simps STOP_SHIFT_def)
  have in_slab: "geo_base G \<le> cell_addr G x" "cell_addr G x + width x \<le> geo_base G + geo_cpus G * 2 ^ geo_shift G" if "cell_ok G x" "\<not> is_stop x" for x
    using en [OF that] top [OF ow [OF that(1)]] by (simp_all add: block_at_def)
  have hi: "cell_addr G x + width x \<le> 2 ^ 64" if "cell_ok G x" for x
    using st [OF that] in_slab [OF that] b(1,2) by (cases "is_stop x") linarith+
  have dj: "cell_addr G x + width x \<le> cell_addr G y \<or> cell_addr G y + width y \<le> cell_addr G x" if x: "cell_ok G x" "cell_ok G y" "x \<noteq> y" for x y
  proof (cases "is_stop x \<or> is_stop y")
    case True
    then consider "is_stop x" "is_stop y" | "is_stop x" "\<not> is_stop y" | "\<not> is_stop x" "is_stop y" by blast
    then show ?thesis
    proof cases
      case 1
      then obtain c e where "x = StopC c" "y = StopC e" "c \<noteq> e" using x(3) by (auto simp: is_stop_def)
      then show ?thesis by (auto simp: cell_addr.simps STOP_SHIFT_def)
    next
      case 2
      then show ?thesis using st [OF x(1)] in_slab [OF x(2)] b(3) by linarith
    next
      case 3
      then show ?thesis using st [OF x(2)] in_slab [OF x(1)] b(3) by linarith
    qed
  next
    case False
    then have n: "\<not> is_stop x" "\<not> is_stop y" by simp_all
    show ?thesis
    proof (cases "owner x = owner y")
      case True
      then show ?thesis using d [OF x(1,2) n True x(3)] addr_offset [OF n(1), of G] addr_offset [OF n(2), of G] by simp
    next
      case False
      then show ?thesis using blk [of "owner x" "owner y"] blk [of "owner y" "owner x"] en [OF x(1) n(1)] en [OF x(2) n(2)] by (cases "owner x < owner y") linarith+
    qed
  qed
  show ?thesis using assms(1-4) hi dj by (simp add: geo_ok_def)
qed

text \<open>Headers come first, eight bytes per class; the slot arrays follow one another.\<close>

definition tiled :: "geometry \<Rightarrow> nat \<Rightarrow> nat \<Rightarrow> bool" where
  "tiled G off bytes \<longleftrightarrow> (\<forall>k<length (geo_locs G). hoff G k = 8 * k \<and> 8 * length (geo_locs G) \<le> off \<and> off \<le> soff G k \<and> soff G k + 8 * geo_caps G ! k \<le> bytes) \<and>
     (\<forall>k j. k < j \<and> j < length (geo_locs G) \<longrightarrow> soff G k + 8 * geo_caps G ! k \<le> soff G j)"

lemma tiled_room: "tiled G off bytes \<Longrightarrow> off \<le> bytes \<Longrightarrow> cell_ok G x \<Longrightarrow> \<not> is_stop x \<Longrightarrow> offset G x + width x \<le> bytes"
  unfolding tiled_def by (cases x) (fastforce simp: is_stop_def)+

lemma tiled_apart:
  assumes t: "tiled G off bytes" and x: "cell_ok G x" "cell_ok G y" "\<not> is_stop x" "\<not> is_stop y" "owner x = owner y" "x \<noteq> y"
  shows "offset G x + width x \<le> offset G y \<or> offset G y + width y \<le> offset G x"
proof -
  have lo: "offset G z + width z \<le> off" if "cell_ok G z" "\<not> is_stop z" "\<forall>c j i. z \<noteq> SlotC c j i" for z
    using that t unfolding tiled_def by (cases z) (fastforce simp: is_stop_def)+
  have hi: "off \<le> offset G (SlotC c j i)" if "cell_ok G (SlotC c j i)" for c j i using that t by (force simp: tiled_def)
  consider c j i e l n where "x = SlotC c j i" "y = SlotC e l n" | c j i where "x = SlotC c j i" "\<forall>c j i. y \<noteq> SlotC c j i"
    | c j i where "y = SlotC c j i" "\<forall>c j i. x \<noteq> SlotC c j i" | "\<forall>c j i. x \<noteq> SlotC c j i" "\<forall>c j i. y \<noteq> SlotC c j i" by metis
  then show ?thesis
  proof cases
    case (1 c j i e l n)
    then have b: "c = e" "j < length (geo_locs G)" "l < length (geo_locs G)" "i < geo_caps G ! j" "n < geo_caps G ! l" using x by auto
    have m: "soff G p + 8 * geo_caps G ! p \<le> soff G q" if "p < q" "q < length (geo_locs G)" for p q using t that by (simp add: tiled_def)
    show ?thesis using m [of j l] m [of l j] b 1 x(6) by (cases j l rule: linorder_cases) auto
  next
    case (2 c j i)
    then show ?thesis using lo [OF x(2,4)] hi [of c j i] x(1) by simp
  next
    case (3 c j i)
    then show ?thesis using lo [OF x(1,3)] hi [of c j i] x(2) by simp
  next
    case 4
    then show ?thesis using x t by (cases x; cases y) (auto simp: is_stop_def tiled_def)
  qed
qed

lemma geometry_tiled:
  assumes "geometry_of bl base stop = Some G" "block_layout (b_cap_per_class bl) = Some (locs, bytes)" "bytes < 2 ^ 32"
  shows "\<exists>off\<le>bytes. tiled G off bytes" "length (geo_caps G) = length (geo_locs G)" "\<forall>n\<in>set (geo_caps G). n < 2 ^ 32"
    "geo_base G = base" "geo_stop G = stop" "geo_cpus G = b_num_cpus bl" "2 ^ geo_shift G = stride_for bytes" "geo_shift G < 64"
proof -
  obtain row where row: "slab_row (b_cap_per_class bl) [0..<NUM_CLASSES] = Some row"
    and G: "G = \<lparr> geo_base = base, geo_shift = bit_len (max bytes 1 - 1), geo_cpus = b_num_cpus bl, geo_stop = stop,
      geo_locs = map (\<lambda>l. (header_off l, slots_off l)) locs, geo_caps = map capacity row \<rparr>"
    using assms(1,2) by (auto simp: geometry_of_def split: bind_splits)
  define off where "off = (headers_bytes + NUM_CLASSES * 4 + 7) div 8 * 8"
  have L: "class_locs (b_cap_per_class bl) [0..<NUM_CLASSES] off = Some (locs, bytes)" using assms(2) by (simp add: block_layout_def off_def)
  note S = locs_spec [OF L row assms(3)]
  have o: "392 \<le> off" by (simp add: off_def headers_bytes_def HEADER_BYTES_def)
  have len: "length locs = 49" "length row = 49" using S by simp_all
  have t: "tiled G off bytes" using S len o by (simp add: tiled_def G hoff_def soff_def as_u32_def)
  moreover have "off \<le> bytes" using S by simp
  ultimately show "\<exists>off\<le>bytes. tiled G off bytes" by blast
  show "\<forall>n\<in>set (geo_caps G). n < 2 ^ 32"
  proof
    fix n assume "n \<in> set (geo_caps G)"
    then obtain k where "k < 49" "n = geo_caps G ! k" using len by (auto simp: G in_set_conv_nth)
    then have "soff G k + 8 * n \<le> bytes" using t len by (auto simp: tiled_def G)
    then show "n < 2 ^ 32" using assms(3) by simp
  qed
  have "max bytes 1 - 1 < 2 ^ 32" using assms(3) by (auto simp: max_def)
  from bit_len_bounds(2) [OF this] show "geo_shift G < 64" by (simp add: G)
  show "length (geo_caps G) = length (geo_locs G)" "geo_base G = base" "geo_stop G = stop" "geo_cpus G = b_num_cpus bl" "2 ^ geo_shift G = stride_for bytes"
    using len by (simp_all add: G stride_for_def)
qed

lemma stride_room: "bytes \<le> stride_for bytes"
  using bit_len_bounds(1) [of "max bytes 1 - 1"] by (simp add: stride_for_def)

lemma geometry_ok:
  assumes "geometry_of bl base stop = Some G" "block_layout (b_cap_per_class bl) = Some (locs, bytes)" "bytes < 2 ^ 32" "b_num_cpus bl < 2 ^ 32"
    and "base + b_num_cpus bl * stride_for bytes \<le> 2 ^ 64" "stop + b_num_cpus bl * 128 \<le> 2 ^ 64"
    and "base + b_num_cpus bl * stride_for bytes \<le> stop \<or> stop + b_num_cpus bl * 128 \<le> base"
  shows "geo_ok G"
proof -
  note T = geometry_tiled [OF assms(1-3)]
  obtain off where t: "tiled G off bytes" "off \<le> bytes" using T(1) by blast
  show ?thesis
    by (rule geo_okI) (use T assms(4-7) tiled_room [OF t] tiled_apart [OF t(1)] stride_room [of bytes] in \<open>auto intro: le_trans\<close>)
qed

end
