(* ===== verification/Rseq_Props.thy ===== *)
theory Rseq_Props
  imports Rseq_Run Rseq_Layout
begin

text \<open>
  The properties of the restartable sequences, with a machine of one CPU and one class on which
  they are instantiated.
\<close>

subsection \<open>A small machine\<close>

definition tiny_geo :: geometry where
  "tiny_geo = \<lparr> geo_base = 4096, geo_shift = 12, geo_cpus = 1, geo_stop = 0, geo_locs = [(0, 16)], geo_caps = [2] \<rparr>"

definition tiny_kernel :: "item list \<Rightarrow> nat \<Rightarrow> nat \<Rightarrow> thr \<Rightarrow> thr" where
  "tiny_kernel is cs c t = t\<lparr>cpu_id_start := c, cpu_id := c, rseq_cs_ptr := 0,
     pc := (if rseq_cs_ptr t = cs \<and> in_section is (pc t) then abort_ip (descriptor is) else pc t)\<rparr>"

definition tiny_regs :: "nat \<Rightarrow> reg \<Rightarrow> nat" where
  "tiny_regs q r = (case r of R_base \<Rightarrow> 4096 | R_ncpus \<Rightarrow> 1 | R_shift \<Rightarrow> 12 | R_slots_off \<Rightarrow> 16 | R_obj \<Rightarrow> q | R_status \<Rightarrow> 2 | R_loops \<Rightarrow> 5 | _ \<Rightarrow> 0)"

definition tiny_mem :: mem where
  "tiny_mem = (\<lambda>_. 0)(4100 := 2)"

definition tiny_thr :: thr where
  "tiny_thr = \<lparr> pc = 40, regs = tiny_regs 0, zf = False, hs = False, cpu_id_start = 0, cpu_id = 0, rseq_cs_ptr = 0 \<rparr>"

definition tiny_start :: machine where
  "tiny_start = \<lparr> mc_mem = tiny_mem, mc_thr = (\<lambda>_. tiny_thr), mc_op = (\<lambda>_. OpPop 0), mc_run = (\<lambda>_. None), mc_seized = {}, mc_commit = (\<lambda>_. None), mc_count = (\<lambda>_. 0) \<rparr>"

text \<open>Thread 0 runs on CPU 0 and has called the push of 777; then CPU 0 is seized.\<close>

definition tiny_called :: machine where
  "tiny_called = tiny_start\<lparr>mc_run := (\<lambda>_. None)(0 := Some 0), mc_thr := (\<lambda>_. tiny_thr)(0 := tiny_thr\<lparr>pc := 0, regs := tiny_regs 777\<rparr>),
     mc_op := (\<lambda>_. OpPop 0)(0 := OpPush 0 777)\<rparr>"

definition tiny_seized :: machine where
  "tiny_seized = tiny_called\<lparr>mc_mem := tiny_mem(0 := 1), mc_seized := {0}\<rparr>"

lemma tiny_cells: "cell_ok tiny_geo x \<longleftrightarrow> x = HdrC 0 0 \<or> x = CapC 0 0 \<or> x = StopC 0 \<or> x = SlotC 0 0 0 \<or> x = SlotC 0 0 1"
  by (cases x) (auto simp: tiny_geo_def less_2_cases_iff)

lemma tiny_addr: "cell_addr tiny_geo (HdrC 0 0) = 4096" "cell_addr tiny_geo (CapC 0 0) = 4100" "cell_addr tiny_geo (StopC 0) = 0" "cell_addr tiny_geo (SlotC 0 0 i) = 4112 + i * 8"
  by (simp_all add: cell_addr.simps tiny_geo_def block_at_def hoff_def soff_def)

lemma tiny_ok: "geo_ok tiny_geo"
  unfolding geo_ok_def tiny_cells by (auto simp: tiny_addr) (auto simp: tiny_geo_def)

lemma tiny_sel: "geo_cpus tiny_geo = 1" "length (geo_locs tiny_geo) = 1" "geo_caps tiny_geo ! 0 = 2" "geo_base tiny_geo = 4096" "geo_shift tiny_geo = 12" "geo_stop tiny_geo = 0"
  "hoff tiny_geo 0 = 0" "soff tiny_geo 0 = 16"
  by (simp_all add: tiny_geo_def hoff_def soff_def)

lemma tiny_mem_ok: "mem_ok tiny_geo tiny_mem" "mem_ok tiny_geo (tiny_mem(0 := 1))"
  by (auto simp: mem_ok_def stack_fits_def tiny_sel tiny_addr tiny_mem_def)

lemma tiny_kernel_ok: "rseq_kernel tiny_kernel"
  by (simp add: rseq_kernel_def resumed_def tiny_kernel_def)

lemma tiny_args: "args_ok tiny_geo (OpPush 0 q) (tiny_regs q)" "args_ok tiny_geo (OpPop 0) (tiny_regs q)" "q < 2 ^ 64 \<Longrightarrow> call_ok tiny_geo (OpPush 0 q)" "call_ok tiny_geo (OpPop 0)"
  by (simp_all add: args_simps tiny_regs_def call_ok_def op_class_def tiny_sel)

lemma tiny_started: "started A64 tiny_geo tiny_start"
  using tiny_mem_ok(1) tiny_args(2,4) by (simp add: started_def tiny_start_def tiny_thr_def finished_def tiny_regs_def)

lemma tiny_kernel_idle: "pc t = 40 \<or> pc t = 0 \<Longrightarrow> cpu_id t = 0 \<Longrightarrow> cpu_id_start t = 0 \<Longrightarrow> rseq_cs_ptr t = 0 \<Longrightarrow> tiny_kernel (code A64 p) 64 0 t = t"
  by (simp add: tiny_kernel_def)

lemma tiny_reach: "(mstep tiny_kernel A64 64 tiny_geo)\<^sup>*\<^sup>* tiny_start tiny_called"
proof -
  let ?M = "tiny_start\<lparr>mc_run := (mc_run tiny_start)(0 := Some 0), mc_thr := (mc_thr tiny_start)(0 := tiny_kernel (code A64 (mc_op tiny_start 0)) 64 0 (mc_thr tiny_start 0))\<rparr>"
  have 1: "mstep tiny_kernel A64 64 tiny_geo tiny_start ?M" by (rule mstep.switch_in) (simp_all add: tiny_start_def)
  have M: "?M = tiny_start\<lparr>mc_run := (\<lambda>_. None)(0 := Some 0)\<rparr>"
    using tiny_kernel_idle [of tiny_thr "OpPop 0"] by (simp add: tiny_start_def tiny_thr_def fun_upd_idem)
  have "mstep tiny_kernel A64 64 tiny_geo ?M tiny_called" unfolding M
    using mstep.call [of "tiny_start\<lparr>mc_run := (\<lambda>_. None)(0 := Some 0)\<rparr>" 0 0 A64 tiny_geo "OpPush 0 777" "tiny_regs 777" tiny_kernel 64] tiny_args(1,3) [of 777]
    by (simp add: tiny_start_def tiny_called_def tiny_thr_def finished_def tiny_regs_def fun_upd_idem)
  then show ?thesis using 1 by (meson rtranclp.rtrancl_refl rtranclp.rtrancl_into_rtrancl)
qed

lemma tiny_seize: "(mstep tiny_kernel A64 64 tiny_geo)\<^sup>*\<^sup>* tiny_start tiny_seized"
proof -
  let ?M = "tiny_called\<lparr>mc_mem := (mc_mem tiny_called)(cell_addr tiny_geo (StopC 0) := 1), mc_seized := (if (1::nat) = 0 then mc_seized tiny_called - {0} else mc_seized tiny_called)\<rparr>"
  have 1: "mstep tiny_kernel A64 64 tiny_geo tiny_called ?M" by (rule mstep.set_flag) (simp_all add: tiny_sel)
  have M: "?M = tiny_called\<lparr>mc_mem := tiny_mem(0 := 1)\<rparr>" by (simp add: tiny_addr tiny_called_def tiny_start_def)
  have k: "tiny_kernel (code A64 (OpPush 0 777)) 64 0 (tiny_thr\<lparr>pc := 0, regs := tiny_regs 777\<rparr>) = tiny_thr\<lparr>pc := 0, regs := tiny_regs 777\<rparr>"
    by (rule tiny_kernel_idle) (simp_all add: tiny_thr_def)
  have "mstep tiny_kernel A64 64 tiny_geo ?M tiny_seized" unfolding M
    using mstep.barrier [of 0 tiny_geo tiny_kernel A64 64 "tiny_called\<lparr>mc_mem := tiny_mem(0 := 1)\<rparr>"] k
    by (simp add: tiny_sel tiny_addr tiny_called_def tiny_start_def tiny_seized_def)
  then show ?thesis using tiny_reach 1 by (meson rtranclp.rtrancl_into_rtrancl)
qed

subsection \<open>Properties\<close>

text \<open>
  C11. The sequences are atomic. In every state of a machine with any number of threads that the
  kernel switches, migrates and interrupts at any instruction, the committing store of a running
  thread is exactly the pop or push of the slab on its CPU, which is not seized, with the object
  that the thread holds in its result register; every other instruction leaves the contents of all
  stacks alone.
\<close>

theorem rseq_section_atomic:
  assumes "geo_ok G" "cs < 2 ^ 64" "rseq_kernel K" "started a G M0" "(mstep K a cs G)\<^sup>*\<^sup>* M0 M"
    and "mc_run M c = Some i" "pc (mc_thr M i) < length (code a (mc_op M i))" "exec1 (code a (mc_op M i)) cs (mc_mem M, mc_thr M i) = (m', t')"
  shows "if pc (mc_thr M i) = commit_pc (code a (mc_op M i))
    then c \<notin> mc_seized M \<and> (case mc_op M i of
        OpPop k \<Rightarrow> asm_pop (awake c (slab_of G (mc_mem M))) (on_cpu c) k = Some (awake c (slab_of G m'), ROk (regs (mc_thr M i) R_obj) c)
      | OpPush k q \<Rightarrow> asm_push (awake c (slab_of G (mc_mem M))) (on_cpu c) k q = Some (awake c (slab_of G m'), ROk 0 c))
    else \<forall>d<geo_cpus G. \<forall>k<length (geo_locs G). contents (stack_of G m' d k) = contents (stack_of G (mc_mem M) d k)"
proof -
  have M: "minv a cs G M" by (rule msteps_inv [OF assms(5,1-4)])
  note q = minv_parts [OF M] and o = instr_ok [OF assms(1,2) M assms(6-8)]
  show ?thesis
  proof (cases "pc (mc_thr M i) = commit_pc (code a (mc_op M i))")
    case True
    obtain d v where dv: "commit_value (mc_op M i) (mc_thr M i) = (d, v)" by fastforce
    have "outcome G (mc_op M i) c (c \<in> mc_seized M) (mc_mem M) m' None (Some (d, v))"
      using o(1) commit_fresh [OF q(4) [OF assms(6)] True] True dv by (simp add: commit_of_def)
    then show ?thesis using commit_atomic [OF assms(1) q(1,2)] True dv by (cases "mc_op M i") (fastforce simp: commit_value_def)+
  next
    case False
    then show ?thesis using scratch_contents [OF assms(1) q(2)] o(1) by (simp add: commit_of_def)
  qed
qed

theorem rseq_section_atomic_witness:
  "(mstep tiny_kernel A64 64 tiny_geo)\<^sup>*\<^sup>* tiny_start tiny_called \<and> mc_run tiny_called 0 = Some 0 \<and>
   contents (stack_of tiny_geo (fst (exec1 push_a64 64 (mc_mem tiny_called, mc_thr tiny_called 0))) 0 0) = []"
proof -
  let ?s = "exec1 (code A64 (mc_op tiny_called 0)) 64 (mc_mem tiny_called, mc_thr tiny_called 0)"
  have r: "mc_run tiny_called 0 = Some 0" "mc_op tiny_called 0 = OpPush 0 777" "pc (mc_thr tiny_called 0) = 0" "mc_mem tiny_called = tiny_mem"
    by (simp_all add: tiny_called_def tiny_start_def)
  have "contents (stack_of tiny_geo (fst ?s) 0 0) = contents (stack_of tiny_geo (mc_mem tiny_called) 0 0)"
    using rseq_section_atomic [OF tiny_ok _ tiny_kernel_ok tiny_started tiny_reach r(1), of "fst ?s" "snd ?s"] r by (simp add: tiny_sel commit_pc_def push_a64_targets)
  then show ?thesis using tiny_reach r by (simp add: contents_def stack_of_def tiny_addr tiny_mem_def)
qed

text \<open>
  C12. A seized CPU is left alone by the restartable sequences. Once the stop flag of a CPU is set and
  the barrier has returned, no instruction of a restartable sequence of any thread writes to a stack of
  that CPU, until the flag is cleared. The machine runs the four sequences only; the locked slow path
  is not among its instructions, and does not honour the seizure: \<open>locked_push_races\<close> of \<open>Supervisor\<close>
  shows a thread past its stop test writing to a stopped stack.
\<close>

theorem rseq_seize_excludes:
  assumes "geo_ok G" "cs < 2 ^ 64" "rseq_kernel K" "started a G M0" "(mstep K a cs G)\<^sup>*\<^sup>* M0 M" "c \<in> mc_seized M"
    and "mc_run M d = Some i" "pc (mc_thr M i) < length (code a (mc_op M i))" "exec1 (code a (mc_op M i)) cs (mc_mem M, mc_thr M i) = (m', t')"
    and "cell_ok G x" "stack_cell c x"
  shows "m' (cell_addr G x) = mc_mem M (cell_addr G x)"
proof -
  have M: "minv a cs G M" by (rule msteps_inv [OF assms(5,1-4)])
  note q = minv_parts [OF M] and o = instr_ok [OF assms(1,2) M assms(7-9)]
  show ?thesis using assms(6,11) by (intro outcome_elsewhere [OF assms(1) q(1,2) o(1) assms(10)]) (auto simp: stack_cell_def split: cell.splits)
qed

theorem rseq_seize_excludes_witness:
  "0 \<in> mc_seized tiny_seized \<and> fst (exec1 push_a64 64 (mc_mem tiny_seized, mc_thr tiny_seized 0)) (cell_addr tiny_geo (HdrC 0 0)) = 0"
proof -
  let ?s = "exec1 (code A64 (mc_op tiny_seized 0)) 64 (mc_mem tiny_seized, mc_thr tiny_seized 0)"
  have r: "mc_run tiny_seized 0 = Some 0" "mc_op tiny_seized 0 = OpPush 0 777" "pc (mc_thr tiny_seized 0) = 0" "mc_mem tiny_seized = tiny_mem(0 := 1)" "0 \<in> mc_seized tiny_seized"
    by (simp_all add: tiny_seized_def tiny_called_def tiny_start_def)
  have "fst ?s (cell_addr tiny_geo (HdrC 0 0)) = mc_mem tiny_seized (cell_addr tiny_geo (HdrC 0 0))"
    using rseq_seize_excludes [OF tiny_ok _ tiny_kernel_ok tiny_started tiny_seize r(5,1), of "fst ?s" "snd ?s" "HdrC 0 0"] tiny_cells [of "HdrC 0 0"] r by (simp add: stack_cell_def del: cell_ok.simps fun_upd_apply)
  then show ?thesis using r by (simp add: tiny_addr tiny_mem_def)
qed

text \<open>
  C13. Calls are wait-free and report what they did. Whatever the kernel, the other threads and the
  supervisor do, a call executes at most 263 instructions; and when it has returned, it reports an object
  or success, with the CPU, exactly if it has committed, with that object on that CPU.
\<close>

theorem rseq_calls_return:
  assumes "geo_ok G" "cs < 2 ^ 64" "rseq_kernel K" "started a G M0" "(mstep K a cs G)\<^sup>*\<^sup>* M0 M"
  shows "mc_count M i \<le> 263 \<and> (finished a (mc_op M i) (mc_thr M i) \<longrightarrow>
    (case mc_commit M i of Some (d, v) \<Rightarrow> result_of (mc_op M i) (mc_thr M i) = ROk v d | None \<Rightarrow> result_of (mc_op M i) (mc_thr M i) \<in> {RNeedsSlow, RFallback}))"
proof -
  have M: "minv a cs G M" by (rule msteps_inv [OF assms(5,1-4)])
  have "mc_count M i \<le> 263" using msteps_rank [OF assms(5,1-4)] by (meson add_leD1)
  moreover have "case mc_commit M i of Some (d, v) \<Rightarrow> result_of (mc_op M i) (mc_thr M i) = ROk v d | None \<Rightarrow> result_of (mc_op M i) (mc_thr M i) \<in> {RNeedsSlow, RFallback}"
    if f: "finished a (mc_op M i) (mc_thr M i)"
  proof -
    obtain fz m where "at_pc a G cs (mc_op M i) fz (mc_commit M i) m (mc_thr M i)" using minv_parts(5) [OF M] by blast
    then have "over G (case mc_op M i of OpPop k \<Rightarrow> obj_reg | OpPush k q \<Rightarrow> no_obj) fz (mc_commit M i) m (mc_thr M i)" using f by (simp add: at_pc_def finished_def last_asn)
    moreover have "geo_cpus G < 2 ^ 32" using assms(1) by (simp add: geo_ok_def)
    ultimately show ?thesis by (cases "mc_op M i"; cases "mc_commit M i") (auto simp: over_def)
  qed
  ultimately show ?thesis by blast
qed

theorem rseq_calls_return_witness:
  "(mstep tiny_kernel A64 64 tiny_geo)\<^sup>*\<^sup>* tiny_start tiny_called \<and> mc_count tiny_called 0 \<le> 263 \<and> result_of (mc_op tiny_called 1) (mc_thr tiny_called 1) \<in> {RNeedsSlow, RFallback}"
  using rseq_calls_return [OF tiny_ok _ tiny_kernel_ok tiny_started tiny_reach, of 0] rseq_calls_return [OF tiny_ok _ tiny_kernel_ok tiny_started tiny_reach, of 1] tiny_reach
  by (simp add: tiny_called_def tiny_start_def finished_def tiny_thr_def)

text \<open>
  C14. The instruction sequences implement the model. A call that is not interrupted on a CPU runs to its
  end, and its result and its effect on the slab are those of the one-step operation, on every
  branch and on both architectures.
\<close>

theorem rseq_uninterrupted:
  assumes "geo_ok G" "cs < 2 ^ 64" "mem_ok G m" "call_ok G p" "args_ok G p r" "r R_loops = 5" "c < 2 ^ 32" "cpu_id t = c" "cpu_id_start t = c"
  shows "\<exists>n m' t'. (exec1 (code a p) cs ^^ n) (m, t\<lparr>pc := 0, regs := r\<rparr>) = (m', t') \<and> finished a p t' \<and>
    (case p of OpPop k \<Rightarrow> asm_pop (slab_of G m) (on_cpu c) k | OpPush k q \<Rightarrow> asm_push (slab_of G m) (on_cpu c) k q) = Some (slab_of G m', result_of p t')"
proof -
  have "leads (code a p) cs (m, t\<lparr>pc := 0, regs := r\<rparr>) (ends p (code a p) (fst (plain_run G p c m)) (snd (plain_run G p c m)))"
    using assms pop_a64_runs push_a64_runs pop_x64_runs push_x64_runs by (cases a; cases p) (auto simp: call_ok_def op_class_def)
  then obtain n where "ends p (code a p) (fst (plain_run G p c m)) (snd (plain_run G p c m)) ((exec1 (code a p) cs ^^ n) (m, t\<lparr>pc := 0, regs := r\<rparr>))"
    unfolding leads_def by blast
  then show ?thesis using plain_run_slab [OF assms(1,3,4), of c] by (intro exI [of _ n]) (auto simp: ends_def finished_def prod_eq_iff)
qed

theorem rseq_uninterrupted_witness:
  "\<exists>n m' t'. (exec1 push_x64 64 ^^ n) (tiny_mem, tiny_thr\<lparr>pc := 0, regs := tiny_regs 777\<rparr>) = (m', t') \<and>
     asm_push (slab_of tiny_geo tiny_mem) (on_cpu 0) 0 777 = Some (slab_of tiny_geo m', result_of (OpPush 0 777) t')"
proof -
  have r: "tiny_regs 777 R_loops = 5" "cpu_id tiny_thr = 0" "cpu_id_start tiny_thr = 0" by (simp_all add: tiny_regs_def tiny_thr_def)
  show ?thesis using rseq_uninterrupted [OF tiny_ok _ tiny_mem_ok(1) tiny_args(3) [of 777] tiny_args(1) r(1) _ r(2,3), of 64 X64]
    by (simp del: result_of.simps) blast
qed

text \<open>
  C15. The layout of a sub-heap: the headers and slots that the builder gives to all CPUs and all
  classes, and the stop flags, are disjoint ranges of bytes, whatever the capacity and the number of
  CPUs, as long as a block is below 4 GiB and the flags lie outside the slab.
\<close>

theorem slab_cells_disjoint:
  assumes "geometry_of bl base stop = Some G" "block_layout (b_cap_per_class bl) = Some (locs, bytes)" "bytes < 2 ^ 32" "b_num_cpus bl < 2 ^ 32"
    and "base + b_num_cpus bl * stride_for bytes \<le> 2 ^ 64" "stop + b_num_cpus bl * 128 \<le> 2 ^ 64"
    and "base + b_num_cpus bl * stride_for bytes \<le> stop \<or> stop + b_num_cpus bl * 128 \<le> base"
    and "cell_ok G x" "cell_ok G y" "x \<noteq> y"
  shows "cell_addr G x + width x \<le> cell_addr G y \<or> cell_addr G y + width y \<le> cell_addr G x"
  using geometry_ok [OF assms(1-7)] assms(8-10) by (simp add: geo_ok_def)

theorem slab_cells_disjoint_witness:
  "\<exists>G. geometry_of demo_builder 65536 0 = Some G \<and>
     (cell_addr G (HdrC 0 0) + 4 \<le> cell_addr G (CapC 0 0) \<or> cell_addr G (CapC 0 0) + 4 \<le> cell_addr G (HdrC 0 0))"
proof -
  have "map_option snd (block_layout 8) = Some 3728" unfolding block_layout_def
    by (subst class_locs8) (simp_all add: headers_bytes_def HEADER_BYTES_def)
  then obtain locs where l: "block_layout 8 = Some (locs, 3728)" by auto
  obtain row where row: "slab_row 8 [0..<NUM_CLASSES] = Some row" using slab_row_empty [of "[0..<NUM_CLASSES]" 8] by auto
  obtain G where G: "geometry_of demo_builder 65536 0 = Some G" using l row by (simp add: geometry_of_def demo_builder_def)
  have s: "stride_for 3728 = 4096" by (simp add: stride_for_def bit_len.simps)
  have "length locs = 49" using l locs_spec [of 8 "[0..<NUM_CLASSES]" _ locs 3728 row] row unfolding block_layout_def by simp
  then have "cell_ok G (HdrC 0 0)" "cell_ok G (CapC 0 0)" using G l row by (auto simp: geometry_of_def demo_builder_def)
  then show ?thesis using slab_cells_disjoint [OF G, of locs 3728 "HdrC 0 0" "CapC 0 0"] l s G by (simp add: demo_builder_def)
qed

end
