(* ===== verification/Rseq_Abi_Correct.thy ===== *)
theory Rseq_Abi_Correct
  imports Rseq_Abi Rseq_Props
begin

text \<open>
  The areas of threads over all histories of lookups, ends of threads and writes of the kernel, and
  the sequences that run on an area whose registration failed.
\<close>

subsection \<open>Invariant\<close>

text \<open>
  A registered area of a slot belongs to the thread of the slot; an area whose registration failed is
  poisoned and unknown to the kernel; every area that the kernel knows is live.
\<close>

definition poisoned :: "kmem \<Rightarrow> nat \<Rightarrow> bool" where
  "poisoned k p \<longleftrightarrow> (\<forall>i. kreg k i \<noteq> Some p) \<and> (\<exists>a. areas k p = Some a \<and> ra_cpu_id_start a = CPU_UNREGISTERED)"

definition area_owner :: "kmem \<Rightarrow> nat \<Rightarrow> nat \<Rightarrow> bool" where
  "area_owner k i p \<longleftrightarrow> (\<forall>j. kreg k j = Some p \<longleftrightarrow> j = i)"

definition kmem_ok :: "nat set \<Rightarrow> kmem \<Rightarrow> bool" where
  "kmem_ok G k \<longleftrightarrow> finite (dom (areas k)) \<and> G \<subseteq> dom (areas k) \<and> (\<forall>i p. kreg k i = Some p \<longrightarrow> p \<in> dom (areas k))"

definition boxes_ok :: "nat set \<Rightarrow> kmem \<Rightarrow> rseq_storage plocal \<Rightarrow> bool" where
  "boxes_ok G k w \<longleftrightarrow> (\<forall>b st. tls_blocks w b = Some st \<longrightarrow> st_slot st \<in> dom (areas k) - G \<and>
     (\<forall>b' st'. tls_blocks w b' = Some st' \<longrightarrow> st_slot st' = st_slot st \<longrightarrow> b' = b) \<and> (\<not> st_registered st \<longrightarrow> poisoned k (st_slot st)))"

definition owners_ok :: "kmem \<Rightarrow> rseq_storage plocal \<Rightarrow> bool" where
  "owners_ok k w \<longleftrightarrow> (\<forall>i key st. specific w i key \<noteq> 0 \<longrightarrow> tls_blocks w (specific w i key) = Some st \<longrightarrow> st_registered st \<longrightarrow> area_owner k i (st_slot st))"

definition abi_inv :: "platform \<Rightarrow> nat set \<Rightarrow> abi_state \<Rightarrow> bool" where
  "abi_inv P G A \<longleftrightarrow> slots_ok (self_rseq A) \<and> kmem_ok G (km A) \<and> boxes_ok G (km A) (self_rseq A) \<and> owners_ok (km A) (self_rseq A) \<and>
     (rseq_offset A = I64_MIN \<or> rseq_offset A = I64_MAX \<and> published P = None \<or> published P = Some (rseq_offset A))"

lemma sys_rseqD:
  assumes "platform_ok P k0" "sys_rseq P i p f k = (ok, k')"
  shows "dom (areas k') = dom (areas k)" "q \<noteq> p \<Longrightarrow> areas k' q = areas k q" "\<not> ok \<Longrightarrow> k' = k"
    "f = 0 \<Longrightarrow> ok \<Longrightarrow> kreg k i = None \<and> kreg k' = (kreg k)(i := Some p)" "f = 1 \<Longrightarrow> ok \<Longrightarrow> kreg k' = (kreg k)(i := None)" "f = 1 \<Longrightarrow> kreg k i = Some p \<Longrightarrow> ok"
proof -
  have "sys_rseq_ok P" using assms(1) by (simp add: platform_ok_def)
  note S = this [unfolded sys_rseq_ok_def, rule_format, OF assms(2)]
  show "dom (areas k') = dom (areas k)" "q \<noteq> p \<Longrightarrow> areas k' q = areas k q" "\<not> ok \<Longrightarrow> k' = k"
    "f = 0 \<Longrightarrow> ok \<Longrightarrow> kreg k i = None \<and> kreg k' = (kreg k)(i := Some p)" "f = 1 \<Longrightarrow> ok \<Longrightarrow> kreg k' = (kreg k)(i := None)" "f = 1 \<Longrightarrow> kreg k i = Some p \<Longrightarrow> ok"
    using S by blast+
qed

lemma register_cases:
  assumes "platform_ok P k0" "kmem_ok G k" "register P i k = (st, k')"
  shows "st_slot st \<notin> dom (areas k)" "dom (areas k') = insert (st_slot st) (dom (areas k))" "q \<noteq> st_slot st \<Longrightarrow> areas k' q = areas k q"
    "kreg k' = (if st_registered st then (kreg k)(i := Some (st_slot st)) else kreg k)" "st_registered st \<Longrightarrow> area_owner k' i (st_slot st)"
    "\<not> st_registered st \<Longrightarrow> poisoned k' (st_slot st)" "st_registered st \<Longrightarrow> kreg k i = None" "kmem_ok G k'"
proof -
  let ?p = "box_at P (dom (areas k))"
  obtain ok k1 where s: "sys_rseq P i ?p 0 (k\<lparr>areas := (areas k)(?p \<mapsto> rseq_zeroed)\<rparr>) = (ok, k1)" by fastforce
  have f: "?p \<notin> dom (areas k)" using assms(1,2) by (simp add: platform_ok_def kmem_ok_def)
  have n: "kreg k j \<noteq> Some ?p" for j using f assms(2) by (auto simp: kmem_ok_def)
  have S: "dom (areas k1) = insert ?p (dom (areas k))" "q \<noteq> ?p \<Longrightarrow> areas k1 q = areas k q" "\<not> ok \<Longrightarrow> areas k1 = (areas k)(?p \<mapsto> rseq_zeroed) \<and> kreg k1 = kreg k"
    "ok \<Longrightarrow> kreg k i = None \<and> kreg k1 = (kreg k)(i := Some ?p)" for q
    using sys_rseqD [OF assms(1) s] by simp_all
  have st: "st_slot st = ?p" "st_registered st = ok" using assms(3) s by (auto simp: register_def Let_def split: if_splits)
  have k': "areas k' = (if ok then areas k1 else (areas k)(?p \<mapsto> rseq_zeroed\<lparr>ra_cpu_id_start := CPU_UNREGISTERED\<rparr>))" "kreg k' = kreg k1"
    using assms(3) s S(3) by (auto simp: register_def Let_def split: if_splits)
  show "st_slot st \<notin> dom (areas k)" "q \<noteq> st_slot st \<Longrightarrow> areas k' q = areas k q" "st_registered st \<Longrightarrow> kreg k i = None" using f st k' S by simp_all
  show d: "dom (areas k') = insert (st_slot st) (dom (areas k))" using st k' S(1) by simp
  show kr: "kreg k' = (if st_registered st then (kreg k)(i := Some (st_slot st)) else kreg k)" using st k' S(3,4) by (cases ok) simp_all
  show "st_registered st \<Longrightarrow> area_owner k' i (st_slot st)" "\<not> st_registered st \<Longrightarrow> poisoned k' (st_slot st)" using n kr st k' by (auto simp: area_owner_def poisoned_def)
  show "kmem_ok G k'" using assms(2) d kr unfolding kmem_ok_def by (auto split: if_splits)
qed

lemma drop_cases:
  assumes "platform_ok P k0" "kmem_ok G k" "st_registered st \<Longrightarrow> area_owner k i (st_slot st)" "\<not> st_registered st \<Longrightarrow> poisoned k (st_slot st)" "st_slot st \<notin> G"
  shows "areas (storage_drop P i st k) (st_slot st) = None" "q \<noteq> st_slot st \<Longrightarrow> areas (storage_drop P i st k) q = areas k q"
    "kreg (storage_drop P i st k) = (if st_registered st then (kreg k)(i := None) else kreg k)" "kmem_ok G (storage_drop P i st k)"
proof -
  obtain ok k1 where s: "sys_rseq P i (st_slot st) 1 k = (ok, k1)" by fastforce
  have S: "dom (areas k1) = dom (areas k)" "q \<noteq> st_slot st \<Longrightarrow> areas k1 q = areas k q" "st_registered st \<Longrightarrow> kreg k1 = (kreg k)(i := None)" for q
    using sys_rseqD [OF assms(1) s] assms(3) by (simp_all add: area_owner_def)
  let ?k = "storage_drop P i st k"
  show n: "areas ?k (st_slot st) = None" by (simp add: storage_drop_def Let_def)
  have a: "areas ?k q = areas k q" if "q \<noteq> st_slot st" for q using that s S by (simp add: storage_drop_def Let_def)
  then show "q \<noteq> st_slot st \<Longrightarrow> areas ?k q = areas k q" .
  show r: "kreg ?k = (if st_registered st then (kreg k)(i := None) else kreg k)" using s S by (simp add: storage_drop_def Let_def)
  have "dom (areas ?k) = dom (areas k) - {st_slot st}" using n a by (auto simp: dom_def) (metis option.distinct(1))
  then show "kmem_ok G ?k" using assms(2-5) r unfolding kmem_ok_def area_owner_def poisoned_def by (auto split: if_splits)
qed

text \<open>A slot that is created or dropped leaves the areas of the others alone.\<close>

lemma boxes_fresh:
  assumes "boxes_ok G k w" "b \<notin> dom (tls_blocks w)" "st_slot st \<notin> dom (areas k)" "\<And>q. q \<noteq> st_slot st \<Longrightarrow> areas k' q = areas k q" "st_slot st \<in> dom (areas k') - G"
    and "\<And>i q. q \<noteq> st_slot st \<Longrightarrow> kreg k' i = Some q \<Longrightarrow> kreg k i = Some q" "\<not> st_registered st \<Longrightarrow> poisoned k' (st_slot st)" "tls_blocks w' = (tls_blocks w)(b \<mapsto> st)"
  shows "boxes_ok G k' w'"
proof -
  note B = assms(1) [unfolded boxes_ok_def, rule_format]
  have o: "st_slot s \<noteq> st_slot st" "st_slot s \<in> dom (areas k') - G" "\<not> st_registered s \<Longrightarrow> poisoned k' (st_slot s)" if s: "tls_blocks w c = Some s" for c s
  proof -
    show n: "st_slot s \<noteq> st_slot st" using B [OF s] assms(3) by auto
    show "st_slot s \<in> dom (areas k') - G" using B [OF s] assms(4) [OF n] by auto
    show "\<not> st_registered s \<Longrightarrow> poisoned k' (st_slot s)" using B [OF s] assms(4,6) [OF n] unfolding poisoned_def by metis
  qed
  show ?thesis unfolding boxes_ok_def assms(8)
  proof (intro allI impI)
    fix c s assume c: "((tls_blocks w)(b \<mapsto> st)) c = Some s"
    show "st_slot s \<in> dom (areas k') - G \<and> (\<forall>b' st'. ((tls_blocks w)(b \<mapsto> st)) b' = Some st' \<longrightarrow> st_slot st' = st_slot s \<longrightarrow> b' = c) \<and> (\<not> st_registered s \<longrightarrow> poisoned k' (st_slot s))"
    proof (cases "c = b")
      case True
      then show ?thesis using c assms(5,7) o(1) by (auto split: if_splits)
    next
      case False
      then show ?thesis using c o B by (auto split: if_splits) (metis assms(2))?
    qed
  qed
qed

lemma boxes_gone:
  assumes "boxes_ok G k w" "tls_blocks w b = Some st" "\<And>q. q \<noteq> st_slot st \<Longrightarrow> areas k' q = areas k q"
    and "\<And>i q. kreg k' i = Some q \<Longrightarrow> kreg k i = Some q" "tls_blocks w' = (tls_blocks w)(b := None)"
  shows "boxes_ok G k' w'"
proof -
  note B = assms(1) [unfolded boxes_ok_def, rule_format]
  have "st_slot s \<in> dom (areas k') - G \<and> (\<forall>b' st'. tls_blocks w' b' = Some st' \<longrightarrow> st_slot st' = st_slot s \<longrightarrow> b' = c) \<and> (\<not> st_registered s \<longrightarrow> poisoned k' (st_slot s))"
    if "tls_blocks w' c = Some s" for c s
  proof -
    have c: "c \<noteq> b" "tls_blocks w c = Some s" using that assms(5) by (auto split: if_splits)
    have n: "st_slot s \<noteq> st_slot st" using B [OF c(2)] assms(2) c(1) by metis
    have "poisoned k' (st_slot s)" if "poisoned k (st_slot s)" using that assms(3) [OF n] assms(4) unfolding poisoned_def by metis
    then show ?thesis using B [OF c(2)] assms(3) [OF n] assms(5) by (auto split: if_splits)
  qed
  then show ?thesis unfolding boxes_ok_def by blast
qed

lemma self_keeps:
  assumes P: "platform_ok P k0" and lc: "libc_ok lc" and A: "abi_inv P (dom (areas k0)) A"
  shows "\<exists>A' r. self_registered_rseq P lc i A = Some (A', r) \<and> abi_inv P (dom (areas k0)) A' \<and>
    (case r of Inl m \<Rightarrow> m = NO_TLS | Inr p \<Rightarrow> p \<in> dom (areas (km A')) \<and> (area_owner (km A') i p \<or> poisoned (km A') p))"
proof -
  let ?G = "dom (areas k0)" and ?k = "km A" and ?w = "self_rseq A"
  have I: "slots_ok ?w" "kmem_ok ?G ?k" "boxes_ok ?G ?k ?w" "owners_ok ?k ?w" using A by (simp_all add: abi_inv_def)
  note B = I(3) [unfolded boxes_ok_def, rule_format] and O = I(4) [unfolded owners_ok_def, rule_format]
  from I(1) lc show ?thesis
  proof (cases rule: pl_with_cases [where al = 8 and sz = 16 and init = "register P i" and i = i and f = "\<lambda>st. (st_slot st, st)" and s = ?k])
    case (abort w')
    then have "abi_inv P ?G (A\<lparr>self_rseq := w'\<rparr>)" using A by (simp add: abi_inv_def boxes_ok_def owners_ok_def)
    then show ?thesis using abort(1) by (simp add: self_registered_rseq_def)
  next
    case (found w' p v)
    have w: "tls_blocks w' = tls_blocks ?w" using found by (simp add: fun_upd_idem)
    then have "abi_inv P ?G (A\<lparr>self_rseq := w'\<rparr>)" using A found by (simp add: abi_inv_def boxes_ok_def owners_ok_def)
    moreover have "st_slot v \<in> dom (areas ?k)" "area_owner ?k i (st_slot v) \<or> poisoned ?k (st_slot v)"
      using conjunct1 [OF B [OF found(5)]] conjunct2 [OF conjunct2 [OF B [OF found(5)]]] O [of i "key_cell w'" v] found(3-5) by (blast, metis)
    ultimately show ?thesis using found(1) by (simp add: self_registered_rseq_def)
  next
    case (fresh w' k' b st)
    note R = register_cases [OF P I(2) fresh(5)]
    have nG: "st_slot st \<notin> ?G" using R(1) I(2) by (auto simp: kmem_ok_def)
    have "boxes_ok ?G k' w'" by (rule boxes_fresh [OF I(3) fresh(4) R(1) R(3)]) (use R fresh(6) nG in \<open>auto split: if_splits\<close>)
    moreover have "owners_ok k' w'" unfolding owners_ok_def
    proof (intro allI impI)
      fix j key s assume s: "specific w' j key \<noteq> 0" "tls_blocks w' (specific w' j key) = Some s" "st_registered s"
      show "area_owner k' j (st_slot s)"
      proof (cases "specific w' j key = b")
        case True
        then have "s = st" using s(2) fresh(6) by simp
        moreover have "j = i"
        proof (rule ccontr)
          assume "j \<noteq> i"
          then have "specific ?w j key = b" using True fresh(8) by (metis fun_upd_other)
          then show False using slots_okD(2) [OF I(1), of j key] fresh(3,4) by simp
        qed
        ultimately show ?thesis using R(5) s(3) by simp
      next
        case False
        have e: "specific w' j key = specific ?w j key" using False fresh(8) by (metis fun_upd_apply)
        have o: "specific ?w j key \<noteq> 0" "tls_blocks ?w (specific ?w j key) = Some s" using s False unfolding fresh(6) e by simp_all
        have "area_owner ?k j (st_slot s)" by (rule O [OF o s(3)])
        moreover have "st_slot s \<noteq> st_slot st" using conjunct1 [OF B [OF o(2)]] R(1) by auto
        ultimately show ?thesis using R(4,7) unfolding area_owner_def by (auto split: if_splits) (metis option.distinct(1))
      qed
    qed
    ultimately have "abi_inv P ?G (A\<lparr>km := k', self_rseq := w'\<rparr>)" using A fresh(2) R(8) by (simp add: abi_inv_def)
    then show ?thesis using fresh(1) R(2,5,6) by (simp add: self_registered_rseq_def) blast
  qed
qed

lemma rseq_keeps:
  assumes P: "platform_ok P k0" and lc: "libc_ok lc" and A: "abi_inv P (dom (areas k0)) A"
  shows "\<exists>A' r. rseq P lc i A = Some (A', r) \<and> abi_inv P (dom (areas k0)) A' \<and>
    (case r of Inl m \<Rightarrow> m = NO_TLS | Inr p \<Rightarrow> p \<in> dom (areas (km A')) \<and> (published P = None \<longrightarrow> area_owner (km A') i p \<or> poisoned (km A') p))"
proof -
  have G: "dom (areas k0) \<subseteq> dom (areas (km A))" using A by (simp add: abi_inv_def kmem_ok_def)
  have glibc: "area_at P i ofs \<in> dom (areas (km A))" if "published P = Some ofs" for ofs using that P G unfolding platform_ok_def by blast
  consider (ask) "rseq_offset A = I64_MIN" | (none) "rseq_offset A = I64_MAX" "published P = None" | (pub) "published P = Some (rseq_offset A)"
    using A by (auto simp: abi_inv_def)
  then show ?thesis
  proof cases
    case ask
    show ?thesis
    proof (cases "published P")
      case None
      have "abi_inv P (dom (areas k0)) (A\<lparr>rseq_offset := I64_MAX\<rparr>)" using A None by (simp add: abi_inv_def)
      note K = self_keeps [OF P lc this, of i]
      have "rseq P lc i A = self_registered_rseq P lc i (A\<lparr>rseq_offset := I64_MAX\<rparr>)" using ask None
        by (auto simp: rseq_def rseq_resolve_def published_def split: option.splits if_splits)
      then show ?thesis using K by (metis (mono_tags, lifting) sum.case_eq_if)
    next
      case (Some ofs)
      then show ?thesis using A ask glibc [OF Some] by (auto simp: rseq_def rseq_resolve_def published_def abi_inv_def split: option.splits if_splits)
    qed
  next
    case none
    have "I64_MAX \<noteq> I64_MIN" by (simp add: I64_MAX_def I64_MIN_def)
    then have "rseq P lc i A = self_registered_rseq P lc i A" using none by (simp add: rseq_def rseq_resolve_def)
    then show ?thesis using self_keeps [OF P lc A, of i] by (metis (mono_tags, lifting) sum.case_eq_if)
  next
    case pub
    then show ?thesis using A glibc [OF pub] by (auto simp: rseq_def published_def split: option.splits if_splits)
  qed
qed

lemma exit_keeps:
  assumes P: "platform_ok P k0" and A: "abi_inv P (dom (areas k0)) A"
  shows "\<exists>A'. abi_exit P i A = Some A' \<and> abi_inv P (dom (areas k0)) A'"
proof -
  let ?G = "dom (areas k0)" and ?k = "km A" and ?w = "self_rseq A"
  have I: "slots_ok ?w" "kmem_ok ?G ?k" "boxes_ok ?G ?k ?w" "owners_ok ?k ?w" using A by (simp_all add: abi_inv_def)
  note B = I(3) [unfolded boxes_ok_def, rule_format] and O = I(4) [unfolded owners_ok_def, rule_format]
  from I(1) show ?thesis
  proof (cases rule: exit_slot_cases [where i = i and drop_T = "storage_drop P i" and s = ?k])
    case none
    then show ?thesis using A by (simp add: abi_exit_def)
  next
    case (some w' p st)
    have s: "st_registered st \<Longrightarrow> area_owner ?k i (st_slot st)" "\<not> st_registered st \<Longrightarrow> poisoned ?k (st_slot st)" "st_slot st \<notin> ?G"
      using O [of i "key_cell ?w" st] B [OF some(3)] some(1-3) by auto
    let ?k' = "storage_drop P i st ?k"
    note R = drop_cases [OF P I(2) s]
    have "boxes_ok ?G ?k' w'" by (rule boxes_gone [OF I(3) some(3) R(2) _ some(6)]) (auto simp: R(3) split: if_splits)
    moreover have "owners_ok ?k' w'" unfolding owners_ok_def
    proof (intro allI impI)
      fix j key t assume t: "specific w' j key \<noteq> 0" "tls_blocks w' (specific w' j key) = Some t" "st_registered t"
      then have o: "specific ?w j key \<noteq> 0" "tls_blocks ?w (specific ?w j key) = Some t" "specific w' j key = specific ?w j key" using some(6,7) by (auto split: if_splits)
      have "j \<noteq> i" using t(1) some(7) slots_okD(1) [OF I(1) o(1)] by (auto split: if_splits)
      then show "area_owner ?k' j (st_slot t)" using O [OF o(1,2) t(3)] R(3) unfolding area_owner_def by (auto split: if_splits)
    qed
    ultimately have "abi_inv P ?G (A\<lparr>km := ?k', self_rseq := w'\<rparr>)" using A some(5) R(4) by (simp add: abi_inv_def)
    then show ?thesis using some(4) by (simp add: abi_exit_def)
  qed
qed

text \<open>A write to a live area that keeps its poison.\<close>

lemma write_keeps:
  assumes "abi_inv P G A" "areas (km A) p = Some a" "\<And>q. poisoned (km A) q \<Longrightarrow> q = p \<Longrightarrow> ra_cpu_id_start a' = CPU_UNREGISTERED"
  shows "abi_inv P G (A\<lparr>km := (km A)\<lparr>areas := (areas (km A))(p \<mapsto> a')\<rparr>\<rparr>)"
proof -
  let ?k = "(km A)\<lparr>areas := (areas (km A))(p \<mapsto> a')\<rparr>"
  have d: "dom (areas ?k) = dom (areas (km A))" using assms(2) by auto
  have p: "poisoned ?k q" if "poisoned (km A) q" for q using that assms(3) [OF that] by (auto simp: poisoned_def)
  have "boxes_ok G ?k (self_rseq A)" using assms(1) p unfolding abi_inv_def boxes_ok_def d by blast
  moreover have "kmem_ok G ?k" using assms(1) unfolding abi_inv_def kmem_ok_def d by simp
  moreover have "owners_ok ?k (self_rseq A)" using assms(1) by (simp add: abi_inv_def owners_ok_def area_owner_def)
  ultimately show ?thesis using assms(1) by (simp add: abi_inv_def)
qed

lemma abi_init_inv: "platform_ok P k0 \<Longrightarrow> abi_inv P (dom (areas k0)) (abi_init k0)"
  by (simp add: abi_inv_def abi_init_def platform_ok_def kmem_ok_def boxes_ok_def owners_ok_def pl_new_def slots_ok_def)

lemma abi_step_inv:
  assumes "abi_step P A A'" "platform_ok P k0" "abi_inv P (dom (areas k0)) A"
  shows "abi_inv P (dom (areas k0)) A'"
  using assms(1)
proof cases
  case (ask lc i r)
  then show ?thesis using rseq_keeps [OF assms(2) ask(1) assms(3), of i] by auto
next
  case (leave i)
  then show ?thesis using exit_keeps [OF assms(2,3), of i] by auto
next
  case (arm p a v)
  show ?thesis unfolding arm(1) by (rule write_keeps [OF assms(3) arm(2)]) (auto simp: poisoned_def arm(2))
next
  case (kernel_write i p a)
  moreover have "kmem_ok (dom (areas k0)) (km A)" using assms(3) by (simp add: abi_inv_def)
  ultimately obtain a0 where "areas (km A) p = Some a0" unfolding kmem_ok_def by blast
  then show ?thesis unfolding kernel_write(1) using kernel_write(2) by (intro write_keeps [OF assms(3)]) (auto simp: poisoned_def)
qed

lemma abi_steps_inv: "(abi_step P)\<^sup>*\<^sup>* (abi_init k0) A \<Longrightarrow> platform_ok P k0 \<Longrightarrow> abi_inv P (dom (areas k0)) A"
  by (induction rule: rtranclp_induct) (auto intro: abi_init_inv abi_step_inv)

subsection \<open>A thread without an area\<close>

text \<open>A hint outside the CPUs of the slab ends every sequence at once.\<close>

lemma hint_out_of_range:
  assumes "args_ok G p r" "geo_cpus G \<le> cpu_id_start t" "geo_cpus G < 2 ^ 32" "cpu_id_start t < 2 ^ 32"
  shows "leads (code a p) cs (m, t\<lparr>pc := 0, regs := r\<rparr>) (ends p (code a p) m RFallback)"
proof -
  have n: "r R_ncpus = geo_cpus G" using assms(1) by (simp add: args_ok_def)
  show ?thesis using assms(2-4) n
    by (cases a; cases p) (((rule leads_step, simp, simp add: pop_a64_targets pop_a64_fetch push_a64_targets push_a64_fetch pop_x64_targets pop_x64_fetch push_x64_targets push_x64_fetch exec_frame_simps)+)[1],
      (rule leads_done, simp add: ends_def))+
qed

text \<open>
  An area whose two CPU fields differ, as those of an area that was never registered do, makes
  every attempt fail until none is left.
\<close>

lemma countdown: "w64 18446744073709551620 = 4" "w64 18446744073709551619 = 3" "w64 18446744073709551618 = 2" "w64 18446744073709551617 = 1" "w64 18446744073709551616 = 0"
  by (simp_all add: w64_def)

lemma hint_mismatch:
  assumes A: "args_ok G p r" "r R_loops = 5" and n: "cs < 2 ^ 64"
    and c: "cpu_id_start t < geo_cpus G" "geo_cpus G < 2 ^ 32" "cpu_id t < 2 ^ 32" "cpu_id t \<noteq> cpu_id_start t"
  shows "leads (code a p) cs (m, t\<lparr>pc := 0, regs := r\<rparr>) (ends p (code a p) m RFallback)"
proof -
  have N: "r R_ncpus = geo_cpus G" using A(1) by (simp add: args_ok_def)
  have c': "cpu_id_start t \<noteq> cpu_id t" "\<not> geo_cpus G \<le> cpu_id_start t" using c by auto
  note F = pop_a64_targets pop_a64_fetch push_a64_targets push_a64_fetch pop_x64_targets pop_x64_fetch push_x64_targets push_x64_fetch exec_frame_simps
    countdown adr_simps [OF n]
  show ?thesis using N A(2) c c'
    by (cases a; cases p) (((rule leads_step, simp, simp add: F)+)[1], (rule leads_done, simp add: ends_def))+
qed

text \<open>The sequence, started on a thread with registers \<open>r\<close>, runs to its end, changes nothing and reports \<open>Fallback\<close>.\<close>

definition falls_back :: "arch \<Rightarrow> rseq_op \<Rightarrow> nat \<Rightarrow> mem \<Rightarrow> thr \<Rightarrow> (reg \<Rightarrow> nat) \<Rightarrow> bool" where
  "falls_back a op cs m t r \<longleftrightarrow>
     (\<exists>n t'. (exec1 (code a op) cs ^^ n) (m, t\<lparr>pc := 0, regs := r\<rparr>) = (m, t') \<and> finished a op t' \<and> result_of op t' = RFallback)"

lemma leads_fallback: "leads (code a op) cs (m, t\<lparr>pc := 0, regs := r\<rparr>) (ends op (code a op) m RFallback) \<Longrightarrow> falls_back a op cs m t r"
proof -
  assume "leads (code a op) cs (m, t\<lparr>pc := 0, regs := r\<rparr>) (ends op (code a op) m RFallback)"
  then obtain n where e: "ends op (code a op) m RFallback ((exec1 (code a op) cs ^^ n) (m, t\<lparr>pc := 0, regs := r\<rparr>))" unfolding leads_def by blast
  then show ?thesis unfolding falls_back_def
    by (intro exI [of _ n] exI [of _ "snd ((exec1 (code a op) cs ^^ n) (m, t\<lparr>pc := 0, regs := r\<rparr>))"]) (auto simp: ends_def finished_def prod_eq_iff)
qed

lemma published_rseq:
  assumes "abi_inv P G A" "published P = Some ofs" "rseq P lc i A = Some (A', Inr p)"
  shows "km A' = km A" "p = area_at P i ofs"
  using assms by (auto simp: rseq_def rseq_resolve_def published_def abi_inv_def split: option.splits if_splits)

subsection \<open>Instances\<close>

text \<open>A platform without glibc's area, with a kernel that registers, or refuses (\<open>ENOSYS\<close>).\<close>

definition demo_kernel :: "nat \<Rightarrow> nat \<Rightarrow> nat \<Rightarrow> nat \<Rightarrow> nat \<Rightarrow> kmem \<Rightarrow> nat \<times> kmem" where
  "demo_kernel i p len flags sig k =
     (if flags = 0 then (if kreg k i = None then (0, k\<lparr>kreg := (kreg k)(i := Some p)\<rparr>) else (16, k))
      else if flags = 1 \<and> kreg k i = Some p then (0, k\<lparr>kreg := (kreg k)(i := None)\<rparr>) else (22, k))"

definition demo_platform :: "bool \<Rightarrow> platform" where
  "demo_platform b = \<lparr> p_arch = A64, thread_pointer = (\<lambda>_. 0), dl = (\<lambda>_. None), peek = (\<lambda>_. 0), box_at = (\<lambda>U. Suc (Max (insert 0 U))),
     syscall_rseq = (if b then demo_kernel else (\<lambda>i p len flags sig k. if flags = 1 then demo_kernel i p len flags sig k else (38, k))) \<rparr>"

definition demo_kmem :: kmem where
  "demo_kmem = \<lparr> areas = Map.empty, kreg = (\<lambda>_. None) \<rparr>"

definition demo_libc :: libc where
  "demo_libc = \<lparr> key_create = (0, 3), memalign = (\<lambda>U a n. if 4096 \<in> U then (12, 0) else (0, 4096)), setspecific = 0 \<rparr>"

lemma demo_platform_ok: "platform_ok (demo_platform b) demo_kmem"
proof -
  have "Suc (Max (insert 0 U)) \<notin> U" if "finite U" for U
    using that Max_ge [of "insert 0 U" "Suc (Max (insert 0 U))"] by (meson finite_insert insertI2 not_less_eq_eq order_refl)
  then show ?thesis
    by (auto simp: platform_ok_def sys_rseq_ok_def sys_rseq_def demo_platform_def demo_kernel_def demo_kmem_def published_def libc_rseq_offset_def split: if_splits)
qed

lemma demo_libc_ok: "libc_ok demo_libc"
  by (simp add: libc_ok_def demo_libc_def)

lemma demo_published: "published (demo_platform b) = None"
  by (simp add: published_def libc_rseq_offset_def demo_platform_def)

definition demo_asked :: "bool \<Rightarrow> abi_state" where
  "demo_asked b = \<lparr> rseq_offset = I64_MAX,
     km = \<lparr> areas = [1 \<mapsto> if b then rseq_zeroed else rseq_zeroed\<lparr>ra_cpu_id_start := CPU_UNREGISTERED\<rparr>], kreg = (\<lambda>_. None)(7 := if b then Some 1 else None) \<rparr>,
     self_rseq = \<lparr> key_cell = 3, once = True, failed = False, specific = (\<lambda>i k. 0)(7 := (\<lambda>k. 0)(3 := 4096)), tls_blocks = [4096 \<mapsto> \<lparr> st_slot = 1, st_registered = b \<rparr>] \<rparr> \<rparr>"

lemma demo_ask: "rseq (demo_platform b) demo_libc 7 (abi_init demo_kmem) = Some (demo_asked b, Inr 1)"
  by (simp add: rseq_def rseq_resolve_def abi_init_def libc_rseq_offset_def demo_platform_def self_registered_rseq_def pl_with_def pl_key_def pl_new_def init_slot_def
      demo_libc_def register_def demo_kmem_def sys_rseq_def demo_kernel_def demo_asked_def Let_def fun_upd_idem)

subsection \<open>Properties\<close>

text \<open>
  C16. Over any history of threads that ask for their area, end, and run sequences, the kernel writes only
  to live memory: every area that it has registered exists, although boxes are freed when threads end. No
  lookup and no destructor touches a freed block; a lookup answers with a live area, or aborts because
  no thread-local storage can be had.
\<close>

theorem rseq_area_live:
  assumes "platform_ok P k0" "(abi_step P)\<^sup>*\<^sup>* (abi_init k0) A" "libc_ok lc"
  shows "(\<forall>i p. kreg (km A) i = Some p \<longrightarrow> p \<in> dom (areas (km A))) \<and> abi_exit P i A \<noteq> None \<and>
    (\<exists>A' r. rseq P lc i A = Some (A', r) \<and> (case r of Inl m \<Rightarrow> m = NO_TLS | Inr p \<Rightarrow> p \<in> dom (areas (km A'))))"
proof -
  note I = abi_steps_inv [OF assms(2,1)]
  have "\<forall>i p. kreg (km A) i = Some p \<longrightarrow> p \<in> dom (areas (km A))" using I by (simp add: abi_inv_def kmem_ok_def)
  moreover obtain A' r where "rseq P lc i A = Some (A', r)" "case r of Inl m \<Rightarrow> m = NO_TLS | Inr p \<Rightarrow> p \<in> dom (areas (km A'))"
    using rseq_keeps [OF assms(1,3) I, of i] by (metis (mono_tags, lifting) sum.case_eq_if)
  ultimately show ?thesis using exit_keeps [OF assms(1) I, of i] by auto
qed

theorem rseq_area_live_witness:
  "abi_step (demo_platform True) (abi_init demo_kmem) (demo_asked True) \<and> kreg (km (demo_asked True)) 7 = Some 1 \<and> 1 \<in> dom (areas (km (demo_asked True))) \<and>
   abi_exit (demo_platform True) 7 (demo_asked True) \<noteq> None"
proof -
  have s: "abi_step (demo_platform True) (abi_init demo_kmem) (demo_asked True)" by (rule abi_step.ask [OF demo_libc_ok demo_ask])
  have k: "kreg (km (demo_asked True)) 7 = Some 1" by (simp add: demo_asked_def)
  show ?thesis using rseq_area_live [OF demo_platform_ok _ demo_libc_ok, of True "demo_asked True" 7] s k by blast
qed

text \<open>
  C17. A thread without a registered area still works. When glibc publishes no area: either the
  kernel has registered exactly the thread's own area, for this thread only, or it refused, and
  then the area reads as no CPU and a pop or push that uses it, on any slab and on both
  architectures, changes nothing and reports \<open>Fallback\<close>. When glibc publishes an area, that area is
  used as it is: if it was left unregistered, with CPU fields that differ (the kernel never filled
  them), every pop and push still reports \<open>Fallback\<close> and changes nothing, but \<open>current_cpu\<close> answers
  with the untouched start field instead of no CPU, unless that field holds the unregistered mark.
\<close>

theorem rseq_unregistered_fallback:
  assumes "platform_ok P k0" "(abi_step P)\<^sup>*\<^sup>* (abi_init k0) A" "libc_ok lc" "rseq P lc i A = Some (A', Inr p)" "areas (km A') p = Some area"
    and "geo_cpus G < 2 ^ 32" "args_ok G op r" "r R_loops = 5" "cs < 2 ^ 64"
    and "cpu_id_start t = ra_cpu_id_start area" "cpu_id t = ra_cpu_id area" "cpu_id_start t < 2 ^ 32" "cpu_id t < 2 ^ 32"
  shows "(published P = None \<longrightarrow> (\<forall>j. kreg (km A') j = Some p \<longleftrightarrow> j = i) \<or>
       (abi_current_cpu P lc i A = Some (A', Inr None) \<and> falls_back a op cs m t r)) \<and>
    (\<forall>ofs. published P = Some ofs \<and> ra_cpu_id area \<noteq> ra_cpu_id_start area \<longrightarrow> p = area_at P i ofs \<and> km A' = km A \<and> falls_back a op cs m t r \<and>
       abi_current_cpu P lc i A = Some (A', Inr (if ra_cpu_id_start area = CPU_UNREGISTERED then None else Some (ra_cpu_id_start area))))"
proof (intro conjI impI allI)
  note inv = abi_steps_inv [OF assms(2,1)]
  assume "published P = None"
  then have "area_owner (km A') i p \<or> poisoned (km A') p" using rseq_keeps [OF assms(1,3) inv, of i] assms(4) by auto
  moreover have "abi_current_cpu P lc i A = Some (A', Inr None) \<and> falls_back a op cs m t r" if "poisoned (km A') p"
  proof -
    have u: "ra_cpu_id_start area = CPU_UNREGISTERED" using that assms(5) by (simp add: poisoned_def)
    have "leads (code a op) cs (m, t\<lparr>pc := 0, regs := r\<rparr>) (ends op (code a op) m RFallback)"
      by (rule hint_out_of_range [OF assms(7)]) (use assms(6,10,12) u in \<open>simp_all add: CPU_UNREGISTERED_def\<close>)
    then show ?thesis using leads_fallback assms(4,5) u by (auto simp: abi_current_cpu_def)
  qed
  ultimately show "(\<forall>j. kreg (km A') j = Some p \<longleftrightarrow> j = i) \<or> (abi_current_cpu P lc i A = Some (A', Inr None) \<and> falls_back a op cs m t r)"
    unfolding area_owner_def by blast
next
  fix ofs assume p: "published P = Some ofs \<and> ra_cpu_id area \<noteq> ra_cpu_id_start area"
  note inv = abi_steps_inv [OF assms(2,1)]
  show "p = area_at P i ofs" "km A' = km A" using published_rseq [OF inv _ assms(4)] p by blast+
  have "leads (code a op) cs (m, t\<lparr>pc := 0, regs := r\<rparr>) (ends op (code a op) m RFallback)"
  proof (cases "geo_cpus G \<le> cpu_id_start t")
    case True
    then show ?thesis using hint_out_of_range [OF assms(7) _ assms(6,12)] by blast
  next
    case False
    then show ?thesis using p assms(10,11) by (intro hint_mismatch [OF assms(7-9) _ assms(6,13)]) simp_all
  qed
  then show "falls_back a op cs m t r" by (rule leads_fallback)
  show "abi_current_cpu P lc i A = Some (A', Inr (if ra_cpu_id_start area = CPU_UNREGISTERED then None else Some (ra_cpu_id_start area)))"
    using assms(4,5) by (simp add: abi_current_cpu_def)
qed

text \<open>One instance per case: a kernel that refuses, and a glibc that publishes an area it has not registered.\<close>

definition glibc_platform :: platform where
  "glibc_platform = (demo_platform True)\<lparr>dl := (\<lambda>_. Some 8), peek := (\<lambda>_. 64)\<rparr>"

definition glibc_kmem :: kmem where
  "glibc_kmem = \<lparr> areas = [64 \<mapsto> rseq_zeroed\<lparr>ra_cpu_id := CPU_UNREGISTERED\<rparr>], kreg = (\<lambda>_. None) \<rparr>"

lemma glibc_published: "published glibc_platform = Some 64" "area_at glibc_platform i 64 = 64"
  by (simp_all add: published_def libc_rseq_offset_def glibc_platform_def I64_MIN_def I64_MAX_def area_at_def demo_platform_def)

lemma glibc_platform_ok: "platform_ok glibc_platform glibc_kmem"
proof -
  have "sys_rseq_ok glibc_platform \<longleftrightarrow> sys_rseq_ok (demo_platform True)" "box_at glibc_platform = box_at (demo_platform True)"
    by (simp_all add: sys_rseq_ok_def sys_rseq_def glibc_platform_def)
  then show ?thesis using demo_platform_ok [of True] glibc_published by (auto simp: platform_ok_def glibc_kmem_def)
qed

lemma glibc_ask: "rseq glibc_platform demo_libc 7 (abi_init glibc_kmem) = Some ((abi_init glibc_kmem)\<lparr>rseq_offset := 64\<rparr>, Inr 64)"
  using glibc_published by (simp add: rseq_def rseq_resolve_def abi_init_def libc_rseq_offset_def glibc_platform_def published_def split: if_splits)

theorem rseq_unregistered_fallback_witness:
  "abi_current_cpu (demo_platform False) demo_libc 7 (abi_init demo_kmem) = Some (demo_asked False, Inr None) \<and>
   falls_back A64 (OpPush 0 777) 64 tiny_mem (tiny_thr\<lparr>cpu_id_start := CPU_UNREGISTERED\<rparr>) (tiny_regs 777) \<and>
   abi_current_cpu glibc_platform demo_libc 7 (abi_init glibc_kmem) = Some ((abi_init glibc_kmem)\<lparr>rseq_offset := 64\<rparr>, Inr (Some 0)) \<and>
   falls_back X64 (OpPush 0 777) 64 tiny_mem (tiny_thr\<lparr>cpu_id := CPU_UNREGISTERED\<rparr>) (tiny_regs 777)"
proof (intro conjI)
  let ?t = "tiny_thr\<lparr>cpu_id_start := CPU_UNREGISTERED\<rparr>" and ?u = "tiny_thr\<lparr>cpu_id := CPU_UNREGISTERED\<rparr>"
  have l: "tiny_regs 777 R_loops = 5" "geo_cpus tiny_geo < 2 ^ 32" "(64::nat) < 2 ^ 64" by (simp_all add: tiny_regs_def tiny_sel)
  have f: "cpu_id_start ?t = CPU_UNREGISTERED" "cpu_id ?t = 0" "cpu_id_start ?u = 0" "cpu_id ?u = CPU_UNREGISTERED" "CPU_UNREGISTERED < 2 ^ 32" "CPU_UNREGISTERED \<noteq> 0"
    by (simp_all add: tiny_thr_def CPU_UNREGISTERED_def)
  have a: "areas (km (demo_asked False)) 1 = Some (rseq_zeroed\<lparr>ra_cpu_id_start := CPU_UNREGISTERED\<rparr>)" by (simp add: demo_asked_def)
  have k: "\<not> (\<forall>j. kreg (km (demo_asked False)) j = Some 1 \<longleftrightarrow> j = 7)" by (auto simp: demo_asked_def)
  have w: "abi_current_cpu (demo_platform False) demo_libc 7 (abi_init demo_kmem) = Some (demo_asked False, Inr None) \<and> falls_back A64 (OpPush 0 777) 64 tiny_mem ?t (tiny_regs 777)"
    using rseq_unregistered_fallback [OF demo_platform_ok rtranclp.rtrancl_refl demo_libc_ok demo_ask [of False] a l(2) tiny_args(1) [of 777] l(1,3), of ?t A64 tiny_mem]
      k demo_published f by (simp add: rseq_zeroed_def) blast
  then show "abi_current_cpu (demo_platform False) demo_libc 7 (abi_init demo_kmem) = Some (demo_asked False, Inr None)"
    "falls_back A64 (OpPush 0 777) 64 tiny_mem ?t (tiny_regs 777)" by blast+
  have b: "areas (km ((abi_init glibc_kmem)\<lparr>rseq_offset := 64\<rparr>)) 64 = Some (rseq_zeroed\<lparr>ra_cpu_id := CPU_UNREGISTERED\<rparr>)" by (simp add: abi_init_def glibc_kmem_def)
  have v: "falls_back X64 (OpPush 0 777) 64 tiny_mem ?u (tiny_regs 777) \<and>
      abi_current_cpu glibc_platform demo_libc 7 (abi_init glibc_kmem) = Some ((abi_init glibc_kmem)\<lparr>rseq_offset := 64\<rparr>, Inr (Some 0))"
    using rseq_unregistered_fallback [OF glibc_platform_ok rtranclp.rtrancl_refl demo_libc_ok glibc_ask b l(2) tiny_args(1) [of 777] l(1,3), of ?u X64 tiny_mem]
      glibc_published f by (simp add: rseq_zeroed_def)
  then show "abi_current_cpu glibc_platform demo_libc 7 (abi_init glibc_kmem) = Some ((abi_init glibc_kmem)\<lparr>rseq_offset := 64\<rparr>, Inr (Some 0))"
    "falls_back X64 (OpPush 0 777) 64 tiny_mem ?u (tiny_regs 777)" by blast+
qed

end
