(* ===== verification/Sys_Alloc.thy ===== *)
theory Sys_Alloc
  imports Toccata_Prelude
begin

text \<open>
  The handle \<open>Sys\<close> of \<^verbatim>\<open>sys/mod.rs\<close>, through which the allocator keeps its own data away from itself.
  \<open>std::alloc::System\<close> is a parameter: the address it answers with for a layout, 0 for null; its
  releases are the list of calls.
\<close>

record sys_layout =
  sl_size :: nat
  sl_align :: nat

definition sys_allocate :: "(sys_layout \<Rightarrow> nat) \<Rightarrow> sys_layout \<Rightarrow> (nat \<times> nat) option" where
  "sys_allocate alloc l =
     (if sl_size l = 0 then (if sl_align l = 0 then None else Some (sl_align l, 0))
      else if alloc l = 0 then None else Some (alloc l, sl_size l))"

definition sys_allocate_zeroed :: "(sys_layout \<Rightarrow> nat) \<Rightarrow> (sys_layout \<Rightarrow> nat) \<Rightarrow> sys_layout \<Rightarrow> (nat \<times> nat) option" where
  "sys_allocate_zeroed alloc alloc_zeroed l =
     (if sl_size l = 0 then sys_allocate alloc l
      else if alloc_zeroed l = 0 then None else Some (alloc_zeroed l, sl_size l))"

definition sys_deallocate :: "nat \<Rightarrow> sys_layout \<Rightarrow> (nat \<times> sys_layout) list" where
  "sys_deallocate p l = (if sl_size l \<noteq> 0 then [(p, l)] else [])"

text \<open>The closure may keep a state from item to item.\<close>

fun slice_loop :: "(nat \<Rightarrow> 's \<Rightarrow> 'a \<times> 's) \<Rightarrow> nat list \<Rightarrow> 'a list \<Rightarrow> 's \<Rightarrow> 'a list \<times> 's" where
  "slice_loop f [] v s = (v, s)"
| "slice_loop f (i # is) v s = (let (x, s') = f i s in slice_loop f is (v @ [x]) s')"

definition sys_boxed_slice :: "nat \<Rightarrow> (nat \<Rightarrow> 's \<Rightarrow> 'a \<times> 's) \<Rightarrow> 's \<Rightarrow> 'a list \<times> 's" where
  "sys_boxed_slice n f s = slice_loop f [0..<n] [] s"

lemma slice_loop_pure: "fst (slice_loop (\<lambda>i s. (f i, s)) is v s) = v @ map f is"
  by (induction "is" arbitrary: v) simp_all

text \<open>A stateless closure gives item \<open>i\<close> at position \<open>i\<close>.\<close>

lemma sys_boxed_slice_pure: "fst (sys_boxed_slice n (\<lambda>i s. (f i, s)) s) = map f [0..<n]"
  by (simp add: sys_boxed_slice_def slice_loop_pure)

text \<open>The answers are never null and keep the alignment; the length is the one asked for.\<close>

lemma sys_allocate_ok:
  assumes "sys_allocate alloc l = Some (p, n)" "0 < sl_align l" "alloc l \<noteq> 0 \<Longrightarrow> sl_align l dvd alloc l"
  shows "p \<noteq> 0" "n = sl_size l" "sl_align l dvd p"
  using assms by (auto simp: sys_allocate_def split: if_splits)

text \<open>
  What goes back to the system is exactly what came from it, in the order of the releases: zero-sized blocks
  reach it in neither direction.
\<close>

lemma sys_balanced:
  assumes "list_all (\<lambda>(l, p). \<exists>n. sys_allocate alloc l = Some (p, n)) bs"
  shows "concat (map (\<lambda>(l, p). sys_deallocate p l) bs) = map (\<lambda>(l, p). (alloc l, l)) (filter (\<lambda>(l, p). sl_size l \<noteq> 0) bs)"
  using assms by (induction bs) (auto simp: sys_deallocate_def sys_allocate_def split: if_splits)

end
