(* ===== verification/Spec2Isabelle.thy ===== *)
theory Spec2Isabelle
  imports Size_Class Span_Pool_Correct Cpu_Slab Sub_Heap_Props Reserve Frame_Handles_Correct Global_Alloc_Correct Supervisor Registry Rseq_Abi_Correct Sys_Alloc
begin

text \<open>
  A verification development for toccata, a memory allocator with a fixed budget: it reserves (and
  locks) its memory once and afterwards serves every allocation from it without calling the kernel.

  \<^bold>\<open>The program.\<close> A request for a small object is rounded up to a size class
  (\<^verbatim>\<open>sizeclass.rs\<close>). It is served by three layers: a magazine of the thread (\<^verbatim>\<open>magazine.rs\<close>), a stack
  of the current CPU that is popped and pushed by restartable sequences (\<^verbatim>\<open>rseq/slab.rs\<close>,
  \<^verbatim>\<open>rseq/asm.rs\<close>), and the central lists of the sub-heap (\<^verbatim>\<open>subheap.rs\<close>), which keep the free slots
  of each 64 KiB span in a bitmap (\<^verbatim>\<open>meta.rs\<close>). Spans come from a bump arena or from the index of
  free runs (\<^verbatim>\<open>spanpool.rs\<close>), where large objects live as well. A background thread
  (\<^verbatim>\<open>supervisor.rs\<close>) returns empty spans to the index. \<^verbatim>\<open>toccata/src/lib.rs\<close> publishes one sub-heap as
  the allocator of the process; \<^verbatim>\<open>registry.rs\<close> builds named ones from budgets; \<^verbatim>\<open>frame.rs\<close> is a pool of
  equal frames over the same slab, with reference-counted and typed handles; \<^verbatim>\<open>sys/reserve.rs\<close> talks
  to the kernel.

  \<^bold>\<open>Theories.\<close> Every definition carries the name of the Rust item it translates, with a prefix where
  two types have a method of the same name. Paths are relative to \<^verbatim>\<open>src/toccata-core/src\<close>.

  \<^item> \<open>Toccata_Prelude\<close>: the type \<open>'a rust\<close> of computations that may panic (\<open>None\<close>), checked indexing,
    wrapping 64-bit arithmetic, bit lemmas, the simp collections \<open>rust_simps\<close> and \<open>bits_simps\<close>.
  \<^item> \<open>Size_Class\<close> (\<^verbatim>\<open>sizeclass.rs\<close>): the table, the scan \<open>class_for\<close>, the lookup \<open>class_of\<close> and its
    compile-time table, \<open>aligned_class\<close>. The lookup equals the scan, which is a best fit.
  \<^item> \<open>Span_Meta\<close> (\<^verbatim>\<open>meta.rs\<close>): bitmaps, active lists and the span table. The emptiness test of the
    reclaimer is exact and loses no deposit.
  \<^item> \<open>Span_Pool\<close>, \<open>Span_Pool_Correct\<close> (\<^verbatim>\<open>spanpool.rs\<close>): the boundary-tag index with its two-level
    bitmap; allocation is best fit, release is union with full coalescing. The contract is the
    locale \<open>free_run_index\<close>, interpreted by \<open>sp\<close>; histories are \<open>pool_step\<close>.
  \<^item> \<open>Cpu_Slab\<close> (\<^verbatim>\<open>rseq/slab.rs\<close>, \<^verbatim>\<open>rseq/asm.rs\<close>): stacks, the fast and the locked path (its section
    under the lock also apart from the stop test before it), the stop flags.
    The locale \<open>object_cache\<close> (what a pop and a push do to the multiset of cached objects) and its
    extension \<open>object_store\<close> with a backing store are the interface of every client of the slab:
    \<open>slab_cache\<close>, \<open>shs\<close> (sub-heap) and \<open>fps\<close> (frame pool) interpret them.
  \<^item> \<open>Rseq_Asm\<close> (\<^verbatim>\<open>rseq/asm.rs\<close>): the four restartable sequences as lists of instructions, for both
    architectures, and one step of execution. \<open>Rseq_Machine\<close>: threads on several CPUs that the kernel
    switches, migrates and interrupts at any instruction, the stop flags, the barrier and the writes of a
    guard, as the step relation \<open>mstep\<close>. \<open>Rseq_Local\<close> has the assertion at every instruction, \<open>Rseq_Correct\<close>
    that interference keeps them, \<open>Rseq_Run\<close> the runs without an interruption, \<open>Rseq_Layout\<close> that the
    builder of a sub-heap gives disjoint cells. \<open>Rseq_Props\<close>: a commit is exactly one operation
    \<open>asm_pop\<close> or \<open>asm_push\<close> of the slab, so the one-step model of \<open>Cpu_Slab\<close> is justified; no sequence
    writes to a seized CPU; calls are bounded.
  \<^item> \<open>Pthread_Local\<close> (\<^verbatim>\<open>sys/pthread_local.rs\<close>), \<open>Sys_Alloc\<close> (\<^verbatim>\<open>sys/mod.rs\<close>), \<open>Rseq_Abi\<close>, \<open>Rseq_Abi_Correct\<close>
    (\<^verbatim>\<open>rseq/abi.rs\<close>, \<^verbatim>\<open>rseq/abi/linux.rs\<close>): the thread-local slot (contract: the locale
    \<open>thread_slots\<close>, interpreted by \<open>pls\<close>), the handle of the system allocator, the lookup and registration of the rseq area of a thread; the kernel never writes to a freed area, and a
    thread without a registration falls back, also on an area that glibc publishes unregistered, where
    however \<open>current_cpu\<close> is wrong.
  \<^item> \<open>Sub_Heap\<close> (\<^verbatim>\<open>subheap.rs\<close>): the state and all operations; \<open>Sub_Heap_Objects\<close> (slots, bitmaps and
    stacks as multisets of objects), \<open>Sub_Heap_Spans\<close> (one owner per span), \<open>Sub_Heap_Alloc\<close>,
    \<open>Sub_Heap_Large\<close>, \<open>Sub_Heap_Reclaim\<close> (each operation keeps the invariant \<open>heap_inv\<close> and has its
    effect), \<open>Sub_Heap_Correct\<close> (building, histories as the labelled steps \<open>heap_act\<close>, whose label is the
    operation with its arguments and results, and \<open>heap_step\<close> without the label), \<open>Sub_Heap_Refine\<close> (the
    abstract allocator \<open>alloc_spec\<close> over a set of disjoint blocks and the simulation of every labelled
    step), \<open>Sub_Heap_Props\<close> (the properties, trace refinement among them),
    \<open>Sub_Heap_Standalone\<close> (\<open>build_standalone\<close>, over a reservation).
  \<^item> \<open>Magazine\<close>, \<open>Thread_Cache\<close> (\<^verbatim>\<open>magazine.rs\<close>): the thread cache; a refill hands out objects in order,
    and cached objects plus handed out objects are the live objects of the sub-heap.
  \<^item> \<open>Reserve\<close> (\<^verbatim>\<open>sys/reserve.rs\<close>, \<^verbatim>\<open>sys/diag.rs\<close>): options, preflight, mapping with its fallbacks,
    locking, as a trace of system calls; the kernel is the record \<open>os\<close>. What the kernel was asked to
    populate is told apart from what a successful \<open>mlock2\<close> guarantees to be resident.
  \<^item> \<open>Frame_Pool\<close>, \<open>Frame_Pool_Correct\<close>, \<open>Frame_Handles\<close>, \<open>Frame_Handles_Correct\<close> (\<^verbatim>\<open>frame.rs\<close>): the pool,
    its caches, the pools that \<open>frame_pool!\<close> generates, \<open>Owned\<close>, \<open>Shared\<close>, \<open>FrameMut\<close> and \<open>FrameBuf\<close>.
    The cache pointer of a thread is null, live or freed; a use of a freed one is undefined
    (\<open>use_after_exit\<close>), so histories are those of threads whose cache is not freed.
    The metadata of a frame is any policy that satisfies the locale \<open>frame_policy\<close>; the two policies
    of the code interpret it.
  \<^item> \<open>Global_Alloc\<close> (\<^verbatim>\<open>toccata/src/lib.rs\<close>): \<open>configure\<close>, the storage of a thread and its destructor,
    \<open>alloc\<close>, \<open>alloc_zeroed\<close>, \<open>dealloc\<close>, \<open>stats\<close>. \<open>Global_Ledger\<close> and \<open>Global_Alloc_Correct\<close>: over all
    histories \<open>g_step\<close> of all threads (with the conditions below) the blocks a program holds are disjoint,
    no operation panics, and the statistics are exact.
  \<^item> \<open>Supervisor\<close> (\<^verbatim>\<open>supervisor.rs\<close>, \<^verbatim>\<open>metrics.rs\<close>, \<^verbatim>\<open>rseq/membarrier\<close>): the sweep loop, also
    interleaved with steps of other threads (\<open>sup_step\<close>), and the seize protocol. \<open>Registry\<close> (\<^verbatim>\<open>registry.rs\<close>): configuration on every path.

  \<^bold>\<open>Granularity.\<close> The sequences are modelled by single instructions in the \<open>Rseq\<close> theories, over
  sequentially consistent memory and the contract \<open>rseq_kernel\<close> of the kernel; the locked path, which does
  not exclude a sequence, is no step of that machine. In the other theories an atomic operation, a
  restartable sequence that commits, and a section under a spin lock are one step; the histories interleave whole operations of any threads in any order. Failed
  \<open>try_lock\<close>s, aborted sequences, the CPU a thread runs on and its home shard are parameters
  (\<open>ctx\<close> and the environments of the slab) and arbitrary in every step. Memory orderings are not
  modelled. Object contents are not modelled, except the values of typed frames. Two consequences: an
  \<open>add_local\<close> of the counters is one step, although the code does it with plain loads and stores, so the
  exactness of the counters holds for histories without a migration inside it (\<open>add_local_lost\<close>); and a
  thread of the locked path that tested the stop flag before a seizure is not in the histories, although
  it would still write to the stack (\<open>locked_push_races\<close>).

  \<^bold>\<open>Builds.\<close> Arithmetic and assertions are those of a release build, except the debug assertion of
  \<open>dealloc_large\<close>, which decides what a release of a pointer without a run does and is modelled for both
  builds (\<open>debug_build\<close> of \<open>ctx\<close>). The other debug assertions state facts of the lists, runs and frames
  that the invariants contain, or preconditions of the caller.

  \<^bold>\<open>Integers.\<close> Bitmap words are 64-bit words; the counters wrap as 64-bit words; casts to \<open>u32\<close>, \<open>u16\<close>
  and C \<open>int\<close> are written out. Addresses and sizes are naturals; \<open>build_ok\<close> and the layout hypotheses
  bound them where the code relies on it.

  \<^bold>\<open>Fuel.\<close> Walks along an active list carry \<open>walk_fuel\<close>, the number of spans plus one. On the lists of
  a reachable state, which have no cycle, this is enough: the theorems about \<open>central_take\<close> and the
  reclaimer state that they return. The supervisor loop runs for any given number of rounds. A sequence has
  its own bound, five attempts; \<open>rseq_calls_return\<close> bounds its instructions by 263.

  \<^bold>\<open>Conditions on histories.\<close> At the very end of the arena \<open>carve_spans\<close> grants fewer spans than an object
  of a class above 64 KiB needs (\<open>carve_tail_overruns\<close>). The steps of \<open>heap_act\<close> therefore allocate such a
  class only while the arena has no span left or those of a whole object (\<open>carvable\<close>), and a batch only
  while the spans left are whole objects of the class or enough for the batch (\<open>batch_room\<close>); the steps
  of the global allocator ask the same of its refills (\<open>servable\<close>). For classes up to 64 KiB both hold
  always. Further conditions: objects are released only while they are live, large requests have fewer
  than \<open>2 ^ 32\<close> spans, requests to the global allocator are below \<open>2 ^ 47\<close> bytes, and a thread makes none
  after its storage was freed. \<open>configure\<close> of the registry is one step, so a lost race of two of them is
  not modelled.

  \<^bold>\<open>Not modelled.\<close> Weak memory orderings; the C library, the dynamic linker, the kernel and \<open>System\<close>, which
  are parameters; boxes and vectors of the allocator-api2 library; the stubs for systems other than
  Linux; the optional start of the supervisor from environment variables; the floating-point utilization
  of \<^verbatim>\<open>metrics.rs\<close>, since rounding would have to be modelled; benchmarks and tests.
\<close>

end
